(* ===== verification/Fiber_Prelude.thy ===== *)
theory Fiber_Prelude
  imports Main "HOL-Library.Word" "HOL-Library.Monad_Syntax"
begin

text \<open>
  Shared vocabulary of the development: C pointers and typed heaps, the option monad in which a
  failed \<open>assert\<close>, a null dereference or a use after free is the value \<open>None\<close>, return codes, and
  the lemmas on linked chains of heap cells that the queue theories share.
\<close>

section \<open>Pointers, return codes and faults\<close>

type_synonym addr = nat

abbreviation NULL :: addr where "NULL \<equiv> 0"

type_synonym 'n heap = "addr \<Rightarrow> 'n option"

abbreviation FIBER_ERROR :: int where "FIBER_ERROR \<equiv> 0"
abbreviation FIBER_SUCCESS :: int where "FIBER_SUCCESS \<equiv> 1"

named_theorems mem_simps \<open>unfolding of the memory primitives\<close>
named_theorems fifo_defs \<open>definitions of the queue operations\<close>

text \<open>C's \<open>assert\<close>: a violated assertion is a fault.\<close>

definition c_assert :: "bool \<Rightarrow> unit option" where
  "c_assert b = (if b then Some () else None)"

text \<open>Reading and writing through a pointer faults on \<open>NULL\<close> and on unallocated memory.\<close>

definition load :: "'n heap \<Rightarrow> addr \<Rightarrow> 'n option" where
  "load h p = (if p = NULL then None else h p)"

definition store :: "'n heap \<Rightarrow> addr \<Rightarrow> 'n \<Rightarrow> 'n heap option" where
  "store h p n = (if p = NULL \<or> h p = None then None else Some (h(p \<mapsto> n)))"

text \<open>
  The allocator is the C library's: the address it returns (\<open>NULL\<close> on failure) is an argument.
  \<open>free\<close> accepts \<open>NULL\<close> and faults on a block that is not allocated (a double free).
\<close>

definition alloc :: "'n heap \<Rightarrow> addr \<Rightarrow> 'n \<Rightarrow> 'n heap" where
  "alloc h a n = (if a = NULL then h else h(a \<mapsto> n))"

definition dealloc :: "'n heap \<Rightarrow> addr \<Rightarrow> 'n heap option" where
  "dealloc h p = (if p = NULL then Some h else if h p = None then None else Some (h(p := None)))"

lemma c_assert_simps [simp]:
  "c_assert True = Some ()" "c_assert False = None"
  by (simp_all add: c_assert_def)

lemma c_assert_bind [simp]: "(c_assert b \<bind> f) = (if b then f () else None)"
  by (simp add: c_assert_def)

lemma load_Some [simp]: "h p = Some n \<Longrightarrow> p \<noteq> NULL \<Longrightarrow> load h p = Some n"
  by (simp add: load_def)

lemma load_NULL [simp]: "load h NULL = None"
  by (simp add: load_def)

lemma load_SomeD: "load h p = Some n \<Longrightarrow> h p = Some n \<and> p \<noteq> NULL"
  by (simp add: load_def split: if_splits)

lemma store_Some [simp]: "h p = Some n \<Longrightarrow> p \<noteq> NULL \<Longrightarrow> store h p m = Some (h(p \<mapsto> m))"
  by (simp add: store_def)

lemma store_NULL [simp]: "store h NULL m = None"
  by (simp add: store_def)

lemma store_SomeD: "store h p m = Some h' \<Longrightarrow> p \<noteq> NULL \<and> h p \<noteq> None \<and> h' = h(p \<mapsto> m)"
  by (auto simp: store_def split: if_splits)

lemma dealloc_Some [simp]: "h p = Some n \<Longrightarrow> p \<noteq> NULL \<Longrightarrow> dealloc h p = Some (h(p := None))"
  by (simp add: dealloc_def)

lemmas [mem_simps] = load_def store_def alloc_def dealloc_def c_assert_def

lemma map_option_bindE [simp]: "map_option g (x \<bind> k) = (x \<bind> (\<lambda>y. map_option g (k y)))"
  by (cases x) auto

lemma map_option_if [simp]:
  "map_option g (if b then x else y) = (if b then map_option g x else map_option g y)"
  by simp

lemma two_elementsE:
  assumes "length ns = Suc (Suc k)"
  obtains a b ms where "ns = a # b # ms"
  using assms by (auto simp: length_Suc_conv)

text \<open>
  \<open>compare_and_swap2\<close> of \<open>include/machine_specific.h\<close>: the double-word compare-exchange, on the
  value of the location; it has no spurious failure.
\<close>

definition compare_and_swap2 :: "'p \<Rightarrow> 'p \<Rightarrow> 'p \<Rightarrow> 'p \<times> bool" where
  "compare_and_swap2 location original_value new_value =
     (if location = original_value then (new_value, True) else (location, False))"

text \<open>Array accesses: an index outside the allocated block is a fault.\<close>

definition nth_opt :: "'a list \<Rightarrow> nat \<Rightarrow> 'a option" where
  "nth_opt xs i = (if i < length xs then Some (xs ! i) else None)"

lemma nth_opt_Some [simp]: "i < length xs \<Longrightarrow> nth_opt xs i = Some (xs ! i)"
  by (simp add: nth_opt_def)

lemma nth_opt_None [simp]: "length xs \<le> i \<Longrightarrow> nth_opt xs i = None"
  by (simp add: nth_opt_def)

text \<open>Indices of a power of two ring: masking is reduction modulo the size, injective on a window.\<close>

lemma mod_window_inj:
  fixes i j a n :: nat
  assumes "i mod n = j mod n" "a \<le> i" "i < a + n" "a \<le> j" "j < a + n"
  shows "i = j"
proof (rule ccontr)
  assume "i \<noteq> j"
  then consider "i < j" | "j < i" by linarith
  then show False
  proof cases
    case 1
    then have "n dvd j - i" using mod_eq_dvd_iff_nat [of i j n] assms(1) by simp
    then have "n \<le> j - i" using 1 by (simp add: dvd_imp_le)
    then show False using assms by linarith
  next
    case 2
    then have "n dvd i - j" using mod_eq_dvd_iff_nat [of j i n] assms(1) by simp
    then have "n \<le> i - j" using 2 by (simp add: dvd_imp_le)
    then show False using assms by linarith
  qed
qed

lemma unat_and_mask:
  fixes w m :: "'a::len word"
  assumes "unat m = 2 ^ k - 1"
  shows "unat (and w m) = unat w mod 2 ^ k"
proof -
  have "unat (and w m) = and (unat w) (mask k)"
    by (simp add: unsigned_and_eq assms mask_eq_exp_minus_1)
  then show ?thesis
    by (simp flip: take_bit_eq_mask take_bit_eq_mod)
qed

lemma of_nat_word_inj:
  "i < 2 ^ LENGTH('a::len) \<Longrightarrow> j < 2 ^ LENGTH('a) \<Longrightarrow> (of_nat i :: 'a word) = of_nat j \<longleftrightarrow> i = j"
  by (metis of_nat_inverse)

lemma unat_Suc64: "Suc (unat w) < 2 ^ 64 \<Longrightarrow> unat (w + 1 :: 64 word) = Suc (unat w)"
  by (simp add: unat_word_ariths)

lemma unat_ucast_32_64 [simp]: "unat (ucast (w :: 32 word) :: 64 word) = unat w"
  using unsigned_less [of w, where 'a = nat] by (simp add: unsigned_ucast_eq take_bit_nat_eq_self)

section \<open>Chains of heap cells\<close>

text \<open>
  \<open>chain nx h p as q\<close>: following the link field \<open>nx\<close> from \<open>p\<close> visits the cells \<open>as\<close> in order and
  arrives at \<open>q\<close>.
\<close>

fun chain :: "('n \<Rightarrow> addr) \<Rightarrow> 'n heap \<Rightarrow> addr \<Rightarrow> addr list \<Rightarrow> addr \<Rightarrow> bool" where
  "chain nx h p [] q = (p = q)"
| "chain nx h p (a # as) q =
     (p = a \<and> a \<noteq> NULL \<and> (case h a of None \<Rightarrow> False | Some n \<Rightarrow> chain nx h (nx n) as q))"

lemma chain_append [simp]:
  "chain nx h p (as @ bs) q \<longleftrightarrow> (\<exists>m. chain nx h p as m \<and> chain nx h m bs q)"
  by (induction as arbitrary: p) (auto split: option.splits)

lemma chain_NULL [simp]: "chain nx h NULL as q \<longleftrightarrow> as = [] \<and> q = NULL"
  by (cases as) auto

lemma chain_upd [simp]: "a \<notin> set as \<Longrightarrow> chain nx (h(a := v)) p as q = chain nx h p as q"
  by (induction as arbitrary: p) (auto split: option.splits)

lemma chain_cong: "(\<And>a. a \<in> set as \<Longrightarrow> h a = g a) \<Longrightarrow> chain nx h p as q = chain nx g p as q"
  by (induction as arbitrary: p) (auto split: option.splits)

lemma chain_upd_same:
  "h a = Some x \<Longrightarrow> nx y = nx x \<Longrightarrow> chain nx (h(a \<mapsto> y)) p as q = chain nx h p as q"
  by (induction as arbitrary: p) (auto split: option.splits)

lemma chain_not_NULL: "chain nx h p as q \<Longrightarrow> NULL \<notin> set as"
  by (induction as arbitrary: p) (auto split: option.splits)

lemma chain_alloc: "chain nx h p as q \<Longrightarrow> a \<in> set as \<Longrightarrow> \<exists>n. h a = Some n"
  by (induction as arbitrary: p) (auto split: option.splits)

lemma chain_unique: "chain nx h p as NULL \<Longrightarrow> chain nx h p bs NULL \<Longrightarrow> as = bs"
proof (induction as arbitrary: p bs)
  case Nil
  then show ?case by simp
next
  case (Cons a as)
  then show ?case by (cases bs) (auto split: option.splits)
qed

lemma chain_butlast_last:
  assumes "chain nx h p as NULL" "as \<noteq> []"
  shows "\<exists>n. h (last as) = Some n \<and> nx n = NULL \<and> last as \<noteq> NULL \<and> chain nx h p (butlast as) (last as)"
proof -
  have "chain nx h p (butlast as @ [last as]) NULL"
    using assms by simp
  then show ?thesis by (auto split: option.splits)
qed

text \<open>Appending a cell at the end of a chain: the two writes of every linked queue's push.\<close>

lemma chain_snoc_link:
  assumes "chain nx h p as NULL" "as \<noteq> []" "distinct as"
    and "t = last as" "a \<notin> set as" "a \<noteq> NULL"
    and "nx n = NULL" "nx m = a"
  shows "chain nx (h(a \<mapsto> n, t \<mapsto> m)) p (as @ [a]) NULL"
proof -
  have eq: "as = butlast as @ [t]"
    using assms(2,4) by simp
  have d: "t \<notin> set (butlast as)" "a \<notin> set (butlast as)" "t \<noteq> a"
    using assms(2-5) eq distinct_butlast[OF assms(3)]
    by (metis distinct.simps(2) distinct_append disjoint_iff list.set_intros(1), 
        metis in_set_butlastD, metis last_in_set)
  have "chain nx h p (butlast as) t" and t: "t \<noteq> NULL"
    using chain_butlast_last[OF assms(1,2)] assms(4) by auto
  then have "chain nx (h(a \<mapsto> n, t \<mapsto> m)) p (butlast as @ [t]) a"
    using d assms(8) by simp
  then have "chain nx (h(a \<mapsto> n, t \<mapsto> m)) p as a"
    using eq by simp
  then show ?thesis
    using d assms(6,7) by simp
qed

text \<open>
  The destruction loop of the linked containers: read the link, free the cell, go on. A cycle or
  a dangling link is a fault.
\<close>

partial_function (option) free_chain :: "('n \<Rightarrow> addr) \<Rightarrow> 'n heap \<Rightarrow> addr \<Rightarrow> 'n heap option" where
  "free_chain nx h p =
     (if p = NULL then Some h
      else do { n \<leftarrow> load h p; h' \<leftarrow> dealloc h p; free_chain nx h' (nx n) })"

lemma free_chain_NULL [simp]: "free_chain nx h NULL = Some h"
  by (simp add: free_chain.simps)

lemma free_chain_frees:
  "chain nx h p as NULL \<Longrightarrow> distinct as \<Longrightarrow> free_chain nx h p = Some (h |` (- set as))"
proof (induction as arbitrary: h p)
  case Nil
  then show ?case by simp
next
  case (Cons a as)
  then obtain n where n: "h a = Some n" "a \<noteq> NULL" "p = a" "chain nx h (nx n) as NULL"
    by (auto split: option.splits)
  have "free_chain nx (h(a := None)) (nx n) = Some ((h(a := None)) |` (- set as))"
    using Cons.prems n by (intro Cons.IH) (simp_all del: fun_upd_apply)
  moreover have "(h(a := None)) |` (- set as) = h |` (- set (a # as))"
    by (auto simp: restrict_map_def fun_eq_iff)
  ultimately show ?case
    using n by (subst free_chain.simps) simp
qed

end
