(* ===== verification/Fifo_Spec.thy ===== *)
theory Fifo_Spec
  imports Fiber_Prelude
begin

text \<open>
  The contract of the node based FIFO queues (\<open>mpsc_fifo\<close>, \<open>spsc_fifo\<close>, \<open>dist_fifo\<close>): the caller
  hands a node over with a push and gets a node back from a pop; the queue always keeps one node
  more than it has elements, and the node a pop returns is the former dummy, carrying the oldest
  element. The locale states the laws of one push and one pop; its lemmas lift them to every
  sequence of operations.
\<close>

datatype fifo_op = Push addr | Pop

text \<open>
  The abstract queue: \<open>ns\<close> are the nodes the queue owns, \<open>xs\<close> its elements, oldest first, and
  \<open>d\<close> the data fields as the client sees them. Pushing a node that the queue already owns, or that
  is not allocated, is a client error (\<open>None\<close>). The output lists what each pop delivers.
\<close>

fun fifo_spec_run ::
    "(addr \<Rightarrow> addr option) \<Rightarrow> addr list \<Rightarrow> addr list \<Rightarrow> fifo_op list \<Rightarrow> addr option list option" where
  "fifo_spec_run d ns xs [] = Some []"
| "fifo_spec_run d ns xs (Push n # ops) =
     (case d n of
        None \<Rightarrow> None
      | Some x \<Rightarrow> if n = NULL \<or> n \<in> set ns then None
                  else fifo_spec_run d (ns @ [n]) (xs @ [x]) ops)"
| "fifo_spec_run d ns xs (Pop # ops) =
     (case xs of
        [] \<Rightarrow> map_option (Cons None) (fifo_spec_run d ns xs ops)
      | x # xs' \<Rightarrow> map_option (Cons (Some x))
                     (fifo_spec_run (d(hd ns := Some x)) (tl ns) xs' ops))"

text \<open>The same sequence on an implementation: \<open>push\<close>, \<open>trypop\<close> and reading a node's data.\<close>

fun fifo_run ::
    "('h \<Rightarrow> 'f \<Rightarrow> addr \<Rightarrow> ('h \<times> 'f) option) \<Rightarrow> ('h \<Rightarrow> 'f \<Rightarrow> ('h \<times> 'f \<times> addr) option) \<Rightarrow>
     ('h \<Rightarrow> addr \<Rightarrow> addr option) \<Rightarrow> 'h \<Rightarrow> 'f \<Rightarrow> fifo_op list \<Rightarrow> addr option list option" where
  "fifo_run push trypop dat h f [] = Some []"
| "fifo_run push trypop dat h f (Push n # ops) =
     do { (h', f') \<leftarrow> push h f n; fifo_run push trypop dat h' f' ops }"
| "fifo_run push trypop dat h f (Pop # ops) =
     do { (h', f', n) \<leftarrow> trypop h f;
          if n = NULL then map_option (Cons None) (fifo_run push trypop dat h' f' ops)
          else do { x \<leftarrow> dat h' n; map_option (Cons (Some x)) (fifo_run push trypop dat h' f' ops) } }"

locale fifo_queue =
  fixes push :: "'h \<Rightarrow> 'f \<Rightarrow> addr \<Rightarrow> ('h \<times> 'f) option"
    and trypop :: "'h \<Rightarrow> 'f \<Rightarrow> ('h \<times> 'f \<times> addr) option"
    and dat :: "'h \<Rightarrow> addr \<Rightarrow> addr option"
    and rep :: "'h \<Rightarrow> 'f \<Rightarrow> addr list \<Rightarrow> addr list \<Rightarrow> bool"
  assumes push_rep:
      "rep h f ns xs \<Longrightarrow> n \<notin> set ns \<Longrightarrow> n \<noteq> NULL \<Longrightarrow> dat h n = Some x \<Longrightarrow>
       \<exists>h' f'. push h f n = Some (h', f') \<and> rep h' f' (ns @ [n]) (xs @ [x]) \<and> dat h' = dat h"
    and trypop_empty: "rep h f ns [] \<Longrightarrow> trypop h f = Some (h, f, NULL)"
    and trypop_rep:
      "rep h f ns (x # xs) \<Longrightarrow>
       \<exists>h' f'. trypop h f = Some (h', f', hd ns) \<and> rep h' f' (tl ns) xs \<and>
               dat h' = (dat h)(hd ns := Some x)"
    and rep_nodes: "rep h f ns xs \<Longrightarrow> length ns = Suc (length xs) \<and> distinct ns \<and> NULL \<notin> set ns"
begin

lemma rep_hd: "rep h f ns xs \<Longrightarrow> hd ns \<noteq> NULL \<and> hd ns \<in> set ns"
  using rep_nodes[of h f ns xs] by (cases ns) auto

text \<open>Every run the abstract queue allows, the implementation performs with the same outputs.\<close>

lemma run_refines:
  "rep h f ns xs \<Longrightarrow> fifo_spec_run (dat h) ns xs ops = Some outs \<Longrightarrow>
   fifo_run push trypop dat h f ops = Some outs"
proof (induction ops arbitrary: h f ns xs outs)
  case Nil
  then show ?case by simp
next
  case (Cons op ops)
  show ?case
  proof (cases op)
    case (Push n)
    with Cons.prems obtain x where x: "dat h n = Some x" "n \<noteq> NULL" "n \<notin> set ns"
      and run: "fifo_spec_run (dat h) (ns @ [n]) (xs @ [x]) ops = Some outs"
      by (auto split: option.splits if_splits)
    obtain h' f' where p: "push h f n = Some (h', f')" "rep h' f' (ns @ [n]) (xs @ [x])" "dat h' = dat h"
      using push_rep[OF Cons.prems(1)] x by blast
    have "fifo_run push trypop dat h' f' ops = Some outs"
      using Cons.IH[OF p(2)] run p(3) by simp
    with Push p(1) show ?thesis by simp
  next
    case Pop
    show ?thesis
    proof (cases xs)
      case Nil
      with Pop Cons.prems obtain outs' where
        "fifo_spec_run (dat h) ns [] ops = Some outs'" "outs = None # outs'"
        by auto
      with Pop Nil Cons.IH[OF Cons.prems(1)] trypop_empty[of h f ns] Cons.prems(1) show ?thesis
        by simp
    next
      case (Cons x xs')
      with Pop \<open>fifo_spec_run (dat h) ns xs (op # ops) = Some outs\<close> obtain outs' where
        o: "fifo_spec_run ((dat h)(hd ns := Some x)) (tl ns) xs' ops = Some outs'" "outs = Some x # outs'"
        by auto
      from Cons \<open>rep h f ns xs\<close> obtain h' f' where
        t: "trypop h f = Some (h', f', hd ns)" "rep h' f' (tl ns) xs'"
           "dat h' = (dat h)(hd ns := Some x)"
        using trypop_rep by blast
      have "fifo_run push trypop dat h' f' ops = Some outs'"
        using Cons.IH[OF t(2)] o(1) t(3) by (simp del: fun_upd_apply)
      with Pop t o(2) rep_hd[OF \<open>rep h f ns xs\<close>] show ?thesis
        by simp
    qed
  qed
qed

end

text \<open>Filling the abstract queue and draining it returns the values in the order of the pushes.\<close>

lemma fifo_spec_run_pops:
  "length ns = Suc (length xs) \<Longrightarrow>
   fifo_spec_run d ns xs (replicate (length xs) Pop) = Some (map Some xs)"
  by (induction xs arbitrary: d ns) auto

lemma fifo_spec_run_fill:
  "distinct ms \<Longrightarrow> set ms \<inter> set ns = {} \<Longrightarrow> NULL \<notin> set ms \<Longrightarrow> (\<forall>m\<in>set ms. d m \<noteq> None) \<Longrightarrow>
   fifo_spec_run d ns xs (map Push ms @ ops) =
   fifo_spec_run d (ns @ ms) (xs @ map (the \<circ> d) ms) ops"
proof (induction ms arbitrary: ns xs)
  case Nil
  then show ?case by simp
next
  case (Cons m ms)
  then show ?case by (auto split: option.splits)
qed

section \<open>Bounded queues\<close>

text \<open>
  The contract of the rings: a put appends unless the queue is full, a take removes the oldest
  message unless the queue is empty.  The boolean of an operation is a spurious failure of its
  compare-exchange, after which nothing has changed.
\<close>

datatype bq_op = Put addr bool | Take bool

datatype bq_res = PutRes int | TakeRes addr

fun bq_spec_step :: "nat \<Rightarrow> addr list \<Rightarrow> bq_op \<Rightarrow> addr list \<times> bq_res" where
  "bq_spec_step c xs (Put x sp) =
     (if length xs < c \<and> \<not> sp then (xs @ [x], PutRes 1) else (xs, PutRes 0))"
| "bq_spec_step c xs (Take sp) =
     (if xs \<noteq> [] \<and> \<not> sp then (tl xs, TakeRes (hd xs)) else (xs, TakeRes NULL))"

fun bq_spec_run :: "nat \<Rightarrow> addr list \<Rightarrow> bq_op list \<Rightarrow> addr list \<times> bq_res list" where
  "bq_spec_run c xs [] = (xs, [])"
| "bq_spec_run c xs (op # ops) =
     (let (xs', r) = bq_spec_step c xs op; (ys, rs) = bq_spec_run c xs' ops in (ys, r # rs))"

fun bq_run ::
    "('q \<Rightarrow> addr \<Rightarrow> bool \<Rightarrow> ('q \<times> int) option) \<Rightarrow> ('q \<Rightarrow> bool \<Rightarrow> ('q \<times> addr) option) \<Rightarrow>
     'q \<Rightarrow> bq_op list \<Rightarrow> ('q \<times> bq_res list) option" where
  "bq_run put pull q [] = Some (q, [])"
| "bq_run put pull q (Put x sp # ops) =
     do { (q', r) \<leftarrow> put q x sp; (q'', rs) \<leftarrow> bq_run put pull q' ops; Some (q'', PutRes r # rs) }"
| "bq_run put pull q (Take sp # ops) =
     do { (q', r) \<leftarrow> pull q sp; (q'', rs) \<leftarrow> bq_run put pull q' ops; Some (q'', TakeRes r # rs) }"

fun bq_puts_ok :: "bq_op list \<Rightarrow> bool" where
  "bq_puts_ok [] = True"
| "bq_puts_ok (Put x sp # ops) = (x \<noteq> NULL \<and> bq_puts_ok ops)"
| "bq_puts_ok (Take sp # ops) = bq_puts_ok ops"

locale bounded_queue =
  fixes put :: "'q \<Rightarrow> addr \<Rightarrow> bool \<Rightarrow> ('q \<times> int) option"
    and pull :: "'q \<Rightarrow> bool \<Rightarrow> ('q \<times> addr) option"
    and items :: "'q \<Rightarrow> addr list"
    and cap :: "'q \<Rightarrow> nat"
    and age :: "'q \<Rightarrow> nat"
    and limit :: nat
    and inv :: "'q \<Rightarrow> bool"
  assumes put_ok:
      "inv q \<Longrightarrow> x \<noteq> NULL \<Longrightarrow> Suc (age q) < limit \<Longrightarrow> length (items q) < cap q \<Longrightarrow>
       \<exists>q'. put q x False = Some (q', 1) \<and> inv q' \<and> items q' = items q @ [x] \<and>
            cap q' = cap q \<and> age q' = Suc (age q)"
    and put_fails: "inv q \<Longrightarrow> x \<noteq> NULL \<Longrightarrow> cap q \<le> length (items q) \<or> sp \<Longrightarrow> put q x sp = Some (q, 0)"
    and pull_ok:
      "inv q \<Longrightarrow> items q \<noteq> [] \<Longrightarrow>
       \<exists>q'. pull q False = Some (q', hd (items q)) \<and> inv q' \<and> items q' = tl (items q) \<and>
            cap q' = cap q \<and> age q' = age q"
    and pull_fails: "inv q \<Longrightarrow> items q = [] \<or> sp \<Longrightarrow> pull q sp = Some (q, NULL)"
begin

lemma step_put:
  assumes "inv q" "x \<noteq> NULL" "Suc (age q) < limit"
  shows "\<exists>q' r. put q x sp = Some (q', r) \<and> inv q' \<and> cap q' = cap q \<and> age q' \<le> Suc (age q) \<and>
                bq_spec_step (cap q) (items q) (Put x sp) = (items q', PutRes r)"
proof (cases "length (items q) < cap q \<and> \<not> sp")
  case True
  then show ?thesis using put_ok [OF assms] by fastforce
next
  case False
  then have "put q x sp = Some (q, 0)"
    using put_fails [OF assms(1,2)] by (meson not_le)
  with False assms show ?thesis by fastforce
qed

lemma step_pull:
  assumes "inv q"
  shows "\<exists>q' r. pull q sp = Some (q', r) \<and> inv q' \<and> cap q' = cap q \<and> age q' = age q \<and>
                bq_spec_step (cap q) (items q) (Take sp) = (items q', TakeRes r)"
proof (cases "items q \<noteq> [] \<and> \<not> sp")
  case True
  then show ?thesis using pull_ok [OF assms] by fastforce
next
  case False
  then have "pull q sp = Some (q, NULL)"
    using pull_fails [OF assms] by blast
  with False assms show ?thesis by fastforce
qed

text \<open>Every sequence of operations runs without a fault and answers as the abstract queue does.\<close>

lemma bq_run_refines:
  "inv q \<Longrightarrow> bq_puts_ok ops \<Longrightarrow> age q + length ops < limit \<Longrightarrow>
   \<exists>q' rs. bq_run put pull q ops = Some (q', rs) \<and> inv q' \<and> cap q' = cap q \<and>
           bq_spec_run (cap q) (items q) ops = (items q', rs)"
proof (induction ops arbitrary: q)
  case Nil
  then show ?case by simp
next
  case (Cons op ops)
  obtain q1 r1 where s: "bq_run put pull q (op # ops) =
        do { (q'', rs) \<leftarrow> bq_run put pull q1 ops; Some (q'', r1 # rs) }"
      "inv q1" "cap q1 = cap q" "age q1 \<le> Suc (age q)"
      "bq_spec_step (cap q) (items q) op = (items q1, r1)"
  proof (cases op)
    case (Put x sp)
    then show thesis using that step_put [of q x sp] Cons.prems by fastforce
  next
    case (Take sp)
    then show thesis using that step_pull [of q sp] Cons.prems by fastforce
  qed
  obtain q' rs where "bq_run put pull q1 ops = Some (q', rs)" "inv q'" "cap q' = cap q"
      "bq_spec_run (cap q) (items q1) ops = (items q', rs)"
    using Cons.IH [of q1] s Cons.prems by (cases op) auto
  with s show ?case by simp
qed

end

lemma bq_spec_step_bounded: "length xs \<le> c \<Longrightarrow> length (fst (bq_spec_step c xs op)) \<le> c"
  by (cases op) auto

lemma bq_spec_run_bounded:
  "length xs \<le> c \<Longrightarrow> length (fst (bq_spec_run c xs ops)) \<le> c"
proof (induction ops arbitrary: xs)
  case (Cons op ops)
  obtain ys r where "bq_spec_step c xs op = (ys, r)" by fastforce
  with Cons bq_spec_step_bounded [of xs c op] show ?case
    by (simp add: Let_def case_prod_beta)
qed simp

end
