(* ===== verification/Mpsc_Fifo.thy ===== *)
theory Mpsc_Fifo
  imports Fifo_Spec
begin

text \<open>
  \<open>include/mpsc_fifo.h\<close>: the multi-producer single-consumer queue on which every wait list of the
  library is built. The queue is a chain of heap nodes from \<open>head\<close> (a dummy) to \<open>tail\<close>. A push is
  three memory operations, each a definition of its own, so that the same definitions serve the
  sequential operation and the interleaved machine of theory \<open>Mpsc_Concurrent\<close>.
\<close>

record mpsc_fifo_node =
  mn_data :: addr
  mn_next :: addr

record mpsc_fifo =
  mpsc_head :: addr
  mpsc_tail :: addr

type_synonym mpsc_heap = "mpsc_fifo_node heap"

definition mpsc_fifo_init :: "mpsc_heap \<Rightarrow> addr \<Rightarrow> mpsc_heap \<times> mpsc_fifo \<times> int" where
  "mpsc_fifo_init h a =
     (alloc h a \<lparr>mn_data = NULL, mn_next = NULL\<rparr>, \<lparr>mpsc_head = a, mpsc_tail = a\<rparr>,
      if a = NULL then 0 else 1)"

definition mpsc_fifo_destroy :: "mpsc_heap \<Rightarrow> mpsc_fifo \<Rightarrow> (mpsc_heap \<times> mpsc_fifo) option" where
  "mpsc_fifo_destroy h f =
     do { h' \<leftarrow> free_chain mn_next h (mpsc_head f); Some (h', f\<lparr>mpsc_head := NULL\<rparr>) }"

definition mpsc_push_terminate :: "mpsc_heap \<Rightarrow> addr \<Rightarrow> mpsc_heap option" where
  "mpsc_push_terminate h new_node =
     do { n \<leftarrow> load h new_node; store h new_node (n\<lparr>mn_next := NULL\<rparr>) }"

definition mpsc_push_exchange :: "mpsc_fifo \<Rightarrow> addr \<Rightarrow> mpsc_fifo \<times> addr" where
  "mpsc_push_exchange f new_node = (f\<lparr>mpsc_tail := new_node\<rparr>, mpsc_tail f)"

definition mpsc_push_link :: "mpsc_heap \<Rightarrow> addr \<Rightarrow> addr \<Rightarrow> mpsc_heap option" where
  "mpsc_push_link h prev_tail new_node =
     do { p \<leftarrow> load h prev_tail; store h prev_tail (p\<lparr>mn_next := new_node\<rparr>) }"

definition mpsc_fifo_push :: "mpsc_heap \<Rightarrow> mpsc_fifo \<Rightarrow> addr \<Rightarrow> (mpsc_heap \<times> mpsc_fifo) option" where
  "mpsc_fifo_push h f new_node =
     do { c_assert (new_node \<noteq> NULL);
          h1 \<leftarrow> mpsc_push_terminate h new_node;
          let (f', prev_tail) = mpsc_push_exchange f new_node;
          h2 \<leftarrow> mpsc_push_link h1 prev_tail new_node;
          Some (h2, f') }"

definition mpsc_fifo_peek :: "mpsc_heap \<Rightarrow> mpsc_fifo \<Rightarrow> (addr option) option" where
  "mpsc_fifo_peek h f =
     do { hd_node \<leftarrow> load h (mpsc_head f);
          if mn_next hd_node \<noteq> NULL
          then do { n \<leftarrow> load h (mn_next hd_node); Some (Some (mn_data n)) }
          else Some None }"

definition mpsc_fifo_trypop :: "mpsc_heap \<Rightarrow> mpsc_fifo \<Rightarrow> (mpsc_heap \<times> mpsc_fifo \<times> addr) option" where
  "mpsc_fifo_trypop h f =
     do { let prev_head = mpsc_head f;
          p \<leftarrow> load h prev_head;
          let prev_head_next = mn_next p;
          if prev_head_next \<noteq> NULL
          then do { n \<leftarrow> load h prev_head_next;
                    h' \<leftarrow> store h prev_head (p\<lparr>mn_data := mn_data n\<rparr>);
                    Some (h', f\<lparr>mpsc_head := prev_head_next\<rparr>, prev_head) }
          else Some (h, f, NULL) }"

text \<open>The data field of an allocated node.\<close>

definition mpsc_dat :: "mpsc_heap \<Rightarrow> addr \<Rightarrow> addr option" where
  "mpsc_dat h a = map_option mn_data (h a)"

text \<open>
  Representation: \<open>ns\<close> is the chain from the head to \<open>NULL\<close>, the tail is its last node, and the
  elements are the data of every node but the dummy.
\<close>

definition mpsc_rep :: "mpsc_heap \<Rightarrow> mpsc_fifo \<Rightarrow> addr list \<Rightarrow> addr list \<Rightarrow> bool" where
  "mpsc_rep h f ns xs \<longleftrightarrow>
     chain mn_next h (mpsc_head f) ns NULL \<and> ns \<noteq> [] \<and> distinct ns \<and> mpsc_tail f = last ns \<and>
     map Some xs = map (mpsc_dat h) (tl ns)"

lemmas [fifo_defs] =
  mpsc_fifo_init_def mpsc_push_terminate_def mpsc_push_exchange_def mpsc_push_link_def
  mpsc_fifo_push_def mpsc_fifo_peek_def mpsc_fifo_trypop_def mpsc_fifo_destroy_def

lemma mpsc_dat_upd_same:
  "h p = Some n \<Longrightarrow> mn_data m = mn_data n \<Longrightarrow> mpsc_dat (h(p \<mapsto> m)) = mpsc_dat h"
  by (auto simp: mpsc_dat_def fun_eq_iff)

lemma mpsc_rep_length: "mpsc_rep h f ns xs \<Longrightarrow> length ns = Suc (length xs)"
  by (cases ns) (auto simp: mpsc_rep_def dest: map_eq_imp_length_eq)

lemma mpsc_rep_nodes:
  "mpsc_rep h f ns xs \<Longrightarrow> length ns = Suc (length xs) \<and> distinct ns \<and> NULL \<notin> set ns"
  using mpsc_rep_length[of h f ns xs] by (auto simp: mpsc_rep_def dest: chain_not_NULL)

lemma mpsc_init_rep:
  "a \<noteq> NULL \<Longrightarrow> mpsc_fifo_init h a = (h', f, r) \<Longrightarrow> mpsc_rep h' f [a] [] \<and> r = 1"
  by (auto simp: fifo_defs mpsc_rep_def alloc_def)

lemma mpsc_push_rep:
  assumes rep: "mpsc_rep h f ns xs" and n: "n \<notin> set ns" "n \<noteq> NULL" and x: "mpsc_dat h n = Some x"
  shows "\<exists>h' f'. mpsc_fifo_push h f n = Some (h', f') \<and> mpsc_rep h' f' (ns @ [n]) (xs @ [x]) \<and>
                 mpsc_dat h' = mpsc_dat h"
proof -
  from x obtain c where c: "h n = Some c" "mn_data c = x"
    by (auto simp: mpsc_dat_def)
  from rep have ch: "chain mn_next h (mpsc_head f) ns NULL" "ns \<noteq> []" "distinct ns"
    and t: "mpsc_tail f = last ns" and xs: "map Some xs = map (mpsc_dat h) (tl ns)"
    by (auto simp: mpsc_rep_def)
  obtain l where l: "h (last ns) = Some l" "last ns \<noteq> NULL"
    using chain_butlast_last[OF ch(1,2)] by auto
  have ne: "last ns \<noteq> n"
    using ch(2) n(1) by auto
  let ?h1 = "h(n \<mapsto> c\<lparr>mn_next := NULL\<rparr>)"
  let ?h2 = "?h1(last ns \<mapsto> l\<lparr>mn_next := n\<rparr>)"
  have push: "mpsc_fifo_push h f n = Some (?h2, f\<lparr>mpsc_tail := n\<rparr>)"
    using c l n(2) ne t by (simp add: fifo_defs)
  have dat: "mpsc_dat ?h2 = mpsc_dat h"
    using mpsc_dat_upd_same[of ?h1 "last ns" l] mpsc_dat_upd_same[of h n c] c(1) l(1) ne by simp
  have "chain mn_next ?h2 (mpsc_head f) (ns @ [n]) NULL"
    by (rule chain_snoc_link[OF ch refl n]) simp_all
  then have "mpsc_rep ?h2 (f\<lparr>mpsc_tail := n\<rparr>) (ns @ [n]) (xs @ [x])"
    using ch n xs x dat by (simp add: mpsc_rep_def)
  with push dat show ?thesis by blast
qed

lemma mpsc_trypop_empty: "mpsc_rep h f ns [] \<Longrightarrow> mpsc_fifo_trypop h f = Some (h, f, NULL)"
  by (cases ns) (auto simp: mpsc_rep_def fifo_defs split: option.splits)

lemma mpsc_rep_Cons:
  assumes rep: "mpsc_rep h f ns (x # xs)"
  obtains a b ms p q where "ns = a # b # ms" "h a = Some p" "h b = Some q" "mn_next p = b"
    "a \<noteq> NULL" "b \<noteq> NULL" "mn_data q = x" "mpsc_head f = a"
proof -
  obtain a b ms where ns: "ns = a # b # ms"
    using mpsc_rep_length[OF rep] by (auto elim: two_elementsE)
  with rep obtain p where p: "h a = Some p" "a \<noteq> NULL" "mpsc_head f = a"
    "chain mn_next h (mn_next p) (b # ms) NULL" "mpsc_dat h b = Some x"
    by (auto simp: mpsc_rep_def split: option.splits)
  then obtain q where "h b = Some q" "mn_next p = b" "b \<noteq> NULL" "mn_data q = x"
    by (auto simp: mpsc_dat_def)
  with that ns p(1-3) show thesis by blast
qed

lemma mpsc_trypop_rep:
  assumes rep: "mpsc_rep h f ns (x # xs)"
  shows "\<exists>h' f'. mpsc_fifo_trypop h f = Some (h', f', hd ns) \<and> mpsc_rep h' f' (tl ns) xs \<and>
                 mpsc_dat h' = (mpsc_dat h)(hd ns := Some x)"
  using rep
proof (rule mpsc_rep_Cons)
  fix a b ms p q
  assume ns: "ns = a # b # ms"
    and pq: "h a = Some p" "h b = Some q" "mn_next p = b" "a \<noteq> NULL" "b \<noteq> NULL"
      "mn_data q = x" "mpsc_head f = a"
  let ?h' = "h(a \<mapsto> p\<lparr>mn_data := x\<rparr>)"
  have pop: "mpsc_fifo_trypop h f = Some (?h', f\<lparr>mpsc_head := b\<rparr>, a)"
    using pq by (simp add: fifo_defs)
  have dat: "mpsc_dat ?h' = (mpsc_dat h)(a := Some x)"
    by (auto simp: mpsc_dat_def)
  have "chain mn_next ?h' b (b # ms) NULL" "map Some xs = map (mpsc_dat ?h') ms"
    using rep ns pq unfolding dat by (auto simp: mpsc_rep_def)
  then have "mpsc_rep ?h' (f\<lparr>mpsc_head := b\<rparr>) (b # ms) xs"
    using rep ns unfolding mpsc_rep_def by simp
  with pop dat ns show ?thesis by simp
qed

interpretation mpsc: fifo_queue mpsc_fifo_push mpsc_fifo_trypop mpsc_dat mpsc_rep
  by unfold_locales (fact mpsc_push_rep mpsc_trypop_empty mpsc_trypop_rep mpsc_rep_nodes)+

text \<open>Peeking shows the element the next pop returns.\<close>

lemma mpsc_peek_empty: "mpsc_rep h f ns [] \<Longrightarrow> mpsc_fifo_peek h f = Some None"
  by (cases ns) (auto simp: mpsc_rep_def fifo_defs split: option.splits)

lemma mpsc_peek_rep: "mpsc_rep h f ns (x # xs) \<Longrightarrow> mpsc_fifo_peek h f = Some (Some x)"
  by (erule mpsc_rep_Cons) (simp add: fifo_defs)

text \<open>Framing: which cells an operation writes, and that a queue only depends on its own cells.\<close>

lemma mpsc_push_frame:
  "mpsc_fifo_push h f n = Some (h', f') \<Longrightarrow> p \<noteq> n \<Longrightarrow> p \<noteq> mpsc_tail f \<Longrightarrow> h' p = h p"
  by (auto simp: fifo_defs Let_def bind_eq_Some_conv dest!: store_SomeD split: if_splits)

lemma mpsc_trypop_frame:
  "mpsc_fifo_trypop h f = Some (h', f', m) \<Longrightarrow> p \<noteq> mpsc_head f \<Longrightarrow> h' p = h p"
  by (auto simp: fifo_defs Let_def bind_eq_Some_conv dest!: store_SomeD split: if_splits)

lemma mpsc_rep_cong:
  assumes "\<And>a. a \<in> set ns \<Longrightarrow> h' a = h a"
  shows "mpsc_rep h' f ns xs = mpsc_rep h f ns xs"
proof -
  have "map (mpsc_dat h') (tl ns) = map (mpsc_dat h) (tl ns)"
    using assms list.set_sel(2)[of ns] by (cases ns) (auto simp: mpsc_dat_def)
  moreover have "chain mn_next h' (mpsc_head f) ns NULL = chain mn_next h (mpsc_head f) ns NULL"
    using assms by (rule chain_cong)
  ultimately show ?thesis
    by (simp only: mpsc_rep_def)
qed

lemma mpsc_rep_ends:
  "mpsc_rep h f ns xs \<Longrightarrow> mpsc_head f = hd ns \<and> mpsc_tail f = last ns \<and> hd ns \<in> set ns \<and> last ns \<in> set ns"
  by (cases ns) (auto simp: mpsc_rep_def)

lemma mpsc_destroy_rep:
  "mpsc_rep h f ns xs \<Longrightarrow> mpsc_fifo_destroy h f = Some (h |` (- set ns), f\<lparr>mpsc_head := NULL\<rparr>)"
  using free_chain_frees[of mn_next h "mpsc_head f" ns] by (simp add: mpsc_rep_def fifo_defs)

lemma mpsc_init_destroy:
  assumes "mpsc_fifo_init h a = (h', f, r)" "a \<noteq> NULL" "h a = None"
  shows "mpsc_fifo_destroy h' f = Some (h, f\<lparr>mpsc_head := NULL\<rparr>)"
proof -
  have "h' |` (- {a}) = h"
    using assms by (auto simp: fifo_defs alloc_def restrict_map_def intro!: ext)
  then show ?thesis
    using mpsc_destroy_rep [of h' f "[a]" "[]"] mpsc_init_rep [OF assms(2,1)] by simp
qed

section \<open>Properties\<close>

text \<open>Every sequence of pushes and pops that an abstract first-in first-out queue allows runs on
  \<open>mpsc_fifo\<close> without a fault and delivers the same values.\<close>

theorem mpsc_fifo_refines:
  "mpsc_rep h f ns xs \<Longrightarrow> fifo_spec_run (mpsc_dat h) ns xs ops = Some outs \<Longrightarrow>
   fifo_run mpsc_fifo_push mpsc_fifo_trypop mpsc_dat h f ops = Some outs"
  by (rule mpsc.run_refines)

definition demo_heap :: mpsc_heap where
  "demo_heap = (\<lambda>_. None)(1 \<mapsto> \<lparr>mn_data = NULL, mn_next = NULL\<rparr>, 2 \<mapsto> \<lparr>mn_data = 7, mn_next = NULL\<rparr>,
                           3 \<mapsto> \<lparr>mn_data = 8, mn_next = NULL\<rparr>)"

theorem mpsc_fifo_refines_witness:
  "fifo_run mpsc_fifo_push mpsc_fifo_trypop mpsc_dat demo_heap \<lparr>mpsc_head = 1, mpsc_tail = 1\<rparr>
     [Push 2, Push 3, Pop, Pop, Pop] = Some [Some 7, Some 8, None]"
  by (rule mpsc_fifo_refines [of _ _ "[1]" "[]"]) (simp_all add: demo_heap_def mpsc_rep_def mpsc_dat_def)

end
