(* ===== verification/Spsc_Fifo.thy ===== *)
theory Spsc_Fifo
  imports Mpsc_Fifo
begin

text \<open>
  \<open>include/spsc_fifo.h\<close>, the wait-free single-producer single-consumer queue, and
  \<open>include/mpsc_relaxed_fifo.h\<close>, which gives every producer an \<open>spsc_fifo\<close> of its own and pops
  from them in turn. \<open>spsc_node_t\<close> has the fields of \<open>mpsc_fifo_node_t\<close>.
\<close>

type_synonym spsc_node = mpsc_fifo_node

record spsc_fifo =
  spsc_head :: addr
  spsc_tail :: addr

definition spsc_fifo_init :: "mpsc_heap \<Rightarrow> addr \<Rightarrow> mpsc_heap \<times> spsc_fifo \<times> int" where
  "spsc_fifo_init h a =
     (alloc h a \<lparr>mn_data = NULL, mn_next = NULL\<rparr>, \<lparr>spsc_head = a, spsc_tail = a\<rparr>,
      if a = NULL then 0 else 1)"

definition spsc_fifo_destroy :: "mpsc_heap \<Rightarrow> spsc_fifo \<Rightarrow> (mpsc_heap \<times> spsc_fifo) option" where
  "spsc_fifo_destroy h f =
     do { h' \<leftarrow> free_chain mn_next h (spsc_head f); Some (h', f\<lparr>spsc_head := NULL\<rparr>) }"

definition spsc_fifo_push :: "mpsc_heap \<Rightarrow> spsc_fifo \<Rightarrow> addr \<Rightarrow> (mpsc_heap \<times> spsc_fifo) option" where
  "spsc_fifo_push h f new_node =
     do { c_assert (new_node \<noteq> NULL);
          n \<leftarrow> load h new_node;
          h1 \<leftarrow> store h new_node (n\<lparr>mn_next := NULL\<rparr>);
          let prev_tail = spsc_tail f;
          let f' = f\<lparr>spsc_tail := new_node\<rparr>;
          p \<leftarrow> load h1 prev_tail;
          h2 \<leftarrow> store h1 prev_tail (p\<lparr>mn_next := new_node\<rparr>);
          Some (h2, f') }"

definition spsc_fifo_trypop :: "mpsc_heap \<Rightarrow> spsc_fifo \<Rightarrow> (mpsc_heap \<times> spsc_fifo \<times> addr) option" where
  "spsc_fifo_trypop h f =
     do { let prev_head = spsc_head f;
          p \<leftarrow> load h prev_head;
          let prev_head_next = mn_next p;
          if prev_head_next \<noteq> NULL
          then do { let f' = f\<lparr>spsc_head := prev_head_next\<rparr>;
                    n \<leftarrow> load h prev_head_next;
                    h' \<leftarrow> store h prev_head (p\<lparr>mn_data := mn_data n\<rparr>);
                    Some (h', f', prev_head) }
          else Some (h, f, NULL) }"

text \<open>
  Run alone, an operation of the single-producer queue is the operation of the multi-producer
  queue on the same pointers.
\<close>

definition spsc_as_mpsc :: "spsc_fifo \<Rightarrow> mpsc_fifo" where
  "spsc_as_mpsc f = \<lparr>mpsc_head = spsc_head f, mpsc_tail = spsc_tail f\<rparr>"

definition mpsc_as_spsc :: "mpsc_fifo \<Rightarrow> spsc_fifo" where
  "mpsc_as_spsc f = \<lparr>spsc_head = mpsc_head f, spsc_tail = mpsc_tail f\<rparr>"

definition spsc_rep :: "mpsc_heap \<Rightarrow> spsc_fifo \<Rightarrow> addr list \<Rightarrow> addr list \<Rightarrow> bool" where
  "spsc_rep h f = mpsc_rep h (spsc_as_mpsc f)"

lemma spsc_conv [simp]:
  "spsc_as_mpsc (mpsc_as_spsc g) = g" "mpsc_as_spsc (spsc_as_mpsc f) = f"
  "mpsc_head (spsc_as_mpsc f) = spsc_head f" "mpsc_tail (spsc_as_mpsc f) = spsc_tail f"
  by (simp_all add: spsc_as_mpsc_def mpsc_as_spsc_def)

lemma spsc_push_eq:
  "spsc_fifo_push h f n =
   map_option (\<lambda>(h', g). (h', mpsc_as_spsc g)) (mpsc_fifo_push h (spsc_as_mpsc f) n)"
  by (cases f) (simp cong: if_cong add: spsc_fifo_push_def fifo_defs spsc_as_mpsc_def mpsc_as_spsc_def Let_def)

lemma spsc_trypop_eq:
  "spsc_fifo_trypop h f =
   map_option (\<lambda>(h', g, m). (h', mpsc_as_spsc g, m)) (mpsc_fifo_trypop h (spsc_as_mpsc f))"
  by (cases f) (simp cong: if_cong add: spsc_fifo_trypop_def fifo_defs spsc_as_mpsc_def mpsc_as_spsc_def Let_def)

lemma spsc_push_rep:
  assumes "spsc_rep h f ns xs" "n \<notin> set ns" "n \<noteq> NULL" "mpsc_dat h n = Some x"
  shows "\<exists>h' f'. spsc_fifo_push h f n = Some (h', f') \<and> spsc_rep h' f' (ns @ [n]) (xs @ [x]) \<and>
                 mpsc_dat h' = mpsc_dat h"
  using mpsc_push_rep[of h "spsc_as_mpsc f" ns xs n x] assms
  by (force simp: spsc_rep_def spsc_push_eq)

lemma spsc_trypop_empty: "spsc_rep h f ns [] \<Longrightarrow> spsc_fifo_trypop h f = Some (h, f, NULL)"
  by (simp add: spsc_rep_def spsc_trypop_eq mpsc_trypop_empty)

lemma spsc_trypop_rep:
  assumes "spsc_rep h f ns (x # xs)"
  shows "\<exists>h' f'. spsc_fifo_trypop h f = Some (h', f', hd ns) \<and> spsc_rep h' f' (tl ns) xs \<and>
                 mpsc_dat h' = (mpsc_dat h)(hd ns := Some x)"
  using mpsc_trypop_rep[of h "spsc_as_mpsc f" ns x xs] assms
  by (force simp: spsc_rep_def spsc_trypop_eq)

lemma spsc_rep_nodes:
  "spsc_rep h f ns xs \<Longrightarrow> length ns = Suc (length xs) \<and> distinct ns \<and> NULL \<notin> set ns"
  by (simp add: spsc_rep_def mpsc_rep_nodes)

interpretation spsc: fifo_queue spsc_fifo_push spsc_fifo_trypop mpsc_dat spsc_rep
  by unfold_locales (fact spsc_push_rep spsc_trypop_empty spsc_trypop_rep spsc_rep_nodes)+

section \<open>The relaxed multi-producer queue\<close>

text \<open>\<open>counter\<close> is a \<open>size_t\<close> and wraps at \<open>2 ^ 64\<close>.\<close>

record mpscr_fifo =
  mpscr_counter :: "64 word"
  mpscr_num_producers :: nat
  mpscr_fifos :: "spsc_fifo list"

text \<open>
  The loops of \<open>mpscr_fifo_create\<close>: the \<open>calloc\<close> results for the producers' dummies are a list. When
  one of them fails, the queues built so far are destroyed.
\<close>

fun mpscr_destroy_loop :: "mpsc_heap \<Rightarrow> spsc_fifo list \<Rightarrow> mpsc_heap option" where
  "mpscr_destroy_loop h [] = Some h"
| "mpscr_destroy_loop h (f # fs) =
     do { (h', _) \<leftarrow> spsc_fifo_destroy h f; mpscr_destroy_loop h' fs }"

fun mpscr_create_loop ::
    "mpsc_heap \<Rightarrow> spsc_fifo list \<Rightarrow> addr list \<Rightarrow> (mpsc_heap \<times> spsc_fifo list option) option" where
  "mpscr_create_loop h fs [] = Some (h, Some fs)"
| "mpscr_create_loop h fs (a # as) =
     (case spsc_fifo_init h a of (h', f, r) \<Rightarrow>
        if r = 0 then do { h'' \<leftarrow> mpscr_destroy_loop h' fs; Some (h'', None) }
        else mpscr_create_loop h' (fs @ [f]) as)"

definition mpscr_fifo_create ::
    "mpsc_heap \<Rightarrow> bool \<Rightarrow> addr list \<Rightarrow> nat \<Rightarrow> (mpsc_heap \<times> mpscr_fifo option) option" where
  "mpscr_fifo_create h malloc_ok as num_producers =
     do { c_assert (num_producers > 0);
          if \<not> malloc_ok then Some (h, None)
          else do { (h', r) \<leftarrow> mpscr_create_loop h [] (take num_producers as);
                    Some (h', map_option (\<lambda>fs. \<lparr>mpscr_counter = 0, mpscr_num_producers = num_producers,
                                               mpscr_fifos = fs\<rparr>) r) } }"

definition mpscr_fifo_destroy :: "mpsc_heap \<Rightarrow> mpscr_fifo \<Rightarrow> mpsc_heap option" where
  "mpscr_fifo_destroy h f = mpscr_destroy_loop h (take (mpscr_num_producers f) (mpscr_fifos f))"

definition mpscr_fifo_push ::
    "mpsc_heap \<Rightarrow> mpscr_fifo \<Rightarrow> nat \<Rightarrow> addr \<Rightarrow> (mpsc_heap \<times> mpscr_fifo) option" where
  "mpscr_fifo_push h f producer_number new_node =
     do { c_assert (producer_number < mpscr_num_producers f);
          c_assert (new_node \<noteq> NULL);
          let index = producer_number mod mpscr_num_producers f;
          (h', q) \<leftarrow> spsc_fifo_push h (mpscr_fifos f ! index) new_node;
          Some (h', f\<lparr>mpscr_fifos := (mpscr_fifos f)[index := q]\<rparr>) }"

fun mpscr_trypop_loop ::
    "nat \<Rightarrow> mpsc_heap \<Rightarrow> mpscr_fifo \<Rightarrow> (mpsc_heap \<times> mpscr_fifo \<times> addr) option" where
  "mpscr_trypop_loop 0 h f = Some (h, f, NULL)"
| "mpscr_trypop_loop (Suc k) h f =
     do { let index = unat (mpscr_counter f) mod mpscr_num_producers f;
          let f1 = f\<lparr>mpscr_counter := mpscr_counter f + 1\<rparr>;
          (h', q, out) \<leftarrow> spsc_fifo_trypop h (mpscr_fifos f1 ! index);
          let f2 = f1\<lparr>mpscr_fifos := (mpscr_fifos f1)[index := q]\<rparr>;
          if out \<noteq> NULL then Some (h', f2, out) else mpscr_trypop_loop k h' f2 }"

definition mpscr_fifo_trypop :: "mpsc_heap \<Rightarrow> mpscr_fifo \<Rightarrow> (mpsc_heap \<times> mpscr_fifo \<times> addr) option" where
  "mpscr_fifo_trypop h f = mpscr_trypop_loop (mpscr_num_producers f) h f"

text \<open>
  Representation: one node list and one element list per producer, all nodes different.
\<close>

definition mpscr_rep :: "mpsc_heap \<Rightarrow> mpscr_fifo \<Rightarrow> addr list list \<Rightarrow> addr list list \<Rightarrow> bool" where
  "mpscr_rep h f nss xss \<longleftrightarrow>
     0 < mpscr_num_producers f \<and> length (mpscr_fifos f) = mpscr_num_producers f \<and>
     length nss = mpscr_num_producers f \<and> length xss = mpscr_num_producers f \<and>
     (\<forall>i < mpscr_num_producers f. spsc_rep h (mpscr_fifos f ! i) (nss ! i) (xss ! i)) \<and>
     (\<forall>i < mpscr_num_producers f. \<forall>j < mpscr_num_producers f.
        i \<noteq> j \<longrightarrow> set (nss ! i) \<inter> set (nss ! j) = {})"

lemma spsc_rep_cong:
  "(\<And>a. a \<in> set ns \<Longrightarrow> h' a = h a) \<Longrightarrow> spsc_rep h' f ns xs = spsc_rep h f ns xs"
  unfolding spsc_rep_def by (rule mpsc_rep_cong)

lemma spsc_trypop_frame:
  "spsc_rep h f ns xs \<Longrightarrow> spsc_fifo_trypop h f = Some (h', f', m) \<Longrightarrow> p \<notin> set ns \<Longrightarrow> h' p = h p"
  using mpsc_rep_ends[of h "spsc_as_mpsc f" ns xs]
  by (auto simp: spsc_trypop_eq spsc_rep_def intro: mpsc_trypop_frame)

lemma spsc_push_frame:
  "spsc_rep h f ns xs \<Longrightarrow> spsc_fifo_push h f n = Some (h', f') \<Longrightarrow> p \<notin> set ns \<Longrightarrow> p \<noteq> n \<Longrightarrow> h' p = h p"
  using mpsc_rep_ends[of h "spsc_as_mpsc f" ns xs]
  by (auto simp: spsc_push_eq spsc_rep_def intro: mpsc_push_frame)

text \<open>Updating one producer's queue leaves the others alone.\<close>

lemma mpscr_rep_update:
  assumes rep: "mpscr_rep h f nss xss" and i: "i < mpscr_num_producers f"
    and new: "spsc_rep h' q ns xs"
    and dis: "\<And>j. j < mpscr_num_producers f \<Longrightarrow> j \<noteq> i \<Longrightarrow> set ns \<inter> set (nss ! j) = {}"
    and fr: "\<And>j p. j < mpscr_num_producers f \<Longrightarrow> j \<noteq> i \<Longrightarrow> p \<in> set (nss ! j) \<Longrightarrow> h' p = h p"
    and f': "mpscr_num_producers f' = mpscr_num_producers f" "mpscr_fifos f' = (mpscr_fifos f)[i := q]"
  shows "mpscr_rep h' f' (nss[i := ns]) (xss[i := xs])"
proof -
  have "spsc_rep h' (mpscr_fifos f' ! j) (nss[i := ns] ! j) (xss[i := xs] ! j)"
    if j: "j < mpscr_num_producers f" for j
  proof (cases "j = i")
    case True
    with rep i new f' show ?thesis by (simp add: mpscr_rep_def)
  next
    case False
    have "spsc_rep h (mpscr_fifos f ! j) (nss ! j) (xss ! j)"
      using rep j by (simp add: mpscr_rep_def)
    then have "spsc_rep h' (mpscr_fifos f ! j) (nss ! j) (xss ! j)"
      using spsc_rep_cong[of "nss ! j" h' h] fr[OF j False] by blast
    with rep False f' show ?thesis by (simp add: mpscr_rep_def)
  qed
  moreover have "set (nss[i := ns] ! j) \<inter> set (nss[i := ns] ! k) = {}"
    if "j < mpscr_num_producers f" "k < mpscr_num_producers f" "j \<noteq> k" for j k
    using that rep dis[of j] dis[of k] unfolding mpscr_rep_def
    by (cases "j = i"; cases "k = i") (auto simp: nth_list_update)
  ultimately show ?thesis
    using rep f' by (simp add: mpscr_rep_def)
qed

lemma mpscr_repD:
  "mpscr_rep h f nss xss \<Longrightarrow> i < mpscr_num_producers f \<Longrightarrow>
   spsc_rep h (mpscr_fifos f ! i) (nss ! i) (xss ! i)"
  by (simp add: mpscr_rep_def)

lemma mpscr_pop_step_empty:
  assumes rep: "mpscr_rep h f nss xss"
    and i: "i = unat (mpscr_counter f) mod mpscr_num_producers f" and e: "xss ! i = []"
  shows "mpscr_trypop_loop (Suc k) h f =
         mpscr_trypop_loop k h (f\<lparr>mpscr_counter := mpscr_counter f + 1\<rparr>)"
proof -
  have "spsc_rep h (mpscr_fifos f ! i) (nss ! i) []"
    using mpscr_repD[OF rep, of i] rep i e by (simp add: mpscr_rep_def)
  then have "spsc_fifo_trypop h (mpscr_fifos f ! i) = Some (h, mpscr_fifos f ! i, NULL)"
    by (rule spsc_trypop_empty)
  then show ?thesis using i by simp
qed

lemma mpscr_pop_step_hit:
  assumes rep: "mpscr_rep h f nss xss"
    and i: "i = unat (mpscr_counter f) mod mpscr_num_producers f" and ne: "xss ! i = x # xs"
  shows "\<exists>h' f'. mpscr_trypop_loop (Suc k) h f = Some (h', f', hd (nss ! i)) \<and>
           mpscr_rep h' f' (nss[i := tl (nss ! i)]) (xss[i := xs]) \<and>
           mpsc_dat h' (hd (nss ! i)) = Some x \<and> mpscr_counter f' = mpscr_counter f + 1"
proof -
  have il: "i < mpscr_num_producers f"
    using rep i by (simp add: mpscr_rep_def)
  have r: "spsc_rep h (mpscr_fifos f ! i) (nss ! i) (x # xs)"
    using mpscr_repD[OF rep il] ne by simp
  then obtain h' q where q: "spsc_fifo_trypop h (mpscr_fifos f ! i) = Some (h', q, hd (nss ! i))"
      "spsc_rep h' q (tl (nss ! i)) xs" "mpsc_dat h' = (mpsc_dat h)(hd (nss ! i) := Some x)"
    using spsc_trypop_rep by blast
  let ?f' = "f\<lparr>mpscr_counter := mpscr_counter f + 1, mpscr_fifos := (mpscr_fifos f)[i := q]\<rparr>"
  have hd: "hd (nss ! i) \<noteq> NULL" "nss ! i \<noteq> []"
    using spsc.rep_hd[OF r] spsc_rep_nodes[OF r] by auto
  have dis: "set (nss ! i) \<inter> set (nss ! j) = {}" if "j < mpscr_num_producers f" "j \<noteq> i" for j
    using rep il that unfolding mpscr_rep_def by (metis (no_types))
  have "mpscr_rep h' ?f' (nss[i := tl (nss ! i)]) (xss[i := xs])"
  proof (rule mpscr_rep_update[OF rep il q(2)])
    show "set (tl (nss ! i)) \<inter> set (nss ! j) = {}" if "j < mpscr_num_producers f" "j \<noteq> i" for j
      using dis[OF that] hd(2) list.set_sel(2)[of "nss ! i"] by blast
    show "h' p = h p" if "j < mpscr_num_producers f" "j \<noteq> i" "p \<in> set (nss ! j)" for j p
      using spsc_trypop_frame[OF r q(1)] dis[OF that(1,2)] that(3) by blast
  qed simp_all
  moreover have "mpscr_trypop_loop (Suc k) h f = Some (h', ?f', hd (nss ! i))"
    using q(1) hd(1) i by (simp add: Let_def)
  ultimately show ?thesis
    using q(3) by fastforce
qed

lemma mpscr_rep_counter [simp]:
  "mpscr_rep h (f\<lparr>mpscr_counter := c\<rparr>) nss xss = mpscr_rep h f nss xss"
  by (simp add: mpscr_rep_def)

text \<open>
  The scan of \<open>k\<close> producers from the counter: the producers before position \<open>j\<close> are empty, and the
  one at position \<open>j\<close> delivers. The counter must not pass \<open>2 ^ 64\<close> during the scan.
\<close>

lemma mpscr_scan_empty:
  "mpscr_rep h f nss xss \<Longrightarrow> unat (mpscr_counter f) + k \<le> 2 ^ 64 \<Longrightarrow>
   (\<forall>i < k. xss ! ((unat (mpscr_counter f) + i) mod mpscr_num_producers f) = []) \<Longrightarrow>
   mpscr_trypop_loop k h f = Some (h, f\<lparr>mpscr_counter := mpscr_counter f + of_nat k\<rparr>, NULL)"
proof (induction k arbitrary: f)
  case 0
  then show ?case by simp
next
  case (Suc k)
  let ?c = "mpscr_counter f"
  let ?f1 = "f\<lparr>mpscr_counter := ?c + 1\<rparr>"
  have "mpscr_trypop_loop (Suc k) h f = mpscr_trypop_loop k h ?f1"
    by (rule mpscr_pop_step_empty[OF Suc.prems(1) refl]) (use Suc.prems(3) in force)
  moreover have "mpscr_trypop_loop k h ?f1 = Some (h, ?f1\<lparr>mpscr_counter := ?c + 1 + of_nat k\<rparr>, NULL)"
  proof (cases k)
    case 0
    then show ?thesis by simp
  next
    case (Suc k')
    then have "unat (?c + 1) = unat ?c + 1"
      using \<open>unat ?c + Suc k \<le> 2 ^ 64\<close> by (simp add: unat_word_ariths)
    then have "mpscr_trypop_loop k h ?f1 =
        Some (h, ?f1\<lparr>mpscr_counter := mpscr_counter ?f1 + of_nat k\<rparr>, NULL)"
      using Suc.prems(1,2) spec[OF Suc.prems(3), of "Suc _"] by (intro Suc.IH) auto
    then show ?thesis by simp
  qed
  ultimately show ?case
    by (simp add: add.assoc)
qed

lemma mpscr_scan_hit:
  "mpscr_rep h f nss xss \<Longrightarrow> unat (mpscr_counter f) + k \<le> 2 ^ 64 \<Longrightarrow> j < k \<Longrightarrow>
   (\<forall>i < j. xss ! ((unat (mpscr_counter f) + i) mod mpscr_num_producers f) = []) \<Longrightarrow>
   p = (unat (mpscr_counter f) + j) mod mpscr_num_producers f \<Longrightarrow> xss ! p = x # xs \<Longrightarrow>
   \<exists>h' f'. mpscr_trypop_loop k h f = Some (h', f', hd (nss ! p)) \<and>
           mpscr_rep h' f' (nss[p := tl (nss ! p)]) (xss[p := xs]) \<and>
           mpsc_dat h' (hd (nss ! p)) = Some x"
proof (induction k arbitrary: f j)
  case 0
  then show ?case by simp
next
  case (Suc k)
  show ?case
  proof (cases j)
    case 0
    with Suc.prems mpscr_pop_step_hit[OF Suc.prems(1), of p x xs k] show ?thesis by auto
  next
    case (Suc j')
    let ?f1 = "f\<lparr>mpscr_counter := mpscr_counter f + 1\<rparr>"
    have eq: "unat (mpscr_counter f + 1) = unat (mpscr_counter f) + 1"
      using Suc.prems(2,3) Suc by (simp add: unat_word_ariths)
    have "mpscr_trypop_loop (Suc k) h f = mpscr_trypop_loop k h ?f1"
      by (rule mpscr_pop_step_empty[OF Suc.prems(1) refl]) (use Suc.prems(4) Suc in force)
    moreover have "\<exists>h' f'. mpscr_trypop_loop k h ?f1 = Some (h', f', hd (nss ! p)) \<and>
           mpscr_rep h' f' (nss[p := tl (nss ! p)]) (xss[p := xs]) \<and>
           mpsc_dat h' (hd (nss ! p)) = Some x"
      using Suc.prems Suc eq by (intro Suc.IH[of ?f1 j']) auto
    ultimately show ?thesis by simp
  qed
qed

lemma mod_shift_surj:
  fixes c n q :: nat
  assumes "q < n"
  shows "\<exists>j < n. (c + j) mod n = q"
proof -
  let ?j = "(q + (n - c mod n)) mod n"
  have "c mod n < n" using assms by simp
  then have eq: "c mod n + (q + (n - c mod n)) = q + n" by simp
  have "(c + ?j) mod n = (c mod n + (q + (n - c mod n))) mod n"
    by (metis mod_add_left_eq mod_add_right_eq)
  also have "\<dots> = q" unfolding eq using assms by simp
  finally have "(c + ?j) mod n = q" .
  moreover have "?j < n" using assms by simp
  ultimately show ?thesis by blast
qed

section \<open>Properties\<close>

text \<open>A pop of the relaxed queue looks at the producers in turn, starting at the counter: it returns
  \<open>NULL\<close> exactly when all of them are empty, and otherwise the oldest element of the first one that is
  not, leaving the others alone.  The counter must not pass \<open>2 ^ 64\<close> during the scan.\<close>

theorem mpscr_trypop_round_robin:
  assumes rep: "mpscr_rep h f nss xss" and c: "unat (mpscr_counter f) + mpscr_num_producers f \<le> 2 ^ 64"
  shows "if \<forall>q < mpscr_num_producers f. xss ! q = []
     then mpscr_fifo_trypop h f = Some (h, f\<lparr>mpscr_counter := mpscr_counter f + of_nat (mpscr_num_producers f)\<rparr>, NULL)
     else \<exists>j p x xs h' f'. j < mpscr_num_producers f \<and> p = (unat (mpscr_counter f) + j) mod mpscr_num_producers f \<and>
       (\<forall>i < j. xss ! ((unat (mpscr_counter f) + i) mod mpscr_num_producers f) = []) \<and> xss ! p = x # xs \<and>
       mpscr_fifo_trypop h f = Some (h', f', hd (nss ! p)) \<and> mpsc_dat h' (hd (nss ! p)) = Some x \<and>
       mpscr_rep h' f' (nss[p := tl (nss ! p)]) (xss[p := xs])"
proof (cases "\<forall>q < mpscr_num_producers f. xss ! q = []")
  case True
  have "0 < mpscr_num_producers f" using rep by (simp add: mpscr_rep_def)
  with True mpscr_scan_empty [OF rep c] show ?thesis by (simp add: mpscr_fifo_trypop_def)
next
  case False
  let ?at = "\<lambda>j. (unat (mpscr_counter f) + j) mod mpscr_num_producers f"
  obtain q where "q < mpscr_num_producers f" "xss ! q \<noteq> []" using False by blast
  then have ex: "\<exists>j. j < mpscr_num_producers f \<and> xss ! ?at j \<noteq> []"
    using mod_shift_surj [of q] by metis
  define j where "j = (LEAST j. j < mpscr_num_producers f \<and> xss ! ?at j \<noteq> [])"
  have j: "j < mpscr_num_producers f" "xss ! ?at j \<noteq> []"
    using LeastI_ex [OF ex] by (simp_all add: j_def)
  have before: "\<forall>i < j. xss ! ?at i = []"
    using j(1) not_less_Least [of _ "\<lambda>j. j < mpscr_num_producers f \<and> xss ! ?at j \<noteq> []"]
    unfolding j_def by (meson less_trans)
  obtain x xs where x: "xss ! ?at j = x # xs" using j(2) by (cases "xss ! ?at j") auto
  from mpscr_scan_hit [OF rep c j(1) before refl x] j(1) before x False show ?thesis
    unfolding mpscr_fifo_trypop_def by (simp only: if_False) blast
qed

theorem mpscr_trypop_round_robin_witness:
  "mpscr_fifo_trypop ((\<lambda>_. None)(1 \<mapsto> \<lparr>mn_data = NULL, mn_next = NULL\<rparr>))
     \<lparr>mpscr_counter = 5, mpscr_num_producers = 1, mpscr_fifos = [\<lparr>spsc_head = 1, spsc_tail = 1\<rparr>]\<rparr> =
   Some ((\<lambda>_. None)(1 \<mapsto> \<lparr>mn_data = NULL, mn_next = NULL\<rparr>),
     \<lparr>mpscr_counter = 6, mpscr_num_producers = 1, mpscr_fifos = [\<lparr>spsc_head = 1, spsc_tail = 1\<rparr>]\<rparr>, NULL)"
proof -
  let ?h = "(\<lambda>_. None)(1 \<mapsto> \<lparr>mn_data = NULL, mn_next = NULL\<rparr>)"
  let ?f = "\<lparr>mpscr_counter = 5, mpscr_num_producers = 1, mpscr_fifos = [\<lparr>spsc_head = 1, spsc_tail = 1\<rparr>]\<rparr>"
  have "mpscr_rep ?h ?f [[1]] [[]]" by (simp add: mpscr_rep_def spsc_rep_def mpsc_rep_def spsc_as_mpsc_def)
  from mpscr_trypop_round_robin [OF this] show ?thesis by simp
qed

end
