(* ===== verification/Step_Machine.thy ===== *)
theory Step_Machine
  imports Fiber_Prelude
begin

text \<open>
  The interleaved models share one shape: a state, a set of atomic actions, and a partial step
  function in which \<open>None\<close> is a fault.  A schedule is any list of actions.  The locale lifts an
  invariant from one step to every schedule; the number counts the steps that are still allowed,
  for machines whose counters wrap after a bound, and \<open>good\<close> restricts the actions, for
  machines with a bounded number of threads.
\<close>

fun run_steps :: "('a \<Rightarrow> 's \<Rightarrow> 's option) \<Rightarrow> 'a list \<Rightarrow> 's \<Rightarrow> 's option" where
  "run_steps step [] s = Some s"
| "run_steps step (a # as) s = do { s' \<leftarrow> step a s; run_steps step as s' }"

lemma run_steps_append:
  "run_steps step (as @ bs) s = do { s' \<leftarrow> run_steps step as s; run_steps step bs s' }"
  by (induction as arbitrary: s) (auto split: Option.bind_splits)

locale machine =
  fixes step :: "'a \<Rightarrow> 's \<Rightarrow> 's option"
    and good :: "'a \<Rightarrow> bool"
    and inv :: "nat \<Rightarrow> 's \<Rightarrow> bool"
  assumes step_ok: "inv (Suc k) s \<Longrightarrow> good a \<Longrightarrow> \<exists>s'. step a s = Some s' \<and> inv k s'"
begin

lemma run_ok:
  "inv (length as) s \<Longrightarrow> \<forall>a \<in> set as. good a \<Longrightarrow> \<exists>s'. run_steps step as s = Some s' \<and> inv 0 s'"
proof (induction as arbitrary: s)
  case (Cons a as)
  then obtain s1 where "step a s = Some s1" "inv (length as) s1"
    using step_ok [of "length as" s a] by auto
  with Cons show ?case by simp
qed simp

end

text \<open>
  Counting threads: \<open>weight N f pc\<close> adds up the weight \<open>f\<close> of the positions of the threads below
  \<open>N\<close>.  A step of one thread changes the sum by the difference of its weights.
\<close>

definition weight :: "nat \<Rightarrow> ('p \<Rightarrow> nat) \<Rightarrow> (nat \<Rightarrow> 'p) \<Rightarrow> nat" where
  "weight N f pc = (\<Sum>u<N. f (pc u))"

lemma weight_upd:
  assumes "t < N"
  shows "weight N f (pc(t := x)) + f (pc t) = weight N f pc + f x"
proof -
  have "(\<Sum>u\<in>{..<N} - {t}. f ((pc(t := x)) u)) = (\<Sum>u\<in>{..<N} - {t}. f (pc u))"
    by (rule sum.cong) auto
  then show ?thesis
    using assms by (simp add: weight_def sum.remove [of "{..<N}" t])
qed

lemma weight_ge: "t < N \<Longrightarrow> f (pc t) \<le> weight N f pc"
  unfolding weight_def by (rule member_le_sum) auto

lemma weight_ge2: "t < N \<Longrightarrow> u < N \<Longrightarrow> t \<noteq> u \<Longrightarrow> f (pc t) + f (pc u) \<le> weight N f pc"
proof -
  assume "t < N" "u < N" "t \<noteq> u"
  then have "sum (\<lambda>v. f (pc v)) {t, u} \<le> weight N f pc"
    unfolding weight_def by (intro sum_mono2) auto
  with \<open>t \<noteq> u\<close> show ?thesis by simp
qed

lemma weight_add: "weight N (\<lambda>p. f p + g p) pc = weight N f pc + weight N g pc"
  by (simp add: weight_def sum.distrib)

lemma weight_mono: "(\<And>p. f p \<le> g p) \<Longrightarrow> weight N f pc \<le> weight N g pc"
  by (simp add: weight_def sum_mono)

lemma weight_le: "(\<And>p. f p \<le> 1) \<Longrightarrow> weight N f pc \<le> N"
  using sum_mono [of "{..<N}" "\<lambda>u. f (pc u)" "\<lambda>_. 1"] by (simp add: weight_def)

lemma weight_const_zero [simp]: "(\<And>u. u < N \<Longrightarrow> f (pc u) = 0) \<Longrightarrow> weight N f pc = 0"
  by (simp add: weight_def)

lemma weight_pos: "0 < weight N f pc \<Longrightarrow> \<exists>t < N. 0 < f (pc t)"
  by (metis gr0I less_irrefl weight_const_zero)

lemma weight_card:
  assumes f: "\<And>p. f p = (if p \<in> A then 1 else 0)" and N: "\<And>t. pc t \<in> A \<Longrightarrow> t < N"
  shows "weight N f pc = card {t. pc t \<in> A}"
proof -
  have "weight N f pc = (\<Sum>u<N. if pc u \<in> A then 1 else 0)"
    by (simp add: weight_def f)
  also have "\<dots> = card ({..<N} \<inter> {t. pc t \<in> A})"
    by (simp add: sum.If_cases)
  also have "{..<N} \<inter> {t. pc t \<in> A} = {t. pc t \<in> A}" using N by auto
  finally show ?thesis .
qed

section \<open>Progress\<close>

text \<open>Some part of a schedule, from its beginning, leads to the goal.\<close>

definition reaches :: "('a \<Rightarrow> 's \<Rightarrow> 's option) \<Rightarrow> ('s \<Rightarrow> bool) \<Rightarrow> 'a list \<Rightarrow> 's \<Rightarrow> bool" where
  "reaches step goal as s \<longleftrightarrow> (\<exists>bs cs s'. as = bs @ cs \<and> run_steps step bs s = Some s' \<and> goal s')"

lemma reaches_Cons: "step b s = Some s' \<Longrightarrow> reaches step goal as s' \<Longrightarrow> reaches step goal (b # as) s"
  unfolding reaches_def by (metis append_Cons bind.bind_lunit run_steps.simps(2))

lemma reaches_now: "step b s = Some s' \<Longrightarrow> goal s' \<Longrightarrow> reaches step goal (b # as) s"
  unfolding reaches_def by (intro exI [of _ "[b]"] exI [of _ as] exI [of _ s']) simp

lemma reaches_append: "reaches step goal as s \<Longrightarrow> reaches step goal (as @ bs) s"
  unfolding reaches_def by (metis append.assoc)

lemma reaches_later: "run_steps step as s = Some s' \<Longrightarrow> reaches step goal bs s' \<Longrightarrow> reaches step goal (as @ bs) s"
  unfolding reaches_def by (metis append.assoc bind.bind_lunit run_steps_append)

text \<open>
  What happens under every fair schedule.  \<open>W s n a\<close> says that in state \<open>s\<close> the action \<open>a\<close> brings the goal nearer, which is \<open>n\<close> such
  actions away at most; any other action leaves this as it is, or does as well.
\<close>

locale progress =
  fixes step :: "'a \<Rightarrow> 's \<Rightarrow> 's option"
    and good :: "'a \<Rightarrow> bool"
    and goal :: "'s \<Rightarrow> bool"
    and W :: "'s \<Rightarrow> nat \<Rightarrow> 'a \<Rightarrow> bool"
  assumes progress: "W s n a \<Longrightarrow> good b \<Longrightarrow>
    \<exists>s'. step b s = Some s' \<and> (goal s' \<or> (\<exists>n' < n. \<exists>a'. W s' n' a') \<or> b \<noteq> a \<and> W s' n a)"
begin

text \<open>A part of a schedule never makes the distance larger; one with the helpful action makes it smaller.\<close>

lemma round:
  "W s n a \<Longrightarrow> \<forall>b \<in> set as. good b \<Longrightarrow>
   reaches step goal as s \<or> (\<exists>s'. run_steps step as s = Some s' \<and> ((\<exists>n' < n. \<exists>a'. W s' n' a') \<or> a \<notin> set as \<and> W s' n a))"
proof (induction as arbitrary: s n a)
  case (Cons b as)
  then obtain s1 where s1: "step b s = Some s1" "goal s1 \<or> (\<exists>n' < n. \<exists>a'. W s1 n' a') \<or> b \<noteq> a \<and> W s1 n a"
    using progress [of s n a b] by auto
  from s1(2) consider "goal s1" | n' a' where "n' < n" "W s1 n' a'" | "b \<noteq> a" "W s1 n a"
    by blast
  then show ?case
  proof cases
    case 1
    then have "reaches step goal (b # as) s" by (rule reaches_now [where step = step, OF s1(1)])
    then show ?thesis ..
  next
    case 2
    with Cons.IH [of s1 n' a'] Cons.prems(2) s1(1) reaches_Cons [where step = step, OF s1(1)] show ?thesis
      by (auto intro: less_trans)
  next
    case 3
    with Cons.IH [of s1 n a] Cons.prems(2) s1(1) reaches_Cons [where step = step, OF s1(1)] show ?thesis
      by auto
  qed
qed simp

text \<open>Enough rounds, each with every action that may be needed, reach the goal.\<close>

lemma rounds_reach:
  "W s n a \<Longrightarrow> n < length rounds \<Longrightarrow> \<forall>r \<in> set rounds. (\<forall>b \<in> set r. good b) \<and> H \<subseteq> set r \<Longrightarrow> (\<And>s n a. W s n a \<Longrightarrow> a \<in> H) \<Longrightarrow>
   reaches step goal (concat rounds) s"
proof (induction rounds arbitrary: s n a)
  case (Cons r rounds)
  have r: "a \<in> set r" "\<forall>b \<in> set r. good b"
    using Cons.prems(1,3,4) by auto
  show ?case
  proof (cases "reaches step goal r s")
    case True
    then show ?thesis by (simp add: reaches_append)
  next
    case False
    then obtain s' n' a' where s': "run_steps step r s = Some s'" "n' < n" "W s' n' a'"
      using round [OF Cons.prems(1) r(2)] r(1) by blast
    then have "reaches step goal (concat rounds) s'"
      using Cons.IH [OF s'(3)] Cons.prems(2-4) by simp
    with reaches_later [where step = step, OF s'(1)] show ?thesis by simp
  qed
qed simp

end

end
