(* ===== verification/Mpsc_Concurrent.thy ===== *)
theory Mpsc_Concurrent
  imports Mpsc_Fifo Step_Machine
begin











section \<open>The invariant\<close>



text \<open>
  \<open>linked h P ns\<close>: every node of \<open>ns\<close> but the last points to its successor, unless the pair is
  pending (exchanged, not yet linked), in which case its link is still \<open>NULL\<close>.
\<close>

fun linked :: "mpsc_heap \<Rightarrow> (addr \<times> addr) set \<Rightarrow> addr list \<Rightarrow> bool" where
  "linked h P [] = False"
| "linked h P [a] = (\<exists>c. h a = Some c \<and> mn_next c = NULL)"
| "linked h P (a # b # ns) =
     ((\<exists>c. h a = Some c \<and> (if (a, b) \<in> P then mn_next c = NULL else mn_next c = b)) \<and> linked h P (b # ns))"

definition node_data :: "mpsc_heap \<Rightarrow> addr \<Rightarrow> addr" where
  "node_data h a = (case h a of None \<Rightarrow> NULL | Some c \<Rightarrow> mn_data c)"











lemma node_data_cong:
  "map_option mn_data (h' a) = map_option mn_data (h a) \<Longrightarrow> node_data h' a = node_data h a"
  by (cases "h a"; cases "h' a") (auto simp: node_data_def)

lemma linked_last: "linked h P ns \<Longrightarrow> \<exists>c. h (last ns) = Some c \<and> mn_next c = NULL"
  by (induction h P ns rule: linked.induct) auto





















section \<open>Properties\<close>



end
