(* ===== verification/Hazard_Pointer.thy ===== *)
theory Hazard_Pointer
  imports Fiber_Prelude
begin

text \<open>
  \<open>src/hazard_pointer.c\<close> and \<open>include/hazard_pointer.h\<close>: the per-thread records with their hazard
  slots and retired lists, the retire threshold and the scan.  The field \<open>head\<close> of a record is
  the address of the shared list head; the operations take its value as an argument.  The
  reclamation callback of a node belongs to the client: a scan returns the calls it makes, in order,
  as triples of function, argument and node.  Counts are natural numbers.
\<close>

record hazard_node =
  hn_next :: addr
  hn_gc_data :: addr
  hn_gc_function :: addr

type_synonym node_heap = "hazard_node heap"

record hazard_record =
  hr_next :: addr
  hr_retire_threshold :: nat
  hr_retired_count :: nat
  hr_retired_list :: addr
  hr_plist_size :: nat
  hr_plist :: "addr list option"
  hr_pointers :: "addr list"

type_synonym record_heap = "hazard_record heap"

type_synonym gc_call = "addr \<times> addr \<times> addr"

section \<open>Creating records\<close>

text \<open>The walk that counts the threads and asserts that all records have the same number of slots.\<close>

partial_function (option) count_threads :: "record_heap \<Rightarrow> nat \<Rightarrow> addr \<Rightarrow> nat \<Rightarrow> nat option" where
  "count_threads h k cur threads =
     (if cur = NULL then Some threads
      else do { r \<leftarrow> load h cur;
                c_assert (length (hr_pointers r) = k);
                count_threads h k (hr_next r) (threads + 1) })"

partial_function (option) raise_thresholds :: "record_heap \<Rightarrow> addr \<Rightarrow> record_heap option" where
  "raise_thresholds h cur =
     (if cur = NULL then Some h
      else do { r \<leftarrow> load h cur;
                h' \<leftarrow> store h cur (r\<lparr>hr_retire_threshold := hr_retire_threshold r + 2 * length (hr_pointers r)\<rparr>);
                raise_thresholds h' (hr_next r) })"

text \<open>
  The loop body between two compare-exchanges depends only on the head it has loaded, and the
  compare-exchange succeeds when the head is still the same; run alone the first attempt succeeds.
\<close>

definition hazard_pointer_thread_record_create_and_push ::
  "record_heap \<Rightarrow> addr \<Rightarrow> nat \<Rightarrow> addr \<Rightarrow> (record_heap \<times> addr) option" where
  "hazard_pointer_thread_record_create_and_push h hd_rec pointers_per_thread ret = do {
     c_assert (pointers_per_thread \<noteq> 0);
     c_assert (ret \<noteq> NULL);
     threads \<leftarrow> count_threads h pointers_per_thread hd_rec 1;
     let h1 = alloc h ret \<lparr>hr_next = hd_rec, hr_retire_threshold = 2 * threads * pointers_per_thread,
                           hr_retired_count = 0, hr_retired_list = NULL, hr_plist_size = 0,
                           hr_plist = None, hr_pointers = replicate pointers_per_thread NULL\<rparr>;
     h2 \<leftarrow> raise_thresholds h1 hd_rec;
     Some (h2, ret)
   }"

definition hazard_pointer_using :: "record_heap \<Rightarrow> addr \<Rightarrow> addr \<Rightarrow> nat \<Rightarrow> record_heap option" where
  "hazard_pointer_using h hptr node n = do {
     r \<leftarrow> load h hptr;
     c_assert (n < length (hr_pointers r));
     store h hptr (r\<lparr>hr_pointers := (hr_pointers r)[n := node]\<rparr>)
   }"

definition hazard_pointer_done_using :: "record_heap \<Rightarrow> addr \<Rightarrow> nat \<Rightarrow> record_heap option" where
  "hazard_pointer_done_using h hptr n = do {
     r \<leftarrow> load h hptr;
     c_assert (n < length (hr_pointers r));
     store h hptr (r\<lparr>hr_pointers := (hr_pointers r)[n := NULL]\<rparr>)
   }"

section \<open>Scanning\<close>

definition hazard_pointer_compare :: "addr \<Rightarrow> addr \<Rightarrow> int" where
  "hazard_pointer_compare one two = (if one = two then 0 else if one < two then -1 else 1)"

text \<open>\<open>qsort\<close> of the C library: the ascending rearrangement for the given comparison.\<close>

fun insert_by :: "(addr \<Rightarrow> addr \<Rightarrow> int) \<Rightarrow> addr \<Rightarrow> addr list \<Rightarrow> addr list" where
  "insert_by cmp x [] = [x]"
| "insert_by cmp x (y # ys) = (if cmp x y \<le> 0 then x # y # ys else y # insert_by cmp x ys)"

definition qsort :: "(addr \<Rightarrow> addr \<Rightarrow> int) \<Rightarrow> addr list \<Rightarrow> addr list" where
  "qsort cmp xs = foldr (insert_by cmp) xs []"

text \<open>\<open>binary_search\<close>: the loop on \<open>start\<close> and \<open>end\<close>, with its assertions.\<close>

function binary_search_loop :: "addr list \<Rightarrow> addr \<Rightarrow> int \<Rightarrow> int \<Rightarrow> int option" where
  "binary_search_loop hay needle start stop =
     (if start \<le> stop
      then if \<not> (start \<ge> 0 \<and> start < int (length hay) \<and> stop \<ge> 0 \<and> stop < int (length hay)) then None
      else let middle = (start + stop) div 2; middle_value = hay ! nat middle
           in if middle_value > needle then binary_search_loop hay needle start (middle - 1)
              else if middle_value < needle then binary_search_loop hay needle (middle + 1) stop
              else Some 1
      else Some 0)"
  by pat_completeness auto
termination
  by (relation "measure (\<lambda>(hay, needle, start, stop). nat (stop + 1 - start))") auto

definition binary_search :: "addr list \<Rightarrow> addr \<Rightarrow> int option" where
  "binary_search haystack needle =
     (if haystack = [] then Some 0
      else binary_search_loop haystack needle 0 (int (length haystack) - 1))"

text \<open>
  Collecting the non-null hazard pointers of all records into \<open>plist\<close>; a store past the end of
  the list is a fault, and each record is reached with \<open>index < max_pointers\<close>.
\<close>

fun collect_slots :: "addr list \<Rightarrow> addr list \<Rightarrow> nat \<Rightarrow> (addr list \<times> nat) option" where
  "collect_slots [] plist index = Some (plist, index)"
| "collect_slots (p # ps) plist index =
     (if p \<noteq> NULL
      then if index < length plist then collect_slots ps (plist[index := p]) (index + 1) else None
      else collect_slots ps plist index)"

partial_function (option) collect_records ::
  "record_heap \<Rightarrow> nat \<Rightarrow> addr \<Rightarrow> addr list \<Rightarrow> nat \<Rightarrow> (addr list \<times> nat) option" where
  "collect_records h max_pointers cur plist index =
     (if cur = NULL then Some (plist, index)
      else if \<not> index < max_pointers then None
      else Option.bind (load h cur) (\<lambda>r.
             Option.bind (collect_slots (hr_pointers r) plist index) (\<lambda>(plist', index').
               collect_records h max_pointers (hr_next r) plist' index')))"

text \<open>The sweep over the old retired list: keep what is hazardous, call the callback of the rest.\<close>

partial_function (option) sweep ::
  "node_heap \<Rightarrow> addr list \<Rightarrow> addr \<Rightarrow> addr \<Rightarrow> nat \<Rightarrow> gc_call list \<Rightarrow> (node_heap \<times> addr \<times> nat \<times> gc_call list) option" where
  "sweep nh hazards node retired count calls =
     (if node = NULL then Some (nh, retired, count, calls)
      else Option.bind (load nh node) (\<lambda>x.
             Option.bind (binary_search hazards node) (\<lambda>is_hazardous.
               if is_hazardous \<noteq> 0
               then Option.bind (store nh node (x\<lparr>hn_next := retired\<rparr>)) (\<lambda>nh'.
                      sweep nh' hazards (hn_next x) node (count + 1) calls)
               else if hn_gc_function x = NULL then None
               else sweep nh hazards (hn_next x) retired count
                      (calls @ [(hn_gc_function x, hn_gc_data x, node)]))))"

definition hazard_pointer_scan ::
  "record_heap \<Rightarrow> node_heap \<Rightarrow> addr \<Rightarrow> addr \<Rightarrow> (nat \<Rightarrow> addr) \<Rightarrow> (record_heap \<times> node_heap \<times> gc_call list) option" where
  "hazard_pointer_scan h nh hd_rec hptr junk = do {
     r \<leftarrow> load h hptr;
     hr \<leftarrow> load h hd_rec;
     let max_pointers = hr_retire_threshold hr div 2;
     let (plist_size, plist) =
       (case hr_plist r of
          Some pl \<Rightarrow> if hr_plist_size r < max_pointers then (max_pointers, map junk [0 ..< max_pointers])
                     else (hr_plist_size r, pl)
        | None \<Rightarrow> (max_pointers, map junk [0 ..< max_pointers]));
     (plist1, index) \<leftarrow> collect_records h max_pointers hd_rec plist 0;
     let hazards = qsort hazard_pointer_compare (take index plist1);
     (nh', retired, count, calls) \<leftarrow> sweep nh hazards (hr_retired_list r) NULL 0 [];
     h' \<leftarrow> store h hptr (r\<lparr>hr_plist_size := plist_size, hr_plist := Some (hazards @ drop index plist1),
                           hr_retired_list := retired, hr_retired_count := count\<rparr>);
     Some (h', nh', calls)
   }"

definition hazard_pointer_free ::
  "record_heap \<Rightarrow> node_heap \<Rightarrow> addr \<Rightarrow> addr \<Rightarrow> addr \<Rightarrow> (nat \<Rightarrow> addr) \<Rightarrow> (record_heap \<times> node_heap \<times> gc_call list) option" where
  "hazard_pointer_free h nh hd_rec hptr node junk = do {
     r \<leftarrow> load h hptr;
     x \<leftarrow> load nh node;
     nh' \<leftarrow> store nh node (x\<lparr>hn_next := hr_retired_list r\<rparr>);
     let r' = r\<lparr>hr_retired_list := node, hr_retired_count := hr_retired_count r + 1\<rparr>;
     h' \<leftarrow> store h hptr r';
     if hr_retired_count r' \<ge> hr_retire_threshold r'
     then hazard_pointer_scan h' nh' hd_rec hptr junk
     else Some (h', nh', [])
   }"

definition hazard_pointer_thread_record_destroy ::
  "record_heap \<Rightarrow> node_heap \<Rightarrow> addr \<Rightarrow> addr \<Rightarrow> (nat \<Rightarrow> addr) \<Rightarrow> (record_heap \<times> node_heap \<times> gc_call list) option" where
  "hazard_pointer_thread_record_destroy h nh hd_rec hptr junk =
     (if hptr = NULL then Some (h, nh, [])
      else do {
        (h1, nh', calls) \<leftarrow> hazard_pointer_scan h nh hd_rec hptr junk;
        h2 \<leftarrow> dealloc h1 hptr;
        Some (h2, nh', calls)
      })"

text \<open>\<open>destroy_all\<close> makes each record the head of the remaining list before it destroys it.\<close>

partial_function (option) hazard_pointer_thread_record_destroy_all ::
  "record_heap \<Rightarrow> node_heap \<Rightarrow> addr \<Rightarrow> (nat \<Rightarrow> addr) \<Rightarrow> gc_call list \<Rightarrow> (record_heap \<times> node_heap \<times> gc_call list) option" where
  "hazard_pointer_thread_record_destroy_all h nh cur junk calls =
     (if cur = NULL then Some (h, nh, calls)
      else Option.bind (load h cur) (\<lambda>r.
             Option.bind (hazard_pointer_thread_record_destroy h nh cur cur junk) (\<lambda>(h', nh', cs).
               hazard_pointer_thread_record_destroy_all h' nh' (hr_next r) junk (calls @ cs))))"

section \<open>Sorting and searching\<close>

lemma qsort_sort: "qsort hazard_pointer_compare xs = sort xs"
proof -
  have "insert_by hazard_pointer_compare x ys = insort x ys" for x ys
    by (induction ys) (auto simp: hazard_pointer_compare_def)
  then have "insert_by hazard_pointer_compare = insort" by (intro ext)
  then show ?thesis by (simp add: qsort_def sort_key_def)
qed

text \<open>The loop invariant: the needle, if present, is between \<open>start\<close> and \<open>end\<close>.\<close>

lemma binary_search_loop_correct:
  assumes "sorted hay" "0 \<le> start" "stop < int (length hay)"
    "needle \<in> set hay \<longrightarrow> (\<exists>i. start \<le> int i \<and> int i \<le> stop \<and> hay ! i = needle)"
  shows "binary_search_loop hay needle start stop = Some (if needle \<in> set hay then 1 else 0)"
  using assms
proof (induction hay needle start stop rule: binary_search_loop.induct)
  case (1 hay needle start stop)
  show ?case
  proof (cases "start \<le> stop")
    case False
    with "1.prems"(4) show ?thesis by auto
  next
    case True
    define m where "m = (start + stop) div 2"
    have m: "start \<le> m" "m \<le> stop" "0 \<le> m" "nat m < length hay"
      using True "1.prems"(2,3) by (auto simp: m_def)
    have ok: "start \<ge> 0 \<and> start < int (length hay) \<and> stop \<ge> 0 \<and> stop < int (length hay)"
      using True "1.prems"(2,3) by auto
    consider (gt) "hay ! nat m > needle" | (lt) "hay ! nat m < needle" | (eq) "hay ! nat m = needle"
      by linarith
    then show ?thesis
    proof cases
      case gt
      have "\<exists>i. start \<le> int i \<and> int i \<le> m - 1 \<and> hay ! i = needle" if "needle \<in> set hay"
      proof -
        obtain i where i: "start \<le> int i" "int i \<le> stop" "hay ! i = needle"
          using "1.prems"(4) \<open>needle \<in> set hay\<close> by blast
        have "i < nat m"
        proof (rule ccontr)
          assume "\<not> i < nat m"
          then have "hay ! nat m \<le> hay ! i"
            using "1.prems"(1,3) i(2) by (intro sorted_nth_mono) auto
          then show False using gt i(3) by simp
        qed
        then show ?thesis using i m by (intro exI [of _ i]) auto
      qed
      then have "binary_search_loop hay needle start (m - 1) = Some (if needle \<in> set hay then 1 else 0)"
        using "1.IH"(1) [of m "hay ! nat m"] True ok gt "1.prems" m by (simp add: m_def)
      with True ok gt show ?thesis
        by (subst binary_search_loop.simps) (simp add: m_def Let_def)
    next
      case lt
      have "\<exists>i. m + 1 \<le> int i \<and> int i \<le> stop \<and> hay ! i = needle" if "needle \<in> set hay"
      proof -
        obtain i where i: "start \<le> int i" "int i \<le> stop" "hay ! i = needle"
          using "1.prems"(4) \<open>needle \<in> set hay\<close> by blast
        have "nat m < i"
        proof (rule ccontr)
          assume "\<not> nat m < i"
          then have "hay ! i \<le> hay ! nat m"
            using "1.prems"(1) m by (intro sorted_nth_mono) auto
          then show False using lt i(3) by simp
        qed
        then show ?thesis using i m by (intro exI [of _ i]) auto
      qed
      then have "binary_search_loop hay needle (m + 1) stop = Some (if needle \<in> set hay then 1 else 0)"
        using "1.IH"(2) [of m "hay ! nat m"] True ok lt "1.prems" m by (simp add: m_def)
      with True ok lt show ?thesis
        by (subst binary_search_loop.simps) (simp add: m_def Let_def)
    next
      case eq
      then have "needle \<in> set hay" using m(4) nth_mem by blast
      with True ok eq show ?thesis
        by (subst binary_search_loop.simps) (simp add: m_def Let_def)
    qed
  qed
qed

lemma binary_search_sorted:
  assumes "sorted hay"
  shows "binary_search hay needle = Some (if needle \<in> set hay then 1 else 0)"
proof (cases "hay = []")
  case False
  have "\<exists>i. 0 \<le> int i \<and> int i \<le> int (length hay) - 1 \<and> hay ! i = needle" if "needle \<in> set hay"
    using that by (auto simp: in_set_conv_nth)
  then show ?thesis
    using binary_search_loop_correct [OF assms, of 0 "int (length hay) - 1" needle] False
    by (simp add: binary_search_def)
qed (simp add: binary_search_def)

section \<open>Records\<close>

text \<open>
  \<open>rs\<close> are the records from the head on, \<open>k\<close> the slots per thread; every threshold is twice the
  total number of slots.
\<close>

definition record_ok :: "record_heap \<Rightarrow> nat \<Rightarrow> nat \<Rightarrow> addr \<Rightarrow> bool" where
  "record_ok h n k a \<longleftrightarrow> (\<exists>r. h a = Some r \<and> length (hr_pointers r) = k \<and> hr_retire_threshold r = 2 * n * k \<and>
     (case hr_plist r of None \<Rightarrow> True | Some pl \<Rightarrow> length pl = hr_plist_size r))"

definition records_ok :: "record_heap \<Rightarrow> addr \<Rightarrow> addr list \<Rightarrow> nat \<Rightarrow> bool" where
  "records_ok h hd_rec rs k \<longleftrightarrow>
     chain hr_next h hd_rec rs NULL \<and> distinct rs \<and> 0 < k \<and> (\<forall>a \<in> set rs. record_ok h (length rs) k a)"

definition slots_of :: "record_heap \<Rightarrow> addr \<Rightarrow> addr list" where
  "slots_of h a = (case h a of None \<Rightarrow> [] | Some r \<Rightarrow> filter (\<lambda>p. p \<noteq> NULL) (hr_pointers r))"

definition hazards_of :: "record_heap \<Rightarrow> addr list \<Rightarrow> addr list" where
  "hazards_of h rs = concat (map (slots_of h) rs)"

lemma slots_of_length: "record_ok h n k a \<Longrightarrow> length (slots_of h a) \<le> k"
  by (auto simp: record_ok_def slots_of_def)

lemma hazards_of_length: "\<forall>a \<in> set rs. record_ok h n k a \<Longrightarrow> length (hazards_of h rs) \<le> length rs * k"
proof (induction rs)
  case (Cons a rs)
  then show ?case
    using slots_of_length [of h n k a] by (simp add: hazards_of_def)
qed (simp add: hazards_of_def)

lemma collect_slots_ok:
  "index + length (filter (\<lambda>p. p \<noteq> NULL) ps) \<le> length plist \<Longrightarrow>
   \<exists>pl. collect_slots ps plist index = Some (pl, index + length (filter (\<lambda>p. p \<noteq> NULL) ps)) \<and>
        length pl = length plist \<and>
        take (index + length (filter (\<lambda>p. p \<noteq> NULL) ps)) pl = take index plist @ filter (\<lambda>p. p \<noteq> NULL) ps"
proof (induction ps arbitrary: plist index)
  case (Cons p ps)
  show ?case
  proof (cases "p = NULL")
    case True
    with Cons show ?thesis by simp
  next
    case False
    then have "index < length plist" using Cons.prems by simp
    moreover from this have "take (Suc index) (plist[index := p]) = take index plist @ [p]"
      by (simp add: take_Suc_conv_app_nth)
    ultimately show ?thesis
      using Cons.IH [of "Suc index" "plist[index := p]"] Cons.prems False by auto
  qed
qed simp

lemma collect_records_ok:
  "chain hr_next h cur ys NULL \<Longrightarrow> \<forall>a \<in> set ys. record_ok h n k a \<Longrightarrow> 0 < k \<Longrightarrow>
   index + length ys * k \<le> n * k \<Longrightarrow> n * k \<le> length plist \<Longrightarrow>
   \<exists>pl. collect_records h (n * k) cur plist index = Some (pl, index + length (hazards_of h ys)) \<and>
        length pl = length plist \<and>
        take (index + length (hazards_of h ys)) pl = take index plist @ hazards_of h ys"
proof (induction ys arbitrary: cur plist index)
  case Nil
  then show ?case by (subst collect_records.simps) (simp add: hazards_of_def)
next
  case (Cons a ys)
  then obtain r where r: "h a = Some r" "cur = a" "a \<noteq> NULL" "chain hr_next h (hr_next r) ys NULL"
    by (auto split: option.splits)
  have slots: "slots_of h a = filter (\<lambda>p. p \<noteq> NULL) (hr_pointers r)"
    using r(1) by (simp add: slots_of_def)
  have le: "length (slots_of h a) \<le> k"
    using Cons.prems(2) by (intro slots_of_length [of h n]) simp
  obtain pl where pl: "collect_slots (hr_pointers r) plist index = Some (pl, index + length (slots_of h a))"
      "length pl = length plist" "take (index + length (slots_of h a)) pl = take index plist @ slots_of h a"
    using collect_slots_ok [of index "hr_pointers r" plist] Cons.prems(4,5) le slots by fastforce
  have "index < n * k" using Cons.prems(3,4) by simp
  then have step: "collect_records h (n * k) cur plist index =
      collect_records h (n * k) (hr_next r) pl (index + length (slots_of h a))"
    using r pl(1) by (subst collect_records.simps) simp
  have "index + length (slots_of h a) + length ys * k \<le> n * k"
    using Cons.prems(4) le by simp
  from Cons.IH [OF r(4) _ Cons.prems(3) this, of pl] Cons.prems(2,5) pl step show ?case
    by (auto simp: hazards_of_def algebra_simps)
qed

section \<open>The sweep\<close>

definition gc_of :: "node_heap \<Rightarrow> addr \<Rightarrow> gc_call" where
  "gc_of nh a = (case nh a of None \<Rightarrow> (NULL, NULL, a) | Some x \<Rightarrow> (hn_gc_function x, hn_gc_data x, a))"

definition node_ok :: "node_heap \<Rightarrow> addr \<Rightarrow> bool" where
  "node_ok nh a \<longleftrightarrow> (\<exists>x. nh a = Some x \<and> hn_gc_function x \<noteq> NULL)"

lemma sweep_ok:
  "chain hn_next nh node ns NULL \<Longrightarrow> chain hn_next nh retired ms NULL \<Longrightarrow> distinct (ns @ ms) \<Longrightarrow>
   \<forall>a \<in> set ns. node_ok nh a \<Longrightarrow> sorted hz \<Longrightarrow>
   \<exists>nh' p. sweep nh hz node retired count calls =
        Some (nh', p, count + length (filter (\<lambda>a. a \<in> set hz) ns),
              calls @ map (gc_of nh) (filter (\<lambda>a. a \<notin> set hz) ns)) \<and>
      chain hn_next nh' p (rev (filter (\<lambda>a. a \<in> set hz) ns) @ ms) NULL \<and>
      (\<forall>a. a \<notin> set ns \<longrightarrow> nh' a = nh a) \<and>
      (\<forall>a. map_option (\<lambda>x. (hn_gc_function x, hn_gc_data x)) (nh' a) =
           map_option (\<lambda>x. (hn_gc_function x, hn_gc_data x)) (nh a))"
proof (induction ns arbitrary: nh node retired ms count calls)
  case Nil
  then show ?case by (subst sweep.simps) simp
next
  case (Cons n ns)
  then obtain x where x: "nh n = Some x" "node = n" "n \<noteq> NULL" "chain hn_next nh (hn_next x) ns NULL"
    by (auto split: option.splits)
  have fresh: "n \<notin> set ns" "n \<notin> set ms" using Cons.prems(3) by auto
  show ?case
  proof (cases "n \<in> set hz")
    case True
    let ?nh = "nh(n \<mapsto> x\<lparr>hn_next := retired\<rparr>)"
    have "sweep nh hz node retired count calls = sweep ?nh hz (hn_next x) n (count + 1) calls"
      using x True binary_search_sorted [OF Cons.prems(5), of n]
      by (subst sweep.simps) simp
    moreover have "chain hn_next ?nh n (n # ms) NULL" "chain hn_next ?nh (hn_next x) ns NULL"
      using x fresh Cons.prems(2) by auto
    moreover have "\<forall>a \<in> set ns. node_ok ?nh a"
      using Cons.prems(4) fresh by (auto simp: node_ok_def)
    moreover have "map (gc_of ?nh) (filter (\<lambda>a. a \<notin> set hz) ns) = map (gc_of nh) (filter (\<lambda>a. a \<notin> set hz) ns)"
      using fresh by (auto simp: gc_of_def)
    ultimately show ?thesis
      using Cons.IH [of ?nh "hn_next x" n "n # ms" "count + 1" calls] Cons.prems(3,5) x True
      by (auto simp del: fun_upd_apply simp: fun_upd_other) (auto simp: fun_upd_def)
  next
    case False
    have "sweep nh hz node retired count calls = sweep nh hz (hn_next x) retired count (calls @ [gc_of nh n])"
      using x False binary_search_sorted [OF Cons.prems(5), of n] Cons.prems(4)
      by (subst sweep.simps) (auto simp: gc_of_def node_ok_def)
    then show ?thesis
      using Cons.IH [OF x(4) Cons.prems(2), of count "calls @ [gc_of nh n]"] Cons.prems(3-5) x False by auto
  qed
qed

section \<open>Scan, free and creation\<close>

text \<open>
  The retired nodes of a record: a chain of nodes with callbacks, counted by \<open>retired_count\<close>.
\<close>

definition retired_ok :: "record_heap \<Rightarrow> node_heap \<Rightarrow> addr \<Rightarrow> addr list \<Rightarrow> bool" where
  "retired_ok h nh hptr ns \<longleftrightarrow>
     (\<exists>r. h hptr = Some r \<and> chain hn_next nh (hr_retired_list r) ns NULL \<and> hr_retired_count r = length ns) \<and>
     distinct ns \<and> (\<forall>a \<in> set ns. node_ok nh a)"

lemma records_ok_update:
  assumes ok: "records_ok h hd_rec rs k" and r: "h a = Some r"
    and r': "hr_next r' = hr_next r" "length (hr_pointers r') = length (hr_pointers r)"
      "hr_retire_threshold r' = hr_retire_threshold r"
      "case hr_plist r' of None \<Rightarrow> True | Some pl \<Rightarrow> length pl = hr_plist_size r'"
  shows "records_ok (h(a \<mapsto> r')) hd_rec rs k"
  using assms chain_upd_same [of h a r hr_next r' hd_rec rs NULL]
  by (auto simp: records_ok_def record_ok_def)

lemma hazards_of_update:
  "h a = Some r \<Longrightarrow> hr_pointers r' = hr_pointers r \<Longrightarrow> hazards_of (h(a \<mapsto> r')) rs = hazards_of h rs"
  by (auto simp: hazards_of_def slots_of_def intro!: arg_cong [of _ _ concat])

lemma hazard_pointer_scan_ok:
  assumes ok: "records_ok h hd_rec rs k" and mem: "hptr \<in> set rs" and ret: "retired_ok h nh hptr ns"
  defines "hz \<equiv> set (hazards_of h rs)"
  shows "\<exists>h' nh'. hazard_pointer_scan h nh hd_rec hptr junk =
        Some (h', nh', map (gc_of nh) (filter (\<lambda>a. a \<notin> hz) ns)) \<and>
      records_ok h' hd_rec rs k \<and> retired_ok h' nh' hptr (rev (filter (\<lambda>a. a \<in> hz) ns)) \<and>
      hazards_of h' rs = hazards_of h rs"
proof -
  obtain r where r: "h hptr = Some r" "chain hn_next nh (hr_retired_list r) ns NULL" "hr_retired_count r = length ns"
      "distinct ns" "\<forall>a \<in> set ns. node_ok nh a"
    using ret by (auto simp: retired_ok_def)
  have ch: "chain hr_next h hd_rec rs NULL" and k: "0 < k" and rec: "\<forall>a \<in> set rs. record_ok h (length rs) k a"
    using ok by (auto simp: records_ok_def)
  have rs: "rs \<noteq> []" "hd rs = hd_rec" "hd_rec \<in> set rs"
    using mem ch by (cases rs; auto)+
  have nn: "hptr \<noteq> NULL" "hd_rec \<noteq> NULL"
    using chain_not_NULL [OF ch] mem rs(3) by metis+
  obtain hr where hr: "h hd_rec = Some hr" "hr_retire_threshold hr div 2 = length rs * k"
    using rec rs(3) by (auto simp: record_ok_def)
  define m where "m = length rs * k"
  define q where "q = (case hr_plist r of
      Some pl \<Rightarrow> if hr_plist_size r < m then (m, map junk [0 ..< m]) else (hr_plist_size r, pl)
    | None \<Rightarrow> (m, map junk [0 ..< m]))"
  have q: "m \<le> length (snd q)" "length (snd q) = fst q"
    using rec mem r(1) by (auto simp: q_def record_ok_def split: option.splits)
  obtain pl where pl: "collect_records h m hd_rec (snd q) 0 = Some (pl, length (hazards_of h rs))"
      "length pl = length (snd q)" "take (length (hazards_of h rs)) pl = hazards_of h rs"
    using collect_records_ok [OF ch rec k, of 0 "snd q"] q(1) by (auto simp: m_def)
  let ?hz = "sort (hazards_of h rs)"
  obtain nh' p where sw: "sweep nh ?hz (hr_retired_list r) NULL 0 [] =
        Some (nh', p, length (filter (\<lambda>a. a \<in> hz) ns), map (gc_of nh) (filter (\<lambda>a. a \<notin> hz) ns))"
      "chain hn_next nh' p (rev (filter (\<lambda>a. a \<in> hz) ns)) NULL"
      "\<forall>a. map_option (\<lambda>x. (hn_gc_function x, hn_gc_data x)) (nh' a) =
           map_option (\<lambda>x. (hn_gc_function x, hn_gc_data x)) (nh a)"
    using sweep_ok [OF r(2), of NULL "[]" ?hz 0 "[]"] r(4,5) by (auto simp: hz_def)
  let ?r' = "r\<lparr>hr_plist_size := fst q, hr_plist := Some (?hz @ drop (length (hazards_of h rs)) pl),
      hr_retired_list := p, hr_retired_count := length (filter (\<lambda>a. a \<in> hz) ns)\<rparr>"
  have "hazard_pointer_scan h nh hd_rec hptr junk =
      Some (h(hptr \<mapsto> ?r'), nh', map (gc_of nh) (filter (\<lambda>a. a \<notin> hz) ns))"
    using r(1) hr nn pl(1,3) sw(1)
    by (simp add: hazard_pointer_scan_def qsort_sort store_def flip: m_def q_def)
       (cases q, simp add: Let_def)
  moreover have "node_ok nh' a" if "a \<in> set ns" for a
    using sw(3) [rule_format, of a] r(5) that by (cases "nh' a") (auto simp: node_ok_def)
  then have "retired_ok (h(hptr \<mapsto> ?r')) nh' hptr (rev (filter (\<lambda>a. a \<in> hz) ns))"
    using sw(2) r(4) by (auto simp: retired_ok_def)
  moreover have "length (hazards_of h rs) \<le> length pl"
    using arg_cong [OF pl(3), of length] by simp
  then have "records_ok (h(hptr \<mapsto> ?r')) hd_rec rs k"
    using pl(2) q(2) by (intro records_ok_update [OF ok r(1)]) auto
  ultimately show ?thesis
    using hazards_of_update [of h hptr r ?r' rs, OF r(1)] by auto
qed

text \<open>At most as many retired nodes survive as there are hazard slots.\<close>

lemma kept_bound:
  assumes "distinct ns" "\<forall>a \<in> set rs. record_ok h n k a"
  shows "length (filter (\<lambda>a. a \<in> set (hazards_of h rs)) ns) \<le> length rs * k"
proof -
  have "length (filter (\<lambda>a. a \<in> set (hazards_of h rs)) ns) = card (set ns \<inter> set (hazards_of h rs))"
    using assms(1) by (simp add: distinct_length_filter Int_commute)
  also have "\<dots> \<le> card (set (hazards_of h rs))" by (intro card_mono) auto
  also have "\<dots> \<le> length (hazards_of h rs)" by (rule card_length)
  finally show ?thesis using hazards_of_length [OF assms(2)] by simp
qed

lemma retire_ok:
  assumes ok: "records_ok h hd_rec rs k" and mem: "hptr \<in> set rs" and ret: "retired_ok h nh hptr ns"
    and node: "node_ok nh node" "node \<notin> set ns" "node \<noteq> NULL"
  obtains r x where "h hptr = Some r" "nh node = Some x" "hptr \<noteq> NULL"
    "hr_retire_threshold r = 2 * length rs * k" "hr_retired_count r = length ns"
    "records_ok (h(hptr \<mapsto> r\<lparr>hr_retired_list := node, hr_retired_count := hr_retired_count r + 1\<rparr>)) hd_rec rs k"
    "retired_ok (h(hptr \<mapsto> r\<lparr>hr_retired_list := node, hr_retired_count := hr_retired_count r + 1\<rparr>))
       (nh(node \<mapsto> x\<lparr>hn_next := hr_retired_list r\<rparr>)) hptr (node # ns)"
    "hazards_of (h(hptr \<mapsto> r\<lparr>hr_retired_list := node, hr_retired_count := hr_retired_count r + 1\<rparr>)) rs = hazards_of h rs"
proof -
  obtain r where r: "h hptr = Some r" "chain hn_next nh (hr_retired_list r) ns NULL" "hr_retired_count r = length ns"
      "distinct ns" "\<forall>a \<in> set ns. node_ok nh a"
    using ret by (auto simp: retired_ok_def)
  obtain x where x: "nh node = Some x" "hn_gc_function x \<noteq> NULL"
    using node(1) by (auto simp: node_ok_def)
  have ro: "record_ok h (length rs) k hptr" "chain hr_next h hd_rec rs NULL"
    using ok mem by (auto simp: records_ok_def)
  moreover have "hptr \<noteq> NULL"
    using chain_not_NULL [OF ro(2)] mem by metis
  moreover have "records_ok (h(hptr \<mapsto> r\<lparr>hr_retired_list := node, hr_retired_count := hr_retired_count r + 1\<rparr>)) hd_rec rs k"
    using ro r(1) by (intro records_ok_update [OF ok r(1)]) (auto simp: record_ok_def split: option.splits)
  moreover have "retired_ok (h(hptr \<mapsto> r\<lparr>hr_retired_list := node, hr_retired_count := hr_retired_count r + 1\<rparr>))
       (nh(node \<mapsto> x\<lparr>hn_next := hr_retired_list r\<rparr>)) hptr (node # ns)"
    using r x node by (auto simp: retired_ok_def node_ok_def)
  ultimately show thesis
    using that [OF r(1) x(1)] r(1,3) hazards_of_update [of h hptr r _ rs, OF r(1)]
    by (auto simp: record_ok_def)
qed

lemma hazard_pointer_free_ok:
  assumes ok: "records_ok h hd_rec rs k" and mem: "hptr \<in> set rs" and ret: "retired_ok h nh hptr ns"
    and node: "node_ok nh node" "node \<notin> set ns" "node \<noteq> NULL"
  shows "\<exists>h' nh' calls ns'. hazard_pointer_free h nh hd_rec hptr node junk = Some (h', nh', calls) \<and>
      records_ok h' hd_rec rs k \<and> retired_ok h' nh' hptr ns' \<and>
      set ns' \<union> set (map (snd \<circ> snd) calls) = insert node (set ns) \<and>
      (\<forall>c \<in> set calls. snd (snd c) \<notin> set (hazards_of h rs)) \<and>
      (calls = [] \<longrightarrow> length ns' \<le> Suc (length ns)) \<and>
      (2 * length rs * k \<le> Suc (length ns) \<longrightarrow> length ns' \<le> length rs * k \<and> length rs * k \<le> length calls)"
proof (rule retire_ok [OF assms])
  fix r :: hazard_record and x :: hazard_node
  let ?r = "r\<lparr>hr_retired_list := node, hr_retired_count := hr_retired_count r + 1\<rparr>"
  let ?h = "h(hptr \<mapsto> ?r)" and ?nh = "nh(node \<mapsto> x\<lparr>hn_next := hr_retired_list r\<rparr>)"
  assume r: "h hptr = Some r" "nh node = Some x" "hptr \<noteq> NULL"
    and th: "hr_retire_threshold r = 2 * length rs * k" "hr_retired_count r = length ns"
    and ok': "records_ok ?h hd_rec rs k" and ret': "retired_ok ?h ?nh hptr (node # ns)"
    and hz: "hazards_of ?h rs = hazards_of h rs"
  have free: "hazard_pointer_free h nh hd_rec hptr node junk =
      (if Suc (length ns) \<ge> 2 * length rs * k then hazard_pointer_scan ?h ?nh hd_rec hptr junk
       else Some (?h, ?nh, []))"
    using r node(3) th by (simp add: hazard_pointer_free_def)
  show ?thesis
  proof (cases "Suc (length ns) \<ge> 2 * length rs * k")
    case False
    with free ok' ret' show ?thesis
      by (intro exI [of _ ?h] exI [of _ ?nh] exI [of _ "[]"] exI [of _ "node # ns"]) auto
  next
    case True
    let ?H = "set (hazards_of h rs)"
    let ?keep = "filter (\<lambda>a. a \<in> ?H) (node # ns)" and ?drop = "filter (\<lambda>a. a \<notin> ?H) (node # ns)"
    obtain h' nh' where s: "hazard_pointer_scan ?h ?nh hd_rec hptr junk = Some (h', nh', map (gc_of ?nh) ?drop)"
        "records_ok h' hd_rec rs k" "retired_ok h' nh' hptr (rev ?keep)"
      using hazard_pointer_scan_ok [OF ok' mem ret', of junk] unfolding hz by blast
    have snd: "snd (snd (gc_of m a)) = a" for m a
      by (simp add: gc_of_def split: option.splits)
    have keep: "length ?keep \<le> length rs * k"
      using kept_bound [of "node # ns" rs ?h "length rs" k] ok' ret' unfolding hz
      by (auto simp: records_ok_def retired_ok_def)
    have "length ?keep + length ?drop = Suc (length ns)"
      using sum_length_filter_compl [of "\<lambda>a. a \<in> ?H" "node # ns"] by simp
    then have "length rs * k \<le> length ?drop" using keep True by linarith
    with free True s keep show ?thesis
      by (intro exI [of _ h'] exI [of _ nh'] exI [of _ "map (gc_of ?nh) ?drop"] exI [of _ "rev ?keep"])
         (auto simp: snd image_iff simp del: fun_upd_apply)
  qed
qed

section \<open>Creating a record\<close>

lemma count_threads_ok:
  "chain hr_next h p rs NULL \<Longrightarrow> \<forall>a \<in> set rs. record_ok h n k a \<Longrightarrow>
   count_threads h k p m = Some (m + length rs)"
proof (induction rs arbitrary: p m)
  case Nil
  then show ?case by (subst count_threads.simps) simp
next
  case (Cons a rs)
  then show ?case
    by (subst count_threads.simps) (auto simp: record_ok_def split: option.splits)
qed

lemma raise_thresholds_ok:
  "chain hr_next h p rs NULL \<Longrightarrow> distinct rs \<Longrightarrow> \<forall>a \<in> set rs. record_ok h n k a \<Longrightarrow>
   \<exists>h'. raise_thresholds h p = Some h' \<and> chain hr_next h' p rs NULL \<and>
        (\<forall>a \<in> set rs. record_ok h' (Suc n) k a) \<and> (\<forall>a. a \<notin> set rs \<longrightarrow> h' a = h a)"
proof (induction rs arbitrary: h p)
  case Nil
  then show ?case by (subst raise_thresholds.simps) simp
next
  case (Cons a rs)
  then obtain r where r: "h a = Some r" "p = a" "a \<noteq> NULL" "chain hr_next h (hr_next r) rs NULL"
      "length (hr_pointers r) = k" "hr_retire_threshold r = 2 * n * k"
      "case hr_plist r of None \<Rightarrow> True | Some pl \<Rightarrow> length pl = hr_plist_size r"
    by (auto simp: record_ok_def split: option.splits)
  let ?r = "r\<lparr>hr_retire_threshold := hr_retire_threshold r + 2 * length (hr_pointers r)\<rparr>"
  let ?h = "h(a \<mapsto> ?r)"
  have a: "a \<notin> set rs" using Cons.prems(2) by simp
  have step: "raise_thresholds h p = raise_thresholds ?h (hr_next r)"
    using r by (subst raise_thresholds.simps) simp
  have "chain hr_next ?h (hr_next r) rs NULL" "\<forall>b \<in> set rs. record_ok ?h n k b"
    using r(4) a Cons.prems(3) by (auto simp: record_ok_def)
  with Cons.IH [of ?h "hr_next r"] Cons.prems(2) obtain h' where
    h': "raise_thresholds ?h (hr_next r) = Some h'" "chain hr_next h' (hr_next r) rs NULL"
      "\<forall>b \<in> set rs. record_ok h' (Suc n) k b" "\<forall>b. b \<notin> set rs \<longrightarrow> h' b = ?h b"
    by (auto simp del: fun_upd_apply)
  have ha: "h' a = Some ?r" using h'(4) a by simp
  then have "record_ok h' (Suc n) k a"
    using r(5-7) by (simp add: record_ok_def split: option.splits)
  with h' ha r step show ?case
    by (intro exI [of _ h']) auto
qed

lemma record_create_ok:
  assumes ok: "records_ok h hd_rec rs k \<or> hd_rec = NULL \<and> rs = [] \<and> 0 < k" and fresh: "h a = None" "a \<noteq> NULL"
  shows "\<exists>h'. hazard_pointer_thread_record_create_and_push h hd_rec k a = Some (h', a) \<and>
              records_ok h' a (a # rs) k \<and> retired_ok h' nh a []"
proof -
  have ch: "chain hr_next h hd_rec rs NULL" "distinct rs" "0 < k" "\<forall>b \<in> set rs. record_ok h (length rs) k b"
    using ok by (auto simp: records_ok_def)
  have a: "a \<notin> set rs" using chain_alloc [OF ch(1)] fresh(1) by fastforce
  let ?r = "\<lparr>hr_next = hd_rec, hr_retire_threshold = 2 * (1 + length rs) * k, hr_retired_count = 0,
            hr_retired_list = NULL, hr_plist_size = 0, hr_plist = None, hr_pointers = replicate k NULL\<rparr>"
  let ?h = "h(a \<mapsto> ?r)"
  have "chain hr_next ?h hd_rec rs NULL" "\<forall>b \<in> set rs. record_ok ?h (length rs) k b"
    using ch a by (auto simp: record_ok_def)
  from raise_thresholds_ok [OF this(1) ch(2) this(2)] obtain h' where
    h': "raise_thresholds ?h hd_rec = Some h'" "chain hr_next h' hd_rec rs NULL"
      "\<forall>b \<in> set rs. record_ok h' (Suc (length rs)) k b" "\<forall>b. b \<notin> set rs \<longrightarrow> h' b = ?h b"
    by auto
  have ha: "h' a = Some ?r" using h'(4) a by simp
  have "hazard_pointer_thread_record_create_and_push h hd_rec k a = Some (h', a)"
    using h'(1) ch(3) fresh count_threads_ok [OF ch(1,4), of 1]
    by (simp add: hazard_pointer_thread_record_create_and_push_def alloc_def Let_def)
  moreover have "records_ok h' a (a # rs) k"
    using h'(2,3) ha ch a fresh by (simp add: records_ok_def record_ok_def)
  ultimately show ?thesis
    using ha by (auto simp: retired_ok_def)
qed

section \<open>Properties\<close>

text \<open>C26. A scan of any thread's retired list reclaims exactly the nodes that no hazard slot of any record
  protects, calling the callback once for each in the order of the list, and keeps the protected ones;
  the list of hazards never overflows the space allocated for it, the binary search and the sweep
  return, and neither the records nor the hazard slots change.\<close>

theorem hazard_scan_reclaims_exactly:
  assumes "records_ok h hd_rec rs k" "hptr \<in> set rs" "retired_ok h nh hptr ns"
  shows "\<exists>h' nh'. hazard_pointer_scan h nh hd_rec hptr junk =
        Some (h', nh', map (gc_of nh) (filter (\<lambda>a. a \<notin> set (hazards_of h rs)) ns)) \<and>
      records_ok h' hd_rec rs k \<and> retired_ok h' nh' hptr (rev (filter (\<lambda>a. a \<in> set (hazards_of h rs)) ns)) \<and>
      hazards_of h' rs = hazards_of h rs"
  by (rule hazard_pointer_scan_ok [OF assms])

definition demo_records :: record_heap where
  "demo_records = (\<lambda>_. None)(1 \<mapsto> \<lparr>hr_next = NULL, hr_retire_threshold = 2, hr_retired_count = 2, hr_retired_list = 5,
     hr_plist_size = 0, hr_plist = None, hr_pointers = [6]\<rparr>)"

definition demo_nodes :: node_heap where
  "demo_nodes = (\<lambda>_. None)(5 \<mapsto> \<lparr>hn_next = 6, hn_gc_data = 50, hn_gc_function = 9\<rparr>,
     6 \<mapsto> \<lparr>hn_next = NULL, hn_gc_data = 60, hn_gc_function = 9\<rparr>)"

lemma demo_records_ok: "records_ok demo_records 1 [1] 1" "retired_ok demo_records demo_nodes 1 [5, 6]"
  by (auto simp: records_ok_def record_ok_def retired_ok_def node_ok_def demo_records_def demo_nodes_def)

theorem hazard_scan_reclaims_exactly_witness:
  "\<exists>h' nh'. hazard_pointer_scan demo_records demo_nodes 1 1 (\<lambda>_. 0) = Some (h', nh', [(9, 50, 5)])"
  using hazard_scan_reclaims_exactly [OF demo_records_ok(1) _ demo_records_ok(2), of "\<lambda>_. 0"]
  by (auto simp: hazards_of_def slots_of_def gc_of_def demo_records_def demo_nodes_def)

text \<open>C27. \<open>hazard_pointer_free\<close> never reclaims a node that is in a hazard slot and loses none: afterwards
  every node is either still retired or has been handed to its callback, and the retired list stays
  shorter than the threshold of twice the number of hazard slots.\<close>

theorem hazard_free_safe_and_bounded:
  assumes "records_ok h hd_rec rs k" "hptr \<in> set rs" "retired_ok h nh hptr ns" "length ns < 2 * length rs * k"
    "node_ok nh node" "node \<notin> set ns" "node \<noteq> NULL"
  shows "\<exists>h' nh' calls ns'. hazard_pointer_free h nh hd_rec hptr node junk = Some (h', nh', calls) \<and>
      records_ok h' hd_rec rs k \<and> retired_ok h' nh' hptr ns' \<and> length ns' < 2 * length rs * k \<and>
      set ns' \<union> set (map (snd \<circ> snd) calls) = insert node (set ns) \<and>
      (\<forall>c \<in> set calls. snd (snd c) \<notin> set (hazards_of h rs))"
proof -
  obtain h' nh' calls ns' where r: "hazard_pointer_free h nh hd_rec hptr node junk = Some (h', nh', calls)"
      "records_ok h' hd_rec rs k" "retired_ok h' nh' hptr ns'"
      "set ns' \<union> set (map (snd \<circ> snd) calls) = insert node (set ns)"
      "\<forall>c \<in> set calls. snd (snd c) \<notin> set (hazards_of h rs)"
      "2 * length rs * k \<le> Suc (length ns) \<longrightarrow> length ns' \<le> length rs * k"
    using hazard_pointer_free_ok [OF assms(1-3,5-7), of junk] by metis
  have "length ns' = card (set ns')" using r(3) by (simp add: retired_ok_def distinct_card)
  also have "\<dots> \<le> card (insert node (set ns))" using r(4) by (intro card_mono) auto
  also have "\<dots> \<le> Suc (length ns)" using card_length [of ns] by (simp add: card_insert_if)
  finally have "length ns' \<le> Suc (length ns)" .
  moreover have "0 < length rs * k" using assms(1,2) by (auto simp: records_ok_def)
  ultimately have "length ns' < 2 * length rs * k" using r(6) by linarith
  with r show ?thesis by blast
qed

theorem hazard_free_safe_and_bounded_witness:
  "\<exists>h' nh' calls. hazard_pointer_free (demo_records(1 \<mapsto> the (demo_records 1)\<lparr>hr_retired_list := 6, hr_retired_count := 1\<rparr>))
     demo_nodes 1 1 5 (\<lambda>_. 0) = Some (h', nh', calls) \<and> (\<forall>c \<in> set calls. snd (snd c) \<noteq> 6)"
proof -
  let ?h = "demo_records(1 \<mapsto> the (demo_records 1)\<lparr>hr_retired_list := 6, hr_retired_count := 1\<rparr>)"
  have ok: "records_ok ?h 1 [1] 1" "retired_ok ?h demo_nodes 1 [6]" "node_ok demo_nodes 5" "set (hazards_of ?h [1]) = {6}"
    by (auto simp: records_ok_def record_ok_def retired_ok_def node_ok_def demo_records_def demo_nodes_def
        hazards_of_def slots_of_def)
  show ?thesis
    using hazard_free_safe_and_bounded [OF ok(1) _ ok(2) _ ok(3), of "\<lambda>_. 0"] ok(4) by fastforce
qed

text \<open>The binary search over a sorted list returns, stays within the bounds that its assertions check,
  and answers membership.\<close>

theorem binary_search_correct:
  assumes "sorted hay"
  shows "binary_search hay needle = Some (if needle \<in> set hay then 1 else 0)"
  by (rule binary_search_sorted [OF assms])

theorem binary_search_correct_witness:
  "binary_search [2, 3, 5, 9] 5 = Some 1 \<and> binary_search [2, 3, 5, 9] 4 = Some 0"
  using binary_search_correct [of "[2, 3, 5, 9]"] by simp

text \<open>Registering a thread keeps all records well formed: the new record is the head of the list and
  every threshold, the new one and the old ones, becomes twice the total number of slots.\<close>

theorem hazard_record_create:
  assumes "records_ok h hd_rec rs k \<or> hd_rec = NULL \<and> rs = [] \<and> 0 < k" "h a = None" "a \<noteq> NULL"
  shows "\<exists>h'. hazard_pointer_thread_record_create_and_push h hd_rec k a = Some (h', a) \<and>
              records_ok h' a (a # rs) k \<and> retired_ok h' nh a []"
  by (rule record_create_ok [OF assms])

theorem hazard_record_create_witness:
  "\<exists>h'. hazard_pointer_thread_record_create_and_push demo_records 1 1 2 = Some (h', 2) \<and> records_ok h' 2 [2, 1] 1"
  using hazard_record_create [of demo_records 1 "[1]" 1 2] demo_records_ok(1) by (auto simp: demo_records_def)

end
