(* ===== verification/Mpmc_Fifo.thy ===== *)
theory Mpmc_Fifo
  imports Hazard_Pointer
begin

text \<open>
  \<open>include/mpmc_fifo.h\<close>, one call at a time: the queue with a dummy node whose links run from the
  head (the oldest) along \<open>prev\<close>, and whose nodes are protected by hazard pointers and retired by
  the popping thread.  The field \<open>hazard\<close> of a node is the entry of the node heap of the hazard
  pointers at the same address.  The weak compare-exchanges may fail spuriously, as told by a list;
  without interference the re-reads of head and tail see the same value.
\<close>

record mpmc_fifo_node =
  mq_value :: addr
  mq_prev :: addr
  mq_next :: addr

type_synonym mpmc_heap = "mpmc_fifo_node heap"

record mpmc_fifo =
  mq_head :: addr
  mq_tail :: addr

definition MPMC_HAZARD_COUNT :: nat where
  "MPMC_HAZARD_COUNT = 2"

definition mpmc_fifo_init :: "mpmc_heap \<Rightarrow> node_heap \<Rightarrow> addr \<Rightarrow> (mpmc_heap \<times> mpmc_fifo \<times> int) option" where
  "mpmc_fifo_init mh nh initial_node = do {
     c_assert (initial_node \<noteq> NULL);
     x \<leftarrow> load nh initial_node;
     c_assert (hn_gc_function x \<noteq> NULL);
     mh' \<leftarrow> store mh initial_node \<lparr>mq_value = NULL, mq_prev = NULL, mq_next = NULL\<rparr>;
     Some (mh', \<lparr>mq_head = initial_node, mq_tail = initial_node\<rparr>, 1)
   }"

partial_function (option) mpmc_fifo_destroy ::
  "mpmc_heap \<Rightarrow> record_heap \<Rightarrow> node_heap \<Rightarrow> addr \<Rightarrow> addr \<Rightarrow> (nat \<Rightarrow> addr) \<Rightarrow> mpmc_fifo \<Rightarrow> gc_call list \<Rightarrow>
   (record_heap \<times> node_heap \<times> mpmc_fifo \<times> gc_call list) option" where
  "mpmc_fifo_destroy mh rh nh hd_rec hptr junk f calls =
     (if mq_head f = NULL then Some (rh, nh, f, calls)
      else Option.bind (load mh (mq_head f)) (\<lambda>tmp.
             Option.bind (hazard_pointer_free rh nh hd_rec hptr (mq_head f) junk) (\<lambda>(rh', nh', cs).
               mpmc_fifo_destroy mh rh' nh' hd_rec hptr junk (f\<lparr>mq_head := mq_prev tmp\<rparr>) (calls @ cs))))"

text \<open>A turn of the loop of \<open>mpmc_fifo_push\<close>; a failed compare-exchange leaves the hazard set and starts again.\<close>

fun mpmc_push_loop ::
  "mpmc_heap \<Rightarrow> record_heap \<Rightarrow> addr \<Rightarrow> mpmc_fifo \<Rightarrow> addr \<Rightarrow> bool list \<Rightarrow> (mpmc_heap \<times> record_heap \<times> mpmc_fifo) option" where
  "mpmc_push_loop mh rh hptr f new_node sps = do {
     let tail = mq_tail f;
     rh1 \<leftarrow> hazard_pointer_using rh hptr tail 0;
     n \<leftarrow> load mh new_node;
     mh1 \<leftarrow> store mh new_node (n\<lparr>mq_next := tail\<rparr>);
     case sps of
       True # sps' \<Rightarrow> mpmc_push_loop mh1 rh1 hptr f new_node sps'
     | _ \<Rightarrow> do {
         x \<leftarrow> load mh1 tail;
         mh2 \<leftarrow> store mh1 tail (x\<lparr>mq_prev := new_node\<rparr>);
         rh2 \<leftarrow> hazard_pointer_done_using rh1 hptr 0;
         Some (mh2, rh2, f\<lparr>mq_tail := new_node\<rparr>)
       }
   }"

definition mpmc_fifo_push ::
  "mpmc_heap \<Rightarrow> record_heap \<Rightarrow> addr \<Rightarrow> mpmc_fifo \<Rightarrow> addr \<Rightarrow> bool list \<Rightarrow> (mpmc_heap \<times> record_heap \<times> mpmc_fifo) option" where
  "mpmc_fifo_push mh rh hptr f new_node sps = do {
     c_assert (hptr \<noteq> NULL);
     n \<leftarrow> load mh new_node;
     c_assert (mq_value n \<noteq> NULL);
     mh' \<leftarrow> store mh new_node (n\<lparr>mq_prev := NULL\<rparr>);
     mpmc_push_loop mh' rh hptr f new_node sps
   }"

fun mpmc_fifo_trypop ::
  "mpmc_heap \<Rightarrow> record_heap \<Rightarrow> node_heap \<Rightarrow> addr \<Rightarrow> addr \<Rightarrow> (nat \<Rightarrow> addr) \<Rightarrow> mpmc_fifo \<Rightarrow> bool list \<Rightarrow>
   (record_heap \<times> node_heap \<times> mpmc_fifo \<times> addr \<times> gc_call list) option" where
  "mpmc_fifo_trypop mh rh nh hd_rec hptr junk f sps = do {
     c_assert (hptr \<noteq> NULL);
     let head = mq_head f;
     rh1 \<leftarrow> hazard_pointer_using rh hptr head 0;
     x \<leftarrow> load mh head;
     let prev = mq_prev x;
     if prev = NULL
     then do { rh2 \<leftarrow> hazard_pointer_done_using rh1 hptr 0; Some (rh2, nh, f, NULL, []) }
     else do {
       rh2 \<leftarrow> hazard_pointer_using rh1 hptr prev 1;
       y \<leftarrow> load mh prev;
       case sps of
         True # sps' \<Rightarrow> mpmc_fifo_trypop mh rh2 nh hd_rec hptr junk f sps'
       | _ \<Rightarrow> do {
           rh3 \<leftarrow> hazard_pointer_done_using rh2 hptr 0;
           rh4 \<leftarrow> hazard_pointer_done_using rh3 hptr 1;
           (rh5, nh', calls) \<leftarrow> hazard_pointer_free rh4 nh hd_rec hptr head junk;
           Some (rh5, nh', f\<lparr>mq_head := prev\<rparr>, mq_value y, calls)
         }
     }
   }"

lemmas [simp del] = mpmc_push_loop.simps mpmc_fifo_trypop.simps

section \<open>The queue\<close>

text \<open>\<open>ns\<close> are the nodes from the dummy on, \<open>vs\<close> the values of the others.\<close>

definition mpmc_rep :: "mpmc_heap \<Rightarrow> mpmc_fifo \<Rightarrow> addr list \<Rightarrow> addr list \<Rightarrow> bool" where
  "mpmc_rep mh f ns vs \<longleftrightarrow>
     chain mq_prev mh (mq_head f) ns NULL \<and> ns \<noteq> [] \<and> last ns = mq_tail f \<and> distinct ns \<and>
     map (\<lambda>a. map_option mq_value (mh a)) (tl ns) = map Some vs \<and> NULL \<notin> set vs"

text \<open>The record of the calling thread: two slots, both clear between calls.\<close>

definition slots_clear :: "record_heap \<Rightarrow> addr \<Rightarrow> bool" where
  "slots_clear rh hptr \<longleftrightarrow> hptr \<noteq> NULL \<and> (\<exists>r. rh hptr = Some r \<and> hr_pointers r = [NULL, NULL])"

lemma hazard_slot_upd:
  assumes "rh hptr = Some r" "hptr \<noteq> NULL" "n < length (hr_pointers r)"
  shows "hazard_pointer_using rh hptr a n = Some (rh(hptr \<mapsto> r\<lparr>hr_pointers := (hr_pointers r)[n := a]\<rparr>))"
    "hazard_pointer_done_using rh hptr n = Some (rh(hptr \<mapsto> r\<lparr>hr_pointers := (hr_pointers r)[n := NULL]\<rparr>))"
  using assms by (simp_all add: hazard_pointer_using_def hazard_pointer_done_using_def)

text \<open>Linking a node at the tail.\<close>

lemma mpmc_rep_snoc:
  assumes rep: "mpmc_rep mh f ns vs" and n: "n \<notin> set ns" "n \<noteq> NULL" and v: "mq_value y = v" "v \<noteq> NULL" "mq_prev y = NULL"
    and x: "mh (mq_tail f) = Some x"
  shows "mpmc_rep (mh(n \<mapsto> y, mq_tail f \<mapsto> x\<lparr>mq_prev := n\<rparr>)) (f\<lparr>mq_tail := n\<rparr>) (ns @ [n]) (vs @ [v])"
proof -
  obtain ms t where ms: "ns = ms @ [t]" "t = mq_tail f" using rep by (metis append_butlast_last_id mpmc_rep_def)
  have d: "t \<notin> set ms" "n \<noteq> t" using rep ms n(1) by (auto simp: mpmc_rep_def)
  have ch: "chain mq_prev mh (mq_head f) ms t" "t \<noteq> NULL" using rep ms by (auto simp: mpmc_rep_def split: option.splits)
  let ?mh = "mh(n \<mapsto> y, t \<mapsto> x\<lparr>mq_prev := n\<rparr>)"
  have "chain mq_prev ?mh (mq_head f) (ms @ [t, n]) NULL"
    using ch d n v(3) ms(1) by simp
  then have c: "chain mq_prev ?mh (mq_head f) (ns @ [n]) NULL" by (simp only: ms(1) append_assoc append.simps)
  have old: "map (\<lambda>a. map_option mq_value (?mh a)) (tl ns) = map (\<lambda>a. map_option mq_value (mh a)) (tl ns)"
  proof (rule map_cong [OF refl])
    fix a assume "a \<in> set (tl ns)"
    then have "a \<noteq> n" using n(1) by (cases ns) auto
    then show "map_option mq_value (?mh a) = map_option mq_value (mh a)" using x ms(2) by simp
  qed
  have new: "map_option mq_value (?mh n) = Some v" using d(2) v(1) by simp
  have tl: "tl (ns @ [n]) = tl ns @ [n]" using ms(1) by (cases ms) auto
  have vs: "map (\<lambda>a. map_option mq_value (mh a)) (tl ns) = map Some vs" using rep by (simp add: mpmc_rep_def)
  have "map (\<lambda>a. map_option mq_value (?mh a)) (tl (ns @ [n])) = map Some (vs @ [v])"
    by (simp only: tl map_append old vs list.map new)
  with c rep ms(2) n v(2) show ?thesis unfolding mpmc_rep_def by (simp del: fun_upd_apply chain_append)
qed

lemma mpmc_tail:
  assumes "mpmc_rep mh f ns vs"
  obtains x where "mq_tail f \<in> set ns" "mq_tail f \<noteq> NULL" "mh (mq_tail f) = Some x"
proof -
  have "mq_tail f \<in> set ns" "chain mq_prev mh (mq_head f) ns NULL"
    using assms last_in_set [of ns] by (auto simp: mpmc_rep_def)
  then show thesis using that chain_not_NULL chain_alloc by metis
qed

text \<open>The state of a push in the loop: the node is private, slot 0 of the record is arbitrary.\<close>

definition push_ready :: "mpmc_heap \<Rightarrow> mpmc_heap \<Rightarrow> record_heap \<Rightarrow> addr \<Rightarrow> addr \<Rightarrow> addr \<Rightarrow> hazard_record \<Rightarrow> bool" where
  "push_ready mh mh' rh hptr n v r \<longleftrightarrow>
     (\<exists>y. mh' n = Some y \<and> mq_value y = v \<and> mq_prev y = NULL) \<and> (\<forall>a. a \<noteq> n \<longrightarrow> mh' a = mh a) \<and>
     hptr \<noteq> NULL \<and> rh hptr = Some r \<and> (\<exists>p. hr_pointers r = [p, NULL])"

lemma mpmc_push_turn:
  assumes rep: "mpmc_rep mh f ns vs" and n: "n \<notin> set ns" "n \<noteq> NULL" and v: "v \<noteq> NULL" and rd: "push_ready mh mh' rh hptr n v r"
  obtains mh1 mh2 where "push_ready mh mh1 (rh(hptr \<mapsto> r\<lparr>hr_pointers := [mq_tail f, NULL]\<rparr>)) hptr n v (r\<lparr>hr_pointers := [mq_tail f, NULL]\<rparr>)"
    "mpmc_rep mh2 (f\<lparr>mq_tail := n\<rparr>) (ns @ [n]) (vs @ [v])"
    "\<And>sps. mpmc_push_loop mh' rh hptr f n sps =
       (case sps of True # sps' \<Rightarrow> mpmc_push_loop mh1 (rh(hptr \<mapsto> r\<lparr>hr_pointers := [mq_tail f, NULL]\<rparr>)) hptr f n sps'
        | _ \<Rightarrow> Some (mh2, rh(hptr \<mapsto> r\<lparr>hr_pointers := [NULL, NULL]\<rparr>), f\<lparr>mq_tail := n\<rparr>))"
proof -
  let ?t = "mq_tail f"
  obtain y p where y: "mh' n = Some y" "mq_value y = v" "mq_prev y = NULL" "\<And>a. a \<noteq> n \<Longrightarrow> mh' a = mh a"
    and r: "hptr \<noteq> NULL" "rh hptr = Some r" "hr_pointers r = [p, NULL]"
    using rd by (auto simp: push_ready_def)
  obtain x where x: "?t \<in> set ns" "?t \<noteq> NULL" "mh ?t = Some x" using mpmc_tail [OF rep] .
  have ne: "?t \<noteq> n" using x(1) n(1) by auto
  let ?r = "r\<lparr>hr_pointers := [?t, NULL]\<rparr>" and ?y = "y\<lparr>mq_next := ?t\<rparr>"
  let ?mh1 = "mh'(n \<mapsto> ?y)" and ?mh2 = "mh(n \<mapsto> ?y, ?t \<mapsto> x\<lparr>mq_prev := n\<rparr>)"
  have u: "hazard_pointer_using rh hptr ?t 0 = Some (rh(hptr \<mapsto> ?r))"
      "hazard_pointer_done_using (rh(hptr \<mapsto> ?r)) hptr 0 = Some (rh(hptr \<mapsto> r\<lparr>hr_pointers := [NULL, NULL]\<rparr>))"
    using hazard_slot_upd(1) [of rh hptr r 0 ?t] hazard_slot_upd(2) [of "rh(hptr \<mapsto> ?r)" hptr ?r 0] r by auto
  have eq: "mh'(n \<mapsto> ?y, ?t \<mapsto> x\<lparr>mq_prev := n\<rparr>) = ?mh2" using y(4) by auto
  show thesis
  proof (rule that [of ?mh1 ?mh2])
    show "push_ready mh ?mh1 (rh(hptr \<mapsto> ?r)) hptr n v ?r" using y r by (simp add: push_ready_def)
    show "mpmc_rep ?mh2 (f\<lparr>mq_tail := n\<rparr>) (ns @ [n]) (vs @ [v])"
      using mpmc_rep_snoc [OF rep n _ v _ x(3), of ?y] y by simp
    fix sps
    show "mpmc_push_loop mh' rh hptr f n sps =
       (case sps of True # sps' \<Rightarrow> mpmc_push_loop ?mh1 (rh(hptr \<mapsto> ?r)) hptr f n sps'
        | _ \<Rightarrow> Some (?mh2, rh(hptr \<mapsto> r\<lparr>hr_pointers := [NULL, NULL]\<rparr>), f\<lparr>mq_tail := n\<rparr>))"
      using y(1,4) n(2) x ne u
      by (subst mpmc_push_loop.simps) (simp add: eq Let_def split: list.splits bool.splits)
  qed
qed

lemma mpmc_push_loop_ok:
  assumes rep: "mpmc_rep mh f ns vs" and n: "n \<notin> set ns" "n \<noteq> NULL" and v: "v \<noteq> NULL"
  shows "push_ready mh mh' rh hptr n v r \<Longrightarrow>
     \<exists>mh2. mpmc_push_loop mh' rh hptr f n sps = Some (mh2, rh(hptr \<mapsto> r\<lparr>hr_pointers := [NULL, NULL]\<rparr>), f\<lparr>mq_tail := n\<rparr>) \<and>
       mpmc_rep mh2 (f\<lparr>mq_tail := n\<rparr>) (ns @ [n]) (vs @ [v])"
proof (induction sps arbitrary: mh' rh r)
  case Nil
  from mpmc_push_turn [OF rep n v Nil] show ?case by (metis (no_types, lifting) list.simps(4))
next
  case (Cons b sps)
  from mpmc_push_turn [OF rep n v Cons.prems] obtain mh1 mh2 where
      t: "push_ready mh mh1 (rh(hptr \<mapsto> r\<lparr>hr_pointers := [mq_tail f, NULL]\<rparr>)) hptr n v (r\<lparr>hr_pointers := [mq_tail f, NULL]\<rparr>)"
        "mpmc_rep mh2 (f\<lparr>mq_tail := n\<rparr>) (ns @ [n]) (vs @ [v])"
        "\<And>sps. mpmc_push_loop mh' rh hptr f n sps =
       (case sps of True # sps' \<Rightarrow> mpmc_push_loop mh1 (rh(hptr \<mapsto> r\<lparr>hr_pointers := [mq_tail f, NULL]\<rparr>)) hptr f n sps'
        | _ \<Rightarrow> Some (mh2, rh(hptr \<mapsto> r\<lparr>hr_pointers := [NULL, NULL]\<rparr>), f\<lparr>mq_tail := n\<rparr>))"
    by blast
  from Cons.IH [OF t(1)] t(2) show ?case by (cases b) (simp_all add: t(3) fun_upd_upd del: fun_upd_apply)
qed

text \<open>A push of a node with a value.\<close>

lemma mpmc_push_ok:
  assumes rep: "mpmc_rep mh f ns vs" and n: "n \<notin> set ns" "n \<noteq> NULL" and y: "mh n = Some y" "mq_value y \<noteq> NULL" and sl: "slots_clear rh hptr"
  shows "\<exists>mh'. mpmc_fifo_push mh rh hptr f n sps = Some (mh', rh, f\<lparr>mq_tail := n\<rparr>) \<and>
     mpmc_rep mh' (f\<lparr>mq_tail := n\<rparr>) (ns @ [n]) (vs @ [mq_value y])"
proof -
  obtain r where r: "hptr \<noteq> NULL" "rh hptr = Some r" "hr_pointers r = [NULL, NULL]" using sl by (auto simp: slots_clear_def)
  have "push_ready mh (mh(n \<mapsto> y\<lparr>mq_prev := NULL\<rparr>)) rh hptr n (mq_value y) r" using r by (simp add: push_ready_def)
  moreover have "rh(hptr \<mapsto> r\<lparr>hr_pointers := [NULL, NULL]\<rparr>) = rh" using r by (auto simp: fun_eq_iff)
  ultimately show ?thesis
    using mpmc_push_loop_ok [OF rep n y(2), of "mh(n \<mapsto> y\<lparr>mq_prev := NULL\<rparr>)" rh hptr r sps] y r(1) n(2)
    by (simp add: mpmc_fifo_push_def)
qed

lemma mpmc_trypop_empty:
  assumes "mpmc_rep mh f ns []" "slots_clear rh hptr"
  shows "mpmc_fifo_trypop mh rh nh hd_rec hptr junk f sps = Some (rh, nh, f, NULL, [])"
proof -
  obtain d x where d: "ns = [d]" "mq_head f = d" "d \<noteq> NULL" "mh d = Some x" "mq_prev x = NULL"
    using assms(1) unfolding mpmc_rep_def by (cases ns) (auto split: option.splits)
  obtain r where r: "hptr \<noteq> NULL" "rh hptr = Some r" "hr_pointers r = [NULL, NULL]" using assms(2) by (auto simp: slots_clear_def)
  have "hazard_pointer_done_using (rh(hptr \<mapsto> r\<lparr>hr_pointers := [d, NULL]\<rparr>)) hptr 0 = Some rh"
    using hazard_slot_upd(2) [of "rh(hptr \<mapsto> r\<lparr>hr_pointers := [d, NULL]\<rparr>)" hptr _ 0] r by (auto simp: fun_eq_iff)
  then show ?thesis
    using d r hazard_slot_upd(1) [of rh hptr r 0 d] by (subst mpmc_fifo_trypop.simps) (simp add: Let_def)
qed

lemma mpmc_trypop_turns:
  assumes rep: "mpmc_rep mh f (d # n # ns) (v # vs)" and hp: "hptr \<noteq> NULL"
  shows "rh hptr = Some r \<Longrightarrow> hr_pointers r = [p, q] \<Longrightarrow>
     mpmc_fifo_trypop mh rh nh hd_rec hptr junk f sps = do {
       (rh', nh', calls) \<leftarrow> hazard_pointer_free (rh(hptr \<mapsto> r\<lparr>hr_pointers := [NULL, NULL]\<rparr>)) nh hd_rec hptr d junk;
       Some (rh', nh', f\<lparr>mq_head := n\<rparr>, v, calls) }"
proof (induction sps arbitrary: rh r p q)
  case Nil
  obtain x y where x: "mq_head f = d" "d \<noteq> NULL" "mh d = Some x" "mq_prev x = n" "n \<noteq> NULL" "mh n = Some y" "mq_value y = v"
    using rep unfolding mpmc_rep_def by (auto split: option.splits)
  show ?case
    using Nil x hp by (subst mpmc_fifo_trypop.simps) (simp add: hazard_slot_upd Let_def fun_upd_upd fun_upd_same del: fun_upd_apply)
next
  case (Cons b sps)
  obtain x y where x: "mq_head f = d" "d \<noteq> NULL" "mh d = Some x" "mq_prev x = n" "n \<noteq> NULL" "mh n = Some y" "mq_value y = v"
    using rep unfolding mpmc_rep_def by (auto split: option.splits)
  show ?case
  proof (cases b)
    case True
    then show ?thesis
      using Cons x hp by (subst mpmc_fifo_trypop.simps) (simp add: hazard_slot_upd Let_def fun_upd_upd fun_upd_same del: fun_upd_apply)
  next
    case False
    then show ?thesis
      using Cons.prems x hp by (subst mpmc_fifo_trypop.simps) (simp add: hazard_slot_upd Let_def fun_upd_upd fun_upd_same del: fun_upd_apply)
  qed
qed

lemma mpmc_rep_tl: "mpmc_rep mh f (d # n # ns) (v # vs) \<Longrightarrow> mpmc_rep mh (f\<lparr>mq_head := n\<rparr>) (n # ns) vs"
  by (auto simp: mpmc_rep_def split: option.splits)

section \<open>Properties\<close>

text \<open>One call at a time, whatever compare-exchanges fail spuriously, the queue is first-in first-out: a push
  appends its value and leaves the hazard slots clear; a pop of the empty queue returns NULL and changes nothing; any
  other pop returns the oldest value, makes its node the new dummy, and retires the old dummy, which is
  then either in the retired list or has been reclaimed, while every other node of the queue keeps its
  protection.\<close>

theorem mpmc_fifo_correct:
  assumes "mpmc_rep mh f ns vs" "slots_clear rh hptr" "records_ok rh hd_rec rs 2" "hptr \<in> set rs" "retired_ok rh nh hptr old"
    and "\<forall>a \<in> set ns. node_ok nh a \<and> a \<notin> set old"
    and "new \<notin> set ns" "new \<noteq> NULL" "mh new = Some y" "mq_value y \<noteq> NULL"
  shows "(\<exists>mh' f'. mpmc_fifo_push mh rh hptr f new sps = Some (mh', rh, f') \<and> mpmc_rep mh' f' (ns @ [new]) (vs @ [mq_value y])) \<and>
     (case vs of
        [] \<Rightarrow> mpmc_fifo_trypop mh rh nh hd_rec hptr junk f sps = Some (rh, nh, f, NULL, [])
      | v # vs' \<Rightarrow>
          (\<exists>rh' nh' f' calls old'. mpmc_fifo_trypop mh rh nh hd_rec hptr junk f sps = Some (rh', nh', f', v, calls) \<and>
             mpmc_rep mh f' (tl ns) vs' \<and> records_ok rh' hd_rec rs 2 \<and> retired_ok rh' nh' hptr old' \<and>
             set old' \<union> set (map (snd \<circ> snd) calls) = insert (hd ns) (set old)))"
proof
  show "\<exists>mh' f'. mpmc_fifo_push mh rh hptr f new sps = Some (mh', rh, f') \<and> mpmc_rep mh' f' (ns @ [new]) (vs @ [mq_value y])"
    using mpmc_push_ok [OF assms(1,7-10,2)] by blast
  show "case vs of
        [] \<Rightarrow> mpmc_fifo_trypop mh rh nh hd_rec hptr junk f sps = Some (rh, nh, f, NULL, [])
      | v # vs' \<Rightarrow>
          (\<exists>rh' nh' f' calls old'. mpmc_fifo_trypop mh rh nh hd_rec hptr junk f sps = Some (rh', nh', f', v, calls) \<and>
             mpmc_rep mh f' (tl ns) vs' \<and> records_ok rh' hd_rec rs 2 \<and> retired_ok rh' nh' hptr old' \<and>
             set old' \<union> set (map (snd \<circ> snd) calls) = insert (hd ns) (set old))"
  proof (cases vs)
    case Nil
    with mpmc_trypop_empty [OF _ assms(2)] assms(1) show ?thesis by simp
  next
    case (Cons v vs')
    obtain d n ms where ns: "ns = d # n # ms"
    proof -
      have "length (tl ns) = Suc (length vs')" using assms(1) Cons unfolding mpmc_rep_def by (metis length_map length_Cons)
      then show thesis using that by (cases ns; cases "tl ns") auto
    qed
    have rep: "mpmc_rep mh f (d # n # ms) (v # vs')" using assms(1) ns Cons by simp
    obtain r where r: "hptr \<noteq> NULL" "rh hptr = Some r" "hr_pointers r = [NULL, NULL]" using assms(2) by (auto simp: slots_clear_def)
    have rh: "rh(hptr \<mapsto> r\<lparr>hr_pointers := [NULL, NULL]\<rparr>) = rh" using r by (auto simp: fun_eq_iff)
    have d: "node_ok nh d" "d \<notin> set old" "d \<noteq> NULL" using assms(1,6) ns by (auto simp: mpmc_rep_def)
    obtain rh' nh' calls old' where fr: "hazard_pointer_free rh nh hd_rec hptr d junk = Some (rh', nh', calls)"
        "records_ok rh' hd_rec rs 2" "retired_ok rh' nh' hptr old'" "set old' \<union> set (map (snd \<circ> snd) calls) = insert d (set old)"
      using hazard_pointer_free_ok [OF assms(3-5) d, of junk] by blast
    have "mpmc_fifo_trypop mh rh nh hd_rec hptr junk f sps = Some (rh', nh', f\<lparr>mq_head := n\<rparr>, v, calls)"
      using mpmc_trypop_turns [OF rep r(1), of rh r NULL NULL] r(2,3) rh fr(1) by simp
    with fr mpmc_rep_tl [OF rep] Cons ns show ?thesis by auto
  qed
qed

theorem mpmc_fifo_correct_witness:
  "\<exists>mh' f'. mpmc_fifo_push [1 \<mapsto> \<lparr>mq_value = 0, mq_prev = 0, mq_next = 0\<rparr>, 2 \<mapsto> \<lparr>mq_value = 7, mq_prev = 0, mq_next = 0\<rparr>]
     [3 \<mapsto> \<lparr>hr_next = 0, hr_retire_threshold = 4, hr_retired_count = 0, hr_retired_list = 0, hr_plist_size = 0, hr_plist = None, hr_pointers = [0, 0]\<rparr>]
     3 \<lparr>mq_head = 1, mq_tail = 1\<rparr> 2 [True] = Some (mh',
     [3 \<mapsto> \<lparr>hr_next = 0, hr_retire_threshold = 4, hr_retired_count = 0, hr_retired_list = 0, hr_plist_size = 0, hr_plist = None, hr_pointers = [0, 0]\<rparr>], f') \<and>
     mpmc_rep mh' f' [1, 2] [7]"
proof -
  define mh :: mpmc_heap where "mh = [1 \<mapsto> \<lparr>mq_value = 0, mq_prev = 0, mq_next = 0\<rparr>, 2 \<mapsto> \<lparr>mq_value = 7, mq_prev = 0, mq_next = 0\<rparr>]"
  define rh :: record_heap where "rh = [3 \<mapsto> \<lparr>hr_next = 0, hr_retire_threshold = 4, hr_retired_count = 0, hr_retired_list = 0,
     hr_plist_size = 0, hr_plist = None, hr_pointers = [0, 0]\<rparr>]"
  define nh :: node_heap where "nh = [1 \<mapsto> \<lparr>hn_next = 0, hn_gc_data = 0, hn_gc_function = 9\<rparr>]"
  have "mpmc_rep mh \<lparr>mq_head = 1, mq_tail = 1\<rparr> [1] []" "slots_clear rh 3" "records_ok rh 3 [3] 2" "retired_ok rh nh 3 []" "node_ok nh 1"
    by (auto simp: mpmc_rep_def slots_clear_def records_ok_def record_ok_def retired_ok_def node_ok_def mh_def rh_def nh_def)
  from mpmc_fifo_correct [OF this(1-3) _ this(4), of 2 "\<lparr>mq_value = 7, mq_prev = 0, mq_next = 0\<rparr>" "[True]" "\<lambda>_. 0"] this(5)
  show ?thesis unfolding mh_def [symmetric] rh_def [symmetric] by (simp add: mh_def)
qed

end
