(* ===== verification/Pending_Chain.thy ===== *)
theory Pending_Chain
  imports Fiber_Prelude
begin

text \<open>
  Queues whose producers replace the tail first and link afterwards.  \<open>linking nx h L ns\<close>: of the nodes \<open>ns\<close>, in the order in which the tail was replaced, each is linked to its
  successor through the field \<open>nx\<close>, or has no link yet and \<open>L\<close> says that its producer is about to write it; the last has none.
\<close>

fun linking :: "('n \<Rightarrow> addr) \<Rightarrow> 'n heap \<Rightarrow> (addr \<Rightarrow> addr \<Rightarrow> bool) \<Rightarrow> addr list \<Rightarrow> bool" where
  "linking nx h L [] = False"
| "linking nx h L [a] = (a \<noteq> NULL \<and> (\<exists>n. h a = Some n \<and> nx n = NULL))"
| "linking nx h L (a # b # ns) = (a \<noteq> NULL \<and> (\<exists>n. h a = Some n \<and> (nx n = b \<or> nx n = NULL \<and> L a b)) \<and> linking nx h L (b # ns))"

lemma linking_members: "linking nx h L ns \<Longrightarrow> a \<in> set ns \<Longrightarrow> a \<noteq> NULL \<and> h a \<noteq> None"
  by (induction nx h L ns rule: linking.induct) auto

lemma linking_nonempty: "linking nx h L ns \<Longrightarrow> ns \<noteq> []"
  by auto

lemma linking_cong:
  "linking nx h L ns \<Longrightarrow> (\<And>a. a \<in> set ns \<Longrightarrow> h' a = h a) \<Longrightarrow> (\<And>a b. L a b \<Longrightarrow> L' a b) \<Longrightarrow> linking nx h' L' ns"
  by (induction nx h L ns rule: linking.induct) auto

lemma linking_snoc:
  "linking nx h L ns \<Longrightarrow> h n = Some m \<Longrightarrow> nx m = NULL \<Longrightarrow> n \<noteq> NULL \<Longrightarrow> (\<And>a b. L a b \<Longrightarrow> L' a b) \<Longrightarrow> L' (last ns) n \<Longrightarrow> linking nx h L' (ns @ [n])"
  by (induction nx h L ns rule: linking.induct) auto

lemma linking_link:
  "linking nx h L (xs @ a # b # ys) \<Longrightarrow> distinct (xs @ a # b # ys) \<Longrightarrow> nx m = b \<Longrightarrow> (\<And>c d. L c d \<Longrightarrow> c = a \<or> L' c d) \<Longrightarrow>
   linking nx (h(a \<mapsto> m)) L' (xs @ a # b # ys)"
proof (induction xs)
  case Nil
  have "linking nx h' L' (b # ys)" if "linking nx h L (b # ys)" "\<forall>c \<in> set (b # ys). h' c = h c" "a \<notin> set (b # ys)" for h'
    using that Nil.prems(4) by (induction nx h L "b # ys" arbitrary: b ys rule: linking.induct) auto
  with Nil show ?case by auto
next
  case (Cons c xs)
  then show ?case by (cases xs) auto
qed

lemma linking_last: "linking nx h L ns \<Longrightarrow> \<exists>n. h (last ns) = Some n \<and> nx n = NULL"
  by (induction nx h L ns rule: linking.induct) auto

lemma linking_hd: "linking nx h L ns \<Longrightarrow> hd ns \<noteq> NULL \<and> (\<exists>m. h (hd ns) = Some m \<and> (nx m \<noteq> NULL \<longrightarrow> (\<exists>ms. ns = hd ns # nx m # ms)))"
  by (induction nx h L ns rule: linking.induct) auto

text \<open>A pending link starts at a node of the chain other than the last.\<close>

lemma pending_not_last: "distinct ns \<Longrightarrow> ns = xs @ last ns # b # ys \<Longrightarrow> False"
  by (metis distinct.simps(2) distinct_append last_ConsR last_appendR last_in_set list.distinct(1))

lemma pending_tl:
  assumes "p # n # ms = xs @ a # b # ys" "a \<noteq> p"
  shows "\<exists>xs. n # ms = xs @ a # b # ys"
  using assms by (cases xs) auto

text \<open>Each of the addresses that threads hold has one holder.\<close>

definition exclusive :: "(nat \<Rightarrow> addr) \<Rightarrow> bool" where
  "exclusive f \<longleftrightarrow> (\<forall>t u. f t = f u \<and> f t \<noteq> NULL \<longrightarrow> t = u)"

lemma exclusive_upd: "exclusive f \<Longrightarrow> x = NULL \<or> (\<forall>u. u \<noteq> t \<longrightarrow> f u \<noteq> x) \<Longrightarrow> exclusive (f(t := x))"
  unfolding exclusive_def by (metis fun_upd_apply)

lemma exclusiveD: "exclusive f \<Longrightarrow> f t \<noteq> NULL \<Longrightarrow> u \<noteq> t \<Longrightarrow> f u \<noteq> f t"
  unfolding exclusive_def by metis

end
