(* ===== verification/Mpmc_Concurrent.thy ===== *)
theory Mpmc_Concurrent
  imports Mpmc_Fifo Step_Machine Pending_Chain
begin

text \<open>
  \<open>include/mpmc_fifo.h\<close> with the hazard pointers of \<open>src/hazard_pointer.c\<close>: any number of threads push, pop, retire and reclaim at
  the granularity of the shared accesses.  A reclaimed node belongs to the clients, who may free it, overwrite it or push it again, so an
  access to a node that was reclaimed too early is a fault.  The \<open>N\<close> records were created before; slot \<open>j\<close> of the record of thread
  \<open>t\<close> is \<open>mc_slot s t j\<close>.
\<close>

section \<open>State\<close>

datatype mc_pc =
    MC_Idle
  | MP_Load addr
  | MP_Tail addr addr
  | MP_Using addr addr
  | MP_Next addr addr
  | MP_Cas addr addr
  | MP_Link addr addr
  | MP_Done
  | MO_Load
  | MO_Head addr
  | MO_Using addr
  | MO_Read addr
  | MO_Empty
  | MO_Prev addr addr
  | MO_Using1 addr addr
  | MO_Value addr addr
  | MO_Cas addr addr addr
  | MO_Won addr
  | MO_Won1 addr
  | MO_Retire addr
  | MS_Collect "(nat \<times> nat) list" "addr list"
  | MS_Sweep "addr list" "addr list"

record mc_sys =
  mc_heap :: mpmc_heap
  mc_fifo :: mpmc_fifo
  mc_pc :: "nat \<Rightarrow> mc_pc"
  mc_slot :: "nat \<Rightarrow> nat \<Rightarrow> addr"
  mc_retired :: "nat \<Rightarrow> addr list"
  mc_client :: "addr \<Rightarrow> bool"
  mc_pushed :: "addr list"
  mc_popped :: "addr list"

abbreviation mc_goto :: "nat \<Rightarrow> mc_pc \<Rightarrow> mc_sys \<Rightarrow> mc_sys" where
  "mc_goto t pc s \<equiv> s\<lparr>mc_pc := (mc_pc s)(t := pc)\<rparr>"

abbreviation mc_set_slot :: "nat \<Rightarrow> nat \<Rightarrow> addr \<Rightarrow> mc_sys \<Rightarrow> mc_sys" where
  "mc_set_slot t j a s \<equiv> s\<lparr>mc_slot := (mc_slot s)(t := (mc_slot s t)(j := a))\<rparr>"

section \<open>Pushing\<close>

text \<open>Clients push nodes of theirs that hold a value.\<close>

definition mc_start_push :: "nat \<Rightarrow> addr \<Rightarrow> mc_sys \<Rightarrow> mc_sys option" where
  "mc_start_push t new_node s = do {
     n \<leftarrow> load (mc_heap s) new_node;
     c_assert (mq_value n \<noteq> NULL);
     h \<leftarrow> store (mc_heap s) new_node (n\<lparr>mq_prev := NULL\<rparr>);
     Some (mc_goto t (MP_Load new_node) (s\<lparr>mc_heap := h, mc_client := (mc_client s)(new_node := False)\<rparr>))
   }"

definition mpmc_push_step :: "nat \<Rightarrow> bool \<Rightarrow> mc_sys \<Rightarrow> mc_sys option" where
  "mpmc_push_step t spurious s =
     (case mc_pc s t of
        MP_Load n \<Rightarrow> Some (mc_goto t (MP_Tail n (mq_tail (mc_fifo s))) s)
      | MP_Tail n tail \<Rightarrow> Some (mc_goto t (MP_Using n tail) (mc_set_slot t 0 tail s))
      | MP_Using n tail \<Rightarrow> Some (mc_goto t (if tail \<noteq> mq_tail (mc_fifo s) then MP_Load n else MP_Next n tail) s)
      | MP_Next n tail \<Rightarrow> do {
          c \<leftarrow> load (mc_heap s) n;
          h \<leftarrow> store (mc_heap s) n (c\<lparr>mq_next := tail\<rparr>);
          Some (mc_goto t (MP_Cas n tail) (s\<lparr>mc_heap := h\<rparr>)) }
      | MP_Cas n tail \<Rightarrow>
          if mq_tail (mc_fifo s) = tail \<and> \<not> spurious
          then do {
            c \<leftarrow> load (mc_heap s) n;
            Some (mc_goto t (MP_Link n tail) (s\<lparr>mc_fifo := (mc_fifo s)\<lparr>mq_tail := n\<rparr>, mc_pushed := mc_pushed s @ [mq_value c]\<rparr>)) }
          else Some (mc_goto t (MP_Load n) s)
      | MP_Link n tail \<Rightarrow> do {
          c \<leftarrow> load (mc_heap s) tail;
          h \<leftarrow> store (mc_heap s) tail (c\<lparr>mq_prev := n\<rparr>);
          Some (mc_goto t MP_Done (s\<lparr>mc_heap := h\<rparr>)) }
      | MP_Done \<Rightarrow> Some (mc_goto t MC_Idle (mc_set_slot t 0 NULL s))
      | _ \<Rightarrow> Some s)"

section \<open>Popping\<close>

text \<open>The slots in the order in which a scan reads them; the records are numbered as they stand in their list.\<close>

definition all_slots :: "nat \<Rightarrow> (nat \<times> nat) list" where
  "all_slots N = concat (map (\<lambda>t. [(t, 0), (t, 1)]) [0..<N])"

text \<open>\<open>hazard_pointer_free\<close> with the threshold \<open>2 * N * MPMC_HAZARD_COUNT\<close>.\<close>

definition mc_retire :: "nat \<Rightarrow> nat \<Rightarrow> addr \<Rightarrow> mc_sys \<Rightarrow> mc_sys" where
  "mc_retire N t node s =
     (let retired = node # mc_retired s t
      in mc_goto t (if length retired \<ge> 2 * N * MPMC_HAZARD_COUNT then MS_Collect (all_slots N) [] else MC_Idle)
           (s\<lparr>mc_retired := (mc_retired s)(t := retired)\<rparr>))"

definition mpmc_trypop_step :: "nat \<Rightarrow> nat \<Rightarrow> bool \<Rightarrow> mc_sys \<Rightarrow> mc_sys option" where
  "mpmc_trypop_step N t spurious s =
     (case mc_pc s t of
        MO_Load \<Rightarrow> Some (mc_goto t (MO_Head (mq_head (mc_fifo s))) s)
      | MO_Head head \<Rightarrow> Some (mc_goto t (MO_Using head) (mc_set_slot t 0 head s))
      | MO_Using head \<Rightarrow> Some (mc_goto t (if head \<noteq> mq_head (mc_fifo s) then MO_Load else MO_Read head) s)
      | MO_Read head \<Rightarrow> do {
          c \<leftarrow> load (mc_heap s) head;
          Some (mc_goto t (if mq_prev c = NULL then MO_Empty else MO_Prev head (mq_prev c)) s) }
      | MO_Empty \<Rightarrow> Some (mc_goto t MC_Idle (mc_set_slot t 0 NULL s))
      | MO_Prev head prev \<Rightarrow> Some (mc_goto t (MO_Using1 head prev) (mc_set_slot t 1 prev s))
      | MO_Using1 head prev \<Rightarrow> Some (mc_goto t (if head \<noteq> mq_head (mc_fifo s) then MO_Load else MO_Value head prev) s)
      | MO_Value head prev \<Rightarrow> do {
          c \<leftarrow> load (mc_heap s) prev;
          Some (mc_goto t (MO_Cas head prev (mq_value c)) s) }
      | MO_Cas head prev ret \<Rightarrow>
          Some (if mq_head (mc_fifo s) = head \<and> \<not> spurious
                then mc_goto t (MO_Won head) (s\<lparr>mc_fifo := (mc_fifo s)\<lparr>mq_head := prev\<rparr>, mc_popped := mc_popped s @ [ret]\<rparr>)
                else mc_goto t MO_Load s)
      | MO_Won head \<Rightarrow> Some (mc_goto t (MO_Won1 head) (mc_set_slot t 0 NULL s))
      | MO_Won1 head \<Rightarrow> Some (mc_goto t (MO_Retire head) (mc_set_slot t 1 NULL s))
      | MO_Retire head \<Rightarrow> Some (mc_retire N t head s)
      | _ \<Rightarrow> Some s)"

section \<open>Reclaiming\<close>

text \<open>\<open>hazard_pointer_scan\<close>: the slots are read one by one, then the retired nodes looked up one by one.\<close>

definition hazard_scan_step :: "nat \<Rightarrow> mc_sys \<Rightarrow> mc_sys option" where
  "hazard_scan_step t s =
     (case mc_pc s t of
        MS_Collect ((u, j) # todo) plist \<Rightarrow>
          let h = mc_slot s u j in Some (mc_goto t (MS_Collect todo (if h \<noteq> NULL then plist @ [h] else plist)) s)
      | MS_Collect [] plist \<Rightarrow>
          Some (mc_goto t (MS_Sweep (qsort hazard_pointer_compare plist) (mc_retired s t)) (s\<lparr>mc_retired := (mc_retired s)(t := [])\<rparr>))
      | MS_Sweep plist [] \<Rightarrow> Some (mc_goto t MC_Idle s)
      | MS_Sweep plist (node # nodes) \<Rightarrow> do {
          is_hazardous \<leftarrow> binary_search plist node;
          Some (mc_goto t (MS_Sweep plist nodes)
                 (if is_hazardous \<noteq> 0 then s\<lparr>mc_retired := (mc_retired s)(t := node # mc_retired s t)\<rparr>
                  else s\<lparr>mc_client := (mc_client s)(node := True)\<rparr>)) }
      | _ \<Rightarrow> Some s)"

section \<open>Schedules\<close>

text \<open>A client changes a node of its own in any way, or frees it; a call begins in a thread that is in no other.\<close>

datatype mc_act = Mc_Client addr "mpmc_fifo_node option" | Mc_Push nat addr | Mc_Pop nat | Mc_Step nat bool

fun mc_thread :: "mc_act \<Rightarrow> nat option" where
  "mc_thread (Mc_Client a c) = None" | "mc_thread (Mc_Push t n) = Some t" | "mc_thread (Mc_Pop t) = Some t" | "mc_thread (Mc_Step t b) = Some t"

definition has_value :: "mc_sys \<Rightarrow> addr \<Rightarrow> bool" where
  "has_value s n \<longleftrightarrow> (case mc_heap s n of None \<Rightarrow> False | Some c \<Rightarrow> mq_value c \<noteq> NULL)"

fun mc_step :: "nat \<Rightarrow> mc_act \<Rightarrow> mc_sys \<Rightarrow> mc_sys option" where
  "mc_step N (Mc_Client a c) s = Some (if mc_client s a then s\<lparr>mc_heap := (mc_heap s)(a := c)\<rparr> else s)"
| "mc_step N (Mc_Push t n) s = (if mc_pc s t = MC_Idle \<and> mc_client s n \<and> has_value s n then mc_start_push t n s else Some s)"
| "mc_step N (Mc_Pop t) s = Some (if mc_pc s t = MC_Idle then mc_goto t MO_Load s else s)"
| "mc_step N (Mc_Step t spurious) s =
     (case mc_pc s t of
        MC_Idle \<Rightarrow> Some s
      | MS_Collect _ _ \<Rightarrow> hazard_scan_step t s
      | MS_Sweep _ _ \<Rightarrow> hazard_scan_step t s
      | MP_Load _ \<Rightarrow> mpmc_push_step t spurious s
      | MP_Tail _ _ \<Rightarrow> mpmc_push_step t spurious s
      | MP_Using _ _ \<Rightarrow> mpmc_push_step t spurious s
      | MP_Next _ _ \<Rightarrow> mpmc_push_step t spurious s
      | MP_Cas _ _ \<Rightarrow> mpmc_push_step t spurious s
      | MP_Link _ _ \<Rightarrow> mpmc_push_step t spurious s
      | MP_Done \<Rightarrow> mpmc_push_step t spurious s
      | _ \<Rightarrow> mpmc_trypop_step N t spurious s)"

abbreviation mc_run :: "nat \<Rightarrow> mc_act list \<Rightarrow> mc_sys \<Rightarrow> mc_sys option" where
  "mc_run N \<equiv> run_steps (mc_step N)"

text \<open>A new queue with the dummy \<open>a\<close>; everything else belongs to the clients.\<close>

definition mc_init :: "addr \<Rightarrow> mc_sys" where
  "mc_init a = \<lparr>mc_heap = [a \<mapsto> \<lparr>mq_value = NULL, mq_prev = NULL, mq_next = NULL\<rparr>], mc_fifo = \<lparr>mq_head = a, mq_tail = a\<rparr>,
     mc_pc = (\<lambda>_. MC_Idle), mc_slot = (\<lambda>_ _. NULL), mc_retired = (\<lambda>_. []), mc_client = (\<lambda>b. b \<noteq> a \<and> b \<noteq> NULL), mc_pushed = [], mc_popped = []\<rparr>"

section \<open>The invariant\<close>

text \<open>The nodes in the hands of a thread: the one it pushes, the one it has won or those it looks up, and those it has retired.\<close>

fun new_nodes :: "mc_pc \<Rightarrow> addr list" where
  "new_nodes (MP_Load n) = [n]" | "new_nodes (MP_Tail n x) = [n]" | "new_nodes (MP_Using n x) = [n]" | "new_nodes (MP_Next n x) = [n]"
| "new_nodes (MP_Cas n x) = [n]" | "new_nodes _ = []"

fun gone_nodes :: "mc_pc \<Rightarrow> addr list" where
  "gone_nodes (MO_Won x) = [x]" | "gone_nodes (MO_Won1 x) = [x]" | "gone_nodes (MO_Retire x) = [x]" | "gone_nodes (MS_Sweep plist nodes) = nodes"
| "gone_nodes _ = []"

definition limbo :: "mc_sys \<Rightarrow> nat \<Rightarrow> addr list" where
  "limbo s t = gone_nodes (mc_pc s t) @ mc_retired s t"

definition stock :: "mc_sys \<Rightarrow> nat \<Rightarrow> addr list" where
  "stock s t = new_nodes (mc_pc s t) @ limbo s t"

text \<open>The nodes that a popping thread protects: its slot holds them, and it has checked that they were in the queue.\<close>

fun held :: "mc_pc \<Rightarrow> nat \<Rightarrow> addr" where
  "held (MO_Read x) j = (if j = 0 then x else NULL)"
| "held (MO_Prev x p) j = (if j = 0 then x else NULL)"
| "held (MO_Using1 x p) j = (if j = 0 then x else NULL)"
| "held (MO_Value x p) j = (if j = 0 then x else if j = 1 then p else NULL)"
| "held (MO_Cas x p v) j = (if j = 0 then x else if j = 1 then p else NULL)"
| "held _ j = NULL"

text \<open>A slot that was written and is about to be checked.\<close>

fun slot_set :: "mc_pc \<Rightarrow> (nat \<Rightarrow> addr) \<Rightarrow> bool" where
  "slot_set (MO_Using x) f \<longleftrightarrow> f 0 = x" | "slot_set (MO_Using1 x p) f \<longleftrightarrow> f 1 = p" | "slot_set _ f = True"

fun link_from :: "mc_pc \<Rightarrow> addr" where
  "link_from (MP_Link n x) = x" | "link_from _ = NULL"

definition prev_of :: "mpmc_heap \<Rightarrow> addr \<Rightarrow> addr option" where
  "prev_of h a = map_option mq_prev (h a)"

definition value_of :: "mpmc_heap \<Rightarrow> addr \<Rightarrow> addr option" where
  "value_of h a = map_option mq_value (h a)"

definition next_is :: "mpmc_heap \<Rightarrow> addr list \<Rightarrow> addr \<Rightarrow> addr \<Rightarrow> bool" where
  "next_is h ns x p \<longleftrightarrow> (\<exists>ms. ns = x # p # ms) \<and> prev_of h x = Some p"

lemma next_is_members: "next_is h ns x p \<Longrightarrow> x \<in> set ns \<and> p \<in> set ns"
  by (auto simp: next_is_def)

lemma next_is_frame: "next_is h ns x p \<Longrightarrow> (\<And>a. a \<in> set ns \<Longrightarrow> prev_of h' a = prev_of h a) \<Longrightarrow> next_is h' ns x p"
  by (auto simp: next_is_def)

fun mc_pc_ok :: "mpmc_heap \<Rightarrow> addr list \<Rightarrow> mc_pc \<Rightarrow> bool" where
  "mc_pc_ok h ns (MP_Link n x) \<longleftrightarrow> x \<noteq> NULL \<and> (\<exists>xs ys. ns = xs @ x # n # ys) \<and> prev_of h x = Some NULL"
| "mc_pc_ok h ns (MO_Read x) \<longleftrightarrow> x \<noteq> NULL"
| "mc_pc_ok h ns (MO_Prev x p) \<longleftrightarrow> p \<noteq> NULL \<and> (x = hd ns \<longrightarrow> next_is h ns x p)"
| "mc_pc_ok h ns (MO_Using1 x p) \<longleftrightarrow> p \<noteq> NULL \<and> (x = hd ns \<longrightarrow> next_is h ns x p)"
| "mc_pc_ok h ns (MO_Value x p) \<longleftrightarrow> p \<noteq> NULL \<and> (x = hd ns \<longrightarrow> next_is h ns x p)"
| "mc_pc_ok h ns (MO_Cas x p v) \<longleftrightarrow> p \<noteq> NULL \<and> (x = hd ns \<longrightarrow> next_is h ns x p \<and> value_of h p = Some v)"
| "mc_pc_ok h ns pc \<longleftrightarrow> (\<forall>n \<in> set (new_nodes pc). prev_of h n = Some NULL)"

lemma mc_pc_ok_frame:
  assumes "mc_pc_ok h ns pc" "\<And>a. a \<in> set ns \<union> set (new_nodes pc) \<Longrightarrow> prev_of h' a = prev_of h a \<and> value_of h' a = value_of h a"
  shows "mc_pc_ok h' ns pc"
  using assms(1)
proof (cases pc)
  case (MO_Cas x p v)
  then show ?thesis
    using assms next_is_frame [of h ns x p h'] next_is_members [of h ns x p] by auto
qed (use assms next_is_frame [of h ns _ _ h'] in auto)

text \<open>
  What a scan has still to see: while a thread protects a retired node, its slot is among those that will be read, or the node was seen.
\<close>

fun scan_ok :: "(nat \<Rightarrow> nat \<Rightarrow> addr) \<Rightarrow> addr list \<Rightarrow> mc_pc \<Rightarrow> bool" where
  "scan_ok H R (MS_Collect todo plist) \<longleftrightarrow> (\<forall>u j. H u j \<in> set R \<longrightarrow> (u, j) \<in> set todo \<or> H u j \<in> set plist)"
| "scan_ok H R (MS_Sweep plist nodes) \<longleftrightarrow> sorted plist \<and> (\<forall>u j. H u j \<in> set nodes \<longrightarrow> H u j \<in> set plist)"
| "scan_ok H R pc = True"

lemma scan_ok_mono:
  assumes "scan_ok H R pc" "\<And>u j. H' u j \<in> set (gone_nodes pc @ R) \<Longrightarrow> H' u j = H u j"
  shows "scan_ok H' R pc"
  using assms by (cases pc; auto; metis)

lemma held_NULL: "held pc j \<noteq> NULL \<Longrightarrow> j < 2"
  by (cases pc) (auto split: if_splits)

definition stocks_ok :: "mc_sys \<Rightarrow> addr list \<Rightarrow> bool" where
  "stocks_ok s ns \<longleftrightarrow> (\<forall>t. distinct (stock s t)) \<and> (\<forall>t u a. a \<in> set (stock s t) \<and> a \<in> set (stock s u) \<longrightarrow> t = u) \<and>
     (\<forall>t a. a \<in> set (stock s t) \<longrightarrow> a \<noteq> NULL \<and> mc_heap s a \<noteq> None \<and> a \<notin> set ns \<and> \<not> mc_client s a) \<and>
     (\<forall>a. mc_client s a \<longrightarrow> a \<noteq> NULL \<and> a \<notin> set ns)"

definition held_ok :: "nat \<Rightarrow> mc_sys \<Rightarrow> addr list \<Rightarrow> bool" where
  "held_ok N s ns \<longleftrightarrow> (\<forall>t j. held (mc_pc s t) j \<noteq> NULL \<longrightarrow> t < N \<and> mc_slot s t j = held (mc_pc s t) j \<and>
     (held (mc_pc s t) j \<in> (if j = 0 then {hd ns} else set ns) \<or> (\<exists>u. held (mc_pc s t) j \<in> set (limbo s u))))"

definition mc_inv :: "nat \<Rightarrow> mc_sys \<Rightarrow> addr list \<Rightarrow> bool" where
  "mc_inv N s ns \<longleftrightarrow>
     linking mq_prev (mc_heap s) (\<lambda>a b. \<exists>t. mc_pc s t = MP_Link b a) ns \<and> distinct ns \<and> mc_fifo s = \<lparr>mq_head = hd ns, mq_tail = last ns\<rparr> \<and>
     (\<forall>t. mc_pc_ok (mc_heap s) ns (mc_pc s t)) \<and> exclusive (link_from \<circ> mc_pc s) \<and> stocks_ok s ns \<and> held_ok N s ns \<and>
     (\<forall>t. scan_ok (\<lambda>u. held (mc_pc s u)) (mc_retired s t) (mc_pc s t)) \<and>
     map Some (mc_pushed s) = map Some (mc_popped s) @ map (value_of (mc_heap s)) (tl ns) \<and>
     (\<forall>t. slot_set (mc_pc s t) (mc_slot s t))"

lemma mc_invD:
  assumes "mc_inv N s ns"
  shows "linking mq_prev (mc_heap s) (\<lambda>a b. \<exists>t. mc_pc s t = MP_Link b a) ns" "distinct ns" "mc_fifo s = \<lparr>mq_head = hd ns, mq_tail = last ns\<rparr>"
    "\<And>t. mc_pc_ok (mc_heap s) ns (mc_pc s t)" "exclusive (link_from \<circ> mc_pc s)" "stocks_ok s ns" "held_ok N s ns"
    "\<And>t. scan_ok (\<lambda>u. held (mc_pc s u)) (mc_retired s t) (mc_pc s t)"
    "map Some (mc_pushed s) = map Some (mc_popped s) @ map (value_of (mc_heap s)) (tl ns)"
    "\<And>t. slot_set (mc_pc s t) (mc_slot s t)"
  using assms by (simp_all add: mc_inv_def)

lemma stocksD:
  assumes "stocks_ok s ns"
  shows "distinct (stock s t)" "a \<in> set (stock s t) \<Longrightarrow> a \<in> set (stock s u) \<Longrightarrow> t = u"
    "a \<in> set (stock s t) \<Longrightarrow> a \<noteq> NULL \<and> mc_heap s a \<noteq> None \<and> a \<notin> set ns \<and> \<not> mc_client s a"
    "mc_client s a \<Longrightarrow> a \<noteq> NULL \<and> a \<notin> set ns \<and> a \<notin> set (stock s t)"
  using assms unfolding stocks_ok_def by blast+

lemma stocks_move:
  assumes ok: "stocks_ok s ns" and others: "\<And>u. u \<noteq> t \<Longrightarrow> stock s' u = stock s u" and d: "distinct (stock s' t)"
    and new: "\<And>a u. a \<in> set (stock s' t) \<Longrightarrow> a \<notin> set (stock s t) \<Longrightarrow> a \<notin> set (stock s u)"
    and alloc: "\<And>a u. a \<in> set (stock s' u) \<Longrightarrow> a \<noteq> NULL \<and> mc_heap s' a \<noteq> None \<and> a \<notin> set ns' \<and> \<not> mc_client s' a"
    and client: "\<And>a. mc_client s' a \<Longrightarrow> a \<noteq> NULL \<and> a \<notin> set ns'"
  shows "stocks_ok s' ns'"
  unfolding stocks_ok_def
proof (intro conjI allI impI)
  show "distinct (stock s' u)" for u
    using stocksD(1) [OF ok] others d by (cases "u = t") simp_all
  show "u = v" if "a \<in> set (stock s' u) \<and> a \<in> set (stock s' v)" for u v a
    using that stocksD(2) [OF ok] others new by (metis (full_types))
qed (use alloc client in blast)+

section \<open>Preservation\<close>

lemma hd_in: "mc_inv N s ns \<Longrightarrow> hd ns \<in> set ns"
  using linking_nonempty [OF mc_invD(1)] by simp

lemma mc_pending_upd: "P t \<noteq> MP_Link b a \<Longrightarrow> \<exists>u. P u = MP_Link b a \<Longrightarrow> \<exists>u. (P(t := c)) u = MP_Link b a"
  by (metis fun_upd_apply)

text \<open>A step that changes a position and slots only.\<close>

lemma mc_move_inv:
  assumes inv: "mc_inv N s ns" and t: "t < N"
    and nodes: "new_nodes c = new_nodes (mc_pc s t)" "gone_nodes c = gone_nodes (mc_pc s t)"
    and link: "link_from c = NULL" "link_from (mc_pc s t) = NULL"
    and ok: "mc_pc_ok (mc_heap s) ns c" and scan: "scan_ok (\<lambda>u. held (mc_pc s u)) (mc_retired s t) c"
    and held: "\<And>j. held c j \<noteq> NULL \<Longrightarrow> f j = held c j \<and> (held c j = held (mc_pc s t) j \<or> held c j \<in> (if j = 0 then {hd ns} else set ns))"
    and set: "slot_set c f"
  shows "mc_inv N (mc_goto t c (s\<lparr>mc_slot := (mc_slot s)(t := f)\<rparr>)) ns" (is "mc_inv N ?s ns")
proof -
  note D = mc_invD [OF inv]
  have limbo: "limbo ?s = limbo s" "stock ?s = stock s"
    using nodes by (auto simp: limbo_def stock_def fun_eq_iff)
  have hd: "hd ns \<in> set ns" by (rule hd_in [OF inv])
  have unlinked: "mc_pc s t \<noteq> MP_Link b a" for a b
    using D(4) [of t] link(2) by auto
  have "linking mq_prev (mc_heap s) (\<lambda>a b. \<exists>u. ((mc_pc s)(t := c)) u = MP_Link b a) ns"
    by (rule linking_cong [OF D(1) refl mc_pending_upd [of "mc_pc s" t, OF unlinked]])
  moreover have "exclusive (link_from \<circ> (mc_pc s)(t := c))"
    unfolding fun_upd_comp using link(1) by (intro exclusive_upd [OF D(5)]) simp
  moreover have "stocks_ok ?s ns"
    using D(6) limbo by (simp add: stocks_ok_def)
  moreover have "held_ok N ?s ns"
    unfolding held_ok_def
  proof (intro allI impI)
    fix u j
    assume h: "held (mc_pc ?s u) j \<noteq> NULL"
    show "u < N \<and> mc_slot ?s u j = held (mc_pc ?s u) j \<and>
      (held (mc_pc ?s u) j \<in> (if j = 0 then {hd ns} else set ns) \<or> (\<exists>w. held (mc_pc ?s u) j \<in> set (limbo ?s w)))"
    proof (cases "u = t")
      case True
      have "held (mc_pc s t) j \<noteq> NULL \<longrightarrow> held (mc_pc s t) j \<in> (if j = 0 then {hd ns} else set ns) \<or> (\<exists>w. held (mc_pc s t) j \<in> set (limbo s w))"
        using D(7) unfolding held_ok_def by blast
      with True h held [of j] t limbo(1) show ?thesis by auto
    next
      case False
      with h D(7) limbo(1) show ?thesis unfolding held_ok_def by simp
    qed
  qed
  moreover have "scan_ok (\<lambda>u. held (((mc_pc s)(t := c)) u)) (mc_retired s u) (((mc_pc s)(t := c)) u)" for u
  proof (rule scan_ok_mono)
    show "scan_ok (\<lambda>u. held (mc_pc s u)) (mc_retired s u) (((mc_pc s)(t := c)) u)"
      using D(8) [of u] scan by simp
    show "held (((mc_pc s)(t := c)) w) j = held (mc_pc s w) j"
      if "held (((mc_pc s)(t := c)) w) j \<in> set (gone_nodes (((mc_pc s)(t := c)) u) @ mc_retired s u)" for w j
    proof (cases "w = t")
      case True
      have "held c j \<in> set (stock s u)"
        using that True nodes(2) by (auto simp: stock_def limbo_def split: if_splits)
      then have "held c j \<noteq> NULL" "held c j \<notin> set ns"
        using stocksD(3) [OF D(6)] by blast+
      with held [of j] hd True show ?thesis by (auto split: if_splits)
    qed simp
  qed
  ultimately show ?thesis
    using D ok set by (simp add: mc_inv_def)
qed

lemma mc_goto_inv:
  assumes "mc_inv N s ns" "t < N" "new_nodes c = new_nodes (mc_pc s t)" "gone_nodes c = gone_nodes (mc_pc s t)"
    and "link_from c = NULL" "link_from (mc_pc s t) = NULL" "mc_pc_ok (mc_heap s) ns c" "scan_ok (\<lambda>u. held (mc_pc s u)) (mc_retired s t) c"
    and "\<And>j. held c j \<noteq> NULL \<Longrightarrow> mc_slot s t j = held c j \<and> (held c j = held (mc_pc s t) j \<or> held c j \<in> (if j = 0 then {hd ns} else set ns))"
    and "slot_set c (mc_slot s t)"
  shows "mc_inv N (mc_goto t c s) ns"
  using mc_move_inv [OF assms(1-8), of "mc_slot s t"] assms(9,10) by simp

text \<open>A node outside the queue is written.\<close>

lemma mc_heap_inv:
  assumes inv: "mc_inv N s ns" and a: "a \<notin> set ns" "\<And>t. a \<in> set (new_nodes (mc_pc s t)) \<Longrightarrow> map_option mq_prev c = Some NULL"
    "\<And>t. a \<in> set (stock s t) \<Longrightarrow> c \<noteq> None"
  shows "mc_inv N (s\<lparr>mc_heap := (mc_heap s)(a := c)\<rparr>) ns" (is "mc_inv N ?s ns")
proof -
  note D = mc_invD [OF inv]
  let ?h = "(mc_heap s)(a := c)"
  have same: "?h b = mc_heap s b" if "b \<in> set ns" for b
    using that a(1) by auto
  have "linking mq_prev ?h (\<lambda>a b. \<exists>t. mc_pc s t = MP_Link b a) ns"
    by (rule linking_cong [OF D(1) same])
  moreover have "mc_pc_ok ?h ns (mc_pc s t)" for t
  proof (cases "a \<in> set (new_nodes (mc_pc s t))")
    case True
    then show ?thesis
      using D(4) [of t] a(2) [OF True] by (cases "mc_pc s t") (auto simp: prev_of_def)
  next
    case False
    then show ?thesis
      using a(1) by (intro mc_pc_ok_frame [OF D(4)]) (auto simp: prev_of_def value_of_def)
  qed
  moreover have "stock ?s = stock s" "limbo ?s = limbo s"
    by (simp_all add: stock_def limbo_def fun_eq_iff)
  then have "stocks_ok ?s ns" "held_ok N ?s ns"
    using D(6,7) a(3) by (auto simp: stocks_ok_def held_ok_def)
  moreover have "map (value_of ?h) (tl ns) = map (value_of (mc_heap s)) (tl ns)"
    using a(1) by (cases ns) (auto simp: value_of_def)
  ultimately show ?thesis
    using D by (simp add: mc_inv_def)
qed

lemma client_inv:
  assumes inv: "mc_inv N s ns" and a: "mc_client s a"
  shows "mc_inv N (s\<lparr>mc_heap := (mc_heap s)(a := c)\<rparr>) ns"
  using stocksD(4) [OF mc_invD(6) [OF inv] a] by (intro mc_heap_inv [OF inv]) (auto simp: stock_def)

lemma mc_start_push_inv:
  assumes inv: "mc_inv N s ns" and t: "t < N" "mc_pc s t = MC_Idle" and n: "mc_client s n" "has_value s n"
  shows "\<exists>s'. mc_start_push t n s = Some s' \<and> mc_inv N s' ns"
proof -
  obtain c where c: "mc_heap s n = Some c" "mq_value c \<noteq> NULL"
    using n(2) by (auto simp: has_value_def split: option.splits)
  let ?c = "c\<lparr>mq_prev := NULL\<rparr>"
  let ?s1 = "s\<lparr>mc_heap := (mc_heap s)(n \<mapsto> ?c)\<rparr>"
  let ?s = "mc_goto t (MP_Load n) (s\<lparr>mc_heap := (mc_heap s)(n \<mapsto> ?c), mc_client := (mc_client s)(n := False)\<rparr>)"
  note C = stocksD(4) [OF mc_invD(6) [OF inv] n(1)]
  have step: "mc_start_push t n s = Some ?s"
    using c C by (simp add: mc_start_push_def)
  have inv1: "mc_inv N ?s1 ns"
    by (rule client_inv [OF inv n(1)])
  note D = mc_invD [OF inv1]
  have pc: "mc_pc ?s1 t = MC_Idle" using t(2) by simp
  have st: "stock ?s t = n # stock ?s1 t" "\<And>u. u \<noteq> t \<Longrightarrow> stock ?s u = stock ?s1 u" "limbo ?s = limbo ?s1"
    using t(2) by (auto simp: stock_def limbo_def fun_eq_iff)
  have fresh: "n \<notin> set (stock ?s1 u)" for u
    using C [of u] by (simp add: stock_def limbo_def)
  have "stocks_ok ?s ns"
  proof (rule stocks_move [OF D(6) st(2), where t = t])
    show "distinct (stock ?s t)"
      using st(1) fresh stocksD(1) [OF D(6), of t] by simp
    show "a \<noteq> NULL \<and> mc_heap ?s a \<noteq> None \<and> a \<notin> set ns \<and> \<not> mc_client ?s a" if "a \<in> set (stock ?s u)" for a u
    proof (cases "a = n")
      case False
      then have "a \<in> set (stock ?s1 u)" using that st(1,2) by (cases "u = t") auto
      with stocksD(3) [OF D(6) this] False show ?thesis by simp
    qed (use C in simp)
    show "a \<noteq> NULL \<and> a \<notin> set ns" if "mc_client ?s a" for a
      using stocksD(4) [OF D(6), of a] that by (auto split: if_splits)
  qed (use st(1) fresh in auto)
  moreover have "held_ok N ?s ns"
    using D(7) st(3) pc by (auto simp: held_ok_def)
  moreover have "linking mq_prev (mc_heap ?s1) (\<lambda>a b. \<exists>u. ((mc_pc s)(t := MP_Load n)) u = MP_Link b a) ns"
    by (rule linking_cong [OF D(1) refl]) (use t(2) mc_pending_upd [of "mc_pc s" t] in auto)
  moreover have "exclusive (link_from \<circ> (mc_pc s)(t := MP_Load n))"
    unfolding fun_upd_comp using D(5) by (intro exclusive_upd) simp_all
  moreover have "scan_ok (\<lambda>u. held (((mc_pc s)(t := MP_Load n)) u)) (mc_retired s u) (((mc_pc s)(t := MP_Load n)) u)" for u
    using D(8) [of u] t(2) by (cases "u = t") (auto intro: scan_ok_mono)
  moreover have "mc_pc_ok (mc_heap ?s1) ns (((mc_pc s)(t := MP_Load n)) u)" for u
    using D(4) [of u] by (simp add: prev_of_def)
  ultimately have "mc_inv N ?s ns"
    using D(2,3,9,10) by (simp add: mc_inv_def)
  with step show ?thesis by blast
qed

lemma held_okD:
  assumes "held_ok N s ns" "held (mc_pc s t) j \<noteq> NULL"
  shows "t < N" "mc_slot s t j = held (mc_pc s t) j" "held (mc_pc s t) j \<in> (if j = 0 then {hd ns} else set ns) \<or> (\<exists>u. held (mc_pc s t) j \<in> set (limbo s u))"
  using assms unfolding held_ok_def by blast+

text \<open>A step by which no thread protects a new node.\<close>

lemma held_transfer:
  assumes ok: "held_ok N s ns"
    and same: "\<And>u j. held (mc_pc s' u) j \<noteq> NULL \<Longrightarrow> held (mc_pc s' u) j = held (mc_pc s u) j \<and> mc_slot s' u j = mc_slot s u j"
    and queue: "\<And>a j. a \<in> (if j = 0 then {hd ns} else set ns) \<Longrightarrow> a \<in> (if j = (0 :: nat) then {hd ns'} else set ns') \<or> (\<exists>w. a \<in> set (limbo s' w))"
    and limbo: "\<And>u w j. held (mc_pc s' u) j \<in> set (limbo s w) \<Longrightarrow> \<exists>w. held (mc_pc s' u) j \<in> set (limbo s' w)"
  shows "held_ok N s' ns'"
  unfolding held_ok_def
proof (intro allI impI)
  fix u j
  assume h: "held (mc_pc s' u) j \<noteq> NULL"
  note e = same [OF h]
  have "u < N \<and> mc_slot s u j = held (mc_pc s u) j \<and>
    (held (mc_pc s u) j \<in> (if j = 0 then {hd ns} else set ns) \<or> (\<exists>w. held (mc_pc s u) j \<in> set (limbo s w)))"
    using ok h e unfolding held_ok_def by simp
  then show "u < N \<and> mc_slot s' u j = held (mc_pc s' u) j \<and>
    (held (mc_pc s' u) j \<in> (if j = 0 then {hd ns'} else set ns') \<or> (\<exists>w. held (mc_pc s' u) j \<in> set (limbo s' w)))"
    using queue [of "held (mc_pc s u) j" j] limbo [of u j] e by metis
qed

lemma next_is_snoc: "next_is h ns x p \<Longrightarrow> next_is h (ns @ [n]) x p"
  by (auto simp: next_is_def)

lemma next_is_link: "next_is h ns y p \<Longrightarrow> p \<noteq> NULL \<Longrightarrow> prev_of h x = Some NULL \<Longrightarrow> next_is (h(x := c)) ns y p"
  by (auto simp: next_is_def prev_of_def)

lemma mc_pc_ok_snoc: "mc_pc_ok h ns pc \<Longrightarrow> ns \<noteq> [] \<Longrightarrow> mc_pc_ok h (ns @ [n]) pc"
proof (cases pc)
  case (MP_Link m x)
  assume "mc_pc_ok h ns pc"
  then obtain xs ys where "ns @ [n] = xs @ x # m # (ys @ [n])" using MP_Link by auto
  with MP_Link \<open>mc_pc_ok h ns pc\<close> show ?thesis by (metis mc_pc_ok.simps(1))
qed (auto intro: next_is_snoc)

lemma push_cas_inv:
  assumes inv: "mc_inv N s ns" and t: "t < N" "mc_pc s t = MP_Cas n (last ns)"
  shows "\<exists>c. mc_heap s n = Some c \<and> n \<noteq> NULL \<and>
    mc_inv N (mc_goto t (MP_Link n (last ns)) (s\<lparr>mc_fifo := (mc_fifo s)\<lparr>mq_tail := n\<rparr>, mc_pushed := mc_pushed s @ [mq_value c]\<rparr>)) (ns @ [n])"
proof -
  note D = mc_invD [OF inv]
  have ne: "ns \<noteq> []" by (rule linking_nonempty [OF D(1)])
  have st: "stock s t = n # limbo s t"
    using t(2) by (simp add: stock_def)
  then have n: "n \<noteq> NULL" "n \<notin> set ns" "n \<notin> set (limbo s t)"
    using stocksD(1) [OF D(6), of t] stocksD(3) [OF D(6), of n t] by auto
  obtain c where c: "mc_heap s n = Some c" "mq_prev c = NULL"
    using D(4) [of t] t(2) by (auto simp: prev_of_def)
  obtain e where e: "mc_heap s (last ns) = Some e" "mq_prev e = NULL" "last ns \<noteq> NULL"
    using linking_last [OF D(1)] linking_members [OF D(1), of "last ns"] ne by auto
  let ?P = "(mc_pc s)(t := MP_Link n (last ns))"
  let ?s = "mc_goto t (MP_Link n (last ns)) (s\<lparr>mc_fifo := (mc_fifo s)\<lparr>mq_tail := n\<rparr>, mc_pushed := mc_pushed s @ [mq_value c]\<rparr>)"
  have st': "stock ?s t = limbo s t" "\<And>u. u \<noteq> t \<Longrightarrow> stock ?s u = stock s u" "limbo ?s = limbo s"
    using t(2) by (auto simp: stock_def limbo_def fun_eq_iff)
  have "linking mq_prev (mc_heap s) (\<lambda>a b. \<exists>u. ?P u = MP_Link b a) (ns @ [n])"
  proof (rule linking_snoc [OF D(1) c n(1)])
    show "\<exists>u. ?P u = MP_Link b a" if "\<exists>u. mc_pc s u = MP_Link b a" for a b
      using mc_pending_upd [of "mc_pc s" t b a, OF _ that] t(2) by simp
  qed (auto intro: exI [of _ t])
  moreover have "mc_pc_ok (mc_heap s) (ns @ [n]) (?P u)" for u
  proof (cases "u = t")
    case True
    have "ns @ [n] = butlast ns @ last ns # n # []" using ne by simp
    then have "\<exists>xs ys. ns @ [n] = xs @ last ns # n # ys" by blast
    with True e show ?thesis by (simp add: prev_of_def)
  qed (use mc_pc_ok_snoc [OF D(4) ne] in simp)
  moreover have "link_from (mc_pc s u) \<noteq> last ns" for u
  proof
    assume "link_from (mc_pc s u) = last ns"
    then obtain m where "mc_pc s u = MP_Link m (last ns)" using e(3) by (cases "mc_pc s u") auto
    then obtain xs ys where "ns = xs @ last ns # m # ys" using D(4) [of u] by auto
    then show False by (rule pending_not_last [OF D(2)])
  qed
  then have "exclusive (link_from \<circ> ?P)"
    unfolding fun_upd_comp by (intro exclusive_upd [OF D(5)]) simp
  moreover have "stocks_ok ?s (ns @ [n])"
  proof (rule stocks_move [OF D(6) st'(2), where t = t])
    show "distinct (stock ?s t)"
      using st st'(1) stocksD(1) [OF D(6), of t] by simp
    show "a \<noteq> NULL \<and> mc_heap ?s a \<noteq> None \<and> a \<notin> set (ns @ [n]) \<and> \<not> mc_client ?s a" if a: "a \<in> set (stock ?s u)" for a u
    proof -
      have "a \<in> set (stock s u)" "a \<noteq> n"
        using a st st' n(3) stocksD(2) [OF D(6), of n t u] by (cases "u = t"; force)+
      with stocksD(3) [OF D(6)] show ?thesis by simp
    qed
    show "a \<noteq> NULL \<and> a \<notin> set (ns @ [n])" if "mc_client ?s a" for a
      using stocksD(4) [OF D(6), of a t] that st by auto
  qed (use st st'(1) in auto)
  moreover have "held_ok N ?s (ns @ [n])"
  proof (rule held_transfer [OF D(7)])
    show "\<exists>w. held (mc_pc ?s u) j \<in> set (limbo ?s w)" if "held (mc_pc ?s u) j \<in> set (limbo s w)" for u w j
      unfolding st'(3) using that by blast
  qed (use ne in \<open>auto split: if_splits\<close>)
  moreover have "scan_ok (\<lambda>u. held (?P u)) (mc_retired s u) (?P u)" for u
    using D(8) [of u] t(2) by (cases "u = t") (auto intro: scan_ok_mono)
  moreover have "map Some (mc_pushed s @ [mq_value c]) = map Some (mc_popped s) @ map (value_of (mc_heap s)) (tl (ns @ [n]))"
    using D(9) ne c(1) by (simp add: value_of_def)
  ultimately have "mc_inv N ?s (ns @ [n])"
    using D(2,3,10) n(2) ne by (simp add: mc_inv_def)
  with c(1) n(1) show ?thesis by blast
qed

lemma mc_pc_ok_link:
  assumes "mc_pc_ok h ns pc" "h x = Some c" "mq_prev c = NULL" "link_from pc \<noteq> x" "x \<notin> set (new_nodes pc)"
  shows "mc_pc_ok (h(x \<mapsto> c\<lparr>mq_prev := n\<rparr>)) ns pc"
proof -
  let ?h = "h(x \<mapsto> c\<lparr>mq_prev := n\<rparr>)"
  have n: "next_is ?h ns y p" if "next_is h ns y p" "p \<noteq> NULL" for y p
    using next_is_link [OF that, of x] assms(2,3) by (simp add: prev_of_def)
  have v: "value_of ?h = value_of h"
    using assms(2) by (auto simp: value_of_def fun_eq_iff)
  have "prev_of ?h a = prev_of h a" if "a \<noteq> x" for a
    using that by (simp add: prev_of_def)
  then show ?thesis
    using assms(1,4,5) n by (cases pc) (auto simp: v)
qed

lemma push_link_inv:
  assumes inv: "mc_inv N s ns" and t: "t < N" "mc_pc s t = MP_Link n x"
  shows "\<exists>c. mc_heap s x = Some c \<and> x \<noteq> NULL \<and> mc_inv N (mc_goto t MP_Done (s\<lparr>mc_heap := (mc_heap s)(x \<mapsto> c\<lparr>mq_prev := n\<rparr>)\<rparr>)) ns"
proof -
  note D = mc_invD [OF inv]
  obtain xs ys c where x: "x \<noteq> NULL" "ns = xs @ x # n # ys" "mc_heap s x = Some c" "mq_prev c = NULL"
    using D(4) [of t] t(2) by (auto simp: prev_of_def)
  let ?h = "(mc_heap s)(x \<mapsto> c\<lparr>mq_prev := n\<rparr>)" and ?P = "(mc_pc s)(t := MP_Done)"
  let ?s = "mc_goto t MP_Done (s\<lparr>mc_heap := ?h\<rparr>)"
  have st: "stock ?s = stock s" "limbo ?s = limbo s"
    using t(2) by (auto simp: stock_def limbo_def fun_eq_iff)
  have others: "link_from (mc_pc s u) \<noteq> x" if "u \<noteq> t" for u
    using exclusiveD [OF D(5), of t u] that t(2) x(1) by simp
  have "linking mq_prev ?h (\<lambda>a b. \<exists>u. ?P u = MP_Link b a) ns"
    unfolding x(2)
  proof (rule linking_link)
    show "a = x \<or> (\<exists>u. ?P u = MP_Link b a)" if "\<exists>u. mc_pc s u = MP_Link b a" for a b
      using that t(2) by (metis fun_upd_apply mc_pc.inject(6))
  qed (use D(1,2) x(2) in auto)
  moreover have "mc_pc_ok ?h ns (?P u)" for u
  proof (cases "u = t")
    case False
    have "x \<in> set ns" using x(2) by simp
    then have "x \<notin> set (new_nodes (mc_pc s u))"
      using stocksD(3) [OF D(6), of x u] by (auto simp: stock_def)
    with False mc_pc_ok_link [OF D(4) x(3,4) others] show ?thesis by simp
  qed simp
  moreover have "exclusive (link_from \<circ> ?P)"
    unfolding fun_upd_comp by (intro exclusive_upd [OF D(5)]) simp
  moreover have "stocks_ok ?s ns"
    using D(6) st x(3) by (auto simp: stocks_ok_def)
  moreover have "held_ok N ?s ns"
    using D(7) st t(2) by (simp add: held_ok_def)
  moreover have "scan_ok (\<lambda>u. held (?P u)) (mc_retired s u) (?P u)" for u
    using D(8) [of u] t(2) by (cases "u = t") (auto intro: scan_ok_mono)
  moreover have "value_of ?h = value_of (mc_heap s)"
    using x(3) by (auto simp: value_of_def fun_eq_iff)
  ultimately have "mc_inv N ?s ns"
    using D(2,3,9,10) by (simp add: mc_inv_def)
  with x show ?thesis by blast
qed

lemma push_next_inv:
  assumes inv: "mc_inv N s ns" and t: "t < N" "mc_pc s t = MP_Next n x"
  shows "\<exists>c. mc_heap s n = Some c \<and> n \<noteq> NULL \<and> mc_inv N (mc_goto t (MP_Cas n x) (s\<lparr>mc_heap := (mc_heap s)(n \<mapsto> c\<lparr>mq_next := x\<rparr>)\<rparr>)) ns"
proof -
  note D = mc_invD [OF inv]
  have "n \<in> set (stock s t)" using t(2) by (simp add: stock_def)
  then have n: "n \<noteq> NULL" "n \<notin> set ns" using stocksD(3) [OF D(6), of n t] by auto
  obtain c where c: "mc_heap s n = Some c" "mq_prev c = NULL"
    using D(4) [of t] t(2) by (auto simp: prev_of_def)
  let ?s = "s\<lparr>mc_heap := (mc_heap s)(n \<mapsto> c\<lparr>mq_next := x\<rparr>)\<rparr>"
  have "mc_inv N ?s ns"
    using n(2) c(2) by (intro mc_heap_inv [OF inv]) auto
  then have "mc_inv N (mc_goto t (MP_Cas n x) ?s) ns"
    using t c(2) by (intro mc_goto_inv) (auto simp: prev_of_def)
  with c(1) n(1) show ?thesis by auto
qed

lemma mpmc_push_inv:
  assumes inv: "mc_inv N s ns" and t: "t < N"
  shows "\<exists>s' ns'. mpmc_push_step t spurious s = Some s' \<and> mc_inv N s' ns'"
proof -
  note D = mc_invD [OF inv]
  note ok = D(4) [of t]
  have move: "mc_inv N (mc_goto t c s) ns"
    if "new_nodes c = new_nodes (mc_pc s t)" "gone_nodes c = gone_nodes (mc_pc s t)" "link_from c = NULL" "link_from (mc_pc s t) = NULL"
      "mc_pc_ok (mc_heap s) ns c" "scan_ok (\<lambda>u. held (mc_pc s u)) (mc_retired s t) c" "\<And>j. held c j = NULL" "slot_set c (mc_slot s t)" for c
    using mc_goto_inv [OF inv t, of c] that by simp
  show ?thesis
  proof (cases "mc_pc s t")
    case (MP_Load n)
    with ok move [of "MP_Tail n (mq_tail (mc_fifo s))"] show ?thesis
      by (auto simp: mpmc_push_step_def)
  next
    case (MP_Tail n x)
    have "mc_inv N (mc_goto t (MP_Using n x) (mc_set_slot t 0 x s)) ns"
      using ok MP_Tail by (intro mc_move_inv [OF inv t]) auto
    with MP_Tail show ?thesis by (auto simp: mpmc_push_step_def)
  next
    case (MP_Using n x)
    with ok move [of "MP_Load n"] move [of "MP_Next n x"] show ?thesis
      by (auto simp: mpmc_push_step_def)
  next
    case (MP_Next n x)
    from push_next_inv [OF inv t this] MP_Next show ?thesis
      by (auto simp: mpmc_push_step_def load_def store_def)
  next
    case (MP_Cas n x)
    show ?thesis
    proof (cases "mq_tail (mc_fifo s) = x \<and> \<not> spurious")
      case True
      then have "x = last ns" using D(3) by simp
      with push_cas_inv [OF inv t, of n] True MP_Cas show ?thesis
        by (auto simp: mpmc_push_step_def load_def)
    next
      case False
      with ok MP_Cas move [of "MP_Load n"] show ?thesis
        by (auto simp: mpmc_push_step_def)
    qed
  next
    case (MP_Link n x)
    from push_link_inv [OF inv t this] MP_Link show ?thesis
      by (auto simp: mpmc_push_step_def load_def store_def)
  next
    case MP_Done
    have "mc_inv N (mc_goto t MC_Idle (mc_set_slot t 0 NULL s)) ns"
      using MP_Done by (intro mc_move_inv [OF inv t]) auto
    with MP_Done show ?thesis by (auto simp: mpmc_push_step_def)
  qed (use inv in \<open>auto simp: mpmc_push_step_def\<close>)
qed

text \<open>The head advances: nobody else can believe that the new head was the head before.\<close>

lemma mc_pc_ok_tl:
  assumes ok: "mc_pc_ok h (x # p # ms) pc" and prev: "prev_of h x = Some p" "p \<noteq> NULL" and held: "held pc 0 \<noteq> p"
  shows "mc_pc_ok h (p # ms) pc"
proof (cases pc)
  case (MP_Link n a)
  with ok prev have a: "a \<noteq> x" "a \<noteq> NULL" "\<exists>xs ys. x # p # ms = xs @ a # n # ys" "prev_of h a = Some NULL" by auto
  with pending_tl [of x p ms _ a n] MP_Link show ?thesis by (metis mc_pc_ok.simps(1))
qed (use ok held in auto)

lemma pop_cas_inv:
  assumes inv: "mc_inv N s ns" and t: "t < N" "mc_pc s t = MO_Cas (hd ns) p v"
  shows "\<exists>ns'. mc_inv N (mc_goto t (MO_Won (hd ns)) (s\<lparr>mc_fifo := (mc_fifo s)\<lparr>mq_head := p\<rparr>, mc_popped := mc_popped s @ [v]\<rparr>)) ns'"
proof -
  note D = mc_invD [OF inv]
  from D(4) [of t] t(2) obtain x ms where ns: "ns = x # p # ms" and p: "p \<noteq> NULL" "prev_of (mc_heap s) x = Some p" "value_of (mc_heap s) p = Some v"
    by (auto simp: next_is_def)
  have x: "x \<noteq> NULL" "mc_heap s x \<noteq> None" using linking_members [OF D(1), of x] ns by auto
  let ?P = "(mc_pc s)(t := MO_Won x)"
  let ?s = "mc_goto t (MO_Won x) (s\<lparr>mc_fifo := (mc_fifo s)\<lparr>mq_head := p\<rparr>, mc_popped := mc_popped s @ [v]\<rparr>)"
  have st: "stock s t = mc_retired s t" "stock ?s t = x # mc_retired s t" "\<And>u. u \<noteq> t \<Longrightarrow> stock ?s u = stock s u"
    and lm: "limbo s t = mc_retired s t" "limbo ?s t = x # mc_retired s t" "\<And>u. u \<noteq> t \<Longrightarrow> limbo ?s u = limbo s u"
    using t(2) by (auto simp: stock_def limbo_def)
  have queued: "a \<notin> set (stock s u)" if "a \<in> set ns" for a u
    using stocksD(3) [OF D(6), of a u] that by auto
  have "linking mq_prev (mc_heap s) (\<lambda>a b. \<exists>u. ?P u = MP_Link b a) (p # ms)"
  proof (rule linking_cong)
    show "linking mq_prev (mc_heap s) (\<lambda>a b. \<exists>u. mc_pc s u = MP_Link b a) (p # ms)" using D(1) ns by simp
    show "\<exists>u. ?P u = MP_Link b a" if "\<exists>u. mc_pc s u = MP_Link b a" for a b
      using mc_pending_upd [of "mc_pc s" t b a, OF _ that] t(2) by simp
  qed simp
  moreover have "held (mc_pc s u) 0 \<noteq> p" for u
  proof
    assume h: "held (mc_pc s u) 0 = p"
    with held_okD(3) [OF D(7), of u 0] p(1) ns have "p = x \<or> (\<exists>w. p \<in> set (limbo s w))" by simp
    with queued [of p] D(2) ns show False by (auto simp: stock_def)
  qed
  then have "mc_pc_ok (mc_heap s) (p # ms) (?P u)" for u
    using mc_pc_ok_tl [OF D(4) [of u, unfolded ns] p(2,1)] by simp
  moreover have "exclusive (link_from \<circ> ?P)"
    unfolding fun_upd_comp by (intro exclusive_upd [OF D(5)]) simp
  moreover have "stocks_ok ?s (p # ms)"
  proof (rule stocks_move [OF D(6) st(3), where t = t])
    show "distinct (stock ?s t)"
      using st(1,2) stocksD(1) [OF D(6), of t] queued [of x t] ns by simp
    show "a \<noteq> NULL \<and> mc_heap ?s a \<noteq> None \<and> a \<notin> set (p # ms) \<and> \<not> mc_client ?s a" if a: "a \<in> set (stock ?s u)" for a u
    proof (cases "a = x")
      case True
      with x D(2) ns stocksD(4) [OF D(6), of x] show ?thesis by auto
    next
      case False
      with a st have "a \<in> set (stock s u)" by (cases "u = t") auto
      with stocksD(3) [OF D(6), of a u] ns show ?thesis by simp
    qed
    show "a \<noteq> NULL \<and> a \<notin> set (p # ms)" if "mc_client ?s a" for a
      using stocksD(4) [OF D(6), of a] that ns by auto
    show "a \<notin> set (stock s u)" if "a \<in> set (stock ?s t)" "a \<notin> set (stock s t)" for a u
      using that st(1,2) queued [of x u] ns by auto
  qed
  moreover have "held_ok N ?s (p # ms)"
  proof (rule held_transfer [OF D(7)])
    have "x \<in> set (limbo ?s t)" using lm(2) by simp
    then show "a \<in> (if j = 0 then {hd (p # ms)} else set (p # ms)) \<or> (\<exists>w. a \<in> set (limbo ?s w))"
      if "a \<in> (if j = 0 then {hd ns} else set ns)" for a and j :: nat
      using that ns by (auto split: if_splits)
    show "\<exists>w. held (mc_pc ?s u) j \<in> set (limbo ?s w)" if "held (mc_pc ?s u) j \<in> set (limbo s w)" for u w j
      using that lm by (cases "w = t") (metis list.set_intros(2))+
  qed auto
  moreover have "scan_ok (\<lambda>u. held (?P u)) (mc_retired s u) (?P u)" for u
  proof (cases "u = t")
    case False
    have "NULL \<notin> set (gone_nodes (mc_pc s u) @ mc_retired s u)"
      using stocksD(3) [OF D(6), of NULL u] by (auto simp: stock_def limbo_def)
    with False show ?thesis by (auto intro!: scan_ok_mono [OF D(8) [of u]])
  qed simp
  moreover have "map Some (mc_pushed s) = map Some (mc_popped s @ [v]) @ map (value_of (mc_heap s)) (tl (p # ms))"
    using D(9) ns p(3) by simp
  ultimately have "mc_inv N ?s (p # ms)"
    using D(2,3,10) ns by (simp add: mc_inv_def)
  with ns show ?thesis by auto
qed

text \<open>A thread that protects nothing rearranges the nodes it has retired, and hands those that nobody protects to the clients.\<close>

lemma mc_limbo_inv:
  assumes inv: "mc_inv N s ns"
    and new: "new_nodes c = []" "new_nodes (mc_pc s t) = []" and link: "link_from c = NULL" "link_from (mc_pc s t) = NULL"
    and free: "\<And>j. held c j = NULL" "\<And>j. held (mc_pc s t) j = NULL"
    and d: "distinct (gone_nodes c @ R)" "set (gone_nodes c @ R) \<subseteq> set (limbo s t)"
    and C: "\<And>a. C a \<Longrightarrow> mc_client s a \<or> a \<in> set (limbo s t) - set (gone_nodes c @ R)"
    and keep: "\<And>u j. held (mc_pc s u) j \<in> set (limbo s t) \<Longrightarrow> held (mc_pc s u) j \<in> set (gone_nodes c @ R)"
    and ok: "mc_pc_ok (mc_heap s) ns c" and scan: "scan_ok (\<lambda>u. held (mc_pc s u)) R c" and set: "\<And>f. slot_set c f"
  shows "mc_inv N (mc_goto t c (s\<lparr>mc_retired := (mc_retired s)(t := R), mc_client := C\<rparr>)) ns" (is "mc_inv N ?s ns")
proof -
  note D = mc_invD [OF inv]
  let ?P = "(mc_pc s)(t := c)"
  have lm: "limbo ?s t = gone_nodes c @ R" "\<And>u. u \<noteq> t \<Longrightarrow> limbo ?s u = limbo s u"
    and st: "stock ?s t = limbo ?s t" "stock s t = limbo s t" "\<And>u. u \<noteq> t \<Longrightarrow> stock ?s u = stock s u"
    using new by (auto simp: stock_def limbo_def)
  have held: "held (?P u) = held (mc_pc s u)" for u
    using free by (auto simp: fun_eq_iff)
  have unlinked: "mc_pc s t \<noteq> MP_Link b a" for a b
    using link(2) mc_invD(4) [OF inv, of t] by auto
  have "linking mq_prev (mc_heap s) (\<lambda>a b. \<exists>u. ?P u = MP_Link b a) ns"
    by (rule linking_cong [OF D(1)]) (simp, rule mc_pending_upd [of "mc_pc s" t, OF unlinked])
  moreover have "mc_pc_ok (mc_heap s) ns (?P u)" for u
    using D(4) ok by simp
  moreover have "exclusive (link_from \<circ> ?P)"
    unfolding fun_upd_comp using link by (intro exclusive_upd [OF D(5)]) simp
  moreover have "stocks_ok ?s ns"
  proof (rule stocks_move [OF D(6) st(3), where t = t])
    show "a \<noteq> NULL \<and> mc_heap ?s a \<noteq> None \<and> a \<notin> set ns \<and> \<not> mc_client ?s a" if a: "a \<in> set (stock ?s u)" for a u
    proof -
      have su: "a \<in> set (stock s u)" using a st lm(1) d(2) by (cases "u = t") auto
      have "\<not> C a"
        using a C [of a] stocksD(2) [OF D(6) su, of t] stocksD(3) [OF D(6) su] st(1,2) lm(1) by (cases "u = t") auto
      with stocksD(3) [OF D(6) su] show ?thesis by simp
    qed
    show "a \<noteq> NULL \<and> a \<notin> set ns" if "mc_client ?s a" for a
      using C [of a] that stocksD(3) [OF D(6), of a t] stocksD(4) [OF D(6), of a t] st(2) by auto
  qed (use st(1,2) lm(1) d in auto)
  moreover have "held_ok N ?s ns"
  proof (rule held_transfer [OF D(7)])
    show "\<exists>w. held (mc_pc ?s u) j \<in> set (limbo ?s w)" if h: "held (mc_pc ?s u) j \<in> set (limbo s w)" for u w j
    proof (rule exI [of _ w])
      have e: "held (mc_pc ?s u) j = held (mc_pc s u) j" using held [of u] by simp
      show "held (mc_pc ?s u) j \<in> set (limbo ?s w)"
        using h keep [of u j] unfolding e by (cases "w = t") (simp_all only: lm not_False_eq_True)
    qed
  qed (use free in auto)
  moreover have "scan_ok (\<lambda>u. held (?P u)) (((mc_retired s)(t := R)) u) (?P u)" for u
    unfolding held using D(8) [of u] scan by simp
  ultimately show ?thesis
    using D(2,3,9,10) set by (simp add: mc_inv_def)
qed

lemma all_slots_complete: "u < N \<Longrightarrow> j < 2 \<Longrightarrow> (u, j) \<in> set (all_slots N)"
  by (auto simp: all_slots_def less_2_cases_iff)

lemma retire_inv:
  assumes inv: "mc_inv N s ns" and t: "t < N" "mc_pc s t = MO_Retire x"
  shows "mc_inv N (mc_retire N t x s) ns"
proof -
  note D = mc_invD [OF inv]
  have lm: "limbo s t = x # mc_retired s t" "stock s t = limbo s t" using t(2) by (auto simp: limbo_def stock_def)
  have all: "(u, j) \<in> set (all_slots N)" if "held (mc_pc s u) j \<in> set (x # mc_retired s t)" for u j
  proof -
    have "NULL \<notin> set (x # mc_retired s t)" using stocksD(3) [OF D(6), of NULL t] lm by metis
    with that have "held (mc_pc s u) j \<noteq> NULL" by metis
    with held_okD(1) [OF D(7)] held_NULL all_slots_complete show ?thesis by metis
  qed
  have "mc_inv N (mc_goto t c (s\<lparr>mc_retired := (mc_retired s)(t := x # mc_retired s t), mc_client := mc_client s\<rparr>)) ns"
    if c: "c = MS_Collect (all_slots N) [] \<or> c = MC_Idle" for c
    by (rule mc_limbo_inv [OF inv]) (use c t(2) lm all stocksD(1) [OF D(6), of t] in auto)
  then show ?thesis by (simp add: mc_retire_def Let_def)
qed

lemma hazard_scan_inv:
  assumes inv: "mc_inv N s ns" and t: "t < N"
  shows "\<exists>s'. hazard_scan_step t s = Some s' \<and> mc_inv N s' ns"
proof -
  note D = mc_invD [OF inv]
  have null: "NULL \<notin> set (limbo s t)" and d: "distinct (limbo s t)"
    using stocksD(1) [OF D(6), of t] stocksD(3) [OF D(6), of NULL t] by (auto simp: stock_def)
  show ?thesis
  proof (cases "mc_pc s t")
    case (MS_Collect todo plist)
    have seen: "(u, j) \<in> set todo \<or> held (mc_pc s u) j \<in> set plist" if "held (mc_pc s u) j \<in> set (mc_retired s t)" for u j
      using D(8) [of t] MS_Collect that by simp
    show ?thesis
    proof (cases todo)
      case Nil
      have "mc_inv N (mc_goto t (MS_Sweep (qsort hazard_pointer_compare plist) (mc_retired s t))
          (s\<lparr>mc_retired := (mc_retired s)(t := []), mc_client := mc_client s\<rparr>)) ns"
        by (rule mc_limbo_inv [OF inv]) (use MS_Collect Nil d seen in \<open>auto simp: limbo_def qsort_sort\<close>)
      with MS_Collect Nil show ?thesis by (simp add: hazard_scan_step_def)
    next
      case (Cons uj todo')
      obtain u j where uj: "uj = (u, j)" by (cases uj)
      let ?c = "MS_Collect todo' (if mc_slot s u j \<noteq> NULL then plist @ [mc_slot s u j] else plist)"
      have "held (mc_pc s w) i \<in> set (if mc_slot s u j \<noteq> NULL then plist @ [mc_slot s u j] else plist)"
        if h: "held (mc_pc s w) i \<in> set (mc_retired s t)" "(w, i) \<notin> set todo'" for w i
      proof (cases "(w, i) = (u, j)")
        case True
        have "NULL \<notin> set (mc_retired s t)" using null by (simp add: limbo_def)
        with h(1) have "held (mc_pc s w) i \<noteq> NULL" by metis
        with held_okD(2) [OF D(7) this] True show ?thesis by auto
      next
        case False
        with seen [OF h(1)] h(2) Cons uj show ?thesis by auto
      qed
      then have "scan_ok (\<lambda>u. held (mc_pc s u)) (mc_retired s t) ?c" by (simp only: scan_ok.simps) blast
      then have "mc_inv N (mc_goto t ?c s) ns"
        using MS_Collect by (intro mc_goto_inv [OF inv t]) auto
      with MS_Collect Cons uj show ?thesis by (simp add: hazard_scan_step_def Let_def)
    qed
  next
    case (MS_Sweep plist nodes)
    have sorted: "sorted plist" and seen: "\<And>u j. held (mc_pc s u) j \<in> set nodes \<Longrightarrow> held (mc_pc s u) j \<in> set plist"
      using D(8) [of t] MS_Sweep by auto
    show ?thesis
    proof (cases nodes)
      case Nil
      have "mc_inv N (mc_goto t MC_Idle s) ns"
        using MS_Sweep Nil by (intro mc_goto_inv [OF inv t]) auto
      with MS_Sweep Nil show ?thesis by (simp add: hazard_scan_step_def)
    next
      case (Cons node nodes')
      have lm: "limbo s t = node # nodes' @ mc_retired s t" using MS_Sweep Cons by (simp add: limbo_def)
      let ?c = "MS_Sweep plist nodes'"
      have keep: "mc_inv N (mc_goto t ?c (s\<lparr>mc_retired := (mc_retired s)(t := node # mc_retired s t), mc_client := mc_client s\<rparr>)) ns"
        by (rule mc_limbo_inv [OF inv]) (use MS_Sweep Cons lm d sorted seen in auto)
      have give: "mc_inv N (mc_goto t ?c (s\<lparr>mc_client := (mc_client s)(node := True)\<rparr>)) ns" if out: "node \<notin> set plist"
      proof -
        have "held (mc_pc s u) j \<noteq> node" for u j
          using seen [of u j] Cons out by auto
        then have "mc_inv N (mc_goto t ?c (s\<lparr>mc_retired := (mc_retired s)(t := mc_retired s t), mc_client := (mc_client s)(node := True)\<rparr>)) ns"
          by (intro mc_limbo_inv [OF inv]) (use MS_Sweep Cons lm d sorted seen in \<open>auto split: if_splits\<close>)
        then show ?thesis by simp
      qed
      show ?thesis
        using keep give MS_Sweep Cons by (simp add: hazard_scan_step_def binary_search_sorted [OF sorted])
    qed
  qed (use inv in \<open>auto simp: hazard_scan_step_def\<close>)
qed

section \<open>Every step\<close>

text \<open>A node that a thread protects has not been reclaimed.\<close>

lemma held_allocated:
  assumes inv: "mc_inv N s ns" and h: "held (mc_pc s t) j \<noteq> NULL"
  shows "mc_heap s (held (mc_pc s t) j) \<noteq> None"
proof -
  note D = mc_invD [OF inv]
  from held_okD(3) [OF D(7) h] consider "held (mc_pc s t) j \<in> set ns" | u where "held (mc_pc s t) j \<in> set (limbo s u)"
    using hd_in [OF inv] by (auto split: if_splits)
  then show ?thesis
  proof cases
    case 1
    with linking_members [OF D(1)] show ?thesis by blast
  next
    case 2
    then have "held (mc_pc s t) j \<in> set (stock s u)" by (simp add: stock_def)
    with stocksD(3) [OF D(6)] show ?thesis by blast
  qed
qed

lemma mpmc_trypop_inv:
  assumes inv: "mc_inv N s ns" and t: "t < N"
  shows "\<exists>s' ns'. mpmc_trypop_step N t spurious s = Some s' \<and> mc_inv N s' ns'"
proof -
  note D = mc_invD [OF inv]
  note ok = D(4) [of t] and slot = held_okD(2) [OF D(7), of t]
  have hd: "hd ns \<noteq> NULL" using linking_members [OF D(1) hd_in [OF inv]] by simp
  show ?thesis
  proof (cases "mc_pc s t")
    case MO_Load
    have "mc_inv N (mc_goto t (MO_Head (mq_head (mc_fifo s))) s) ns"
      using MO_Load by (intro mc_goto_inv [OF inv t]) auto
    with MO_Load show ?thesis by (auto simp: mpmc_trypop_step_def)
  next
    case (MO_Head x)
    have "mc_inv N (mc_goto t (MO_Using x) (mc_set_slot t 0 x s)) ns"
      using MO_Head by (intro mc_move_inv [OF inv t]) auto
    with MO_Head show ?thesis by (auto simp: mpmc_trypop_step_def)
  next
    case (MO_Using x)
    have "mc_inv N (mc_goto t MO_Load s) ns"
      using MO_Using by (intro mc_goto_inv [OF inv t]) auto
    moreover have "mc_inv N (mc_goto t (MO_Read x) s) ns" if "x = hd ns"
      using MO_Using hd D(10) [of t] that by (intro mc_goto_inv [OF inv t]) (auto split: if_splits)
    ultimately show ?thesis using MO_Using D(3) by (auto simp: mpmc_trypop_step_def)
  next
    case (MO_Read x)
    then have x: "x \<noteq> NULL" using ok by simp
    then obtain c where c: "mc_heap s x = Some c" using held_allocated [OF inv, of t 0] MO_Read by auto
    have "mc_inv N (mc_goto t MO_Empty s) ns"
      using MO_Read by (intro mc_goto_inv [OF inv t]) auto
    moreover have "mc_inv N (mc_goto t (MO_Prev x (mq_prev c)) s) ns" if "mq_prev c \<noteq> NULL"
    proof -
      have "next_is (mc_heap s) ns x (mq_prev c)" if "x = hd ns"
        using linking_hd [OF D(1)] c \<open>mq_prev c \<noteq> NULL\<close> that by (auto simp: next_is_def prev_of_def)
      with MO_Read slot [of 0] x that show ?thesis by (intro mc_goto_inv [OF inv t]) (auto split: if_splits)
    qed
    ultimately show ?thesis using MO_Read c x by (auto simp: mpmc_trypop_step_def load_def)
  next
    case MO_Empty
    have "mc_inv N (mc_goto t MC_Idle (mc_set_slot t 0 NULL s)) ns"
      using MO_Empty by (intro mc_move_inv [OF inv t]) auto
    with MO_Empty show ?thesis by (auto simp: mpmc_trypop_step_def)
  next
    case (MO_Prev x p)
    have "mc_inv N (mc_goto t (MO_Using1 x p) (mc_set_slot t 1 p s)) ns"
      using MO_Prev ok slot by (intro mc_move_inv [OF inv t]) (auto split: if_splits)
    with MO_Prev show ?thesis by (auto simp: mpmc_trypop_step_def)
  next
    case (MO_Using1 x p)
    have "mc_inv N (mc_goto t MO_Load s) ns"
      using MO_Using1 by (intro mc_goto_inv [OF inv t]) auto
    moreover have "mc_inv N (mc_goto t (MO_Value x p) s) ns" if "x = hd ns"
      using MO_Using1 D(10) [of t] ok slot [of 0] hd that next_is_members [of "mc_heap s" ns x p]
      by (intro mc_goto_inv [OF inv t]) (auto split: if_splits)
    ultimately show ?thesis using MO_Using1 D(3) by (auto simp: mpmc_trypop_step_def)
  next
    case (MO_Value x p)
    then have p: "p \<noteq> NULL" using ok by simp
    then obtain c where c: "mc_heap s p = Some c" using held_allocated [OF inv, of t 1] MO_Value by auto
    have "mc_inv N (mc_goto t (MO_Cas x p (mq_value c)) s) ns"
      using MO_Value ok slot [of 0] slot [of 1] c p by (intro mc_goto_inv [OF inv t]) (auto simp: value_of_def split: if_splits)
    with MO_Value c p show ?thesis by (auto simp: mpmc_trypop_step_def load_def)
  next
    case (MO_Cas x p v)
    have "mc_inv N (mc_goto t MO_Load s) ns"
      using MO_Cas by (intro mc_goto_inv [OF inv t]) auto
    with pop_cas_inv [OF inv t, of p v] MO_Cas D(3) show ?thesis
      by (auto simp: mpmc_trypop_step_def)
  next
    case (MO_Won x)
    have "mc_inv N (mc_goto t (MO_Won1 x) (mc_set_slot t 0 NULL s)) ns"
      using MO_Won by (intro mc_move_inv [OF inv t]) auto
    with MO_Won show ?thesis by (auto simp: mpmc_trypop_step_def)
  next
    case (MO_Won1 x)
    have "mc_inv N (mc_goto t (MO_Retire x) (mc_set_slot t 1 NULL s)) ns"
      using MO_Won1 by (intro mc_move_inv [OF inv t]) auto
    with MO_Won1 show ?thesis by (auto simp: mpmc_trypop_step_def)
  next
    case (MO_Retire x)
    with retire_inv [OF inv t this] show ?thesis by (auto simp: mpmc_trypop_step_def)
  qed (use inv in \<open>auto simp: mpmc_trypop_step_def\<close>)
qed

lemma mc_step_inv:
  assumes inv: "mc_inv N s ns" and a: "\<forall>t. mc_thread a = Some t \<longrightarrow> t < N"
  shows "\<exists>s' ns'. mc_step N a s = Some s' \<and> mc_inv N s' ns'"
proof (cases a)
  case (Mc_Client b c)
  with client_inv [OF inv] inv show ?thesis by auto
next
  case (Mc_Push t n)
  with mc_start_push_inv [OF inv, of t n] inv a show ?thesis by auto
next
  case (Mc_Pop t)
  have "mc_inv N (mc_goto t MO_Load s) ns" if "mc_pc s t = MC_Idle"
    using that Mc_Pop a by (intro mc_goto_inv [OF inv]) auto
  with Mc_Pop inv show ?thesis by auto
next
  case (Mc_Step t b)
  then have t: "t < N" using a by simp
  from hazard_scan_inv [OF inv t] have "\<exists>s' ns'. hazard_scan_step t s = Some s' \<and> mc_inv N s' ns'" by blast
  with mpmc_push_inv [OF inv t, of b] mpmc_trypop_inv [OF inv t, of b] inv Mc_Step show ?thesis
    by (cases "mc_pc s t") auto
qed

interpretation mc_machine: machine "mc_step N" "\<lambda>a. \<forall>t. mc_thread a = Some t \<longrightarrow> t < N" "\<lambda>k s. \<exists>ns. mc_inv N s ns" for N
  by unfold_locales (use mc_step_inv in blast)

lemma mc_init_inv: "a \<noteq> NULL \<Longrightarrow> mc_inv N (mc_init a) [a]"
  by (simp add: mc_inv_def mc_init_def exclusive_def stocks_ok_def held_ok_def stock_def limbo_def)

text \<open>The values in the queue, oldest first, as the nodes behind the dummy hold them.\<close>

definition queue_of :: "mc_sys \<Rightarrow> addr list \<Rightarrow> bool" where
  "queue_of s ns \<longleftrightarrow> distinct ns \<and> ns \<noteq> [] \<and> mc_fifo s = \<lparr>mq_head = hd ns, mq_tail = last ns\<rparr> \<and> (\<forall>a \<in> set ns. mc_heap s a \<noteq> None)"

text \<open>Thread 0 pushes node \<open>n\<close> and thread 1 pops, interleaved; the last retirement of thread 1 starts a scan.\<close>

definition mc_round :: "addr \<Rightarrow> mc_act list" where
  "mc_round n = [Mc_Client n (Some \<lparr>mq_value = 10 * n, mq_prev = 5, mq_next = 5\<rparr>), Mc_Push 0 n, Mc_Pop 1] @
     concat (replicate 7 [Mc_Step 0 False, Mc_Step 1 False]) @ [Mc_Pop 1] @ replicate 12 (Mc_Step 1 False)"

text \<open>C3. Any number of threads below \<open>N\<close> push to, pop from and reclaim nodes of the queue under any schedule, while the clients change or free
  every node handed back to them.  No step faults: no thread reads or writes a node that was freed.  The values popped so far, followed by
  those of the nodes behind the dummy, are the values pushed, in the order in which the tail was replaced; a node in the queue, or one that a
  popping thread is about to read, is never the clients'; and no node is both retired and in the queue.\<close>

theorem mpmc_concurrent_fifo:
  assumes "a \<noteq> NULL" "\<forall>act \<in> set acts. \<forall>t. mc_thread act = Some t \<longrightarrow> t < N"
  shows "\<exists>s ns. mc_run N acts (mc_init a) = Some s \<and> queue_of s ns \<and>
     map Some (mc_pushed s) = map Some (mc_popped s) @ map (value_of (mc_heap s)) (tl ns) \<and>
     (\<forall>b. mc_client s b \<longrightarrow> b \<notin> set ns \<and> (\<forall>t j. held (mc_pc s t) j \<noteq> b)) \<and>
     (\<forall>t. distinct (mc_retired s t) \<and> set (mc_retired s t) \<inter> set ns = {})"
proof -
  obtain s ns where s: "mc_run N acts (mc_init a) = Some s" "mc_inv N s ns"
    using mc_machine.run_ok [where N = N and as = acts and s = "mc_init a"] mc_init_inv [OF assms(1)] assms(2) by blast
  note D = mc_invD [OF s(2)]
  have "queue_of s ns"
    using D(2,3) linking_nonempty [OF D(1)] linking_members [OF D(1)] by (simp add: queue_of_def)
  moreover have "b \<notin> set ns \<and> (\<forall>t j. held (mc_pc s t) j \<noteq> b)" if b: "mc_client s b" for b
  proof -
    have out: "b \<noteq> NULL" "b \<notin> set ns" "b \<notin> set (limbo s u)" for u
      using stocksD(4) [OF D(6) b, of u] by (auto simp: stock_def)
    have "held (mc_pc s t) j \<noteq> b" for t j
    proof
      assume h: "held (mc_pc s t) j = b"
      with held_okD(3) [OF D(7), of t j] out have "b = hd ns" by (simp split: if_splits)
      with out(2) hd_in [OF s(2)] show False by simp
    qed
    with out(2) show ?thesis by blast
  qed
  moreover have "distinct (mc_retired s t) \<and> set (mc_retired s t) \<inter> set ns = {}" for t
    using stocksD(1) [OF D(6), of t] stocksD(3) [OF D(6), of _ t] by (auto simp: stock_def limbo_def)
  ultimately show ?thesis using s(1) D(9) by blast
qed

theorem mpmc_concurrent_fifo_witness:
  "\<exists>s ns. mc_run 2 (concat (map mc_round [2..<10]) @ replicate 20 (Mc_Step 1 False) @ [Mc_Client 1 None]) (mc_init 1) = Some s \<and> queue_of s ns \<and>
     mc_popped s = [20, 30, 40, 50, 60, 70, 80, 90] \<and> map (value_of (mc_heap s)) (tl ns) = [] \<and> mc_client s 1 \<and> mc_heap s 1 = None"
proof -
  let ?acts = "concat (map mc_round [2..<10]) @ replicate 20 (Mc_Step 1 False) @ [Mc_Client 1 None]"
  have run: "map_option (\<lambda>s. (mc_pushed s, mc_popped s, mc_client s 1, mc_heap s 1)) (mc_run 2 ?acts (mc_init 1)) =
      Some ([20, 30, 40, 50, 60, 70, 80, 90], [20, 30, 40, 50, 60, 70, 80, 90], True, None)"
    by code_simp
  have "\<forall>act \<in> set ?acts. \<forall>t. mc_thread act = Some t \<longrightarrow> t < 2"
    by (simp add: mc_round_def upt_rec)
  from mpmc_concurrent_fifo [OF _ this, of 1] obtain s ns where s: "mc_run 2 ?acts (mc_init 1) = Some s" "queue_of s ns"
    "map Some (mc_pushed s) = map Some (mc_popped s) @ map (value_of (mc_heap s)) (tl ns)"
    by auto
  from run have "mc_pushed s = [20, 30, 40, 50, 60, 70, 80, 90]" "mc_popped s = [20, 30, 40, 50, 60, 70, 80, 90]" "mc_client s 1" "mc_heap s 1 = None"
    unfolding s(1) by simp_all
  with s show ?thesis by auto
qed

end
