(* ===== verification/Spinlock.thy ===== *)
theory Spinlock
  imports Step_Machine
begin

text \<open>
  \<open>src/fiber_spinlock.c\<close>: the ticket lock. \<open>ticket\<close> and \<open>users\<close> are 32 bit counters that wrap; the
  64 bit \<open>blob\<close> that \<open>trylock\<close> swaps is the pair of them. Every atomic access is a step of its own
  and any number of threads below \<open>2 ^ 32\<close> takes part.
\<close>

record fiber_spinlock =
  sl_ticket :: "32 word"
  sl_users :: "32 word"

definition fiber_spinlock_init :: "fiber_spinlock \<times> int" where
  "fiber_spinlock_init = (\<lparr>sl_ticket = 0, sl_users = 0\<rparr>, FIBER_SUCCESS)"

definition fiber_spinlock_destroy :: "fiber_spinlock \<Rightarrow> fiber_spinlock \<times> int" where
  "fiber_spinlock_destroy l = (l, FIBER_SUCCESS)"

text \<open>\<open>fiber_spinlock_lock\<close>: draw a ticket, then poll until it is served.\<close>

definition spinlock_take_ticket :: "fiber_spinlock \<Rightarrow> fiber_spinlock \<times> 32 word" where
  "spinlock_take_ticket l = (l\<lparr>sl_users := sl_users l + 1\<rparr>, sl_users l)"

definition spinlock_poll :: "fiber_spinlock \<Rightarrow> 32 word \<Rightarrow> bool" where
  "spinlock_poll l my_ticket = (sl_ticket l = my_ticket)"

text \<open>
  \<open>fiber_spinlock_trylock\<close>: from a snapshot of the blob, expect a free lock (\<open>ticket = users\<close>) and
  swap in one more user. The weak compare-exchange may fail spuriously.
\<close>

definition spinlock_try_cas :: "fiber_spinlock \<Rightarrow> fiber_spinlock \<Rightarrow> bool \<Rightarrow> fiber_spinlock \<times> int" where
  "spinlock_try_cas l snapshot spurious =
     (let old = snapshot\<lparr>sl_ticket := sl_users snapshot\<rparr>;
          new = old\<lparr>sl_users := sl_users old + 1\<rparr>
      in if l = old \<and> \<not> spurious then (new, FIBER_SUCCESS) else (l, FIBER_ERROR))"

text \<open>\<open>fiber_spinlock_unlock\<close>: load the ticket, store its successor.\<close>

definition spinlock_serve_next :: "fiber_spinlock \<Rightarrow> 32 word \<Rightarrow> fiber_spinlock" where
  "spinlock_serve_next l old_ticket = l\<lparr>sl_ticket := old_ticket + 1\<rparr>"

definition fiber_spinlock_unlock :: "fiber_spinlock \<Rightarrow> fiber_spinlock \<times> int" where
  "fiber_spinlock_unlock l = (spinlock_serve_next l (sl_ticket l), FIBER_SUCCESS)"

text \<open>
  Uncontended operations, run without interference. Locking polls; when another thread holds the
  lock it spins, so the result is \<open>None\<close> (the spinning thread makes no progress on its own).
\<close>

definition fiber_spinlock_lock :: "fiber_spinlock \<Rightarrow> (fiber_spinlock \<times> int) option" where
  "fiber_spinlock_lock l =
     (case spinlock_take_ticket l of (l', my_ticket) \<Rightarrow>
        if spinlock_poll l' my_ticket then Some (l', FIBER_SUCCESS) else None)"

definition fiber_spinlock_trylock :: "fiber_spinlock \<Rightarrow> fiber_spinlock \<times> int" where
  "fiber_spinlock_trylock l = spinlock_try_cas l l False"

section \<open>Threads\<close>

datatype spin_pc =
    S_Idle
  | S_Spin "32 word"
  | S_Try fiber_spinlock
  | S_Held
  | S_Unlock "32 word"

text \<open>\<open>sp_taken\<close> and \<open>sp_acquired\<close> record the threads in the order of their tickets and of their entries.\<close>

record spin_sys =
  sp_lock :: fiber_spinlock
  sp_pc :: "nat \<Rightarrow> spin_pc"
  sp_spin_count :: "64 word"
  sp_taken :: "nat list"
  sp_acquired :: "nat list"

datatype spin_act = Call_Lock nat | Call_Trylock nat | Call_Unlock nat | Step_Spin nat bool

fun spin_thread :: "spin_act \<Rightarrow> nat" where
  "spin_thread (Call_Lock t) = t"
| "spin_thread (Call_Trylock t) = t"
| "spin_thread (Call_Unlock t) = t"
| "spin_thread (Step_Spin t b) = t"

fun spin_step :: "spin_act \<Rightarrow> spin_sys \<Rightarrow> spin_sys" where
  "spin_step (Call_Lock t) s =
     (if sp_pc s t = S_Idle then
        (case spinlock_take_ticket (sp_lock s) of (l, my_ticket) \<Rightarrow>
           s\<lparr>sp_lock := l, sp_pc := (sp_pc s)(t := S_Spin my_ticket), sp_taken := sp_taken s @ [t]\<rparr>)
      else s)"
| "spin_step (Call_Trylock t) s =
     (if sp_pc s t = S_Idle then s\<lparr>sp_pc := (sp_pc s)(t := S_Try (sp_lock s))\<rparr> else s)"
| "spin_step (Call_Unlock t) s =
     (if sp_pc s t = S_Held then s\<lparr>sp_pc := (sp_pc s)(t := S_Unlock (sl_ticket (sp_lock s)))\<rparr> else s)"
| "spin_step (Step_Spin t spurious) s =
     (case sp_pc s t of
        S_Spin my_ticket \<Rightarrow>
          if spinlock_poll (sp_lock s) my_ticket
          then s\<lparr>sp_pc := (sp_pc s)(t := S_Held), sp_acquired := sp_acquired s @ [t]\<rparr>
          else s\<lparr>sp_spin_count := sp_spin_count s + 1\<rparr>
      | S_Try snapshot \<Rightarrow>
          (case spinlock_try_cas (sp_lock s) snapshot spurious of (l, r) \<Rightarrow>
             if r = FIBER_SUCCESS
             then s\<lparr>sp_lock := l, sp_pc := (sp_pc s)(t := S_Held),
                    sp_taken := sp_taken s @ [t], sp_acquired := sp_acquired s @ [t]\<rparr>
             else s\<lparr>sp_pc := (sp_pc s)(t := S_Idle)\<rparr>)
      | S_Unlock old_ticket \<Rightarrow>
          s\<lparr>sp_lock := spinlock_serve_next (sp_lock s) old_ticket, sp_pc := (sp_pc s)(t := S_Idle)\<rparr>
      | _ \<Rightarrow> s)"

abbreviation spin_run :: "spin_act list \<Rightarrow> spin_sys \<Rightarrow> spin_sys option" where
  "spin_run \<equiv> run_steps (\<lambda>a s. Some (spin_step a s))"

definition spin_init :: spin_sys where
  "spin_init = \<lparr>sp_lock = fst fiber_spinlock_init, sp_pc = (\<lambda>_. S_Idle), sp_spin_count = 0,
                sp_taken = [], sp_acquired = []\<rparr>"

definition in_section :: "spin_pc \<Rightarrow> bool" where
  "in_section pc \<longleftrightarrow> (case pc of S_Held \<Rightarrow> True | S_Unlock _ \<Rightarrow> True | _ \<Rightarrow> False)"

section \<open>The invariant\<close>

text \<open>
  \<open>q\<close> lists the threads that have drawn a ticket and not given it back, oldest first; the thread at
  position \<open>i\<close> has ticket \<open>ticket + i\<close>, and only the first can be in the critical section.
\<close>

definition spin_queue :: "spin_sys \<Rightarrow> nat list \<Rightarrow> bool" where
  "spin_queue s q \<longleftrightarrow>
     distinct q \<and> sl_users (sp_lock s) = sl_ticket (sp_lock s) + of_nat (length q) \<and>
     (\<forall>i < length q. 0 < i \<longrightarrow> sp_pc s (q ! i) = S_Spin (sl_ticket (sp_lock s) + of_nat i)) \<and>
     (q \<noteq> [] \<longrightarrow> sp_pc s (hd q) \<in> {S_Spin (sl_ticket (sp_lock s)), S_Held, S_Unlock (sl_ticket (sp_lock s))}) \<and>
     (\<forall>t. t \<notin> set q \<longrightarrow> sp_pc s t = S_Idle \<or> (\<exists>l. sp_pc s t = S_Try l)) \<and>
     sp_taken s = sp_acquired s @ (if q \<noteq> [] \<and> in_section (sp_pc s (hd q)) then tl q else q)"

definition spin_inv :: "nat \<Rightarrow> spin_sys \<Rightarrow> bool" where
  "spin_inv N s \<longleftrightarrow> (\<exists>q. spin_queue s q \<and> set q \<subseteq> {..<N})"

lemma queue_bound: "distinct q \<Longrightarrow> set q \<subseteq> {..<N} \<Longrightarrow> length q \<le> N"
  by (metis card_lessThan card_mono distinct_card finite_lessThan)

lemma spin_init_inv: "spin_inv N spin_init"
  by (auto simp: spin_inv_def spin_init_def spin_queue_def fiber_spinlock_init_def intro!: exI[of _ "[]"])

lemma not_in_queue_idle: "spin_queue s q \<Longrightarrow> sp_pc s t = S_Idle \<Longrightarrow> t \<notin> set q"
proof
  assume q: "spin_queue s q" "sp_pc s t = S_Idle" "t \<in> set q"
  then obtain i where "i < length q" "q ! i = t" by (auto simp: in_set_conv_nth)
  with q show False
    by (cases i) (auto simp: spin_queue_def hd_conv_nth)
qed

lemma not_in_queue_try: "spin_queue s q \<Longrightarrow> sp_pc s t = S_Try l \<Longrightarrow> t \<notin> set q"
proof
  assume q: "spin_queue s q" "sp_pc s t = S_Try l" "t \<in> set q"
  then obtain i where "i < length q" "q ! i = t" by (auto simp: in_set_conv_nth)
  with q show False
    by (cases i) (auto simp: spin_queue_def hd_conv_nth)
qed

text \<open>A thread in the critical section, or one whose ticket is served, is the first of the queue.\<close>

lemma in_section_hd:
  assumes q: "spin_queue s q" and t: "in_section (sp_pc s t)"
  shows "q \<noteq> [] \<and> t = hd q"
proof -
  have "t \<in> set q"
    using q t by (fastforce simp: spin_queue_def in_section_def)
  then obtain i where i: "i < length q" "q ! i = t" by (auto simp: in_set_conv_nth)
  have "i = 0"
    using q t i by (cases "i = 0") (auto simp: spin_queue_def in_section_def)
  with i show ?thesis by (auto simp: hd_conv_nth)
qed

lemma served_hd:
  assumes q: "spin_queue s q" and len: "length q < 2 ^ 32"
    and t: "sp_pc s t = S_Spin (sl_ticket (sp_lock s))"
  shows "q \<noteq> [] \<and> t = hd q"
proof -
  have "t \<in> set q"
    using q t by (fastforce simp: spin_queue_def)
  then obtain i where i: "i < length q" "q ! i = t" by (auto simp: in_set_conv_nth)
  have "i = 0"
  proof (rule ccontr)
    assume "i \<noteq> 0"
    with q i t have "(of_nat i :: 32 word) = of_nat 0"
      by (auto simp: spin_queue_def)
    then show False
      using of_nat_word_inj[of i 0, where 'a = 32] i len \<open>i \<noteq> 0\<close> by simp
  qed
  with i show ?thesis by (auto simp: hd_conv_nth)
qed

lemma lock_queue:
  assumes q: "spin_queue s q" and t: "sp_pc s t = S_Idle"
  shows "spin_queue (spin_step (Call_Lock t) s) (q @ [t])"
proof -
  have tq: "t \<notin> set q" using not_in_queue_idle[OF q t] .
  have hd: "hd (q @ [t]) = (if q = [] then t else hd q)" "q \<noteq> [] \<Longrightarrow> hd q \<noteq> t"
    using tq by (auto simp: hd_append)
  show ?thesis
    using q t tq hd unfolding spin_queue_def
    by (auto simp: spinlock_take_ticket_def nth_append less_Suc_eq in_section_def)
qed

lemma trylock_call_queue:
  assumes q: "spin_queue s q" and t: "sp_pc s t = S_Idle"
  shows "spin_queue (spin_step (Call_Trylock t) s) q"
proof -
  have tq: "t \<notin> set q" using not_in_queue_idle[OF q t] .
  then have "q ! i \<noteq> t" if "i < length q" for i
    using that by auto
  moreover have "hd q \<noteq> t" if "q \<noteq> []"
    using tq that by auto
  ultimately show ?thesis
    using q t by (auto simp: spin_queue_def)
qed

lemma acquire_queue:
  assumes q: "spin_queue s q" and hd: "q \<noteq> []" "t = hd q" and t: "sp_pc s t = S_Spin m"
  shows "spin_queue (s\<lparr>sp_pc := (sp_pc s)(t := S_Held), sp_acquired := sp_acquired s @ [t]\<rparr>) q"
proof -
  obtain q' where q': "q = t # q'" "t \<notin> set q'"
    using hd q by (cases q) (auto simp: spin_queue_def)
  have "sp_pc s (q ! i) = S_Spin (sl_ticket (sp_lock s) + of_nat i) \<and> q ! i \<noteq> t" if "0 < i" "i < length q" for i
    using q q' that by (cases i) (auto simp: spin_queue_def)
  then show ?thesis
    using q q' t by (auto simp: spin_queue_def in_section_def)
qed

lemma unlock_call_queue:
  assumes q: "spin_queue s q" and t: "sp_pc s t = S_Held"
  shows "spin_queue (spin_step (Call_Unlock t) s) q"
proof -
  have hd: "q \<noteq> []" "t = hd q"
    using in_section_hd[OF q, of t] t by (auto simp: in_section_def)
  then obtain q' where q': "q = t # q'" "t \<notin> set q'"
    using q by (cases q) (auto simp: spin_queue_def)
  have "sp_pc s (q ! i) = S_Spin (sl_ticket (sp_lock s) + of_nat i) \<and> q ! i \<noteq> t" if "0 < i" "i < length q" for i
    using q q' that by (cases i) (auto simp: spin_queue_def)
  then show ?thesis
    using q q' t by (auto simp: spin_queue_def in_section_def)
qed

lemma unlock_store_queue:
  assumes q: "spin_queue s q" and t: "sp_pc s t = S_Unlock m"
  shows "spin_queue (spin_step (Step_Spin t b) s) (tl q)"
proof -
  have hd: "q \<noteq> []" "t = hd q"
    using in_section_hd[OF q, of t] t by (auto simp: in_section_def)
  then obtain q' where q': "q = t # q'" "t \<notin> set q'"
    using q by (cases q) (auto simp: spin_queue_def)
  have m: "m = sl_ticket (sp_lock s)"
    using q q' t by (auto simp: spin_queue_def)
  have w: "sp_pc s (q' ! i) = S_Spin (sl_ticket (sp_lock s) + 1 + of_nat i) \<and> q' ! i \<noteq> t"
    if "i < length q'" for i
  proof -
    have "sp_pc s (q ! Suc i) = S_Spin (sl_ticket (sp_lock s) + of_nat (Suc i))"
      using q q' that unfolding spin_queue_def by auto
    then show ?thesis
      using q' that by (auto simp: add.assoc)
  qed
  have h: "sp_pc s (hd q') = S_Spin (sl_ticket (sp_lock s) + 1) \<and> hd q' \<noteq> t" if "q' \<noteq> []"
    using w[of 0] that by (simp add: hd_conv_nth)
  show ?thesis
    using q q' t m w h by (auto simp: spin_queue_def spinlock_serve_next_def in_section_def)
qed

lemma try_queue:
  assumes q: "spin_queue s q" and len: "length q < 2 ^ 32" and t: "sp_pc s t = S_Try l"
  shows "\<exists>q'. spin_queue (spin_step (Step_Spin t b) s) q' \<and> set q' \<subseteq> insert t (set q)"
proof -
  have tq: "t \<notin> set q" using not_in_queue_try[OF q t] .
  have w: "q ! i \<noteq> t" if "i < length q" for i
    using tq that by auto
  have h: "q \<noteq> [] \<Longrightarrow> hd q \<noteq> t"
    using tq by auto
  show ?thesis
  proof (cases "snd (spinlock_try_cas (sp_lock s) l b) = FIBER_SUCCESS")
    case True
    then have free: "sl_ticket (sp_lock s) = sl_users (sp_lock s)"
      and l: "fst (spinlock_try_cas (sp_lock s) l b) = (sp_lock s)\<lparr>sl_users := sl_users (sp_lock s) + 1\<rparr>"
      by (auto simp: spinlock_try_cas_def Let_def split: if_splits)
    have "(of_nat (length q) :: 32 word) = of_nat 0"
      using q free unfolding spin_queue_def by simp
    then have "q = []"
      using of_nat_word_inj[of "length q" 0, where 'a = 32] len by simp
    then have "spin_queue (spin_step (Step_Spin t b) s) [t]"
      using q t True l free by (auto simp: spin_queue_def in_section_def split: prod.splits)
    then show ?thesis by (intro exI[of _ "[t]"]) simp
  next
    case False
    then have "spin_step (Step_Spin t b) s = s\<lparr>sp_pc := (sp_pc s)(t := S_Idle)\<rparr>"
      using t by (auto split: prod.splits)
    moreover have "spin_queue (s\<lparr>sp_pc := (sp_pc s)(t := S_Idle)\<rparr>) q"
      using q w h by (auto simp: spin_queue_def)
    ultimately show ?thesis by auto
  qed
qed

lemma spin_step_inv:
  assumes inv: "spin_inv N s" and N: "N < 2 ^ 32" and a: "spin_thread a < N"
  shows "spin_inv N (spin_step a s)"
proof -
  from inv obtain q where q: "spin_queue s q" and sub: "set q \<subseteq> {..<N}"
    by (auto simp: spin_inv_def)
  have len: "length q < 2 ^ 32"
    using queue_bound[OF _ sub] q N by (auto simp: spin_queue_def)
  show ?thesis
  proof (cases a)
    case (Call_Lock t)
    show ?thesis
    proof (cases "sp_pc s t = S_Idle")
      case True
      with lock_queue[OF q True] Call_Lock sub a show ?thesis
        unfolding spin_inv_def by (intro exI[of _ "q @ [t]"]) simp
    next
      case False
      with inv Call_Lock show ?thesis by simp
    qed
  next
    case (Call_Trylock t)
    show ?thesis
    proof (cases "sp_pc s t = S_Idle")
      case True
      with trylock_call_queue[OF q True] Call_Trylock sub show ?thesis
        unfolding spin_inv_def by blast
    next
      case False
      with inv Call_Trylock show ?thesis by simp
    qed
  next
    case (Call_Unlock t)
    show ?thesis
    proof (cases "sp_pc s t = S_Held")
      case True
      with unlock_call_queue[OF q True] Call_Unlock sub show ?thesis
        unfolding spin_inv_def by blast
    next
      case False
      with inv Call_Unlock show ?thesis by simp
    qed
  next
    case (Step_Spin t b)
    show ?thesis
    proof (cases "sp_pc s t")
      case (S_Spin m)
      show ?thesis
      proof (cases "spinlock_poll (sp_lock s) m")
        case True
        then have "q \<noteq> [] \<and> t = hd q"
          using served_hd[OF q len] S_Spin by (simp add: spinlock_poll_def)
        then have "spin_queue (spin_step a s) q"
          using acquire_queue[OF q _ _ S_Spin] True S_Spin Step_Spin by simp
        with sub show ?thesis
          unfolding spin_inv_def by blast
      next
        case False
        then have "spin_step a s = s\<lparr>sp_spin_count := sp_spin_count s + 1\<rparr>"
          using S_Spin Step_Spin by simp
        moreover have "spin_queue (s\<lparr>sp_spin_count := sp_spin_count s + 1\<rparr>) q"
          using q by (simp add: spin_queue_def)
        ultimately show ?thesis
          using sub unfolding spin_inv_def by auto
      qed
    next
      case (S_Try l)
      with try_queue[OF q len S_Try, of b] sub a Step_Spin show ?thesis
        unfolding spin_inv_def by (metis (no_types, lifting) insert_subset lessThan_iff order_trans spin_thread.simps(4))
    next
      case (S_Unlock m)
      have "set (tl q) \<subseteq> {..<N}" using sub by (cases q) auto
      with unlock_store_queue[OF q S_Unlock, of b] Step_Spin show ?thesis
        unfolding spin_inv_def by blast
    qed (use inv Step_Spin in auto)
  qed
qed

interpretation spin_machine: machine "\<lambda>a s. Some (spin_step a s)" "\<lambda>a. spin_thread a < N"
  "\<lambda>_ s. N < 2 ^ 32 \<and> spin_inv N s" for N
  by unfold_locales (simp add: spin_step_inv)

section \<open>Properties\<close>

text \<open>C29. With fewer than \<open>2 ^ 32\<close> threads, under every schedule of the ticket lock, at most one
  thread is between a successful lock or trylock and the end of its unlock, and the threads enter in
  the order in which they drew their tickets; the 32-bit counters may wrap.\<close>

theorem spinlock_exclusive_and_fair:
  assumes "N < 2 ^ 32" "\<forall>a \<in> set acts. spin_thread a < N"
  shows "\<exists>s. spin_run acts spin_init = Some s \<and>
     (\<forall>t u. in_section (sp_pc s t) \<and> in_section (sp_pc s u) \<longrightarrow> t = u) \<and>
     (\<exists>waiting. sp_taken s = sp_acquired s @ waiting)"
proof -
  obtain s q where run: "spin_run acts spin_init = Some s" and q: "spin_queue s q"
    using spin_machine.run_ok [where N = N and as = acts and s = spin_init] assms spin_init_inv [of N] by (auto simp: spin_inv_def)
  have "t = u" if "in_section (sp_pc s t)" "in_section (sp_pc s u)" for t u
    using in_section_hd [OF q that(1)] in_section_hd [OF q that(2)] by simp
  with run q show ?thesis by (auto simp: spin_queue_def)
qed

theorem spinlock_exclusive_and_fair_witness:
  "\<exists>s. spin_run [Call_Lock 0, Call_Lock 1, Step_Spin 1 False, Step_Spin 0 False, Call_Trylock 2,
                  Step_Spin 2 False, Call_Unlock 0, Step_Spin 0 False, Step_Spin 1 False] spin_init = Some s \<and>
     (\<exists>waiting. sp_taken s = sp_acquired s @ waiting)"
  using spinlock_exclusive_and_fair [of 3 "[Call_Lock 0, Call_Lock 1, Step_Spin 1 False, Step_Spin 0 False,
    Call_Trylock 2, Step_Spin 2 False, Call_Unlock 0, Step_Spin 0 False, Step_Spin 1 False]"]
  by (simp del: run_steps.simps) blast

section \<open>Liveness\<close>

text \<open>
  How far a waiting thread is from the lock: three actions for every thread in front of it, the first of which may have done some of them, and the action the first thread takes next.
\<close>

fun phase :: "spin_pc \<Rightarrow> nat" where
  "phase (S_Unlock m) = 0" | "phase S_Held = 1" | "phase _ = 2"

fun front_act :: "nat \<Rightarrow> spin_pc \<Rightarrow> spin_act" where
  "front_act t S_Held = Call_Unlock t" | "front_act t _ = Step_Spin t False"

definition waits :: "nat \<Rightarrow> nat \<Rightarrow> spin_sys \<Rightarrow> nat \<Rightarrow> spin_act \<Rightarrow> bool" where
  "waits N t s n a \<longleftrightarrow> (\<exists>q i. spin_queue s q \<and> set q \<subseteq> {..<N} \<and> i < length q \<and> q ! i = t \<and> (\<exists>m. sp_pc s t = S_Spin m) \<and>
     n = 3 * i + phase (sp_pc s (hd q)) \<and> a = front_act (hd q) (sp_pc s (hd q)))"

lemma waitsI:
  assumes "spin_queue s q" "set q \<subseteq> {..<N}" "i < length q" "q ! i = t" "sp_pc s t = S_Spin m"
  shows "waits N t s (3 * i + phase (sp_pc s (hd q))) (front_act (hd q) (sp_pc s (hd q)))"
  using assms unfolding waits_def by blast

lemma front_pc:
  assumes "spin_queue s q" "q \<noteq> []"
  shows "sp_pc s (hd q) \<in> {S_Spin (sl_ticket (sp_lock s)), S_Held, S_Unlock (sl_ticket (sp_lock s))}"
  using assms by (simp add: spin_queue_def)

lemma try_fails_busy:
  assumes q: "spin_queue s q" "q \<noteq> []" "length q < 2 ^ 32" and t: "sp_pc s t = S_Try l"
  shows "spin_step (Step_Spin t b) s = s\<lparr>sp_pc := (sp_pc s)(t := S_Idle)\<rparr>" "spin_queue (s\<lparr>sp_pc := (sp_pc s)(t := S_Idle)\<rparr>) q" "t \<notin> set q"
proof -
  show tq: "t \<notin> set q" using not_in_queue_try [OF q(1) t] .
  have "sl_ticket (sp_lock s) \<noteq> sl_users (sp_lock s)"
  proof
    assume "sl_ticket (sp_lock s) = sl_users (sp_lock s)"
    then have "(of_nat (length q) :: 32 word) = of_nat 0"
      using q(1) unfolding spin_queue_def by simp
    then show False
      using of_nat_word_inj [of "length q" 0, where 'a = 32] q(2,3) by simp
  qed
  then show "spin_step (Step_Spin t b) s = s\<lparr>sp_pc := (sp_pc s)(t := S_Idle)\<rparr>"
    using t by (auto simp: spinlock_try_cas_def Let_def)
  have "q ! i \<noteq> t" if "i < length q" for i
    using tq that by auto
  moreover have "hd q \<noteq> t"
    using tq q(2) by auto
  ultimately show "spin_queue (s\<lparr>sp_pc := (sp_pc s)(t := S_Idle)\<rparr>) q"
    using q by (auto simp: spin_queue_def)
qed

lemma waits_unlock:
  assumes q: "spin_queue s q" "set q \<subseteq> {..<N}" "i < length q" "q ! i = t" "sp_pc s t = S_Spin m" and u: "sp_pc s u = S_Unlock l"
  shows "\<exists>n' < 3 * i + phase (sp_pc s (hd q)). \<exists>a'. waits N t (spin_step (Step_Spin u b) s) n' a'"
proof -
  let ?s = "spin_step (Step_Spin u b) s"
  have hd: "q \<noteq> []" "u = hd q"
    using in_section_hd [OF q(1), of u] u by (auto simp: in_section_def)
  then obtain j where i: "i = Suc j"
    using q(4,5) u by (cases i) (auto simp: hd_conv_nth)
  then have j: "j < length (tl q)" "tl q ! j = t"
    using q(3,4) by (auto simp: nth_tl)
  have t: "sp_pc ?s t = S_Spin m"
    using q(5) u by auto
  have "set (tl q) \<subseteq> {..<N}"
    using q(2) hd(1) by (cases q) auto
  from waitsI [OF unlock_store_queue [OF q(1) u] this j t]
  have "waits N t ?s (3 * j + phase (sp_pc ?s (hd (tl q)))) (front_act (hd (tl q)) (sp_pc ?s (hd (tl q))))" .
  moreover have "3 * j + phase p < 3 * i" for p
    using i by (cases p) auto
  then have "3 * j + phase (sp_pc ?s (hd (tl q))) < 3 * i" .
  ultimately show ?thesis
    using trans_less_add1 by blast
qed

lemma waits_acquire:
  assumes q: "spin_queue s q" "set q \<subseteq> {..<N}" "i < length q" "q ! i = t" "sp_pc s t = S_Spin m" and N: "N < 2 ^ 32"
    and u: "sp_pc s u = S_Spin (sl_ticket (sp_lock s))"
  shows "sp_pc (spin_step (Step_Spin u b) s) t = S_Held \<or>
    (\<exists>n' < 3 * i + phase (sp_pc s (hd q)). \<exists>a'. waits N t (spin_step (Step_Spin u b) s) n' a')"
proof (cases "u = t")
  case True
  then show ?thesis
    using u by (simp add: spinlock_poll_def)
next
  case False
  have "length q < 2 ^ 32"
    using queue_bound [OF _ q(2)] q(1) N by (auto simp: spin_queue_def)
  from served_hd [OF q(1) this u] have hd: "q \<noteq> []" "u = hd q"
    by auto
  let ?s = "s\<lparr>sp_pc := (sp_pc s)(u := S_Held), sp_acquired := sp_acquired s @ [u]\<rparr>"
  have s: "spin_step (Step_Spin u b) s = ?s"
    using u by (simp add: spinlock_poll_def)
  have t: "sp_pc ?s t = S_Spin m"
    using q(5) False by simp
  have "waits N t ?s (3 * i + phase S_Held) (front_act u S_Held)"
    using waitsI [OF acquire_queue [OF q(1) hd u] q(2-4) t] hd(2) by simp
  then show ?thesis
    unfolding s using u hd(2) by (intro disjI2 exI [of _ "3 * i + 1"]) auto
qed

lemma waits_step:
  assumes W: "waits N t s n a" and N: "N < 2 ^ 32" and b: "spin_thread b < N"
  shows "sp_pc (spin_step b s) t = S_Held \<or> (\<exists>n' < n. \<exists>a'. waits N t (spin_step b s) n' a') \<or> b \<noteq> a \<and> waits N t (spin_step b s) n a"
proof -
  obtain q i m where q: "spin_queue s q" "set q \<subseteq> {..<N}" "i < length q" "q ! i = t" "sp_pc s t = S_Spin m"
    and n: "n = 3 * i + phase (sp_pc s (hd q))" and a: "a = front_act (hd q) (sp_pc s (hd q))"
    using W unfolding waits_def by blast
  have ne: "q \<noteq> []" using q(3) by auto
  have len: "length q < 2 ^ 32"
    using queue_bound [OF _ q(2)] q(1) N by (auto simp: spin_queue_def)
  note front = front_pc [OF q(1) ne]
  have keep: "waits N t s' n a" if "spin_queue s' q'" "set q' \<subseteq> {..<N}" "i < length q'" "q' ! i = t" "hd q' = hd q"
      "sp_pc s' t = S_Spin m" "sp_pc s' (hd q) = sp_pc s (hd q)" for s' q'
    using waitsI [OF that(1-4,6)] that(5,7) n a by simp
  show ?thesis
  proof (cases b)
    case (Call_Lock u)
    show ?thesis
    proof (cases "sp_pc s u = S_Idle")
      case True
      then have uq: "u \<notin> set q" "u \<noteq> t" "hd q \<noteq> u"
        using not_in_queue_idle [OF q(1)] q(5) hd_in_set [OF ne] by auto
      have "waits N t (spin_step b s) n a"
        unfolding Call_Lock using q True uq ne b Call_Lock
        by (intro keep [OF lock_queue [OF q(1) True]]) (auto simp: nth_append spinlock_take_ticket_def)
      with Call_Lock a show ?thesis by (cases "sp_pc s (hd q)") auto
    next
      case False
      with W Call_Lock a show ?thesis by (cases "sp_pc s (hd q)") auto
    qed
  next
    case (Call_Trylock u)
    show ?thesis
    proof (cases "sp_pc s u = S_Idle")
      case True
      then have uq: "u \<notin> set q" "u \<noteq> t" "hd q \<noteq> u"
        using not_in_queue_idle [OF q(1)] q(5) hd_in_set [OF ne] by auto
      have "waits N t (spin_step b s) n a"
        unfolding Call_Trylock using q True uq by (intro keep [OF trylock_call_queue [OF q(1) True]]) auto
      with Call_Trylock a show ?thesis by (cases "sp_pc s (hd q)") auto
    next
      case False
      with W Call_Trylock a show ?thesis by (cases "sp_pc s (hd q)") auto
    qed
  next
    case (Call_Unlock u)
    show ?thesis
    proof (cases "sp_pc s u = S_Held")
      case True
      then have hd: "u = hd q" "u \<noteq> t"
        using in_section_hd [OF q(1), of u] q(5) by (auto simp: in_section_def)
      have "waits N t (spin_step b s) (3 * i) (front_act u (S_Unlock (sl_ticket (sp_lock s))))"
        using waitsI [OF unlock_call_queue [OF q(1) True] q(2-4), of m] True hd q(5) Call_Unlock by simp
      with n True hd(1) show ?thesis by (metis add.right_neutral lessI less_add_same_cancel1 phase.simps(2) zero_less_one)
    next
      case False
      with W Call_Unlock a show ?thesis by (cases "sp_pc s (hd q)") auto
    qed
  next
    case (Step_Spin u c)
    show ?thesis
    proof (cases "sp_pc s u")
      case (S_Spin k)
      show ?thesis
      proof (cases "spinlock_poll (sp_lock s) k")
        case True
        then have "sp_pc s u = S_Spin (sl_ticket (sp_lock s))"
          using S_Spin by (simp add: spinlock_poll_def)
        from waits_acquire [OF q N this, of c] show ?thesis
          unfolding n Step_Spin by blast
      next
        case False
        then have s: "spin_step b s = s\<lparr>sp_spin_count := sp_spin_count s + 1\<rparr>"
          using S_Spin Step_Spin by simp
        have "u \<noteq> hd q"
          using front S_Spin False by (auto simp: spinlock_poll_def)
        then have "b \<noteq> a"
          using a Step_Spin by (cases "sp_pc s (hd q)") auto
        moreover have "waits N t (spin_step b s) n a"
          unfolding s using q by (intro keep [where q' = q]) (auto simp: spin_queue_def)
        ultimately show ?thesis by simp
      qed
    next
      case (S_Try l)
      note busy = try_fails_busy [OF q(1) ne len S_Try]
      have u: "u \<noteq> t" "u \<noteq> hd q"
        using busy(3) q(3,4) ne by auto
      have "waits N t (spin_step b s) n a"
        unfolding Step_Spin busy(1) by (rule keep [OF busy(2) q(2-4)]) (use q(5) u in auto)
      moreover have "b \<noteq> a"
        using u(2) a Step_Spin by (cases "sp_pc s (hd q)") auto
      ultimately show ?thesis by simp
    next
      case (S_Unlock l)
      with waits_unlock [OF q S_Unlock, of c] Step_Spin n show ?thesis by simp
    next
      case S_Idle
      then have "u \<noteq> hd q"
        using front by auto
      then have "b \<noteq> a"
        using a Step_Spin by (cases "sp_pc s (hd q)") auto
      with W S_Idle Step_Spin show ?thesis by simp
    next
      case S_Held
      then have "u = hd q"
        using in_section_hd [OF q(1), of u] by (simp add: in_section_def)
      with W S_Held Step_Spin a show ?thesis by simp
    qed
  qed
qed

interpretation spin_progress: progress "\<lambda>b s. Some (spin_step b s)" "\<lambda>b. spin_thread b < N" "\<lambda>s. sp_pc s t = S_Held"
  "\<lambda>s n a. N < 2 ^ 32 \<and> waits N t s n a" for N t
  by unfold_locales (use waits_step in blast)

text \<open>C30. The ticket lock is free of starvation.  A thread that has drawn a ticket, in any state that can be reached, gets the lock in every schedule that goes on fairly: after at most \<open>3 * N\<close>
  rounds in each of which every thread takes a step and gives the lock back if it holds it, whatever else happens in between and however often other threads draw tickets.
\<close>

theorem spinlock_starvation_free:
  assumes "N < 2 ^ 32" "\<forall>a \<in> set acts. spin_thread a < N" "spin_run acts spin_init = Some s" "sp_pc s t = S_Spin m"
    and "3 * N \<le> length rounds" "\<forall>r \<in> set rounds. (\<forall>a \<in> set r. spin_thread a < N) \<and> (\<forall>u < N. Step_Spin u False \<in> set r \<and> Call_Unlock u \<in> set r)"
  shows "\<exists>as bs s'. concat rounds = as @ bs \<and> spin_run as s = Some s' \<and> sp_pc s' t = S_Held"
proof -
  obtain q where q: "spin_queue s q" "set q \<subseteq> {..<N}"
    using spin_machine.run_ok [where N = N and as = acts and s = spin_init] assms(1-3) spin_init_inv [of N] by (auto simp: spin_inv_def)
  then have "t \<in> set q"
    using assms(4) by (fastforce simp: spin_queue_def)
  then obtain i where i: "i < length q" "q ! i = t"
    by (auto simp: in_set_conv_nth)
  have "length q \<le> N"
    using queue_bound [OF _ q(2)] q(1) by (auto simp: spin_queue_def)
  moreover have "3 * i + phase p < 3 * length q" for p
    using i(1) by (cases p) auto
  ultimately have n: "3 * i + phase (sp_pc s (hd q)) < length rounds"
    using assms(5) by (meson less_le_trans mult_le_mono2)
  let ?H = "{a. \<exists>u < N. a = Step_Spin u False \<or> a = Call_Unlock u}"
  have "a \<in> ?H" if w: "waits N t s n a" for s n a
  proof -
    obtain q where "set q \<subseteq> {..<N}" "q \<noteq> []" "a = front_act (hd q) (sp_pc s (hd q))"
      using w unfolding waits_def by fastforce
    then show ?thesis
      by (cases "sp_pc s (hd q)") (auto dest: hd_in_set)
  qed
  moreover have "?H \<subseteq> set r" if "r \<in> set rounds" for r
    using assms(6) that by auto
  ultimately have "reaches (\<lambda>b s. Some (spin_step b s)) (\<lambda>s. sp_pc s t = S_Held) (concat rounds) s"
    using assms(1,6) waitsI [OF q i assms(4)]
    by (intro spin_progress.rounds_reach [where N = N and t = t and rounds = rounds and H = ?H, OF _ n]) auto
  then show ?thesis
    unfolding reaches_def by blast
qed

theorem spinlock_starvation_free_witness:
  "\<exists>as bs s s'. spin_run [Call_Lock 0, Step_Spin 0 False, Call_Lock 1] spin_init = Some s \<and>
     concat (replicate 6 [Step_Spin 0 False, Step_Spin 1 False, Call_Unlock 0, Call_Unlock 1]) = as @ bs \<and> spin_run as s = Some s' \<and> sp_pc s' 1 = S_Held"
proof -
  let ?acts = "[Call_Lock 0, Step_Spin 0 False, Call_Lock 1]"
  have "map_option (\<lambda>s. sp_pc s 1) (spin_run ?acts spin_init) = Some (S_Spin 1)"
    by code_simp
  then obtain s where s: "spin_run ?acts spin_init = Some s" "sp_pc s 1 = S_Spin 1"
    by auto
  have "u < 2 \<longleftrightarrow> u = 0 \<or> u = 1" for u :: nat
    by auto
  then show ?thesis
    using spinlock_starvation_free [OF _ _ s, of 2 "replicate 6 [Step_Spin 0 False, Step_Spin 1 False, Call_Unlock 0, Call_Unlock 1]"] s(1)
    by (auto simp del: run_steps.simps)
qed

end
