(* ===== verification/Mpmc_Lifo.thy ===== *)
theory Mpmc_Lifo
  imports Mpsc_Fifo Step_Machine
begin

text \<open>
  \<open>include/mpmc_lifo.h\<close>: a stack whose head is paired with a counter, both replaced by one
  double-word compare-exchange.  The model is the interleaving of any number of pushing and popping
  threads at every shared memory operation.  Nodes that the clients own (never pushed, or popped)
  may be rewritten by them at any time, so that a popping thread may read a stale or arbitrary
  \<open>next\<close> field; nodes stay mapped, as the header assumes.  The log records the operations
  in the order of their linearisation points.
\<close>

record mpmc_lifo =
  lifo_counter :: "64 word"
  lifo_head :: addr

definition mpmc_lifo_init :: mpmc_lifo where
  "mpmc_lifo_init = \<lparr>lifo_counter = 0, lifo_head = NULL\<rparr>"

definition mpmc_lifo_destroy :: "mpsc_heap \<Rightarrow> mpmc_lifo \<Rightarrow> (mpsc_heap \<times> mpmc_lifo) option" where
  "mpmc_lifo_destroy h l =
     do { h' \<leftarrow> free_chain mn_next h (lifo_head l); Some (h', l\<lparr>lifo_head := NULL\<rparr>) }"

datatype lifo_pc =
    L_Idle
  | Push_Counter addr
  | Push_Head addr "64 word"
  | Push_Link addr mpmc_lifo
  | Push_Cas addr mpmc_lifo
  | Pop_Counter
  | Pop_Head "64 word"
  | Pop_Next mpmc_lifo
  | Pop_Cas mpmc_lifo addr

datatype lifo_event = Pushed addr | Popped addr | Found_Empty

record lifo_sys =
  ls_heap :: mpsc_heap
  ls_lifo :: mpmc_lifo
  ls_pc :: "nat \<Rightarrow> lifo_pc"
  ls_free :: "addr set"
  ls_log :: "lifo_event list"

text \<open>One atomic operation of \<open>mpmc_lifo_push\<close>, whose loop restarts at \<open>Push_Counter\<close>.\<close>

definition mpmc_lifo_push_step :: "nat \<Rightarrow> lifo_sys \<Rightarrow> lifo_sys option" where
  "mpmc_lifo_push_step t s =
     (case ls_pc s t of
        Push_Counter node \<Rightarrow>
          Some (s\<lparr>ls_pc := (ls_pc s)(t := Push_Head node (lifo_counter (ls_lifo s)))\<rparr>)
      | Push_Head node c \<Rightarrow>
          Some (s\<lparr>ls_pc := (ls_pc s)(t :=
                    Push_Link node \<lparr>lifo_counter = c, lifo_head = lifo_head (ls_lifo s)\<rparr>)\<rparr>)
      | Push_Link node snapshot \<Rightarrow>
          do { x \<leftarrow> load (ls_heap s) node;
               h' \<leftarrow> store (ls_heap s) node (x\<lparr>mn_next := lifo_head snapshot\<rparr>);
               Some (s\<lparr>ls_heap := h', ls_pc := (ls_pc s)(t := Push_Cas node snapshot)\<rparr>) }
      | Push_Cas node snapshot \<Rightarrow>
          (let temp = \<lparr>lifo_counter = lifo_counter snapshot + 1, lifo_head = node\<rparr>;
               (l', ok) = compare_and_swap2 (ls_lifo s) snapshot temp
           in if ok
              then Some (s\<lparr>ls_lifo := l', ls_pc := (ls_pc s)(t := L_Idle),
                           ls_log := ls_log s @ [Pushed node]\<rparr>)
              else Some (s\<lparr>ls_pc := (ls_pc s)(t := Push_Counter node)\<rparr>))
      | _ \<Rightarrow> Some s)"

text \<open>One atomic operation of \<open>mpmc_lifo_pop\<close>; the caller owns the node it returns.\<close>

definition mpmc_lifo_pop_step :: "nat \<Rightarrow> lifo_sys \<Rightarrow> lifo_sys option" where
  "mpmc_lifo_pop_step t s =
     (case ls_pc s t of
        Pop_Counter \<Rightarrow>
          Some (s\<lparr>ls_pc := (ls_pc s)(t := Pop_Head (lifo_counter (ls_lifo s)))\<rparr>)
      | Pop_Head c \<Rightarrow>
          (if lifo_head (ls_lifo s) = NULL
           then Some (s\<lparr>ls_pc := (ls_pc s)(t := L_Idle), ls_log := ls_log s @ [Found_Empty]\<rparr>)
           else Some (s\<lparr>ls_pc := (ls_pc s)(t :=
                          Pop_Next \<lparr>lifo_counter = c, lifo_head = lifo_head (ls_lifo s)\<rparr>)\<rparr>))
      | Pop_Next snapshot \<Rightarrow>
          do { x \<leftarrow> load (ls_heap s) (lifo_head snapshot);
               Some (s\<lparr>ls_pc := (ls_pc s)(t := Pop_Cas snapshot (mn_next x))\<rparr>) }
      | Pop_Cas snapshot nx \<Rightarrow>
          (let temp = \<lparr>lifo_counter = lifo_counter snapshot + 1, lifo_head = nx\<rparr>;
               (l', ok) = compare_and_swap2 (ls_lifo s) snapshot temp
           in if ok
              then Some (s\<lparr>ls_lifo := l', ls_pc := (ls_pc s)(t := L_Idle),
                           ls_free := insert (lifo_head snapshot) (ls_free s),
                           ls_log := ls_log s @ [Popped (lifo_head snapshot)]\<rparr>)
              else Some (s\<lparr>ls_pc := (ls_pc s)(t := Pop_Counter)\<rparr>))
      | _ \<Rightarrow> Some s)"

text \<open>The node that a pushing thread still owns.\<close>

fun pushing :: "lifo_pc \<Rightarrow> addr option" where
  "pushing (Push_Counter n) = Some n"
| "pushing (Push_Head n c) = Some n"
| "pushing (Push_Link n l) = Some n"
| "pushing (Push_Cas n l) = Some n"
| "pushing _ = None"

datatype lifo_act =
    Start_Lifo_Push nat addr
  | Start_Lifo_Pop nat
  | Step_Lifo nat
  | Client_Write addr mpsc_fifo_node

fun lifo_step :: "lifo_act \<Rightarrow> lifo_sys \<Rightarrow> lifo_sys option" where
  "lifo_step (Start_Lifo_Push t n) s =
     (if ls_pc s t = L_Idle \<and> n \<in> ls_free s
      then Some (s\<lparr>ls_pc := (ls_pc s)(t := Push_Counter n), ls_free := ls_free s - {n}\<rparr>) else Some s)"
| "lifo_step (Start_Lifo_Pop t) s =
     (if ls_pc s t = L_Idle then Some (s\<lparr>ls_pc := (ls_pc s)(t := Pop_Counter)\<rparr>) else Some s)"
| "lifo_step (Step_Lifo t) s =
     (if pushing (ls_pc s t) = None then mpmc_lifo_pop_step t s else mpmc_lifo_push_step t s)"
| "lifo_step (Client_Write n x) s =
     (if n \<in> ls_free s then do { h' \<leftarrow> store (ls_heap s) n x; Some (s\<lparr>ls_heap := h'\<rparr>) } else Some s)"

abbreviation lifo_run :: "lifo_act list \<Rightarrow> lifo_sys \<Rightarrow> lifo_sys option" where
  "lifo_run \<equiv> run_steps lifo_step"

definition lifo_sys_init :: "addr list \<Rightarrow> lifo_sys" where
  "lifo_sys_init ns =
     \<lparr>ls_heap = (\<lambda>p. if p \<in> set ns then Some \<lparr>mn_data = NULL, mn_next = NULL\<rparr> else None),
      ls_lifo = mpmc_lifo_init, ls_pc = (\<lambda>_. L_Idle), ls_free = set ns, ls_log = []\<rparr>"

text \<open>The abstract stack: a legal history and the contents it leaves.\<close>

fun stack_step :: "lifo_event \<Rightarrow> addr list \<Rightarrow> addr list option" where
  "stack_step (Pushed n) ns = (if n \<in> set ns then None else Some (n # ns))"
| "stack_step (Popped n) ns = (case ns of [] \<Rightarrow> None | m # ms \<Rightarrow> if m = n then Some ms else None)"
| "stack_step Found_Empty ns = (if ns = [] then Some ns else None)"

fun stack_run :: "lifo_event list \<Rightarrow> addr list \<Rightarrow> addr list option" where
  "stack_run [] ns = Some ns"
| "stack_run (e # es) ns = do { ns' \<leftarrow> stack_step e ns; stack_run es ns' }"

lemma stack_run_snoc: "stack_run (es @ [e]) ns = do { ns' \<leftarrow> stack_run es ns; stack_step e ns' }"
  by (induction es arbitrary: ns) (auto split: Option.bind_splits)

section \<open>The invariant\<close>

text \<open>
  A snapshot whose counter is current equals the head pair; if so, a popping thread that has read
  \<open>next\<close> read the field of the node that is still on top.
\<close>

definition snapshot_ok :: "mpmc_lifo \<Rightarrow> mpmc_lifo \<Rightarrow> bool" where
  "snapshot_ok l snap \<longleftrightarrow> unat (lifo_counter snap) \<le> unat (lifo_counter l) \<and>
     (lifo_counter snap = lifo_counter l \<longrightarrow> snap = l)"

definition next_is :: "mpsc_heap \<Rightarrow> addr \<Rightarrow> addr \<Rightarrow> bool" where
  "next_is h n m \<longleftrightarrow> (\<exists>x. h n = Some x \<and> mn_next x = m)"

fun lifo_pc_ok :: "mpsc_heap \<Rightarrow> mpmc_lifo \<Rightarrow> lifo_pc \<Rightarrow> bool" where
  "lifo_pc_ok h l (Push_Cas n snap) = next_is h n (lifo_head snap)"
| "lifo_pc_ok h l (Pop_Head c) = (unat c \<le> unat (lifo_counter l))"
| "lifo_pc_ok h l (Pop_Next snap) =
     (lifo_head snap \<noteq> NULL \<and> h (lifo_head snap) \<noteq> None \<and> snapshot_ok l snap)"
| "lifo_pc_ok h l (Pop_Cas snap nx) =
     (lifo_head snap \<noteq> NULL \<and> snapshot_ok l snap \<and> (snap = l \<longrightarrow> next_is h (lifo_head snap) nx))"
| "lifo_pc_ok h l _ = True"

definition pushing_unique :: "(nat \<Rightarrow> lifo_pc) \<Rightarrow> bool" where
  "pushing_unique pcs \<longleftrightarrow> (\<forall>t u n. pushing (pcs t) = Some n \<and> pushing (pcs u) = Some n \<longrightarrow> t = u)"

definition lifo_owned :: "lifo_sys \<Rightarrow> addr list \<Rightarrow> bool" where
  "lifo_owned s ns \<longleftrightarrow> pushing_unique (ls_pc s) \<and>
     (\<forall>t n. pushing (ls_pc s t) = Some n \<longrightarrow>
        n \<noteq> NULL \<and> n \<notin> set ns \<and> n \<notin> ls_free s \<and> ls_heap s n \<noteq> None) \<and>
     (\<forall>n \<in> ls_free s. n \<noteq> NULL \<and> n \<notin> set ns \<and> ls_heap s n \<noteq> None)"

definition lifo_inv :: "lifo_sys \<Rightarrow> addr list \<Rightarrow> bool" where
  "lifo_inv s ns \<longleftrightarrow>
     chain mn_next (ls_heap s) (lifo_head (ls_lifo s)) ns NULL \<and> distinct ns \<and> lifo_owned s ns \<and>
     (\<forall>t. lifo_pc_ok (ls_heap s) (ls_lifo s) (ls_pc s t)) \<and> stack_run (ls_log s) [] = Some ns"

lemma lifo_invD:
  assumes "lifo_inv s ns"
  shows "chain mn_next (ls_heap s) (lifo_head (ls_lifo s)) ns NULL" "distinct ns" "lifo_owned s ns"
    "lifo_pc_ok (ls_heap s) (ls_lifo s) (ls_pc s t)" "stack_run (ls_log s) [] = Some ns"
  using assms by (auto simp: lifo_inv_def)

lemma lifo_ownedD:
  assumes "lifo_owned s ns"
  shows "pushing (ls_pc s t) = Some n \<Longrightarrow> n \<noteq> NULL \<and> n \<notin> set ns \<and> n \<notin> ls_free s \<and> ls_heap s n \<noteq> None"
    and "pushing (ls_pc s t) = Some n \<Longrightarrow> pushing (ls_pc s u) = Some n \<Longrightarrow> t = u"
    and "n \<in> ls_free s \<Longrightarrow> n \<noteq> NULL \<and> n \<notin> set ns \<and> ls_heap s n \<noteq> None"
  using assms by (auto simp: lifo_owned_def pushing_unique_def)

text \<open>A winning compare-exchange makes every other snapshot stale.\<close>

lemma lifo_pc_ok_advance:
  assumes "lifo_pc_ok h l pc" "unat (lifo_counter l') = Suc (unat (lifo_counter l))"
  shows "lifo_pc_ok h l' pc"
proof -
  have "snapshot_ok l' snap" "snap \<noteq> l'" if "snapshot_ok l snap" for snap
    using that assms(2) by (auto simp: snapshot_ok_def)
  with assms show ?thesis by (cases pc) auto
qed

text \<open>Writing a node that is neither in the stack nor pushed by the thread does not disturb it.\<close>

lemma lifo_pc_ok_write:
  assumes "lifo_pc_ok h l pc" "chain mn_next h (lifo_head l) ns NULL" "n \<notin> set ns" "pushing pc \<noteq> Some n"
  shows "lifo_pc_ok (h(n \<mapsto> x)) l pc"
proof -
  have "lifo_head l \<noteq> n" if "lifo_head l \<noteq> NULL"
    using assms(2,3) that by (cases ns) auto
  with assms(1,4) show ?thesis by (cases pc) (auto simp: next_is_def)
qed

text \<open>A step that changes no more than the thread's own position.\<close>

lemma lifo_inv_pc:
  assumes "lifo_inv s ns" "lifo_pc_ok (ls_heap s) (ls_lifo s) pc" "pushing pc = pushing (ls_pc s t)"
  shows "lifo_inv (s\<lparr>ls_pc := (ls_pc s)(t := pc)\<rparr>) ns"
proof -
  have "pushing (((ls_pc s)(t := pc)) u) = pushing (ls_pc s u)" for u
    using assms(3) by simp
  with assms show ?thesis
    by (simp add: lifo_inv_def lifo_owned_def pushing_unique_def)
qed

lemma lifo_start_push_inv:
  assumes inv: "lifo_inv s ns" and idle: "ls_pc s t = L_Idle" and n: "n \<in> ls_free s"
  shows "lifo_inv (s\<lparr>ls_pc := (ls_pc s)(t := Push_Counter n), ls_free := ls_free s - {n}\<rparr>) ns"
proof -
  note o = lifo_invD(3) [OF inv]
  have "pushing (ls_pc s u) \<noteq> Some n" for u
    using lifo_ownedD(1) [OF o] n by blast
  then have "pushing_unique ((ls_pc s)(t := Push_Counter n))"
    using o by (auto simp: lifo_owned_def pushing_unique_def)
  with inv o n lifo_ownedD(3) [OF o n] show ?thesis
    unfolding lifo_inv_def lifo_owned_def by auto
qed

lemma lifo_write_inv:
  assumes inv: "lifo_inv s ns" and n: "n \<notin> set ns" and others: "\<And>u. u \<noteq> t \<Longrightarrow> pushing (ls_pc s u) \<noteq> Some n"
    and pc: "lifo_pc_ok ((ls_heap s)(n \<mapsto> x)) (ls_lifo s) pc" "pushing pc = pushing (ls_pc s t)"
  shows "lifo_inv (s\<lparr>ls_heap := (ls_heap s)(n \<mapsto> x), ls_pc := (ls_pc s)(t := pc)\<rparr>) ns"
proof -
  note d = lifo_invD [OF inv]
  have "pushing (((ls_pc s)(t := pc)) u) = pushing (ls_pc s u)" for u
    using pc(2) by simp
  then have "lifo_owned (s\<lparr>ls_heap := (ls_heap s)(n \<mapsto> x), ls_pc := (ls_pc s)(t := pc)\<rparr>) ns"
    using d(3) by (auto simp: lifo_owned_def pushing_unique_def)
  moreover have "chain mn_next ((ls_heap s)(n \<mapsto> x)) (lifo_head (ls_lifo s)) ns NULL"
    using d(1) n by simp
  moreover have "lifo_pc_ok ((ls_heap s)(n \<mapsto> x)) (ls_lifo s) (((ls_pc s)(t := pc)) u)" for u
    using pc(1) lifo_pc_ok_write [OF d(4) d(1) n] others by simp
  ultimately show ?thesis
    using d(2,5) by (simp add: lifo_inv_def del: fun_upd_apply)
qed

lemma lifo_push_cas_inv:
  assumes inv: "lifo_inv s ns" and pc: "ls_pc s t = Push_Cas n snap" and eq: "ls_lifo s = snap"
    and nowrap: "Suc (unat (lifo_counter snap)) < 2 ^ 64"
  shows "lifo_inv (s\<lparr>ls_lifo := \<lparr>lifo_counter = lifo_counter snap + 1, lifo_head = n\<rparr>,
                    ls_pc := (ls_pc s)(t := L_Idle), ls_log := ls_log s @ [Pushed n]\<rparr>) (n # ns)"
    (is "lifo_inv ?s' _")
proof -
  note d = lifo_invD [OF inv]
  have n: "n \<noteq> NULL" "n \<notin> set ns" "n \<notin> ls_free s"
    using lifo_ownedD(1) [OF d(3), of t n] pc by auto
  have nx: "next_is (ls_heap s) n (lifo_head snap)"
    using d(4) [of t] pc by simp
  have "chain mn_next (ls_heap s) n (n # ns) NULL"
    using d(1) nx n eq by (auto simp: next_is_def)
  moreover have "pushing (ls_pc s u) \<noteq> Some n" if "u \<noteq> t" for u
    using lifo_ownedD(2) [OF d(3), of t n u] pc that by auto
  then have "lifo_owned ?s' (n # ns)"
    using d(3) n pc by (auto simp: lifo_owned_def pushing_unique_def)
  moreover have "lifo_pc_ok (ls_heap s) (ls_lifo ?s') (ls_pc ?s' u)" for u
    using lifo_pc_ok_advance [OF d(4) [of u], of "ls_lifo ?s'"] unat_Suc64 [OF nowrap] eq by simp
  ultimately show ?thesis
    using d(2,5) n by (simp add: lifo_inv_def stack_run_snoc)
qed

lemma lifo_pop_cas_inv:
  assumes inv: "lifo_inv s ns" and pc: "ls_pc s t = Pop_Cas snap nx" and eq: "ls_lifo s = snap"
    and nowrap: "Suc (unat (lifo_counter snap)) < 2 ^ 64"
  shows "lifo_inv (s\<lparr>ls_lifo := \<lparr>lifo_counter = lifo_counter snap + 1, lifo_head = nx\<rparr>,
                    ls_pc := (ls_pc s)(t := L_Idle), ls_free := insert (lifo_head snap) (ls_free s),
                    ls_log := ls_log s @ [Popped (lifo_head snap)]\<rparr>) (tl ns)"
    (is "lifo_inv ?s' _")
proof -
  note d = lifo_invD [OF inv]
  have h: "lifo_head snap \<noteq> NULL" "next_is (ls_heap s) (lifo_head snap) nx"
    using d(4) [of t] pc eq by auto
  obtain ms where ns: "ns = lifo_head snap # ms"
    using d(1) h eq by (cases ns) auto
  have ch: "chain mn_next (ls_heap s) nx ms NULL"
    using d(1) h eq ns by (auto simp: next_is_def)
  have "lifo_owned ?s' ms"
    using d(2,3) ns pc h by (auto simp: lifo_owned_def pushing_unique_def next_is_def)
  moreover have "lifo_pc_ok (ls_heap s) (ls_lifo ?s') (ls_pc ?s' u)" for u
    using lifo_pc_ok_advance [OF d(4) [of u], of "ls_lifo ?s'"] unat_Suc64 [OF nowrap] eq by simp
  ultimately show ?thesis
    using d(2,5) ns ch by (simp add: lifo_inv_def stack_run_snoc)
qed

definition lifo_step_ok :: "lifo_sys \<Rightarrow> lifo_sys option \<Rightarrow> bool" where
  "lifo_step_ok s r \<longleftrightarrow> (\<exists>s' ns'. r = Some s' \<and> lifo_inv s' ns' \<and>
     unat (lifo_counter (ls_lifo s')) \<le> Suc (unat (lifo_counter (ls_lifo s))))"

lemma lifo_step_okI:
  "r = Some s' \<Longrightarrow> lifo_inv s' ns' \<Longrightarrow>
   unat (lifo_counter (ls_lifo s')) \<le> Suc (unat (lifo_counter (ls_lifo s))) \<Longrightarrow> lifo_step_ok s r"
  by (auto simp: lifo_step_ok_def)

lemma lifo_step_pcI:
  assumes "lifo_inv s ns" "r = Some (s\<lparr>ls_pc := (ls_pc s)(t := pc)\<rparr>)"
    "lifo_pc_ok (ls_heap s) (ls_lifo s) pc" "pushing pc = pushing (ls_pc s t)"
  shows "lifo_step_ok s r"
  using lifo_inv_pc [OF assms(1,3,4)] assms(2) by (intro lifo_step_okI) auto

lemma lifo_push_step_inv:
  assumes inv: "lifo_inv s ns" and nowrap: "Suc (unat (lifo_counter (ls_lifo s))) < 2 ^ 64"
  shows "lifo_step_ok s (mpmc_lifo_push_step t s)"
proof (cases "ls_pc s t")
  case (Push_Counter n)
  then show ?thesis
    by (intro lifo_step_pcI [OF inv, of _ t "Push_Head n (lifo_counter (ls_lifo s))"])
       (simp_all add: mpmc_lifo_push_step_def)
next
  case (Push_Head n c)
  then show ?thesis
    by (intro lifo_step_pcI [OF inv, of _ t "Push_Link n \<lparr>lifo_counter = c, lifo_head = lifo_head (ls_lifo s)\<rparr>"])
       (simp_all add: mpmc_lifo_push_step_def)
next
  case (Push_Link n snap)
  note o = lifo_invD(3) [OF inv]
  obtain x where x: "ls_heap s n = Some x" and n: "n \<noteq> NULL" "n \<notin> set ns"
    using lifo_ownedD(1) [OF o, of t n] Push_Link by auto
  have "pushing (ls_pc s u) \<noteq> Some n" if "u \<noteq> t" for u
    using lifo_ownedD(2) [OF o, of t n u] Push_Link that by auto
  then have "lifo_inv (s\<lparr>ls_heap := (ls_heap s)(n \<mapsto> x\<lparr>mn_next := lifo_head snap\<rparr>),
                          ls_pc := (ls_pc s)(t := Push_Cas n snap)\<rparr>) ns"
    using Push_Link n by (intro lifo_write_inv [OF inv]) (auto simp: next_is_def)
  then show ?thesis
    by (rule lifo_step_okI [rotated]) (use Push_Link x n in \<open>simp_all add: mpmc_lifo_push_step_def\<close>)
next
  case (Push_Cas n snap)
  show ?thesis
  proof (cases "ls_lifo s = snap")
    case True
    show ?thesis
      by (rule lifo_step_okI [OF _ lifo_push_cas_inv [OF inv Push_Cas True]])
         (use Push_Cas True nowrap unat_Suc64 [of "lifo_counter snap"]
          in \<open>simp_all add: mpmc_lifo_push_step_def compare_and_swap2_def\<close>)
  next
    case False
    then show ?thesis
      using Push_Cas
      by (intro lifo_step_pcI [OF inv, of _ t "Push_Counter n"]) (simp_all add: mpmc_lifo_push_step_def compare_and_swap2_def)
  qed
qed (use inv in \<open>auto simp: lifo_step_ok_def mpmc_lifo_push_step_def\<close>)

lemma lifo_pop_step_inv:
  assumes inv: "lifo_inv s ns" and nowrap: "Suc (unat (lifo_counter (ls_lifo s))) < 2 ^ 64"
  shows "lifo_step_ok s (mpmc_lifo_pop_step t s)"
proof (cases "ls_pc s t")
  case Pop_Counter
  then show ?thesis
    by (intro lifo_step_pcI [OF inv, of _ t "Pop_Head (lifo_counter (ls_lifo s))"])
       (simp_all add: mpmc_lifo_pop_step_def)
next
  case (Pop_Head c)
  note d = lifo_invD [OF inv]
  show ?thesis
  proof (cases "lifo_head (ls_lifo s) = NULL")
    case True
    then have "ns = []"
      using d(1) by (cases ns) auto
    then have "lifo_inv (s\<lparr>ls_pc := (ls_pc s)(t := L_Idle), ls_log := ls_log s @ [Found_Empty]\<rparr>) ns"
      using lifo_inv_pc [OF inv, of L_Idle t] Pop_Head d(5)
      by (simp add: lifo_inv_def lifo_owned_def stack_run_snoc)
    then show ?thesis
      by (rule lifo_step_okI [rotated]) (use Pop_Head True in \<open>simp_all add: mpmc_lifo_pop_step_def\<close>)
  next
    case False
    have "ls_heap s (lifo_head (ls_lifo s)) \<noteq> None"
      using d(1) False by (cases ns) (auto split: option.splits)
    then show ?thesis
      using Pop_Head False d(4) [of t]
      by (intro lifo_step_pcI [OF inv, of _ t "Pop_Next \<lparr>lifo_counter = c, lifo_head = lifo_head (ls_lifo s)\<rparr>"])
         (simp_all add: mpmc_lifo_pop_step_def snapshot_ok_def)
  qed
next
  case (Pop_Next snap)
  then obtain x where x: "ls_heap s (lifo_head snap) = Some x" "lifo_head snap \<noteq> NULL"
    and ok: "snapshot_ok (ls_lifo s) snap"
    using lifo_invD(4) [OF inv, of t] by auto
  then show ?thesis
    using Pop_Next
    by (intro lifo_step_pcI [OF inv, of _ t "Pop_Cas snap (mn_next x)"]) (auto simp: mpmc_lifo_pop_step_def next_is_def)
next
  case (Pop_Cas snap nx)
  show ?thesis
  proof (cases "ls_lifo s = snap")
    case True
    show ?thesis
      by (rule lifo_step_okI [OF _ lifo_pop_cas_inv [OF inv Pop_Cas True]])
         (use Pop_Cas True nowrap unat_Suc64 [of "lifo_counter snap"]
          in \<open>simp_all add: mpmc_lifo_pop_step_def compare_and_swap2_def\<close>)
  next
    case False
    then show ?thesis
      using Pop_Cas
      by (intro lifo_step_pcI [OF inv, of _ t Pop_Counter]) (simp_all add: mpmc_lifo_pop_step_def compare_and_swap2_def)
  qed
qed (use inv in \<open>auto simp: lifo_step_ok_def mpmc_lifo_pop_step_def\<close>)

lemma lifo_step_inv:
  assumes inv: "lifo_inv s ns" and nowrap: "Suc (unat (lifo_counter (ls_lifo s))) < 2 ^ 64"
  shows "lifo_step_ok s (lifo_step a s)"
proof (cases a)
  case (Start_Lifo_Push t n)
  then show ?thesis
    using inv lifo_start_push_inv [OF inv, of t n] by (auto simp: lifo_step_ok_def)
next
  case (Start_Lifo_Pop t)
  then show ?thesis
    using inv lifo_inv_pc [OF inv, of Pop_Counter t] by (auto simp: lifo_step_ok_def)
next
  case (Step_Lifo t)
  then show ?thesis
    using lifo_push_step_inv [OF assms] lifo_pop_step_inv [OF assms] by simp
next
  case (Client_Write n x)
  show ?thesis
  proof (cases "n \<in> ls_free s")
    case True
    note o = lifo_invD(3) [OF inv]
    have n: "n \<noteq> NULL" "n \<notin> set ns" "ls_heap s n \<noteq> None"
      using lifo_ownedD(3) [OF o True] by auto
    have un: "pushing (ls_pc s u) \<noteq> Some n" for u
      using lifo_ownedD(1) [OF o] True by blast
    have "lifo_inv (s\<lparr>ls_heap := (ls_heap s)(n \<mapsto> x), ls_pc := (ls_pc s)(0 := ls_pc s 0)\<rparr>) ns"
      using lifo_pc_ok_write [OF lifo_invD(4) [OF inv, of 0] lifo_invD(1) [OF inv] n(2) un]
      by (intro lifo_write_inv [OF inv n(2) un]) auto
    then have "lifo_inv (s\<lparr>ls_heap := (ls_heap s)(n \<mapsto> x)\<rparr>) ns"
      by simp
    then show ?thesis
      by (rule lifo_step_okI [rotated]) (use Client_Write True n in \<open>simp_all add: store_def\<close>)
  qed (use inv Client_Write in \<open>auto simp: lifo_step_ok_def\<close>)
qed

interpretation lifo_machine: machine lifo_step "\<lambda>_. True"
  "\<lambda>k s. (\<exists>ns. lifo_inv s ns) \<and> unat (lifo_counter (ls_lifo s)) + k < 2 ^ 64"
proof (unfold_locales, goal_cases)
  case (1 k s a)
  then obtain ns where "lifo_inv s ns" by blast
  with 1 lifo_step_inv [of s ns a] show ?case by (auto simp: lifo_step_ok_def)
qed

lemma lifo_sys_init_inv: "NULL \<notin> set ns \<Longrightarrow> lifo_inv (lifo_sys_init ns) []"
  by (auto simp: lifo_inv_def lifo_sys_init_def mpmc_lifo_init_def lifo_owned_def pushing_unique_def
      intro: gr0I)

section \<open>Properties\<close>

text \<open>C20. Any number of threads push and pop on \<open>mpmc_lifo\<close> while clients rewrite the nodes they own:
  every schedule shorter than \<open>2 ^ 64\<close> runs without a fault and its linearisation points form a legal
  history of a stack, whose contents are the chain from the head.  A popped node that is pushed again
  does not confuse a thread that holds an old snapshot, because the counter has moved.\<close>

theorem mpmc_lifo_linearizable:
  assumes "NULL \<notin> set ns" "length acts < 2 ^ 64"
  shows "\<exists>s ms. lifo_run acts (lifo_sys_init ns) = Some s \<and> Mpmc_Lifo.stack_run (ls_log s) [] = Some ms \<and>
     chain mn_next (ls_heap s) (lifo_head (ls_lifo s)) ms NULL \<and> distinct ms"
proof -
  have "(\<exists>ms. lifo_inv (lifo_sys_init ns) ms) \<and>
      unat (lifo_counter (ls_lifo (lifo_sys_init ns))) + length acts < 2 ^ 64"
    using lifo_sys_init_inv [OF assms(1)] assms(2)
    by (auto simp: lifo_sys_init_def mpmc_lifo_init_def)
  from lifo_machine.run_ok [OF this] show ?thesis
    by (auto simp: lifo_inv_def)
qed

theorem mpmc_lifo_linearizable_witness:
  "\<exists>s ms. lifo_run [Start_Lifo_Push 0 1, Step_Lifo 0, Step_Lifo 0, Step_Lifo 0, Step_Lifo 0, Start_Lifo_Pop 1,
                     Step_Lifo 1, Step_Lifo 1, Step_Lifo 1, Step_Lifo 1] (lifo_sys_init [1, 2]) = Some s \<and>
     Mpmc_Lifo.stack_run (ls_log s) [] = Some ms"
  using mpmc_lifo_linearizable [of "[1, 2]" "[Start_Lifo_Push 0 1, Step_Lifo 0, Step_Lifo 0, Step_Lifo 0,
    Step_Lifo 0, Start_Lifo_Pop 1, Step_Lifo 1, Step_Lifo 1, Step_Lifo 1, Step_Lifo 1]"] by fastforce

end
