(* ===== verification/Mpmc_Stack.thy ===== *)
theory Mpmc_Stack
  imports Step_Machine
begin

text \<open>
  \<open>include/mpmc_stack.h\<close>: producers push single nodes with a compare-exchange of the head, consumers
  take the whole stack with one exchange and reverse it when they want the order of the pushes.
  Pushers and flushers are interleaved at every shared memory operation; \<open>mpmc_stack_reverse\<close> works
  on a chain that its caller owns and is a sequential loop.
\<close>

record mpmc_stack_node =
  st_next :: addr
  st_data :: addr

type_synonym stack_heap = "mpmc_stack_node heap"

record mpmc_stack =
  st_head :: addr

definition mpmc_stack_init :: mpmc_stack where
  "mpmc_stack_init = \<lparr>st_head = NULL\<rparr>"

definition mpmc_stack_node_init :: "stack_heap \<Rightarrow> addr \<Rightarrow> addr \<Rightarrow> stack_heap option" where
  "mpmc_stack_node_init h n d = do { x \<leftarrow> load h n; store h n (x\<lparr>st_data := d\<rparr>) }"

definition mpmc_stack_node_get_data :: "stack_heap \<Rightarrow> addr \<Rightarrow> addr option" where
  "mpmc_stack_node_get_data h n = do { x \<leftarrow> load h n; Some (st_data x) }"

definition mpmc_stack_lifo_flush :: "mpmc_stack \<Rightarrow> mpmc_stack \<times> addr" where
  "mpmc_stack_lifo_flush q = (q\<lparr>st_head := NULL\<rparr>, st_head q)"

partial_function (option) reverse_loop :: "stack_heap \<Rightarrow> addr \<Rightarrow> addr \<Rightarrow> (stack_heap \<times> addr) option" where
  "reverse_loop h hd_node fifo =
     (if hd_node = NULL then Some (h, fifo)
      else do { x \<leftarrow> load h hd_node;
                h' \<leftarrow> store h hd_node (x\<lparr>st_next := fifo\<rparr>);
                reverse_loop h' (st_next x) hd_node })"

definition mpmc_stack_reverse :: "stack_heap \<Rightarrow> addr \<Rightarrow> (stack_heap \<times> addr) option" where
  "mpmc_stack_reverse h hd_node = reverse_loop h hd_node NULL"

definition mpmc_stack_fifo_flush ::
  "stack_heap \<Rightarrow> mpmc_stack \<Rightarrow> (stack_heap \<times> mpmc_stack \<times> addr) option" where
  "mpmc_stack_fifo_flush h q =
     (let (q', old) = mpmc_stack_lifo_flush q
      in do { (h', fifo) \<leftarrow> mpmc_stack_reverse h old; Some (h', q', fifo) })"

section \<open>Reversal\<close>

lemma reverse_loop_chain:
  "chain st_next h p ns NULL \<Longrightarrow> chain st_next h q ms NULL \<Longrightarrow> distinct (ns @ ms) \<Longrightarrow>
   \<exists>h' r. reverse_loop h p q = Some (h', r) \<and> chain st_next h' r (rev ns @ ms) NULL \<and>
          (\<forall>a. a \<notin> set ns \<longrightarrow> h' a = h a) \<and>
          (\<forall>a. map_option st_data (h' a) = map_option st_data (h a))"
proof (induction ns arbitrary: h p q ms)
  case Nil
  then show ?case by (auto simp: reverse_loop.simps)
next
  case (Cons n ns)
  then obtain x where x: "h n = Some x" and n: "p = n" "n \<noteq> NULL"
    and ch: "chain st_next h (st_next x) ns NULL"
    by (auto split: option.splits)
  let ?h = "h(n \<mapsto> x\<lparr>st_next := q\<rparr>)"
  have fresh: "n \<notin> set ns" "n \<notin> set ms" using Cons.prems(3) by auto
  have "chain st_next ?h (st_next x) ns NULL"
    using ch fresh(1) by simp
  moreover have "chain st_next ?h n (n # ms) NULL"
    using Cons.prems(2) fresh(2) n by simp
  ultimately obtain h' r where r: "reverse_loop ?h (st_next x) n = Some (h', r)"
      "chain st_next h' r (rev ns @ n # ms) NULL" "\<forall>a. a \<notin> set ns \<longrightarrow> h' a = ?h a"
      "\<forall>a. map_option st_data (h' a) = map_option st_data (?h a)"
    using Cons.IH [of ?h "st_next x" n "n # ms"] Cons.prems(3) by (auto simp del: fun_upd_apply)
  have "reverse_loop h p q = Some (h', r)"
    using x n r(1) by (subst reverse_loop.simps) simp
  with r x show ?case by auto
qed

lemma mpmc_stack_reverse_chain:
  assumes "chain st_next h p ns NULL" "distinct ns"
  shows "\<exists>h' r. mpmc_stack_reverse h p = Some (h', r) \<and> chain st_next h' r (rev ns) NULL \<and>
                (\<forall>a. a \<notin> set ns \<longrightarrow> h' a = h a) \<and>
                (\<forall>a. map_option st_data (h' a) = map_option st_data (h a))"
  using reverse_loop_chain [of h p ns NULL "[]"] assms by (simp add: mpmc_stack_reverse_def)

section \<open>Concurrent pushes and flushes\<close>

text \<open>
  The position of a pushing thread carries its node, the head it has read and, for
  \<open>mpmc_stack_push_timeout\<close>, the remaining tries; \<open>None\<close> is the unbounded \<open>mpmc_stack_push\<close>.
  \<open>ss_items\<close>, \<open>ss_pushed\<close> and \<open>ss_flushed\<close> are history: the nodes in the stack, the nodes in the
  order of their successful compare-exchanges, and what each flush took (newest first).
\<close>

datatype stack_pc =
    St_Idle
  | St_Load addr "64 word option"
  | St_Write addr addr "64 word option"
  | St_Cas addr addr "64 word option"

record stack_sys =
  ss_heap :: stack_heap
  ss_stack :: mpmc_stack
  ss_pc :: "nat \<Rightarrow> stack_pc"
  ss_free :: "addr set"
  ss_items :: "addr list"
  ss_pushed :: "addr list"
  ss_flushed :: "addr list list"
  ss_result :: "nat \<Rightarrow> int"

definition MPMC_RETRY :: int where "MPMC_RETRY = 0"
definition MPMC_SUCCESS :: int where "MPMC_SUCCESS = 1"

text \<open>
  One atomic operation of a push; the boolean is a spurious failure of the weak compare-exchange,
  which reloads the head like a real one.
\<close>

definition mpmc_stack_push_step :: "nat \<Rightarrow> bool \<Rightarrow> stack_sys \<Rightarrow> stack_sys option" where
  "mpmc_stack_push_step t spurious s =
     (case ss_pc s t of
        St_Idle \<Rightarrow> Some s
      | St_Load n k \<Rightarrow> Some (s\<lparr>ss_pc := (ss_pc s)(t := St_Write n (st_head (ss_stack s)) k)\<rparr>)
      | St_Write n hd_node k \<Rightarrow>
          do { x \<leftarrow> load (ss_heap s) n;
               h' \<leftarrow> store (ss_heap s) n (x\<lparr>st_next := hd_node\<rparr>);
               Some (s\<lparr>ss_heap := h', ss_pc := (ss_pc s)(t := St_Cas n hd_node k)\<rparr>) }
      | St_Cas n hd_node k \<Rightarrow>
          (if st_head (ss_stack s) = hd_node \<and> \<not> spurious
           then Some (s\<lparr>ss_stack := (ss_stack s)\<lparr>st_head := n\<rparr>, ss_pc := (ss_pc s)(t := St_Idle),
                        ss_items := n # ss_items s, ss_pushed := ss_pushed s @ [n],
                        ss_result := (ss_result s)(t := MPMC_SUCCESS)\<rparr>)
           else case k of
                  None \<Rightarrow> Some (s\<lparr>ss_pc := (ss_pc s)(t := St_Write n (st_head (ss_stack s)) None)\<rparr>)
                | Some tries \<Rightarrow>
                    if tries - 1 > 0
                    then Some (s\<lparr>ss_pc := (ss_pc s)(t :=
                                   St_Write n (st_head (ss_stack s)) (Some (tries - 1)))\<rparr>)
                    else Some (s\<lparr>ss_pc := (ss_pc s)(t := St_Idle), ss_free := insert n (ss_free s),
                                 ss_result := (ss_result s)(t := MPMC_RETRY)\<rparr>)))"

definition stack_flush_step :: "stack_sys \<Rightarrow> stack_sys" where
  "stack_flush_step s =
     s\<lparr>ss_stack := fst (mpmc_stack_lifo_flush (ss_stack s)), ss_items := [],
       ss_free := ss_free s \<union> set (ss_items s), ss_flushed := ss_flushed s @ [ss_items s]\<rparr>"

datatype stack_act =
    Start_Stack_Push nat addr "64 word option"
  | Step_Stack nat bool
  | Flush
  | Owner_Write addr mpmc_stack_node

fun mpmc_stack_step :: "stack_act \<Rightarrow> stack_sys \<Rightarrow> stack_sys option" where
  "mpmc_stack_step (Start_Stack_Push t n k) s =
     (if ss_pc s t = St_Idle \<and> n \<in> ss_free s
      then Some (s\<lparr>ss_pc := (ss_pc s)(t := St_Load n k), ss_free := ss_free s - {n}\<rparr>) else Some s)"
| "mpmc_stack_step (Step_Stack t sp) s = mpmc_stack_push_step t sp s"
| "mpmc_stack_step Flush s = Some (stack_flush_step s)"
| "mpmc_stack_step (Owner_Write n x) s =
     (if n \<in> ss_free s then do { h' \<leftarrow> store (ss_heap s) n x; Some (s\<lparr>ss_heap := h'\<rparr>) } else Some s)"

abbreviation mpmc_stack_run :: "stack_act list \<Rightarrow> stack_sys \<Rightarrow> stack_sys option" where
  "mpmc_stack_run \<equiv> run_steps mpmc_stack_step"

definition stack_sys_init :: "addr list \<Rightarrow> stack_sys" where
  "stack_sys_init ns =
     \<lparr>ss_heap = (\<lambda>p. if p \<in> set ns then Some \<lparr>st_next = NULL, st_data = NULL\<rparr> else None),
      ss_stack = mpmc_stack_init, ss_pc = (\<lambda>_. St_Idle), ss_free = set ns, ss_items = [],
      ss_pushed = [], ss_flushed = [], ss_result = (\<lambda>_. 0)\<rparr>"

section \<open>The invariant\<close>

fun st_node :: "stack_pc \<Rightarrow> addr option" where
  "st_node St_Idle = None"
| "st_node (St_Load n k) = Some n"
| "st_node (St_Write n p k) = Some n"
| "st_node (St_Cas n p k) = Some n"

definition st_pc_ok :: "stack_heap \<Rightarrow> stack_pc \<Rightarrow> bool" where
  "st_pc_ok h pc = (case pc of St_Cas n p k \<Rightarrow> map_option st_next (h n) = Some p | _ \<Rightarrow> True)"

definition st_node_unique :: "(nat \<Rightarrow> stack_pc) \<Rightarrow> bool" where
  "st_node_unique pcs \<longleftrightarrow> (\<forall>t u n. st_node (pcs t) = Some n \<and> st_node (pcs u) = Some n \<longrightarrow> t = u)"

definition st_owned :: "stack_sys \<Rightarrow> bool" where
  "st_owned s \<longleftrightarrow> st_node_unique (ss_pc s) \<and>
     (\<forall>t n. st_node (ss_pc s t) = Some n \<longrightarrow>
        n \<noteq> NULL \<and> n \<notin> set (ss_items s) \<and> n \<notin> ss_free s \<and> ss_heap s n \<noteq> None) \<and>
     (\<forall>n \<in> ss_free s. n \<noteq> NULL \<and> n \<notin> set (ss_items s) \<and> ss_heap s n \<noteq> None)"

definition stack_inv :: "stack_sys \<Rightarrow> bool" where
  "stack_inv s \<longleftrightarrow>
     chain st_next (ss_heap s) (st_head (ss_stack s)) (ss_items s) NULL \<and> distinct (ss_items s) \<and>
     st_owned s \<and> (\<forall>t. st_pc_ok (ss_heap s) (ss_pc s t)) \<and>
     ss_pushed s = concat (map rev (ss_flushed s)) @ rev (ss_items s)"

lemma stack_invD:
  assumes "stack_inv s"
  shows "chain st_next (ss_heap s) (st_head (ss_stack s)) (ss_items s) NULL" "distinct (ss_items s)"
    "st_owned s" "st_pc_ok (ss_heap s) (ss_pc s t)"
    "ss_pushed s = concat (map rev (ss_flushed s)) @ rev (ss_items s)"
  using assms by (auto simp: stack_inv_def)

lemma st_ownedD:
  assumes "st_owned s"
  shows "st_node (ss_pc s t) = Some n \<Longrightarrow> n \<noteq> NULL \<and> n \<notin> set (ss_items s) \<and> n \<notin> ss_free s \<and> ss_heap s n \<noteq> None"
    and "st_node (ss_pc s t) = Some n \<Longrightarrow> st_node (ss_pc s u) = Some n \<Longrightarrow> t = u"
    and "n \<in> ss_free s \<Longrightarrow> n \<noteq> NULL \<and> n \<notin> set (ss_items s) \<and> ss_heap s n \<noteq> None"
  using assms by (auto simp: st_owned_def st_node_unique_def)

lemma st_pc_ok_write: "st_pc_ok h pc \<Longrightarrow> st_node pc \<noteq> Some n \<Longrightarrow> st_pc_ok (h(n \<mapsto> x)) pc"
  by (cases pc) (auto simp: st_pc_ok_def)

lemma stack_inv_pc:
  assumes "stack_inv s" "st_pc_ok (ss_heap s) pc" "st_node pc = st_node (ss_pc s t)"
  shows "stack_inv (s\<lparr>ss_pc := (ss_pc s)(t := pc)\<rparr>)"
proof -
  have "st_node (((ss_pc s)(t := pc)) u) = st_node (ss_pc s u)" for u
    using assms(3) by simp
  with assms show ?thesis
    by (simp add: stack_inv_def st_owned_def st_node_unique_def)
qed

lemma stack_write_inv:
  assumes inv: "stack_inv s" and n: "n \<notin> set (ss_items s)"
    and others: "\<And>u. u \<noteq> t \<Longrightarrow> st_node (ss_pc s u) \<noteq> Some n"
    and pc: "st_pc_ok ((ss_heap s)(n \<mapsto> x)) pc" "st_node pc = st_node (ss_pc s t)"
  shows "stack_inv (s\<lparr>ss_heap := (ss_heap s)(n \<mapsto> x), ss_pc := (ss_pc s)(t := pc)\<rparr>)"
proof -
  note d = stack_invD [OF inv]
  have "st_node (((ss_pc s)(t := pc)) u) = st_node (ss_pc s u)" for u
    using pc(2) by simp
  then have "st_owned (s\<lparr>ss_heap := (ss_heap s)(n \<mapsto> x), ss_pc := (ss_pc s)(t := pc)\<rparr>)"
    using d(3) by (auto simp: st_owned_def st_node_unique_def)
  moreover have "st_pc_ok ((ss_heap s)(n \<mapsto> x)) (((ss_pc s)(t := pc)) u)" for u
    using pc(1) st_pc_ok_write [OF d(4)] others by simp
  ultimately show ?thesis
    using d(1,2,5) n by (simp add: stack_inv_def del: fun_upd_apply)
qed

lemma stack_cas_inv:
  assumes inv: "stack_inv s" and pc: "ss_pc s t = St_Cas n p k" and eq: "st_head (ss_stack s) = p"
  shows "stack_inv (s\<lparr>ss_stack := (ss_stack s)\<lparr>st_head := n\<rparr>, ss_pc := (ss_pc s)(t := St_Idle),
                     ss_items := n # ss_items s, ss_pushed := ss_pushed s @ [n],
                     ss_result := (ss_result s)(t := r)\<rparr>)" (is "stack_inv ?s'")
proof -
  note d = stack_invD [OF inv]
  have n: "n \<noteq> NULL" "n \<notin> set (ss_items s)" "n \<notin> ss_free s"
    using st_ownedD(1) [OF d(3), of t n] pc by auto
  have "map_option st_next (ss_heap s n) = Some p"
    using d(4) [of t] pc by (simp add: st_pc_ok_def)
  then have "chain st_next (ss_heap s) n (n # ss_items s) NULL"
    using d(1) n eq by auto
  moreover have "st_node (ss_pc s u) \<noteq> Some n" if "u \<noteq> t" for u
    using st_ownedD(2) [OF d(3), of t n u] pc that by auto
  then have "st_owned ?s'"
    using d(3) n pc by (auto simp: st_owned_def st_node_unique_def)
  ultimately show ?thesis
    using d(2,4,5) n by (simp add: stack_inv_def st_pc_ok_def)
qed

lemma stack_retry_inv:
  assumes inv: "stack_inv s" and pc: "ss_pc s t = St_Cas n p k"
  shows "stack_inv (s\<lparr>ss_pc := (ss_pc s)(t := St_Idle), ss_free := insert n (ss_free s),
                     ss_result := (ss_result s)(t := r)\<rparr>)" (is "stack_inv ?s'")
proof -
  note d = stack_invD [OF inv]
  have n: "n \<noteq> NULL" "n \<notin> set (ss_items s)" "ss_heap s n \<noteq> None"
    using st_ownedD(1) [OF d(3), of t n] pc by auto
  have "st_node (ss_pc s u) \<noteq> Some n" if "u \<noteq> t" for u
    using st_ownedD(2) [OF d(3), of t n u] pc that by auto
  then have "st_owned ?s'"
    using d(3) n pc by (auto simp: st_owned_def st_node_unique_def)
  then show ?thesis
    using d(1,2,4,5) by (simp add: stack_inv_def st_pc_ok_def)
qed

lemma stack_push_step_inv:
  assumes inv: "stack_inv s"
  shows "\<exists>s'. mpmc_stack_push_step t sp s = Some s' \<and> stack_inv s'"
proof (cases "ss_pc s t")
  case St_Idle
  with inv show ?thesis by (simp add: mpmc_stack_push_step_def)
next
  case (St_Load n k)
  with stack_inv_pc [OF inv, of "St_Write n (st_head (ss_stack s)) k" t] show ?thesis
    by (simp add: mpmc_stack_push_step_def st_pc_ok_def)
next
  case (St_Write n p k)
  note o = stack_invD(3) [OF inv]
  obtain x where x: "ss_heap s n = Some x" and n: "n \<noteq> NULL" "n \<notin> set (ss_items s)"
    using st_ownedD(1) [OF o, of t n] St_Write by auto
  have "st_node (ss_pc s u) \<noteq> Some n" if "u \<noteq> t" for u
    using st_ownedD(2) [OF o, of t n u] St_Write that by auto
  then have "stack_inv (s\<lparr>ss_heap := (ss_heap s)(n \<mapsto> x\<lparr>st_next := p\<rparr>),
                          ss_pc := (ss_pc s)(t := St_Cas n p k)\<rparr>)"
    using St_Write n by (intro stack_write_inv [OF inv]) (auto simp: st_pc_ok_def)
  with St_Write x n show ?thesis
    by (simp add: mpmc_stack_push_step_def)
next
  case (St_Cas n p k)
  have retry: "stack_inv (s\<lparr>ss_pc := (ss_pc s)(t := St_Write n q j)\<rparr>)" for q j
    using stack_inv_pc [OF inv, of "St_Write n q j" t] St_Cas by (simp add: st_pc_ok_def)
  show ?thesis
    using St_Cas retry stack_cas_inv [OF inv St_Cas] stack_retry_inv [OF inv St_Cas]
    by (auto simp: mpmc_stack_push_step_def split: option.splits)
qed

lemma stack_flush_inv:
  assumes inv: "stack_inv s"
  shows "stack_inv (stack_flush_step s)"
proof -
  note d = stack_invD [OF inv]
  have "\<forall>n \<in> set (ss_items s). n \<noteq> NULL \<and> ss_heap s n \<noteq> None"
    using chain_alloc [OF d(1)] chain_not_NULL [OF d(1)] by (metis option.distinct(1))
  then have "st_owned (stack_flush_step s)"
    using d(3) by (auto simp: st_owned_def stack_flush_step_def)
  then show ?thesis
    using d by (simp add: stack_inv_def stack_flush_step_def mpmc_stack_lifo_flush_def)
qed

lemma mpmc_stack_step_inv:
  assumes inv: "stack_inv s"
  shows "\<exists>s'. mpmc_stack_step a s = Some s' \<and> stack_inv s'"
proof (cases a)
  case (Start_Stack_Push t n k)
  note o = stack_invD(3) [OF inv]
  have "stack_inv (s\<lparr>ss_pc := (ss_pc s)(t := St_Load n k), ss_free := ss_free s - {n}\<rparr>)"
    if "ss_pc s t = St_Idle" "n \<in> ss_free s"
  proof -
    have "st_node (ss_pc s u) \<noteq> Some n" for u
      using st_ownedD(1) [OF o] that by blast
    then have "st_node_unique ((ss_pc s)(t := St_Load n k))"
      using o by (auto simp: st_owned_def st_node_unique_def)
    with inv o that st_ownedD(3) [OF o that(2)] show ?thesis
      unfolding stack_inv_def st_owned_def by (auto simp: st_pc_ok_def)
  qed
  with inv Start_Stack_Push show ?thesis by auto
next
  case (Step_Stack t sp)
  with stack_push_step_inv [OF inv] show ?thesis by simp
next
  case Flush
  with stack_flush_inv [OF inv] show ?thesis by simp
next
  case (Owner_Write n x)
  show ?thesis
  proof (cases "n \<in> ss_free s")
    case True
    note o = stack_invD(3) [OF inv]
    have n: "n \<noteq> NULL" "n \<notin> set (ss_items s)" "ss_heap s n \<noteq> None"
      using st_ownedD(3) [OF o True] by auto
    have un: "st_node (ss_pc s u) \<noteq> Some n" for u
      using st_ownedD(1) [OF o] True by blast
    have "stack_inv (s\<lparr>ss_heap := (ss_heap s)(n \<mapsto> x), ss_pc := (ss_pc s)(0 := ss_pc s 0)\<rparr>)"
      using st_pc_ok_write [OF stack_invD(4) [OF inv, of 0] un]
      by (intro stack_write_inv [OF inv n(2) un]) auto
    with Owner_Write True n show ?thesis by (simp add: store_def)
  qed (use inv Owner_Write in auto)
qed

interpretation stack_machine: machine mpmc_stack_step "\<lambda>_. True" "\<lambda>_. stack_inv"
  by unfold_locales (rule mpmc_stack_step_inv)

lemma stack_sys_init_inv: "NULL \<notin> set ns \<Longrightarrow> stack_inv (stack_sys_init ns)"
  by (auto simp: stack_inv_def stack_sys_init_def mpmc_stack_init_def st_owned_def st_node_unique_def
      st_pc_ok_def intro: gr0I)

section \<open>Properties\<close>

text \<open>Any number of pushers, with or without a bound on their tries, and any number of flushers: no
  schedule faults, and the flushes together with the nodes still in the stack are exactly the nodes
  pushed, in order: each flush takes everything pushed since the previous one, newest first.\<close>

theorem mpmc_stack_flushes_all:
  assumes "NULL \<notin> set ns"
  shows "\<exists>s. mpmc_stack_run acts (stack_sys_init ns) = Some s \<and>
     ss_pushed s = concat (map rev (ss_flushed s)) @ rev (ss_items s) \<and>
     chain st_next (ss_heap s) (st_head (ss_stack s)) (ss_items s) NULL"
  using stack_machine.run_ok [where as = acts and s = "stack_sys_init ns"] stack_sys_init_inv [OF assms] by (auto simp: stack_inv_def)

theorem mpmc_stack_flushes_all_witness:
  "\<exists>s. mpmc_stack_run [Start_Stack_Push 0 1 None, Step_Stack 0 False, Step_Stack 0 False, Step_Stack 0 True,
                        Step_Stack 0 False, Step_Stack 0 False, Flush] (stack_sys_init [1, 2]) = Some s \<and>
     ss_pushed s = concat (map rev (ss_flushed s)) @ rev (ss_items s)"
  using mpmc_stack_flushes_all [of "[1, 2]" "[Start_Stack_Push 0 1 None, Step_Stack 0 False, Step_Stack 0 False,
    Step_Stack 0 True, Step_Stack 0 False, Step_Stack 0 False, Flush]"] by auto

text \<open>\<open>mpmc_stack_fifo_flush\<close> empties the stack and returns its nodes linked in the order of the
  pushes; the loop ends, the data of the nodes is unchanged and no other cell is written.\<close>

theorem mpmc_stack_fifo_flush_reverses:
  assumes "chain st_next h (st_head q) ns NULL" "distinct ns"
  shows "\<exists>h' q' r. mpmc_stack_fifo_flush h q = Some (h', q', r) \<and> st_head q' = NULL \<and>
     chain st_next h' r (rev ns) NULL \<and> (\<forall>a. a \<notin> set ns \<longrightarrow> h' a = h a) \<and>
     (\<forall>a. map_option st_data (h' a) = map_option st_data (h a))"
  using mpmc_stack_reverse_chain [OF assms]
  by (auto simp: mpmc_stack_fifo_flush_def mpmc_stack_lifo_flush_def)

theorem mpmc_stack_fifo_flush_reverses_witness:
  "\<exists>h' q' r. mpmc_stack_fifo_flush ((\<lambda>_. None)(1 \<mapsto> \<lparr>st_next = 2, st_data = 8\<rparr>, 2 \<mapsto> \<lparr>st_next = NULL, st_data = 7\<rparr>))
     \<lparr>st_head = 1\<rparr> = Some (h', q', r) \<and> chain st_next h' r [2, 1] NULL"
  using mpmc_stack_fifo_flush_reverses [of "(\<lambda>_. None)(1 \<mapsto> \<lparr>st_next = 2, st_data = 8\<rparr>, 2 \<mapsto> \<lparr>st_next = NULL, st_data = 7\<rparr>)"
      "\<lparr>st_head = 1\<rparr>" "[1, 2]"]
  by (simp del: fun_upd_apply add: fun_upd_same fun_upd_other) blast

end
