(* ===== verification/Work_Stealing_Deque.thy ===== *)
theory Work_Stealing_Deque
  imports Fiber_Prelude
begin

text \<open>
  \<open>src/work_stealing_deque.c\<close> and \<open>include/work_stealing_deque.h\<close>: the work stealing deque of the
  default scheduler, a circular array that the owner grows.  The 64-bit signed positions are
  integers: they start at 0 and move by at most one per push.  \<open>malloc\<close> returns an address
  (\<open>NULL\<close> on failure) and unspecified contents (the function \<open>junk\<close>); both are arguments.
  The theory has the operations, run without interference, and their refinement to a list;
  theory \<open>Wsd_Concurrent\<close> interleaves them.
\<close>

record wsd_circular_array =
  ca_log_size :: nat
  ca_size :: nat
  ca_size_minus_one :: int
  ca_prev :: addr
  ca_data :: "addr list"

type_synonym array_heap = "wsd_circular_array heap"

record wsd_deque =
  wsd_top :: int
  wsd_bottom :: int
  wsd_array :: addr

datatype wsd_result = WSD_EMPTY | WSD_ABORT | WSD_OK addr

section \<open>Circular arrays\<close>

text \<open>\<open>1 << log_size\<close> shifts an \<open>int\<close>: from 31 bits on it is undefined, a fault.\<close>

definition wsd_circular_array_create ::
  "array_heap \<Rightarrow> nat \<Rightarrow> addr \<Rightarrow> (nat \<Rightarrow> addr) \<Rightarrow> array_heap option" where
  "wsd_circular_array_create h log_size a junk = do {
     c_assert (log_size < 31);
     let data_size = 2 ^ log_size;
     Some (alloc h a \<lparr>ca_log_size = log_size, ca_size = data_size,
                      ca_size_minus_one = int data_size - 1, ca_prev = NULL,
                      ca_data = map junk [0 ..< data_size]\<rparr>)
   }"

partial_function (option) wsd_circular_array_destroy :: "array_heap \<Rightarrow> addr \<Rightarrow> array_heap option" where
  "wsd_circular_array_destroy h a = do {
     x \<leftarrow> load h a;
     h' \<leftarrow> (if ca_prev x \<noteq> NULL then wsd_circular_array_destroy h (ca_prev x) else Some h);
     dealloc h' a
   }"

definition wsd_circular_array_size :: "array_heap \<Rightarrow> addr \<Rightarrow> nat option" where
  "wsd_circular_array_size h a = do { x \<leftarrow> load h a; Some (ca_size x) }"

definition array_index :: "wsd_circular_array \<Rightarrow> int \<Rightarrow> nat" where
  "array_index x i = nat (and i (ca_size_minus_one x))"

definition wsd_circular_array_get :: "array_heap \<Rightarrow> addr \<Rightarrow> int \<Rightarrow> addr option" where
  "wsd_circular_array_get h a i = do { x \<leftarrow> load h a; nth_opt (ca_data x) (array_index x i) }"

definition wsd_circular_array_put :: "array_heap \<Rightarrow> addr \<Rightarrow> int \<Rightarrow> addr \<Rightarrow> array_heap option" where
  "wsd_circular_array_put h a i p = do {
     x \<leftarrow> load h a;
     c_assert (array_index x i < length (ca_data x));
     store h a (x\<lparr>ca_data := (ca_data x)[array_index x i := p]\<rparr>)
   }"

text \<open>The copying loop of \<open>wsd_circular_array_grow\<close>, over the number of remaining positions.\<close>

fun grow_loop :: "array_heap \<Rightarrow> addr \<Rightarrow> addr \<Rightarrow> int \<Rightarrow> nat \<Rightarrow> array_heap option" where
  "grow_loop h new_a a i 0 = Some h"
| "grow_loop h new_a a i (Suc n) = do {
     v \<leftarrow> wsd_circular_array_get h a i;
     h' \<leftarrow> wsd_circular_array_put h new_a i v;
     grow_loop h' new_a a (i + 1) n
   }"

definition wsd_circular_array_grow ::
  "array_heap \<Rightarrow> addr \<Rightarrow> int \<Rightarrow> int \<Rightarrow> addr \<Rightarrow> (nat \<Rightarrow> addr) \<Rightarrow> (array_heap \<times> addr) option" where
  "wsd_circular_array_grow h a start stop new_a junk = do {
     c_assert (start \<le> stop);
     x \<leftarrow> load h a;
     h1 \<leftarrow> wsd_circular_array_create h (ca_log_size x + 1) new_a junk;
     if new_a = NULL then Some (h1, NULL)
     else do {
       h2 \<leftarrow> grow_loop h1 new_a a start (nat (stop - start));
       y \<leftarrow> load h2 new_a;
       h3 \<leftarrow> store h2 new_a (y\<lparr>ca_prev := a\<rparr>);
       Some (h3, new_a)
     }
   }"

section \<open>The deque\<close>

definition wsd_work_stealing_deque_create ::
  "array_heap \<Rightarrow> bool \<Rightarrow> addr \<Rightarrow> (nat \<Rightarrow> addr) \<Rightarrow> (array_heap \<times> wsd_deque option) option" where
  "wsd_work_stealing_deque_create h malloc_ok a junk =
     (if \<not> malloc_ok then Some (h, None)
      else do {
        h' \<leftarrow> wsd_circular_array_create h 8 a junk;
        if a = NULL then Some (h', None)
        else Some (h', Some \<lparr>wsd_top = 0, wsd_bottom = 0, wsd_array = a\<rparr>)
      })"

definition wsd_work_stealing_deque_destroy :: "array_heap \<Rightarrow> wsd_deque \<Rightarrow> array_heap option" where
  "wsd_work_stealing_deque_destroy h d = wsd_circular_array_destroy h (wsd_array d)"

definition wsd_work_stealing_deque_size :: "wsd_deque \<Rightarrow> nat" where
  "wsd_work_stealing_deque_size d =
     (let size = wsd_bottom d - wsd_top d in if size < 0 then 0 else nat size)"

text \<open>
  \<open>push_bottom\<close> grows the array when it is full but for one slot; the growth is a step of its own
  that the interleaved model shares.
\<close>

definition wsd_push_reserve ::
  "array_heap \<Rightarrow> addr \<Rightarrow> int \<Rightarrow> int \<Rightarrow> addr \<Rightarrow> (nat \<Rightarrow> addr) \<Rightarrow> (array_heap \<times> addr) option" where
  "wsd_push_reserve h a t b new_a junk = do {
     x \<leftarrow> load h a;
     if b - t \<ge> ca_size_minus_one x
     then do { c_assert (t \<le> b); wsd_circular_array_grow h a t b new_a junk }
     else Some (h, a)
   }"

definition wsd_work_stealing_deque_push_bottom ::
  "array_heap \<Rightarrow> wsd_deque \<Rightarrow> addr \<Rightarrow> addr \<Rightarrow> (nat \<Rightarrow> addr) \<Rightarrow> (array_heap \<times> wsd_deque) option" where
  "wsd_work_stealing_deque_push_bottom h d p new_a junk = do {
     let b = wsd_bottom d;
     let t = wsd_top d;
     (h1, a) \<leftarrow> wsd_push_reserve h (wsd_array d) t b new_a junk;
     h2 \<leftarrow> wsd_circular_array_put h1 a b p;
     Some (h2, d\<lparr>wsd_array := a, wsd_bottom := b + 1\<rparr>)
   }"

definition wsd_work_stealing_deque_pop_bottom ::
  "array_heap \<Rightarrow> wsd_deque \<Rightarrow> bool \<Rightarrow> (wsd_deque \<times> wsd_result) option" where
  "wsd_work_stealing_deque_pop_bottom h d spurious = do {
     let b = wsd_bottom d - 1;
     let a = wsd_array d;
     let d1 = d\<lparr>wsd_bottom := b\<rparr>;
     let t = wsd_top d1;
     let size = b - t;
     if size < 0 then Some (d1\<lparr>wsd_bottom := t\<rparr>, WSD_EMPTY)
     else do {
       ret \<leftarrow> wsd_circular_array_get h a b;
       if size > 0 then Some (d1, WSD_OK ret)
       else if spurious then Some (d1\<lparr>wsd_bottom := t + 1\<rparr>, WSD_ABORT)
       else Some (d1\<lparr>wsd_top := t + 1, wsd_bottom := t + 1\<rparr>, WSD_OK ret)
     }
   }"

definition wsd_work_stealing_deque_steal ::
  "array_heap \<Rightarrow> wsd_deque \<Rightarrow> bool \<Rightarrow> (wsd_deque \<times> wsd_result) option" where
  "wsd_work_stealing_deque_steal h d spurious = do {
     let t = wsd_top d;
     let b = wsd_bottom d;
     let a = wsd_array d;
     let size = b - t;
     if size \<le> 0 then Some (d, WSD_EMPTY)
     else do {
       ret \<leftarrow> wsd_circular_array_get h a t;
       if spurious then Some (d, WSD_ABORT)
       else Some (d\<lparr>wsd_top := t + 1\<rparr>, WSD_OK ret)
     }
   }"

section \<open>Lemmas on circular arrays\<close>

definition array_ok :: "wsd_circular_array \<Rightarrow> bool" where
  "array_ok x \<longleftrightarrow> ca_size x = 2 ^ ca_log_size x \<and> ca_size_minus_one x = int (ca_size x) - 1 \<and>
     length (ca_data x) = ca_size x"

definition array_slot :: "wsd_circular_array \<Rightarrow> int \<Rightarrow> addr" where
  "array_slot x i = ca_data x ! nat (i mod int (ca_size x))"

lemma array_index_mod:
  assumes "array_ok x"
  shows "array_index x i = nat (i mod int (ca_size x))"
proof -
  have "ca_size_minus_one x = mask (ca_log_size x)"
    using assms by (simp add: array_ok_def mask_eq_exp_minus_1)
  then have "and i (ca_size_minus_one x) = i mod 2 ^ ca_log_size x"
    by (simp flip: take_bit_eq_mask take_bit_eq_mod)
  then show ?thesis
    using assms by (simp add: array_index_def array_ok_def)
qed

lemma array_index_less:
  assumes "array_ok x"
  shows "nat (i mod int (ca_size x)) < length (ca_data x)"
proof -
  have "0 < int (ca_size x)" using assms by (simp add: array_ok_def)
  then show ?thesis
    using assms pos_mod_bound [of "int (ca_size x)" i] by (simp add: array_ok_def nat_less_iff)
qed

lemma array_get_slot:
  assumes "h a = Some x" "a \<noteq> NULL" "array_ok x"
  shows "wsd_circular_array_get h a i = Some (array_slot x i)"
  using assms array_index_less [OF assms(3), of i]
  by (simp add: wsd_circular_array_get_def array_index_mod array_slot_def)

definition array_upd :: "wsd_circular_array \<Rightarrow> int \<Rightarrow> addr \<Rightarrow> wsd_circular_array" where
  "array_upd x i p = x\<lparr>ca_data := (ca_data x)[array_index x i := p]\<rparr>"

lemma array_put_upd:
  assumes "h a = Some x" "a \<noteq> NULL" "array_ok x"
  shows "wsd_circular_array_put h a i p = Some (h(a \<mapsto> array_upd x i p))"
  using assms array_index_less [OF assms(3), of i]
  by (simp add: wsd_circular_array_put_def array_index_mod array_upd_def)

lemma array_upd_simps [simp]:
  "array_ok (array_upd x i p) = array_ok x" "ca_size (array_upd x i p) = ca_size x"
  "ca_log_size (array_upd x i p) = ca_log_size x" "ca_prev (array_upd x i p) = ca_prev x"
  "ca_size_minus_one (array_upd x i p) = ca_size_minus_one x"
  by (simp_all add: array_upd_def array_ok_def)

lemma int_mod_window:
  fixes i j n :: int
  assumes "i mod n = j mod n" "\<bar>i - j\<bar> < n"
  shows "i = j"
proof -
  have "n dvd i - j" using assms(1) by (simp add: mod_eq_dvd_iff)
  then show ?thesis using assms(2) dvd_imp_le_int [of "i - j" n] by force
qed

text \<open>Positions closer than the size do not share a slot.\<close>

lemma array_slot_upd:
  assumes "array_ok x" "\<bar>i - j\<bar> < int (ca_size x)"
  shows "array_slot (array_upd x i p) j = (if j = i then p else array_slot x j)"
proof (cases "j = i")
  case True
  then show ?thesis
    using assms(1) array_index_less [OF assms(1), of i]
    by (simp add: array_slot_def array_upd_def array_index_mod)
next
  case False
  have "0 < int (ca_size x)" using assms(1) by (simp add: array_ok_def)
  then have "nat (i mod int (ca_size x)) \<noteq> nat (j mod int (ca_size x))"
    using False int_mod_window [of i "int (ca_size x)" j] assms(2) by (auto simp: eq_nat_nat_iff)
  then show ?thesis
    using False assms(1) by (simp add: array_slot_def array_upd_def array_index_mod)
qed

lemma grow_loop_copies:
  assumes "h new_a = Some y" "h a = Some x" "new_a \<noteq> a" "new_a \<noteq> NULL" "a \<noteq> NULL" "array_ok x" "array_ok y"
    "\<And>j. lo \<le> j \<Longrightarrow> j < i \<Longrightarrow> array_slot y j = array_slot x j"
    "lo \<le> i" "i + int n - lo \<le> int (ca_size y)"
  shows "\<exists>y'. grow_loop h new_a a i n = Some (h(new_a \<mapsto> y')) \<and> array_ok y' \<and>
     ca_size y' = ca_size y \<and> ca_log_size y' = ca_log_size y \<and>
     (\<forall>j. lo \<le> j \<and> j < i + int n \<longrightarrow> array_slot y' j = array_slot x j)"
  using assms
proof (induction n arbitrary: h y i)
  case 0
  then have "h(new_a \<mapsto> y) = h" by (simp add: fun_upd_idem)
  with 0 show ?case by (intro exI [of _ y]) (simp del: fun_upd_apply)
next
  case (Suc n)
  let ?y = "array_upd y i (array_slot x i)"
  have slot: "array_slot ?y j = array_slot x j" if "lo \<le> j" "j < i + 1" for j
    using array_slot_upd [of y i j "array_slot x i"] Suc.prems that by auto
  have "\<exists>y'. grow_loop (h(new_a \<mapsto> ?y)) new_a a (i + 1) n = Some (h(new_a \<mapsto> ?y, new_a \<mapsto> y')) \<and>
      array_ok y' \<and> ca_size y' = ca_size ?y \<and> ca_log_size y' = ca_log_size ?y \<and>
      (\<forall>j. lo \<le> j \<and> j < (i + 1) + int n \<longrightarrow> array_slot y' j = array_slot x j)"
    using Suc.prems slot by (intro Suc.IH) auto
  with Suc.prems show ?case
    by (auto simp: array_get_slot [of h a x] array_put_upd [of h new_a y] algebra_simps
        simp del: fun_upd_apply)
qed

lemma wsd_circular_array_grow_ok:
  assumes "h a = Some x" "a \<noteq> NULL" "array_ok x" "h new_a = None" "new_a \<noteq> NULL"
    "ca_log_size x < 30" "start \<le> stop" "stop - start \<le> int (ca_size x)"
  shows "\<exists>y. wsd_circular_array_grow h a start stop new_a junk = Some (h(new_a \<mapsto> y), new_a) \<and>
     array_ok y \<and> ca_size y = 2 * ca_size x \<and> ca_log_size y = Suc (ca_log_size x) \<and> ca_prev y = a \<and>
     (\<forall>j. start \<le> j \<and> j < stop \<longrightarrow> array_slot y j = array_slot x j)"
proof -
  let ?n = "Suc (ca_log_size x)"
  let ?y0 = "\<lparr>ca_log_size = ?n, ca_size = 2 ^ ?n, ca_size_minus_one = int (2 ^ ?n) - 1, ca_prev = NULL,
              ca_data = map junk [0 ..< 2 ^ ?n]\<rparr>"
  have ne: "new_a \<noteq> a" using assms(1,4) by auto
  have ok: "array_ok ?y0" by (simp add: array_ok_def)
  have sz: "ca_size x = 2 ^ ca_log_size x" using assms(3) by (simp add: array_ok_def)
  obtain y where y: "grow_loop (h(new_a \<mapsto> ?y0)) new_a a start (nat (stop - start)) =
        Some (h(new_a \<mapsto> ?y0, new_a \<mapsto> y))"
      "array_ok y" "ca_size y = 2 ^ ?n" "ca_log_size y = ?n"
      "\<forall>j. start \<le> j \<and> j < start + int (nat (stop - start)) \<longrightarrow> array_slot y j = array_slot x j"
    using grow_loop_copies [of "h(new_a \<mapsto> ?y0)" new_a ?y0 a x start start "nat (stop - start)"]
      assms ne ok sz by auto
  let ?y = "y\<lparr>ca_prev := a\<rparr>"
  have "array_ok ?y" "ca_size ?y = 2 * ca_size x" "ca_log_size ?y = ?n"
      "\<forall>j. start \<le> j \<and> j < stop \<longrightarrow> array_slot ?y j = array_slot x j"
    using y assms(7) sz by (auto simp: array_ok_def array_slot_def)
  moreover have "wsd_circular_array_grow h a start stop new_a junk = Some (h(new_a \<mapsto> ?y), new_a)"
    using assms ne y(1)
    by (simp add: wsd_circular_array_grow_def wsd_circular_array_create_def alloc_def store_def load_def
        Let_def)
  ultimately show ?thesis by (intro exI [of _ ?y]) simp
qed

lemma wsd_push_reserve_ok:
  assumes "h a = Some x" "a \<noteq> NULL" "array_ok x" "h new_a = None" "new_a \<noteq> NULL"
    "t \<le> b" "b - t \<le> int (ca_size x) - 1" "b - t < 2 ^ 29"
  shows "\<exists>a' y. wsd_push_reserve h a t b new_a junk = Some (h(a' \<mapsto> y), a') \<and> 
     (a' = a \<and> y = x \<or> a' = new_a \<and> ca_prev y = a) \<and>
     a' \<noteq> NULL \<and> array_ok y \<and> b - t < int (ca_size y) - 1 \<and>
     (\<forall>j. t \<le> j \<and> j < b \<longrightarrow> array_slot y j = array_slot x j)"
proof (cases "b - t \<ge> ca_size_minus_one x")
  case True
  have sz: "1 \<le> ca_size x" "ca_size_minus_one x = int (ca_size x) - 1"
    using assms(3) by (simp_all add: array_ok_def)
  then have "ca_size x < 2 ^ 30"
    using True assms(8) by simp
  then have "(2::nat) ^ ca_log_size x < 2 ^ 30"
    using assms(3) by (simp add: array_ok_def)
  then have lg: "ca_log_size x < 30"
    by (metis one_less_numeral_iff power_less_imp_less_exp semiring_norm(76))
  obtain y where "wsd_circular_array_grow h a t b new_a junk = Some (h(new_a \<mapsto> y), new_a)"
     "array_ok y" "ca_size y = 2 * ca_size x" "ca_log_size y = Suc (ca_log_size x)" "ca_prev y = a"
     "\<forall>j. t \<le> j \<and> j < b \<longrightarrow> array_slot y j = array_slot x j"
    using wsd_circular_array_grow_ok [OF assms(1-5) lg assms(6), of junk] assms(7) by auto
  with True assms sz show ?thesis
    by (intro exI [of _ new_a] exI [of _ y]) (auto simp: wsd_push_reserve_def)
next
  case False
  then have "wsd_push_reserve h a t b new_a junk = Some (h(a \<mapsto> x), a)"
    using assms by (simp add: wsd_push_reserve_def fun_upd_idem)
  with False assms show ?thesis
    by (intro exI [of _ a] exI [of _ x]) (auto simp: array_ok_def)
qed

section \<open>Refinement to a list\<close>

text \<open>
  \<open>xs\<close> is the deque from the stealing end to the owner's end and \<open>as\<close> the chain of arrays, the
  current one first, linked by \<open>prev\<close>.
\<close>

definition wsd_rep :: "array_heap \<Rightarrow> wsd_deque \<Rightarrow> addr list \<Rightarrow> addr list \<Rightarrow> bool" where
  "wsd_rep h d as xs \<longleftrightarrow>
     chain ca_prev h (wsd_array d) as NULL \<and> distinct as \<and> as \<noteq> [] \<and>
     (\<exists>x. h (wsd_array d) = Some x \<and> array_ok x \<and> length xs < ca_size x \<and>
          (\<forall>i < length xs. array_slot x (wsd_top d + int i) = xs ! i)) \<and>
     wsd_bottom d = wsd_top d + int (length xs)"

lemma wsd_repE:
  assumes "wsd_rep h d as xs"
  obtains x where "h (wsd_array d) = Some x" "wsd_array d \<noteq> NULL" "array_ok x" "length xs < ca_size x"
    "\<And>i. i < length xs \<Longrightarrow> array_slot x (wsd_top d + int i) = xs ! i"
    "wsd_bottom d = wsd_top d + int (length xs)" "chain ca_prev h (wsd_array d) as NULL" "distinct as"
    "\<exists>as'. as = wsd_array d # as'"
proof -
  from assms have "wsd_array d \<noteq> NULL \<and> (\<exists>as'. as = wsd_array d # as')"
    by (cases as) (auto simp: wsd_rep_def)
  with assms that show thesis unfolding wsd_rep_def by blast
qed

lemma wsd_create_rep:
  "a \<noteq> NULL \<Longrightarrow> \<exists>h' d. wsd_work_stealing_deque_create h True a junk = Some (h', Some d) \<and>
     wsd_rep h' d [a] []"
  by (simp add: wsd_work_stealing_deque_create_def wsd_circular_array_create_def wsd_rep_def alloc_def
      array_ok_def Let_def)

lemma wsd_push_rep:
  assumes rep: "wsd_rep h d as xs" and fresh: "h new_a = None" "new_a \<noteq> NULL" and small: "length xs < 2 ^ 29"
  shows "\<exists>h' d' as'. wsd_work_stealing_deque_push_bottom h d p new_a junk = Some (h', d') \<and>
     wsd_rep h' d' as' (xs @ [p]) \<and> dom h' - set as' = dom h - set as \<and> set as \<subseteq> set as'"
proof -
  obtain x where x: "h (wsd_array d) = Some x" "wsd_array d \<noteq> NULL" "array_ok x" "length xs < ca_size x"
      "\<And>i. i < length xs \<Longrightarrow> array_slot x (wsd_top d + int i) = xs ! i"
      "wsd_bottom d = wsd_top d + int (length xs)" "chain ca_prev h (wsd_array d) as NULL" "distinct as"
      "\<exists>as'. as = wsd_array d # as'"
    by (rule wsd_repE [OF rep]) (rule that)
  let ?t = "wsd_top d" and ?b = "wsd_bottom d"
  have "?t \<le> ?b" "?b - ?t \<le> int (ca_size x) - 1" "?b - ?t < 2 ^ 29" using x(4,6) small by auto
  from wsd_push_reserve_ok [OF x(1-3) fresh this, of junk] obtain a y where
    r: "wsd_push_reserve h (wsd_array d) ?t ?b new_a junk = Some (h(a \<mapsto> y), a)"
      "a = wsd_array d \<and> y = x \<or> a = new_a \<and> ca_prev y = wsd_array d"
      "a \<noteq> NULL" "array_ok y" "?b - ?t < int (ca_size y) - 1"
      "\<forall>j. ?t \<le> j \<and> j < ?b \<longrightarrow> array_slot y j = array_slot x j"
    by blast
  let ?y = "array_upd y ?b p" and ?d = "d\<lparr>wsd_array := a, wsd_bottom := ?b + 1\<rparr>"
  let ?as = "if a = wsd_array d then as else a # as"
  have push: "wsd_work_stealing_deque_push_bottom h d p new_a junk = Some (h(a \<mapsto> ?y), ?d)"
    using r(1,3,4) array_put_upd [of "h(a \<mapsto> y)" a y ?b p]
    by (simp add: wsd_work_stealing_deque_push_bottom_def Let_def)
  have ne: "new_a \<noteq> wsd_array d" using fresh(1) x(1) by auto
  have na: "a \<notin> set as" if "a \<noteq> wsd_array d"
    using chain_alloc [OF x(7)] fresh(1) r(2) that by fastforce
  have ch: "chain ca_prev (h(a \<mapsto> ?y)) a ?as NULL" "distinct ?as"
    using x r(2,3) na ne chain_upd_same [of h "wsd_array d" x ca_prev ?y "wsd_array d" as NULL]
    by (auto simp del: fun_upd_apply simp: fun_upd_same)
  have slots: "array_slot ?y (?t + int i) = (xs @ [p]) ! i" if "i < length (xs @ [p])" for i
    using that r(4-6) x(5,6) array_slot_upd [of y ?b "?t + int i" p]
    by (auto simp: nth_append less_Suc_eq)
  have "wsd_rep (h(a \<mapsto> ?y)) ?d ?as (xs @ [p])"
    unfolding wsd_rep_def using ch slots r(4,5) x(6,9) by auto
  moreover have "dom (h(a \<mapsto> ?y)) - set ?as = dom h - set as"
    using r(2) fresh(1) x(9) by auto
  ultimately show ?thesis
    using push by (intro exI [of _ "h(a \<mapsto> ?y)"] exI [of _ ?d] exI [of _ ?as]) auto
qed

lemma wsd_pop_empty:
  "wsd_rep h d as [] \<Longrightarrow> wsd_work_stealing_deque_pop_bottom h d sp = Some (d, WSD_EMPTY)"
  by (cases d) (auto simp: wsd_rep_def wsd_work_stealing_deque_pop_bottom_def Let_def)

lemma wsd_steal_empty:
  "wsd_rep h d as [] \<Longrightarrow> wsd_work_stealing_deque_steal h d sp = Some (d, WSD_EMPTY)"
  by (auto simp: wsd_rep_def wsd_work_stealing_deque_steal_def Let_def)

lemma wsd_pop_rep:
  assumes rep: "wsd_rep h d as (xs @ [p])"
  shows "\<exists>d'. wsd_work_stealing_deque_pop_bottom h d False = Some (d', WSD_OK p) \<and> wsd_rep h d' as xs"
proof -
  obtain x where x: "h (wsd_array d) = Some x" "wsd_array d \<noteq> NULL" "array_ok x" "length (xs @ [p]) < ca_size x"
      "\<And>i. i < length (xs @ [p]) \<Longrightarrow> array_slot x (wsd_top d + int i) = (xs @ [p]) ! i"
      "wsd_bottom d = wsd_top d + int (length (xs @ [p]))" "chain ca_prev h (wsd_array d) as NULL" "distinct as"
      "\<exists>as'. as = wsd_array d # as'"
    by (rule wsd_repE [OF rep]) (rule that)
  have slots: "array_slot x (wsd_top d + int i) = xs ! i" if "i < length xs" for i
    using x(5) [of i] that by (simp add: nth_append)
  have "wsd_circular_array_get h (wsd_array d) (wsd_bottom d - 1) = Some p"
    using x(5) [of "length xs"] x(6) by (simp add: array_get_slot [of h "wsd_array d" x, OF x(1-3)])
  then have "wsd_work_stealing_deque_pop_bottom h d False =
      Some (if xs = [] then d\<lparr>wsd_bottom := wsd_top d + 1, wsd_top := wsd_top d + 1\<rparr>
            else d\<lparr>wsd_bottom := wsd_bottom d - 1\<rparr>, WSD_OK p)"
    using x(6) by (auto simp: wsd_work_stealing_deque_pop_bottom_def Let_def)
  moreover have "wsd_rep h (if xs = [] then d\<lparr>wsd_bottom := wsd_top d + 1, wsd_top := wsd_top d + 1\<rparr>
            else d\<lparr>wsd_bottom := wsd_bottom d - 1\<rparr>) as xs"
    using x slots unfolding wsd_rep_def by auto
  ultimately show ?thesis by blast
qed

text \<open>A spurious failure of the compare-exchange on the last element leaves the deque as it was.\<close>

lemma wsd_pop_spurious:
  assumes rep: "wsd_rep h d as [p]"
  shows "\<exists>d'. wsd_work_stealing_deque_pop_bottom h d True = Some (d', WSD_ABORT) \<and> wsd_rep h d' as [p]"
proof (rule wsd_repE [OF rep])
  fix x
  assume x: "h (wsd_array d) = Some x" "wsd_array d \<noteq> NULL" "array_ok x" "wsd_bottom d = wsd_top d + int (length [p])"
  then have "wsd_work_stealing_deque_pop_bottom h d True = Some (d\<lparr>wsd_bottom := wsd_top d + 1\<rparr>, WSD_ABORT)"
    by (simp add: wsd_work_stealing_deque_pop_bottom_def array_get_slot Let_def)
  with rep x(4) show ?thesis by (auto simp: wsd_rep_def)
qed

lemma wsd_steal_rep:
  assumes rep: "wsd_rep h d as (p # xs)"
  shows "\<exists>d'. wsd_work_stealing_deque_steal h d False = Some (d', WSD_OK p) \<and> wsd_rep h d' as xs"
proof -
  obtain x where x: "h (wsd_array d) = Some x" "wsd_array d \<noteq> NULL" "array_ok x" "length (p # xs) < ca_size x"
      "\<And>i. i < length (p # xs) \<Longrightarrow> array_slot x (wsd_top d + int i) = (p # xs) ! i"
      "wsd_bottom d = wsd_top d + int (length (p # xs))" "chain ca_prev h (wsd_array d) as NULL" "distinct as"
      "\<exists>as'. as = wsd_array d # as'"
    by (rule wsd_repE [OF rep]) (rule that)
  have "array_slot x (wsd_top d + 1 + int i) = xs ! i" if "i < length xs" for i
    using x(5) [of "Suc i"] that by (simp add: algebra_simps)
  then have "wsd_rep h (d\<lparr>wsd_top := wsd_top d + 1\<rparr>) as xs"
    using x unfolding wsd_rep_def by auto
  moreover have "wsd_work_stealing_deque_steal h d False = Some (d\<lparr>wsd_top := wsd_top d + 1\<rparr>, WSD_OK p)"
    using x(5) [of 0] x(6)
    by (simp add: wsd_work_stealing_deque_steal_def Let_def array_get_slot [of h "wsd_array d" x, OF x(1-3)])
  ultimately show ?thesis by blast
qed

lemma wsd_size_rep: "wsd_rep h d as xs \<Longrightarrow> wsd_work_stealing_deque_size d = length xs"
  by (auto simp: wsd_rep_def wsd_work_stealing_deque_size_def Let_def)

lemma wsd_array_destroy_chain:
  "chain ca_prev h a as NULL \<Longrightarrow> distinct as \<Longrightarrow> as \<noteq> [] \<Longrightarrow>
   wsd_circular_array_destroy h a = Some (h |` (- set as))"
proof (induction as arbitrary: a)
  case (Cons b as)
  then obtain x where x: "h b = Some x" "a = b" "b \<noteq> NULL" and ch: "chain ca_prev h (ca_prev x) as NULL"
    by (auto split: option.splits)
  show ?case
  proof (cases as)
    case Nil
    with ch x show ?thesis
      by (subst wsd_circular_array_destroy.simps)
         (auto simp: dealloc_def restrict_map_def fun_eq_iff)
  next
    case (Cons c cs)
    then have "ca_prev x \<noteq> NULL" using ch by auto
    with x Cons.IH [OF ch] Cons.prems Cons show ?thesis
      by (subst wsd_circular_array_destroy.simps)
         (auto simp: dealloc_def restrict_map_def fun_eq_iff)
  qed
qed simp

end
