(* ===== verification/Wsd_Concurrent.thy ===== *)
theory Wsd_Concurrent
  imports Work_Stealing_Deque Step_Machine
begin

text \<open>
  The owner of a work stealing deque and any number of thieves, interleaved at every access to
  \<open>top\<close>, \<open>bottom\<close>, \<open>underlying_array\<close> and the array slots.  \<open>bottom\<close> is written by the owner
  only, so the owner's own load of it is not a separate step.  \<open>malloc\<close> returns a fresh
  address; a step that is offered a used one is skipped.  A schedule in which the client keeps
  \<open>2 ^ 29\<close> entries or more in one deque is cut off at that push.
\<close>

datatype owner_pc =
    O_Idle
  | O_Push addr int int \<comment> \<open>element, bottom, top as loaded\<close>
  | O_Put addr int
  | O_Publish addr int
  | O_Pop int
  | O_Pop_Empty int
  | O_Pop_Cas int addr
  | O_Pop_Fix int

datatype thief_pc =
    T_Idle
  | T_Top int
  | T_Bottom int
  | T_Array int addr
  | T_Got int addr

datatype wsd_event = W_Pushed addr | W_Popped addr | W_Stolen addr | W_Empty

record wsd_sys =
  ws_heap :: array_heap
  ws_deque :: wsd_deque
  ws_owner :: owner_pc
  ws_thief :: "nat \<Rightarrow> thief_pc"
  ws_log :: "wsd_event list"

definition wsd_start_push :: "addr \<Rightarrow> wsd_sys \<Rightarrow> wsd_sys" where
  "wsd_start_push p s = s\<lparr>ws_owner := O_Push p (wsd_bottom (ws_deque s)) (wsd_top (ws_deque s))\<rparr>"

definition wsd_start_pop :: "wsd_sys \<Rightarrow> wsd_sys" where
  "wsd_start_pop s =
     (let b = wsd_bottom (ws_deque s) - 1
      in s\<lparr>ws_deque := (ws_deque s)\<lparr>wsd_bottom := b\<rparr>, ws_owner := O_Pop b\<rparr>)"

definition wsd_push_step :: "addr \<Rightarrow> (nat \<Rightarrow> addr) \<Rightarrow> wsd_sys \<Rightarrow> wsd_sys option" where
  "wsd_push_step new_a junk s =
     (case ws_owner s of
        O_Push p b t \<Rightarrow>
          if new_a = NULL \<or> ws_heap s new_a \<noteq> None then Some s
          else do {
            (h', a) \<leftarrow> wsd_push_reserve (ws_heap s) (wsd_array (ws_deque s)) t b new_a junk;
            Some (s\<lparr>ws_heap := h', ws_deque := (ws_deque s)\<lparr>wsd_array := a\<rparr>, ws_owner := O_Put p b\<rparr>)
          }
      | O_Put p b \<Rightarrow> do {
          h' \<leftarrow> wsd_circular_array_put (ws_heap s) (wsd_array (ws_deque s)) b p;
          Some (s\<lparr>ws_heap := h', ws_owner := O_Publish p b\<rparr>)
        }
      | O_Publish p b \<Rightarrow>
          Some (s\<lparr>ws_deque := (ws_deque s)\<lparr>wsd_bottom := b + 1\<rparr>, ws_owner := O_Idle,
                  ws_log := ws_log s @ [W_Pushed p]\<rparr>)
      | _ \<Rightarrow> Some s)"

definition wsd_pop_step :: "bool \<Rightarrow> wsd_sys \<Rightarrow> wsd_sys option" where
  "wsd_pop_step spurious s =
     (case ws_owner s of
        O_Pop b \<Rightarrow>
          (let t = wsd_top (ws_deque s); size = b - t
           in if size < 0 then Some (s\<lparr>ws_owner := O_Pop_Empty t, ws_log := ws_log s @ [W_Empty]\<rparr>)
              else do {
                ret \<leftarrow> wsd_circular_array_get (ws_heap s) (wsd_array (ws_deque s)) b;
                if size > 0 then Some (s\<lparr>ws_owner := O_Idle, ws_log := ws_log s @ [W_Popped ret]\<rparr>)
                else Some (s\<lparr>ws_owner := O_Pop_Cas t ret\<rparr>)
              })
      | O_Pop_Empty t \<Rightarrow>
          Some (s\<lparr>ws_deque := (ws_deque s)\<lparr>wsd_bottom := t\<rparr>, ws_owner := O_Idle\<rparr>)
      | O_Pop_Cas t ret \<Rightarrow>
          if wsd_top (ws_deque s) = t \<and> \<not> spurious
          then Some (s\<lparr>ws_deque := (ws_deque s)\<lparr>wsd_top := t + 1\<rparr>, ws_owner := O_Pop_Fix (t + 1),
                       ws_log := ws_log s @ [W_Popped ret]\<rparr>)
          else Some (s\<lparr>ws_owner := O_Pop_Fix (t + 1)\<rparr>)
      | O_Pop_Fix b \<Rightarrow>
          Some (s\<lparr>ws_deque := (ws_deque s)\<lparr>wsd_bottom := b\<rparr>, ws_owner := O_Idle\<rparr>)
      | _ \<Rightarrow> Some s)"

definition wsd_steal_step :: "nat \<Rightarrow> bool \<Rightarrow> wsd_sys \<Rightarrow> wsd_sys option" where
  "wsd_steal_step u spurious s =
     (case ws_thief s u of
        T_Idle \<Rightarrow> Some (s\<lparr>ws_thief := (ws_thief s)(u := T_Top (wsd_top (ws_deque s)))\<rparr>)
      | T_Top t \<Rightarrow>
          if wsd_bottom (ws_deque s) - t \<le> 0 then Some (s\<lparr>ws_thief := (ws_thief s)(u := T_Idle)\<rparr>)
          else Some (s\<lparr>ws_thief := (ws_thief s)(u := T_Bottom t)\<rparr>)
      | T_Bottom t \<Rightarrow> Some (s\<lparr>ws_thief := (ws_thief s)(u := T_Array t (wsd_array (ws_deque s)))\<rparr>)
      | T_Array t a \<Rightarrow> do {
          ret \<leftarrow> wsd_circular_array_get (ws_heap s) a t;
          Some (s\<lparr>ws_thief := (ws_thief s)(u := T_Got t ret)\<rparr>)
        }
      | T_Got t ret \<Rightarrow>
          if wsd_top (ws_deque s) = t \<and> \<not> spurious
          then Some (s\<lparr>ws_deque := (ws_deque s)\<lparr>wsd_top := t + 1\<rparr>,
                       ws_thief := (ws_thief s)(u := T_Idle), ws_log := ws_log s @ [W_Stolen ret]\<rparr>)
          else Some (s\<lparr>ws_thief := (ws_thief s)(u := T_Idle)\<rparr>))"

datatype wsd_act =
    Owner_Push addr
  | Owner_Pop
  | Step_Push addr "nat \<Rightarrow> addr"
  | Step_Pop bool
  | Step_Thief nat bool

fun wsd_step :: "wsd_act \<Rightarrow> wsd_sys \<Rightarrow> wsd_sys option" where
  "wsd_step (Owner_Push p) s =
     (if ws_owner s = O_Idle \<and> wsd_bottom (ws_deque s) - wsd_top (ws_deque s) < 2 ^ 29
      then Some (wsd_start_push p s) else Some s)"
| "wsd_step Owner_Pop s = (if ws_owner s = O_Idle then Some (wsd_start_pop s) else Some s)"
| "wsd_step (Step_Push new_a junk) s = wsd_push_step new_a junk s"
| "wsd_step (Step_Pop spurious) s = wsd_pop_step spurious s"
| "wsd_step (Step_Thief u spurious) s = wsd_steal_step u spurious s"

abbreviation wsd_run :: "wsd_act list \<Rightarrow> wsd_sys \<Rightarrow> wsd_sys option" where
  "wsd_run \<equiv> run_steps wsd_step"

definition wsd_sys_init :: "addr \<Rightarrow> (nat \<Rightarrow> addr) \<Rightarrow> wsd_sys option" where
  "wsd_sys_init a junk = do {
     (h, d) \<leftarrow> wsd_work_stealing_deque_create (\<lambda>_. None) True a junk;
     d' \<leftarrow> d;
     Some \<lparr>ws_heap = h, ws_deque = d', ws_owner = O_Idle, ws_thief = (\<lambda>_. T_Idle), ws_log = []\<rparr>
   }"

text \<open>The abstract deque: thieves at the front, the owner at the back.\<close>

fun deque_step :: "wsd_event \<Rightarrow> addr list \<Rightarrow> addr list option" where
  "deque_step (W_Pushed p) xs = Some (xs @ [p])"
| "deque_step (W_Popped p) xs = (if xs \<noteq> [] \<and> last xs = p then Some (butlast xs) else None)"
| "deque_step (W_Stolen p) xs = (if xs \<noteq> [] \<and> hd xs = p then Some (tl xs) else None)"
| "deque_step W_Empty xs = (if xs = [] then Some xs else None)"

fun deque_run :: "wsd_event list \<Rightarrow> addr list \<Rightarrow> addr list option" where
  "deque_run [] xs = Some xs"
| "deque_run (e # es) xs = do { xs' \<leftarrow> deque_step e xs; deque_run es xs' }"

lemma deque_run_snoc: "deque_run (es @ [e]) xs = do { xs' \<leftarrow> deque_run es xs; deque_step e xs' }"
  by (induction es arbitrary: xs) (auto split: Option.bind_splits)

section \<open>The invariant\<close>

text \<open>
  While the owner pops, \<open>bottom\<close> may be one below the end of the logical contents; the position of
  the owner tells where the end is.
\<close>

fun logical_bottom :: "owner_pc \<Rightarrow> int \<Rightarrow> int" where
  "logical_bottom (O_Pop b) c = b + 1"
| "logical_bottom (O_Pop_Empty t) c = t"
| "logical_bottom (O_Pop_Cas t r) c = t + 1"
| "logical_bottom (O_Pop_Fix b) c = b"
| "logical_bottom _ c = c"

fun owner_ok :: "wsd_deque \<Rightarrow> wsd_circular_array \<Rightarrow> addr list \<Rightarrow> owner_pc \<Rightarrow> bool" where
  "owner_ok d x xs (O_Push p b t) = (b = wsd_bottom d \<and> t \<le> wsd_top d \<and> b - t \<le> int (ca_size x) - 1 \<and> b - t < 2 ^ 29)"
| "owner_ok d x xs (O_Put p b) = (b = wsd_bottom d \<and> b - wsd_top d < int (ca_size x) - 1)"
| "owner_ok d x xs (O_Publish p b) =
     (b = wsd_bottom d \<and> b - wsd_top d < int (ca_size x) - 1 \<and> array_slot x b = p)"
| "owner_ok d x xs (O_Pop b) = (b = wsd_bottom d)"
| "owner_ok d x xs (O_Pop_Cas t r) = (t \<le> wsd_top d \<and> (xs \<noteq> [] \<longrightarrow> xs = [r]))"
| "owner_ok d x xs _ = True"

fun thief_ok :: "array_heap \<Rightarrow> int \<Rightarrow> addr list \<Rightarrow> thief_pc \<Rightarrow> bool" where
  "thief_ok h tp xs T_Idle = True"
| "thief_ok h tp xs (T_Top t) = (t \<le> tp)"
| "thief_ok h tp xs (T_Bottom t) = (t \<le> tp \<and> (t = tp \<longrightarrow> xs \<noteq> []))"
| "thief_ok h tp xs (T_Array t a) =
     (t \<le> tp \<and> a \<noteq> NULL \<and>
      (\<exists>y. h a = Some y \<and> array_ok y \<and> (t = tp \<longrightarrow> xs \<noteq> [] \<and> array_slot y t = hd xs)))"
| "thief_ok h tp xs (T_Got t ret) = (t \<le> tp \<and> (t = tp \<longrightarrow> xs \<noteq> [] \<and> ret = hd xs))"

definition deque_ok :: "array_heap \<Rightarrow> wsd_deque \<Rightarrow> owner_pc \<Rightarrow> wsd_circular_array \<Rightarrow> addr list \<Rightarrow> bool" where
  "deque_ok h d pc x xs \<longleftrightarrow>
     h (wsd_array d) = Some x \<and> wsd_array d \<noteq> NULL \<and> array_ok x \<and> length xs < ca_size x \<and>
     logical_bottom pc (wsd_bottom d) = wsd_top d + int (length xs) \<and>
     wsd_bottom d \<le> wsd_top d + int (length xs) \<and>
     (\<forall>i < length xs. array_slot x (wsd_top d + int i) = xs ! i) \<and> owner_ok d x xs pc"

definition wsd_inv :: "wsd_sys \<Rightarrow> addr list \<Rightarrow> bool" where
  "wsd_inv s xs \<longleftrightarrow>
     (\<exists>x. deque_ok (ws_heap s) (ws_deque s) (ws_owner s) x xs) \<and>
     (\<forall>u. thief_ok (ws_heap s) (wsd_top (ws_deque s)) xs (ws_thief s u)) \<and>
     deque_run (ws_log s) [] = Some xs"

lemma wsd_invE:
  assumes "wsd_inv s xs"
  obtains x where "deque_ok (ws_heap s) (ws_deque s) (ws_owner s) x xs"
    "\<And>u. thief_ok (ws_heap s) (wsd_top (ws_deque s)) xs (ws_thief s u)"
    "deque_run (ws_log s) [] = Some xs"
  using assms by (auto simp: wsd_inv_def)

lemma wsd_invI:
  "deque_ok (ws_heap s) (ws_deque s) (ws_owner s) x xs \<Longrightarrow>
   (\<And>u. thief_ok (ws_heap s) (wsd_top (ws_deque s)) xs (ws_thief s u)) \<Longrightarrow>
   deque_run (ws_log s) [] = Some xs \<Longrightarrow> wsd_inv s xs"
  by (auto simp: wsd_inv_def)

text \<open>When \<open>top\<close> advances every other thief is behind; when the contents change at the owner's end, the
  first element stays.\<close>

lemma thief_ok_advance: "thief_ok h tp xs pc \<Longrightarrow> thief_ok h (tp + 1) ys pc"
  by (cases pc) auto

lemma thief_ok_contents:
  "thief_ok h tp xs pc \<Longrightarrow> (xs \<noteq> [] \<Longrightarrow> ys \<noteq> [] \<and> hd ys = hd xs) \<Longrightarrow> thief_ok h tp ys pc"
  by (cases pc) auto

lemma thief_ok_fresh: "thief_ok h tp xs pc \<Longrightarrow> h a = None \<Longrightarrow> thief_ok (h(a \<mapsto> y)) tp xs pc"
  by (cases pc) auto

lemma thief_ok_put:
  assumes "thief_ok h tp xs pc" "h a = Some x" "array_ok x" "b = tp + int (length xs)" "b - tp < int (ca_size x)"
  shows "thief_ok (h(a \<mapsto> array_upd x b p)) tp xs pc"
proof (cases pc)
  case (T_Array t c)
  have "array_slot (array_upd x b p) tp = array_slot x tp" if "xs \<noteq> []"
    using array_slot_upd [of x b tp p] assms(3-5) that by auto
  with T_Array assms(1,2) show ?thesis by auto
qed (use assms(1) in auto)

section \<open>Preservation\<close>

lemma wsd_start_push_inv:
  assumes "wsd_inv s xs" "ws_owner s = O_Idle" "wsd_bottom (ws_deque s) - wsd_top (ws_deque s) < 2 ^ 29"
  shows "wsd_inv (wsd_start_push p s) xs"
  using assms by (auto simp: wsd_inv_def wsd_start_push_def deque_ok_def)

lemma wsd_start_pop_inv:
  assumes "wsd_inv s xs" "ws_owner s = O_Idle"
  shows "wsd_inv (wsd_start_pop s) xs"
  using assms by (auto simp: wsd_inv_def wsd_start_pop_def deque_ok_def Let_def)

lemma wsd_reserve_inv:
  assumes inv: "wsd_inv s xs" and pc: "ws_owner s = O_Push p b t" and fresh: "new_a \<noteq> NULL" "ws_heap s new_a = None"
  shows "\<exists>s'. wsd_push_step new_a junk s = Some s' \<and> wsd_inv s' xs"
  using inv
proof (rule wsd_invE)
  fix x
  let ?h = "ws_heap s" and ?d = "ws_deque s"
  assume d: "deque_ok ?h ?d (ws_owner s) x xs" and th: "\<And>u. thief_ok ?h (wsd_top ?d) xs (ws_thief s u)"
    and log: "deque_run (ws_log s) [] = Some xs"
  from d pc have x: "?h (wsd_array ?d) = Some x" "wsd_array ?d \<noteq> NULL" "array_ok x"
    and b: "b = wsd_bottom ?d" "b = wsd_top ?d + int (length xs)" "t \<le> wsd_top ?d"
       "b - t \<le> int (ca_size x) - 1" "b - t < 2 ^ 29"
    and slots: "\<forall>i < length xs. array_slot x (wsd_top ?d + int i) = xs ! i"
    by (auto simp: deque_ok_def)
  have "t \<le> b" using b(2,3) by simp
  from wsd_push_reserve_ok [OF x fresh(2,1) this b(4,5), of junk] obtain a y where
    r: "wsd_push_reserve ?h (wsd_array ?d) t b new_a junk = Some (?h(a \<mapsto> y), a)"
      "a = wsd_array ?d \<and> y = x \<or> a = new_a" "a \<noteq> NULL" "array_ok y" "b - t < int (ca_size y) - 1"
      "\<forall>j. t \<le> j \<and> j < b \<longrightarrow> array_slot y j = array_slot x j"
    by blast
  let ?s' = "s\<lparr>ws_heap := ?h(a \<mapsto> y), ws_deque := ?d\<lparr>wsd_array := a\<rparr>, ws_owner := O_Put p b\<rparr>"
  have "wsd_push_step new_a junk s = Some ?s'"
    using pc fresh r(1) by (simp add: wsd_push_step_def)
  moreover have "thief_ok (?h(a \<mapsto> y)) (wsd_top ?d) xs (ws_thief s u)" for u
    using r(2) x(1) th [of u] thief_ok_fresh [of ?h _ xs "ws_thief s u" new_a y] fresh(2) by (auto simp: fun_upd_idem)
  then have "wsd_inv ?s' xs"
    using r b slots log by (intro wsd_invI [of _ y]) (auto simp: deque_ok_def)
  ultimately show ?thesis by blast
qed

lemma wsd_put_inv:
  assumes inv: "wsd_inv s xs" and pc: "ws_owner s = O_Put p b"
  shows "\<exists>s'. wsd_push_step new_a junk s = Some s' \<and> wsd_inv s' xs"
  using inv
proof (rule wsd_invE)
  fix x
  let ?h = "ws_heap s" and ?d = "ws_deque s"
  assume d: "deque_ok ?h ?d (ws_owner s) x xs" and th: "\<And>u. thief_ok ?h (wsd_top ?d) xs (ws_thief s u)"
    and log: "deque_run (ws_log s) [] = Some xs"
  from d pc have x: "?h (wsd_array ?d) = Some x" "wsd_array ?d \<noteq> NULL" "array_ok x"
    and b: "b = wsd_bottom ?d" "b = wsd_top ?d + int (length xs)" "b - wsd_top ?d < int (ca_size x) - 1"
    and slots: "\<forall>i < length xs. array_slot x (wsd_top ?d + int i) = xs ! i"
    by (auto simp: deque_ok_def)
  let ?y = "array_upd x b p"
  let ?s' = "s\<lparr>ws_heap := ?h(wsd_array ?d \<mapsto> ?y), ws_owner := O_Publish p b\<rparr>"
  have "wsd_push_step new_a junk s = Some ?s'"
    using pc array_put_upd [of ?h "wsd_array ?d" x, OF x] by (simp add: wsd_push_step_def)
  moreover have "thief_ok (?h(wsd_array ?d \<mapsto> ?y)) (wsd_top ?d) xs (ws_thief s u)" for u
    using thief_ok_put [of ?h _ xs _ "wsd_array ?d" x, OF th x(1,3) b(2)] b(3) by simp
  moreover have "\<forall>i < length xs. array_slot ?y (wsd_top ?d + int i) = xs ! i" "array_slot ?y b = p"
    using slots b array_slot_upd [OF x(3), of b _ p] by auto
  ultimately show ?thesis
    using x b log by (intro exI [of _ ?s'] conjI wsd_invI [of _ ?y]) (auto simp: deque_ok_def)
qed

lemma wsd_publish_inv:
  assumes inv: "wsd_inv s xs" and pc: "ws_owner s = O_Publish p b"
  shows "\<exists>s'. wsd_push_step new_a junk s = Some s' \<and> wsd_inv s' (xs @ [p])"
  using inv
proof (rule wsd_invE)
  fix x
  let ?h = "ws_heap s" and ?d = "ws_deque s"
  assume d: "deque_ok ?h ?d (ws_owner s) x xs" and th: "\<And>u. thief_ok ?h (wsd_top ?d) xs (ws_thief s u)"
    and log: "deque_run (ws_log s) [] = Some xs"
  let ?s' = "s\<lparr>ws_deque := ?d\<lparr>wsd_bottom := b + 1\<rparr>, ws_owner := O_Idle, ws_log := ws_log s @ [W_Pushed p]\<rparr>"
  have "deque_ok ?h (ws_deque ?s') O_Idle x (xs @ [p])"
    using d pc by (auto simp: deque_ok_def nth_append less_Suc_eq)
  moreover have "thief_ok ?h (wsd_top ?d) (xs @ [p]) (ws_thief s u)" for u
    using th by (rule thief_ok_contents) auto
  ultimately have "wsd_inv ?s' (xs @ [p])"
    using log by (intro wsd_invI [of _ x]) (simp_all add: deque_run_snoc)
  then show ?thesis
    using pc by (simp add: wsd_push_step_def)
qed

lemma wsd_push_step_inv:
  assumes inv: "wsd_inv s xs"
  shows "\<exists>s' xs'. wsd_push_step new_a junk s = Some s' \<and> wsd_inv s' xs'"
proof (cases "ws_owner s")
  case (O_Push p b t)
  show ?thesis
  proof (cases "new_a = NULL \<or> ws_heap s new_a \<noteq> None")
    case True
    with O_Push inv show ?thesis by (auto simp: wsd_push_step_def)
  next
    case False
    with wsd_reserve_inv [OF inv O_Push, of new_a junk] show ?thesis by auto
  qed
next
  case (O_Put p b)
  with wsd_put_inv [OF inv] show ?thesis by blast
next
  case (O_Publish p b)
  with wsd_publish_inv [OF inv] show ?thesis by blast
qed (use inv in \<open>auto simp: wsd_push_step_def\<close>)

lemma wsd_pop_read_inv:
  assumes inv: "wsd_inv s xs" and pc: "ws_owner s = O_Pop b"
  shows "\<exists>s' xs'. wsd_pop_step spurious s = Some s' \<and> wsd_inv s' xs'"
  using inv
proof (rule wsd_invE)
  fix x
  let ?h = "ws_heap s" and ?d = "ws_deque s" and ?t = "wsd_top (ws_deque s)"
  assume d: "deque_ok ?h ?d (ws_owner s) x xs" and th: "\<And>u. thief_ok ?h ?t xs (ws_thief s u)"
    and log: "deque_run (ws_log s) [] = Some xs"
  from d pc have x: "?h (wsd_array ?d) = Some x" "wsd_array ?d \<noteq> NULL" "array_ok x"
    and b: "b + 1 = ?t + int (length xs)" "wsd_bottom ?d \<le> b + 1" "length xs < ca_size x"
    and slots: "\<forall>i < length xs. array_slot x (?t + int i) = xs ! i"
    by (auto simp: deque_ok_def)
  note get = array_get_slot [of ?h "wsd_array ?d" x b, OF x]
  have ret: "array_slot x b = last xs" if "xs \<noteq> []"
  proof -
    have "b = ?t + int (length xs - 1)" using b(1) that by (cases xs) auto
    then show ?thesis using slots that by (simp add: last_conv_nth)
  qed
  consider (empty) "xs = []" | (one) "length xs = 1" | (more) "1 < length xs"
    by (cases xs) auto
  then show ?thesis
  proof cases
    case empty
    let ?s' = "s\<lparr>ws_owner := O_Pop_Empty ?t, ws_log := ws_log s @ [W_Empty]\<rparr>"
    have "wsd_pop_step spurious s = Some ?s'"
      using pc b(1) empty by (simp add: wsd_pop_step_def Let_def)
    moreover have "wsd_inv ?s' xs"
      using d pc th log empty b by (intro wsd_invI [of _ x]) (auto simp: deque_ok_def deque_run_snoc)
    ultimately show ?thesis by blast
  next
    case one
    let ?s' = "s\<lparr>ws_owner := O_Pop_Cas ?t (last xs)\<rparr>"
    have "xs \<noteq> []" using one by auto
    then have "array_slot x b = last xs" by (rule ret)
    moreover have "b = ?t" using b(1) one by simp
    ultimately have "wsd_pop_step spurious s = Some ?s'"
      using pc get by (auto simp: wsd_pop_step_def Let_def)
    moreover have "wsd_inv ?s' xs"
      using d pc th log one b by (intro wsd_invI [of _ x]) (cases xs, auto simp: deque_ok_def)
    ultimately show ?thesis by blast
  next
    case more
    let ?s' = "s\<lparr>ws_owner := O_Idle, ws_log := ws_log s @ [W_Popped (last xs)]\<rparr>"
    have ne: "xs \<noteq> []" "butlast xs \<noteq> []" using more by (cases xs; auto)+
    have "wsd_pop_step spurious s = Some ?s'"
      using pc get ret b(1) more ne by (simp add: wsd_pop_step_def Let_def)
    moreover have "deque_ok ?h ?d O_Idle x (butlast xs)"
      using d pc more by (auto simp: deque_ok_def nth_butlast)
    moreover have "thief_ok ?h ?t (butlast xs) (ws_thief s u)" for u
      using th by (rule thief_ok_contents) (use ne in \<open>cases xs; auto\<close>)
    ultimately show ?thesis
      using log ne by (intro exI [of _ ?s'] exI [of _ "butlast xs"] conjI wsd_invI [of _ x])
        (auto simp: deque_run_snoc)
  qed
qed

lemma wsd_pop_cas_inv:
  assumes inv: "wsd_inv s xs" and pc: "ws_owner s = O_Pop_Cas t r"
  shows "\<exists>s' xs'. wsd_pop_step spurious s = Some s' \<and> wsd_inv s' xs'"
  using inv
proof (rule wsd_invE)
  fix x
  let ?h = "ws_heap s" and ?d = "ws_deque s"
  assume d: "deque_ok ?h ?d (ws_owner s) x xs" and th: "\<And>u. thief_ok ?h (wsd_top ?d) xs (ws_thief s u)"
    and log: "deque_run (ws_log s) [] = Some xs"
  show ?thesis
  proof (cases "wsd_top ?d = t \<and> \<not> spurious")
    case True
    let ?s' = "s\<lparr>ws_deque := ?d\<lparr>wsd_top := t + 1\<rparr>, ws_owner := O_Pop_Fix (t + 1),
                 ws_log := ws_log s @ [W_Popped r]\<rparr>"
    have xs: "xs = [r]" using d pc True by (cases xs) (auto simp: deque_ok_def)
    have "wsd_pop_step spurious s = Some ?s'"
      using pc True by (simp add: wsd_pop_step_def)
    moreover have "wsd_inv ?s' []"
      using d pc log True xs thief_ok_advance [OF th]
      by (intro wsd_invI [of _ x]) (auto simp: deque_ok_def deque_run_snoc)
    ultimately show ?thesis by blast
  next
    case False
    let ?s' = "s\<lparr>ws_owner := O_Pop_Fix (t + 1)\<rparr>"
    have "wsd_pop_step spurious s = Some ?s'"
      using pc False by (auto simp: wsd_pop_step_def)
    moreover have "wsd_inv ?s' xs"
      using d pc log th by (intro wsd_invI [of _ x]) (auto simp: deque_ok_def)
    ultimately show ?thesis by blast
  qed
qed

lemma wsd_pop_step_inv:
  assumes inv: "wsd_inv s xs"
  shows "\<exists>s' xs'. wsd_pop_step spurious s = Some s' \<and> wsd_inv s' xs'"
proof (cases "ws_owner s")
  case (O_Pop b)
  with wsd_pop_read_inv [OF inv] show ?thesis by blast
next
  case (O_Pop_Cas t r)
  with wsd_pop_cas_inv [OF inv] show ?thesis by blast
next
  case (O_Pop_Empty t)
  with inv have "wsd_inv (s\<lparr>ws_deque := (ws_deque s)\<lparr>wsd_bottom := t\<rparr>, ws_owner := O_Idle\<rparr>) xs"
    by (auto simp: wsd_inv_def deque_ok_def)
  with O_Pop_Empty show ?thesis by (auto simp: wsd_pop_step_def)
next
  case (O_Pop_Fix t)
  with inv have "wsd_inv (s\<lparr>ws_deque := (ws_deque s)\<lparr>wsd_bottom := t\<rparr>, ws_owner := O_Idle\<rparr>) xs"
    by (auto simp: wsd_inv_def deque_ok_def)
  with O_Pop_Fix show ?thesis by (auto simp: wsd_pop_step_def)
qed (use inv in \<open>auto simp: wsd_pop_step_def\<close>)

text \<open>A thief moves; only a winning compare-exchange touches the shared state.\<close>

lemma wsd_inv_thief:
  "wsd_inv s xs \<Longrightarrow> thief_ok (ws_heap s) (wsd_top (ws_deque s)) xs pc \<Longrightarrow>
   wsd_inv (s\<lparr>ws_thief := (ws_thief s)(u := pc)\<rparr>) xs"
  by (auto simp: wsd_inv_def)

lemma wsd_steal_cas_inv:
  assumes inv: "wsd_inv s xs" and pc: "ws_thief s u = T_Got t r" and tp: "wsd_top (ws_deque s) = t"
  shows "wsd_inv (s\<lparr>ws_deque := (ws_deque s)\<lparr>wsd_top := t + 1\<rparr>,
                    ws_thief := (ws_thief s)(u := T_Idle), ws_log := ws_log s @ [W_Stolen r]\<rparr>) (tl xs)"
    (is "wsd_inv ?s' _")
  using inv
proof (rule wsd_invE)
  fix x
  let ?h = "ws_heap s" and ?d = "ws_deque s"
  assume d: "deque_ok ?h ?d (ws_owner s) x xs" and th: "\<And>u. thief_ok ?h (wsd_top ?d) xs (ws_thief s u)"
    and log: "deque_run (ws_log s) [] = Some xs"
  obtain ys where xs: "xs = r # ys"
    using th [of u] pc tp by (cases xs) auto
  have "\<forall>i < length ys. array_slot x (t + 1 + int i) = ys ! i"
  proof (intro allI impI)
    fix i assume "i < length ys"
    then have "array_slot x (wsd_top ?d + int (Suc i)) = xs ! Suc i"
      using d xs unfolding deque_ok_def by auto
    then show "array_slot x (t + 1 + int i) = ys ! i"
      using xs tp by (simp add: algebra_simps)
  qed
  then have "deque_ok ?h (ws_deque ?s') (ws_owner s) x ys"
    using d xs tp by (cases "ws_owner s") (auto simp: deque_ok_def)
  then show ?thesis
    using thief_ok_advance [OF th] log xs tp
    by (intro wsd_invI [of _ x]) (auto simp: deque_run_snoc)
qed

lemma wsd_steal_step_inv:
  assumes inv: "wsd_inv s xs"
  shows "\<exists>s' xs'. wsd_steal_step u spurious s = Some s' \<and> wsd_inv s' xs'"
  using inv
proof (rule wsd_invE)
  fix x
  let ?h = "ws_heap s" and ?d = "ws_deque s"
  assume d: "deque_ok ?h ?d (ws_owner s) x xs" and th: "\<And>u. thief_ok ?h (wsd_top ?d) xs (ws_thief s u)"
  note move = wsd_inv_thief [OF inv, of _ u]
  show ?thesis
  proof (cases "ws_thief s u")
    case T_Idle
    then show ?thesis using move [of "T_Top (wsd_top ?d)"] by (auto simp: wsd_steal_step_def)
  next
    case (T_Top t)
    have "xs \<noteq> []" if "t < wsd_bottom ?d" "t = wsd_top ?d"
      using d that by (auto simp: deque_ok_def)
    then show ?thesis
      using T_Top th [of u] move [of T_Idle] move [of "T_Bottom t"] by (auto simp: wsd_steal_step_def)
  next
    case (T_Bottom t)
    have "array_slot x t = hd xs" if "t = wsd_top ?d" "xs \<noteq> []"
      using d that by (auto simp: deque_ok_def hd_conv_nth)
    then show ?thesis
      using T_Bottom th [of u] d move [of "T_Array t (wsd_array ?d)"]
      by (auto simp: wsd_steal_step_def deque_ok_def)
  next
    case (T_Array t a)
    then obtain y where y: "?h a = Some y" "a \<noteq> NULL" "array_ok y"
      "t \<le> wsd_top ?d" "t = wsd_top ?d \<longrightarrow> xs \<noteq> [] \<and> array_slot y t = hd xs"
      using th [of u] by auto
    then show ?thesis
      using T_Array move [of "T_Got t (array_slot y t)"] array_get_slot [of ?h a y t, OF y(1-3)]
      by (auto simp: wsd_steal_step_def)
  next
    case (T_Got t r)
    then show ?thesis
      using wsd_steal_cas_inv [OF inv T_Got] move [of T_Idle] by (auto simp: wsd_steal_step_def)
  qed
qed

lemma wsd_step_inv:
  assumes inv: "wsd_inv s xs"
  shows "\<exists>s' xs'. wsd_step a s = Some s' \<and> wsd_inv s' xs'"
proof (cases a)
  case (Owner_Push p)
  then show ?thesis using inv wsd_start_push_inv [OF inv] by auto
next
  case Owner_Pop
  then show ?thesis using inv wsd_start_pop_inv [OF inv] by auto
qed (use wsd_push_step_inv [OF inv] wsd_pop_step_inv [OF inv] wsd_steal_step_inv [OF inv] in auto)

interpretation wsd_machine: machine wsd_step "\<lambda>_. True" "\<lambda>_ s. \<exists>xs. wsd_inv s xs"
  by unfold_locales (use wsd_step_inv in blast)

lemma wsd_sys_init_inv:
  assumes "a \<noteq> NULL"
  shows "\<exists>s. wsd_sys_init a junk = Some s \<and> wsd_inv s []"
  using assms
  by (auto simp: wsd_sys_init_def wsd_work_stealing_deque_create_def wsd_circular_array_create_def
      wsd_inv_def deque_ok_def alloc_def array_ok_def Let_def)

section \<open>Properties\<close>

text \<open>C2. The owner and any number of thieves on the work stealing deque, with growing arrays and spurious
  compare-exchange failures: no schedule faults, and the pushes, pops and steals happen as on a list
  with the owner at one end and the thieves at the other, so that every entry is handed out exactly once.\<close>

theorem wsd_linearizable:
  assumes "a \<noteq> NULL"
  shows "\<exists>s0 s xs. wsd_sys_init a junk = Some s0 \<and> wsd_run acts s0 = Some s \<and> deque_run (ws_log s) [] = Some xs \<and>
     (ws_owner s = O_Idle \<longrightarrow> wsd_work_stealing_deque_size (ws_deque s) = length xs)"
proof -
  obtain s0 where s0: "wsd_sys_init a junk = Some s0" "wsd_inv s0 []"
    using wsd_sys_init_inv [OF assms] by blast
  then obtain s xs where "wsd_run acts s0 = Some s" and inv: "wsd_inv s xs"
    using wsd_machine.run_ok [where as = acts and s = s0] by blast
  moreover have "wsd_work_stealing_deque_size (ws_deque s) = length xs" if "ws_owner s = O_Idle"
    using inv that by (auto simp: wsd_inv_def deque_ok_def wsd_work_stealing_deque_size_def Let_def)
  ultimately show ?thesis
    using s0(1) by (auto simp: wsd_inv_def)
qed

theorem wsd_linearizable_witness:
  "\<exists>s0 s xs. wsd_sys_init 1 (\<lambda>_. 0) = Some s0 \<and>
     wsd_run [Owner_Push 7, Step_Push 2 (\<lambda>_. 0), Step_Push 2 (\<lambda>_. 0), Step_Push 2 (\<lambda>_. 0), Owner_Pop, Step_Thief 0 False,
              Step_Pop False, Step_Thief 0 False, Step_Pop False] s0 = Some s \<and> deque_run (ws_log s) [] = Some xs"
  using wsd_linearizable [of 1 "\<lambda>_. 0" "[Owner_Push 7, Step_Push 2 (\<lambda>_. 0), Step_Push 2 (\<lambda>_. 0), Step_Push 2 (\<lambda>_. 0),
    Owner_Pop, Step_Thief 0 False, Step_Pop False, Step_Thief 0 False, Step_Pop False]"]
  by (simp del: run_steps.simps) blast

end
