(* ===== verification/Ring_Buffer.thy ===== *)
theory Ring_Buffer
  imports Fifo_Spec
begin

text \<open>
  The lock-free ring buffer of src/include/lockfree_ring_buffer.h.  A ring is two 64-bit counters
  \<open>high\<close> and \<open>low\<close> that only grow, a power of two size, the mask \<open>power_of_2_mod\<close> and a buffer whose
  empty slots hold NULL.  The bounded channel of src/include/fiber_channel.h and the multi channel
  of src/include/fiber_multi_channel.h have the same four fields and the same buffer, so the record
  is extensible and the invariant and the two state changes are stated for every extension.

  The contract of a bounded queue is the locale \<open>bounded_queue\<close>; the ring buffer and the channels
  interpret it.
\<close>

record lockfree_ring_buffer =
  rb_high :: "64 word"
  rb_low :: "64 word"
  rb_size :: "32 word"
  rb_mod :: "32 word"
  rb_buffer :: "addr list"

section \<open>Operations\<close>

text \<open>
  \<open>lockfree_ring_buffer_create\<close>: \<open>required_size\<close> is a \<open>uint32_t\<close>, so the sum of the header
  (136 bytes on the 64-bit targets: two padded cache lines and two \<open>uint32_t\<close>) and of \<open>size\<close>
  pointers is truncated to 32 bits, and the block that \<open>calloc\<close> returns has room for the slots
  below \<open>required_size\<close> only.  The argument \<open>calloc_ok\<close> is the allocator's answer; the inner
  option is the returned pointer (\<open>None\<close> is NULL).
\<close>

definition sizeof_lockfree_ring_buffer :: nat where
  "sizeof_lockfree_ring_buffer = 136"

definition sizeof_ptr :: nat where
  "sizeof_ptr = 8"

definition required_size32 :: "nat \<Rightarrow> 32 word \<Rightarrow> 32 word" where
  "required_size32 header sz = of_nat (header + unat sz * sizeof_ptr)"

definition ring_slots :: "nat \<Rightarrow> 32 word \<Rightarrow> nat" where
  "ring_slots header required = (unat required - header) div sizeof_ptr"

definition lockfree_ring_buffer_create ::
  "32 word \<Rightarrow> bool \<Rightarrow> lockfree_ring_buffer option option" where
  "lockfree_ring_buffer_create power_of_2_size calloc_ok = do {
     c_assert (power_of_2_size \<noteq> 0 \<and> power_of_2_size < 32);
     let size = push_bit (unat power_of_2_size) 1;
     let required_size = required_size32 sizeof_lockfree_ring_buffer size;
     Some (if calloc_ok
           then Some \<lparr>rb_high = 0, rb_low = 0, rb_size = size, rb_mod = size - 1,
                      rb_buffer = replicate (ring_slots sizeof_lockfree_ring_buffer required_size) NULL\<rparr>
           else None)
   }"

definition lockfree_ring_buffer_size :: "('e) lockfree_ring_buffer_scheme \<Rightarrow> nat" where
  "lockfree_ring_buffer_size rb =
     (let high = rb_high rb; size = sint (high - rb_low rb) in if size \<ge> 0 then nat size else 0)"

definition ring_index :: "64 word \<Rightarrow> ('e) lockfree_ring_buffer_scheme \<Rightarrow> nat" where
  "ring_index w rb = unat (and w (ucast (rb_mod rb)))"

text \<open>
  The two state changes of a ring.  \<open>ring_put\<close> is the test of \<open>trypush\<close>, the winning
  compare-exchange of \<open>high\<close> and the store of the message; \<open>ring_take\<close> the test of \<open>trypop\<close>, the
  winning compare-exchange of \<open>low\<close> and the store of NULL.  \<open>spurious\<close> is the failure that a weak
  compare-exchange may report at any time.
\<close>

definition lockfree_ring_buffer_trypush ::
  "('e) lockfree_ring_buffer_scheme \<Rightarrow> addr \<Rightarrow> bool \<Rightarrow> (('e) lockfree_ring_buffer_scheme \<times> int) option" where
  "lockfree_ring_buffer_trypush rb inp spurious = do {
     c_assert (inp \<noteq> NULL);
     let low = rb_low rb;
     let high = rb_high rb;
     let index = ring_index high rb;
     slot \<leftarrow> nth_opt (rb_buffer rb) index;
     if slot = NULL \<and> high - low < ucast (rb_size rb) \<and> \<not> spurious
     then Some (rb\<lparr>rb_high := high + 1, rb_buffer := (rb_buffer rb)[index := inp]\<rparr>, 1)
     else Some (rb, 0)
   }"

definition lockfree_ring_buffer_trypop ::
  "('e) lockfree_ring_buffer_scheme \<Rightarrow> bool \<Rightarrow> (('e) lockfree_ring_buffer_scheme \<times> addr) option" where
  "lockfree_ring_buffer_trypop rb spurious = do {
     let high = rb_high rb;
     let low = rb_low rb;
     let index = ring_index low rb;
     ret \<leftarrow> nth_opt (rb_buffer rb) index;
     if ret \<noteq> NULL \<and> high > low \<and> \<not> spurious
     then Some (rb\<lparr>rb_low := low + 1, rb_buffer := (rb_buffer rb)[index := NULL]\<rparr>, ret)
     else Some (rb, NULL)
   }"



section \<open>Invariant and contents\<close>

text \<open>
  The counters enclose a window of at most \<open>size\<close> positions, every slot of the window holds a
  message and every other slot holds NULL.  \<open>ring_items\<close> is the queue that the ring represents.
\<close>

definition ring_inv :: "('e) lockfree_ring_buffer_scheme \<Rightarrow> nat \<Rightarrow> bool" where
  "ring_inv rb k \<longleftrightarrow>
     unat (rb_size rb) = 2 ^ k \<and> unat (rb_mod rb) = 2 ^ k - 1 \<and> length (rb_buffer rb) = 2 ^ k \<and>
     unat (rb_low rb) \<le> unat (rb_high rb) \<and> unat (rb_high rb) \<le> unat (rb_low rb) + 2 ^ k \<and>
     (\<forall>i. unat (rb_low rb) \<le> i \<and> i < unat (rb_low rb) + 2 ^ k \<longrightarrow>
          (rb_buffer rb ! (i mod 2 ^ k) \<noteq> NULL) = (i < unat (rb_high rb)))"

definition ring_items :: "('e) lockfree_ring_buffer_scheme \<Rightarrow> addr list" where
  "ring_items rb = map (\<lambda>i. rb_buffer rb ! (i mod length (rb_buffer rb)))
                       [unat (rb_low rb) ..< unat (rb_high rb)]"

lemma ring_inv_index:
  assumes "ring_inv rb k"
  shows "ring_index w rb = unat w mod 2 ^ k"
    and "ring_index w rb < length (rb_buffer rb)"
proof -
  have "unat (ucast (rb_mod rb) :: 64 word) = 2 ^ k - 1"
    using assms by (simp add: ring_inv_def)
  then show "ring_index w rb = unat w mod 2 ^ k"
    by (simp add: ring_index_def unat_and_mask)
  then show "ring_index w rb < length (rb_buffer rb)"
    using assms by (simp add: ring_inv_def)
qed

lemma ring_inv_span:
  assumes "ring_inv rb k"
  shows "unat (rb_high rb - rb_low rb) = unat (rb_high rb) - unat (rb_low rb)"
    and "length (ring_items rb) = unat (rb_high rb) - unat (rb_low rb)"
    and "(rb_high rb - rb_low rb < ucast (rb_size rb)) = (length (ring_items rb) < 2 ^ k)"
    and "(rb_low rb < rb_high rb) = (ring_items rb \<noteq> [])"
proof -
  show *: "unat (rb_high rb - rb_low rb) = unat (rb_high rb) - unat (rb_low rb)"
    using assms by (simp add: ring_inv_def unat_sub word_le_nat_alt)
  show l: "length (ring_items rb) = unat (rb_high rb) - unat (rb_low rb)"
    by (simp add: ring_items_def)
  show "(rb_high rb - rb_low rb < ucast (rb_size rb)) = (length (ring_items rb) < 2 ^ k)"
    using assms * l by (simp add: ring_inv_def word_less_nat_alt)
  show "(rb_low rb < rb_high rb) = (ring_items rb \<noteq> [])"
    using l by (auto simp: word_less_nat_alt ring_items_def)
qed

lemma ring_slot_free:
  assumes "ring_inv rb k"
  shows "(rb_buffer rb ! ring_index (rb_high rb) rb = NULL) = (length (ring_items rb) < 2 ^ k)"
proof (cases "unat (rb_high rb) < unat (rb_low rb) + 2 ^ k")
  case True
  then show ?thesis
    using assms ring_inv_span(2) [OF assms] by (auto simp: ring_inv_index [OF assms] ring_inv_def)
next
  case False
  then have h: "unat (rb_high rb) = unat (rb_low rb) + 2 ^ k"
    using assms by (simp add: ring_inv_def)
  then have "rb_buffer rb ! (unat (rb_low rb) mod 2 ^ k) \<noteq> NULL"
    using assms by (simp add: ring_inv_def)
  then show ?thesis
    using h ring_inv_span(2) [OF assms] by (simp add: ring_inv_index [OF assms])
qed

text \<open>The invariant after a store at the high end, and after a clear at the low end.\<close>

lemma window_index_neq:
  fixes i j a n :: nat
  assumes "i \<noteq> j" "a \<le> i" "i < a + n" "a \<le> j" "j < a + n"
  shows "i mod n \<noteq> j mod n"
  using mod_window_inj [of i n j a] assms by blast

lemma ring_inv_put:
  assumes inv: "ring_inv rb k" and x: "x \<noteq> NULL" and room: "length (ring_items rb) < 2 ^ k"
    and nowrap: "Suc (unat (rb_high rb)) < 2 ^ 64"
  defines "rb' \<equiv> rb\<lparr>rb_high := rb_high rb + 1, rb_buffer := (rb_buffer rb)[ring_index (rb_high rb) rb := x]\<rparr>"
  shows "ring_inv rb' k" and "ring_items rb' = ring_items rb @ [x]"
proof -
  let ?lo = "unat (rb_low rb)" and ?hi = "unat (rb_high rb)"
  have hi: "?lo \<le> ?hi" "?hi < ?lo + 2 ^ k" and len: "length (rb_buffer rb) = 2 ^ k"
    using inv room ring_inv_span(2) [OF inv] by (auto simp: ring_inv_def)
  have upd: "rb_buffer rb' ! (i mod 2 ^ k) = (if i = ?hi then x else rb_buffer rb ! (i mod 2 ^ k))"
    if "?lo \<le> i" "i < ?lo + 2 ^ k" for i
    using window_index_neq [of i ?hi ?lo "2 ^ k"] that hi len
    by (auto simp: rb'_def ring_inv_index(1) [OF inv] nth_list_update)
  have Suc: "unat (rb_high rb + 1) = Suc ?hi"
    using nowrap by (rule unat_Suc64)
  show "ring_inv rb' k"
    unfolding ring_inv_def
  proof (intro conjI allI impI, goal_cases)
    case (6 i)
    then show ?case
      using upd [of i] inv x by (auto simp: rb'_def Suc ring_inv_def less_Suc_eq)
  qed (use inv hi Suc in \<open>auto simp: rb'_def ring_inv_def\<close>)
  have "ring_items rb' = map (\<lambda>i. rb_buffer rb' ! (i mod 2 ^ k)) ([?lo ..< ?hi] @ [?hi])"
    using hi by (simp add: ring_items_def rb'_def Suc len)
  also have "\<dots> = ring_items rb @ [x]"
    using upd hi by (simp add: ring_items_def len)
  finally show "ring_items rb' = ring_items rb @ [x]" .
qed

lemma ring_items_Cons:
  assumes inv: "ring_inv rb k" and "ring_items rb \<noteq> []"
  shows "ring_items rb = rb_buffer rb ! ring_index (rb_low rb) rb #
           map (\<lambda>i. rb_buffer rb ! (i mod 2 ^ k)) [Suc (unat (rb_low rb)) ..< unat (rb_high rb)]"
    and "rb_buffer rb ! ring_index (rb_low rb) rb \<noteq> NULL"
    and "unat (rb_low rb + 1) = Suc (unat (rb_low rb))"
    and "unat (rb_low rb) < unat (rb_high rb)"
proof -
  show lt: "unat (rb_low rb) < unat (rb_high rb)"
    using assms ring_inv_span(2) [OF inv] by (cases "ring_items rb") auto
  then show "ring_items rb = rb_buffer rb ! ring_index (rb_low rb) rb #
           map (\<lambda>i. rb_buffer rb ! (i mod 2 ^ k)) [Suc (unat (rb_low rb)) ..< unat (rb_high rb)]"
    using inv by (simp add: ring_items_def ring_inv_index(1) [OF inv] upt_conv_Cons ring_inv_def)
  show "rb_buffer rb ! ring_index (rb_low rb) rb \<noteq> NULL"
    using inv lt by (simp add: ring_inv_index(1) [OF inv] ring_inv_def)
  show "unat (rb_low rb + 1) = Suc (unat (rb_low rb))"
    using lt unsigned_less [of "rb_high rb", where 'a = nat] by (intro unat_Suc64) simp
qed

lemma ring_inv_take:
  assumes inv: "ring_inv rb k" and ne: "ring_items rb \<noteq> []"
  defines "rb' \<equiv> rb\<lparr>rb_low := rb_low rb + 1, rb_buffer := (rb_buffer rb)[ring_index (rb_low rb) rb := NULL]\<rparr>"
  shows "ring_inv rb' k" and "ring_items rb' = tl (ring_items rb)"
proof -
  let ?lo = "unat (rb_low rb)" and ?hi = "unat (rb_high rb)"
  note c = ring_items_Cons [OF inv ne]
  have hi: "?hi \<le> ?lo + 2 ^ k" and len: "length (rb_buffer rb) = 2 ^ k"
    using inv by (auto simp: ring_inv_def)
  have upd: "rb_buffer rb' ! (i mod 2 ^ k) = rb_buffer rb ! (i mod 2 ^ k)"
    if "Suc ?lo \<le> i" "i < ?lo + 2 ^ k" for i
    using window_index_neq [of i ?lo ?lo "2 ^ k"] that len
    by (auto simp: rb'_def ring_inv_index(1) [OF inv] nth_list_update)
  have wrapped: "rb_buffer rb' ! ((?lo + 2 ^ k) mod 2 ^ k) = NULL"
    using len by (simp add: rb'_def ring_inv_index(1) [OF inv])
  show "ring_inv rb' k"
    unfolding ring_inv_def
  proof (intro conjI allI impI, goal_cases)
    case (6 i)
    show ?case
    proof (cases "i = ?lo + 2 ^ k")
      case True
      then show ?thesis using wrapped hi by (simp add: rb'_def)
    next
      case False
      then show ?thesis
        using 6 upd [of i] inv c(3) by (auto simp: rb'_def ring_inv_def)
    qed
  qed (use inv c in \<open>auto simp: rb'_def ring_inv_def\<close>)
  show "ring_items rb' = tl (ring_items rb)"
    unfolding c(1) using upd hi c(3) len by (simp add: ring_items_def rb'_def)
qed

section \<open>Refinement\<close>

lemma trypush_ok:
  assumes "ring_inv rb k" "x \<noteq> NULL" "Suc (unat (rb_high rb)) < 2 ^ 64" "length (ring_items rb) < 2 ^ k"
  shows "\<exists>rb'. lockfree_ring_buffer_trypush rb x False = Some (rb', 1) \<and> ring_inv rb' k \<and>
               ring_items rb' = ring_items rb @ [x] \<and> unat (rb_high rb') = Suc (unat (rb_high rb))"
  using ring_inv_put [OF assms(1,2,4,3)] ring_slot_free [OF assms(1)] ring_inv_span(3) [OF assms(1)]
    ring_inv_index(2) [OF assms(1)] assms unat_Suc64 [OF assms(3)]
  by (simp add: lockfree_ring_buffer_trypush_def Let_def)

lemma trypush_fails:
  assumes "ring_inv rb k" "x \<noteq> NULL" "2 ^ k \<le> length (ring_items rb) \<or> sp"
  shows "lockfree_ring_buffer_trypush rb x sp = Some (rb, 0)"
  using ring_inv_span(3) [OF assms(1)] ring_inv_index(2) [OF assms(1)] assms(2,3)
  by (auto simp: lockfree_ring_buffer_trypush_def)

lemma trypop_ok:
  assumes "ring_inv rb k" "ring_items rb \<noteq> []"
  shows "\<exists>rb'. lockfree_ring_buffer_trypop rb False = Some (rb', hd (ring_items rb)) \<and>
               ring_inv rb' k \<and> ring_items rb' = tl (ring_items rb) \<and> rb_high rb' = rb_high rb"
  using ring_inv_take [OF assms] ring_items_Cons(1,2) [OF assms] ring_inv_span(4) [OF assms(1)]
    ring_inv_index(2) [OF assms(1)] assms
  by (simp add: lockfree_ring_buffer_trypop_def Let_def)

lemma trypop_fails:
  assumes "ring_inv rb k" "ring_items rb = [] \<or> sp"
  shows "lockfree_ring_buffer_trypop rb sp = Some (rb, NULL)"
  using ring_inv_span(4) [OF assms(1)] ring_inv_index(2) [OF assms(1)] assms(2)
  by (auto simp: lockfree_ring_buffer_trypop_def)

definition ring_ok :: "('e) lockfree_ring_buffer_scheme \<Rightarrow> bool" where
  "ring_ok rb \<longleftrightarrow> (\<exists>k. ring_inv rb k)"

definition ring_capacity :: "('e) lockfree_ring_buffer_scheme \<Rightarrow> nat" where
  "ring_capacity rb = length (rb_buffer rb)"

lemma ring_inv_capacity: "ring_inv rb k \<Longrightarrow> ring_capacity rb = 2 ^ k"
  by (simp add: ring_inv_def ring_capacity_def)

interpretation ring: bounded_queue lockfree_ring_buffer_trypush lockfree_ring_buffer_trypop
  ring_items ring_capacity "\<lambda>rb. unat (rb_high rb)" "2 ^ 64" ring_ok
proof (unfold_locales, unfold ring_ok_def, goal_cases)
  case (1 q x)
  then obtain k where k: "ring_inv q k" by blast
  then show ?case
    using trypush_ok [of q k x] ring_inv_capacity 1 by metis
next
  case (2 q x sp)
  then show ?case using trypush_fails [of q _ x sp] ring_inv_capacity by fastforce
next
  case (3 q)
  then obtain k where k: "ring_inv q k" by blast
  then show ?case
    using trypop_ok [of q k] ring_inv_capacity 3 by metis
next
  case (4 q sp)
  then show ?case using trypop_fails [of q _ sp] by blast
qed

section \<open>Creation, size and the blocking forms\<close>

lemma unat_two_power: "n < 32 \<Longrightarrow> unat (2 ^ n :: 32 word) = 2 ^ n"
proof -
  assume n: "n < 32"
  then have "(2::nat) ^ n < 2 ^ 32" by (intro power_strict_increasing) auto
  moreover have "(2 ^ n :: 32 word) = of_nat (2 ^ n)" by simp
  ultimately show ?thesis
    using n by (simp only: unsigned_of_nat) (simp add: take_bit_nat_eq_self)
qed

lemma unat_required_size32:
  assumes "n \<le> 28" "h < 2 ^ 31"
  shows "unat (required_size32 h (2 ^ n)) = h + 2 ^ n * sizeof_ptr"
proof -
  have "(2::nat) ^ n \<le> 2 ^ 28" using assms by (intro power_increasing) auto
  then have "h + 2 ^ n * 8 < 2 ^ 32" using assms by simp
  then show ?thesis
    unfolding required_size32_def sizeof_ptr_def
    using assms by (simp only: unsigned_of_nat) (simp add: unat_two_power take_bit_nat_eq_self)
qed

lemma ring_inv_fresh:
  assumes "n < 32" "length (rb_buffer rb) = 2 ^ n" "set (rb_buffer rb) \<subseteq> {NULL}"
    "rb_high rb = 0" "rb_low rb = 0" "rb_size rb = push_bit n 1" "rb_mod rb = push_bit n 1 - 1"
  shows "ring_inv rb n" and "ring_items rb = []"
proof -
  have "unat (push_bit n 1 - 1 :: 32 word) = 2 ^ n - 1"
    using assms(1) by (subst unat_sub) (auto simp: word_le_nat_alt unat_two_power)
  moreover have "rb_buffer rb ! i = NULL" if "i < 2 ^ n" for i
    using assms(2,3) nth_mem [of i "rb_buffer rb"] that by fastforce
  ultimately show "ring_inv rb n"
    using assms by (simp add: ring_inv_def unat_two_power)
  show "ring_items rb = []"
    using assms by (simp add: ring_items_def)
qed

lemma lockfree_ring_buffer_create_ok:
  assumes "p \<noteq> 0" "p \<le> 28"
  shows "\<exists>rb. lockfree_ring_buffer_create p True = Some (Some rb) \<and>
              ring_inv rb (unat p) \<and> ring_items rb = []"
proof -
  have n: "unat p \<le> 28" "unat p < 32" and lt: "p < 32"
    using assms(2) by (auto simp: word_le_nat_alt word_less_nat_alt)
  have slots: "ring_slots sizeof_lockfree_ring_buffer
      (required_size32 sizeof_lockfree_ring_buffer (2 ^ unat p)) = 2 ^ unat p"
    using n unat_required_size32 [of "unat p" 136]
    by (simp add: ring_slots_def sizeof_lockfree_ring_buffer_def sizeof_ptr_def)
  show ?thesis
    using assms lt ring_inv_fresh [OF n(2), of "\<lparr>rb_high = 0, rb_low = 0, rb_size = 2 ^ unat p,
      rb_mod = 2 ^ unat p - 1, rb_buffer = replicate (2 ^ unat p) NULL\<rparr>"]
    by (auto simp: lockfree_ring_buffer_create_def Let_def slots)
qed

lemma lockfree_ring_buffer_size_items:
  assumes "ring_inv rb k" "k < 63"
  shows "lockfree_ring_buffer_size rb = length (ring_items rb)"
proof -
  have "length (ring_items rb) \<le> 2 ^ k"
    using assms ring_inv_span(2) [OF assms(1)] unfolding ring_inv_def by linarith
  also have "(2::nat) ^ k < 2 ^ 63"
    using assms(2) by (intro power_strict_increasing) auto
  finally have lt: "unat (rb_high rb - rb_low rb) < 2 ^ 63"
    using ring_inv_span(1,2) [OF assms(1)] by simp
  then have "int (unat (rb_high rb - rb_low rb)) < 2 ^ 63"
    by (metis of_nat_less_iff of_nat_numeral of_nat_power)
  then have "uint (rb_high rb - rb_low rb) < 2 ^ 63"
    by simp
  moreover have "- (2 ^ 63) \<le> uint (rb_high rb - rb_low rb)"
    by (rule order_trans [OF _ uint_ge_0]) simp
  ultimately have "sint (rb_high rb - rb_low rb) = int (unat (rb_high rb - rb_low rb))"
    by (simp add: sint_uint signed_take_bit_int_eq_self)
  then show ?thesis
    using ring_inv_span(1,2) [OF assms(1)] by (simp add: lockfree_ring_buffer_size_def Let_def)
qed




section \<open>Properties\<close>

text \<open>C28. From a buffer that \<open>lockfree_ring_buffer_create\<close> returns for a size up to \<open>2 ^ 28\<close>, every sequence of
  fewer than \<open>2 ^ 64\<close> pushes and pops runs without a fault and answers as a bounded first-in first-out
  queue of \<open>2 ^ p\<close> places: a push fails exactly when it is full, a pop exactly when it is empty, a
  spurious compare-exchange failure apart.\<close>

theorem ring_buffer_refines:
  assumes "p \<noteq> 0" "p \<le> 28" "bq_puts_ok ops" "length ops < 2 ^ 64"
  shows "\<exists>rb rb' rs. lockfree_ring_buffer_create p True = Some (Some rb) \<and>
     bq_run lockfree_ring_buffer_trypush lockfree_ring_buffer_trypop rb ops = Some (rb', rs) \<and>
     bq_spec_run (2 ^ unat p) [] ops = (ring_items rb', rs) \<and>
     lockfree_ring_buffer_size rb' = length (ring_items rb')"
proof -
  obtain rb where rb: "lockfree_ring_buffer_create p True = Some (Some rb)" "ring_inv rb (unat p)"
      "ring_items rb = []" "rb_high rb = 0"
    using lockfree_ring_buffer_create_ok [OF assms(1,2)]
    by (auto simp: lockfree_ring_buffer_create_def Let_def split: if_splits)
  then have "ring_ok rb" "ring_capacity rb = 2 ^ unat p"
    using ring_inv_capacity by (auto simp: ring_ok_def)
  then obtain rb' rs where run: "bq_run lockfree_ring_buffer_trypush lockfree_ring_buffer_trypop rb ops = Some (rb', rs)"
      "bq_spec_run (2 ^ unat p) [] ops = (ring_items rb', rs)" "ring_ok rb'" "ring_capacity rb' = 2 ^ unat p"
    using ring.bq_run_refines [of rb ops] rb assms by auto
  then obtain k where k: "ring_inv rb' k" by (auto simp: ring_ok_def)
  then have "2 ^ k = (2 ^ unat p :: nat)" using run(4) ring_inv_capacity by metis
  then have "k = unat p" by simp
  also have "unat p \<le> 28" using assms(2) by (simp add: word_le_nat_alt)
  finally have "k < 63" by simp
  with k rb(1) run show ?thesis using lockfree_ring_buffer_size_items by blast
qed

theorem ring_buffer_refines_witness:
  "\<exists>rb rb' rs. lockfree_ring_buffer_create 1 True = Some (Some rb) \<and>
     bq_run lockfree_ring_buffer_trypush lockfree_ring_buffer_trypop rb
       [Put 5 False, Put 6 False, Put 7 False, Take False, Put 8 False] = Some (rb', rs) \<and>
     bq_spec_run 2 [] [Put 5 False, Put 6 False, Put 7 False, Take False, Put 8 False] = (ring_items rb', rs)"
  using ring_buffer_refines [of 1 "[Put 5 False, Put 6 False, Put 7 False, Take False, Put 8 False]"]
  by (simp del: bq_run.simps bq_spec_run.simps) blast



text \<open>The size of the block is computed in 32 bits: for the exponents 29 to 31, which the assertion
  \<open>power_of_2_size < 32\<close> admits, the product wraps to 0 and the block holds no slot at all, so that
  the first push writes outside of it.\<close>

theorem ring_buffer_create_overflow:
  assumes "29 \<le> p" "p < 32" "x \<noteq> NULL"
  shows "\<exists>rb. lockfree_ring_buffer_create p True = Some (Some rb) \<and> rb_size rb = 2 ^ unat p \<and>
     lockfree_ring_buffer_trypush rb x False = None"
proof -
  have "p = 29 \<or> p = 30 \<or> p = 31"
  proof -
    have "29 \<le> unat p" "unat p < 32" using assms by (simp_all add: word_le_nat_alt word_less_nat_alt)
    then consider "unat p = 29" | "unat p = 30" | "unat p = 31" by linarith
    then show ?thesis
      by cases (metis of_nat_numeral unat_of_nat word_nat_cases unsigned_of_nat of_nat_unat ucast_id)+
  qed
  then show ?thesis
    using assms(3)
    by (elim disjE) (simp_all add: lockfree_ring_buffer_create_def lockfree_ring_buffer_trypush_def
        required_size32_def ring_slots_def sizeof_lockfree_ring_buffer_def sizeof_ptr_def Let_def nth_opt_def ring_index_def)
qed

theorem ring_buffer_create_overflow_witness:
  "\<exists>rb. lockfree_ring_buffer_create 29 True = Some (Some rb) \<and> rb_size rb = 2 ^ unat (29 :: 32 word) \<and>
     lockfree_ring_buffer_trypush rb 5 False = None"
  by (rule ring_buffer_create_overflow) simp_all

end
