(* ===== verification/Rwlock.thy ===== *)
theory Rwlock
  imports Mpsc_Fifo Step_Machine
begin

text \<open>
  \<open>src/fiber_rwlock.c\<close>: the reader-writer lock.  Its state is four bit-fields of 1, 21, 21 and 21
  bits that are read and compare-exchanged as one 64-bit word.  Each operation is a loop whose body
  computes a new word from a snapshot; the bodies are the definitions \<open>..._body\<close>, and the
  interleaved model runs the loops of any number of fibers below \<open>2 ^ 21\<close>.  The two wait queues
  are first-in first-out lists of fibers: a fiber that has to wait enqueues itself in a separate step,
  and a waking fiber that finds the queue empty tries again.
\<close>

record rw_state =
  write_locked :: "1 word"
  reader_count :: "21 word"
  waiting_readers :: "21 word"
  waiting_writers :: "21 word"

unbundle bit_operations_syntax

text \<open>The union of \<open>fiber_rwlock_state_t\<close>: the fields packed from the least significant bit on.\<close>

definition rw_blob :: "rw_state \<Rightarrow> 64 word" where
  "rw_blob s = ucast (write_locked s) OR push_bit 1 (ucast (reader_count s)) OR
               push_bit 22 (ucast (waiting_readers s)) OR push_bit 43 (ucast (waiting_writers s))"

definition rw_unblob :: "64 word \<Rightarrow> rw_state" where
  "rw_unblob b = \<lparr>write_locked = ucast b, reader_count = ucast (drop_bit 1 b),
                  waiting_readers = ucast (drop_bit 22 b), waiting_writers = ucast (drop_bit 43 b)\<rparr>"

section \<open>The loop bodies\<close>

datatype lock_outcome = Acquired | Must_Wait

definition rdlock_body :: "rw_state \<Rightarrow> rw_state \<times> lock_outcome" where
  "rdlock_body s =
     (if waiting_writers s \<noteq> 0 \<or> write_locked s \<noteq> 0 \<or> waiting_readers s \<noteq> 0
      then (s\<lparr>waiting_readers := waiting_readers s + 1\<rparr>, Must_Wait)
      else (s\<lparr>reader_count := reader_count s + 1\<rparr>, Acquired))"

definition wrlock_body :: "rw_state \<Rightarrow> rw_state \<times> lock_outcome" where
  "wrlock_body s =
     (if rw_blob s \<noteq> 0
      then (s\<lparr>waiting_writers := waiting_writers s + 1\<rparr>, Must_Wait)
      else (s\<lparr>write_locked := 1\<rparr>, Acquired))"

text \<open>The non-blocking forms return \<open>FIBER_ERROR\<close> (\<open>None\<close>) without a compare-exchange.\<close>

definition tryrdlock_body :: "rw_state \<Rightarrow> rw_state option" where
  "tryrdlock_body s =
     (if waiting_writers s \<noteq> 0 \<or> write_locked s \<noteq> 0 \<or> waiting_readers s \<noteq> 0 then None
      else Some (s\<lparr>reader_count := reader_count s + 1\<rparr>))"

definition trywrlock_body :: "rw_state \<Rightarrow> rw_state option" where
  "trywrlock_body s = (if rw_blob s \<noteq> 0 then None else Some (s\<lparr>write_locked := 1\<rparr>))"

text \<open>Unlocking hands the lock over: the outcome says how many fibers of which queue are woken.\<close>

datatype wake = Wake_None | Wake_Writer | Wake_Readers nat

definition rdunlock_body :: "rw_state \<Rightarrow> (rw_state \<times> wake) option" where
  "rdunlock_body s = do {
     c_assert (reader_count s > 0);
     c_assert (write_locked s = 0);
     let s1 = s\<lparr>reader_count := reader_count s - 1\<rparr>;
     if reader_count s1 = 0 \<and> waiting_writers s1 \<noteq> 0
     then Some (s1\<lparr>write_locked := 1, waiting_writers := waiting_writers s1 - 1\<rparr>, Wake_Writer)
     else if reader_count s1 = 0 \<and> waiting_readers s1 \<noteq> 0
     then Some (s1\<lparr>reader_count := waiting_readers s1, waiting_readers := 0\<rparr>,
                Wake_Readers (unat (waiting_readers s1)))
     else Some (s1, Wake_None)
   }"

definition wrunlock_body :: "rw_state \<Rightarrow> (rw_state \<times> wake) option" where
  "wrunlock_body s = do {
     c_assert (reader_count s = 0);
     c_assert (write_locked s \<noteq> 0);
     let s1 = s\<lparr>write_locked := 0\<rparr>;
     if waiting_writers s1 \<noteq> 0
     then Some (s1\<lparr>write_locked := 1, waiting_writers := waiting_writers s1 - 1\<rparr>, Wake_Writer)
     else if waiting_readers s1 \<noteq> 0
     then Some (s1\<lparr>reader_count := waiting_readers s1, waiting_readers := 0\<rparr>,
                Wake_Readers (unat (waiting_readers s1)))
     else Some (s1, Wake_None)
   }"

text \<open>Initialisation and destruction of the two queues.\<close>

record fiber_rwlock =
  rw_word :: rw_state
  rw_write_waiters :: mpsc_fifo
  rw_read_waiters :: mpsc_fifo

definition fiber_rwlock_init ::
  "mpsc_heap \<Rightarrow> fiber_rwlock \<Rightarrow> addr \<Rightarrow> addr \<Rightarrow> (mpsc_heap \<times> fiber_rwlock \<times> int) option" where
  "fiber_rwlock_init h l a b =
     (case mpsc_fifo_init h a of (h1, w, r1) \<Rightarrow>
        if r1 = 0 then do {
          (h2, w') \<leftarrow> mpsc_fifo_destroy h1 w;
          (h3, r') \<leftarrow> mpsc_fifo_destroy h2 (rw_read_waiters l);
          Some (h3, l\<lparr>rw_write_waiters := w', rw_read_waiters := r'\<rparr>, FIBER_ERROR)
        }
        else (case mpsc_fifo_init h1 b of (h2, r, r2) \<Rightarrow>
          if r2 = 0 then do {
            (h3, w') \<leftarrow> mpsc_fifo_destroy h2 w;
            (h4, r') \<leftarrow> mpsc_fifo_destroy h3 r;
            Some (h4, l\<lparr>rw_write_waiters := w', rw_read_waiters := r'\<rparr>, FIBER_ERROR)
          }
          else Some (h2, \<lparr>rw_word = rw_unblob 0, rw_write_waiters = w, rw_read_waiters = r\<rparr>,
                     FIBER_SUCCESS)))"

definition fiber_rwlock_destroy :: "mpsc_heap \<Rightarrow> fiber_rwlock \<Rightarrow> (mpsc_heap \<times> fiber_rwlock) option" where
  "fiber_rwlock_destroy h l = do {
     (h1, w) \<leftarrow> mpsc_fifo_destroy h (rw_write_waiters l);
     (h2, r) \<leftarrow> mpsc_fifo_destroy h1 (rw_read_waiters l);
     Some (h2, l\<lparr>rw_write_waiters := w, rw_read_waiters := r\<rparr>)
   }"

section \<open>Fibers\<close>

datatype rw_op = Op_Rdlock | Op_Wrlock | Op_Tryrdlock | Op_Trywrlock | Op_Rdunlock | Op_Wrunlock

datatype rw_pc =
    R_Idle
  | R_Snap rw_op rw_state
  | Rd_Pushing
  | Rd_Waiting
  | Rd_Held
  | Wr_Pushing
  | Wr_Waiting
  | Wr_Held
  | Waking_Writer
  | Waking_Readers nat

record rw_sys =
  rs_state :: rw_state
  rs_pc :: "nat \<Rightarrow> rw_pc"
  rs_readq :: "nat list"
  rs_writeq :: "nat list"

definition rw_set_pc :: "nat \<Rightarrow> rw_pc \<Rightarrow> rw_sys \<Rightarrow> rw_sys" where
  "rw_set_pc t pc s = s\<lparr>rs_pc := (rs_pc s)(t := pc)\<rparr>"

text \<open>Entering an operation loads the snapshot.\<close>

definition rw_call :: "nat \<Rightarrow> rw_op \<Rightarrow> rw_sys \<Rightarrow> rw_sys" where
  "rw_call t op s = rw_set_pc t (R_Snap op (rs_state s)) s"

definition rw_can_call :: "rw_op \<Rightarrow> rw_pc \<Rightarrow> bool" where
  "rw_can_call op pc =
     (case op of Op_Rdunlock \<Rightarrow> pc = Rd_Held | Op_Wrunlock \<Rightarrow> pc = Wr_Held | _ \<Rightarrow> pc = R_Idle)"

fun waker_pc :: "wake \<Rightarrow> rw_pc" where
  "waker_pc Wake_None = R_Idle"
| "waker_pc Wake_Writer = Waking_Writer"
| "waker_pc (Wake_Readers n) = Waking_Readers n"

text \<open>
  The end of a loop body: the compare-exchange succeeds when the word is still the snapshot,
  otherwise the loop loads a new snapshot.
\<close>

definition rw_cas :: "nat \<Rightarrow> rw_op \<Rightarrow> rw_state \<Rightarrow> rw_state \<Rightarrow> rw_pc \<Rightarrow> rw_sys \<Rightarrow> rw_sys" where
  "rw_cas t op snapshot new pc s =
     (if rs_state s = snapshot then rw_set_pc t pc (s\<lparr>rs_state := new\<rparr>)
      else rw_set_pc t (R_Snap op (rs_state s)) s)"

definition rw_loop :: "nat \<Rightarrow> rw_op \<Rightarrow> rw_state \<Rightarrow> rw_sys \<Rightarrow> rw_sys option" where
  "rw_loop t op snapshot s =
     (case op of
        Op_Rdlock \<Rightarrow>
          (case rdlock_body snapshot of (new, out) \<Rightarrow>
             Some (rw_cas t op snapshot new (if out = Acquired then Rd_Held else Rd_Pushing) s))
      | Op_Wrlock \<Rightarrow>
          (case wrlock_body snapshot of (new, out) \<Rightarrow>
             Some (rw_cas t op snapshot new (if out = Acquired then Wr_Held else Wr_Pushing) s))
      | Op_Tryrdlock \<Rightarrow>
          (case tryrdlock_body snapshot of
             None \<Rightarrow> Some (rw_set_pc t R_Idle s)
           | Some new \<Rightarrow> Some (rw_cas t op snapshot new Rd_Held s))
      | Op_Trywrlock \<Rightarrow>
          (case trywrlock_body snapshot of
             None \<Rightarrow> Some (rw_set_pc t R_Idle s)
           | Some new \<Rightarrow> Some (rw_cas t op snapshot new Wr_Held s))
      | Op_Rdunlock \<Rightarrow> do {
          (new, w) \<leftarrow> rdunlock_body snapshot;
          Some (rw_cas t op snapshot new (waker_pc w) s)
        }
      | Op_Wrunlock \<Rightarrow> do {
          (new, w) \<leftarrow> wrunlock_body snapshot;
          Some (rw_cas t op snapshot new (waker_pc w) s)
        })"

text \<open>Waiting enqueues the fiber; waking dequeues the oldest fiber, which then holds the lock.\<close>

definition rw_wake_reader :: "nat \<Rightarrow> nat \<Rightarrow> rw_sys \<Rightarrow> rw_sys" where
  "rw_wake_reader t n s =
     (case rs_readq s of
        [] \<Rightarrow> s
      | u # q \<Rightarrow> rw_set_pc t (if n - 1 = 0 then R_Idle else Waking_Readers (n - 1))
                   (rw_set_pc u Rd_Held (s\<lparr>rs_readq := q\<rparr>)))"

definition rw_wake_writer :: "nat \<Rightarrow> rw_sys \<Rightarrow> rw_sys" where
  "rw_wake_writer t s =
     (case rs_writeq s of
        [] \<Rightarrow> s
      | u # q \<Rightarrow> rw_set_pc t R_Idle (rw_set_pc u Wr_Held (s\<lparr>rs_writeq := q\<rparr>)))"

datatype rw_act = Rw_Call nat rw_op | Rw_Step nat

fun rw_step :: "rw_act \<Rightarrow> rw_sys \<Rightarrow> rw_sys option" where
  "rw_step (Rw_Call t op) s = Some (if rw_can_call op (rs_pc s t) then rw_call t op s else s)"
| "rw_step (Rw_Step t) s =
     (case rs_pc s t of
        R_Snap op snapshot \<Rightarrow> rw_loop t op snapshot s
      | Rd_Pushing \<Rightarrow> Some (rw_set_pc t Rd_Waiting (s\<lparr>rs_readq := rs_readq s @ [t]\<rparr>))
      | Wr_Pushing \<Rightarrow> Some (rw_set_pc t Wr_Waiting (s\<lparr>rs_writeq := rs_writeq s @ [t]\<rparr>))
      | Waking_Writer \<Rightarrow> Some (rw_wake_writer t s)
      | Waking_Readers n \<Rightarrow> Some (rw_wake_reader t n s)
      | _ \<Rightarrow> Some s)"

fun rw_fiber :: "rw_act \<Rightarrow> nat" where
  "rw_fiber (Rw_Call t op) = t"
| "rw_fiber (Rw_Step t) = t"

definition rw_sys_init :: rw_sys where
  "rw_sys_init = \<lparr>rs_state = rw_unblob 0, rs_pc = (\<lambda>_. R_Idle), rs_readq = [], rs_writeq = []\<rparr>"

abbreviation rw_run :: "rw_act list \<Rightarrow> rw_sys \<Rightarrow> rw_sys option" where
  "rw_run \<equiv> run_steps rw_step"

section \<open>Packing\<close>

lemma rw_unblob_blob: "rw_unblob (rw_blob s) = s"
proof -
  have "write_locked (rw_unblob (rw_blob s)) = write_locked s"
    by (rule bit_word_eqI) (auto simp: rw_unblob_def rw_blob_def bit_simps simp del: One_nat_def push_bit_Suc)
  moreover have "reader_count (rw_unblob (rw_blob s)) = reader_count s"
    by (rule bit_word_eqI) (auto simp: rw_unblob_def rw_blob_def bit_simps simp del: One_nat_def push_bit_Suc dest: bit_imp_le_length)
  moreover have "waiting_readers (rw_unblob (rw_blob s)) = waiting_readers s"
    by (rule bit_word_eqI) (auto simp: rw_unblob_def rw_blob_def bit_simps simp del: One_nat_def push_bit_Suc dest: bit_imp_le_length)
  moreover have "waiting_writers (rw_unblob (rw_blob s)) = waiting_writers s"
    by (rule bit_word_eqI) (auto simp: rw_unblob_def rw_blob_def bit_simps simp del: One_nat_def push_bit_Suc dest: bit_imp_le_length)
  ultimately show ?thesis by simp
qed

lemma rw_blob_unblob: "rw_blob (rw_unblob b) = b"
proof (rule bit_word_eqI)
  fix n assume n: "n < LENGTH(64)"
  then consider "n = 0" | "1 \<le> n \<and> n < 22" | "22 \<le> n \<and> n < 43" | "43 \<le> n \<and> n < 64" by fastforce
  then show "bit (rw_blob (rw_unblob b)) n = bit b n"
    by cases (auto simp: rw_unblob_def rw_blob_def bit_simps simp del: One_nat_def push_bit_Suc)
qed

lemma rw_blob_eq_0: "rw_blob s = 0 \<longleftrightarrow>
    write_locked s = 0 \<and> reader_count s = 0 \<and> waiting_readers s = 0 \<and> waiting_writers s = 0"
proof
  assume "rw_blob s = 0"
  then have "s = rw_unblob 0" using rw_unblob_blob [of s] by simp
  then show "write_locked s = 0 \<and> reader_count s = 0 \<and> waiting_readers s = 0 \<and> waiting_writers s = 0"
    by (simp add: rw_unblob_def)
qed (simp add: rw_blob_def)

section \<open>The invariant\<close>

text \<open>Weights: who holds the lock, who waits, and how many grants a waking fiber still owes.\<close>

fun reads :: "rw_pc \<Rightarrow> nat" where
  "reads Rd_Held = 1"
| "reads (R_Snap Op_Rdunlock sn) = 1"
| "reads _ = 0"

fun writes :: "rw_pc \<Rightarrow> nat" where
  "writes Wr_Held = 1"
| "writes (R_Snap Op_Wrunlock sn) = 1"
| "writes _ = 0"

fun waits_read :: "rw_pc \<Rightarrow> nat" where
  "waits_read Rd_Pushing = 1"
| "waits_read Rd_Waiting = 1"
| "waits_read _ = 0"

fun waits_write :: "rw_pc \<Rightarrow> nat" where
  "waits_write Wr_Pushing = 1"
| "waits_write Wr_Waiting = 1"
| "waits_write _ = 0"

fun owes_read :: "rw_pc \<Rightarrow> nat" where
  "owes_read (Waking_Readers n) = n"
| "owes_read _ = 0"

fun owes_write :: "rw_pc \<Rightarrow> nat" where
  "owes_write Waking_Writer = 1"
| "owes_write _ = 0"

fun wakes_read :: "rw_pc \<Rightarrow> nat" where
  "wakes_read (Waking_Readers n) = 1"
| "wakes_read _ = 0"

fun rw_pc_ok :: "rw_pc \<Rightarrow> bool" where
  "rw_pc_ok (R_Snap Op_Rdunlock sn) = (reader_count sn \<noteq> 0 \<and> write_locked sn = 0)"
| "rw_pc_ok (R_Snap Op_Wrunlock sn) = (reader_count sn = 0 \<and> write_locked sn \<noteq> 0)"
| "rw_pc_ok (Waking_Readers n) = (0 < n)"
| "rw_pc_ok _ = True"

definition rw_counts :: "nat \<Rightarrow> rw_state \<Rightarrow> (nat \<Rightarrow> rw_pc) \<Rightarrow> bool" where
  "rw_counts N st pc \<longleftrightarrow>
     unat (reader_count st) = weight N reads pc + weight N owes_read pc \<and>
     unat (write_locked st) = weight N writes pc + weight N owes_write pc \<and>
     unat (waiting_readers st) + weight N owes_read pc = weight N waits_read pc \<and>
     unat (waiting_writers st) + weight N owes_write pc = weight N waits_write pc \<and>
     (write_locked st = 0 \<or> reader_count st = 0) \<and>
     (reader_count st = 0 \<and> write_locked st = 0 \<longrightarrow> waiting_readers st = 0 \<and> waiting_writers st = 0) \<and>
     weight N wakes_read pc \<le> 1"

definition rw_queues :: "nat \<Rightarrow> rw_sys \<Rightarrow> bool" where
  "rw_queues N s \<longleftrightarrow>
     distinct (rs_readq s) \<and> set (rs_readq s) = {t. rs_pc s t = Rd_Waiting} \<and>
     distinct (rs_writeq s) \<and> set (rs_writeq s) = {t. rs_pc s t = Wr_Waiting} \<and>
     (\<forall>t \<ge> N. rs_pc s t = R_Idle)"

definition rw_inv :: "nat \<Rightarrow> rw_sys \<Rightarrow> bool" where
  "rw_inv N s \<longleftrightarrow> rw_counts N (rs_state s) (rs_pc s) \<and> rw_queues N s \<and> (\<forall>t. rw_pc_ok (rs_pc s t))"

lemma reads_waits_le:
  "weight N reads pc + weight N waits_read pc + weight N writes pc + weight N waits_write pc \<le> N"
proof -
  have "weight N (\<lambda>p. ((reads p + waits_read p) + writes p) + waits_write p) pc \<le> N"
  proof (rule weight_le)
    fix p show "((reads p + waits_read p) + writes p) + waits_write p \<le> 1"
      by (cases p; (cases "case p of R_Snap op sn \<Rightarrow> op | _ \<Rightarrow> Op_Rdlock")?) (auto split: rw_op.splits)
  qed
  then show ?thesis by (simp add: weight_add)
qed

lemma wakes_le_owes: "\<forall>t. rw_pc_ok (pc t) \<Longrightarrow> weight N wakes_read pc \<le> weight N owes_read pc"
  unfolding weight_def
proof (rule sum_mono)
  fix t assume "\<forall>t. rw_pc_ok (pc t)"
  then have "rw_pc_ok (pc t)" by blast
  then show "wakes_read (pc t) \<le> owes_read (pc t)" by (cases "pc t") auto
qed

text \<open>Bit-fields as numbers.\<close>

lemma unat_Suc21: "Suc (unat w) < 2 ^ 21 \<Longrightarrow> unat (w + 1 :: 21 word) = Suc (unat w)"
  by (simp add: unat_word_ariths)

lemma unat_pred: "w \<noteq> 0 \<Longrightarrow> unat (w - 1 :: 'a::len word) = unat w - 1"
  by (metis unat_eq_zero unat_minus_one)

lemma word1_cases: "(w :: 1 word) = 0 \<or> w = 1"
proof -
  have "unat w < 2 ^ LENGTH(1)" by (rule unsigned_less)
  then have "unat w = 0 \<or> unat w = 1" by auto
  then show ?thesis by (metis unat_0 unat_1 word_unat_eq_iff)
qed

section \<open>Preservation of the counts\<close>

text \<open>The totals after one fiber moves.\<close>

lemma totals_upd:
  assumes "t < N"
  shows "weight N reads (pc(t := x)) + reads (pc t) = weight N reads pc + reads x"
    and "weight N writes (pc(t := x)) + writes (pc t) = weight N writes pc + writes x"
    and "weight N waits_read (pc(t := x)) + waits_read (pc t) = weight N waits_read pc + waits_read x"
    and "weight N waits_write (pc(t := x)) + waits_write (pc t) = weight N waits_write pc + waits_write x"
    and "weight N owes_read (pc(t := x)) + owes_read (pc t) = weight N owes_read pc + owes_read x"
    and "weight N owes_write (pc(t := x)) + owes_write (pc t) = weight N owes_write pc + owes_write x"
    and "weight N wakes_read (pc(t := x)) + wakes_read (pc t) = weight N wakes_read pc + wakes_read x"
  by (rule weight_upd [OF assms])+

definition same_weights :: "rw_pc \<Rightarrow> rw_pc \<Rightarrow> bool" where
  "same_weights p q \<longleftrightarrow> reads p = reads q \<and> writes p = writes q \<and> waits_read p = waits_read q \<and>
     waits_write p = waits_write q \<and> owes_read p = owes_read q \<and> owes_write p = owes_write q \<and>
     wakes_read p = wakes_read q"

lemma rw_counts_move:
  "rw_counts N st pc \<Longrightarrow> t < N \<Longrightarrow> same_weights (pc t) x \<Longrightarrow> rw_counts N st (pc(t := x))"
  using totals_upd [of t N pc x] by (simp add: rw_counts_def same_weights_def)

lemma rw_counts_acquire_read:
  assumes c: "rw_counts N st pc" and t: "t < N" "same_weights (pc t) R_Idle" and N: "N < 2 ^ 21"
    and free: "waiting_writers st = 0" "write_locked st = 0"
  shows "rw_counts N (st\<lparr>reader_count := reader_count st + 1\<rparr>) (pc(t := Rd_Held))"
proof -
  note tot = totals_upd [OF t(1), of pc Rd_Held]
  have "Suc (unat (reader_count st)) < 2 ^ 21"
    using c t(2) N tot reads_waits_le [of N "pc(t := Rd_Held)"] by (simp add: rw_counts_def same_weights_def)
  note inc = unat_Suc21 [OF this]
  have "reader_count st + 1 \<noteq> 0" using inc by (metis nat.distinct(1) unat_0)
  then show ?thesis
    using c t(2) tot free inc by (auto simp: rw_counts_def same_weights_def)
qed

lemma rw_counts_wait_read:
  assumes c: "rw_counts N st pc" and t: "t < N" "same_weights (pc t) R_Idle" and N: "N < 2 ^ 21"
    and busy: "waiting_writers st \<noteq> 0 \<or> write_locked st \<noteq> 0 \<or> waiting_readers st \<noteq> 0"
  shows "rw_counts N (st\<lparr>waiting_readers := waiting_readers st + 1\<rparr>) (pc(t := Rd_Pushing))"
proof -
  note tot = totals_upd [OF t(1), of pc Rd_Pushing]
  have "Suc (unat (waiting_readers st)) < 2 ^ 21"
    using c t(2) N tot reads_waits_le [of N "pc(t := Rd_Pushing)"] by (simp add: rw_counts_def same_weights_def)
  then show ?thesis
    using c t(2) tot busy by (auto simp: rw_counts_def same_weights_def unat_Suc21)
qed

lemma rw_counts_acquire_write:
  assumes c: "rw_counts N st pc" and t: "t < N" "same_weights (pc t) R_Idle" and free: "rw_blob st = 0"
  shows "rw_counts N (st\<lparr>write_locked := 1\<rparr>) (pc(t := Wr_Held))"
  using c t(2) totals_upd [OF t(1), of pc Wr_Held] free
  by (auto simp: rw_counts_def same_weights_def rw_blob_eq_0)

lemma rw_counts_wait_write:
  assumes c: "rw_counts N st pc" and t: "t < N" "same_weights (pc t) R_Idle" and N: "N < 2 ^ 21"
    and busy: "rw_blob st \<noteq> 0"
  shows "rw_counts N (st\<lparr>waiting_writers := waiting_writers st + 1\<rparr>) (pc(t := Wr_Pushing))"
proof -
  note tot = totals_upd [OF t(1), of pc Wr_Pushing]
  have "Suc (unat (waiting_writers st)) < 2 ^ 21"
    using c t(2) N tot reads_waits_le [of N "pc(t := Wr_Pushing)"] by (simp add: rw_counts_def same_weights_def)
  then show ?thesis
    using c t(2) tot busy by (auto simp: rw_counts_def same_weights_def unat_Suc21 rw_blob_eq_0)
qed

lemma rw_counts_rdunlock:
  assumes c: "rw_counts N st pc" and t: "t < N" "pc t = R_Snap Op_Rdunlock st" and ok: "\<forall>u. rw_pc_ok (pc u)"
    and body: "rdunlock_body st = Some (st', w)"
  shows "rw_counts N st' (pc(t := waker_pc w)) \<and> rw_pc_ok (waker_pc w)"
proof -
  have rc: "reader_count st \<noteq> 0" "write_locked st = 0"
    using ok t(2) by (metis rw_pc_ok.simps(1))+
  note tot = totals_upd [OF t(1), of pc "waker_pc w"]
  have wk: "weight N wakes_read pc \<le> weight N owes_read pc" by (rule wakes_le_owes [OF ok])
  have r1: "1 \<le> weight N reads pc" using weight_ge [OF t(1), of reads pc] t(2) by simp
  have zero: "reader_count st - 1 = 0 \<longleftrightarrow> unat (reader_count st) = 1"
    using rc(1) unat_pred [OF rc(1)] by (metis diff_is_0_eq' le_numeral_extra(4) unat_eq_zero unat_1 word_unat_eq_iff eq_iff_diff_eq_0)
  consider (w) "reader_count st - 1 = 0" "waiting_writers st \<noteq> 0"
    | (r) "reader_count st - 1 = 0" "waiting_writers st = 0" "waiting_readers st \<noteq> 0"
    | (f) "reader_count st - 1 = 0" "waiting_writers st = 0" "waiting_readers st = 0"
    | (n) "reader_count st - 1 \<noteq> 0" by blast
  then show ?thesis
  proof cases
    case w
    then have "w = Wake_Writer" "st' = st\<lparr>reader_count := reader_count st - 1, write_locked := 1,
        waiting_writers := waiting_writers st - 1\<rparr>"
      using body rc by (auto simp: rdunlock_body_def word_gt_0)
    then show ?thesis
      using c t(2) tot w zero r1 wk unat_pred [OF w(2)] unat_gt_0 [of "waiting_writers st"]
      by (auto simp: rw_counts_def)
  next
    case r
    then have "w = Wake_Readers (unat (waiting_readers st))"
        "st' = st\<lparr>reader_count := waiting_readers st, waiting_readers := 0\<rparr>"
      using body rc by (auto simp: rdunlock_body_def word_gt_0)
    then show ?thesis
      using c t(2) tot r zero r1 wk rc unat_gt_0 [of "waiting_readers st"]
      by (auto simp: rw_counts_def)
  next
    case f
    then have "w = Wake_None" "st' = st\<lparr>reader_count := 0\<rparr>"
      using body rc by (auto simp: rdunlock_body_def word_gt_0)
    then show ?thesis
      using c t(2) tot f zero r1 wk by (auto simp: rw_counts_def)
  next
    case n
    then have "w = Wake_None" "st' = st\<lparr>reader_count := reader_count st - 1\<rparr>"
      using body rc by (auto simp: rdunlock_body_def word_gt_0)
    then show ?thesis
      using c t(2) tot n zero r1 wk rc unat_pred [OF rc(1)] by (auto simp: rw_counts_def)
  qed
qed

lemma rw_counts_wrunlock:
  assumes c: "rw_counts N st pc" and t: "t < N" "pc t = R_Snap Op_Wrunlock st" and ok: "\<forall>u. rw_pc_ok (pc u)"
    and body: "wrunlock_body st = Some (st', w)"
  shows "rw_counts N st' (pc(t := waker_pc w)) \<and> rw_pc_ok (waker_pc w)"
proof -
  have rc: "reader_count st = 0" "write_locked st = 1"
    using ok t(2) word1_cases [of "write_locked st"] by (metis rw_pc_ok.simps(2))+
  note tot = totals_upd [OF t(1), of pc "waker_pc w"]
  have wk: "weight N wakes_read pc \<le> weight N owes_read pc" by (rule wakes_le_owes [OF ok])
  have w1: "1 \<le> weight N writes pc" using weight_ge [OF t(1), of writes pc] t(2) by simp
  consider (w) "waiting_writers st \<noteq> 0"
    | (r) "waiting_writers st = 0" "waiting_readers st \<noteq> 0"
    | (f) "waiting_writers st = 0" "waiting_readers st = 0" by blast
  then show ?thesis
  proof cases
    case w
    then have "w = Wake_Writer" "st' = st\<lparr>waiting_writers := waiting_writers st - 1\<rparr>"
      using body rc by (auto simp: wrunlock_body_def)
    then show ?thesis
      using c t(2) tot w rc w1 wk unat_pred [OF w] unat_gt_0 [of "waiting_writers st"]
      by (auto simp: rw_counts_def)
  next
    case r
    then have "w = Wake_Readers (unat (waiting_readers st))"
        "st' = st\<lparr>write_locked := 0, reader_count := waiting_readers st, waiting_readers := 0\<rparr>"
      using body rc by (auto simp: wrunlock_body_def)
    then show ?thesis
      using c t(2) tot r rc w1 wk unat_gt_0 [of "waiting_readers st"] by (auto simp: rw_counts_def)
  next
    case f
    then have "w = Wake_None" "st' = st\<lparr>write_locked := 0\<rparr>"
      using body rc by (auto simp: wrunlock_body_def)
    then show ?thesis
      using c t(2) tot f rc w1 wk by (auto simp: rw_counts_def)
  qed
qed

lemma rw_counts_wake_reader:
  assumes c: "rw_counts N st pc" and t: "t < N" "pc t = Waking_Readers n" "0 < n"
    and u: "u < N" "pc u = Rd_Waiting" and x: "x = (if n - 1 = 0 then R_Idle else Waking_Readers (n - 1))"
  shows "rw_counts N st (pc(u := Rd_Held, t := x))"
proof -
  let ?pc = "pc(u := Rd_Held, t := x)"
  have ne: "(pc(u := Rd_Held)) t = Waking_Readers n" using t(2) u(2) by auto
  note tt = totals_upd [OF t(1), of "pc(u := Rd_Held)" x, unfolded ne]
  note tu = totals_upd [OF u(1), of pc Rd_Held, unfolded u(2)]
  have "0 < weight N owes_read pc" using weight_ge [OF t(1), of owes_read pc] t(2,3) by simp
  moreover have "weight N reads ?pc = weight N reads pc + 1" "weight N writes ?pc = weight N writes pc"
    using tt(1,2) tu(1,2) x by (auto split: if_splits)
  moreover have "weight N waits_read ?pc + 1 = weight N waits_read pc" "weight N waits_write ?pc = weight N waits_write pc"
    using tt(3,4) tu(3,4) x by (auto split: if_splits)
  moreover have "weight N owes_read ?pc + 1 = weight N owes_read pc" "weight N owes_write ?pc = weight N owes_write pc"
    using tt(5,6) tu(5,6) t(3) x by (auto split: if_splits)
  moreover have "weight N wakes_read ?pc \<le> weight N wakes_read pc"
    using tt(7) tu(7) x by (auto split: if_splits)
  ultimately show ?thesis
    using c unfolding rw_counts_def by linarith
qed

lemma rw_counts_wake_writer:
  assumes c: "rw_counts N st pc" and t: "t < N" "pc t = Waking_Writer" and u: "u < N" "pc u = Wr_Waiting"
  shows "rw_counts N st (pc(u := Wr_Held, t := R_Idle))"
proof -
  have ne: "(pc(u := Wr_Held)) t = Waking_Writer" using t(2) u(2) by auto
  show ?thesis
    using c totals_upd [OF t(1), of "pc(u := Wr_Held)" R_Idle, unfolded ne]
      totals_upd [OF u(1), of pc Wr_Held, unfolded u(2)]
    by (auto simp: rw_counts_def)
qed

section \<open>Preservation of the invariant\<close>

lemma waker_pc_not_waiting [simp]: "waker_pc w \<noteq> Rd_Waiting" "waker_pc w \<noteq> Wr_Waiting"
  by (cases w; simp)+

definition queued :: "rw_pc \<Rightarrow> bool" where
  "queued pc \<longleftrightarrow> pc = Rd_Waiting \<or> pc = Wr_Waiting"

lemma rw_queues_move:
  "rw_queues N s \<Longrightarrow> t < N \<Longrightarrow> \<not> queued (rs_pc s t) \<Longrightarrow> \<not> queued x \<Longrightarrow>
   rw_queues N (s\<lparr>rs_state := st, rs_pc := (rs_pc s)(t := x)\<rparr>)"
  by (auto simp: rw_queues_def queued_def)

lemma rw_inv_move:
  assumes "rw_inv N s" "t < N" "\<not> queued (rs_pc s t)" "\<not> queued x" "rw_pc_ok x"
    "rw_counts N st ((rs_pc s)(t := x))"
  shows "rw_inv N (rw_set_pc t x (s\<lparr>rs_state := st\<rparr>))"
  using assms rw_queues_move [of N s t x st] by (auto simp: rw_inv_def rw_set_pc_def)

text \<open>A snapshot taken while holding the lock satisfies the assertions of the unlock operations.\<close>

lemma rw_snapshot_ok:
  assumes inv: "rw_inv N s" and t: "t < N" and op: "rw_can_call op (rs_pc s t) \<or> (\<exists>sn. rs_pc s t = R_Snap op sn)"
  shows "rw_pc_ok (R_Snap op (rs_state s)) \<and> same_weights (rs_pc s t) (R_Snap op (rs_state s)) \<and>
         \<not> queued (rs_pc s t)"
proof -
  have c: "rw_counts N (rs_state s) (rs_pc s)" using inv by (simp add: rw_inv_def)
  have "reader_count (rs_state s) \<noteq> 0" if "reads (rs_pc s t) = 1"
    using c weight_ge [OF t, of reads "rs_pc s"] that by (auto simp: rw_counts_def)
  moreover have "write_locked (rs_state s) \<noteq> 0" if "writes (rs_pc s t) = 1"
    using c weight_ge [OF t, of writes "rs_pc s"] that by (auto simp: rw_counts_def)
  moreover have "write_locked (rs_state s) = 0 \<or> reader_count (rs_state s) = 0"
    using c by (simp add: rw_counts_def)
  ultimately show ?thesis
    using op by (cases op) (auto simp: rw_can_call_def same_weights_def queued_def)
qed

lemma rw_reload_inv:
  assumes inv: "rw_inv N s" and t: "t < N" and op: "rw_can_call op (rs_pc s t) \<or> (\<exists>sn. rs_pc s t = R_Snap op sn)"
  shows "rw_inv N (rw_call t op s)"
proof -
  note k = rw_snapshot_ok [OF assms]
  have "rw_counts N (rs_state s) ((rs_pc s)(t := R_Snap op (rs_state s)))"
    using inv k t by (intro rw_counts_move) (auto simp: rw_inv_def)
  then show ?thesis
    using rw_inv_move [OF inv t, of "R_Snap op (rs_state s)" "rs_state s"] k
    by (simp add: rw_call_def queued_def)
qed

lemma rw_cas_inv:
  assumes inv: "rw_inv N s" and t: "t < N" and pc: "rs_pc s t = R_Snap op sn"
    and new: "rs_state s = sn \<Longrightarrow> rw_counts N st ((rs_pc s)(t := x)) \<and> rw_pc_ok x" and q: "\<not> queued x"
  shows "rw_inv N (rw_cas t op sn st x s)"
proof (cases "rs_state s = sn")
  case True
  with new have "rw_counts N st ((rs_pc s)(t := x))" "rw_pc_ok x" by auto
  with True rw_inv_move [OF inv t _ q, of st] pc show ?thesis
    by (simp add: rw_cas_def queued_def)
next
  case False
  with rw_reload_inv [OF inv t, of op] pc show ?thesis
    by (simp add: rw_cas_def rw_call_def)
qed

lemma rw_abort_inv:
  assumes inv: "rw_inv N s" and t: "t < N" and pc: "rs_pc s t = R_Snap op sn" and w: "same_weights (R_Snap op sn) R_Idle"
  shows "rw_inv N (rw_set_pc t R_Idle s)"
proof -
  have "rw_counts N (rs_state s) ((rs_pc s)(t := R_Idle))"
    using inv pc w t by (intro rw_counts_move) (auto simp: rw_inv_def)
  then show ?thesis
    using rw_inv_move [OF inv t, of R_Idle "rs_state s"] pc by (simp add: queued_def)
qed

lemma rw_loop_inv:
  assumes inv: "rw_inv N s" and t: "t < N" and N: "N < 2 ^ 21" and pc: "rs_pc s t = R_Snap op sn"
  shows "\<exists>s'. rw_loop t op sn s = Some s' \<and> rw_inv N s'"
proof -
  have c: "rw_counts N (rs_state s) (rs_pc s)" and ok: "\<forall>u. rw_pc_ok (rs_pc s u)"
    using inv by (auto simp: rw_inv_def)
  note cas = rw_cas_inv [OF inv t pc]
  show ?thesis
  proof (cases op)
    case Op_Rdlock
    then have w: "same_weights (rs_pc s t) R_Idle" using pc by (simp add: same_weights_def)
    obtain st out where b: "rdlock_body sn = (st, out)" by fastforce
    have "rw_inv N (rw_cas t op sn st (if out = Acquired then Rd_Held else Rd_Pushing) s)"
      using b rw_counts_acquire_read [OF c t w N] rw_counts_wait_read [OF c t w N]
      by (intro cas) (auto simp: rdlock_body_def queued_def split: if_splits)
    then show ?thesis using Op_Rdlock b by (simp add: rw_loop_def)
  next
    case Op_Wrlock
    then have w: "same_weights (rs_pc s t) R_Idle" using pc by (simp add: same_weights_def)
    obtain st out where b: "wrlock_body sn = (st, out)" by fastforce
    have "rw_inv N (rw_cas t op sn st (if out = Acquired then Wr_Held else Wr_Pushing) s)"
      using b rw_counts_acquire_write [OF c t w] rw_counts_wait_write [OF c t w N]
      by (intro cas) (auto simp: wrlock_body_def queued_def split: if_splits)
    then show ?thesis using Op_Wrlock b by (simp add: rw_loop_def)
  next
    case Op_Tryrdlock
    then have w: "same_weights (rs_pc s t) R_Idle" using pc by (simp add: same_weights_def)
    have "rw_inv N (rw_cas t op sn st Rd_Held s)" if "tryrdlock_body sn = Some st" for st
      using that rw_counts_acquire_read [OF c t w N]
      by (intro cas) (auto simp: tryrdlock_body_def queued_def split: if_splits)
    then show ?thesis
      using Op_Tryrdlock rw_abort_inv [OF inv t pc] w pc by (auto simp: rw_loop_def split: option.splits)
  next
    case Op_Trywrlock
    then have w: "same_weights (rs_pc s t) R_Idle" using pc by (simp add: same_weights_def)
    have "rw_inv N (rw_cas t op sn st Wr_Held s)" if "trywrlock_body sn = Some st" for st
      using that rw_counts_acquire_write [OF c t w]
      by (intro cas) (auto simp: trywrlock_body_def queued_def split: if_splits)
    then show ?thesis
      using Op_Trywrlock rw_abort_inv [OF inv t pc] w pc by (auto simp: rw_loop_def split: option.splits)
  next
    case Op_Rdunlock
    have "rw_pc_ok (R_Snap op sn)" using ok pc by metis
    then have "rdunlock_body sn \<noteq> None"
      using Op_Rdunlock by (simp add: rdunlock_body_def word_gt_0 Let_def)
    then obtain st w where b: "rdunlock_body sn = Some (st, w)" by auto
    have "rw_inv N (rw_cas t op sn st (waker_pc w) s)"
      using b rw_counts_rdunlock [OF c t _ ok] pc Op_Rdunlock
      by (intro cas) (auto simp: queued_def)
    then show ?thesis using Op_Rdunlock b by (simp add: rw_loop_def)
  next
    case Op_Wrunlock
    have "rw_pc_ok (R_Snap op sn)" using ok pc by metis
    then have "wrunlock_body sn \<noteq> None"
      using Op_Wrunlock by (simp add: wrunlock_body_def Let_def)
    then obtain st w where b: "wrunlock_body sn = Some (st, w)" by auto
    have "rw_inv N (rw_cas t op sn st (waker_pc w) s)"
      using b rw_counts_wrunlock [OF c t _ ok] pc Op_Wrunlock
      by (intro cas) (auto simp: queued_def)
    then show ?thesis using Op_Wrunlock b by (simp add: rw_loop_def)
  qed
qed

lemma rw_wake_reader_inv:
  assumes inv: "rw_inv N s" and t: "t < N" "rs_pc s t = Waking_Readers n"
  shows "rw_inv N (rw_wake_reader t n s)"
proof (cases "rs_readq s")
  case (Cons u q)
  have n: "0 < n" using inv t(2) unfolding rw_inv_def by (metis rw_pc_ok.simps(3))
  have q: "rw_queues N s" using inv by (simp add: rw_inv_def)
  then have u: "rs_pc s u = Rd_Waiting" using Cons by (auto simp: rw_queues_def)
  then have uN: "u < N" using q by (metis rw_queues_def not_le rw_pc.distinct(5))
  define x where "x = (if n - 1 = 0 then R_Idle else Waking_Readers (n - 1))"
  have "rw_counts N (rs_state s) ((rs_pc s)(u := Rd_Held, t := x))"
    using inv t n uN u x_def by (intro rw_counts_wake_reader) (auto simp: rw_inv_def)
  moreover have "rw_queues N (rw_wake_reader t n s)"
    using q Cons u t n uN
    by (auto simp: rw_queues_def rw_wake_reader_def rw_set_pc_def)
  ultimately show ?thesis
    using inv Cons n by (auto simp: rw_inv_def rw_wake_reader_def rw_set_pc_def x_def)
qed (use inv in \<open>simp add: rw_wake_reader_def\<close>)

lemma rw_wake_writer_inv:
  assumes inv: "rw_inv N s" and t: "t < N" "rs_pc s t = Waking_Writer"
  shows "rw_inv N (rw_wake_writer t s)"
proof (cases "rs_writeq s")
  case (Cons u q)
  have q: "rw_queues N s" using inv by (simp add: rw_inv_def)
  then have u: "rs_pc s u = Wr_Waiting" using Cons by (auto simp: rw_queues_def)
  then have uN: "u < N" using q by (metis rw_queues_def not_le rw_pc.distinct(11))
  have "rw_counts N (rs_state s) ((rs_pc s)(u := Wr_Held, t := R_Idle))"
    using inv t uN u by (intro rw_counts_wake_writer) (auto simp: rw_inv_def)
  moreover have "rw_queues N (rw_wake_writer t s)"
    using q Cons u t uN by (auto simp: rw_queues_def rw_wake_writer_def rw_set_pc_def)
  ultimately show ?thesis
    using inv Cons by (auto simp: rw_inv_def rw_wake_writer_def rw_set_pc_def)
qed (use inv in \<open>simp add: rw_wake_writer_def\<close>)

lemma rw_push_read_inv:
  assumes inv: "rw_inv N s" and t: "t < N" "rs_pc s t = Rd_Pushing"
  shows "rw_inv N (rw_set_pc t Rd_Waiting (s\<lparr>rs_readq := rs_readq s @ [t]\<rparr>))"
proof -
  have "rw_counts N (rs_state s) ((rs_pc s)(t := Rd_Waiting))"
    using inv t by (intro rw_counts_move) (auto simp: rw_inv_def same_weights_def)
  then show ?thesis
    using inv t by (auto simp: rw_inv_def rw_queues_def rw_set_pc_def)
qed

lemma rw_push_write_inv:
  assumes inv: "rw_inv N s" and t: "t < N" "rs_pc s t = Wr_Pushing"
  shows "rw_inv N (rw_set_pc t Wr_Waiting (s\<lparr>rs_writeq := rs_writeq s @ [t]\<rparr>))"
proof -
  have "rw_counts N (rs_state s) ((rs_pc s)(t := Wr_Waiting))"
    using inv t by (intro rw_counts_move) (auto simp: rw_inv_def same_weights_def)
  then show ?thesis
    using inv t by (auto simp: rw_inv_def rw_queues_def rw_set_pc_def)
qed

lemma rw_step_inv:
  assumes inv: "rw_inv N s" and N: "N < 2 ^ 21" and a: "rw_fiber a < N"
  shows "\<exists>s'. rw_step a s = Some s' \<and> rw_inv N s'"
proof (cases a)
  case (Rw_Call t op)
  with rw_reload_inv [OF inv, of t op] inv a show ?thesis by auto
next
  case (Rw_Step t)
  then have t: "t < N" using a by simp
  note lemmas_ = rw_loop_inv [OF inv t N] rw_push_read_inv [OF inv t] rw_push_write_inv [OF inv t]
    rw_wake_writer_inv [OF inv t] rw_wake_reader_inv [OF inv t]
  show ?thesis
    using Rw_Step inv lemmas_ by (cases "rs_pc s t") simp_all
qed

interpretation rw_machine: machine rw_step "\<lambda>a. rw_fiber a < N" "\<lambda>_ s. N < 2 ^ 21 \<and> rw_inv N s" for N
  by unfold_locales (use rw_step_inv in blast)

lemma rw_sys_init_inv: "rw_inv N rw_sys_init"
  by (simp add: rw_inv_def rw_counts_def rw_queues_def rw_sys_init_def rw_unblob_def)

text \<open>What the counts say about holders and waiters.\<close>

lemma rw_inv_exclusive:
  assumes inv: "rw_inv N s" and w: "writes (rs_pc s t) = 1" and u: "u \<noteq> t"
  shows "writes (rs_pc s u) = 0 \<and> reads (rs_pc s u) = 0"
proof (cases "u < N")
  case True
  have c: "rw_counts N (rs_state s) (rs_pc s)" and q: "\<forall>t \<ge> N. rs_pc s t = R_Idle"
    using inv by (auto simp: rw_inv_def rw_queues_def)
  have t: "t < N" using q w by (metis not_le writes.simps(3) zero_neq_one)
  have "unat (write_locked (rs_state s)) < 2 ^ LENGTH(1)" by (rule unsigned_less)
  then have "weight N writes (rs_pc s) \<le> 1" using c by (simp add: rw_counts_def)
  then have 1: "writes (rs_pc s u) = 0"
    using weight_ge2 [OF t True, of writes "rs_pc s"] w u by simp
  have "write_locked (rs_state s) \<noteq> 0"
    using weight_ge [OF t, of writes "rs_pc s"] w c by (auto simp: rw_counts_def)
  then have "unat (reader_count (rs_state s)) = 0" using c by (auto simp: rw_counts_def)
  then have "weight N reads (rs_pc s) = 0" using c by (simp add: rw_counts_def)
  then show ?thesis
    using 1 weight_ge [OF True, of reads "rs_pc s"] by simp
next
  case False
  then show ?thesis using inv by (simp add: rw_inv_def rw_queues_def)
qed

lemma rw_inv_waiter_covered:
  assumes inv: "rw_inv N s" and w: "waits_read (rs_pc s t) = 1 \<or> waits_write (rs_pc s t) = 1"
  shows "\<exists>u < N. reads (rs_pc s u) = 1 \<or> writes (rs_pc s u) = 1 \<or> 0 < owes_read (rs_pc s u) \<or> owes_write (rs_pc s u) = 1"
proof -
  have c: "rw_counts N (rs_state s) (rs_pc s)" and q: "\<forall>t \<ge> N. rs_pc s t = R_Idle"
    using inv by (auto simp: rw_inv_def rw_queues_def)
  have t: "t < N" using q w by (metis not_le waits_read.simps(3) waits_write.simps(3) zero_neq_one)
  have "0 < weight N waits_read (rs_pc s) \<or> 0 < weight N waits_write (rs_pc s)"
    using w weight_ge [OF t, of waits_read "rs_pc s"] weight_ge [OF t, of waits_write "rs_pc s"] by auto
  then have "0 < weight N reads (rs_pc s) \<or> 0 < weight N writes (rs_pc s) \<or>
      0 < weight N owes_read (rs_pc s) \<or> 0 < weight N owes_write (rs_pc s)"
    using c by (auto simp: rw_counts_def unat_eq_zero)
  moreover have "0 < reads p \<Longrightarrow> reads p = 1" for p by (cases p rule: reads.cases) simp_all
  moreover have "0 < writes p \<Longrightarrow> writes p = 1" for p by (cases p rule: writes.cases) simp_all
  moreover have "0 < owes_write p \<Longrightarrow> owes_write p = 1" for p by (cases p) simp_all
  ultimately show ?thesis
    using weight_pos [of N _ "rs_pc s"] by metis
qed

section \<open>Properties\<close>

text \<open>C4. With fewer than \<open>2 ^ 21\<close> fibers calling the six operations in any interleaving: no assertion
  fails, a fiber that holds the lock for writing excludes every other reader and writer, and a fiber
  that waits is covered by somebody who holds the lock or is about to hand it over, so that no wake-up
  is lost.\<close>

theorem rwlock_exclusion_and_wakeup:
  assumes "N < 2 ^ 21" "\<forall>a \<in> set acts. rw_fiber a < N"
  shows "\<exists>s. rw_run acts rw_sys_init = Some s \<and>
     (\<forall>t u. writes (rs_pc s t) = 1 \<and> u \<noteq> t \<longrightarrow> writes (rs_pc s u) = 0 \<and> reads (rs_pc s u) = 0) \<and>
     (\<forall>t. waits_read (rs_pc s t) = 1 \<or> waits_write (rs_pc s t) = 1 \<longrightarrow>
       (\<exists>u. reads (rs_pc s u) = 1 \<or> writes (rs_pc s u) = 1 \<or> 0 < owes_read (rs_pc s u) \<or> owes_write (rs_pc s u) = 1))"
proof -
  obtain s where run: "rw_run acts rw_sys_init = Some s" and inv: "rw_inv N s"
    using rw_machine.run_ok [where N = N and as = acts and s = rw_sys_init] assms rw_sys_init_inv [of N] by auto
  show ?thesis
    using run rw_inv_exclusive [OF inv] rw_inv_waiter_covered [OF inv] by blast
qed

theorem rwlock_exclusion_and_wakeup_witness:
  "\<exists>s. rw_run [Rw_Call 0 Op_Wrlock, Rw_Step 0, Rw_Call 1 Op_Rdlock, Rw_Step 1, Rw_Step 1, Rw_Call 0 Op_Wrunlock,
               Rw_Step 0, Rw_Step 0] rw_sys_init = Some s \<and>
     (\<forall>t u. writes (rs_pc s t) = 1 \<and> u \<noteq> t \<longrightarrow> writes (rs_pc s u) = 0 \<and> reads (rs_pc s u) = 0)"
  using rwlock_exclusion_and_wakeup [of 2 "[Rw_Call 0 Op_Wrlock, Rw_Step 0, Rw_Call 1 Op_Rdlock, Rw_Step 1, Rw_Step 1,
      Rw_Call 0 Op_Wrunlock, Rw_Step 0, Rw_Step 0]"]
  by (simp del: run_steps.simps) blast

text \<open>The four bit fields of the lock word and its 64-bit view \<open>blob\<close> determine each other, so that
  the compare-exchange on \<open>blob\<close> compares and replaces the whole state.\<close>

theorem rw_blob_roundtrip: "rw_unblob (rw_blob st) = st \<and> rw_blob (rw_unblob w) = w"
  by (simp add: rw_unblob_blob rw_blob_unblob)

end
