(* ===== verification/Mutex.thy ===== *)
theory Mutex
  imports Mpsc_Fifo Step_Machine
begin

text \<open>
  \<open>src/fiber_mutex.c\<close>: a counter that is 1 when the mutex is free and one less for every holder and
  waiter, and a queue of waiters.  Every atomic operation on the counter and every queue operation
  is a step; the queue is the first-in first-out list of the fibers whose push has taken effect, and an
  unlocking fiber that finds it empty tries again, as \<open>fiber_manager_wake_from_mpsc_queue\<close> does.
\<close>

record fiber_mutex =
  mx_counter :: "32 word"
  mx_waiters :: mpsc_fifo

definition fiber_mutex_init :: "mpsc_heap \<Rightarrow> addr \<Rightarrow> mpsc_heap \<times> fiber_mutex \<times> int" where
  "fiber_mutex_init h a =
     (case mpsc_fifo_init h a of (h', f, r) \<Rightarrow>
        (h', \<lparr>mx_counter = 1, mx_waiters = f\<rparr>, if r = 0 then FIBER_ERROR else FIBER_SUCCESS))"

definition fiber_mutex_destroy :: "mpsc_heap \<Rightarrow> fiber_mutex \<Rightarrow> (mpsc_heap \<times> fiber_mutex \<times> int) option" where
  "fiber_mutex_destroy h m = do {
     (h', f) \<leftarrow> mpsc_fifo_destroy h (mx_waiters m);
     Some (h', \<lparr>mx_counter = 1, mx_waiters = f\<rparr>, FIBER_SUCCESS)
   }"

section \<open>Operations on the counter\<close>

definition mutex_lock_sub :: "32 word \<Rightarrow> 32 word \<times> bool" where
  "mutex_lock_sub counter = (let val = counter - 1 in (val, val = 0))"

definition mutex_try_cas :: "32 word \<Rightarrow> bool \<Rightarrow> 32 word \<times> int" where
  "mutex_try_cas counter spurious =
     (if counter = 1 \<and> \<not> spurious then (0, FIBER_SUCCESS) else (counter, FIBER_ERROR))"

definition mutex_unlock_add :: "32 word \<Rightarrow> 32 word \<times> bool" where
  "mutex_unlock_add counter = (let new_val = counter + 1 in (new_val, new_val \<noteq> 1))"

section \<open>Fibers\<close>

datatype mutex_pc = M_Idle | M_Pushing | M_Waiting | M_Held | M_Waking

record mutex_sys =
  mu_counter :: "32 word"
  mu_pc :: "nat \<Rightarrow> mutex_pc"
  mu_queue :: "nat list"
  mu_contention :: "64 word"

datatype mutex_act = Lock nat | Trylock nat bool | Unlock nat | Mutex_Step nat

fun mutex_fiber :: "mutex_act \<Rightarrow> nat" where
  "mutex_fiber (Lock t) = t"
| "mutex_fiber (Trylock t sp) = t"
| "mutex_fiber (Unlock t) = t"
| "mutex_fiber (Mutex_Step t) = t"

definition fiber_mutex_lock :: "nat \<Rightarrow> mutex_sys \<Rightarrow> mutex_sys" where
  "fiber_mutex_lock t s =
     (case mutex_lock_sub (mu_counter s) of (c, got) \<Rightarrow>
        if got then s\<lparr>mu_counter := c, mu_pc := (mu_pc s)(t := M_Held)\<rparr>
        else s\<lparr>mu_counter := c, mu_pc := (mu_pc s)(t := M_Pushing),
               mu_contention := mu_contention s + 1\<rparr>)"

definition fiber_mutex_trylock :: "nat \<Rightarrow> bool \<Rightarrow> mutex_sys \<Rightarrow> mutex_sys" where
  "fiber_mutex_trylock t spurious s =
     (case mutex_try_cas (mu_counter s) spurious of (c, r) \<Rightarrow>
        if r = FIBER_SUCCESS then s\<lparr>mu_counter := c, mu_pc := (mu_pc s)(t := M_Held)\<rparr> else s)"

definition fiber_mutex_unlock_internal :: "nat \<Rightarrow> mutex_sys \<Rightarrow> mutex_sys" where
  "fiber_mutex_unlock_internal t s =
     (case mutex_unlock_add (mu_counter s) of (c, contended) \<Rightarrow>
        s\<lparr>mu_counter := c, mu_pc := (mu_pc s)(t := if contended then M_Waking else M_Idle)\<rparr>)"

definition mutex_wait_push :: "nat \<Rightarrow> mutex_sys \<Rightarrow> mutex_sys" where
  "mutex_wait_push t s = s\<lparr>mu_queue := mu_queue s @ [t], mu_pc := (mu_pc s)(t := M_Waiting)\<rparr>"

definition mutex_wake_pop :: "nat \<Rightarrow> mutex_sys \<Rightarrow> mutex_sys" where
  "mutex_wake_pop t s =
     (case mu_queue s of
        [] \<Rightarrow> s
      | u # q \<Rightarrow> s\<lparr>mu_queue := q, mu_pc := (mu_pc s)(u := M_Held, t := M_Idle)\<rparr>)"

fun mutex_step :: "mutex_act \<Rightarrow> mutex_sys \<Rightarrow> mutex_sys option" where
  "mutex_step (Lock t) s = Some (if mu_pc s t = M_Idle then fiber_mutex_lock t s else s)"
| "mutex_step (Trylock t sp) s = Some (if mu_pc s t = M_Idle then fiber_mutex_trylock t sp s else s)"
| "mutex_step (Unlock t) s = Some (if mu_pc s t = M_Held then fiber_mutex_unlock_internal t s else s)"
| "mutex_step (Mutex_Step t) s =
     Some (case mu_pc s t of M_Pushing \<Rightarrow> mutex_wait_push t s | M_Waking \<Rightarrow> mutex_wake_pop t s | _ \<Rightarrow> s)"

abbreviation mutex_run :: "mutex_act list \<Rightarrow> mutex_sys \<Rightarrow> mutex_sys option" where
  "mutex_run \<equiv> run_steps mutex_step"

definition mutex_sys_init :: mutex_sys where
  "mutex_sys_init = \<lparr>mu_counter = 1, mu_pc = (\<lambda>_. M_Idle), mu_queue = [], mu_contention = 0\<rparr>"

section \<open>The invariant\<close>

fun m_held :: "mutex_pc \<Rightarrow> nat" where
  "m_held M_Held = 1" | "m_held _ = 0"

fun m_waits :: "mutex_pc \<Rightarrow> nat" where
  "m_waits M_Pushing = 1" | "m_waits M_Waiting = 1" | "m_waits _ = 0"

fun m_wakes :: "mutex_pc \<Rightarrow> nat" where
  "m_wakes M_Waking = 1" | "m_wakes _ = 0"

text \<open>
  The counter; at most one fiber holds the mutex or is passing it on; a fiber that passes it on has
  somebody to pass it to; and waiters are covered by a holder or by a hand-over in progress.
\<close>

definition mutex_counts :: "nat \<Rightarrow> 32 word \<Rightarrow> (nat \<Rightarrow> mutex_pc) \<Rightarrow> bool" where
  "mutex_counts N c pc \<longleftrightarrow>
     c + of_nat (weight N m_held pc + weight N m_waits pc) = 1 \<and>
     weight N m_held pc + weight N m_wakes pc \<le> 1 \<and>
     weight N m_wakes pc \<le> weight N m_waits pc \<and>
     (0 < weight N m_waits pc \<longrightarrow> weight N m_held pc + weight N m_wakes pc = 1)"

definition mutex_inv :: "nat \<Rightarrow> mutex_sys \<Rightarrow> bool" where
  "mutex_inv N s \<longleftrightarrow> mutex_counts N (mu_counter s) (mu_pc s) \<and>
     distinct (mu_queue s) \<and> set (mu_queue s) = {t. mu_pc s t = M_Waiting} \<and> (\<forall>t \<ge> N. mu_pc s t = M_Idle)"

lemma mutex_weights_upd:
  assumes "t < N"
  shows "weight N m_held (pc(t := x)) + m_held (pc t) = weight N m_held pc + m_held x"
    and "weight N m_waits (pc(t := x)) + m_waits (pc t) = weight N m_waits pc + m_waits x"
    and "weight N m_wakes (pc(t := x)) + m_wakes (pc t) = weight N m_wakes pc + m_wakes x"
  by (rule weight_upd [OF assms])+

lemma mutex_weights_le: "weight N m_held pc + weight N m_waits pc \<le> N"
proof -
  have "weight N (\<lambda>p. m_held p + m_waits p) pc \<le> N"
  proof (rule weight_le)
    fix p show "m_held p + m_waits p \<le> 1" by (cases p) auto
  qed
  then show ?thesis by (simp add: weight_add)
qed

lemma mutex_counter_free:
  assumes "mutex_counts N c pc" "N < 2 ^ 32"
  shows "c = 1 \<longleftrightarrow> weight N m_held pc + weight N m_waits pc = 0"
proof -
  let ?n = "weight N m_held pc + weight N m_waits pc"
  have "?n < 2 ^ 32" using mutex_weights_le [of N pc] assms(2) by simp
  then have "(of_nat ?n :: 32 word) = 0 \<longleftrightarrow> ?n = 0"
    using of_nat_word_inj [of ?n 0, where 'a = 32] by simp
  then show ?thesis
    using assms(1) unfolding mutex_counts_def by (metis add.right_neutral add_diff_cancel_left')
qed

lemma mutex_lock_counts:
  assumes c: "mutex_counts N c pc" and N: "N < 2 ^ 32" and t: "t < N" "pc t = M_Idle"
  shows "mutex_counts N (c - 1) (pc(t := if c - 1 = 0 then M_Held else M_Pushing))"
proof -
  note w = mutex_weights_upd [OF t(1), of pc "if c - 1 = 0 then M_Held else M_Pushing", unfolded t(2)]
  show ?thesis
  proof (cases "c - 1 = 0")
    case True
    then have "c = 1" by simp
    with c w True mutex_counter_free [OF c N] show ?thesis
      by (auto simp: mutex_counts_def)
  next
    case False
    then have "c \<noteq> 1" by auto
    with c w False mutex_counter_free [OF c N] show ?thesis
      by (auto simp: mutex_counts_def algebra_simps)
  qed
qed

lemma mutex_unlock_counts:
  assumes c: "mutex_counts N c pc" and N: "N < 2 ^ 32" and t: "t < N" "pc t = M_Held"
  shows "mutex_counts N (c + 1) (pc(t := if c + 1 \<noteq> 1 then M_Waking else M_Idle))"
proof -
  note w = mutex_weights_upd [OF t(1), of pc "if c + 1 \<noteq> 1 then M_Waking else M_Idle", unfolded t(2)]
  have h: "1 \<le> weight N m_held pc" using weight_ge [OF t(1), of m_held pc] t(2) by simp
  have h1: "weight N m_held pc = 1" "weight N m_wakes pc = 0" using c h by (auto simp: mutex_counts_def)
  have eq: "c + 1 + of_nat (weight N m_waits pc) = 1"
    using c h1 by (simp add: mutex_counts_def add.assoc)
  have "weight N m_waits pc < 2 ^ 32" using mutex_weights_le [of N pc] N by simp
  then have "(of_nat (weight N m_waits pc) :: 32 word) = 0 \<longleftrightarrow> weight N m_waits pc = 0"
    using of_nat_word_inj [of "weight N m_waits pc" 0, where 'a = 32] by simp
  then have "c + 1 = 1 \<longleftrightarrow> weight N m_waits pc = 0"
    using eq by (metis add.right_neutral add_diff_cancel_left')
  with eq w h1 show ?thesis by (auto simp: mutex_counts_def)
qed

lemma mutex_wake_counts:
  assumes c: "mutex_counts N c pc" and t: "t < N" "pc t = M_Waking" and u: "u < N" "pc u = M_Waiting"
  shows "mutex_counts N c (pc(u := M_Held, t := M_Idle))"
proof -
  have ne: "(pc(u := M_Held)) t = M_Waking" using t(2) u(2) by auto
  note w = mutex_weights_upd [OF t(1), of "pc(u := M_Held)" M_Idle, unfolded ne]
    mutex_weights_upd [OF u(1), of pc M_Held, unfolded u(2)]
  have "1 \<le> weight N m_wakes pc" using weight_ge [OF t(1), of m_wakes pc] t(2) by simp
  moreover have eq: "weight N m_held (pc(u := M_Held, t := M_Idle)) = weight N m_held pc + 1"
    "weight N m_waits (pc(u := M_Held, t := M_Idle)) + 1 = weight N m_waits pc"
    "weight N m_wakes (pc(u := M_Held, t := M_Idle)) + 1 = weight N m_wakes pc"
    using w by simp_all
  moreover have "weight N m_held (pc(u := M_Held, t := M_Idle)) + weight N m_waits (pc(u := M_Held, t := M_Idle)) =
      weight N m_held pc + weight N m_waits pc"
    using eq by linarith
  ultimately show ?thesis
    using c unfolding mutex_counts_def by (simp del: of_nat_add)
qed

section \<open>Preservation\<close>

lemma mutex_inv_move:
  assumes "mutex_inv N s" "t < N" "mu_pc s t \<noteq> M_Waiting" "x \<noteq> M_Waiting" "mutex_counts N c ((mu_pc s)(t := x))"
  shows "mutex_inv N (s\<lparr>mu_counter := c, mu_pc := (mu_pc s)(t := x), mu_contention := k\<rparr>)"
  using assms by (auto simp: mutex_inv_def)

lemma mutex_lock_inv:
  assumes inv: "mutex_inv N s" and N: "N < 2 ^ 32" and t: "t < N" "mu_pc s t = M_Idle"
  shows "mutex_inv N (fiber_mutex_lock t s)"
proof -
  have "mutex_counts N (mu_counter s - 1) ((mu_pc s)(t := if mu_counter s - 1 = 0 then M_Held else M_Pushing))"
    using inv N t by (intro mutex_lock_counts) (auto simp: mutex_inv_def)
  then show ?thesis
    using mutex_inv_move [OF inv t(1), of "if mu_counter s - 1 = 0 then M_Held else M_Pushing" "mu_counter s - 1"
        "mu_contention s"]
      mutex_inv_move [OF inv t(1), of "if mu_counter s - 1 = 0 then M_Held else M_Pushing" "mu_counter s - 1"
        "mu_contention s + 1"] t(2)
    by (auto simp: fiber_mutex_lock_def mutex_lock_sub_def Let_def)
qed

lemma mutex_trylock_inv:
  assumes inv: "mutex_inv N s" and N: "N < 2 ^ 32" and t: "t < N" "mu_pc s t = M_Idle"
  shows "mutex_inv N (fiber_mutex_trylock t sp s)"
proof (cases "mu_counter s = 1 \<and> \<not> sp")
  case True
  then have "fiber_mutex_trylock t sp s = fiber_mutex_lock t s"
    by (simp add: fiber_mutex_trylock_def mutex_try_cas_def fiber_mutex_lock_def mutex_lock_sub_def)
  with mutex_lock_inv [OF assms] show ?thesis by simp
next
  case False
  with inv show ?thesis by (auto simp: fiber_mutex_trylock_def mutex_try_cas_def)
qed

lemma mutex_unlock_inv:
  assumes inv: "mutex_inv N s" and N: "N < 2 ^ 32" and t: "t < N" "mu_pc s t = M_Held"
  shows "mutex_inv N (fiber_mutex_unlock_internal t s)"
proof -
  have "mutex_counts N (mu_counter s + 1) ((mu_pc s)(t := if mu_counter s + 1 \<noteq> 1 then M_Waking else M_Idle))"
    using inv N t by (intro mutex_unlock_counts) (auto simp: mutex_inv_def)
  then show ?thesis
    using mutex_inv_move [OF inv t(1), of "if mu_counter s + 1 \<noteq> 1 then M_Waking else M_Idle" "mu_counter s + 1"
        "mu_contention s"] t(2)
    by (auto simp: fiber_mutex_unlock_internal_def mutex_unlock_add_def Let_def)
qed

lemma mutex_push_inv:
  assumes inv: "mutex_inv N s" and t: "t < N" "mu_pc s t = M_Pushing"
  shows "mutex_inv N (mutex_wait_push t s)"
proof -
  have "mutex_counts N (mu_counter s) ((mu_pc s)(t := M_Waiting))"
    using inv t mutex_weights_upd [OF t(1), of "mu_pc s" M_Waiting]
    by (auto simp: mutex_inv_def mutex_counts_def)
  with inv t show ?thesis by (auto simp: mutex_inv_def mutex_wait_push_def)
qed

lemma mutex_wake_inv:
  assumes inv: "mutex_inv N s" and t: "t < N" "mu_pc s t = M_Waking"
  shows "mutex_inv N (mutex_wake_pop t s)"
proof (cases "mu_queue s")
  case (Cons u q)
  with inv have u: "mu_pc s u = M_Waiting" by (auto simp: mutex_inv_def)
  then have uN: "u < N" using inv by (metis mutex_inv_def mutex_pc.distinct(3) not_le)
  have "mutex_counts N (mu_counter s) ((mu_pc s)(u := M_Held, t := M_Idle))"
    using inv t u uN by (intro mutex_wake_counts) (auto simp: mutex_inv_def)
  with inv t u uN Cons show ?thesis
    by (auto simp: mutex_inv_def mutex_wake_pop_def)
qed (use inv in \<open>simp add: mutex_wake_pop_def\<close>)

lemma mutex_step_inv:
  assumes inv: "mutex_inv N s" and N: "N < 2 ^ 32" and a: "mutex_fiber a < N"
  shows "\<exists>s'. mutex_step a s = Some s' \<and> mutex_inv N s'"
proof (cases a)
  case (Mutex_Step t)
  with inv a mutex_push_inv [OF inv, of t] mutex_wake_inv [OF inv, of t] show ?thesis
    by (cases "mu_pc s t") auto
qed (use inv a mutex_lock_inv [OF inv N] mutex_trylock_inv [OF inv N] mutex_unlock_inv [OF inv N] in auto)

interpretation mutex_machine: machine mutex_step "\<lambda>a. mutex_fiber a < N" "\<lambda>_ s. N < 2 ^ 32 \<and> mutex_inv N s" for N
  by unfold_locales (use mutex_step_inv in blast)

lemma mutex_sys_init_inv: "mutex_inv N mutex_sys_init"
  by (simp add: mutex_inv_def mutex_counts_def mutex_sys_init_def)

text \<open>What the counts say about holders and waiters.\<close>

lemma mutex_inv_exclusive:
  assumes inv: "mutex_inv N s" and t: "mu_pc s t \<in> {M_Held, M_Waking}" and u: "mu_pc s u \<in> {M_Held, M_Waking}"
  shows "t = u"
proof (rule ccontr)
  assume ne: "t \<noteq> u"
  have N: "t < N" "u < N" using inv t u by (auto simp: mutex_inv_def intro: ccontr)
  have "weight N (\<lambda>p. m_held p + m_wakes p) (mu_pc s) \<le> 1"
    using inv by (simp add: weight_add mutex_inv_def mutex_counts_def)
  then show False
    using weight_ge2 [OF N ne, of "\<lambda>p. m_held p + m_wakes p" "mu_pc s"] t u by auto
qed

lemma mutex_inv_waiter_covered:
  assumes inv: "mutex_inv N s" and t: "mu_pc s t \<in> {M_Pushing, M_Waiting}"
  shows "\<exists>u. mu_pc s u \<in> {M_Held, M_Waking}"
proof -
  have N: "t < N" using inv t by (auto simp: mutex_inv_def intro: ccontr)
  have "0 < weight N m_waits (mu_pc s)"
    using weight_ge [OF N, of m_waits "mu_pc s"] t by auto
  then have "0 < weight N (\<lambda>p. m_held p + m_wakes p) (mu_pc s)"
    using inv by (simp add: weight_add mutex_inv_def mutex_counts_def)
  then obtain u where "0 < m_held (mu_pc s u) + m_wakes (mu_pc s u)"
    using weight_pos [of N "\<lambda>p. m_held p + m_wakes p" "mu_pc s"] by auto
  then show ?thesis by (cases "mu_pc s u") auto
qed

section \<open>Properties\<close>

text \<open>C5. With fewer than \<open>2 ^ 32\<close> fibers, under every interleaving of lock, trylock and unlock: at most one
  fiber holds the mutex or is handing it over, and whenever a fiber waits some fiber holds the mutex or
  is handing it over, so that mutual exclusion holds and no wake-up is lost.  As only the fiber handing
  over pops, the queue of waiters has a single consumer.\<close>

theorem mutex_exclusion_and_wakeup:
  assumes "N < 2 ^ 32" "\<forall>a \<in> set acts. mutex_fiber a < N"
  shows "\<exists>s. mutex_run acts mutex_sys_init = Some s \<and>
     (\<forall>t u. mu_pc s t \<in> {M_Held, M_Waking} \<and> mu_pc s u \<in> {M_Held, M_Waking} \<longrightarrow> t = u) \<and>
     (\<forall>t. mu_pc s t \<in> {M_Pushing, M_Waiting} \<longrightarrow> (\<exists>u. mu_pc s u \<in> {M_Held, M_Waking}))"
proof -
  obtain s where run: "mutex_run acts mutex_sys_init = Some s" and inv: "mutex_inv N s"
    using mutex_machine.run_ok [where N = N and as = acts and s = mutex_sys_init] assms mutex_sys_init_inv [of N] by auto
  show ?thesis
    using run mutex_inv_exclusive [OF inv] mutex_inv_waiter_covered [OF inv] by blast
qed

theorem mutex_exclusion_and_wakeup_witness:
  "\<exists>s. mutex_run [Lock 0, Lock 1, Trylock 2 False, Mutex_Step 1, Unlock 0, Mutex_Step 0] mutex_sys_init = Some s \<and>
     (\<forall>t u. mu_pc s t \<in> {M_Held, M_Waking} \<and> mu_pc s u \<in> {M_Held, M_Waking} \<longrightarrow> t = u)"
  using mutex_exclusion_and_wakeup [of 3 "[Lock 0, Lock 1, Trylock 2 False, Mutex_Step 1, Unlock 0, Mutex_Step 0]"]
  by (simp del: run_steps.simps) blast

end
