(* ===== verification/Semaphore.thy ===== *)
theory Semaphore
  imports Step_Machine
begin

text \<open>
  \<open>src/fiber_semaphore.c\<close>: a signed counter whose negative value is the number of waiters, and a
  queue of waiters from which any poster may pop.  The steps are the atomic operations on the counter
  and the queue operations; the queue is a first-in first-out list, and a pop of an empty queue
  fails.  \<open>se_immediate\<close>, \<open>se_handed\<close> and \<open>se_cas_posts\<close> are history: permits taken from the
  counter, permits handed to a waiter by a poster, and posts that raised the counter.
\<close>

datatype sem_pc =
    Se_Run
  | Se_Pushing
  | Se_Waiting
  | Se_Post
  | Se_Post_Wake
  | Se_Post_Cas "32 word"
  | Se_Post_Add
  | Se_Try
  | Se_Try_Cas "32 word"

record sem_sys =
  se_counter :: "32 word"
  se_pc :: "nat \<Rightarrow> sem_pc"
  se_queue :: "nat list"
  se_immediate :: nat
  se_handed :: nat
  se_cas_posts :: nat

definition fiber_semaphore_getvalue :: "sem_sys \<Rightarrow> int" where
  "fiber_semaphore_getvalue s = sint (se_counter s)"

definition fiber_semaphore_wait :: "nat \<Rightarrow> sem_sys \<Rightarrow> sem_sys" where
  "fiber_semaphore_wait t s =
     (let val = se_counter s - 1
      in if sint val \<ge> 0 then s\<lparr>se_counter := val, se_immediate := se_immediate s + 1\<rparr>
         else s\<lparr>se_counter := val, se_pc := (se_pc s)(t := Se_Pushing)\<rparr>)"

definition semaphore_wait_push :: "nat \<Rightarrow> sem_sys \<Rightarrow> sem_sys" where
  "semaphore_wait_push t s = s\<lparr>se_queue := se_queue s @ [t], se_pc := (se_pc s)(t := Se_Waiting)\<rparr>"

definition fiber_semaphore_trywait_step :: "nat \<Rightarrow> bool \<Rightarrow> sem_sys \<Rightarrow> sem_sys" where
  "fiber_semaphore_trywait_step t spurious s =
     (case se_pc s t of
        Se_Try \<Rightarrow>
          if sint (se_counter s) > 0 then s\<lparr>se_pc := (se_pc s)(t := Se_Try_Cas (se_counter s))\<rparr>
          else s\<lparr>se_pc := (se_pc s)(t := Se_Run)\<rparr>
      | Se_Try_Cas c \<Rightarrow>
          if se_counter s = c \<and> \<not> spurious
          then s\<lparr>se_counter := c - 1, se_pc := (se_pc s)(t := Se_Run), se_immediate := se_immediate s + 1\<rparr>
          else s\<lparr>se_pc := (se_pc s)(t := Se_Try)\<rparr>
      | _ \<Rightarrow> s)"

text \<open>
  \<open>fiber_semaphore_post_internal\<close>: while the counter is negative, try to hand the permit to a
  waiter and then count it; otherwise raise the counter with a compare-exchange.
\<close>

definition fiber_semaphore_post_step :: "nat \<Rightarrow> bool \<Rightarrow> sem_sys \<Rightarrow> sem_sys" where
  "fiber_semaphore_post_step t spurious s =
     (case se_pc s t of
        Se_Post \<Rightarrow>
          if sint (se_counter s) < 0 then s\<lparr>se_pc := (se_pc s)(t := Se_Post_Wake)\<rparr>
          else s\<lparr>se_pc := (se_pc s)(t := Se_Post_Cas (se_counter s))\<rparr>
      | Se_Post_Wake \<Rightarrow>
          (case se_queue s of
             [] \<Rightarrow> s\<lparr>se_pc := (se_pc s)(t := Se_Post)\<rparr>
           | u # q \<Rightarrow> s\<lparr>se_queue := q, se_pc := (se_pc s)(u := Se_Run, t := Se_Post_Add),
                        se_handed := se_handed s + 1\<rparr>)
      | Se_Post_Add \<Rightarrow> s\<lparr>se_counter := se_counter s + 1, se_pc := (se_pc s)(t := Se_Run)\<rparr>
      | Se_Post_Cas prev \<Rightarrow>
          if se_counter s = prev \<and> \<not> spurious
          then s\<lparr>se_counter := prev + 1, se_pc := (se_pc s)(t := Se_Run), se_cas_posts := se_cas_posts s + 1\<rparr>
          else s\<lparr>se_pc := (se_pc s)(t := Se_Post)\<rparr>
      | _ \<Rightarrow> s)"

datatype sem_act = Sem_Wait nat | Sem_Trywait nat | Sem_Post nat | Sem_Step nat bool

fun sem_fiber :: "sem_act \<Rightarrow> nat" where
  "sem_fiber (Sem_Wait t) = t"
| "sem_fiber (Sem_Trywait t) = t"
| "sem_fiber (Sem_Post t) = t"
| "sem_fiber (Sem_Step t b) = t"

fun trying :: "sem_pc \<Rightarrow> bool" where
  "trying Se_Try = True" | "trying (Se_Try_Cas c) = True" | "trying _ = False"

fun sem_step :: "sem_act \<Rightarrow> sem_sys \<Rightarrow> sem_sys option" where
  "sem_step (Sem_Wait t) s = Some (if se_pc s t = Se_Run then fiber_semaphore_wait t s else s)"
| "sem_step (Sem_Trywait t) s =
     Some (if se_pc s t = Se_Run then s\<lparr>se_pc := (se_pc s)(t := Se_Try)\<rparr> else s)"
| "sem_step (Sem_Post t) s =
     Some (if se_pc s t = Se_Run then s\<lparr>se_pc := (se_pc s)(t := Se_Post)\<rparr> else s)"
| "sem_step (Sem_Step t sp) s =
     Some (if se_pc s t = Se_Pushing then semaphore_wait_push t s
           else if trying (se_pc s t) then fiber_semaphore_trywait_step t sp s
           else fiber_semaphore_post_step t sp s)"

abbreviation sem_run :: "sem_act list \<Rightarrow> sem_sys \<Rightarrow> sem_sys option" where
  "sem_run \<equiv> run_steps sem_step"

text \<open>\<open>fiber_semaphore_init\<close> with an initial value.\<close>

definition fiber_semaphore_init :: "nat \<Rightarrow> sem_sys" where
  "fiber_semaphore_init v = \<lparr>se_counter = of_nat v, se_pc = (\<lambda>_. Se_Run), se_queue = [],
                             se_immediate = 0, se_handed = 0, se_cas_posts = 0\<rparr>"

section \<open>The invariant\<close>

fun s_waits :: "sem_pc \<Rightarrow> nat" where
  "s_waits Se_Pushing = 1" | "s_waits Se_Waiting = 1" | "s_waits _ = 0"

fun s_adds :: "sem_pc \<Rightarrow> nat" where
  "s_adds Se_Post_Add = 1" | "s_adds _ = 0"

fun sem_pc_ok :: "sem_pc \<Rightarrow> bool" where
  "sem_pc_ok (Se_Post_Cas c) = (0 \<le> sint c)"
| "sem_pc_ok (Se_Try_Cas c) = (0 < sint c)"
| "sem_pc_ok _ = True"

text \<open>
  The positive part of the counter is the number of free permits, the negative part the waiters and
  the hand-overs that are not counted yet; only one of them is not zero.
\<close>

definition sem_counts :: "nat \<Rightarrow> nat \<Rightarrow> 32 word \<Rightarrow> nat \<Rightarrow> nat \<Rightarrow> (nat \<Rightarrow> sem_pc) \<Rightarrow> bool" where
  "sem_counts v N c imm cas pc \<longleftrightarrow>
     imm \<le> v + cas \<and>
     sint c = int (v + cas - imm) - int (weight N s_waits pc + weight N s_adds pc) \<and>
     (v + cas - imm = 0 \<or> weight N s_waits pc + weight N s_adds pc = 0)"

definition sem_inv :: "nat \<Rightarrow> nat \<Rightarrow> nat \<Rightarrow> sem_sys \<Rightarrow> bool" where
  "sem_inv v N k s \<longleftrightarrow>
     sem_counts v N (se_counter s) (se_immediate s) (se_cas_posts s) (se_pc s) \<and>
     distinct (se_queue s) \<and> set (se_queue s) = {t. se_pc s t = Se_Waiting} \<and>
     (\<forall>t \<ge> N. se_pc s t = Se_Run) \<and> (\<forall>t. sem_pc_ok (se_pc s t)) \<and>
     v + se_cas_posts s + k < 2 ^ 31 \<and> N < 2 ^ 31"

lemma sint_plus1: "sint c + 1 < 2 ^ 31 \<Longrightarrow> sint (c + 1 :: 32 word) = sint c + 1"
proof -
  assume "sint c + 1 < 2 ^ 31"
  moreover have "- (2 ^ 31) \<le> sint c"
    using sint_ge [of c] by simp
  ultimately show ?thesis
    by (simp add: sint_word_ariths signed_take_bit_int_eq_self)
qed

lemma sint_minus1: "- (2 ^ 31) \<le> sint c - 1 \<Longrightarrow> sint (c - 1 :: 32 word) = sint c - 1"
proof -
  assume "- (2 ^ 31) \<le> sint c - 1"
  moreover have "sint c < 2 ^ 31"
    using sint_lt [of c] by simp
  ultimately show ?thesis
    by (simp add: sint_word_ariths signed_take_bit_int_eq_self)
qed

section \<open>Preservation\<close>

lemma sem_weights_upd:
  assumes "t < N"
  shows "weight N s_waits (pc(t := x)) + s_waits (pc t) = weight N s_waits pc + s_waits x"
    and "weight N s_adds (pc(t := x)) + s_adds (pc t) = weight N s_adds pc + s_adds x"
  by (rule weight_upd [OF assms])+

lemma sem_weights_le: "weight N s_waits pc + weight N s_adds pc \<le> N"
proof -
  have "weight N (\<lambda>p. s_waits p + s_adds p) pc \<le> N"
  proof (rule weight_le)
    fix p show "s_waits p + s_adds p \<le> 1" by (cases p) auto
  qed
  then show ?thesis by (simp add: weight_add)
qed

lemma sem_counts_move:
  "sem_counts v N c i p pc \<Longrightarrow> t < N \<Longrightarrow> s_waits x = s_waits (pc t) \<Longrightarrow> s_adds x = s_adds (pc t) \<Longrightarrow>
   sem_counts v N c i p (pc(t := x))"
  using sem_weights_upd [of t N pc x] by (simp add: sem_counts_def)

text \<open>Taking a permit from a positive counter.\<close>

lemma sem_counts_take:
  assumes c: "sem_counts v N c i p pc" and pos: "0 < sint c"
  shows "sem_counts v N (c - 1) (i + 1) p pc"
proof -
  have "sint (c - 1) = sint c - 1" using pos by (intro sint_minus1) simp
  moreover have "weight N s_waits pc + weight N s_adds pc = 0" "0 < v + p - i"
    using c pos by (auto simp: sem_counts_def)
  ultimately show ?thesis using c by (auto simp: sem_counts_def)
qed

lemma sem_counts_wait:
  assumes c: "sem_counts v N c i p pc" and N: "N < 2 ^ 31" and t: "t < N" "pc t = Se_Run" and neg: "sint c \<le> 0"
  shows "sem_counts v N (c - 1) i p (pc(t := Se_Pushing))"
proof -
  note w = sem_weights_upd [OF t(1), of pc Se_Pushing]
  have "weight N s_waits (pc(t := Se_Pushing)) + weight N s_adds (pc(t := Se_Pushing)) < 2 ^ 31"
    using sem_weights_le [of N "pc(t := Se_Pushing)"] N by simp
  then have M: "weight N s_waits pc + weight N s_adds pc + 1 < 2 ^ 31" using w t(2) by simp
  have P: "v + p - i = 0" using c neg by (auto simp: sem_counts_def)
  have "sint (c - 1) = sint c - 1" using c P M by (intro sint_minus1) (auto simp: sem_counts_def)
  then show ?thesis using c P w t(2) by (simp add: sem_counts_def)
qed

lemma sem_counts_post:
  assumes c: "sem_counts v N c i p pc" and b: "v + p + 1 < 2 ^ 31" and nn: "0 \<le> sint c"
  shows "sem_counts v N (c + 1) i (p + 1) pc"
proof -
  have M: "weight N s_waits pc + weight N s_adds pc = 0" using c nn by (auto simp: sem_counts_def)
  then have "sint c = int (v + p - i)" using c by (simp add: sem_counts_def)
  then have "sint (c + 1) = sint c + 1" using b by (intro sint_plus1) simp
  then show ?thesis using c M by (auto simp: sem_counts_def)
qed

lemma sem_counts_hand:
  assumes c: "sem_counts v N c i p pc" and t: "t < N" "pc t = Se_Post_Wake" and u: "u < N" "pc u = Se_Waiting"
  shows "sem_counts v N c i p (pc(u := Se_Run, t := Se_Post_Add))"
proof -
  have ne: "(pc(u := Se_Run)) t = Se_Post_Wake" using t(2) u(2) by auto
  show ?thesis
    using c sem_weights_upd [OF t(1), of "pc(u := Se_Run)" Se_Post_Add, unfolded ne]
      sem_weights_upd [OF u(1), of pc Se_Run, unfolded u(2)]
    by (simp add: sem_counts_def)
qed

lemma sem_counts_add:
  assumes c: "sem_counts v N c i p pc" and t: "t < N" "pc t = Se_Post_Add"
  shows "sem_counts v N (c + 1) i p (pc(t := Se_Run))"
proof -
  have a: "1 \<le> weight N s_adds pc" using weight_ge [OF t(1), of s_adds pc] t(2) by simp
  then have P: "v + p - i = 0" using c by (auto simp: sem_counts_def)
  then have "sint (c + 1) = sint c + 1" using c a by (intro sint_plus1) (simp add: sem_counts_def)
  then show ?thesis
    using c P a sem_weights_upd [OF t(1), of pc Se_Run, unfolded t(2)] by (auto simp: sem_counts_def)
qed

lemma sem_inv_move:
  assumes "sem_inv v N (Suc k) s" "t < N" "se_pc s t \<noteq> Se_Waiting" "x \<noteq> Se_Waiting" "sem_pc_ok x"
    "sem_counts v N c i p ((se_pc s)(t := x))" "v + p + k < 2 ^ 31"
  shows "sem_inv v N k (s\<lparr>se_counter := c, se_pc := (se_pc s)(t := x), se_immediate := i, se_cas_posts := p\<rparr>)"
  using assms by (auto simp: sem_inv_def)

lemma sem_inv_weaken: "sem_inv v N (Suc k) s \<Longrightarrow> sem_inv v N k s"
  by (simp add: sem_inv_def)

text \<open>A step that changes only the position of the fiber.\<close>

lemma sem_inv_pc:
  assumes inv: "sem_inv v N (Suc k) s" and t: "t < N" "se_pc s t \<noteq> Se_Waiting" and x: "x \<noteq> Se_Waiting" "sem_pc_ok x"
    "s_waits x = s_waits (se_pc s t)" "s_adds x = s_adds (se_pc s t)"
  shows "sem_inv v N k (s\<lparr>se_pc := (se_pc s)(t := x)\<rparr>)"
proof -
  have "sem_counts v N (se_counter s) (se_immediate s) (se_cas_posts s) ((se_pc s)(t := x))"
    using inv t x by (intro sem_counts_move) (auto simp: sem_inv_def)
  then show ?thesis
    using inv t x by (auto simp: sem_inv_def)
qed

lemma sem_wait_inv:
  assumes inv: "sem_inv v N (Suc k) s" and t: "t < N" "se_pc s t = Se_Run"
  shows "sem_inv v N k (fiber_semaphore_wait t s)"
proof -
  have c: "sem_counts v N (se_counter s) (se_immediate s) (se_cas_posts s) (se_pc s)" and N: "N < 2 ^ 31"
    using inv by (auto simp: sem_inv_def)
  have low: "- (2 ^ 31) \<le> sint (se_counter s) - 1"
    using c N sem_weights_le [of N "(se_pc s)(t := Se_Pushing)"] sem_weights_upd [OF t(1), of "se_pc s" Se_Pushing] t(2)
    by (auto simp: sem_counts_def)
  note m = sint_minus1 [OF low]
  show ?thesis
  proof (cases "0 < sint (se_counter s)")
    case True
    then have "fiber_semaphore_wait t s =
        s\<lparr>se_counter := se_counter s - 1, se_immediate := se_immediate s + 1\<rparr>"
      using m by (simp add: fiber_semaphore_wait_def Let_def)
    then show ?thesis
      using inv sem_counts_take [OF c True] by (auto simp: sem_inv_def)
  next
    case False
    then have "fiber_semaphore_wait t s = s\<lparr>se_counter := se_counter s - 1, se_pc := (se_pc s)(t := Se_Pushing)\<rparr>"
      using m by (simp add: fiber_semaphore_wait_def Let_def)
    then show ?thesis
      using inv sem_counts_wait [OF c N t] False t by (auto simp: sem_inv_def)
  qed
qed

lemma sem_push_inv:
  assumes inv: "sem_inv v N (Suc k) s" and t: "t < N" "se_pc s t = Se_Pushing"
  shows "sem_inv v N k (semaphore_wait_push t s)"
proof -
  have "sem_counts v N (se_counter s) (se_immediate s) (se_cas_posts s) ((se_pc s)(t := Se_Waiting))"
    using inv t by (intro sem_counts_move) (auto simp: sem_inv_def)
  then show ?thesis
    using inv t by (auto simp: sem_inv_def semaphore_wait_push_def)
qed

lemma sem_try_inv:
  assumes inv: "sem_inv v N (Suc k) s" and t: "t < N" "trying (se_pc s t)"
  shows "sem_inv v N k (fiber_semaphore_trywait_step t sp s)"
proof (cases "se_pc s t")
  case Se_Try
  then show ?thesis
    using sem_inv_pc [OF inv t(1)] by (auto simp: fiber_semaphore_trywait_step_def)
next
  case (Se_Try_Cas c)
  show ?thesis
  proof (cases "se_counter s = c \<and> \<not> sp")
    case True
    have "0 < sint c" using inv Se_Try_Cas unfolding sem_inv_def by (metis sem_pc_ok.simps(2))
    moreover have "sem_counts v N (se_counter s) (se_immediate s) (se_cas_posts s) ((se_pc s)(t := Se_Run))"
      using inv t Se_Try_Cas by (intro sem_counts_move) (auto simp: sem_inv_def)
    ultimately have "sem_counts v N (c - 1) (se_immediate s + 1) (se_cas_posts s) ((se_pc s)(t := Se_Run))"
      using True by (intro sem_counts_take) auto
    then show ?thesis
      using inv t Se_Try_Cas True by (auto simp: sem_inv_def fiber_semaphore_trywait_step_def)
  next
    case False
    then show ?thesis
      using sem_inv_pc [OF inv t(1), of Se_Try] Se_Try_Cas by (auto simp: fiber_semaphore_trywait_step_def)
  qed
qed (use t(2) in auto)

lemma sem_hand_inv:
  assumes inv: "sem_inv v N (Suc k) s" and t: "t < N" "se_pc s t = Se_Post_Wake" and q: "se_queue s = u # q"
  shows "sem_inv v N k (s\<lparr>se_queue := q, se_pc := (se_pc s)(u := Se_Run, t := Se_Post_Add), se_handed := h\<rparr>)"
proof -
  have u: "se_pc s u = Se_Waiting" using inv q by (auto simp: sem_inv_def)
  then have uN: "u < N" using inv by (metis sem_inv_def not_le sem_pc.distinct(3))
  have "sem_counts v N (se_counter s) (se_immediate s) (se_cas_posts s) ((se_pc s)(u := Se_Run, t := Se_Post_Add))"
    using inv t u uN by (intro sem_counts_hand) (auto simp: sem_inv_def)
  then show ?thesis
    using inv t u uN q by (auto simp: sem_inv_def)
qed

lemma sem_post_inv:
  assumes inv: "sem_inv v N (Suc k) s" and t: "t < N"
  shows "sem_inv v N k (fiber_semaphore_post_step t sp s)"
proof (cases "se_pc s t")
  case Se_Post
  then show ?thesis
    using sem_inv_pc [OF inv t] by (auto simp: fiber_semaphore_post_step_def)
next
  case Se_Post_Wake
  then show ?thesis
    using sem_inv_pc [OF inv t] sem_hand_inv [OF inv t Se_Post_Wake]
    by (cases "se_queue s") (auto simp: fiber_semaphore_post_step_def)
next
  case Se_Post_Add
  have "sem_counts v N (se_counter s + 1) (se_immediate s) (se_cas_posts s) ((se_pc s)(t := Se_Run))"
    using inv t Se_Post_Add by (intro sem_counts_add) (auto simp: sem_inv_def)
  then show ?thesis
    using inv t Se_Post_Add by (auto simp: sem_inv_def fiber_semaphore_post_step_def)
next
  case (Se_Post_Cas c)
  show ?thesis
  proof (cases "se_counter s = c \<and> \<not> sp")
    case True
    have "0 \<le> sint c" using inv Se_Post_Cas unfolding sem_inv_def by (metis sem_pc_ok.simps(1))
    moreover have "sem_counts v N (se_counter s) (se_immediate s) (se_cas_posts s) ((se_pc s)(t := Se_Run))"
      using inv t Se_Post_Cas by (intro sem_counts_move) (auto simp: sem_inv_def)
    ultimately have "sem_counts v N (c + 1) (se_immediate s) (se_cas_posts s + 1) ((se_pc s)(t := Se_Run))"
      using True inv by (intro sem_counts_post) (auto simp: sem_inv_def)
    then show ?thesis
      using inv t Se_Post_Cas True by (auto simp: sem_inv_def fiber_semaphore_post_step_def)
  next
    case False
    then show ?thesis
      using sem_inv_pc [OF inv t, of Se_Post] Se_Post_Cas by (auto simp: fiber_semaphore_post_step_def)
  qed
qed (use sem_inv_weaken [OF inv] in \<open>simp_all add: fiber_semaphore_post_step_def\<close>)

lemma sem_step_inv:
  assumes inv: "sem_inv v N (Suc k) s" and a: "sem_fiber a < N"
  shows "\<exists>s'. sem_step a s = Some s' \<and> sem_inv v N k s'"
proof (cases a)
  case (Sem_Wait t)
  with sem_inv_weaken [OF inv] sem_wait_inv [OF inv, of t] a show ?thesis by auto
next
  case (Sem_Trywait t)
  with sem_inv_weaken [OF inv] sem_inv_pc [OF inv, of t Se_Try] a show ?thesis by auto
next
  case (Sem_Post t)
  with sem_inv_weaken [OF inv] sem_inv_pc [OF inv, of t Se_Post] a show ?thesis by auto
next
  case (Sem_Step t sp)
  with sem_push_inv [OF inv] sem_try_inv [OF inv] sem_post_inv [OF inv] a show ?thesis by auto
qed

interpretation sem_machine: machine sem_step "\<lambda>a. sem_fiber a < N" "sem_inv v N" for v N
  by unfold_locales (rule sem_step_inv)

lemma sem_init_inv: "v + k < 2 ^ 31 \<Longrightarrow> N < 2 ^ 31 \<Longrightarrow> sem_inv v N k (fiber_semaphore_init v)"
proof -
  assume b: "v + k < 2 ^ 31" "N < 2 ^ 31"
  then have "sint (of_nat v :: 32 word) = int v"
    by (simp add: signed_of_nat signed_take_bit_int_eq_self)
  with b show ?thesis
    by (simp add: sem_inv_def sem_counts_def fiber_semaphore_init_def)
qed

lemma sem_inv_waiting:
  assumes inv: "sem_inv v N k s" and t: "se_pc s t \<in> {Se_Pushing, Se_Waiting}"
  shows "0 < weight N s_waits (se_pc s)"
proof -
  have "t < N" using inv t by (auto simp: sem_inv_def intro: ccontr)
  then show ?thesis using weight_ge [of t N s_waits "se_pc s"] t by auto
qed

lemma sem_waits_card:
  assumes inv: "sem_inv v N k s"
  shows "weight N s_waits (se_pc s) = card {t. se_pc s t \<in> {Se_Pushing, Se_Waiting}}"
proof (rule weight_card)
  show "s_waits p = (if p \<in> {Se_Pushing, Se_Waiting} then 1 else 0)" for p by (cases p) auto
  show "t < N" if "se_pc s t \<in> {Se_Pushing, Se_Waiting}" for t
    using inv that by (auto simp: sem_inv_def intro: ccontr)
qed

section \<open>Properties\<close>

text \<open>C23. With \<open>v\<close> initial permits, fewer than \<open>2 ^ 31\<close> fibers and a schedule short enough for the counter not
  to overflow: the permits taken from the counter never exceed the initial ones and the posts that
  raised it, and a fiber waits only when all of them are taken.  While nobody is between handing a
  permit to a waiter and counting it, \<open>fiber_semaphore_getvalue\<close> is the number of free permits, or
  minus the number of waiters.\<close>

theorem semaphore_permits:
  assumes "v + length acts < 2 ^ 31" "N < 2 ^ 31" "\<forall>a \<in> set acts. sem_fiber a < N"
  shows "\<exists>s. sem_run acts (fiber_semaphore_init v) = Some s \<and>
     se_immediate s \<le> v + se_cas_posts s \<and>
     (\<forall>t. se_pc s t \<in> {Se_Pushing, Se_Waiting} \<longrightarrow> se_immediate s = v + se_cas_posts s) \<and>
     ((\<forall>t. se_pc s t \<noteq> Se_Post_Add) \<longrightarrow>
        fiber_semaphore_getvalue s =
          int (v + se_cas_posts s - se_immediate s) - int (card {t. se_pc s t \<in> {Se_Pushing, Se_Waiting}}))"
proof -
  obtain s where run: "sem_run acts (fiber_semaphore_init v) = Some s" and inv: "sem_inv v N 0 s"
    using sem_machine.run_ok [where N = N and v = v and as = acts and s = "fiber_semaphore_init v"]
      assms sem_init_inv [of v "length acts" N] by auto
  then have c: "sem_counts v N (se_counter s) (se_immediate s) (se_cas_posts s) (se_pc s)"
    by (simp add: sem_inv_def)
  have "se_immediate s = v + se_cas_posts s" if "se_pc s t \<in> {Se_Pushing, Se_Waiting}" for t
    using sem_inv_waiting [OF inv that] c by (auto simp: sem_counts_def)
  moreover have "weight N s_adds (se_pc s) = 0" if "\<forall>t. se_pc s t \<noteq> Se_Post_Add"
  proof -
    have "s_adds (se_pc s t) = 0" for t using that by (cases "se_pc s t") auto
    then show ?thesis by simp
  qed
  moreover have "weight N s_waits (se_pc s) = card {t. se_pc s t \<in> {Se_Pushing, Se_Waiting}}"
    by (rule sem_waits_card [OF inv])
  ultimately show ?thesis
    using run c by (auto simp: sem_counts_def fiber_semaphore_getvalue_def)
qed

theorem semaphore_permits_witness:
  "\<exists>s. sem_run [Sem_Wait 0, Sem_Wait 1, Sem_Step 1 False, Sem_Post 0, Sem_Step 0 False, Sem_Step 0 False,
               Sem_Step 0 False] (fiber_semaphore_init 1) = Some s \<and> se_immediate s \<le> 1 + se_cas_posts s"
  using semaphore_permits [of 1 "[Sem_Wait 0, Sem_Wait 1, Sem_Step 1 False, Sem_Post 0, Sem_Step 0 False,
      Sem_Step 0 False, Sem_Step 0 False]" 2]
  by (simp del: run_steps.simps) blast

end
