(* ===== verification/Barrier.thy ===== *)
theory Barrier
  imports Mpsc_Fifo Step_Machine
begin

text \<open>
  \<open>src/fiber_barrier.c\<close>: an arrival counter and one queue of waiters.  The fiber whose arrival
  completes a multiple of \<open>count\<close> wakes \<open>count - 1\<close> fibers from the queue; every other
  fiber enqueues itself, which is a step of its own after the increment.  The history records, for
  every fiber that leaves the barrier, the round in which it arrived and the number of arrivals so
  far; \<open>ba_serial\<close> counts the returns of \<open>FIBER_BARRIER_SERIAL_FIBER\<close>.
\<close>

record fiber_barrier =
  bar_count :: "32 word"
  bar_counter :: "64 word"
  bar_waiters :: mpsc_fifo

definition fiber_barrier_init ::
  "mpsc_heap \<Rightarrow> addr \<Rightarrow> 32 word \<Rightarrow> (mpsc_heap \<times> fiber_barrier \<times> int) option" where
  "fiber_barrier_init h a count = do {
     c_assert (count > 0);
     let (h', f, r) = mpsc_fifo_init h a;
     Some (h', \<lparr>bar_count = count, bar_counter = 0, bar_waiters = f\<rparr>,
           if r = 0 then FIBER_ERROR else FIBER_SUCCESS)
   }"

definition fiber_barrier_destroy :: "mpsc_heap \<Rightarrow> fiber_barrier \<Rightarrow> (mpsc_heap \<times> fiber_barrier) option" where
  "fiber_barrier_destroy h b = do {
     (h', f) \<leftarrow> mpsc_fifo_destroy h (bar_waiters b);
     Some (h', b\<lparr>bar_waiters := f\<rparr>)
   }"

datatype barrier_pc = B_Out | B_Pushing | B_Waiting | B_Waking nat

record barrier_sys =
  ba_count :: "32 word"
  ba_counter :: "64 word"
  ba_pc :: "nat \<Rightarrow> barrier_pc"
  ba_queue :: "nat list"
  ba_round :: "nat \<Rightarrow> nat"
  ba_left :: "(nat \<times> nat \<times> nat) list" \<comment> \<open>fiber, round, arrivals so far\<close>
  ba_serial :: nat

definition barrier_leave :: "nat \<Rightarrow> barrier_sys \<Rightarrow> barrier_sys" where
  "barrier_leave u s = s\<lparr>ba_left := ba_left s @ [(u, ba_round s u, unat (ba_counter s))]\<rparr>"

definition fiber_barrier_wait :: "nat \<Rightarrow> barrier_sys \<Rightarrow> barrier_sys" where
  "fiber_barrier_wait t s =
     (let new_value = ba_counter s + 1;
          s1 = s\<lparr>ba_counter := new_value,
                 ba_round := (ba_round s)(t := unat (ba_counter s) div unat (ba_count s))\<rparr>
      in if new_value mod ucast (ba_count s) = 0
         then barrier_leave t (s1\<lparr>ba_pc := (ba_pc s)(t := B_Waking (unat (ba_count s) - 1)),
                                  ba_serial := ba_serial s + 1\<rparr>)
         else s1\<lparr>ba_pc := (ba_pc s)(t := B_Pushing)\<rparr>)"

definition barrier_wait_push :: "nat \<Rightarrow> barrier_sys \<Rightarrow> barrier_sys" where
  "barrier_wait_push t s = s\<lparr>ba_queue := ba_queue s @ [t], ba_pc := (ba_pc s)(t := B_Waiting)\<rparr>"

text \<open>
  One turn of the loop of \<open>fiber_manager_wake_from_mpsc_queue\<close> with \<open>n\<close> fibers left to wake: its
  body runs once even for 0, and an empty queue makes it try again while \<open>n > 0\<close>.
\<close>

definition barrier_wake_pop :: "nat \<Rightarrow> nat \<Rightarrow> barrier_sys \<Rightarrow> barrier_sys" where
  "barrier_wake_pop t n s =
     (case ba_queue s of
        [] \<Rightarrow> if n > 0 then s else s\<lparr>ba_pc := (ba_pc s)(t := B_Out)\<rparr>
      | u # q \<Rightarrow> barrier_leave u (s\<lparr>ba_queue := q,
                   ba_pc := (ba_pc s)(u := B_Out, t := if n - 1 = 0 then B_Out else B_Waking (n - 1))\<rparr>))"

datatype barrier_act = Arrive nat | Barrier_Step nat

fun barrier_fiber :: "barrier_act \<Rightarrow> nat" where
  "barrier_fiber (Arrive t) = t"
| "barrier_fiber (Barrier_Step t) = t"

fun barrier_step :: "barrier_act \<Rightarrow> barrier_sys \<Rightarrow> barrier_sys option" where
  "barrier_step (Arrive t) s = Some (if ba_pc s t = B_Out then fiber_barrier_wait t s else s)"
| "barrier_step (Barrier_Step t) s =
     Some (case ba_pc s t of B_Pushing \<Rightarrow> barrier_wait_push t s | B_Waking n \<Rightarrow> barrier_wake_pop t n s | _ \<Rightarrow> s)"

abbreviation barrier_run :: "barrier_act list \<Rightarrow> barrier_sys \<Rightarrow> barrier_sys option" where
  "barrier_run \<equiv> run_steps barrier_step"

definition barrier_sys_init :: "32 word \<Rightarrow> barrier_sys" where
  "barrier_sys_init count = \<lparr>ba_count = count, ba_counter = 0, ba_pc = (\<lambda>_. B_Out), ba_queue = [],
                             ba_round = (\<lambda>_. 0), ba_left = [], ba_serial = 0\<rparr>"

section \<open>Counting\<close>

fun b_waits :: "barrier_pc \<Rightarrow> nat" where
  "b_waits B_Pushing = 1" | "b_waits B_Waiting = 1" | "b_waits _ = 0"

fun b_owes :: "barrier_pc \<Rightarrow> nat" where
  "b_owes (B_Waking n) = n" | "b_owes _ = 0"

fun barrier_pc_ok :: "nat \<Rightarrow> barrier_pc \<Rightarrow> bool" where
  "barrier_pc_ok c (B_Waking n) = (n < c \<and> (n = 0 \<longrightarrow> c = 1))"
| "barrier_pc_ok c _ = True"

text \<open>
  Of the arrivals, the incomplete round and the fibers still to be woken are waiting; everybody else
  has left.
\<close>

definition barrier_inv :: "nat \<Rightarrow> nat \<Rightarrow> barrier_sys \<Rightarrow> bool" where
  "barrier_inv N k s \<longleftrightarrow>
     0 < unat (ba_count s) \<and>
     weight N b_waits (ba_pc s) = unat (ba_counter s) mod unat (ba_count s) + weight N b_owes (ba_pc s) \<and>
     length (ba_left s) + weight N b_owes (ba_pc s) =
       unat (ba_counter s) div unat (ba_count s) * unat (ba_count s) \<and>
     ba_serial s = unat (ba_counter s) div unat (ba_count s) \<and>
     distinct (ba_queue s) \<and> set (ba_queue s) = {t. ba_pc s t = B_Waiting} \<and>
     (\<forall>t \<ge> N. ba_pc s t = B_Out) \<and> (\<forall>t. barrier_pc_ok (unat (ba_count s)) (ba_pc s t)) \<and> unat (ba_counter s) + k < 2 ^ 64"

lemma barrier_weights_upd:
  assumes "t < N"
  shows "weight N b_waits (pc(t := x)) + b_waits (pc t) = weight N b_waits pc + b_waits x"
    and "weight N b_owes (pc(t := x)) + b_owes (pc t) = weight N b_owes pc + b_owes x"
  by (rule weight_upd [OF assms])+

lemma Suc_div_mod_complete:
  fixes c n :: nat
  assumes "0 < n" "Suc c mod n = 0"
  shows "Suc c div n = Suc (c div n)" "c mod n = n - 1"
  using assms by (auto simp: mod_Suc div_Suc split: if_splits)

lemma Suc_div_mod_partial:
  fixes c n :: nat
  assumes "0 < n" "Suc c mod n \<noteq> 0"
  shows "Suc c div n = c div n" "Suc c mod n = Suc (c mod n)"
  using assms by (auto simp: mod_Suc div_Suc split: if_splits)

lemma barrier_wait_eq:
  fixes t :: nat
  assumes inv: "barrier_inv N (Suc k) s"
  defines "s1 \<equiv> s\<lparr>ba_counter := ba_counter s + 1,
                   ba_round := \<lambda>u. if u = t then unat (ba_counter s) div unat (ba_count s) else ba_round s u\<rparr>"
  shows "fiber_barrier_wait t s =
      (if Suc (unat (ba_counter s)) mod unat (ba_count s) = 0
       then barrier_leave t (s1\<lparr>ba_pc := (ba_pc s)(t := B_Waking (unat (ba_count s) - 1)), ba_serial := ba_serial s + 1\<rparr>)
       else s1\<lparr>ba_pc := (ba_pc s)(t := B_Pushing)\<rparr>)"
    and "unat (ba_counter s + 1) = Suc (unat (ba_counter s))"
proof -
  show c: "unat (ba_counter s + 1) = Suc (unat (ba_counter s))"
    using inv by (intro unat_Suc64) (simp add: barrier_inv_def)
  have "unat ((ba_counter s + 1) mod ucast (ba_count s)) = Suc (unat (ba_counter s)) mod unat (ba_count s)"
    by (simp only: unat_mod c unat_ucast_32_64)
  then have "(ba_counter s + 1) mod ucast (ba_count s) = 0 \<longleftrightarrow> Suc (unat (ba_counter s)) mod unat (ba_count s) = 0"
    by (simp flip: unat_eq_zero)
  then show "fiber_barrier_wait t s =
      (if Suc (unat (ba_counter s)) mod unat (ba_count s) = 0
       then barrier_leave t (s1\<lparr>ba_pc := (ba_pc s)(t := B_Waking (unat (ba_count s) - 1)), ba_serial := ba_serial s + 1\<rparr>)
       else s1\<lparr>ba_pc := (ba_pc s)(t := B_Pushing)\<rparr>)"
    by (simp add: fiber_barrier_wait_def Let_def s1_def fun_upd_def)
qed

lemma barrier_wait_inv:
  assumes inv: "barrier_inv N (Suc k) s" and t: "t < N" "ba_pc s t = B_Out"
  shows "barrier_inv N k (fiber_barrier_wait t s)"
proof -
  let ?n = "unat (ba_count s)" and ?c = "unat (ba_counter s)"
  have n: "0 < ?n" using inv by (simp add: barrier_inv_def)
  note eq = barrier_wait_eq(1) [OF inv, of t] barrier_wait_eq(2) [OF inv]
  show ?thesis
  proof (cases "Suc ?c mod ?n = 0")
    case True
    note w = barrier_weights_upd [OF t(1), of "ba_pc s" "B_Waking (?n - 1)", unfolded t(2)]
    show ?thesis
      unfolding eq(1) using inv t w eq(2) True Suc_div_mod_complete [OF n True] n
      by (auto simp: barrier_inv_def barrier_leave_def)
  next
    case False
    note w = barrier_weights_upd [OF t(1), of "ba_pc s" B_Pushing, unfolded t(2)]
    show ?thesis
      unfolding eq(1) using inv t w eq(2) False Suc_div_mod_partial [OF n False] by (auto simp: barrier_inv_def)
  qed
qed

lemma barrier_push_inv:
  assumes inv: "barrier_inv N k s" and t: "t < N" "ba_pc s t = B_Pushing"
  shows "barrier_inv N k (barrier_wait_push t s)"
  using inv t barrier_weights_upd [OF t(1), of "ba_pc s" B_Waiting, unfolded t(2)]
  by (auto simp: barrier_inv_def barrier_wait_push_def)

lemma barrier_queue_hd:
  assumes inv: "barrier_inv N k s" and q: "ba_queue s = u # q"
  shows "ba_pc s u = B_Waiting" "u < N"
proof -
  show u: "ba_pc s u = B_Waiting" using inv q by (auto simp: barrier_inv_def)
  then show "u < N" using inv by (metis barrier_inv_def barrier_pc.distinct(3) not_le)
qed

text \<open>A waker that finds somebody in the queue still owes a wake-up: with \<open>count = 1\<close> nobody waits.\<close>

lemma barrier_waker_owes:
  assumes inv: "barrier_inv N k s" and q: "ba_queue s = u # q" and t: "ba_pc s t = B_Waking n"
  shows "0 < n"
proof (rule ccontr)
  have ok: "barrier_pc_ok (unat (ba_count s)) (B_Waking n)"
    using inv t unfolding barrier_inv_def by metis
  have w1: "1 \<le> weight N b_waits (ba_pc s)"
    using weight_ge [of u N b_waits "ba_pc s"] barrier_queue_hd [OF inv q] by simp
  assume "\<not> 0 < n"
  then have one: "unat (ba_count s) = 1" using ok by simp
  have "b_owes (ba_pc s v) = 0" for v
  proof -
    have "barrier_pc_ok 1 (ba_pc s v)" using inv one unfolding barrier_inv_def by metis
    then show ?thesis by (cases "ba_pc s v") auto
  qed
  then have "weight N b_owes (ba_pc s) = 0" by simp
  with inv one w1 show False by (simp add: barrier_inv_def)
qed

lemma barrier_pop_inv:
  assumes inv: "barrier_inv N k s" and t: "t < N" "ba_pc s t = B_Waking n"
  shows "barrier_inv N k (barrier_wake_pop t n s)"
proof (cases "ba_queue s")
  case Nil
  then show ?thesis
    using inv t barrier_weights_upd [OF t(1), of "ba_pc s" B_Out, unfolded t(2)]
    by (auto simp: barrier_inv_def barrier_wake_pop_def)
next
  case (Cons u q)
  have u: "ba_pc s u = B_Waiting" and uN: "u < N" using barrier_queue_hd [OF inv Cons] by auto
  have ok: "barrier_pc_ok (unat (ba_count s)) (B_Waking n)"
    using inv t(2) unfolding barrier_inv_def by metis
  have n: "0 < n" by (rule barrier_waker_owes [OF inv Cons t(2)])
  define x where "x = (if n - 1 = 0 then B_Out else B_Waking (n - 1))"
  have ne: "((ba_pc s)(u := B_Out)) t = B_Waking n" using t(2) u by auto
  note wt = barrier_weights_upd [OF t(1), of "(ba_pc s)(u := B_Out)" x, unfolded ne]
  note wu = barrier_weights_upd [OF uN, of "ba_pc s" B_Out, unfolded u]
  let ?pc = "(ba_pc s)(u := B_Out, t := x)"
  have "weight N b_waits ?pc + 1 = weight N b_waits (ba_pc s)" "weight N b_owes ?pc + 1 = weight N b_owes (ba_pc s)"
    using wt wu n by (auto simp: x_def split: if_splits)
  moreover have "barrier_pc_ok (unat (ba_count s)) x" using ok n by (auto simp: x_def)
  moreover have "distinct q" "set q = {v. ?pc v = B_Waiting}"
    using inv Cons t(2) by (auto simp: barrier_inv_def x_def)
  moreover have "barrier_wake_pop t n s = s\<lparr>ba_queue := q, ba_pc := ?pc,
      ba_left := ba_left s @ [(u, ba_round s u, unat (ba_counter s))]\<rparr>"
    using Cons by (simp add: barrier_wake_pop_def barrier_leave_def x_def)
  ultimately show ?thesis
    using inv t(1) uN unfolding barrier_inv_def by (simp del: fun_upd_apply) (simp add: fun_upd_def)
qed

lemma barrier_step_inv:
  assumes inv: "barrier_inv N (Suc k) s" and a: "barrier_fiber a < N"
  shows "\<exists>s'. barrier_step a s = Some s' \<and> barrier_inv N k s'"
proof -
  have weak: "barrier_inv N k s" using inv by (simp add: barrier_inv_def)
  show ?thesis
  proof (cases a)
    case (Arrive t)
    with weak barrier_wait_inv [OF inv] a show ?thesis by auto
  next
    case (Barrier_Step t)
    with weak barrier_push_inv [OF weak] barrier_pop_inv [OF weak] a show ?thesis
      by (cases "ba_pc s t") auto
  qed
qed

interpretation barrier_machine: machine barrier_step "\<lambda>a. barrier_fiber a < N" "barrier_inv N" for N
  by unfold_locales (rule barrier_step_inv)

lemma barrier_init_inv: "0 < count \<Longrightarrow> k < 2 ^ 64 \<Longrightarrow> barrier_inv N k (barrier_sys_init count)"
  by (simp add: barrier_inv_def barrier_sys_init_def unat_gt_0 word_gt_0)

section \<open>Barriers driven by one kernel thread\<close>

text \<open>
  When one kernel thread runs all the fibers, a fiber that arrives is in the queue before the next
  fiber runs: increment and push are one step.
\<close>

fun barrier_step1 :: "barrier_act \<Rightarrow> barrier_sys \<Rightarrow> barrier_sys option" where
  "barrier_step1 (Arrive t) s =
     (case barrier_step (Arrive t) s of
        Some s1 \<Rightarrow> if ba_pc s1 t = B_Pushing then barrier_step (Barrier_Step t) s1 else Some s1
      | None \<Rightarrow> None)"
| "barrier_step1 (Barrier_Step t) s = barrier_step (Barrier_Step t) s"

abbreviation barrier_run1 :: "barrier_act list \<Rightarrow> barrier_sys \<Rightarrow> barrier_sys option" where
  "barrier_run1 \<equiv> run_steps barrier_step1"

text \<open>
  The front of the queue, as long as the wakers owe, belongs to complete rounds, the rest to the
  round in progress.
\<close>

definition rounds_ok :: "nat \<Rightarrow> barrier_sys \<Rightarrow> bool" where
  "rounds_ok N s \<longleftrightarrow>
     (let n = unat (ba_count s); c = unat (ba_counter s); owed = weight N b_owes (ba_pc s)
      in (\<forall>t. ba_pc s t \<noteq> B_Pushing) \<and>
         (\<forall>u \<in> set (take owed (ba_queue s)). (ba_round s u + 1) * n \<le> c) \<and>
         (\<forall>u \<in> set (drop owed (ba_queue s)). ba_round s u = c div n) \<and>
         (\<forall>(u, r, a) \<in> set (ba_left s). (r + 1) * n \<le> a))"

lemma rounds_queue_length:
  assumes inv: "barrier_inv N k s" and no: "\<forall>t. ba_pc s t \<noteq> B_Pushing"
  shows "length (ba_queue s) = unat (ba_counter s) mod unat (ba_count s) + weight N b_owes (ba_pc s)"
proof -
  have "weight N b_waits (ba_pc s) = card {t. ba_pc s t \<in> {B_Pushing, B_Waiting}}"
  proof (rule weight_card)
    show "b_waits p = (if p \<in> {B_Pushing, B_Waiting} then 1 else 0)" for p by (cases p) auto
    show "t < N" if "ba_pc s t \<in> {B_Pushing, B_Waiting}" for t
      using inv that by (auto simp: barrier_inv_def intro: ccontr)
  qed
  also have "{t. ba_pc s t \<in> {B_Pushing, B_Waiting}} = set (ba_queue s)"
    using inv no by (auto simp: barrier_inv_def)
  also have "card (set (ba_queue s)) = length (ba_queue s)"
    using inv by (intro distinct_card) (simp add: barrier_inv_def)
  finally show ?thesis using inv by (simp add: barrier_inv_def)
qed

lemma rounds_pop:
  assumes inv: "barrier_inv N k s" and ok: "rounds_ok N s" and t: "t < N" "ba_pc s t = B_Waking n"
  shows "rounds_ok N (barrier_wake_pop t n s)"
proof (cases "ba_queue s")
  case Nil
  then show ?thesis
    using ok t by (auto simp: rounds_ok_def barrier_wake_pop_def Let_def)
next
  case (Cons u q)
  have u: "ba_pc s u = B_Waiting" "u < N" using barrier_queue_hd [OF inv Cons] by auto
  have n: "0 < n" by (rule barrier_waker_owes [OF inv Cons t(2)])
  define x where "x = (if n - 1 = 0 then B_Out else B_Waking (n - 1))"
  have ne: "((ba_pc s)(u := B_Out)) t = B_Waking n" using t(2) u by auto
  have "weight N b_owes ((ba_pc s)(u := B_Out, t := x)) + 1 = weight N b_owes (ba_pc s)"
    using barrier_weights_upd(2) [OF t(1), of "(ba_pc s)(u := B_Out)" x, unfolded ne]
      barrier_weights_upd(2) [OF u(2), of "ba_pc s" B_Out, unfolded u(1)] n by (auto simp: x_def split: if_splits)
  then have w: "weight N b_owes (ba_pc s) = Suc (weight N b_owes ((ba_pc s)(u := B_Out, t := x)))" by simp
  have "barrier_wake_pop t n s = s\<lparr>ba_queue := q, ba_pc := (ba_pc s)(u := B_Out, t := x),
      ba_left := ba_left s @ [(u, ba_round s u, unat (ba_counter s))]\<rparr>"
    using Cons by (simp add: barrier_wake_pop_def barrier_leave_def x_def)
  then show ?thesis
    using ok by (auto simp: rounds_ok_def Let_def w Cons x_def split: if_splits)
qed

lemma rounds_arrive_complete:
  assumes inv: "barrier_inv N (Suc k) s" and ok: "rounds_ok N s" and t: "t < N" "ba_pc s t = B_Out"
    and complete: "Suc (unat (ba_counter s)) mod unat (ba_count s) = 0"
  shows "rounds_ok N (fiber_barrier_wait t s)"
proof -
  let ?n = "unat (ba_count s)" and ?c = "unat (ba_counter s)"
  have n: "0 < ?n" using inv by (simp add: barrier_inv_def)
  have no: "\<forall>u. ba_pc s u \<noteq> B_Pushing" using ok by (simp add: rounds_ok_def Let_def)
  note dm = Suc_div_mod_complete [OF n complete]
  have len: "length (ba_queue s) = ?n - 1 + weight N b_owes (ba_pc s)"
    using rounds_queue_length [OF inv no] dm(2) by simp
  have owed: "weight N b_owes ((ba_pc s)(t := B_Waking (?n - 1))) = length (ba_queue s)"
    using barrier_weights_upd(2) [OF t(1), of "ba_pc s" "B_Waking (?n - 1)", unfolded t(2)] len by simp
  have last: "(?c div ?n + 1) * ?n = Suc ?c"
    using dm complete by (metis Suc_eq_plus1 add.right_neutral div_mult_mod_eq)
  have "t \<notin> set (ba_queue s)" using inv t by (auto simp: barrier_inv_def)
  moreover have "(ba_round s u + 1) * ?n \<le> Suc ?c" if "u \<in> set (ba_queue s)" for u
  proof -
    have "u \<in> set (take (weight N b_owes (ba_pc s)) (ba_queue s)) \<or> u \<in> set (drop (weight N b_owes (ba_pc s)) (ba_queue s))"
      using that by (metis Un_iff append_take_drop_id set_append)
    then show ?thesis
      using ok last unfolding rounds_ok_def Let_def by (metis le_SucI order_refl)
  qed
  ultimately show ?thesis
    using ok t last complete owed unfolding barrier_wait_eq(1) [OF inv, of t]
    by (auto simp: rounds_ok_def Let_def barrier_leave_def barrier_wait_eq(2) [OF inv] fun_upd_def)
qed

lemma rounds_arrive_partial:
  assumes inv: "barrier_inv N (Suc k) s" and ok: "rounds_ok N s" and t: "t < N" "ba_pc s t = B_Out"
    and partial: "Suc (unat (ba_counter s)) mod unat (ba_count s) \<noteq> 0"
  shows "ba_pc (fiber_barrier_wait t s) t = B_Pushing"
    and "rounds_ok N (barrier_wait_push t (fiber_barrier_wait t s))"
proof -
  let ?n = "unat (ba_count s)" and ?c = "unat (ba_counter s)" and ?w = "weight N b_owes (ba_pc s)"
  have n: "0 < ?n" using inv by (simp add: barrier_inv_def)
  have no: "\<forall>u. ba_pc s u \<noteq> B_Pushing" using ok by (simp add: rounds_ok_def Let_def)
  show "ba_pc (fiber_barrier_wait t s) t = B_Pushing"
    using partial unfolding barrier_wait_eq(1) [OF inv, of t] by simp
  have len: "?w \<le> length (ba_queue s)" using rounds_queue_length [OF inv no] by simp
  have owed: "weight N b_owes ((ba_pc s)(t := B_Waiting)) = ?w"
    using barrier_weights_upd(2) [OF t(1), of "ba_pc s" B_Waiting, unfolded t(2)] by simp
  have notin: "t \<notin> set (ba_queue s)" using inv t by (auto simp: barrier_inv_def)
  then have "t \<notin> set (take ?w (ba_queue s))" "t \<notin> set (drop ?w (ba_queue s))"
    by (meson in_set_takeD in_set_dropD)+
  then show "rounds_ok N (barrier_wait_push t (fiber_barrier_wait t s))"
    using ok t partial owed len Suc_div_mod_partial(1) [OF n partial] unfolding barrier_wait_eq(1) [OF inv, of t]
    by (auto simp: rounds_ok_def Let_def barrier_wait_push_def barrier_wait_eq(2) [OF inv] le_SucI)
qed

lemma barrier_step1_inv:
  assumes inv: "barrier_inv N (Suc k) s" and ok: "rounds_ok N s" and a: "barrier_fiber a < N"
  shows "\<exists>s'. barrier_step1 a s = Some s' \<and> barrier_inv N k s' \<and> rounds_ok N s'"
proof -
  have weak: "barrier_inv N k s" using inv by (simp add: barrier_inv_def)
  show ?thesis
  proof (cases a)
    case (Arrive t)
    show ?thesis
    proof (cases "ba_pc s t = B_Out")
      case False
      then show ?thesis
        using Arrive weak ok by (simp add: rounds_ok_def Let_def)
    next
      case out: True
      have t: "t < N" using a Arrive by simp
      note w = barrier_wait_inv [OF inv t out]
      show ?thesis
      proof (cases "Suc (unat (ba_counter s)) mod unat (ba_count s) = 0")
        case True
        have "ba_pc (fiber_barrier_wait t s) t \<noteq> B_Pushing"
          using True unfolding barrier_wait_eq(1) [OF inv, of t] by (simp add: barrier_leave_def)
        then show ?thesis
          using Arrive out w rounds_arrive_complete [OF inv ok t out True] by simp
      next
        case False
        note p = rounds_arrive_partial [OF inv ok t out False]
        show ?thesis
          using Arrive out p barrier_push_inv [OF w t p(1)] by simp
      qed
    qed
  next
    case (Barrier_Step t)
    then show ?thesis
      using weak ok a barrier_pop_inv [OF weak] rounds_pop [OF weak ok]
      by (cases "ba_pc s t") (auto simp: rounds_ok_def Let_def)
  qed
qed

interpretation barrier_machine1: machine barrier_step1 "\<lambda>a. barrier_fiber a < N"
  "\<lambda>k s. barrier_inv N k s \<and> rounds_ok N s" for N
  by unfold_locales (use barrier_step1_inv in blast)

section \<open>Properties\<close>

text \<open>Under every interleaving of fewer than \<open>2 ^ 64\<close> steps no more fibers leave the barrier than have
  arrived in complete rounds, exactly one fiber per complete round gets the serial value, and when no
  fiber is between its arrival and its return or waiting place, exactly the fibers of the incomplete
  round are still waiting.\<close>

theorem barrier_counts:
  assumes "0 < count" "length acts < 2 ^ 64" "\<forall>a \<in> set acts. barrier_fiber a < N"
  shows "\<exists>s. barrier_run acts (barrier_sys_init count) = Some s \<and>
     length (ba_left s) \<le> unat (ba_counter s) div unat (ba_count s) * unat (ba_count s) \<and>
     ba_serial s = unat (ba_counter s) div unat (ba_count s) \<and>
     ((\<forall>t. ba_pc s t \<in> {B_Out, B_Waiting}) \<longrightarrow> length (ba_queue s) = unat (ba_counter s) mod unat (ba_count s))"
proof -
  obtain s where run: "barrier_run acts (barrier_sys_init count) = Some s" and inv: "barrier_inv N 0 s"
    using barrier_machine.run_ok [where N = N and as = acts and s = "barrier_sys_init count"] assms
      barrier_init_inv [of count "length acts" N] by auto
  have "length (ba_queue s) = unat (ba_counter s) mod unat (ba_count s)" if q: "\<forall>t. ba_pc s t \<in> {B_Out, B_Waiting}"
  proof -
    have "b_owes (ba_pc s t) = 0" "ba_pc s t \<noteq> B_Pushing" for t using q [rule_format, of t] by auto
    then show ?thesis using rounds_queue_length [OF inv] by simp
  qed
  with run inv show ?thesis by (auto simp: barrier_inv_def)
qed

theorem barrier_counts_witness:
  "\<exists>s. barrier_run [Arrive 0, Barrier_Step 0, Arrive 1, Barrier_Step 1] (barrier_sys_init 2) = Some s \<and>
     ba_serial s = unat (ba_counter s) div unat (ba_count s)"
  using barrier_counts [of 2 "[Arrive 0, Barrier_Step 0, Arrive 1, Barrier_Step 1]" 2]
  by (simp del: run_steps.simps) blast

text \<open>C31. When one kernel thread runs the fibers, nobody passes the barrier early: a fiber that leaves in
  round \<open>r\<close> does so only after all \<open>(r + 1) * count\<close> arrivals of the rounds up to its own.\<close>

theorem barrier_no_overtaking_one_thread:
  assumes "0 < count" "length acts < 2 ^ 64" "\<forall>a \<in> set acts. barrier_fiber a < N"
  shows "\<exists>s. barrier_run1 acts (barrier_sys_init count) = Some s \<and>
     (\<forall>u r n. (u, r, n) \<in> set (ba_left s) \<longrightarrow> (r + 1) * unat (ba_count s) \<le> n)"
proof -
  have "rounds_ok N (barrier_sys_init count)" by (simp add: rounds_ok_def barrier_sys_init_def)
  then obtain s where "barrier_run1 acts (barrier_sys_init count) = Some s" "rounds_ok N s"
    using barrier_machine1.run_ok [where N = N and as = acts and s = "barrier_sys_init count"] assms
      barrier_init_inv [of count "length acts" N] by auto
  then show ?thesis by (auto simp: rounds_ok_def Let_def)
qed

theorem barrier_no_overtaking_one_thread_witness:
  "\<exists>s. barrier_run1 [Arrive 0, Arrive 1, Barrier_Step 1, Arrive 0, Arrive 1, Barrier_Step 1] (barrier_sys_init 2) = Some s \<and>
     (\<forall>u r n. (u, r, n) \<in> set (ba_left s) \<longrightarrow> (r + 1) * unat (ba_count s) \<le> n)"
  using barrier_no_overtaking_one_thread [of 2 "[Arrive 0, Arrive 1, Barrier_Step 1, Arrive 0, Arrive 1, Barrier_Step 1]" 2]
  by (simp del: run_steps.simps)


end
