(* ===== verification/Dist_Fifo.thy ===== *)
theory Dist_Fifo
  imports Mpsc_Fifo
begin

text \<open>
  \<open>include/dist_fifo.h\<close>: the queue of the distributed scheduler, with one pusher and any number of
  poppers.  The head is a counter and a node that a double-word compare-exchange replaces together;
  the nodes are those of \<open>mpsc_fifo\<close>.  This theory has the operations, run without interference, and
  their refinement; theory \<open>Dist_Concurrent\<close> interleaves them.
\<close>

record dist_fifo =
  df_counter :: "64 word"
  df_node :: addr
  df_tail :: addr

datatype dist_result = DIST_FIFO_EMPTY | DIST_FIFO_RETRY | DIST_NODE addr

definition dist_fifo_init :: "mpsc_heap \<Rightarrow> addr \<Rightarrow> mpsc_heap \<times> dist_fifo \<times> int" where
  "dist_fifo_init h a =
     (alloc h a \<lparr>mn_data = NULL, mn_next = NULL\<rparr>, \<lparr>df_counter = 0, df_node = a, df_tail = a\<rparr>,
      if a = NULL then 0 else 1)"

definition dist_fifo_destroy :: "mpsc_heap \<Rightarrow> dist_fifo \<Rightarrow> (mpsc_heap \<times> dist_fifo) option" where
  "dist_fifo_destroy h f =
     do { h' \<leftarrow> free_chain mn_next h (df_node f); Some (h', f\<lparr>df_node := NULL\<rparr>) }"

definition dist_fifo_push :: "mpsc_heap \<Rightarrow> dist_fifo \<Rightarrow> addr \<Rightarrow> (mpsc_heap \<times> dist_fifo) option" where
  "dist_fifo_push h f new_node =
     do { let tl_node = df_tail f;
          c_assert (new_node \<noteq> NULL);
          n \<leftarrow> load h new_node;
          h1 \<leftarrow> store h new_node (n\<lparr>mn_next := NULL\<rparr>);
          p \<leftarrow> load h1 tl_node;
          h2 \<leftarrow> store h1 tl_node (p\<lparr>mn_next := new_node\<rparr>);
          Some (h2, f\<lparr>df_tail := new_node\<rparr>) }"

text \<open>
  One attempt.  The snapshot of the head is an argument, so that a stale one can be given; \<open>dist_fifo_trypop\<close>
  reads it from the queue.
\<close>

definition dist_trypop_at ::
  "mpsc_heap \<Rightarrow> dist_fifo \<Rightarrow> 64 word \<times> addr \<Rightarrow> (mpsc_heap \<times> dist_fifo \<times> dist_result) option" where
  "dist_trypop_at h f old_head =
     do { let prev_head = snd old_head;
          p \<leftarrow> load h prev_head;
          let prev_head_next = mn_next p;
          if prev_head_next \<noteq> NULL
          then do { n \<leftarrow> load h prev_head_next;
                    let data = mn_data n;
                    let new_head = (fst old_head + 1, prev_head_next);
                    let (hd', ok) = compare_and_swap2 (df_counter f, df_node f) old_head new_head;
                    if \<not> ok then Some (h, f, DIST_FIFO_RETRY)
                    else do { h' \<leftarrow> store h prev_head (p\<lparr>mn_data := data\<rparr>);
                              Some (h', f\<lparr>df_counter := fst hd', df_node := snd hd'\<rparr>, DIST_NODE prev_head) } }
          else Some (h, f, DIST_FIFO_EMPTY) }"

definition dist_fifo_trypop :: "mpsc_heap \<Rightarrow> dist_fifo \<Rightarrow> (mpsc_heap \<times> dist_fifo \<times> dist_result) option" where
  "dist_fifo_trypop h f = dist_trypop_at h f (df_counter f, df_node f)"

section \<open>Refinement\<close>

text \<open>
  Without interference the counter is the only difference to \<open>mpsc_fifo\<close>: the operations simulate each
  other step by step, and the queue contract carries over.
\<close>

definition dist_as_mpsc :: "dist_fifo \<Rightarrow> mpsc_fifo" where
  "dist_as_mpsc f = \<lparr>mpsc_head = df_node f, mpsc_tail = df_tail f\<rparr>"

fun result_addr :: "dist_result \<Rightarrow> addr" where
  "result_addr (DIST_NODE a) = a"
| "result_addr _ = NULL"

definition dist_pop :: "mpsc_heap \<Rightarrow> dist_fifo \<Rightarrow> (mpsc_heap \<times> dist_fifo \<times> addr) option" where
  "dist_pop h f = map_option (\<lambda>(h', f', r). (h', f', result_addr r)) (dist_fifo_trypop h f)"

definition dist_rep :: "mpsc_heap \<Rightarrow> dist_fifo \<Rightarrow> addr list \<Rightarrow> addr list \<Rightarrow> bool" where
  "dist_rep h f = mpsc_rep h (dist_as_mpsc f)"

lemmas [fifo_defs] = dist_fifo_push_def dist_fifo_trypop_def dist_trypop_at_def dist_as_mpsc_def dist_fifo_init_def

lemma dist_push_mpsc:
  "mpsc_fifo_push h (dist_as_mpsc f) n =
   map_option (\<lambda>(h', f'). (h', dist_as_mpsc f')) (dist_fifo_push h f n)"
  by (auto simp: fifo_defs split: Option.bind_splits)

lemma dist_trypop_mpsc:
  "mpsc_fifo_trypop h (dist_as_mpsc f) = map_option (\<lambda>(h', f', n). (h', dist_as_mpsc f', n)) (dist_pop h f)"
  by (auto simp: dist_pop_def fifo_defs compare_and_swap2_def Let_def split: Option.bind_splits)

lemma dist_init_rep: "a \<noteq> NULL \<Longrightarrow> dist_fifo_init h a = (h', f, r) \<Longrightarrow> dist_rep h' f [a] [] \<and> r = 1"
  by (auto simp: dist_rep_def mpsc_rep_def fifo_defs alloc_def)

lemma dist_push_rep:
  assumes "dist_rep h f ns xs" "n \<notin> set ns" "n \<noteq> NULL" "mpsc_dat h n = Some x"
  shows "\<exists>h' f'. dist_fifo_push h f n = Some (h', f') \<and> dist_rep h' f' (ns @ [n]) (xs @ [x]) \<and> mpsc_dat h' = mpsc_dat h"
  using mpsc_push_rep [of h "dist_as_mpsc f" ns xs n x] assms by (auto simp: dist_rep_def dist_push_mpsc)

lemma dist_pop_empty: "dist_rep h f ns [] \<Longrightarrow> dist_pop h f = Some (h, f, NULL)"
  by (cases ns) (auto simp: dist_rep_def mpsc_rep_def dist_pop_def fifo_defs split: option.splits)

lemma dist_pop_rep:
  assumes "dist_rep h f ns (x # xs)"
  shows "\<exists>h' f'. dist_pop h f = Some (h', f', hd ns) \<and> dist_rep h' f' (tl ns) xs \<and> mpsc_dat h' = (mpsc_dat h)(hd ns := Some x)"
  using mpsc_trypop_rep [of h "dist_as_mpsc f" ns x xs] assms by (auto simp: dist_rep_def dist_trypop_mpsc)

lemma dist_rep_nodes: "dist_rep h f ns xs \<Longrightarrow> length ns = Suc (length xs) \<and> distinct ns \<and> NULL \<notin> set ns"
  unfolding dist_rep_def by (rule mpsc_rep_nodes)

interpretation dist: fifo_queue dist_fifo_push dist_pop mpsc_dat dist_rep
  by unfold_locales (fact dist_push_rep dist_pop_empty dist_pop_rep dist_rep_nodes)+

text \<open>A pop never reports a conflict when nobody interferes.\<close>

lemma dist_trypop_no_retry: "dist_fifo_trypop h f = Some (h', f', r) \<Longrightarrow> r \<noteq> DIST_FIFO_RETRY"
  by (auto simp: fifo_defs compare_and_swap2_def Let_def split: Option.bind_splits if_splits)

lemma dist_destroy_frees:
  "dist_rep h f ns xs \<Longrightarrow> dist_fifo_destroy h f = Some (h |` (- set ns), f\<lparr>df_node := NULL\<rparr>)"
  using free_chain_frees [of mn_next h "df_node f" ns]
  by (simp add: dist_rep_def mpsc_rep_def dist_as_mpsc_def dist_fifo_destroy_def)

end
