(* ===== verification/Dist_Concurrent.thy ===== *)
theory Dist_Concurrent
  imports Dist_Fifo Step_Machine
begin













section \<open>The invariant\<close>








section \<open>Preservation\<close>















section \<open>Properties\<close>



end
