(* ===== verification/Scheduler.thy ===== *)
theory Scheduler
  imports Fiber_Prelude "HOL-Library.Multiset"
begin

text \<open>
  The interface of \<open>include/fiber_scheduler.h\<close>: \<open>fiber_scheduler_schedule\<close> hands a fiber to a
  scheduler and \<open>fiber_scheduler_next\<close> takes one that may run; a fiber whose context is still being
  saved (the argument \<open>saving\<close>) is passed over.  The locale states what the manager relies on; the two
  schedulers of the library interpret it.
\<close>

datatype sched_op = Schedule addr | Next "addr \<Rightarrow> bool"

text \<open>
  A client that owns the fibers \<open>held\<close>: it schedules only fibers it holds, and holds what \<open>next\<close>
  returns.  It calls \<open>next\<close> when nothing is scheduled or something scheduled may run, where \<open>fibers\<close> is the list
  of all fibers.
\<close>

fun sched_step ::
  "('s \<Rightarrow> addr \<Rightarrow> 's option) \<Rightarrow> ((addr \<Rightarrow> bool) \<Rightarrow> 's \<Rightarrow> ('s \<times> addr) option) \<Rightarrow> addr list \<Rightarrow>
   sched_op \<Rightarrow> 's \<times> addr list \<Rightarrow> ('s \<times> addr list) option" where
  "sched_step schedule nxt fibers (Schedule f) (s, held) =
     (if f \<in> set held then do { s' \<leftarrow> schedule s f; Some (s', remove1 f held) } else Some (s, held))"
| "sched_step schedule nxt fibers (Next saving) (s, held) =
     (if set fibers \<subseteq> set held \<or> (\<exists>f \<in> set fibers. f \<notin> set held \<and> \<not> saving f)
      then do { (s', f) \<leftarrow> nxt saving s; Some (s', if f = NULL then held else f # held) }
      else Some (s, held))"

fun sched_run ::
  "('s \<Rightarrow> addr \<Rightarrow> 's option) \<Rightarrow> ((addr \<Rightarrow> bool) \<Rightarrow> 's \<Rightarrow> ('s \<times> addr) option) \<Rightarrow> addr list \<Rightarrow>
   sched_op list \<Rightarrow> 's \<times> addr list \<Rightarrow> ('s \<times> addr list) option" where
  "sched_run schedule nxt fibers [] c = Some c"
| "sched_run schedule nxt fibers (op # ops) c =
     do { c' \<leftarrow> sched_step schedule nxt fibers op c; sched_run schedule nxt fibers ops c' }"

locale scheduler =
  fixes schedule :: "'s \<Rightarrow> addr \<Rightarrow> 's option"
    and nxt :: "(addr \<Rightarrow> bool) \<Rightarrow> 's \<Rightarrow> ('s \<times> addr) option"
    and ready :: "'s \<Rightarrow> addr multiset"
    and ok :: "nat \<Rightarrow> addr list \<Rightarrow> 's \<Rightarrow> bool"
  assumes schedule_ok:
      "ok (Suc k) fibers s \<Longrightarrow> f \<in> set fibers \<Longrightarrow> f \<notin># ready s \<Longrightarrow>
       \<exists>s'. schedule s f = Some s' \<and> ok k fibers s' \<and> ready s' = add_mset f (ready s)"
    and next_ok:
      "ok (Suc k) fibers s \<Longrightarrow> ready s = {#} \<or> (\<exists>f. f \<in># ready s \<and> \<not> saving f) \<Longrightarrow>
       \<exists>s' f. nxt saving s = Some (s', f) \<and> ok k fibers s' \<and>
         (if f = NULL then ready s' = ready s else \<not> saving f \<and> ready s = add_mset f (ready s'))"
    and weaken: "ok (Suc k) fibers s \<Longrightarrow> ok k fibers s"
begin

text \<open>Every fiber is either with the client or scheduled exactly once, and no operation faults.\<close>

lemma sched_run_conserves:
  "ok (length ops) fibers s \<Longrightarrow> distinct fibers \<Longrightarrow> mset held + ready s = mset fibers \<Longrightarrow>
   \<exists>s' held'. sched_run schedule nxt fibers ops (s, held) = Some (s', held') \<and> ok 0 fibers s' \<and>
              mset held' + ready s' = mset fibers"
proof (induction ops arbitrary: s held)
  case Nil
  then show ?case by simp
next
  case (Cons op ops)
  have ok: "ok (Suc (length ops)) fibers s" using Cons.prems(1) by simp
  have fib: "f \<in> set fibers \<longleftrightarrow> f \<in> set held \<or> f \<in># ready s" for f
    using arg_cong [OF Cons.prems(3), of "\<lambda>m. f \<in># m"] by simp
  have disj: "\<not> (f \<in> set held \<and> f \<in># ready s)" for f
  proof
    assume "f \<in> set held \<and> f \<in># ready s"
    then have "0 < count (mset held) f" "0 < count (ready s) f"
      by (simp_all only: count_greater_zero_iff set_mset_mset)
    moreover have "count (mset fibers) f = count (mset held) f + count (ready s) f"
      by (simp flip: Cons.prems(3))
    ultimately have "2 \<le> count (mset fibers) f" by linarith
    then show False using Cons.prems(2) by (simp add: distinct_count_atmost_1 split: if_splits)
  qed
  show ?case
  proof (cases op)
    case (Schedule f)
    show ?thesis
    proof (cases "f \<in> set held")
      case True
      then obtain s1 where s1: "schedule s f = Some s1" "ok (length ops) fibers s1" "ready s1 = add_mset f (ready s)"
        using schedule_ok [OF ok] fib disj by metis
      have "mset (remove1 f held) + ready s1 = mset fibers"
        using True s1(3) by (simp flip: Cons.prems(3))
      with Cons.IH [OF s1(2) Cons.prems(2)] True s1(1) Schedule show ?thesis by simp
    next
      case False
      with Cons.IH [OF weaken [OF ok] Cons.prems(2,3)] Schedule show ?thesis by simp
    qed
  next
    case (Next saving)
    show ?thesis
    proof (cases "set fibers \<subseteq> set held \<or> (\<exists>f \<in> set fibers. f \<notin> set held \<and> \<not> saving f)")
      case True
      have "ready s = {#} \<or> (\<exists>f. f \<in># ready s \<and> \<not> saving f)"
      proof (cases "set fibers \<subseteq> set held")
        case True
        then have "f \<notin># ready s" for f using fib disj by blast
        then show ?thesis by (meson multiset_nonemptyE)
      next
        case False
        with True fib show ?thesis by blast
      qed
      then obtain s1 f where s1: "nxt saving s = Some (s1, f)" "ok (length ops) fibers s1"
          "if f = NULL then ready s1 = ready s else \<not> saving f \<and> ready s = add_mset f (ready s1)"
        using next_ok [OF ok] by metis
      have "mset (if f = NULL then held else f # held) + ready s1 = mset fibers"
        using s1(3) Cons.prems(3) by (auto split: if_splits)
      from Cons.IH [OF s1(2) Cons.prems(2) this] True s1(1) Next show ?thesis by simp
    next
      case False
      with Cons.IH [OF weaken [OF ok] Cons.prems(2,3)] Next show ?thesis by auto
    qed
  qed
qed

end

text \<open>A scheduler that also balances its load with the other kernel threads; what is ready counts all threads.\<close>

locale balanced_scheduler = scheduler schedule nxt ready ok
  for schedule :: "'s \<Rightarrow> addr \<Rightarrow> 's option" and nxt :: "(addr \<Rightarrow> bool) \<Rightarrow> 's \<Rightarrow> ('s \<times> addr) option"
    and ready :: "'s \<Rightarrow> addr multiset" and ok :: "nat \<Rightarrow> addr list \<Rightarrow> 's \<Rightarrow> bool" +
  fixes balance :: "'s \<Rightarrow> 's option"
  assumes balance_ok: "ok (Suc k) fibers s \<Longrightarrow> \<exists>s'. balance s = Some s' \<and> ok k fibers s' \<and> ready s' = ready s"

end
