(* ===== verification/Scheduler_Wsd.thy ===== *)
theory Scheduler_Wsd
  imports Scheduler Work_Stealing_Deque
begin

text \<open>
  \<open>src/fiber_scheduler_wsd.c\<close>: two work stealing deques per kernel thread, one to take fibers from and
  one for the fibers that are passed over, and stealing from the other threads.  The array
  \<open>fiber_scheduler_thread_queues\<close> holds all deques and the fields that point to a deque are indices
  into it.  A deque owns the heap of its arrays.  \<open>malloc\<close> is a parameter: the address it returns
  depends on the heap it is called in, and \<open>good_malloc\<close> is what the C library promises.
\<close>

type_synonym wsd_queue = "array_heap \<times> wsd_deque"

type_synonym allocator = "(array_heap \<Rightarrow> addr) \<times> (nat \<Rightarrow> addr)"

definition good_malloc :: "allocator \<Rightarrow> bool" where
  "good_malloc al \<longleftrightarrow> (\<forall>h. finite (dom h) \<longrightarrow> h (fst al h) = None \<and> fst al h \<noteq> NULL)"

definition queue_push :: "allocator \<Rightarrow> wsd_queue \<Rightarrow> addr \<Rightarrow> wsd_queue option" where
  "queue_push al q p = wsd_work_stealing_deque_push_bottom (fst q) (snd q) p (fst al (fst q)) (snd al)"

definition queue_pop :: "wsd_queue \<Rightarrow> bool \<Rightarrow> (wsd_queue \<times> wsd_result) option" where
  "queue_pop q sp = do { (d, r) \<leftarrow> wsd_work_stealing_deque_pop_bottom (fst q) (snd q) sp; Some ((fst q, d), r) }"

definition queue_steal :: "wsd_queue \<Rightarrow> bool \<Rightarrow> (wsd_queue \<times> wsd_result) option" where
  "queue_steal q sp = do { (d, r) \<leftarrow> wsd_work_stealing_deque_steal (fst q) (snd q) sp; Some ((fst q, d), r) }"

definition queue_size :: "wsd_queue \<Rightarrow> nat" where
  "queue_size q = wsd_work_stealing_deque_size (snd q)"

record fiber_scheduler_wsd =
  sc_queue_one :: nat
  sc_queue_two :: nat
  sc_schedule_from :: nat
  sc_store_to :: nat
  sc_id :: nat
  sc_steal_count :: "64 word"
  sc_failed_steal_count :: "64 word"

record wsd_scheduler =
  sw_schedulers :: "fiber_scheduler_wsd list"
  sw_queues :: "wsd_queue list"

section \<open>Operations\<close>

text \<open>
  \<open>fiber_scheduler_wsd_init\<close> of scheduler \<open>sid\<close>, whose deques become the elements \<open>2 * sid\<close> and
  \<open>2 * sid + 1\<close> of the array; the allocations succeed (an allocation failure trips the assertion of
  \<open>fiber_scheduler_init\<close>).
\<close>

definition fiber_scheduler_wsd_init :: "allocator \<Rightarrow> nat \<Rightarrow> (fiber_scheduler_wsd \<times> wsd_queue \<times> wsd_queue) option" where
  "fiber_scheduler_wsd_init al sid = do {
     (h1, q1) \<leftarrow> wsd_work_stealing_deque_create (\<lambda>_. None) True (fst al (\<lambda>_. None)) (snd al);
     (h2, q2) \<leftarrow> wsd_work_stealing_deque_create (\<lambda>_. None) True (fst al (\<lambda>_. None)) (snd al);
     c_assert (q1 \<noteq> None \<and> q2 \<noteq> None);
     Some (\<lparr>sc_queue_one = 2 * sid, sc_queue_two = 2 * sid + 1, sc_schedule_from = 2 * sid, sc_store_to = 2 * sid + 1,
            sc_id = sid, sc_steal_count = 0, sc_failed_steal_count = 0\<rparr>, (h1, the q1), (h2, the q2))
   }"

fun init_schedulers :: "allocator \<Rightarrow> nat \<Rightarrow> nat \<Rightarrow> wsd_scheduler \<Rightarrow> wsd_scheduler option" where
  "init_schedulers al i 0 w = Some w"
| "init_schedulers al i (Suc n) w = do {
     (s, q1, q2) \<leftarrow> fiber_scheduler_wsd_init al i;
     init_schedulers al (i + 1) n (w\<lparr>sw_schedulers := sw_schedulers w @ [s], sw_queues := sw_queues w @ [q1, q2]\<rparr>)
   }"

definition fiber_scheduler_init_wsd :: "allocator \<Rightarrow> nat \<Rightarrow> wsd_scheduler option" where
  "fiber_scheduler_init_wsd al num_threads = do {
     c_assert (num_threads > 0);
     init_schedulers al 0 num_threads \<lparr>sw_schedulers = [], sw_queues = []\<rparr>
   }"

definition fiber_scheduler_for_thread_wsd :: "wsd_scheduler \<Rightarrow> nat \<Rightarrow> nat option" where
  "fiber_scheduler_for_thread_wsd w thread_id = do {
     c_assert (thread_id < length (sw_schedulers w));
     Some thread_id
   }"

definition fiber_scheduler_schedule_wsd :: "allocator \<Rightarrow> nat \<Rightarrow> wsd_scheduler \<Rightarrow> addr \<Rightarrow> wsd_scheduler option" where
  "fiber_scheduler_schedule_wsd al i w the_fiber = do {
     c_assert (the_fiber \<noteq> NULL);
     s \<leftarrow> nth_opt (sw_schedulers w) i;
     q \<leftarrow> nth_opt (sw_queues w) (sc_schedule_from s);
     q' \<leftarrow> queue_push al q the_fiber;
     Some (w\<lparr>sw_queues := (sw_queues w)[sc_schedule_from s := q']\<rparr>)
   }"

text \<open>
  The loop of \<open>fiber_scheduler_next\<close> on the two deques; \<open>sps\<close> are the spurious failures of the
  compare-exchange on the last element, one per turn.
\<close>

partial_function (option) next_loop ::
  "allocator \<Rightarrow> (addr \<Rightarrow> bool) \<Rightarrow> wsd_queue \<Rightarrow> wsd_queue \<Rightarrow> bool list \<Rightarrow> (wsd_queue \<times> wsd_queue \<times> addr) option" where
  "next_loop al saving from store_to sps =
     (if queue_size from > 0
      then Option.bind (queue_pop from (sps \<noteq> [] \<and> hd sps)) (\<lambda>(from', r).
             case r of
               WSD_OK new_fiber \<Rightarrow>
                 if saving new_fiber
                 then Option.bind (queue_push al store_to new_fiber) (\<lambda>store_to'. next_loop al saving from' store_to' (tl sps))
                 else Some (from', store_to, new_fiber)
             | _ \<Rightarrow> next_loop al saving from' store_to (tl sps))
      else Some (from, store_to, NULL))"

definition fiber_scheduler_next_wsd ::
  "allocator \<Rightarrow> nat \<Rightarrow> bool list \<Rightarrow> (addr \<Rightarrow> bool) \<Rightarrow> wsd_scheduler \<Rightarrow> (wsd_scheduler \<times> addr) option" where
  "fiber_scheduler_next_wsd al i sps saving w = do {
     s \<leftarrow> nth_opt (sw_schedulers w) i;
     q0 \<leftarrow> nth_opt (sw_queues w) (sc_schedule_from s);
     let s' = (if queue_size q0 = 0
               then s\<lparr>sc_schedule_from := sc_store_to s, sc_store_to := sc_schedule_from s\<rparr> else s);
     from \<leftarrow> nth_opt (sw_queues w) (sc_schedule_from s');
     store_to \<leftarrow> nth_opt (sw_queues w) (sc_store_to s');
     (from', store_to', f) \<leftarrow> next_loop al saving from store_to sps;
     Some (w\<lparr>sw_schedulers := (sw_schedulers w)[i := s'],
             sw_queues := (sw_queues w)[sc_schedule_from s' := from', sc_store_to s' := store_to']\<rparr>, f)
   }"

text \<open>
  Stealing: the inner loop moves fibers from one remote deque, and the outer loop visits the deques of
  the other threads, with a budget of 50 fibers.  An attempt is identified by the visited position and
  the budget left, and \<open>sp\<close> says which attempts fail spuriously.
\<close>

fun steal_loop ::
  "allocator \<Rightarrow> (nat \<Rightarrow> bool) \<Rightarrow> wsd_queue \<Rightarrow> wsd_queue \<Rightarrow> nat \<Rightarrow> nat \<Rightarrow> nat \<Rightarrow> 64 word \<Rightarrow> 64 word \<Rightarrow>
   (wsd_queue \<times> wsd_queue \<times> nat \<times> nat \<times> 64 word \<times> 64 word) option" where
  "steal_loop al sp remote local remote_count local_count max_steal steals fails =
     (if remote_count > local_count \<and> max_steal > 0
      then Option.bind (queue_steal remote (sp max_steal)) (\<lambda>(remote', r).
             case r of
               WSD_OK stolen \<Rightarrow>
                 Option.bind (queue_push al local stolen) (\<lambda>local'.
                   steal_loop al sp remote' local' (remote_count - 1) (local_count + 1) (max_steal - 1) (steals + 1) fails)
             | _ \<Rightarrow> Some (remote', local, local_count, max_steal, steals, fails + 1))
      else Some (remote, local, local_count, max_steal, steals, fails))"

fun balance_loop ::
  "allocator \<Rightarrow> (nat \<Rightarrow> nat \<Rightarrow> bool) \<Rightarrow> fiber_scheduler_wsd \<Rightarrow> nat \<Rightarrow> nat \<Rightarrow> nat \<Rightarrow> nat \<Rightarrow> wsd_queue list \<Rightarrow> 64 word \<Rightarrow> 64 word \<Rightarrow>
   (wsd_queue list \<times> 64 word \<times> 64 word) option" where
  "balance_loop al sp s i 0 local_count max_steal qs steals fails = Some (qs, steals, fails)"
| "balance_loop al sp s i (Suc n) local_count max_steal qs steals fails = do {
     let index = i mod length qs;
     c_assert (index \<noteq> sc_queue_one s \<and> index \<noteq> sc_queue_two s);
     remote \<leftarrow> nth_opt qs index;
     local \<leftarrow> nth_opt qs (sc_schedule_from s);
     (remote', local', local_count', max_steal', steals', fails') \<leftarrow>
       steal_loop al (sp i) remote local (queue_size remote) local_count max_steal steals fails;
     balance_loop al sp s (i + 1) n local_count' max_steal' (qs[index := remote', sc_schedule_from s := local']) steals' fails'
   }"

definition fiber_scheduler_load_balance_wsd :: 
  "allocator \<Rightarrow> (nat \<Rightarrow> nat \<Rightarrow> bool) \<Rightarrow> nat \<Rightarrow> wsd_scheduler \<Rightarrow> wsd_scheduler option" where
  "fiber_scheduler_load_balance_wsd al sp i w = do {
     s \<leftarrow> nth_opt (sw_schedulers w) i;
     local \<leftarrow> nth_opt (sw_queues w) (sc_schedule_from s);
     (qs, steals, fails) \<leftarrow>
       balance_loop al sp s (2 * (sc_id s + 1)) (2 * (length (sw_schedulers w) - 1)) (queue_size local) 50
         (sw_queues w) (sc_steal_count s) (sc_failed_steal_count s);
     Some (w\<lparr>sw_queues := qs, sw_schedulers := (sw_schedulers w)[i := s\<lparr>sc_steal_count := steals, sc_failed_steal_count := fails\<rparr>]\<rparr>)
   }"

text \<open>Destruction; the result is what is left on the heaps of the deques.\<close>

definition fiber_scheduler_wsd_destroy :: "wsd_queue list \<Rightarrow> fiber_scheduler_wsd \<Rightarrow> array_heap list option" where
  "fiber_scheduler_wsd_destroy qs s = do {
     q1 \<leftarrow> nth_opt qs (sc_queue_one s);
     h1 \<leftarrow> wsd_work_stealing_deque_destroy (fst q1) (snd q1);
     q2 \<leftarrow> nth_opt qs (sc_queue_two s);
     h2 \<leftarrow> wsd_work_stealing_deque_destroy (fst q2) (snd q2);
     Some [h1, h2]
   }"

fun shutdown_loop :: "wsd_queue list \<Rightarrow> fiber_scheduler_wsd list \<Rightarrow> array_heap list option" where
  "shutdown_loop qs [] = Some []"
| "shutdown_loop qs (s # ss) = do {
     hs \<leftarrow> fiber_scheduler_wsd_destroy qs s;
     hs' \<leftarrow> shutdown_loop qs ss;
     Some (hs @ hs')
   }"

definition fiber_scheduler_shutdown_wsd :: "wsd_scheduler \<Rightarrow> array_heap list option" where
  "fiber_scheduler_shutdown_wsd w = shutdown_loop (sw_queues w) (sw_schedulers w)"

definition fiber_scheduler_stats_wsd :: "wsd_scheduler \<Rightarrow> nat \<Rightarrow> 64 word \<times> 64 word \<Rightarrow> (64 word \<times> 64 word) option" where
  "fiber_scheduler_stats_wsd w i c = do {
     s \<leftarrow> nth_opt (sw_schedulers w) i;
     Some (fst c + sc_steal_count s, snd c + sc_failed_steal_count s)
   }"

section \<open>The deques as lists\<close>

definition wsd_items :: "wsd_queue \<Rightarrow> addr list" where
  "wsd_items q = map (\<lambda>i. the (wsd_circular_array_get (fst q) (wsd_array (snd q)) (wsd_top (snd q) + int i)))
                     [0 ..< queue_size q]"

definition queue_ok :: "wsd_queue \<Rightarrow> bool" where
  "queue_ok q \<longleftrightarrow> (\<exists>as. wsd_rep (fst q) (snd q) as (wsd_items q) \<and> dom (fst q) = set as)"

lemma wsd_items_rep:
  assumes "wsd_rep h d as xs"
  shows "wsd_items (h, d) = xs"
proof (rule wsd_repE [OF assms])
  fix x
  assume x: "h (wsd_array d) = Some x" "wsd_array d \<noteq> NULL" "array_ok x"
    and "\<And>i. i < length xs \<Longrightarrow> array_slot x (wsd_top d + int i) = xs ! i"
  then have "the (wsd_circular_array_get h (wsd_array d) (wsd_top d + int i)) = xs ! i" if "i < length xs" for i
    using that by (simp add: array_get_slot [of h "wsd_array d" x])
  then show ?thesis
    by (intro nth_equalityI) (auto simp: wsd_items_def queue_size_def wsd_size_rep [OF assms])
qed

lemma queue_okI: "wsd_rep h d as xs \<Longrightarrow> dom h = set as \<Longrightarrow> queue_ok (h, d) \<and> wsd_items (h, d) = xs"
  using wsd_items_rep [of h d as xs] by (auto simp: queue_ok_def)

lemma queue_size_items: "queue_ok q \<Longrightarrow> queue_size q = length (wsd_items q)"
  by (simp add: wsd_items_def)

lemma queue_push_ok:
  assumes "good_malloc al" "queue_ok q" "length (wsd_items q) < 2 ^ 29"
  shows "\<exists>q'. queue_push al q p = Some q' \<and> queue_ok q' \<and> wsd_items q' = wsd_items q @ [p]"
proof -
  obtain as where rep: "wsd_rep (fst q) (snd q) as (wsd_items q)" and dom_q: "dom (fst q) = set as"
    using assms(2) by (auto simp: queue_ok_def)
  then have fresh: "fst q (fst al (fst q)) = None" "fst al (fst q) \<noteq> NULL"
    using assms(1) by (auto simp: good_malloc_def)
  obtain h' d' as' where p: "queue_push al q p = Some (h', d')" "wsd_rep h' d' as' (wsd_items q @ [p])"
      "dom h' - set as' = dom (fst q) - set as"
    using wsd_push_rep [OF rep fresh assms(3)] by (fastforce simp: queue_push_def)
  have "set as' \<subseteq> dom h'"
    using p(2) chain_alloc by (fastforce simp: wsd_rep_def)
  then have "dom h' = set as'" using p(3) dom_q by blast
  with p queue_okI [OF p(2)] show ?thesis by auto
qed

lemma queue_pop_ok:
  assumes "queue_ok q" "wsd_items q = xs @ [p]"
  shows "\<exists>q' r. queue_pop q sp = Some (q', r) \<and> queue_ok q' \<and>
     (if xs = [] \<and> sp then r = WSD_ABORT \<and> wsd_items q' = wsd_items q else r = WSD_OK p \<and> wsd_items q' = xs)"
proof -
  obtain as where rep: "wsd_rep (fst q) (snd q) as (xs @ [p])" and fin: "dom (fst q) = set as"
    using assms by (auto simp: queue_ok_def)
  show ?thesis
  proof (cases "xs = [] \<and> sp")
    case True
    with wsd_pop_spurious [of "fst q" "snd q" as p] rep fin assms(2) show ?thesis
      using queue_okI [of "fst q" _ as "[p]"] by (fastforce simp: queue_pop_def)
  next
    case False
    have "wsd_work_stealing_deque_pop_bottom (fst q) (snd q) sp = wsd_work_stealing_deque_pop_bottom (fst q) (snd q) False"
      using False rep by (cases sp) (auto simp: wsd_work_stealing_deque_pop_bottom_def wsd_rep_def Let_def)
    then obtain d' where "queue_pop q sp = Some ((fst q, d'), WSD_OK p)" "wsd_rep (fst q) d' as xs"
      using wsd_pop_rep [OF rep] by (fastforce simp: queue_pop_def)
    with False queue_okI [OF _ fin] show ?thesis by fastforce
  qed
qed

lemma queue_steal_ok:
  assumes "queue_ok q" "wsd_items q = p # xs"
  shows "\<exists>q'. queue_steal q False = Some (q', WSD_OK p) \<and> queue_ok q' \<and> wsd_items q' = xs"
    and "queue_steal q True = Some (q, WSD_ABORT)"
proof -
  obtain as where rep: "wsd_rep (fst q) (snd q) as (p # xs)" and fin: "dom (fst q) = set as"
    using assms by (auto simp: queue_ok_def)
  show "\<exists>q'. queue_steal q False = Some (q', WSD_OK p) \<and> queue_ok q' \<and> wsd_items q' = xs"
    using wsd_steal_rep [OF rep] queue_okI [OF _ fin] by (fastforce simp: queue_steal_def)
  show "queue_steal q True = Some (q, WSD_ABORT)"
  proof (rule wsd_repE [OF rep])
    fix x
    assume x: "fst q (wsd_array (snd q)) = Some x" "wsd_array (snd q) \<noteq> NULL" "array_ok x"
      "wsd_bottom (snd q) = wsd_top (snd q) + int (length (p # xs))"
    then show ?thesis
      by (simp add: queue_steal_def wsd_work_stealing_deque_steal_def array_get_slot Let_def)
  qed
qed

section \<open>Taking the next fiber\<close>

text \<open>
  The loop ends; it returns the last fiber of the deque that is not being saved and moves the ones after
  it to the other deque, or all of them if there is none.
\<close>

definition next_result ::
  "(addr \<Rightarrow> bool) \<Rightarrow> addr list \<Rightarrow> addr list \<Rightarrow> addr list \<Rightarrow> addr list \<Rightarrow> addr \<Rightarrow> bool" where
  "next_result saving xs ys xs' ys' f \<longleftrightarrow>
     (if f = NULL then xs' = [] \<and> (\<forall>g \<in> set xs. saving g) \<and> ys' = ys @ rev xs
      else \<not> saving f \<and> (\<exists>zs. xs = xs' @ f # zs \<and> (\<forall>g \<in> set zs. saving g) \<and> ys' = ys @ rev zs))"

lemma next_result_pass:
  "next_result saving xs (ys @ [p]) xs' ys' f \<Longrightarrow> saving p \<Longrightarrow> next_result saving (xs @ [p]) ys xs' ys' f"
  by (fastforce simp: next_result_def split: if_splits)

lemma next_loop_ok:
  assumes "good_malloc al" "queue_ok from" "queue_ok to" "length (wsd_items from) + length (wsd_items to) < 2 ^ 29"
    "NULL \<notin> set (wsd_items from)"
  shows "\<exists>from' to' f. next_loop al saving from to sps = Some (from', to', f) \<and> queue_ok from' \<and> queue_ok to' \<and>
     next_result saving (wsd_items from) (wsd_items to) (wsd_items from') (wsd_items to') f"
  using assms(2-)
proof (induction "length (wsd_items from) + length sps" arbitrary: "from" to sps rule: less_induct)
  case less
  show ?case
  proof (cases "wsd_items from = []")
    case True
    then show ?thesis
      using less.prems by (subst next_loop.simps) (simp add: queue_size_items next_result_def)
  next
    case False
    then obtain xs p where xp: "wsd_items from = xs @ [p]" by (metis rev_exhaust)
    let ?sp = "sps \<noteq> [] \<and> hd sps"
    have size: "queue_size from > 0" using less.prems(1) xp by (simp add: queue_size_items)
    obtain from1 r where pop: "queue_pop from ?sp = Some (from1, r)" "queue_ok from1"
        and r: "if xs = [] \<and> ?sp then r = WSD_ABORT \<and> wsd_items from1 = wsd_items from else r = WSD_OK p \<and> wsd_items from1 = xs"
      using queue_pop_ok [OF less.prems(1) xp, of ?sp] by blast
    show ?thesis
    proof (cases "xs = [] \<and> ?sp")
      case True
      then have "next_loop al saving from to sps = next_loop al saving from1 to (tl sps)"
        using size pop r by (subst next_loop.simps) simp
      moreover have "length (wsd_items from1) + length (tl sps) < length (wsd_items from) + length sps"
          "wsd_items from1 = wsd_items from"
        using True r by (cases sps; simp)+
      ultimately show ?thesis
        using less.hyps [of from1 "tl sps" to] pop(2) less.prems by simp
    next
      case ok: False
      show ?thesis
      proof (cases "saving p")
        case False
        then have "next_loop al saving from to sps = Some (from1, to, p)"
          using ok size pop r by (subst next_loop.simps) simp
        then show ?thesis
          using ok r pop(2) less.prems xp False by (auto simp: next_result_def)
      next
        case True
        obtain to1 where to1: "queue_push al to p = Some to1" "queue_ok to1" "wsd_items to1 = wsd_items to @ [p]"
          using queue_push_ok [OF assms(1) less.prems(2)] less.prems(3) xp by fastforce
        have step: "next_loop al saving from to sps = next_loop al saving from1 to1 (tl sps)"
          using True ok size pop r to1(1) by (subst next_loop.simps) simp
        have items: "wsd_items from1 = xs" using ok r by simp
        have lt: "length (wsd_items from1) + length (tl sps) < length (wsd_items from) + length sps"
          using items xp by (cases sps) auto
        obtain from' to' f where "next_loop al saving from1 to1 (tl sps) = Some (from', to', f)" "queue_ok from'" "queue_ok to'"
            "next_result saving xs (wsd_items to1) (wsd_items from') (wsd_items to') f"
          using less.hyps [OF lt pop(2) to1(2)] to1(3) less.prems xp items by auto
        with step to1(3) xp True show ?thesis by (auto intro: next_result_pass)
      qed
    qed
  qed
qed

definition wsd_ready :: "nat \<Rightarrow> wsd_scheduler \<Rightarrow> addr multiset" where
  "wsd_ready i w = (let s = sw_schedulers w ! i in
     mset (wsd_items (sw_queues w ! sc_schedule_from s)) + mset (wsd_items (sw_queues w ! sc_store_to s)))"

definition wsd_sched_ok :: "allocator \<Rightarrow> nat \<Rightarrow> nat \<Rightarrow> addr list \<Rightarrow> wsd_scheduler \<Rightarrow> bool" where
  "wsd_sched_ok al i k fibers w \<longleftrightarrow>
     good_malloc al \<and> NULL \<notin> set fibers \<and> i < length (sw_schedulers w) \<and>
     (let s = sw_schedulers w ! i in
        sc_schedule_from s < length (sw_queues w) \<and> sc_store_to s < length (sw_queues w) \<and>
        sc_schedule_from s \<noteq> sc_store_to s \<and>
        queue_ok (sw_queues w ! sc_schedule_from s) \<and> queue_ok (sw_queues w ! sc_store_to s)) \<and>
     NULL \<notin># wsd_ready i w \<and> size (wsd_ready i w) + k < 2 ^ 29"

lemma schedule_wsd_ok:
  assumes ok: "wsd_sched_ok al i (Suc k) fibers w" and f: "f \<in> set fibers"
  shows "\<exists>w'. fiber_scheduler_schedule_wsd al i w f = Some w' \<and> wsd_sched_ok al i k fibers w' \<and>
              wsd_ready i w' = add_mset f (wsd_ready i w)"
proof -
  let ?s = "sw_schedulers w ! i"
  let ?q = "sw_queues w ! sc_schedule_from ?s"
  have nz: "f \<noteq> NULL" using ok f unfolding wsd_sched_ok_def by metis
  have "length (wsd_items ?q) < 2 ^ 29"
    using ok by (simp add: wsd_sched_ok_def wsd_ready_def Let_def)
  then obtain q' where q': "queue_push al ?q f = Some q'" "queue_ok q'" "wsd_items q' = wsd_items ?q @ [f]"
    using queue_push_ok [of al ?q f] ok by (auto simp: wsd_sched_ok_def Let_def)
  let ?w = "w\<lparr>sw_queues := (sw_queues w)[sc_schedule_from ?s := q']\<rparr>"
  have "fiber_scheduler_schedule_wsd al i w f = Some ?w"
    using ok nz q'(1) by (simp add: fiber_scheduler_schedule_wsd_def wsd_sched_ok_def Let_def)
  moreover have "wsd_ready i ?w = add_mset f (wsd_ready i w)"
    using ok q'(3) by (simp add: wsd_ready_def wsd_sched_ok_def Let_def)
  moreover from this have "wsd_sched_ok al i k fibers ?w"
    using ok q'(2) nz by (auto simp: wsd_sched_ok_def Let_def)
  ultimately show ?thesis by blast
qed

lemma next_wsd_ok:
  assumes ok: "wsd_sched_ok al i (Suc k) fibers w"
  shows "\<exists>w' f. fiber_scheduler_next_wsd al i sps saving w = Some (w', f) \<and> wsd_sched_ok al i k fibers w' \<and>
     (if f = NULL then wsd_ready i w' = wsd_ready i w else \<not> saving f \<and> wsd_ready i w = add_mset f (wsd_ready i w'))"
proof -
  define s where "s = sw_schedulers w ! i"
  define s' where "s' = (if queue_size (sw_queues w ! sc_schedule_from s) = 0
     then s\<lparr>sc_schedule_from := sc_store_to s, sc_store_to := sc_schedule_from s\<rparr> else s)"
  define a where "a = sc_schedule_from s'"
  define b where "b = sc_store_to s'"
  have q: "queue_ok (sw_queues w ! a)" "queue_ok (sw_queues w ! b)" "a < length (sw_queues w)" "b < length (sw_queues w)" "a \<noteq> b"
    and al: "good_malloc al" "i < length (sw_schedulers w)"
    using ok by (auto simp: wsd_sched_ok_def Let_def s_def s'_def a_def b_def)
  have ready: "wsd_ready i w = mset (wsd_items (sw_queues w ! a)) + mset (wsd_items (sw_queues w ! b))"
    by (simp add: wsd_ready_def Let_def a_def b_def s'_def flip: s_def)
  have "size (wsd_ready i w) < 2 ^ 29" "NULL \<notin># wsd_ready i w" using ok by (simp_all add: wsd_sched_ok_def)
  then have "length (wsd_items (sw_queues w ! a)) + length (wsd_items (sw_queues w ! b)) < 2 ^ 29"
      "NULL \<notin> set (wsd_items (sw_queues w ! a))"
    unfolding ready by simp_all
  then obtain from' to' f where loop: "next_loop al saving (sw_queues w ! a) (sw_queues w ! b) sps = Some (from', to', f)"
      and ok': "queue_ok from'" "queue_ok to'"
      and res: "next_result saving (wsd_items (sw_queues w ! a)) (wsd_items (sw_queues w ! b)) (wsd_items from') (wsd_items to') f"
    using next_loop_ok [OF al(1) q(1,2)] by blast
  let ?w = "w\<lparr>sw_schedulers := (sw_schedulers w)[i := s'], sw_queues := (sw_queues w)[a := from', b := to']\<rparr>"
  have run: "fiber_scheduler_next_wsd al i sps saving w = Some (?w, f)"
    using ok loop q al by (simp add: fiber_scheduler_next_wsd_def wsd_sched_ok_def Let_def flip: s_def s'_def a_def b_def)
  have ready': "wsd_ready i ?w = mset (wsd_items from') + mset (wsd_items to')"
    using q al by (simp add: wsd_ready_def Let_def flip: a_def b_def)
  have change: "if f = NULL then wsd_ready i ?w = wsd_ready i w else \<not> saving f \<and> wsd_ready i w = add_mset f (wsd_ready i ?w)"
    using res unfolding ready ready' by (auto simp: next_result_def split: if_splits)
  have "NULL \<notin># wsd_ready i ?w" "size (wsd_ready i ?w) \<le> size (wsd_ready i w)"
    using change ok by (auto simp: wsd_sched_ok_def split: if_splits)
  then have "wsd_sched_ok al i k fibers ?w"
    using ok q al ok' by (simp add: wsd_sched_ok_def Let_def flip: a_def b_def)
  with run change show ?thesis by blast
qed

interpretation wsd_sched: scheduler "fiber_scheduler_schedule_wsd al i" "fiber_scheduler_next_wsd al i sps"
  "wsd_ready i" "wsd_sched_ok al i" for al i sps
proof (unfold_locales, goal_cases)
  case (1 k fibers s f)
  then show ?case using schedule_wsd_ok by blast
next
  case (2 k fibers s saving)
  then show ?case using next_wsd_ok by blast
next
  case (3 k fibers s)
  then show ?case by (simp add: wsd_sched_ok_def)
qed

section \<open>All schedulers together\<close>

definition wsd_total :: "wsd_queue list \<Rightarrow> addr multiset" where
  "wsd_total qs = (\<Sum>q\<leftarrow>qs. mset (wsd_items q))"

lemma wsd_total_simps [simp]:
  "wsd_total [] = {#}" "wsd_total (q # qs) = mset (wsd_items q) + wsd_total qs"
  "wsd_total (qs @ rs) = wsd_total qs + wsd_total rs"
  by (simp_all add: wsd_total_def)

lemma wsd_total_update:
  "i < length qs \<Longrightarrow> wsd_total (qs[i := q]) + mset (wsd_items (qs ! i)) = wsd_total qs + mset (wsd_items q)"
  by (induction qs arbitrary: i) (auto simp: nth_Cons' algebra_simps split: nat.splits)

lemma wsd_total_nth: "i < length qs \<Longrightarrow> mset (wsd_items (qs ! i)) \<subseteq># wsd_total qs"
  by (induction qs arbitrary: i) (auto simp: nth_Cons' subset_mset.add_increasing less_Suc_eq_0_disj
      intro: subset_mset.add_increasing)

lemma wsd_total_nth2:
  assumes "i < length qs" "j < length qs" "i \<noteq> j"
  shows "mset (wsd_items (qs ! i)) + mset (wsd_items (qs ! j)) \<subseteq># wsd_total qs"
  using assms
proof (induction qs arbitrary: i j)
  case (Cons q qs)
  show ?case
  proof (cases i)
    case 0
    with Cons.prems wsd_total_nth [of "j - 1" qs] show ?thesis by (cases j) auto
  next
    case (Suc i')
    show ?thesis
    proof (cases j)
      case 0
      with Suc Cons.prems wsd_total_nth [of i' qs] show ?thesis by (simp add: add.commute)
    next
      case (Suc j')
      with \<open>i = Suc i'\<close> Cons.prems Cons.IH [of i' j'] show ?thesis
        by (simp add: subset_mset.add_increasing)
    qed
  qed
qed simp

definition wsd_world_ok :: "allocator \<Rightarrow> wsd_scheduler \<Rightarrow> bool" where
  "wsd_world_ok al w \<longleftrightarrow>
     good_malloc al \<and> length (sw_queues w) = 2 * length (sw_schedulers w) \<and> (\<forall>q \<in> set (sw_queues w). queue_ok q) \<and>
     (\<forall>i < length (sw_schedulers w). let s = sw_schedulers w ! i in
        sc_id s = i \<and> sc_queue_one s = 2 * i \<and> sc_queue_two s = 2 * i + 1 \<and>
        {sc_schedule_from s, sc_store_to s} = {2 * i, 2 * i + 1})"

lemma wsd_init_queue:
  assumes "good_malloc al"
  shows "\<exists>h d. wsd_work_stealing_deque_create (\<lambda>_. None) True (fst al (\<lambda>_. None)) (snd al) = Some (h, Some d) \<and>
     queue_ok (h, d) \<and> wsd_items (h, d) = []"
proof -
  have a: "fst al (\<lambda>_. None) \<noteq> NULL" using assms by (simp add: good_malloc_def)
  then obtain h d where c: "wsd_work_stealing_deque_create (\<lambda>_. None) True (fst al (\<lambda>_. None)) (snd al) = Some (h, Some d)"
      "wsd_rep h d [fst al (\<lambda>_. None)] []"
    using wsd_create_rep by blast
  then have "dom h = set [fst al (\<lambda>_. None)]"
    using a by (auto simp: wsd_work_stealing_deque_create_def wsd_circular_array_create_def alloc_def Let_def
        split: if_splits)
  with c queue_okI [OF c(2)] show ?thesis by blast
qed

lemma init_schedulers_ok:
  "wsd_world_ok al w \<Longrightarrow>
   \<exists>w'. init_schedulers al (length (sw_schedulers w)) n w = Some w' \<and> wsd_world_ok al w' \<and>
        length (sw_schedulers w') = length (sw_schedulers w) + n \<and> wsd_total (sw_queues w') = wsd_total (sw_queues w)"
proof (induction n arbitrary: w)
  case (Suc n)
  obtain h d where q: "wsd_work_stealing_deque_create (\<lambda>_. None) True (fst al (\<lambda>_. None)) (snd al) = Some (h, Some d)"
      "queue_ok (h, d)" "wsd_items (h, d) = []"
    using wsd_init_queue [of al] Suc.prems unfolding wsd_world_ok_def by blast
  let ?n = "length (sw_schedulers w)"
  let ?s = "\<lparr>sc_queue_one = 2 * ?n, sc_queue_two = 2 * ?n + 1, sc_schedule_from = 2 * ?n, sc_store_to = 2 * ?n + 1,
             sc_id = ?n, sc_steal_count = 0, sc_failed_steal_count = 0\<rparr>"
  let ?w = "w\<lparr>sw_schedulers := sw_schedulers w @ [?s], sw_queues := sw_queues w @ [(h, d), (h, d)]\<rparr>"
  have "wsd_world_ok al ?w"
    using Suc.prems q(2) by (auto simp: wsd_world_ok_def Let_def nth_append)
  moreover have "init_schedulers al ?n (Suc n) w = init_schedulers al (length (sw_schedulers ?w)) n ?w"
    using q(1) by (simp add: fiber_scheduler_wsd_init_def)
  ultimately show ?case using Suc.IH [of ?w] q(3) by simp
qed simp

lemma init_wsd_ok:
  assumes "good_malloc al" "0 < n"
  shows "\<exists>w. fiber_scheduler_init_wsd al n = Some w \<and> wsd_world_ok al w \<and> length (sw_schedulers w) = n \<and>
             wsd_total (sw_queues w) = {#}"
proof -
  have "wsd_world_ok al \<lparr>sw_schedulers = [], sw_queues = []\<rparr>" using assms(1) by (simp add: wsd_world_ok_def)
  from init_schedulers_ok [OF this, of n] assms(2) show ?thesis
    by (simp add: fiber_scheduler_init_wsd_def)
qed

section \<open>Load balancing\<close>

lemmas [simp del] = steal_loop.simps

text \<open>The steals move a prefix of the remote deque, no longer than the budget, behind the local one.\<close>

lemma steal_loop_ok:
  assumes "good_malloc al"
  shows "queue_ok remote \<Longrightarrow> queue_ok local \<Longrightarrow> length (wsd_items remote) + length (wsd_items local) < 2 ^ 29 \<Longrightarrow>
     \<exists>remote' local' lc ms st fl n. steal_loop al sp remote local rc lc0 ms0 st0 fl0 = Some (remote', local', lc, ms, st, fl) \<and>
     queue_ok remote' \<and> queue_ok local' \<and> n \<le> ms0 \<and> ms = ms0 - n \<and> st = st0 + of_nat n \<and>
     (\<exists>ys. length ys = n \<and> wsd_items remote = ys @ wsd_items remote' \<and> wsd_items local' = wsd_items local @ ys)"
proof (induction ms0 arbitrary: remote local rc lc0 st0 fl0)
  case 0
  then show ?case by (subst steal_loop.simps) simp
next
  case (Suc ms0)
  show ?case
  proof (cases "rc > lc0")
    case False
    then show ?thesis using Suc.prems by (subst steal_loop.simps) simp
  next
    case rc: True
    show ?thesis
    proof (cases "wsd_items remote = [] \<or> sp (Suc ms0)")
      case True
      have "\<exists>r. queue_steal remote (sp (Suc ms0)) = Some (remote, r) \<and> (r = WSD_EMPTY \<or> r = WSD_ABORT)"
      proof (cases "wsd_items remote")
        case Nil
        then obtain as where "wsd_rep (fst remote) (snd remote) as []"
          using Suc.prems(1) by (auto simp: queue_ok_def)
        then show ?thesis
          by (simp add: queue_steal_def wsd_steal_empty)
      next
        case (Cons p xs)
        with True queue_steal_ok(2) [OF Suc.prems(1) Cons] show ?thesis by simp
      qed
      then have "steal_loop al sp remote local rc lc0 (Suc ms0) st0 fl0 = Some (remote, local, lc0, Suc ms0, st0, fl0 + 1)"
        using rc by (subst steal_loop.simps) auto
      then show ?thesis using Suc.prems by auto
    next
      case False
      then obtain p xs where items: "wsd_items remote = p # xs" and sp: "sp (Suc ms0) = False" by (cases "wsd_items remote") auto
      obtain remote1 where r1: "queue_steal remote False = Some (remote1, WSD_OK p)" "queue_ok remote1" "wsd_items remote1 = xs"
        using queue_steal_ok(1) [OF Suc.prems(1) items] by blast
      obtain local1 where l1: "queue_push al local p = Some local1" "queue_ok local1" "wsd_items local1 = wsd_items local @ [p]"
        using queue_push_ok [OF assms Suc.prems(2)] Suc.prems(3) by fastforce
      obtain remote' local' lc ms st fl n ys where rest:
          "steal_loop al sp remote1 local1 (rc - 1) (lc0 + 1) ms0 (st0 + 1) fl0 = Some (remote', local', lc, ms, st, fl)"
          "queue_ok remote'" "queue_ok local'" "n \<le> ms0" "ms = ms0 - n" "st = st0 + 1 + of_nat n"
          "length ys = n" "wsd_items remote1 = ys @ wsd_items remote'" "wsd_items local' = wsd_items local1 @ ys"
        using Suc.IH [OF r1(2) l1(2), of "rc - 1" "lc0 + 1" "st0 + 1" fl0] Suc.prems(3) items r1(3) l1(3) by auto
      have "steal_loop al sp remote local rc lc0 (Suc ms0) st0 fl0 = Some (remote', local', lc, ms, st, fl)"
        using rc sp r1(1) l1(1) rest(1) by (subst steal_loop.simps) simp
      then show ?thesis
        using rest items r1(3) l1(3)
        by (intro exI [of _ remote'] exI [of _ local'] exI [of _ lc] exI [of _ ms] exI [of _ st] exI [of _ fl] exI [of _ "Suc n"])
          (auto intro!: exI [of _ "p # ys"])
    qed
  qed
qed

text \<open>The positions that the outer loop visits belong to other threads.\<close>

lemma balance_index:
  fixes i n j :: nat
  assumes "i < n" "2 * (i + 1) \<le> j" "j < 2 * (i + 1) + 2 * (n - 1)"
  shows "j mod (2 * n) < 2 * n" "j mod (2 * n) \<noteq> 2 * i" "j mod (2 * n) \<noteq> 2 * i + 1"
proof -
  show "j mod (2 * n) < 2 * n" using assms(1) by simp
  have w: "2 * i \<le> j" "j < 2 * i + 2 * n" using assms by auto
  show "j mod (2 * n) \<noteq> 2 * i"
    using mod_window_inj [of j "2 * n" "2 * i" "2 * i"] w assms by auto
  show "j mod (2 * n) \<noteq> 2 * i + 1"
    using mod_window_inj [of j "2 * n" "2 * i + 1" "2 * i"] w assms by auto
qed

lemma balance_loop_ok:
  assumes al: "good_malloc al" and s: "sc_queue_one s = 2 * i" "sc_queue_two s = 2 * i + 1" "sc_schedule_from s \<in> {2 * i, 2 * i + 1}" "i < n"
  shows "length qs = 2 * n \<Longrightarrow> \<forall>q \<in> set qs. queue_ok q \<Longrightarrow> size (wsd_total qs) < 2 ^ 29 \<Longrightarrow>
     2 * (i + 1) \<le> j \<Longrightarrow> j + m = 2 * (i + 1) + 2 * (n - 1) \<Longrightarrow>
     \<exists>qs' st fl k. balance_loop al sp s j m lc ms qs st0 fl0 = Some (qs', st, fl) \<and> length qs' = 2 * n \<and>
       (\<forall>q \<in> set qs'. queue_ok q) \<and> wsd_total qs' = wsd_total qs \<and> k \<le> ms \<and> st = st0 + of_nat k"
proof (induction m arbitrary: j lc ms qs st0 fl0)
  case 0
  then show ?case by auto
next
  case (Suc m)
  let ?r = "j mod (2 * n)" and ?l = "sc_schedule_from s"
  have r: "?r < 2 * n" "?r \<noteq> 2 * i" "?r \<noteq> 2 * i + 1"
    using balance_index [OF s(4), of j] Suc.prems(4,5) by auto
  have l: "?l < length qs" "?r < length qs" "?l \<noteq> ?r"
    using r s Suc.prems(1) by auto
  have ok: "queue_ok (qs ! ?r)" "queue_ok (qs ! ?l)" using Suc.prems(2) l by auto
  have "mset (wsd_items (qs ! ?r)) + mset (wsd_items (qs ! ?l)) \<subseteq># wsd_total qs"
    using l by (intro wsd_total_nth2) auto
  then have len: "length (wsd_items (qs ! ?r)) + length (wsd_items (qs ! ?l)) < 2 ^ 29"
    using Suc.prems(3) size_mset_mono by fastforce
  obtain remote' local' lc1 ms1 st1 fl1 k1 ys where st:
      "steal_loop al (sp j) (qs ! ?r) (qs ! ?l) (queue_size (qs ! ?r)) lc ms st0 fl0 = Some (remote', local', lc1, ms1, st1, fl1)"
      "queue_ok remote'" "queue_ok local'" "k1 \<le> ms" "ms1 = ms - k1" "st1 = st0 + of_nat k1"
      "wsd_items (qs ! ?r) = ys @ wsd_items remote'" "wsd_items local' = wsd_items (qs ! ?l) @ ys"
    using steal_loop_ok [OF al ok len, of "sp j" "queue_size (qs ! ?r)" lc ms st0 fl0] by blast
  let ?qs = "qs[?r := remote', ?l := local']"
  have total: "wsd_total ?qs = wsd_total qs"
    using wsd_total_update [of ?r qs remote'] wsd_total_update [of ?l "qs[?r := remote']" local'] l st(7,8)
    by (auto simp: algebra_simps)
  have "\<forall>q \<in> set ?qs. queue_ok q"
    using Suc.prems(2) st(2,3) by (auto dest!: set_update_subset_insert [THEN subsetD])
  then obtain qs' st' fl' k where rest: "balance_loop al sp s (j + 1) m lc1 ms1 ?qs st1 fl1 = Some (qs', st', fl')" "length qs' = 2 * n"
      "\<forall>q \<in> set qs'. queue_ok q" "wsd_total qs' = wsd_total ?qs" "k \<le> ms1" "st' = st1 + of_nat k"
    using Suc.IH [of ?qs "j + 1" lc1 ms1 st1 fl1] Suc.prems total by auto
  have "balance_loop al sp s j (Suc m) lc ms qs st0 fl0 = Some (qs', st', fl')"
    using rest(1) st(1) l r s Suc.prems(1) by (simp add: Let_def)
  with rest total st show ?case
    by (intro exI [of _ qs'] exI [of _ st'] exI [of _ fl'] exI [of _ "k1 + k"]) auto
qed

lemma load_balance_wsd_ok:
  assumes ok: "wsd_world_ok al w" and i: "i < length (sw_schedulers w)" and small: "size (wsd_total (sw_queues w)) < 2 ^ 29"
  shows "\<exists>w' k. fiber_scheduler_load_balance_wsd al sp i w = Some w' \<and> wsd_world_ok al w' \<and>
     wsd_total (sw_queues w') = wsd_total (sw_queues w) \<and> k \<le> 50 \<and>
     sc_steal_count (sw_schedulers w' ! i) = sc_steal_count (sw_schedulers w ! i) + of_nat k"
proof -
  let ?s = "sw_schedulers w ! i"
  have s: "sc_queue_one ?s = 2 * i" "sc_queue_two ?s = 2 * i + 1" "sc_id ?s = i"
      "{sc_schedule_from ?s, sc_store_to ?s} = {2 * i, 2 * i + 1}"
    and al: "good_malloc al" and len: "length (sw_queues w) = 2 * length (sw_schedulers w)" "\<forall>q \<in> set (sw_queues w). queue_ok q"
    using ok i by (auto simp: wsd_world_ok_def Let_def)
  have from_l: "sc_schedule_from ?s \<in> {2 * i, 2 * i + 1}" using s(4) by blast
  then have l: "sc_schedule_from ?s < length (sw_queues w)" using i len(1) by auto
  obtain qs' st fl k where b: "balance_loop al sp ?s (2 * (i + 1)) (2 * (length (sw_schedulers w) - 1))
        (queue_size (sw_queues w ! sc_schedule_from ?s)) 50 (sw_queues w) (sc_steal_count ?s) (sc_failed_steal_count ?s) = Some (qs', st, fl)"
      "length qs' = 2 * length (sw_schedulers w)" "\<forall>q \<in> set qs'. queue_ok q" "wsd_total qs' = wsd_total (sw_queues w)" "k \<le> 50"
      "st = sc_steal_count ?s + of_nat k"
    using balance_loop_ok [OF al s(1,2) from_l i len small, of "2 * (i + 1)" "2 * (length (sw_schedulers w) - 1)" sp
        "queue_size (sw_queues w ! sc_schedule_from ?s)" 50 "sc_steal_count ?s" "sc_failed_steal_count ?s"] by auto
  let ?w = "w\<lparr>sw_queues := qs', sw_schedulers := (sw_schedulers w)[i := ?s\<lparr>sc_steal_count := st, sc_failed_steal_count := fl\<rparr>]\<rparr>"
  have "fiber_scheduler_load_balance_wsd al sp i w = Some ?w"
    using i l b(1) s(3) by (simp add: fiber_scheduler_load_balance_wsd_def)
  moreover have "wsd_world_ok al ?w"
    using ok b i by (auto simp: wsd_world_ok_def Let_def nth_list_update)
  ultimately show ?thesis using b i by auto
qed

text \<open>The scheduler of a kernel thread, with the fibers of all threads.\<close>

definition wsd_all :: "wsd_scheduler \<Rightarrow> addr multiset" where
  "wsd_all w = wsd_total (sw_queues w)"

definition wsd_all_ok :: "allocator \<Rightarrow> nat \<Rightarrow> nat \<Rightarrow> addr list \<Rightarrow> wsd_scheduler \<Rightarrow> bool" where
  "wsd_all_ok al i k fibers w \<longleftrightarrow>
     wsd_world_ok al w \<and> i < length (sw_schedulers w) \<and> NULL \<notin> set fibers \<and> NULL \<notin># wsd_all w \<and> size (wsd_all w) + k < 2 ^ 29"

lemma wsd_world_queues:
  assumes "wsd_world_ok al w" "i < length (sw_schedulers w)" "s = sw_schedulers w ! i"
  shows "sc_schedule_from s < length (sw_queues w) \<and> sc_store_to s < length (sw_queues w) \<and> sc_schedule_from s \<noteq> sc_store_to s \<and>
    queue_ok (sw_queues w ! sc_schedule_from s) \<and> queue_ok (sw_queues w ! sc_store_to s)"
proof -
  have s: "{sc_schedule_from s, sc_store_to s} = {2 * i, 2 * i + 1}" and len: "length (sw_queues w) = 2 * length (sw_schedulers w)"
    using assms by (auto simp: wsd_world_ok_def Let_def)
  have "sc_schedule_from s \<in> {2 * i, 2 * i + 1}" "sc_store_to s \<in> {2 * i, 2 * i + 1}" using s by blast+
  then have "sc_schedule_from s < length (sw_queues w)" "sc_store_to s < length (sw_queues w)" using len assms(2) by auto
  moreover have "sc_schedule_from s \<noteq> sc_store_to s" using s by (metis insert_absorb2 n_not_Suc_n singleton_iff insertCI Suc_eq_plus1)
  ultimately show ?thesis using assms(1) by (auto simp: wsd_world_ok_def)
qed

lemma wsd_world_update:
  assumes "wsd_world_ok al w" "i < length (sw_schedulers w)" "s = sw_schedulers w ! i"
    and "sc_id s' = sc_id s" "sc_queue_one s' = sc_queue_one s" "sc_queue_two s' = sc_queue_two s"
    and "{sc_schedule_from s', sc_store_to s'} = {sc_schedule_from s, sc_store_to s}"
    and "length qs = length (sw_queues w)" "\<forall>q \<in> set qs. queue_ok q"
  shows "wsd_world_ok al (w\<lparr>sw_schedulers := (sw_schedulers w)[i := s'], sw_queues := qs\<rparr>)"
  using assms by (auto simp: wsd_world_ok_def Let_def nth_list_update)

lemma schedule_wsd_all:
  assumes ok: "wsd_all_ok al i (Suc k) fibers w" and f: "f \<in> set fibers"
  shows "\<exists>w'. fiber_scheduler_schedule_wsd al i w f = Some w' \<and> wsd_all_ok al i k fibers w' \<and> wsd_all w' = add_mset f (wsd_all w) \<and>
     f \<in> set (wsd_items (sw_queues w' ! sc_schedule_from (sw_schedulers w' ! i)))"
proof -
  define s where "s = sw_schedulers w ! i"
  let ?q = "sw_queues w ! sc_schedule_from s"
  have w: "wsd_world_ok al w" "i < length (sw_schedulers w)" "good_malloc al" and nz: "f \<noteq> NULL"
    using ok f unfolding wsd_all_ok_def wsd_world_ok_def by metis+
  note q = wsd_world_queues [OF w(1,2) s_def]
  have "mset (wsd_items ?q) \<subseteq># wsd_all w" using wsd_total_nth q by (simp add: wsd_all_def)
  then have "length (wsd_items ?q) < 2 ^ 29" using size_mset_mono ok by (fastforce simp: wsd_all_ok_def)
  then obtain q' where q': "queue_push al ?q f = Some q'" "queue_ok q'" "wsd_items q' = wsd_items ?q @ [f]"
    using queue_push_ok [OF w(3)] q by blast
  let ?w = "w\<lparr>sw_queues := (sw_queues w)[sc_schedule_from s := q']\<rparr>"
  have run: "fiber_scheduler_schedule_wsd al i w f = Some ?w"
    using nz w q q'(1) by (simp add: fiber_scheduler_schedule_wsd_def s_def [symmetric])
  have all: "wsd_all ?w = add_mset f (wsd_all w)"
    using wsd_total_update [of "sc_schedule_from s" "sw_queues w" q'] q q'(3) by (simp add: wsd_all_def)
  have "set ((sw_queues w)[sc_schedule_from s := q']) \<subseteq> insert q' (set (sw_queues w))" by (rule set_update_subset_insert)
  then have "wsd_world_ok al ?w" using w q'(2) unfolding wsd_world_ok_def by (auto simp: Let_def)
  with run all ok nz w(2) q q'(3) s_def show ?thesis by (auto simp: wsd_all_ok_def)
qed

lemma next_wsd_all:
  assumes ok: "wsd_all_ok al i (Suc k) fibers w"
  shows "\<exists>w' f. fiber_scheduler_next_wsd al i sps saving w = Some (w', f) \<and> wsd_all_ok al i k fibers w' \<and>
     (if f = NULL then wsd_all w' = wsd_all w else \<not> saving f \<and> wsd_all w = add_mset f (wsd_all w')) \<and>
     (f = NULL \<longrightarrow> (\<forall>g \<in> set (wsd_items (sw_queues w ! sc_schedule_from (sw_schedulers w ! i))). saving g))"
proof -
  define s where "s = sw_schedulers w ! i"
  define s' where "s' = (if queue_size (sw_queues w ! sc_schedule_from s) = 0
     then s\<lparr>sc_schedule_from := sc_store_to s, sc_store_to := sc_schedule_from s\<rparr> else s)"
  define a where "a = sc_schedule_from s'"
  define b where "b = sc_store_to s'"
  have w: "wsd_world_ok al w" "i < length (sw_schedulers w)" "good_malloc al"
    using ok by (auto simp: wsd_all_ok_def wsd_world_ok_def)
  have q: "queue_ok (sw_queues w ! a)" "queue_ok (sw_queues w ! b)" "a < length (sw_queues w)" "b < length (sw_queues w)" "a \<noteq> b"
    using wsd_world_queues [OF w(1,2) s_def] by (auto simp: s'_def a_def b_def)
  have sub: "mset (wsd_items (sw_queues w ! a)) + mset (wsd_items (sw_queues w ! b)) \<subseteq># wsd_all w"
    unfolding wsd_all_def by (rule wsd_total_nth2 [OF q(3-5)])
  then have "length (wsd_items (sw_queues w ! a)) + length (wsd_items (sw_queues w ! b)) < 2 ^ 29"
    using size_mset_mono [OF sub] ok by (simp add: wsd_all_ok_def)
  moreover have "NULL \<notin> set (wsd_items (sw_queues w ! a))"
    using set_mset_mono [OF sub] ok by (auto simp: wsd_all_ok_def)
  ultimately obtain from' to' f where loop: "next_loop al saving (sw_queues w ! a) (sw_queues w ! b) sps = Some (from', to', f)"
      and ok': "queue_ok from'" "queue_ok to'"
      and res: "next_result saving (wsd_items (sw_queues w ! a)) (wsd_items (sw_queues w ! b)) (wsd_items from') (wsd_items to') f"
    using next_loop_ok [OF w(3) q(1,2)] by blast
  let ?qs = "(sw_queues w)[a := from', b := to']"
  let ?w = "w\<lparr>sw_schedulers := (sw_schedulers w)[i := s'], sw_queues := ?qs\<rparr>"
  have run: "fiber_scheduler_next_wsd al i sps saving w = Some (?w, f)"
    using w q loop wsd_world_queues [OF w(1,2) s_def]
    by (simp add: fiber_scheduler_next_wsd_def s_def [symmetric] s'_def [symmetric] a_def [symmetric] b_def [symmetric])
  have "wsd_all ?w + mset (wsd_items (sw_queues w ! a)) + mset (wsd_items (sw_queues w ! b)) =
        wsd_all w + mset (wsd_items from') + mset (wsd_items to')"
  proof -
    have 1: "wsd_total ((sw_queues w)[a := from']) + mset (wsd_items (sw_queues w ! a)) = wsd_all w + mset (wsd_items from')"
      using wsd_total_update q by (simp add: wsd_all_def)
    have 2: "wsd_all ?w + mset (wsd_items (sw_queues w ! b)) = wsd_total ((sw_queues w)[a := from']) + mset (wsd_items to')"
      using wsd_total_update [of b "(sw_queues w)[a := from']" to'] q by (simp add: wsd_all_def)
    show ?thesis using arg_cong2 [OF 1 2, of "(+)"] by (simp add: ac_simps)
  qed
  with res have change: "if f = NULL then wsd_all ?w = wsd_all w else \<not> saving f \<and> wsd_all w = add_mset f (wsd_all ?w)"
    by (auto simp: next_result_def split: if_splits)
  have "set ?qs \<subseteq> insert to' (insert from' (set (sw_queues w)))"
    using set_update_subset_insert by (meson insert_mono subset_trans)
  then have "\<forall>q \<in> set ?qs. queue_ok q" using ok' w(1) by (auto simp: wsd_world_ok_def)
  then have "wsd_world_ok al ?w"
    by (intro wsd_world_update [OF w(1,2) s_def]) (auto simp: s'_def)
  moreover have "NULL \<notin># wsd_all ?w" "size (wsd_all ?w) \<le> size (wsd_all w)"
    using change ok by (auto simp: wsd_all_ok_def split: if_splits)
  ultimately have "wsd_all_ok al i k fibers ?w" using ok by (simp add: wsd_all_ok_def)
  moreover have "\<forall>g \<in> set (wsd_items (sw_queues w ! sc_schedule_from s)). saving g" if "f = NULL"
    using res that wsd_world_queues [OF w(1,2) s_def] by (auto simp: next_result_def a_def s'_def queue_size_items split: if_splits)
  ultimately show ?thesis using run change s_def by blast
qed

lemma load_balance_wsd_length:
  "fiber_scheduler_load_balance_wsd al sp i w = Some w' \<Longrightarrow> length (sw_schedulers w') = length (sw_schedulers w)"
  by (auto simp: fiber_scheduler_load_balance_wsd_def bind_eq_Some_conv)

interpretation wsd_balanced: balanced_scheduler "fiber_scheduler_schedule_wsd al i" "fiber_scheduler_next_wsd al i sps"
  wsd_all "wsd_all_ok al i" "fiber_scheduler_load_balance_wsd al sp i" for al i sps sp
proof (unfold_locales, goal_cases)
  case (1 k fibers s f)
  then show ?case using schedule_wsd_all by blast
next
  case (2 k fibers s saving)
  then show ?case using next_wsd_all [of al i k fibers s sps saving] by blast
next
  case (3 k fibers s)
  then show ?case by (simp add: wsd_all_ok_def)
next
  case (4 k fibers s)
  then obtain s' where "fiber_scheduler_load_balance_wsd al sp i s = Some s'" "wsd_world_ok al s'" "wsd_all s' = wsd_all s"
    using load_balance_wsd_ok [of al s i sp] by (auto simp: wsd_all_ok_def wsd_all_def)
  with 4 load_balance_wsd_length show ?case by (fastforce simp: wsd_all_ok_def)
qed

section \<open>Shutdown\<close>

lemma queue_destroy_ok:
  assumes "queue_ok q"
  shows "wsd_work_stealing_deque_destroy (fst q) (snd q) = Some Map.empty"
proof -
  obtain as where as: "wsd_rep (fst q) (snd q) as (wsd_items q)" "dom (fst q) = set as"
    using assms by (auto simp: queue_ok_def)
  have "fst q |` (- set as) = Map.empty" using as(2) by (auto simp: restrict_map_def fun_eq_iff)
  with as(1) wsd_array_destroy_chain [of "fst q" "wsd_array (snd q)" as] show ?thesis
    by (simp add: wsd_work_stealing_deque_destroy_def wsd_rep_def)
qed

lemma shutdown_loop_ok:
  assumes "\<forall>q \<in> set qs. queue_ok q"
  shows "\<forall>s \<in> set ss. sc_queue_one s < length qs \<and> sc_queue_two s < length qs \<Longrightarrow>
     shutdown_loop qs ss = Some (replicate (2 * length ss) Map.empty)"
  using assms by (induction ss) (auto simp: fiber_scheduler_wsd_destroy_def queue_destroy_ok)

lemma shutdown_wsd_ok:
  assumes "wsd_world_ok al w"
  shows "fiber_scheduler_shutdown_wsd w = Some (replicate (length (sw_queues w)) Map.empty)"
proof -
  have "sc_queue_one s < length (sw_queues w) \<and> sc_queue_two s < length (sw_queues w)" if "s \<in> set (sw_schedulers w)" for s
    using assms that by (auto simp: wsd_world_ok_def Let_def in_set_conv_nth)
  then show ?thesis
    using shutdown_loop_ok [of "sw_queues w" "sw_schedulers w"] assms
    by (simp add: fiber_scheduler_shutdown_wsd_def wsd_world_ok_def)
qed

section \<open>Properties\<close>

text \<open>An allocator that always finds a fresh address in a finite heap.\<close>

definition first_free :: allocator where
  "first_free = (\<lambda>h. LEAST a. a \<noteq> NULL \<and> h a = None, \<lambda>_. NULL)"

lemma first_free_good: "good_malloc first_free"
  unfolding good_malloc_def
proof (intro allI impI)
  fix h :: array_heap
  assume "finite (dom h)"
  then have "finite (insert NULL (dom h))" by simp
  then obtain a where "a \<notin> insert NULL (dom h)" using ex_new_if_finite infinite_UNIV_nat by blast
  then have "a \<noteq> NULL \<and> h a = None" by auto
  then have "fst first_free h \<noteq> NULL \<and> h (fst first_free h) = None"
    unfolding first_free_def fst_conv by (rule LeastI)
  then show "h (fst first_free h) = None \<and> fst first_free h \<noteq> NULL" by blast
qed

lemma wsd_fresh_sched_ok:
  assumes "wsd_world_ok al w" "wsd_total (sw_queues w) = {#}" "i < length (sw_schedulers w)" "NULL \<notin> set fibers" "k < 2 ^ 29"
  shows "wsd_sched_ok al i k fibers w \<and> wsd_ready i w = {#}"
proof -
  let ?s = "sw_schedulers w ! i"
  have s: "{sc_schedule_from ?s, sc_store_to ?s} = {2 * i, 2 * i + 1}" and len: "length (sw_queues w) = 2 * length (sw_schedulers w)"
    using assms(1,3) by (auto simp: wsd_world_ok_def Let_def)
  have "sc_schedule_from ?s \<in> {2 * i, 2 * i + 1}" "sc_store_to ?s \<in> {2 * i, 2 * i + 1}" using s by blast+
  then have lt: "sc_schedule_from ?s < length (sw_queues w)" "sc_store_to ?s < length (sw_queues w)"
    using len assms(3) by auto
  have ne: "sc_schedule_from ?s \<noteq> sc_store_to ?s" using s by (metis insert_absorb2 n_not_Suc_n singleton_iff insertCI Suc_eq_plus1)
  have "wsd_ready i w = {#}"
    using wsd_total_nth [OF lt(1)] wsd_total_nth [OF lt(2)] assms(2) by (simp add: wsd_ready_def Let_def)
  moreover have "queue_ok (sw_queues w ! sc_schedule_from ?s)" "queue_ok (sw_queues w ! sc_store_to ?s)"
    using assms(1) lt by (auto simp: wsd_world_ok_def)
  ultimately show ?thesis
    using assms lt ne by (simp add: wsd_sched_ok_def wsd_world_ok_def Let_def)
qed

text \<open>C25. From a fresh work stealing scheduler, every sequence of scheduling fibers and asking for the next
  one runs without a fault, and at every moment each fiber is either with the client or in the scheduler
  exactly once: none is lost and none is handed out twice, also when fibers whose state is being saved
  are passed over and when the compare-exchange on the last element fails spuriously.\<close>

theorem wsd_scheduler_conserves:
  assumes "good_malloc al" "i < n" "distinct fibers" "NULL \<notin> set fibers" "length ops < 2 ^ 29"
  shows "\<exists>w w' held. fiber_scheduler_init_wsd al n = Some w \<and>
     sched_run (fiber_scheduler_schedule_wsd al i) (fiber_scheduler_next_wsd al i sps) fibers ops (w, fibers) = Some (w', held) \<and>
     mset held + wsd_ready i w' = mset fibers"
proof -
  obtain w where w: "fiber_scheduler_init_wsd al n = Some w" "wsd_world_ok al w" "length (sw_schedulers w) = n"
      "wsd_total (sw_queues w) = {#}"
    using init_wsd_ok [OF assms(1), of n] assms(2) by auto
  then have "wsd_sched_ok al i (length ops) fibers w" "mset fibers + wsd_ready i w = mset fibers"
    using wsd_fresh_sched_ok [OF w(2,4), of i fibers "length ops"] assms by auto
  from wsd_sched.sched_run_conserves [OF this(1) assms(3) this(2)] w(1) show ?thesis by blast
qed

theorem wsd_scheduler_conserves_witness:
  "\<exists>w w' held. fiber_scheduler_init_wsd first_free 2 = Some w \<and>
     sched_run (fiber_scheduler_schedule_wsd first_free 1) (fiber_scheduler_next_wsd first_free 1 [True]) [7, 8]
       [Schedule 7, Schedule 8, Next (\<lambda>f. f = 8), Next (\<lambda>_. False)] (w, [7, 8]) = Some (w', held) \<and>
     mset held + wsd_ready 1 w' = mset [7, 8]"
  by (rule wsd_scheduler_conserves) (simp_all add: first_free_good)

text \<open>Balancing the load of one kernel thread faults nowhere (the thread never meets its own deques),
  keeps all fibers of all deques, moves at most 50 of them, and counts every one it moves.\<close>

theorem wsd_load_balance_conserves:
  assumes "wsd_world_ok al w" "i < length (sw_schedulers w)" "size (wsd_total (sw_queues w)) < 2 ^ 29"
  shows "\<exists>w' k. fiber_scheduler_load_balance_wsd al sp i w = Some w' \<and> wsd_world_ok al w' \<and>
     wsd_total (sw_queues w') = wsd_total (sw_queues w) \<and> k \<le> 50 \<and>
     sc_steal_count (sw_schedulers w' ! i) = sc_steal_count (sw_schedulers w ! i) + of_nat k"
  by (rule load_balance_wsd_ok [OF assms])

theorem wsd_load_balance_conserves_witness:
  "\<exists>w w'. fiber_scheduler_init_wsd first_free 3 = Some w \<and>
     fiber_scheduler_load_balance_wsd first_free (\<lambda>_ _. False) 1 w = Some w' \<and>
     wsd_total (sw_queues w') = wsd_total (sw_queues w)"
proof -
  obtain w where w: "fiber_scheduler_init_wsd first_free 3 = Some w" "wsd_world_ok first_free w" "length (sw_schedulers w) = 3"
      "wsd_total (sw_queues w) = {#}"
    using init_wsd_ok [OF first_free_good, of 3] by auto
  then show ?thesis
    using wsd_load_balance_conserves [OF w(2), of 1 "\<lambda>_ _. False"] by auto
qed

text \<open>Shutting the schedulers down frees every array, the ones that growing replaced included.\<close>

theorem wsd_shutdown_frees_all:
  assumes "wsd_world_ok al w"
  shows "fiber_scheduler_shutdown_wsd w = Some (replicate (length (sw_queues w)) Map.empty)"
  by (rule shutdown_wsd_ok [OF assms])

theorem wsd_shutdown_frees_all_witness:
  "\<exists>w. fiber_scheduler_init_wsd first_free 2 = Some w \<and>
     fiber_scheduler_shutdown_wsd w = Some (replicate (length (sw_queues w)) Map.empty)"
  using init_wsd_ok [OF first_free_good, of 2] wsd_shutdown_frees_all [of first_free] by auto

end
