(* ===== verification/Scheduler_Dist.thy ===== *)
theory Scheduler_Dist
  imports Scheduler Dist_Fifo
begin

text \<open>
  \<open>src/fiber_scheduler_dist.c\<close>: one distributed queue per kernel thread.  A scheduled fiber lends its
  queue node (the field \<open>mpsc_fifo_node\<close>, here the function \<open>dw_node\<close>) to the queue and gets a node
  back when it is taken out.  \<open>fiber_scheduler_next\<close> pushes a fiber that is being saved back and goes
  on, so it does not return while only such fibers are scheduled; that is the value \<open>None\<close>.
\<close>

record fiber_scheduler_dist =
  sd_queue :: dist_fifo
  sd_id :: nat
  sd_steal_count :: "64 word"
  sd_failed_steal_count :: "64 word"

record dist_scheduler =
  dw_heap :: mpsc_heap
  dw_node :: "addr \<Rightarrow> addr"
  dw_schedulers :: "fiber_scheduler_dist list"

section \<open>Operations\<close>

definition fiber_scheduler_dist_init :: "mpsc_heap \<Rightarrow> addr \<Rightarrow> nat \<Rightarrow> mpsc_heap \<times> fiber_scheduler_dist \<times> int" where
  "fiber_scheduler_dist_init h a sid =
     (case dist_fifo_init h a of (h', q, r) \<Rightarrow>
        (h', \<lparr>sd_queue = q, sd_id = sid, sd_steal_count = 0, sd_failed_steal_count = 0\<rparr>, if r = 0 then 0 else 1))"

text \<open>The addresses that \<open>calloc\<close> returns for the dummies are a list.\<close>

fun dist_init_loop :: "mpsc_heap \<Rightarrow> fiber_scheduler_dist list \<Rightarrow> addr list \<Rightarrow> (mpsc_heap \<times> fiber_scheduler_dist list) option" where
  "dist_init_loop h ss [] = Some (h, ss)"
| "dist_init_loop h ss (a # as) =
     (case fiber_scheduler_dist_init h a (length ss) of (h', s, r) \<Rightarrow>
        if r = 0 then None else dist_init_loop h' (ss @ [s]) as)"

definition fiber_scheduler_init_dist :: "mpsc_heap \<Rightarrow> (addr \<Rightarrow> addr) \<Rightarrow> addr list \<Rightarrow> dist_scheduler option" where
  "fiber_scheduler_init_dist h node as = do {
     c_assert (length as > 0);
     (h', ss) \<leftarrow> dist_init_loop h [] as;
     Some \<lparr>dw_heap = h', dw_node = node, dw_schedulers = ss\<rparr>
   }"

definition fiber_scheduler_dist_destroy :: "mpsc_heap \<Rightarrow> fiber_scheduler_dist \<Rightarrow> mpsc_heap option" where
  "fiber_scheduler_dist_destroy h s = map_option fst (dist_fifo_destroy h (sd_queue s))"

fun dist_shutdown_loop :: "mpsc_heap \<Rightarrow> fiber_scheduler_dist list \<Rightarrow> mpsc_heap option" where
  "dist_shutdown_loop h [] = Some h"
| "dist_shutdown_loop h (s # ss) = do { h' \<leftarrow> fiber_scheduler_dist_destroy h s; dist_shutdown_loop h' ss }"

definition fiber_scheduler_shutdown_dist :: "dist_scheduler \<Rightarrow> dist_scheduler option" where
  "fiber_scheduler_shutdown_dist w = do {
     h \<leftarrow> dist_shutdown_loop (dw_heap w) (dw_schedulers w);
     Some (w\<lparr>dw_heap := h, dw_schedulers := []\<rparr>)
   }"

definition fiber_scheduler_for_thread_dist :: "dist_scheduler \<Rightarrow> nat \<Rightarrow> nat option" where
  "fiber_scheduler_for_thread_dist w thread_id = do {
     c_assert (thread_id < length (dw_schedulers w));
     Some thread_id
   }"

definition dist_set_queue :: "nat \<Rightarrow> dist_fifo \<Rightarrow> dist_scheduler \<Rightarrow> dist_scheduler" where
  "dist_set_queue i q w = w\<lparr>dw_schedulers := (dw_schedulers w)[i := (dw_schedulers w ! i)\<lparr>sd_queue := q\<rparr>]\<rparr>"

definition fiber_scheduler_schedule_dist :: "nat \<Rightarrow> dist_scheduler \<Rightarrow> addr \<Rightarrow> dist_scheduler option" where
  "fiber_scheduler_schedule_dist i w the_fiber = do {
     s \<leftarrow> nth_opt (dw_schedulers w) i;
     c_assert (the_fiber \<noteq> NULL);
     let node = dw_node w the_fiber;
     c_assert (node \<noteq> NULL);
     n \<leftarrow> load (dw_heap w) node;
     h \<leftarrow> store (dw_heap w) node (n\<lparr>mn_data := the_fiber\<rparr>);
     (h', q) \<leftarrow> dist_fifo_push h (sd_queue s) node;
     Some (dist_set_queue i q (w\<lparr>dw_heap := h', dw_node := (dw_node w)(the_fiber := NULL)\<rparr>))
   }"

partial_function (option) dist_next_loop ::
  "(addr \<Rightarrow> bool) \<Rightarrow> mpsc_heap \<Rightarrow> dist_fifo \<Rightarrow> (mpsc_heap \<times> dist_fifo \<times> addr \<times> addr) option" where
  "dist_next_loop saving h q =
     Option.bind (dist_fifo_trypop h q) (\<lambda>(h1, q1, r).
       case r of
         DIST_FIFO_RETRY \<Rightarrow> dist_next_loop saving h1 q1
       | DIST_FIFO_EMPTY \<Rightarrow> Some (h1, q1, NULL, NULL)
       | DIST_NODE node \<Rightarrow>
           Option.bind (load h1 node) (\<lambda>n.
             if saving (mn_data n)
             then Option.bind (dist_fifo_push h1 q1 node) (\<lambda>(h2, q2). dist_next_loop saving h2 q2)
             else Some (h1, q1, mn_data n, node)))"

definition fiber_scheduler_next_dist ::
  "nat \<Rightarrow> (addr \<Rightarrow> bool) \<Rightarrow> dist_scheduler \<Rightarrow> (dist_scheduler \<times> addr) option" where
  "fiber_scheduler_next_dist i saving w = do {
     s \<leftarrow> nth_opt (dw_schedulers w) i;
     (h, q, new_fiber, node) \<leftarrow> dist_next_loop saving (dw_heap w) (sd_queue s);
     let w' = dist_set_queue i q (w\<lparr>dw_heap := h\<rparr>);
     Some (if new_fiber = NULL then w' else w'\<lparr>dw_node := (dw_node w)(new_fiber := node)\<rparr>, new_fiber)
   }"

text \<open>Stealing, with a budget of 16 nodes; a node is moved as it is.\<close>

fun dist_steal_loop ::
  "mpsc_heap \<Rightarrow> dist_fifo \<Rightarrow> dist_fifo \<Rightarrow> nat \<Rightarrow> 64 word \<Rightarrow> 64 word \<Rightarrow>
   (mpsc_heap \<times> dist_fifo \<times> dist_fifo \<times> nat \<times> 64 word \<times> 64 word) option" where
  "dist_steal_loop h remote local 0 steals fails = Some (h, remote, local, 0, steals, fails)"
| "dist_steal_loop h remote local (Suc max_steal) steals fails = do {
     (h1, remote1, stolen) \<leftarrow> dist_fifo_trypop h remote;
     case stolen of
       DIST_NODE node \<Rightarrow> do {
         (h2, local2) \<leftarrow> dist_fifo_push h1 local node;
         dist_steal_loop h2 remote1 local2 max_steal (steals + 1) fails }
     | _ \<Rightarrow> Some (h1, remote1, local, Suc max_steal, steals, fails + 1)
   }"

fun dist_balance_loop ::
  "nat \<Rightarrow> nat \<Rightarrow> nat \<Rightarrow> nat \<Rightarrow> mpsc_heap \<Rightarrow> dist_fifo list \<Rightarrow> 64 word \<Rightarrow> 64 word \<Rightarrow>
   (mpsc_heap \<times> dist_fifo list \<times> 64 word \<times> 64 word) option" where
  "dist_balance_loop me i 0 max_steal h qs steals fails = Some (h, qs, steals, fails)"
| "dist_balance_loop me i (Suc n) max_steal h qs steals fails = do {
     let index = i mod length qs;
     c_assert (index \<noteq> me);
     remote \<leftarrow> nth_opt qs index;
     local \<leftarrow> nth_opt qs me;
     (h', remote', local', max_steal', steals', fails') \<leftarrow> dist_steal_loop h remote local max_steal steals fails;
     dist_balance_loop me (i + 1) n max_steal' h' (qs[index := remote', me := local']) steals' fails'
   }"

definition fiber_scheduler_load_balance_dist :: "nat \<Rightarrow> dist_scheduler \<Rightarrow> dist_scheduler option" where
  "fiber_scheduler_load_balance_dist i w = do {
     s \<leftarrow> nth_opt (dw_schedulers w) i;
     (h, qs, steals, fails) \<leftarrow>
       dist_balance_loop i (sd_id s + 1) (length (dw_schedulers w) - 1) 16 (dw_heap w) (map sd_queue (dw_schedulers w))
         (sd_steal_count s) (sd_failed_steal_count s);
     Some (w\<lparr>dw_heap := h,
             dw_schedulers := map2 (\<lambda>s q. s\<lparr>sd_queue := q\<rparr>)
               ((dw_schedulers w)[i := s\<lparr>sd_steal_count := steals, sd_failed_steal_count := fails\<rparr>]) qs\<rparr>)
   }"

definition fiber_scheduler_stats_dist :: "dist_scheduler \<Rightarrow> nat \<Rightarrow> 64 word \<times> 64 word \<Rightarrow> (64 word \<times> 64 word) option" where
  "fiber_scheduler_stats_dist w i c = do {
     s \<leftarrow> nth_opt (dw_schedulers w) i;
     Some (fst c + sd_steal_count s, snd c + sd_failed_steal_count s)
   }"

section \<open>The contents of a queue\<close>

partial_function (option) queue_data :: "mpsc_heap \<Rightarrow> addr \<Rightarrow> addr list option" where
  "queue_data h p =
     Option.bind (load h p) (\<lambda>x.
       if mn_next x = NULL then Some []
       else Option.bind (load h (mn_next x)) (\<lambda>n.
              Option.bind (queue_data h (mn_next x)) (\<lambda>rest. Some (mn_data n # rest))))"

lemma queue_data_chain:
  "chain mn_next h p ns NULL \<Longrightarrow> ns \<noteq> [] \<Longrightarrow> queue_data h p = Some (map (\<lambda>a. the (mpsc_dat h a)) (tl ns))"
proof (induction ns arbitrary: p)
  case (Cons a ns)
  then obtain x where x: "p = a" "a \<noteq> NULL" "h a = Some x" "chain mn_next h (mn_next x) ns NULL"
    by (auto split: option.splits)
  show ?case
  proof (cases ns)
    case Nil
    with x show ?thesis by (subst queue_data.simps) simp
  next
    case (Cons b ms)
    with x obtain y where y: "mn_next x = b" "b \<noteq> NULL" "h b = Some y" by (auto split: option.splits)
    with Cons.IH [OF x(4)] Cons x show ?thesis
      by (subst queue_data.simps) (simp add: mpsc_dat_def)
  qed
qed simp

lemma queue_data_rep:
  assumes "dist_rep h f ns xs"
  shows "queue_data h (df_node f) = Some xs"
proof -
  have m: "map Some xs = map (mpsc_dat h) (tl ns)" using assms by (simp add: dist_rep_def mpsc_rep_def)
  have "xs = map the (map Some xs)" by (simp add: comp_def)
  also have "\<dots> = map (\<lambda>a. the (mpsc_dat h a)) (tl ns)" unfolding m by simp
  finally show ?thesis
    using assms queue_data_chain [of h "df_node f" ns] by (simp add: dist_rep_def mpsc_rep_def dist_as_mpsc_def)
qed

definition dist_ready :: "nat \<Rightarrow> dist_scheduler \<Rightarrow> addr multiset" where
  "dist_ready i w = mset (the (queue_data (dw_heap w) (df_node (sd_queue (dw_schedulers w ! i)))))"

lemma dist_rep_cong: "(\<And>a. a \<in> set ns \<Longrightarrow> h' a = h a) \<Longrightarrow> dist_rep h' f ns xs = dist_rep h f ns xs"
  unfolding dist_rep_def by (rule mpsc_rep_cong)

lemma dist_push_frame: "dist_rep h f ns xs \<Longrightarrow> dist_fifo_push h f n = Some (h', f') \<Longrightarrow> p \<notin> set ns \<Longrightarrow> p \<noteq> n \<Longrightarrow> h' p = h p"
  using mpsc_push_frame [of h "dist_as_mpsc f" n h' "dist_as_mpsc f'" p] mpsc_rep_ends [of h "dist_as_mpsc f" ns xs]
  by (auto simp: dist_push_mpsc dist_rep_def)

lemma dist_pop_frame: "dist_rep h f ns xs \<Longrightarrow> dist_fifo_trypop h f = Some (h', f', r) \<Longrightarrow> p \<notin> set ns \<Longrightarrow> h' p = h p"
  using mpsc_trypop_frame [of h "dist_as_mpsc f" h' "dist_as_mpsc f'" "result_addr r" p] mpsc_rep_ends [of h "dist_as_mpsc f" ns xs]
  by (auto simp: dist_trypop_mpsc dist_pop_def dist_rep_def)

lemma trypop_node:
  assumes "dist_rep h f ns (x # xs)"
  shows "\<exists>h' f'. dist_fifo_trypop h f = Some (h', f', DIST_NODE (hd ns)) \<and> dist_rep h' f' (tl ns) xs \<and>
     mpsc_dat h' = (mpsc_dat h)(hd ns := Some x)"
proof -
  obtain h' f' r where r: "dist_fifo_trypop h f = Some (h', f', r)" "result_addr r = hd ns" "dist_rep h' f' (tl ns) xs"
      "mpsc_dat h' = (mpsc_dat h)(hd ns := Some x)"
    using dist_pop_rep [OF assms] by (auto simp: dist_pop_def)
  have "hd ns \<noteq> NULL" using dist.rep_hd [OF assms] by simp
  then have "r = DIST_NODE (hd ns)" using r(2) by (cases r) auto
  with r show ?thesis by blast
qed

lemma trypop_none: "dist_rep h f ns [] \<Longrightarrow> dist_fifo_trypop h f = Some (h, f, DIST_FIFO_EMPTY)"
  by (cases ns) (auto simp: dist_rep_def mpsc_rep_def fifo_defs split: option.splits)

section \<open>One scheduler\<close>

lemma dat_alloc: "mpsc_dat h' = (mpsc_dat h)(a := Some x) \<Longrightarrow> h a \<noteq> None \<Longrightarrow> h' p = None \<longleftrightarrow> h p = None"
  by (auto simp: mpsc_dat_def fun_eq_iff split: if_splits) (metis option.map_disc_iff option.distinct(1))+

lemma dat_alloc_same: "mpsc_dat h' = mpsc_dat h \<Longrightarrow> h' p = None \<longleftrightarrow> h p = None"
  by (metis mpsc_dat_def option.map_disc_iff)

lemma rep_alloc: "dist_rep h f ns xs \<Longrightarrow> a \<in> set ns \<Longrightarrow> h a \<noteq> None"
  using chain_alloc by (fastforce simp: dist_rep_def mpsc_rep_def)

text \<open>
  The loop rotates the fibers that are being saved to the back and takes the first of the others.
\<close>

lemma dist_next_loop_ok:
  "dist_rep h q ns (ys @ f # zs) \<Longrightarrow> \<forall>y \<in> set ys. saving y \<Longrightarrow> \<not> saving f \<Longrightarrow>
   \<exists>h' q' n ns'. dist_next_loop saving h q = Some (h', q', f, n) \<and> dist_rep h' q' ns' (zs @ ys) \<and>
     set ns = insert n (set ns') \<and> n \<notin> set ns' \<and> (\<forall>p. p \<notin> set ns \<longrightarrow> h' p = h p) \<and> (\<forall>p. h' p = None \<longleftrightarrow> h p = None)"
proof (induction ys arbitrary: h q ns zs)
  case Nil
  then have rep: "dist_rep h q ns (f # zs)" by simp
  obtain h' q' where p: "dist_fifo_trypop h q = Some (h', q', DIST_NODE (hd ns))" "dist_rep h' q' (tl ns) zs"
      "mpsc_dat h' = (mpsc_dat h)(hd ns := Some f)"
    using trypop_node [OF rep] by blast
  have hd: "hd ns \<noteq> NULL" "hd ns \<in> set ns" using dist.rep_hd [OF rep] by auto
  have ns: "ns = hd ns # tl ns" "distinct ns" using hd(2) dist_rep_nodes [OF rep] by (cases ns; simp)+
  have "mpsc_dat h' (hd ns) = Some f" using p(3) by simp
  then obtain n where n: "h' (hd ns) = Some n" "mn_data n = f" by (auto simp: mpsc_dat_def)
  have "dist_next_loop saving h q = Some (h', q', f, hd ns)"
    using p(1) n hd(1) Nil.prems(3) by (subst dist_next_loop.simps) simp
  moreover have "set ns = insert (hd ns) (set (tl ns))" "hd ns \<notin> set (tl ns)" using ns by (metis list.simps(15), metis distinct.simps(2))
  moreover have "\<forall>p. p \<notin> set ns \<longrightarrow> h' p = h p" using dist_pop_frame [OF rep p(1)] by blast
  moreover have "\<forall>p. h' p = None \<longleftrightarrow> h p = None" using dat_alloc [OF p(3) rep_alloc [OF rep hd(2)]] by blast
  ultimately show ?case using p(2) by fastforce
next
  case (Cons y ys)
  then have rep: "dist_rep h q ns (y # (ys @ f # zs))" by simp
  obtain h1 q1 where p: "dist_fifo_trypop h q = Some (h1, q1, DIST_NODE (hd ns))" "dist_rep h1 q1 (tl ns) (ys @ f # zs)"
      "mpsc_dat h1 = (mpsc_dat h)(hd ns := Some y)"
    using trypop_node [OF rep] by blast
  have hd: "hd ns \<noteq> NULL" "hd ns \<in> set ns" using dist.rep_hd [OF rep] by auto
  have ns: "set ns = insert (hd ns) (set (tl ns))" "hd ns \<notin> set (tl ns)"
    using hd(2) dist_rep_nodes [OF rep] by (cases ns; simp)+
  have d: "mpsc_dat h1 (hd ns) = Some y" using p(3) by simp
  then obtain n where n: "h1 (hd ns) = Some n" "mn_data n = y" by (auto simp: mpsc_dat_def)
  obtain h2 q2 where r: "dist_fifo_push h1 q1 (hd ns) = Some (h2, q2)" "dist_rep h2 q2 (tl ns @ [hd ns]) ((ys @ f # zs) @ [y])"
      "mpsc_dat h2 = mpsc_dat h1"
    using dist_push_rep [OF p(2) ns(2) hd(1) d] by blast
  have step: "dist_next_loop saving h q = dist_next_loop saving h2 q2"
    using p(1) n hd(1) Cons.prems(2) r(1) by (subst dist_next_loop.simps) simp
  have rep2: "dist_rep h2 q2 (tl ns @ [hd ns]) (ys @ f # (zs @ [y]))" "\<forall>x \<in> set ys. saving x"
    using r(2) Cons.prems(2) by simp_all
  obtain h' q' m ns' where rest: "dist_next_loop saving h2 q2 = Some (h', q', f, m)" "dist_rep h' q' ns' ((zs @ [y]) @ ys)"
      "set (tl ns @ [hd ns]) = insert m (set ns')" "m \<notin> set ns'" "\<forall>p. p \<notin> set (tl ns @ [hd ns]) \<longrightarrow> h' p = h2 p"
      "\<forall>p. h' p = None \<longleftrightarrow> h2 p = None"
    using Cons.IH [OF rep2 Cons.prems(3)] by blast
  have fr: "h' p = h p" if "p \<notin> set ns" for p
    using that ns rest(5) dist_pop_frame [OF rep p(1)] dist_push_frame [OF p(2) r(1)] by auto
  have al: "h' p = None \<longleftrightarrow> h p = None" for p
    using rest(6) dat_alloc_same [OF r(3)] dat_alloc [OF p(3) rep_alloc [OF rep hd(2)]] by blast
  have "set ns = insert m (set ns')" using rest(3) ns(1) by simp
  with step rest(1,2,4) fr al show ?case by (simp only: append_assoc append_Cons append_Nil) blast
qed

definition nodes_ok :: "mpsc_heap \<Rightarrow> (addr \<Rightarrow> addr) \<Rightarrow> addr list \<Rightarrow> addr set \<Rightarrow> bool" where
  "nodes_ok h node ns fs \<longleftrightarrow> (\<forall>f \<in> fs. node f \<noteq> NULL \<and> h (node f) \<noteq> None \<and> node f \<notin> set ns) \<and> inj_on node fs"

text \<open>The fibers that are not scheduled hold a node of their own.\<close>

definition dist_sched_ok :: "nat \<Rightarrow> nat \<Rightarrow> addr list \<Rightarrow> dist_scheduler \<Rightarrow> bool" where
  "dist_sched_ok i k fibers w \<longleftrightarrow> NULL \<notin> set fibers \<and> i < length (dw_schedulers w) \<and>
     (\<exists>ns xs. dist_rep (dw_heap w) (sd_queue (dw_schedulers w ! i)) ns xs \<and> distinct xs \<and> set xs \<subseteq> set fibers \<and>
              nodes_ok (dw_heap w) (dw_node w) ns (set fibers - set xs))"

lemma dist_sched_okI:
  "dist_rep (dw_heap w) (sd_queue (dw_schedulers w ! i)) ns xs \<Longrightarrow> NULL \<notin> set fibers \<Longrightarrow> i < length (dw_schedulers w) \<Longrightarrow>
   distinct xs \<Longrightarrow> set xs \<subseteq> set fibers \<Longrightarrow> nodes_ok (dw_heap w) (dw_node w) ns (set fibers - set xs) \<Longrightarrow> dist_sched_ok i k fibers w"
  unfolding dist_sched_ok_def by blast

lemma dist_ready_rep:
  "dist_rep (dw_heap w) (sd_queue (dw_schedulers w ! i)) ns xs \<Longrightarrow> dist_ready i w = mset xs"
  by (simp add: dist_ready_def queue_data_rep)

lemma schedule_dist_ok:
  assumes ok: "dist_sched_ok i k fibers w" and f: "f \<in> set fibers" "f \<notin># dist_ready i w"
  shows "\<exists>w'. fiber_scheduler_schedule_dist i w f = Some w' \<and> dist_sched_ok i k' fibers w' \<and>
              dist_ready i w' = add_mset f (dist_ready i w)"
proof -
  let ?q = "sd_queue (dw_schedulers w ! i)" and ?n = "dw_node w f"
  obtain ns xs where rep: "dist_rep (dw_heap w) ?q ns xs" and xs: "distinct xs" "set xs \<subseteq> set fibers"
      and nodes: "nodes_ok (dw_heap w) (dw_node w) ns (set fibers - set xs)"
    using ok by (auto simp: dist_sched_ok_def)
  have i: "i < length (dw_schedulers w)" and nz: "f \<noteq> NULL"
    using ok f(1) unfolding dist_sched_ok_def by metis+
  have fx: "f \<notin> set xs" using f(2) dist_ready_rep [OF rep] by simp
  then have n: "?n \<noteq> NULL" "?n \<notin> set ns" "dw_heap w ?n \<noteq> None" using nodes f(1) by (auto simp: nodes_ok_def)
  then obtain c where c: "dw_heap w ?n = Some c" by blast
  let ?h = "(dw_heap w)(?n \<mapsto> c\<lparr>mn_data := f\<rparr>)"
  have "dist_rep ?h ?q ns xs" using rep n(2) by (subst dist_rep_cong [of ns ?h "dw_heap w"]) auto
  moreover have "mpsc_dat ?h ?n = Some f" by (simp add: mpsc_dat_def)
  ultimately obtain h' q' where p: "dist_fifo_push ?h ?q ?n = Some (h', q')" "dist_rep h' q' (ns @ [?n]) (xs @ [f])"
      "mpsc_dat h' = mpsc_dat ?h"
    using dist_push_rep [of ?h ?q ns xs ?n f] n(1,2) by blast
  let ?w = "dist_set_queue i q' (w\<lparr>dw_heap := h', dw_node := (dw_node w)(f := NULL)\<rparr>)"
  have run: "fiber_scheduler_schedule_dist i w f = Some ?w"
    using i nz n c p(1) by (simp add: fiber_scheduler_schedule_dist_def Let_def)
  have al: "h' a = None \<longleftrightarrow> dw_heap w a = None" for a
    using dat_alloc_same [OF p(3), of a] c by auto
  have rep': "dist_rep (dw_heap ?w) (sd_queue (dw_schedulers ?w ! i)) (ns @ [?n]) (xs @ [f])"
    using p(2) i by (simp add: dist_set_queue_def)
  have "nodes_ok h' ((dw_node w)(f := NULL)) (ns @ [?n]) (set fibers - set (xs @ [f]))"
    using nodes f(1) fx al by (auto simp: nodes_ok_def inj_on_def)
  then have "dist_sched_ok i k' fibers ?w"
    using ok xs f(1) fx i
    by (intro dist_sched_okI [OF rep']) (auto simp: dist_set_queue_def dist_sched_ok_def)
  with run dist_ready_rep [OF rep] dist_ready_rep [OF rep'] show ?thesis by auto
qed

lemma next_dist_ok:
  assumes ok: "dist_sched_ok i k fibers w"
    and some: "dist_ready i w = {#} \<or> (\<exists>f. f \<in># dist_ready i w \<and> \<not> saving f)"
  shows "\<exists>w' f. fiber_scheduler_next_dist i saving w = Some (w', f) \<and> dist_sched_ok i k' fibers w' \<and>
     (if f = NULL then dist_ready i w' = dist_ready i w else \<not> saving f \<and> dist_ready i w = add_mset f (dist_ready i w'))"
proof -
  let ?q = "sd_queue (dw_schedulers w ! i)"
  obtain ns xs where rep: "dist_rep (dw_heap w) ?q ns xs" and xs: "distinct xs" "set xs \<subseteq> set fibers"
      and nodes: "nodes_ok (dw_heap w) (dw_node w) ns (set fibers - set xs)"
    using ok by (auto simp: dist_sched_ok_def)
  have i: "i < length (dw_schedulers w)" using ok by (simp add: dist_sched_ok_def)
  show ?thesis
  proof (cases "xs = []")
    case True
    then have "dist_next_loop saving (dw_heap w) ?q = Some (dw_heap w, ?q, NULL, NULL)"
      using trypop_none rep by (subst dist_next_loop.simps) simp
    then have "fiber_scheduler_next_dist i saving w = Some (w, NULL)"
      using i by (simp add: fiber_scheduler_next_dist_def dist_set_queue_def)
    with ok show ?thesis by (auto simp: dist_sched_ok_def)
  next
    case False
    then have "\<exists>f \<in> set xs. \<not> saving f" using some dist_ready_rep [OF rep] by auto
    then obtain ys f zs where s: "xs = ys @ f # zs" "\<not> saving f" "\<forall>y \<in> set ys. saving y"
      using split_list_first_prop [of xs "\<lambda>f. \<not> saving f"] by blast
    obtain h' q' n ns' where l: "dist_next_loop saving (dw_heap w) ?q = Some (h', q', f, n)" "dist_rep h' q' ns' (zs @ ys)"
        "set ns = insert n (set ns')" "n \<notin> set ns'" "\<forall>p. p \<notin> set ns \<longrightarrow> h' p = dw_heap w p" "\<forall>p. h' p = None \<longleftrightarrow> dw_heap w p = None"
      using dist_next_loop_ok [of "dw_heap w" ?q ns ys f zs saving] rep s by metis
    have nz: "f \<noteq> NULL" using ok xs s(1) unfolding dist_sched_ok_def by auto
    let ?w = "(dist_set_queue i q' (w\<lparr>dw_heap := h'\<rparr>))\<lparr>dw_node := (dw_node w)(f := n)\<rparr>"
    have run: "fiber_scheduler_next_dist i saving w = Some (?w, f)"
      using i l(1) nz by (simp add: fiber_scheduler_next_dist_def Let_def)
    have rep': "dist_rep (dw_heap ?w) (sd_queue (dw_schedulers ?w ! i)) ns' (zs @ ys)"
      using l(2) i by (simp add: dist_set_queue_def)
    have n: "n \<noteq> NULL" "h' n \<noteq> None"
      using l(3,6) rep_alloc [OF rep, of n] dist_rep_nodes [OF rep] by auto
    have "nodes_ok h' ((dw_node w)(f := n)) ns' (set fibers - set (zs @ ys))"
      unfolding nodes_ok_def
    proof
      show "\<forall>g \<in> set fibers - set (zs @ ys). ((dw_node w)(f := n)) g \<noteq> NULL \<and> h' (((dw_node w)(f := n)) g) \<noteq> None \<and>
          ((dw_node w)(f := n)) g \<notin> set ns'"
        using nodes n l(3,4,6) s(1) by (auto simp: nodes_ok_def)
      have "dw_node w g \<noteq> n" if "g \<in> set fibers" "g \<notin> set xs" for g
        using nodes l(3) that by (auto simp: nodes_ok_def)
      then show "inj_on ((dw_node w)(f := n)) (set fibers - set (zs @ ys))"
        using nodes s(1) by (auto simp: nodes_ok_def inj_on_def)
    qed
    then have "dist_sched_ok i k' fibers ?w"
      using ok xs s(1) i
      by (intro dist_sched_okI [OF rep']) (auto simp: dist_set_queue_def dist_sched_ok_def)
    with run nz s(2) dist_ready_rep [OF rep] dist_ready_rep [OF rep'] s(1) show ?thesis
      by (intro exI [of _ ?w] exI [of _ f]) simp
  qed
qed

interpretation dist_sched: scheduler "fiber_scheduler_schedule_dist i" "fiber_scheduler_next_dist i"
  "dist_ready i" "dist_sched_ok i" for i
proof (unfold_locales, goal_cases)
  case (1 k fibers s f)
  then show ?case using schedule_dist_ok by blast
next
  case (2 k fibers s saving)
  then show ?case using next_dist_ok by blast
next
  case (3 k fibers s)
  then show ?case by (simp add: dist_sched_ok_def)
qed

section \<open>All schedulers together\<close>

text \<open>Every queue with its nodes and its elements; no node is in two queues.\<close>

definition dist_reps :: "mpsc_heap \<Rightarrow> dist_fifo list \<Rightarrow> addr list list \<Rightarrow> addr list list \<Rightarrow> bool" where
  "dist_reps h qs nss xss \<longleftrightarrow> length nss = length qs \<and> length xss = length qs \<and>
     (\<forall>i < length qs. dist_rep h (qs ! i) (nss ! i) (xss ! i)) \<and>
     (\<forall>i < length qs. \<forall>j < length qs. i \<noteq> j \<longrightarrow> set (nss ! i) \<inter> set (nss ! j) = {})"

lemma dist_reps_update:
  assumes reps: "dist_reps h qs nss xss" and i: "i < length qs" and new: "dist_rep h' q ns xs"
    and dis: "\<And>j. j < length qs \<Longrightarrow> j \<noteq> i \<Longrightarrow> set ns \<inter> set (nss ! j) = {}"
    and fr: "\<And>j p. j < length qs \<Longrightarrow> j \<noteq> i \<Longrightarrow> p \<in> set (nss ! j) \<Longrightarrow> h' p = h p"
  shows "dist_reps h' (qs[i := q]) (nss[i := ns]) (xss[i := xs])"
proof -
  have "dist_rep h' (qs[i := q] ! j) (nss[i := ns] ! j) (xss[i := xs] ! j)" if j: "j < length qs" for j
  proof (cases "j = i")
    case True
    with reps i new show ?thesis by (simp add: dist_reps_def)
  next
    case False
    have "dist_rep h (qs ! j) (nss ! j) (xss ! j)" using reps j by (simp add: dist_reps_def)
    then have "dist_rep h' (qs ! j) (nss ! j) (xss ! j)"
      using dist_rep_cong [of "nss ! j" h' h] fr [OF j False] by blast
    with False show ?thesis by simp
  qed
  moreover have "set (nss[i := ns] ! j) \<inter> set (nss[i := ns] ! k) = {}" if "j < length qs" "k < length qs" "j \<noteq> k" for j k
    using that reps dis [of j] dis [of k] unfolding dist_reps_def
    by (cases "j = i"; cases "k = i") (auto simp: nth_list_update)
  ultimately show ?thesis using reps by (simp add: dist_reps_def)
qed

text \<open>Moving the oldest element of one queue, with its node, to the back of another.\<close>

lemma dist_move_ok:
  assumes reps: "dist_reps h qs nss xss" and r: "r < length qs" and l: "l < length qs" "l \<noteq> r" and xs: "xss ! r = x # xs"
  defines "n \<equiv> hd (nss ! r)"
  shows "\<exists>h1 q1 h2 q2. dist_fifo_trypop h (qs ! r) = Some (h1, q1, DIST_NODE n) \<and> dist_fifo_push h1 (qs ! l) n = Some (h2, q2) \<and>
     dist_reps h2 (qs[r := q1, l := q2]) (nss[r := tl (nss ! r), l := nss ! l @ [n]]) (xss[r := xs, l := xss ! l @ [x]])"
proof -
  have rep: "dist_rep h (qs ! r) (nss ! r) (x # xs)" using reps r xs by (auto simp: dist_reps_def)
  obtain h1 q1 where p: "dist_fifo_trypop h (qs ! r) = Some (h1, q1, DIST_NODE n)" "dist_rep h1 q1 (tl (nss ! r)) xs"
      "mpsc_dat h1 = (mpsc_dat h)(n := Some x)"
    using trypop_node [OF rep] unfolding n_def by blast
  have n: "n \<noteq> NULL" "n \<in> set (nss ! r)" "n \<notin> set (tl (nss ! r))"
    using dist.rep_hd [OF rep] dist_rep_nodes [OF rep] unfolding n_def by (auto, cases "nss ! r") auto
  have dis: "set (nss ! r) \<inter> set (nss ! j) = {}" if "j < length qs" "j \<noteq> r" for j
    using reps r that unfolding dist_reps_def by metis
  have sub: "set (tl (nss ! r)) \<subseteq> set (nss ! r)" by (cases "nss ! r") auto
  let ?nss = "nss[r := tl (nss ! r)]"
  have reps1: "dist_reps h1 (qs[r := q1]) ?nss (xss[r := xs])"
    using dis sub dist_pop_frame [OF rep p(1)] by (intro dist_reps_update [OF reps r p(2)]) blast+
  have len: "length nss = length qs" "length xss = length qs" using reps by (simp_all add: dist_reps_def)
  have rep1: "dist_rep h1 (qs ! l) (nss ! l) (xss ! l)"
    using reps1 l len unfolding dist_reps_def by (metis length_list_update nth_list_update_neq)
  have nl: "n \<notin> set (nss ! l)" using dis [OF l] n(2) by blast
  have dat: "mpsc_dat h1 n = Some x" using p(3) by simp
  obtain h2 q2 where s: "dist_fifo_push h1 (qs ! l) n = Some (h2, q2)" "dist_rep h2 q2 (nss ! l @ [n]) (xss ! l @ [x])"
    using dist_push_rep [OF rep1 nl n(1) dat] by blast
  have "dist_reps h2 ((qs[r := q1])[l := q2]) (?nss[l := nss ! l @ [n]]) ((xss[r := xs])[l := xss ! l @ [x]])"
  proof (rule dist_reps_update [OF reps1 _ s(2)])
    show "l < length (qs[r := q1])" using l by simp
    fix j assume j: "j < length (qs[r := q1])" "j \<noteq> l"
    have "set (nss ! l) \<inter> set (nss ! j) = {}" using reps l j by (auto simp: dist_reps_def)
    moreover have "n \<notin> set (?nss ! j)" using n dis [of j] j len by (cases "j = r") auto
    moreover have "set (?nss ! j) \<subseteq> set (nss ! j)" using sub j len by (cases "j = r") auto
    ultimately show "set (nss ! l @ [n]) \<inter> set (?nss ! j) = {}" by auto
    fix p assume "p \<in> set (?nss ! j)"
    with \<open>set (nss ! l @ [n]) \<inter> set (?nss ! j) = {}\<close> show "h2 p = h1 p"
      by (intro dist_push_frame [OF rep1 s(1)]) auto
  qed
  with p(1) s(1) show ?thesis by blast
qed

lemma dist_trypop_empty_queue:
  assumes "dist_reps h qs nss xss" "r < length qs" "xss ! r = []"
  shows "dist_fifo_trypop h (qs ! r) = Some (h, qs ! r, DIST_FIFO_EMPTY)"
  using trypop_none [of h "qs ! r" "nss ! r"] assms by (auto simp: dist_reps_def)

lemma mset_concat_update:
  "i < length xss \<Longrightarrow> mset (concat (xss[i := xs])) + mset (xss ! i) = mset (concat xss) + mset xs"
  by (induction xss arbitrary: i) (auto simp: nth_Cons' algebra_simps split: nat.splits)

lemma dist_steal_loop_ok:
  "dist_reps h qs nss xss \<Longrightarrow> r < length qs \<Longrightarrow> l < length qs \<Longrightarrow> l \<noteq> r \<Longrightarrow>
   \<exists>h' remote local ms st fl k nss' xss'. dist_steal_loop h (qs ! r) (qs ! l) ms0 st0 fl0 = Some (h', remote, local, ms, st, fl) \<and>
     dist_reps h' (qs[r := remote, l := local]) nss' xss' \<and> mset (concat xss') = mset (concat xss) \<and>
     k \<le> ms0 \<and> ms = ms0 - k \<and> st = st0 + of_nat k"
proof (induction ms0 arbitrary: h qs nss xss st0 fl0)
  case 0
  then show ?case by simp blast
next
  case (Suc ms0)
  show ?case
  proof (cases "xss ! r")
    case Nil
    have "\<exists>k nss' xss'. dist_reps h qs nss' xss' \<and> mset (concat xss') = mset (concat xss) \<and> k \<le> Suc ms0 \<and>
        Suc ms0 = Suc ms0 - k \<and> (of_nat k :: 64 word) = 0"
      using Suc.prems(1) by (rule_tac exI [of _ 0]) auto
    with dist_trypop_empty_queue [OF Suc.prems(1,2) Nil] show ?thesis by simp
  next
    case (Cons x xs)
    let ?n = "hd (nss ! r)"
    obtain h1 q1 h2 q2 where m: "dist_fifo_trypop h (qs ! r) = Some (h1, q1, DIST_NODE ?n)" "dist_fifo_push h1 (qs ! l) ?n = Some (h2, q2)"
        "dist_reps h2 (qs[r := q1, l := q2]) (nss[r := tl (nss ! r), l := nss ! l @ [?n]]) (xss[r := xs, l := xss ! l @ [x]])"
      using dist_move_ok [OF Suc.prems Cons] by blast
    let ?qs = "qs[r := q1, l := q2]" and ?xss = "xss[r := xs, l := xss ! l @ [x]]"
    have q: "?qs ! r = q1" "?qs ! l = q2" using Suc.prems by auto
    obtain h' remote local ms st fl k nss' xss' where rest:
        "dist_steal_loop h2 (?qs ! r) (?qs ! l) ms0 (st0 + 1) fl0 = Some (h', remote, local, ms, st, fl)"
        "dist_reps h' (?qs[r := remote, l := local]) nss' xss'" "mset (concat xss') = mset (concat ?xss)"
        "k \<le> ms0" "ms = ms0 - k" "st = st0 + 1 + of_nat k"
      using Suc.IH [OF m(3)] Suc.prems by (metis length_list_update)
    have "?qs[r := remote, l := local] = qs[r := remote, l := local]"
      using Suc.prems(4) by (simp add: list_update_swap)
    moreover have "dist_steal_loop h (qs ! r) (qs ! l) (Suc ms0) st0 fl0 = Some (h', remote, local, ms, st, fl)"
      using m(1,2) rest(1) q by simp
    moreover have "mset (concat ?xss) = mset (concat xss)"
      using mset_concat_update [of r xss xs] mset_concat_update [of l "xss[r := xs]" "xss ! l @ [x]"] Suc.prems Cons
      by (auto simp: dist_reps_def algebra_simps)
    ultimately show ?thesis
      using rest(2-6) by (intro exI [of _ h'] exI [of _ remote] exI [of _ local] exI [of _ ms] exI [of _ st] exI [of _ fl]
          exI [of _ "Suc k"] exI [of _ nss'] exI [of _ xss']) auto
  qed
qed

lemma dist_balance_index:
  fixes i n j :: nat
  assumes "i < n" "i + 1 \<le> j" "j < i + 1 + (n - 1)"
  shows "j mod n < n" "j mod n \<noteq> i"
  using assms mod_window_inj [of j n i i] by auto

lemma dist_balance_loop_ok:
  assumes me: "me < n"
  shows "dist_reps h qs nss xss \<Longrightarrow> length qs = n \<Longrightarrow> me + 1 \<le> j \<Longrightarrow> j + m = me + 1 + (n - 1) \<Longrightarrow>
     \<exists>h' qs' st fl k nss' xss'. dist_balance_loop me j m ms h qs st0 fl0 = Some (h', qs', st, fl) \<and> length qs' = n \<and>
       dist_reps h' qs' nss' xss' \<and> mset (concat xss') = mset (concat xss) \<and> k \<le> ms \<and> st = st0 + of_nat k"
proof (induction m arbitrary: j ms h qs nss xss st0 fl0)
  case 0
  then have "\<exists>k nss' xss'. dist_reps h qs nss' xss' \<and> mset (concat xss') = mset (concat xss) \<and> k \<le> ms \<and> (of_nat k :: 64 word) = 0"
    by (rule_tac exI [of _ 0]) auto
  with 0 show ?case by simp
next
  case (Suc m)
  let ?r = "j mod n"
  have r: "?r < n" "?r \<noteq> me" using dist_balance_index [OF me, of j] Suc.prems by auto
  have l: "?r < length qs" "me < length qs" "me \<noteq> ?r" using r me Suc.prems(2) by auto
  obtain h1 remote local ms1 st1 fl1 k1 nss1 xss1 where s:
      "dist_steal_loop h (qs ! ?r) (qs ! me) ms st0 fl0 = Some (h1, remote, local, ms1, st1, fl1)"
      "dist_reps h1 (qs[?r := remote, me := local]) nss1 xss1" "mset (concat xss1) = mset (concat xss)"
      "k1 \<le> ms" "ms1 = ms - k1" "st1 = st0 + of_nat k1"
    using dist_steal_loop_ok [OF Suc.prems(1) l, of ms st0 fl0] by auto
  obtain h' qs' st fl k nss' xss' where rest:
      "dist_balance_loop me (j + 1) m ms1 h1 (qs[?r := remote, me := local]) st1 fl1 = Some (h', qs', st, fl)" "length qs' = n"
      "dist_reps h' qs' nss' xss'" "mset (concat xss') = mset (concat xss1)" "k \<le> ms1" "st = st1 + of_nat k"
    using Suc.IH [OF s(2), of "j + 1" ms1 st1 fl1] Suc.prems by auto
  have "dist_balance_loop me j (Suc m) ms h qs st0 fl0 = Some (h', qs', st, fl)"
    using s(1) rest(1) l r Suc.prems(2) by (simp add: Let_def)
  with rest s show ?case
    by (intro exI [of _ h'] exI [of _ qs'] exI [of _ st] exI [of _ fl] exI [of _ "k1 + k"] exI [of _ nss'] exI [of _ xss']) auto
qed

definition dist_total :: "dist_scheduler \<Rightarrow> addr multiset" where
  "dist_total w = (\<Sum>i < length (dw_schedulers w). dist_ready i w)"

definition dist_world_ok :: "dist_scheduler \<Rightarrow> bool" where
  "dist_world_ok w \<longleftrightarrow> (\<forall>i < length (dw_schedulers w). sd_id (dw_schedulers w ! i) = i) \<and>
     (\<exists>nss xss. dist_reps (dw_heap w) (map sd_queue (dw_schedulers w)) nss xss)"

lemma mset_concat_sum: "mset (concat xss) = (\<Sum>i < length xss. mset (xss ! i))"
  by (induction xss rule: rev_induct) (simp_all add: nth_append)

lemma dist_total_reps:
  assumes "dist_reps (dw_heap w) (map sd_queue (dw_schedulers w)) nss xss"
  shows "dist_total w = mset (concat xss)"
proof -
  have "dist_ready i w = mset (xss ! i)" if "i < length (dw_schedulers w)" for i
    using assms that by (intro dist_ready_rep [of w i "nss ! i"]) (auto simp: dist_reps_def)
  moreover have "length xss = length (dw_schedulers w)" using assms by (simp add: dist_reps_def)
  ultimately show ?thesis by (simp add: dist_total_def mset_concat_sum)
qed

lemma load_balance_dist_ok:
  assumes ok: "dist_world_ok w" and i: "i < length (dw_schedulers w)"
  shows "\<exists>w' k. fiber_scheduler_load_balance_dist i w = Some w' \<and> dist_world_ok w' \<and> dist_total w' = dist_total w \<and>
     k \<le> 16 \<and> sd_steal_count (dw_schedulers w' ! i) = sd_steal_count (dw_schedulers w ! i) + of_nat k"
proof -
  let ?ss = "dw_schedulers w" and ?s = "dw_schedulers w ! i"
  obtain nss xss where reps: "dist_reps (dw_heap w) (map sd_queue ?ss) nss xss" using ok by (auto simp: dist_world_ok_def)
  have id: "sd_id ?s = i" using ok i by (simp add: dist_world_ok_def)
  obtain h' qs' st fl k nss' xss' where b:
      "dist_balance_loop i (i + 1) (length ?ss - 1) 16 (dw_heap w) (map sd_queue ?ss) (sd_steal_count ?s) (sd_failed_steal_count ?s)
         = Some (h', qs', st, fl)" "length qs' = length ?ss" "dist_reps h' qs' nss' xss'" "mset (concat xss') = mset (concat xss)"
      "k \<le> 16" "st = sd_steal_count ?s + of_nat k"
    using dist_balance_loop_ok [OF i reps, of "i + 1" "length ?ss - 1" 16 "sd_steal_count ?s" "sd_failed_steal_count ?s"] by auto
  define ss' where "ss' = ?ss[i := ?s\<lparr>sd_steal_count := st, sd_failed_steal_count := fl\<rparr>]"
  define w' where "w' = w\<lparr>dw_heap := h', dw_schedulers := map2 (\<lambda>s q. s\<lparr>sd_queue := q\<rparr>) ss' qs'\<rparr>"
  have len: "length ss' = length ?ss" by (simp add: ss'_def)
  have q: "map sd_queue (dw_schedulers w') = qs'"
    using b(2) len by (auto simp: w'_def intro!: nth_equalityI)
  have "fiber_scheduler_load_balance_dist i w = Some w'"
    using i id b(1) by (simp add: fiber_scheduler_load_balance_dist_def w'_def ss'_def)
  moreover have "sd_id (ss' ! j) = j" if "j < length ?ss" for j
    using ok i that by (cases "j = i") (auto simp: ss'_def dist_world_ok_def)
  then have "dist_world_ok w'"
    using b(2,3) len q unfolding dist_world_ok_def by (auto simp: w'_def)
  moreover have "dist_total w' = dist_total w"
    using dist_total_reps [of w' nss' xss'] dist_total_reps [OF reps] b(3,4) q by (simp add: w'_def)
  moreover have "sd_steal_count (dw_schedulers w' ! i) = st" using i b(2) by (simp add: w'_def ss'_def)
  ultimately show ?thesis using b(5,6) by blast
qed

section \<open>Initialisation\<close>

lemma dist_init_loop_ok:
  "distinct as \<Longrightarrow> NULL \<notin> set as \<Longrightarrow> dist_reps h (map sd_queue ss) (map (\<lambda>a. [a]) bs) (map (\<lambda>_. []) bs) \<Longrightarrow>
   set as \<inter> set bs = {} \<Longrightarrow> \<forall>i < length ss. sd_id (ss ! i) = i \<Longrightarrow>
   \<exists>h' ss'. dist_init_loop h ss as = Some (h', ss') \<and> length ss' = length ss + length as \<and> (\<forall>i < length ss'. sd_id (ss' ! i) = i) \<and>
     dist_reps h' (map sd_queue ss') (map (\<lambda>a. [a]) (bs @ as)) (map (\<lambda>_. []) (bs @ as)) \<and> (\<forall>p. p \<notin> set as \<longrightarrow> h' p = h p)"
proof (induction as arbitrary: h ss bs)
  case Nil
  then show ?case by simp
next
  case (Cons a as)
  obtain h1 q where i: "dist_fifo_init h a = (h1, q, 1)" "dist_rep h1 q [a] []"
    using dist_init_rep [of a h] Cons.prems(2) by (metis list.set_intros(1) prod_cases3)
  have fr: "h1 p = h p" if "p \<noteq> a" for p using i(1) that by (auto simp: dist_fifo_init_def alloc_def)
  let ?s = "\<lparr>sd_queue = q, sd_id = length ss, sd_steal_count = 0, sd_failed_steal_count = 0\<rparr>"
  have len: "length bs = length ss" using Cons.prems(3) by (simp add: dist_reps_def)
  have old: "dist_rep h1 (sd_queue (ss ! j)) [bs ! j] []" if "j < length ss" for j
  proof -
    have "bs ! j \<noteq> a" using that len Cons.prems(4) by (auto dest: nth_mem)
    then show ?thesis
      using Cons.prems(3) that len dist_rep_cong [of "[bs ! j]" h1 h "sd_queue (ss ! j)" "[]"] fr by (auto simp: dist_reps_def)
  qed
  have "a \<notin> set bs" using Cons.prems(4) by auto
  then have ne: "bs ! j \<noteq> a" if "j < length ss" for j using that len by (auto dest: nth_mem)
  have "dist_reps h1 (map sd_queue (ss @ [?s])) (map (\<lambda>a. [a]) (bs @ [a])) (map (\<lambda>_. []) (bs @ [a]))"
    using old i(2) len Cons.prems(3) ne by (auto simp: dist_reps_def nth_append less_Suc_eq)
  then obtain h' ss' where rest: "dist_init_loop h1 (ss @ [?s]) as = Some (h', ss')" "length ss' = length (ss @ [?s]) + length as"
      "\<forall>i < length ss'. sd_id (ss' ! i) = i"
      "dist_reps h' (map sd_queue ss') (map (\<lambda>a. [a]) ((bs @ [a]) @ as)) (map (\<lambda>_. []) ((bs @ [a]) @ as))"
      "\<forall>p. p \<notin> set as \<longrightarrow> h' p = h1 p"
    using Cons.IH [of h1 "ss @ [?s]" "bs @ [a]"] Cons.prems by (auto simp: nth_append less_Suc_eq)
  have "dist_init_loop h ss (a # as) = Some (h', ss')"
    using i(1) rest(1) by (simp add: fiber_scheduler_dist_init_def)
  with rest fr show ?case by auto
qed

lemma init_dist_ok:
  assumes "distinct as" "NULL \<notin> set as" "as \<noteq> []"
  shows "\<exists>w. fiber_scheduler_init_dist h node as = Some w \<and> dist_world_ok w \<and> length (dw_schedulers w) = length as \<and>
     dw_node w = node \<and> (\<forall>i < length as. dist_rep (dw_heap w) (sd_queue (dw_schedulers w ! i)) [as ! i] []) \<and>
     (\<forall>p. p \<notin> set as \<longrightarrow> dw_heap w p = h p)"
proof -
  have "dist_reps h (map sd_queue []) (map (\<lambda>a. [a]) []) (map (\<lambda>_. []) [])" by (simp add: dist_reps_def)
  then obtain h' ss' where i: "dist_init_loop h [] as = Some (h', ss')" "length ss' = length as" "\<forall>i < length ss'. sd_id (ss' ! i) = i"
      "dist_reps h' (map sd_queue ss') (map (\<lambda>a. [a]) as) (map (\<lambda>_. []) as)" "\<forall>p. p \<notin> set as \<longrightarrow> h' p = h p"
    using dist_init_loop_ok [OF assms(1,2), of h "[]" "[]"] by auto
  have "dist_rep h' (sd_queue (ss' ! j)) [as ! j] []" if "j < length as" for j
    using i(2,4) that by (simp add: dist_reps_def)
  with i assms(3) show ?thesis
    by (auto simp: fiber_scheduler_init_dist_def dist_world_ok_def)
qed

section \<open>Properties\<close>

text \<open>From a fresh scheduler with distributed queues, every sequence of scheduling fibers and asking for the
  next one runs without a fault, and at every moment each fiber is either with the client or in the queue
  exactly once, although queue nodes travel from fiber to fiber.\<close>

theorem dist_scheduler_conserves:
  assumes "distinct as" "NULL \<notin> set as" "i < length as" "distinct fibers" "NULL \<notin> set fibers"
    and "\<forall>f \<in> set fibers. node f \<noteq> NULL \<and> h (node f) \<noteq> None \<and> node f \<notin> set as" "inj_on node (set fibers)"
  shows "\<exists>w w' held. fiber_scheduler_init_dist h node as = Some w \<and>
     sched_run (fiber_scheduler_schedule_dist i) (fiber_scheduler_next_dist i) fibers ops (w, fibers) = Some (w', held) \<and>
     mset held + dist_ready i w' = mset fibers"
proof -
  obtain w where w: "fiber_scheduler_init_dist h node as = Some w" "length (dw_schedulers w) = length as" "dw_node w = node"
      "\<forall>i < length as. dist_rep (dw_heap w) (sd_queue (dw_schedulers w ! i)) [as ! i] []"
      "\<forall>p. p \<notin> set as \<longrightarrow> dw_heap w p = h p"
    using init_dist_ok [OF assms(1,2), of h node] assms(3) by (metis list.size(3) not_less_zero)
  have rep: "dist_rep (dw_heap w) (sd_queue (dw_schedulers w ! i)) [as ! i] []" using w(4) assms(3) by blast
  have "as ! i \<in> set as" using assms(3) by simp
  then have "nodes_ok (dw_heap w) (dw_node w) [as ! i] (set fibers - set [])"
    using assms(6,7) w(3,5) unfolding nodes_ok_def by auto
  then have ok: "dist_sched_ok i (length ops) fibers w"
    using assms w(2) by (intro dist_sched_okI [OF rep]) auto
  have "mset fibers + dist_ready i w = mset fibers" by (simp add: dist_ready_rep [OF rep])
  from dist_sched.sched_run_conserves [OF ok assms(4) this] w(1) show ?thesis by blast
qed

theorem dist_scheduler_conserves_witness:
  "\<exists>w w' held. fiber_scheduler_init_dist [17 \<mapsto> \<lparr>mn_data = 0, mn_next = 0\<rparr>, 18 \<mapsto> \<lparr>mn_data = 0, mn_next = 0\<rparr>] ((+) 10) [1, 2] = Some w \<and>
     sched_run (fiber_scheduler_schedule_dist 1) (fiber_scheduler_next_dist 1) [7, 8]
       [Schedule 7, Schedule 8, Next (\<lambda>f. f = 7), Next (\<lambda>_. False)] (w, [7, 8]) = Some (w', held) \<and>
     mset held + dist_ready 1 w' = mset [7, 8]"
  by (rule dist_scheduler_conserves) auto

text \<open>Balancing the load of one kernel thread faults nowhere (the thread never meets its own queue), keeps all
  fibers of all queues, moves at most 16 of them, and counts every one it moves.\<close>

theorem dist_load_balance_conserves:
  assumes "dist_world_ok w" "i < length (dw_schedulers w)"
  shows "\<exists>w' k. fiber_scheduler_load_balance_dist i w = Some w' \<and> dist_world_ok w' \<and> dist_total w' = dist_total w \<and>
     k \<le> 16 \<and> sd_steal_count (dw_schedulers w' ! i) = sd_steal_count (dw_schedulers w ! i) + of_nat k"
  by (rule load_balance_dist_ok [OF assms])

theorem dist_load_balance_conserves_witness:
  "\<exists>w w'. fiber_scheduler_init_dist Map.empty id [1, 2, 3] = Some w \<and>
     fiber_scheduler_load_balance_dist 1 w = Some w' \<and> dist_total w' = dist_total w"
proof -
  obtain w where w: "fiber_scheduler_init_dist Map.empty id [1, 2, 3] = Some w" "dist_world_ok w" "length (dw_schedulers w) = 3"
    using init_dist_ok [of "[1, 2, 3]" Map.empty id] by auto
  then show ?thesis using dist_load_balance_conserves [OF w(2), of 1] by auto
qed

end
