(* ===== verification/Fiber_Types.thy ===== *)
theory Fiber_Types
  imports Step_Machine
begin

text \<open>
  The states of a fiber and of its detachment, \<open>include/fiber.h\<close>.
\<close>

datatype fiber_state =
    FIBER_STATE_RUNNING
  | FIBER_STATE_READY
  | FIBER_STATE_WAITING
  | FIBER_STATE_DONE
  | FIBER_STATE_SAVING_STATE_TO_WAIT

datatype detach_state =
    FIBER_DETACH_NONE
  | FIBER_DETACH_WAIT_FOR_JOINER
  | FIBER_DETACH_WAIT_TO_JOIN
  | FIBER_DETACH_DETACHED

end
