(* ===== verification/Signal.thy ===== *)
theory Signal
  imports Fiber_Types
begin

text \<open>
  \<open>fiber_signal_t\<close> of \<open>include/fiber_signal.h\<close>: one fiber may wait, any number may raise.  The
  functions perform one access to shared memory of \<open>fiber_signal_wait\<close> and \<open>fiber_signal_raise\<close>; a
  client gives the position of each raiser.  \<open>sg_saved\<close> and \<open>sg_queued\<close> are the part of the manager
  that matters here: the context of the waiter is saved (it is switched out), and the waiter is in a
  run queue.  Putting a fiber whose context is not saved into a run queue is a fault.
\<close>

datatype signal_word = FIBER_SIGNAL_NO_WAITER | FIBER_SIGNAL_RAISED | Signal_Waiter addr

record fiber_signal =
  sg_waiter :: signal_word
  sg_ready_to_wake :: bool
  sg_state :: fiber_state
  sg_saved :: bool
  sg_queued :: bool
  sg_spin_count :: "64 word"

definition fiber_signal_init :: fiber_signal where
  "fiber_signal_init = \<lparr>sg_waiter = FIBER_SIGNAL_NO_WAITER, sg_ready_to_wake = False, sg_state = FIBER_STATE_RUNNING,
                        sg_saved = False, sg_queued = False, sg_spin_count = 0\<rparr>"

section \<open>Raising\<close>

datatype raise_pc = R_Idle | R_Exchange | R_Clear | R_Spin | R_Wake | R_Return int

definition fiber_signal_raise_step :: "raise_pc \<Rightarrow> fiber_signal \<Rightarrow> (fiber_signal \<times> raise_pc) option" where
  "fiber_signal_raise_step pc s =
     (case pc of
        R_Exchange \<Rightarrow>
          Some (s\<lparr>sg_waiter := FIBER_SIGNAL_RAISED\<rparr>,
                case sg_waiter s of Signal_Waiter old \<Rightarrow> R_Clear | _ \<Rightarrow> R_Return 0)
      | R_Clear \<Rightarrow> Some (s\<lparr>sg_waiter := FIBER_SIGNAL_NO_WAITER\<rparr>, R_Spin)
      | R_Spin \<Rightarrow> if sg_ready_to_wake s then Some (s, R_Wake)
                  else Some (s\<lparr>sg_spin_count := sg_spin_count s + 1\<rparr>, R_Spin)
      | R_Wake \<Rightarrow> if sg_saved s \<and> \<not> sg_queued s
                  then Some (s\<lparr>sg_state := FIBER_STATE_READY, sg_queued := True\<rparr>, R_Return 1) else None
      | _ \<Rightarrow> Some (s, pc))"

section \<open>Waiting\<close>

text \<open>
  \<open>W_Switch\<close> is the context switch inside \<open>fiber_manager_yield\<close>, \<open>W_Maintenance\<close> the store to
  \<open>set_wait_location\<close> by the fiber that runs next, \<open>W_Asleep\<close> waits until a kernel thread takes the
  fiber out of its run queue.
\<close>

datatype wait_pc = W_Scratch | W_Cas | W_State | W_Switch | W_Maintenance | W_Asleep | W_Resumed | W_Clear | W_Return

definition fiber_signal_wait_step :: "addr \<Rightarrow> wait_pc \<Rightarrow> fiber_signal \<Rightarrow> (fiber_signal \<times> wait_pc) option" where
  "fiber_signal_wait_step this_fiber pc s =
     (case pc of
        W_Scratch \<Rightarrow> Some (s\<lparr>sg_ready_to_wake := False\<rparr>, W_Cas)
      | W_Cas \<Rightarrow> if sg_waiter s = FIBER_SIGNAL_NO_WAITER then Some (s\<lparr>sg_waiter := Signal_Waiter this_fiber\<rparr>, W_State)
                 else Some (s, W_Clear)
      | W_State \<Rightarrow> if sg_state s = FIBER_STATE_RUNNING then Some (s\<lparr>sg_state := FIBER_STATE_WAITING\<rparr>, W_Switch) else None
      | W_Switch \<Rightarrow> Some (s\<lparr>sg_saved := True\<rparr>, W_Maintenance)
      | W_Maintenance \<Rightarrow> Some (s\<lparr>sg_ready_to_wake := True\<rparr>, W_Asleep)
      | W_Asleep \<Rightarrow> if sg_queued s
                    then Some (s\<lparr>sg_queued := False, sg_saved := False, sg_state := FIBER_STATE_RUNNING\<rparr>, W_Resumed)
                    else Some (s, W_Asleep)
      | W_Resumed \<Rightarrow> Some (s\<lparr>sg_ready_to_wake := False\<rparr>, W_Clear)
      | W_Clear \<Rightarrow> Some (s\<lparr>sg_waiter := FIBER_SIGNAL_NO_WAITER\<rparr>, W_Return)
      | W_Return \<Rightarrow> Some (s, W_Return))"

section \<open>The invariant\<close>

text \<open>
  The waiter that has registered itself is known to exactly one place: the signal word, one raiser
  that has taken it out and is about to wake it, or a run queue.
\<close>

fun waking :: "raise_pc \<Rightarrow> bool" where
  "waking R_Clear = True" | "waking R_Spin = True" | "waking R_Wake = True" | "waking _ = False"

fun sleeping :: "wait_pc \<Rightarrow> bool" where
  "sleeping W_State = True" | "sleeping W_Switch = True" | "sleeping W_Maintenance = True" | "sleeping W_Asleep = True"
| "sleeping _ = False"

fun registered :: "signal_word \<Rightarrow> bool" where
  "registered (Signal_Waiter f) = True" | "registered _ = False"

definition signal_inv :: "fiber_signal \<Rightarrow> (nat \<Rightarrow> raise_pc) \<Rightarrow> wait_pc \<Rightarrow> bool" where
  "signal_inv s rp w \<longleftrightarrow>
     (\<forall>t u. waking (rp t) \<longrightarrow> waking (rp u) \<longrightarrow> t = u) \<and>
     (\<forall>t. waking (rp t) \<longrightarrow> \<not> registered (sg_waiter s) \<and> \<not> sg_queued s \<and> sleeping w) \<and>
     (registered (sg_waiter s) \<longrightarrow> \<not> sg_queued s \<and> sleeping w) \<and>
     (sleeping w \<longrightarrow> registered (sg_waiter s) \<or> sg_queued s \<or> (\<exists>t. waking (rp t))) \<and>
     (\<forall>t. rp t = R_Wake \<longrightarrow> sg_ready_to_wake s) \<and>
     (sg_queued s \<longrightarrow> w = W_Asleep \<and> sg_state s = FIBER_STATE_READY) \<and>
     (sg_ready_to_wake s \<longleftrightarrow> w = W_Asleep \<or> w = W_Resumed) \<and>
     (sg_saved s \<longleftrightarrow> w = W_Maintenance \<or> w = W_Asleep) \<and>
     (sg_state s = FIBER_STATE_RUNNING \<longleftrightarrow> w \<noteq> W_Switch \<and> w \<noteq> W_Maintenance \<and> w \<noteq> W_Asleep)"

lemma not_waking: "\<not> waking pc \<Longrightarrow> pc \<noteq> R_Wake"
  by auto

lemma signal_init_inv: "(\<And>t. \<not> waking (rp t)) \<Longrightarrow> w \<in> {W_Scratch, W_Return} \<Longrightarrow> signal_inv fiber_signal_init rp w"
  by (auto simp: signal_inv_def fiber_signal_init_def dest: not_waking)

lemma raise_step_inv:
  assumes "signal_inv s rp w"
  shows "\<exists>s' pc'. fiber_signal_raise_step (rp t) s = Some (s', pc') \<and> signal_inv s' (rp(t := pc')) w"
proof (cases "rp t")
  case R_Exchange
  then have "\<not> waking (rp t)" by simp
  show ?thesis
  proof (cases "sg_waiter s")
    case (Signal_Waiter f)
    with assms have nw: "\<not> waking (rp u)" for u unfolding signal_inv_def by (metis registered.simps(1))
    with assms R_Exchange Signal_Waiter show ?thesis
      unfolding signal_inv_def by (simp add: fiber_signal_raise_step_def) (metis not_waking)
  qed (use assms R_Exchange in \<open>simp_all add: signal_inv_def fiber_signal_raise_step_def\<close>, metis raise_pc.distinct waking.simps)+
next
  case R_Clear
  with assms show ?thesis unfolding signal_inv_def by (simp add: fiber_signal_raise_step_def) (metis waking.simps)
next
  case R_Spin
  then have t: "waking (rp t)" by simp
  have others: "\<not> waking (rp u)" if "u \<noteq> t" for u using assms t that unfolding signal_inv_def by metis
  have nr: "\<not> registered (sg_waiter s)" "\<not> sg_queued s" "sleeping w" using assms t unfolding signal_inv_def by metis+
  show ?thesis
  proof (cases "sg_ready_to_wake s")
    case True
    with R_Spin assms others nr show ?thesis unfolding signal_inv_def by (auto simp: fiber_signal_raise_step_def)
  next
    case False
    have "rp(t := R_Spin) = rp" using R_Spin by (simp add: fun_upd_idem)
    moreover have "signal_inv (s\<lparr>sg_spin_count := sg_spin_count s + 1\<rparr>) rp w"
      using assms by (auto simp: signal_inv_def)
    ultimately show ?thesis using R_Spin False by (simp only: fiber_signal_raise_step_def) simp
  qed
next
  case R_Wake
  with assms have "w = W_Asleep" unfolding signal_inv_def by (metis sleeping.simps waking.simps(3))
  with R_Wake assms show ?thesis unfolding signal_inv_def by (simp add: fiber_signal_raise_step_def) (metis waking.simps)
qed (use assms in \<open>simp_all add: fiber_signal_raise_step_def fun_upd_idem\<close>)

lemma wait_step_inv:
  assumes "signal_inv s rp w"
  shows "\<exists>s' w'. fiber_signal_wait_step f w s = Some (s', w') \<and> signal_inv s' rp w'"
  using assms by (cases w) (auto simp: fiber_signal_wait_step_def signal_inv_def dest: not_waking)

lemma signal_inv_cong:
  assumes "signal_inv s rp w" "\<And>u. waking (rp' u) = waking (rp u)" "\<And>u. (rp' u = R_Wake) = (rp u = R_Wake)"
  shows "signal_inv s rp' w"
  using assms(1) unfolding signal_inv_def assms(2,3) .

end
