(* ===== verification/Bounded_Channel.thy ===== *)
theory Bounded_Channel
  imports Signal Ring_Buffer Mpsc_Fifo "HOL-Library.Sublist"
begin

text \<open>
  The bounded channel of \<open>include/fiber_channel.h\<close> with its signal: any number of senders and one
  receiver, interleaved at the granularity of the accesses to shared memory.  The channel extends
  the record of the ring buffer (the same counters, size, mask and slots).  The counters are the
  64-bit words of the code.  \<open>cs_sent\<close> and \<open>cs_received\<close> are history: the messages in the order in
  which their slots were reserved, and the messages returned.
\<close>

record fiber_bounded_channel = lockfree_ring_buffer +
  bc_ready_signal :: bool

text \<open>The header of the structure on the 64-bit targets: two padded cache lines, the queue of waiters (a
  padded cache line and a pointer), the signal and two \<open>uint32_t\<close>.\<close>

definition sizeof_fiber_bounded_channel :: nat where
  "sizeof_fiber_bounded_channel = 2 * 64 + 72 + 8 + 2 * 4"

definition fiber_bounded_channel_create :: "32 word \<Rightarrow> bool \<Rightarrow> bool \<Rightarrow> bool \<Rightarrow> fiber_bounded_channel option option" where
  "fiber_bounded_channel_create power_of_2_size signal calloc_ok fifo_ok = do {
     c_assert (power_of_2_size \<noteq> 0 \<and> power_of_2_size < 32);
     let size = push_bit (unat power_of_2_size) 1;
     let required_size = required_size32 sizeof_fiber_bounded_channel size;
     Some (if calloc_ok \<and> fifo_ok
           then Some \<lparr>rb_high = 0, rb_low = 0, rb_size = size, rb_mod = size - 1,
                      rb_buffer = replicate (ring_slots sizeof_fiber_bounded_channel required_size) NULL,
                      bc_ready_signal = signal\<rparr>
           else None)
   }"

text \<open>The structure has a queue of waiters that no operation uses: it is created and destroyed with the channel.\<close>

definition fiber_bounded_channel_destroy :: "mpsc_heap \<Rightarrow> (fiber_bounded_channel \<times> mpsc_fifo) option \<Rightarrow> mpsc_heap option" where
  "fiber_bounded_channel_destroy h channel =
     (case channel of None \<Rightarrow> Some h | Some (c, waiters) \<Rightarrow> do { (h', _) \<leftarrow> mpsc_fifo_destroy h waiters; Some h' })"

lemma fiber_bounded_channel_destroy_frees:
  "mpsc_fifo_init h a = (h', waiters, r) \<Longrightarrow> a \<noteq> NULL \<Longrightarrow> h a = None \<Longrightarrow> fiber_bounded_channel_destroy h' (Some (c, waiters)) = Some h"
  by (simp add: fiber_bounded_channel_destroy_def mpsc_init_destroy)

section \<open>The machine\<close>

datatype send_pc =
    S_Idle int
  | S_Low addr
  | S_High addr "64 word"
  | S_Slot addr "64 word" "64 word"
  | S_Cas addr "64 word"
  | S_Store addr "64 word"
  | S_Raise raise_pc

datatype recv_pc =
    C_Idle int
  | C_High bool
  | C_Low bool "64 word"
  | C_Slot bool "64 word" "64 word"
  | C_Zero addr "64 word"
  | C_Advance addr "64 word"
  | C_Wait wait_pc

record channel_sys =
  cs_channel :: fiber_bounded_channel
  cs_signal :: fiber_signal
  cs_send :: "nat \<Rightarrow> send_pc"
  cs_recv :: recv_pc
  cs_sent :: "addr list"
  cs_received :: "addr list"

text \<open>
  \<open>fiber_bounded_channel_send\<close>: read \<open>low\<close>, read \<open>high\<close>, look at the slot, reserve it with a
  compare-exchange that may fail spuriously, store the message, raise the signal.  A failed attempt
  yields and starts again.
\<close>

definition fiber_bounded_channel_send_step :: "nat \<Rightarrow> bool \<Rightarrow> channel_sys \<Rightarrow> channel_sys option" where
  "fiber_bounded_channel_send_step t spurious s =
     (let c = cs_channel s; goto = (\<lambda>pc s. s\<lparr>cs_send := (cs_send s)(t := pc)\<rparr>) in
      case cs_send s t of
        S_Idle r \<Rightarrow> Some s
      | S_Low m \<Rightarrow> Some (goto (S_High m (rb_low c)) s)
      | S_High m low \<Rightarrow> Some (goto (S_Slot m low (rb_high c)) s)
      | S_Slot m low high \<Rightarrow> do {
          slot \<leftarrow> nth_opt (rb_buffer c) (ring_index high c);
          Some (goto (if slot = NULL \<and> high - low < ucast (rb_size c) then S_Cas m high else S_Low m) s) }
      | S_Cas m high \<Rightarrow>
          if rb_high c = high \<and> \<not> spurious
          then Some (goto (S_Store m high) (s\<lparr>cs_channel := c\<lparr>rb_high := high + 1\<rparr>, cs_sent := cs_sent s @ [m]\<rparr>))
          else Some (goto (S_Low m) s)
      | S_Store m high \<Rightarrow> do {
          c_assert (ring_index high c < length (rb_buffer c));
          Some (goto (if bc_ready_signal c then S_Raise R_Exchange else S_Idle 0)
                  (s\<lparr>cs_channel := c\<lparr>rb_buffer := (rb_buffer c)[ring_index high c := m]\<rparr>\<rparr>)) }
      | S_Raise pc \<Rightarrow> do {
          (sg, pc') \<leftarrow> fiber_signal_raise_step pc (cs_signal s);
          Some (goto (case pc' of R_Return r \<Rightarrow> S_Idle r | _ \<Rightarrow> S_Raise pc') (s\<lparr>cs_signal := sg\<rparr>)) })"

text \<open>
  \<open>fiber_bounded_channel_receive\<close> (\<open>blocking\<close>) and \<open>fiber_bounded_channel_try_receive\<close>: read
  \<open>high\<close>, read \<open>low\<close>, look at the slot, clear it and advance \<open>low\<close>; on an empty channel wait for
  the signal or yield, or return 0.
\<close>

definition fiber_bounded_channel_receive_step :: "addr \<Rightarrow> channel_sys \<Rightarrow> channel_sys option" where
  "fiber_bounded_channel_receive_step this_fiber s =
     (let c = cs_channel s; goto = (\<lambda>pc s. s\<lparr>cs_recv := pc\<rparr>) in
      case cs_recv s of
        C_Idle r \<Rightarrow> Some s
      | C_High b \<Rightarrow> Some (goto (C_Low b (rb_high c)) s)
      | C_Low b high \<Rightarrow> Some (goto (C_Slot b high (rb_low c)) s)
      | C_Slot b high low \<Rightarrow> do {
          ret \<leftarrow> nth_opt (rb_buffer c) (ring_index low c);
          Some (goto (if ret \<noteq> NULL \<and> high > low then C_Zero ret low
                      else if \<not> b then C_Idle 0
                      else if bc_ready_signal c then C_Wait W_Scratch else C_High True) s) }
      | C_Zero ret low \<Rightarrow> do {
          c_assert (ring_index low c < length (rb_buffer c));
          Some (goto (C_Advance ret low) (s\<lparr>cs_channel := c\<lparr>rb_buffer := (rb_buffer c)[ring_index low c := NULL]\<rparr>\<rparr>)) }
      | C_Advance ret low \<Rightarrow>
          Some (goto (C_Idle 1) (s\<lparr>cs_channel := c\<lparr>rb_low := low + 1\<rparr>, cs_received := cs_received s @ [ret]\<rparr>))
      | C_Wait w \<Rightarrow> do {
          (sg, w') \<leftarrow> fiber_signal_wait_step this_fiber w (cs_signal s);
          Some (goto (if w' = W_Return then C_High True else C_Wait w') (s\<lparr>cs_signal := sg\<rparr>)) })"

datatype channel_act = Ch_Send nat addr | Ch_Receive bool | Ch_Sender nat bool | Ch_Receiver

fun channel_step :: "addr \<Rightarrow> channel_act \<Rightarrow> channel_sys \<Rightarrow> channel_sys option" where
  "channel_step f (Ch_Send t m) s = do {
     c_assert (m \<noteq> NULL);
     Some (case cs_send s t of S_Idle r \<Rightarrow> s\<lparr>cs_send := (cs_send s)(t := S_Low m)\<rparr> | _ \<Rightarrow> s) }"
| "channel_step f (Ch_Receive b) s = Some (case cs_recv s of C_Idle r \<Rightarrow> s\<lparr>cs_recv := C_High b\<rparr> | _ \<Rightarrow> s)"
| "channel_step f (Ch_Sender t spurious) s = fiber_bounded_channel_send_step t spurious s"
| "channel_step f Ch_Receiver s = fiber_bounded_channel_receive_step f s"

definition channel_sys_init :: "fiber_bounded_channel \<Rightarrow> channel_sys" where
  "channel_sys_init c = \<lparr>cs_channel = c, cs_signal = fiber_signal_init, cs_send = (\<lambda>_. S_Idle 0), cs_recv = C_Idle 0,
                         cs_sent = [], cs_received = []\<rparr>"

abbreviation channel_run :: "addr \<Rightarrow> channel_act list \<Rightarrow> channel_sys \<Rightarrow> channel_sys option" where
  "channel_run f \<equiv> run_steps (channel_step f)"

section \<open>The slots\<close>

text \<open>
  \<open>sent\<close> are the reservations, \<open>L\<close> the number of messages received, \<open>st t\<close> the position that sender
  \<open>t\<close> has reserved and not stored, and \<open>adv\<close> says that the receiver has cleared the slot of
  position \<open>L\<close> and not advanced.
\<close>

definition slots_ok :: "nat \<Rightarrow> addr list \<Rightarrow> addr list \<Rightarrow> nat \<Rightarrow> (nat \<Rightarrow> nat option) \<Rightarrow> bool \<Rightarrow> bool" where
  "slots_ok n buf sent L st adv \<longleftrightarrow>
     length buf = n \<and> L \<le> length sent \<and> length sent \<le> L + n \<and> NULL \<notin> set sent \<and>
     (\<forall>t i. st t = Some i \<longrightarrow> L \<le> i \<and> i < length sent \<and> buf ! (i mod n) = NULL \<and> \<not> (adv \<and> i = L)) \<and>
     (\<forall>t u i. st t = Some i \<longrightarrow> st u = Some i \<longrightarrow> t = u) \<and>
     (\<forall>i. L \<le> i \<longrightarrow> i < length sent \<longrightarrow> buf ! (i mod n) = sent ! i \<or> (\<exists>t. st t = Some i) \<or> (adv \<and> i = L)) \<and>
     (\<forall>i. length sent \<le> i \<longrightarrow> i < L + n \<longrightarrow> buf ! (i mod n) = NULL) \<and>
     (adv \<longrightarrow> L < length sent \<and> buf ! (L mod n) = NULL)"

lemma slots_reserve:
  assumes "slots_ok n buf sent L st adv" "length sent < L + n" "m \<noteq> NULL" "st t = None"
  shows "slots_ok n buf (sent @ [m]) L (st(t := Some (length sent))) adv"
  unfolding slots_ok_def
proof (intro conjI allI impI)
  let ?H = "length sent"
  have slot: "buf ! (?H mod n) = NULL" and L: "L \<le> ?H" using assms by (auto simp: slots_ok_def)
  {
    fix u i assume u: "(st(t := Some ?H)) u = Some i"
    show "L \<le> i" "i < length (sent @ [m])" "buf ! (i mod n) = NULL" "\<not> (adv \<and> i = L)"
      using u slot L assms(1) by (cases "u = t"; auto simp: slots_ok_def; fastforce)+
  }
  {
    fix u v i assume u: "(st(t := Some ?H)) u = Some i" "(st(t := Some ?H)) v = Some i"
    have "st w \<noteq> Some ?H" for w using assms(1) unfolding slots_ok_def by (metis less_irrefl)
    then show "u = v" using u assms(1) unfolding slots_ok_def by (cases "u = t"; cases "v = t") auto
  }
  {
    fix i assume i: "L \<le> i" "i < length (sent @ [m])"
    show "buf ! (i mod n) = (sent @ [m]) ! i \<or> (\<exists>u. (st(t := Some ?H)) u = Some i) \<or> (adv \<and> i = L)"
    proof (cases "i = ?H")
      case False
      then have "buf ! (i mod n) = sent ! i \<or> (\<exists>u. st u = Some i) \<or> (adv \<and> i = L)"
        using i assms(1) unfolding slots_ok_def by auto
      moreover have "(\<exists>u. (st(t := Some ?H)) u = Some i)" if "\<exists>u. st u = Some i"
        using that assms(4) by (metis fun_upd_other option.distinct(1))
      ultimately show ?thesis using False i by (auto simp: nth_append simp del: fun_upd_apply)
    qed (metis fun_upd_same)
  }
qed (use assms in \<open>auto simp: slots_ok_def\<close>)

lemma slots_store:
  assumes ok: "slots_ok n buf sent L st adv" and t: "st t = Some i"
  shows "slots_ok n (buf[i mod n := sent ! i]) sent L (st(t := None)) adv"
proof -
  have i: "L \<le> i" "i < length sent" "length sent \<le> L + n" "length buf = n" "\<not> (adv \<and> i = L)"
    using ok t by (auto simp: slots_ok_def)
  then have n: "0 < n" by linarith
  have upd: "buf[i mod n := sent ! i] ! (j mod n) = (if j = i then sent ! i else buf ! (j mod n))"
    if "L \<le> j" "j < L + n" for j
    using window_index_neq [of j i L n] that i n by (auto simp: nth_list_update)
  show ?thesis
    unfolding slots_ok_def
  proof (intro conjI allI impI)
    fix u j assume u: "(st(t := None)) u = Some j"
    then have j: "u \<noteq> t" "st u = Some j" by (auto split: if_splits)
    then have "j \<noteq> i" using ok t unfolding slots_ok_def by metis
    moreover have "L \<le> j" "j < length sent" "buf ! (j mod n) = NULL" "\<not> (adv \<and> j = L)"
      using ok j(2) unfolding slots_ok_def by metis+
    ultimately show "L \<le> j" "j < length sent" "buf[i mod n := sent ! i] ! (j mod n) = NULL" "\<not> (adv \<and> j = L)"
      using upd i by auto
  next
    fix u v j assume "(st(t := None)) u = Some j" "(st(t := None)) v = Some j"
    then show "u = v" using ok unfolding slots_ok_def by (auto split: if_splits)
  next
    fix j assume j: "L \<le> j" "j < length sent"
    show "buf[i mod n := sent ! i] ! (j mod n) = sent ! j \<or> (\<exists>u. (st(t := None)) u = Some j) \<or> (adv \<and> j = L)"
    proof (cases "j = i")
      case False
      have "buf ! (j mod n) = sent ! j \<or> (\<exists>u. st u = Some j) \<or> (adv \<and> j = L)"
        using ok j unfolding slots_ok_def by blast
      moreover have "(\<exists>u. (st(t := None)) u = Some j)" if "\<exists>u. st u = Some j"
        using that False t by (metis fun_upd_other option.inject)
      ultimately show ?thesis using False upd [of j] j i by (auto simp del: fun_upd_apply)
    qed (use upd [of j] j i in auto)
  next
    fix j assume "length sent \<le> j" "j < L + n"
    with upd [of j] i ok show "buf[i mod n := sent ! i] ! (j mod n) = NULL" by (auto simp: slots_ok_def)
  next
    assume adv
    with upd [of L] i n ok show "L < length sent" "buf[i mod n := sent ! i] ! (L mod n) = NULL"
      by (auto simp: slots_ok_def)
  qed (use ok in \<open>auto simp: slots_ok_def\<close>)
qed

lemma slots_next:
  assumes "slots_ok n buf sent L st adv" "L < length sent" "buf ! (L mod n) \<noteq> NULL"
  shows "buf ! (L mod n) = sent ! L" "\<not> adv" "st t \<noteq> Some L"
proof -
  show st: "st t \<noteq> Some L" for t using assms unfolding slots_ok_def by metis
  show adv: "\<not> adv" using assms unfolding slots_ok_def by metis
  show "buf ! (L mod n) = sent ! L" using assms st adv unfolding slots_ok_def by (metis order_refl)
qed

lemma slots_zero:
  assumes ok: "slots_ok n buf sent L st adv" and L: "L < length sent" "buf ! (L mod n) \<noteq> NULL"
  shows "slots_ok n (buf[L mod n := NULL]) sent L st True"
proof -
  have n: "0 < n" "length buf = n" using ok L by (auto simp: slots_ok_def)
  have upd: "buf[L mod n := NULL] ! (j mod n) = (if j = L then NULL else buf ! (j mod n))"
    if "L \<le> j" "j < L + n" for j
    using window_index_neq [of j L L n] that n by (auto simp: nth_list_update)
  have st: "st t \<noteq> Some L" and adv: "\<not> adv" for t using slots_next [OF ok L] by blast+
  have "buf[L mod n := NULL] ! (i mod n) = NULL" if "st t = Some i" for t i
  proof -
    have "L \<le> i" "i < L + n" "buf ! (i mod n) = NULL" using ok that unfolding slots_ok_def by fastforce+
    then show ?thesis by (simp add: upd)
  qed
  moreover have "buf[L mod n := NULL] ! (i mod n) = sent ! i \<or> (\<exists>t. st t = Some i) \<or> (True \<and> i = L)"
    if "L \<le> i" "i < length sent" for i
    using ok that adv upd [of i] unfolding slots_ok_def by (metis order.strict_trans2)
  ultimately show ?thesis
    using ok st adv L(1) n unfolding slots_ok_def by (simp add: upd) blast
qed

lemma slots_advance:
  assumes "slots_ok n buf sent L st True"
  shows "slots_ok n buf sent (Suc L) st False"
proof -
  have last: "buf ! ((L + n) mod n) = NULL" using assms by (simp add: slots_ok_def)
  show ?thesis
    unfolding slots_ok_def
  proof (intro conjI allI impI)
    fix i assume "length sent \<le> i" "i < Suc L + n"
    then show "buf ! (i mod n) = NULL" using assms last unfolding slots_ok_def by (metis add_Suc less_Suc_eq)
  next
    fix i assume "Suc L \<le> i" "i < length sent"
    then show "buf ! (i mod n) = sent ! i \<or> (\<exists>t. st t = Some i) \<or> (False \<and> i = Suc L)"
      using assms unfolding slots_ok_def by (metis Suc_leD Suc_n_not_le_n)
  next
    fix t i assume st: "st t = Some i"
    then have "L \<le> i" "i \<noteq> L" using assms unfolding slots_ok_def by metis+
    then show "Suc L \<le> i" by simp
    show "i < length sent" "buf ! (i mod n) = NULL" "\<not> (False \<and> i = Suc L)"
      using assms st unfolding slots_ok_def by metis+
  next
    fix t u i assume "st t = Some i" "st u = Some i"
    then show "t = u" using assms unfolding slots_ok_def by metis
  qed (use assms in \<open>simp_all add: slots_ok_def Suc_le_eq\<close>)
qed

section \<open>The invariant\<close>

fun store_pos :: "send_pc \<Rightarrow> nat option" where
  "store_pos (S_Store m high) = Some (unat high)" | "store_pos _ = None"

fun send_raise :: "send_pc \<Rightarrow> raise_pc" where
  "send_raise (S_Raise pc) = pc" | "send_raise _ = R_Idle"

fun recv_wait :: "recv_pc \<Rightarrow> wait_pc" where
  "recv_wait (C_Wait w) = w" | "recv_wait _ = W_Return"

fun advancing :: "recv_pc \<Rightarrow> bool" where
  "advancing (C_Advance ret low) = True" | "advancing _ = False"

fun sender_ok :: "nat \<Rightarrow> addr list \<Rightarrow> nat \<Rightarrow> send_pc \<Rightarrow> bool" where
  "sender_ok n sent L (S_Low m) \<longleftrightarrow> m \<noteq> NULL"
| "sender_ok n sent L (S_High m low) \<longleftrightarrow> m \<noteq> NULL \<and> unat low \<le> L"
| "sender_ok n sent L (S_Slot m low high) \<longleftrightarrow>
     m \<noteq> NULL \<and> unat low \<le> L \<and> unat high \<le> length sent \<and> unat low \<le> unat high"
| "sender_ok n sent L (S_Cas m high) \<longleftrightarrow> m \<noteq> NULL \<and> unat high \<le> length sent \<and> unat high < L + n"
| "sender_ok n sent L (S_Store m high) \<longleftrightarrow> unat high < length sent \<and> sent ! unat high = m"
| "sender_ok n sent L pc \<longleftrightarrow> True"

fun recv_ok :: "nat \<Rightarrow> addr list \<Rightarrow> addr list \<Rightarrow> nat \<Rightarrow> recv_pc \<Rightarrow> bool" where
  "recv_ok n buf sent L (C_Low b high) \<longleftrightarrow> unat high \<le> length sent"
| "recv_ok n buf sent L (C_Slot b high low) \<longleftrightarrow> unat high \<le> length sent \<and> unat low = L"
| "recv_ok n buf sent L (C_Zero ret low) \<longleftrightarrow> unat low = L \<and> L < length sent \<and> ret \<noteq> NULL \<and> buf ! (L mod n) = ret"
| "recv_ok n buf sent L (C_Advance ret low) \<longleftrightarrow> unat low = L \<and> L < length sent \<and> ret = sent ! L"
| "recv_ok n buf sent L pc \<longleftrightarrow> True"

text \<open>The receiver may be about to wait although a message has arrived after it looked.\<close>

fun unseen :: "nat \<Rightarrow> recv_pc \<Rightarrow> bool" where
  "unseen L (C_Low b high) \<longleftrightarrow> unat high \<le> L"
| "unseen L (C_Slot b high low) \<longleftrightarrow> unat high \<le> L"
| "unseen L (C_Wait w) \<longleftrightarrow> w = W_Scratch \<or> w = W_Cas"
| "unseen L pc \<longleftrightarrow> False"

definition wake_ok :: "bool \<Rightarrow> signal_word \<Rightarrow> (nat \<Rightarrow> send_pc) \<Rightarrow> nat \<Rightarrow> recv_pc \<Rightarrow> bool" where
  "wake_ok avail w send L recv \<longleftrightarrow>
     (avail \<longrightarrow> (\<forall>t. send t \<noteq> S_Raise R_Exchange) \<longrightarrow> \<not> registered w \<and> (unseen L recv \<longrightarrow> w = FIBER_SIGNAL_RAISED))"

definition available :: "nat \<Rightarrow> addr list \<Rightarrow> addr list \<Rightarrow> nat \<Rightarrow> bool" where
  "available n buf sent L \<longleftrightarrow> L < length sent \<and> buf ! (L mod n) \<noteq> NULL"

definition channel_inv :: "nat \<Rightarrow> nat \<Rightarrow> channel_sys \<Rightarrow> bool" where
  "channel_inv p k s \<longleftrightarrow>
     (let c = cs_channel s; sent = cs_sent s; L = length (cs_received s); n = 2 ^ p in
      unat (rb_size c) = n \<and> unat (rb_mod c) = n - 1 \<and> unat (rb_high c) = length sent \<and> unat (rb_low c) = L \<and>
      length sent + k < 2 ^ 64 \<and> cs_received s = take L sent \<and>
      slots_ok n (rb_buffer c) sent L (\<lambda>t. store_pos (cs_send s t)) (advancing (cs_recv s)) \<and>
      (\<forall>t. sender_ok n sent L (cs_send s t)) \<and> recv_ok n (rb_buffer c) sent L (cs_recv s) \<and>
      signal_inv (cs_signal s) (\<lambda>t. send_raise (cs_send s t)) (recv_wait (cs_recv s)) \<and>
      (bc_ready_signal c \<longrightarrow>
         wake_ok (available n (rb_buffer c) sent L) (sg_waiter (cs_signal s)) (cs_send s) L (cs_recv s)) \<and>
      (recv_wait (cs_recv s) \<noteq> W_Return \<longrightarrow> bc_ready_signal c))"

lemma channel_facts:
  assumes "channel_inv p k s"
  defines "L \<equiv> length (cs_received s)"
  shows "unat (rb_size (cs_channel s)) = 2 ^ p" "unat (rb_mod (cs_channel s)) = 2 ^ p - 1"
    "unat (rb_high (cs_channel s)) = length (cs_sent s)"
    "unat (rb_low (cs_channel s)) = L" "L \<le> length (cs_sent s)" "length (cs_sent s) + k < 2 ^ 64"
    "slots_ok (2 ^ p) (rb_buffer (cs_channel s)) (cs_sent s) L (\<lambda>t. store_pos (cs_send s t)) (advancing (cs_recv s))"
    "sender_ok (2 ^ p) (cs_sent s) L (cs_send s t)" "recv_ok (2 ^ p) (rb_buffer (cs_channel s)) (cs_sent s) L (cs_recv s)"
    "length (rb_buffer (cs_channel s)) = 2 ^ p"
    "signal_inv (cs_signal s) (\<lambda>t. send_raise (cs_send s t)) (recv_wait (cs_recv s))"
    "cs_received s = take L (cs_sent s)"
    "bc_ready_signal (cs_channel s) \<Longrightarrow>
       wake_ok (available (2 ^ p) (rb_buffer (cs_channel s)) (cs_sent s) L) (sg_waiter (cs_signal s)) (cs_send s) L (cs_recv s)"
    "recv_wait (cs_recv s) \<noteq> W_Return \<longrightarrow> bc_ready_signal (cs_channel s)"
  using assms by (simp_all add: channel_inv_def Let_def slots_ok_def)

lemma channel_invI:
  assumes "unat (rb_size (cs_channel s)) = 2 ^ p" "unat (rb_mod (cs_channel s)) = 2 ^ p - 1"
    "unat (rb_high (cs_channel s)) = length (cs_sent s)" "unat (rb_low (cs_channel s)) = length (cs_received s)"
    "length (cs_sent s) + k < 2 ^ 64" "cs_received s = take (length (cs_received s)) (cs_sent s)"
    "slots_ok (2 ^ p) (rb_buffer (cs_channel s)) (cs_sent s) (length (cs_received s)) (\<lambda>t. store_pos (cs_send s t)) (advancing (cs_recv s))"
    "\<forall>t. sender_ok (2 ^ p) (cs_sent s) (length (cs_received s)) (cs_send s t)"
    "recv_ok (2 ^ p) (rb_buffer (cs_channel s)) (cs_sent s) (length (cs_received s)) (cs_recv s)"
    "signal_inv (cs_signal s) (\<lambda>t. send_raise (cs_send s t)) (recv_wait (cs_recv s))"
    "bc_ready_signal (cs_channel s) \<longrightarrow>
       wake_ok (available (2 ^ p) (rb_buffer (cs_channel s)) (cs_sent s) (length (cs_received s))) (sg_waiter (cs_signal s))
         (cs_send s) (length (cs_received s)) (cs_recv s)"
    "recv_wait (cs_recv s) \<noteq> W_Return \<longrightarrow> bc_ready_signal (cs_channel s)"
  shows "channel_inv p k s"
  using assms by (simp add: channel_inv_def Let_def)

lemma channel_index:
  assumes "channel_inv p k s"
  shows "ring_index w (cs_channel s) = unat w mod 2 ^ p" "ring_index w (cs_channel s) < length (rb_buffer (cs_channel s))"
proof -
  have "unat (ucast (rb_mod (cs_channel s)) :: 64 word) = 2 ^ p - 1"
    using channel_facts(2) [OF assms] by simp
  then show "ring_index w (cs_channel s) = unat w mod 2 ^ p"
    by (simp add: ring_index_def unat_and_mask)
  then show "ring_index w (cs_channel s) < length (rb_buffer (cs_channel s))"
    using channel_facts(10) [OF assms] by simp
qed

lemma channel_inv_weaken: "channel_inv p (Suc k) s \<Longrightarrow> channel_inv p k s"
  by (simp add: channel_inv_def Let_def)

lemma store_pos_upd: "(\<lambda>u. store_pos ((f(t := pc)) u)) = (\<lambda>u. store_pos (f u))(t := store_pos pc)"
  by auto

lemma send_raise_upd: "(\<lambda>u. send_raise ((f(t := pc)) u)) = (\<lambda>u. send_raise (f u))(t := send_raise pc)"
  by auto

lemma wake_ok_send:
  assumes "wake_ok a w send L recv" "send_raise (send t) \<noteq> R_Exchange"
  shows "wake_ok a w (send(t := pc)) L recv"
proof -
  have "\<forall>u. send u \<noteq> S_Raise R_Exchange" if "\<forall>u. (send(t := pc)) u \<noteq> S_Raise R_Exchange"
    using that assms(2) by (metis fun_upd_apply send_raise.simps(1))
  with assms(1) show ?thesis unfolding wake_ok_def by simp
qed

text \<open>A sender moves without touching shared memory.\<close>

lemma send_move:
  assumes inv: "channel_inv p k s" and pos: "store_pos (cs_send s t) = None" "store_pos pc = None"
    and r: "send_raise (cs_send s t) = R_Idle" "send_raise pc = R_Idle"
    and ok: "sender_ok (2 ^ p) (cs_sent s) (length (cs_received s)) pc"
  shows "channel_inv p k (s\<lparr>cs_send := (cs_send s)(t := pc)\<rparr>)"
proof -
  have "(\<lambda>u. store_pos (((cs_send s)(t := pc)) u)) = (\<lambda>u. store_pos (cs_send s u))"
    "(\<lambda>u. send_raise (((cs_send s)(t := pc)) u)) = (\<lambda>u. send_raise (cs_send s u))"
    using pos r by (auto simp: fun_eq_iff)
  moreover have "\<forall>u. sender_ok (2 ^ p) (cs_sent s) (length (cs_received s)) (((cs_send s)(t := pc)) u)"
    using channel_facts(8) [OF inv] ok by simp
  ultimately show ?thesis
    using channel_facts [OF inv] wake_ok_send [OF channel_facts(13) [OF inv], of t pc] r(1)
    by (intro channel_invI) (simp_all del: fun_upd_apply)
qed

lemma recv_move:
  assumes inv: "channel_inv p k s" and adv: "\<not> advancing (cs_recv s)" "\<not> advancing pc"
    and w: "recv_wait (cs_recv s) = W_Return" "recv_wait pc = W_Return \<or> recv_wait pc = W_Scratch"
    and ok: "recv_ok (2 ^ p) (rb_buffer (cs_channel s)) (cs_sent s) (length (cs_received s)) pc"
    and sig: "recv_wait pc \<noteq> W_Return \<longrightarrow> bc_ready_signal (cs_channel s)"
    and un: "bc_ready_signal (cs_channel s) \<Longrightarrow> unseen (length (cs_received s)) pc \<Longrightarrow>
       available (2 ^ p) (rb_buffer (cs_channel s)) (cs_sent s) (length (cs_received s)) \<Longrightarrow>
       unseen (length (cs_received s)) (cs_recv s)"
  shows "channel_inv p k (s\<lparr>cs_recv := pc\<rparr>)"
proof -
  have "signal_inv (cs_signal s) rp W_Return \<Longrightarrow> signal_inv (cs_signal s) rp W_Scratch" for rp
    by (auto simp: signal_inv_def)
  then have "signal_inv (cs_signal s) (\<lambda>t. send_raise (cs_send s t)) (recv_wait pc)"
    using channel_facts(11) [OF inv] w by auto
  moreover have "bc_ready_signal (cs_channel s) \<longrightarrow>
      wake_ok (available (2 ^ p) (rb_buffer (cs_channel s)) (cs_sent s) (length (cs_received s))) (sg_waiter (cs_signal s))
         (cs_send s) (length (cs_received s)) pc"
    using channel_facts(13) [OF inv] un unfolding wake_ok_def by blast
  ultimately show ?thesis
    using channel_facts [OF inv] adv ok sig by (intro channel_invI) simp_all
qed

lemma sender_ok_append: "sender_ok n sent L pc \<Longrightarrow> sender_ok n (sent @ ms) L pc"
  by (cases pc) (auto simp: nth_append)

lemma recv_ok_append: "recv_ok n buf sent L pc \<Longrightarrow> recv_ok n buf (sent @ ms) L pc"
  by (cases pc) (auto simp: nth_append)

lemma sender_ok_Suc: "sender_ok n sent L pc \<Longrightarrow> sender_ok n sent (Suc L) pc"
  by (cases pc) auto

text \<open>The reservation.\<close>

lemma send_reserve:
  assumes inv: "channel_inv p (Suc k) s" and pc: "cs_send s t = S_Cas m (rb_high (cs_channel s))"
  shows "channel_inv p k (s\<lparr>cs_channel := (cs_channel s)\<lparr>rb_high := rb_high (cs_channel s) + 1\<rparr>, cs_sent := cs_sent s @ [m],
     cs_send := (cs_send s)(t := S_Store m (rb_high (cs_channel s)))\<rparr>)"
proof -
  let ?L = "length (cs_received s)" and ?H = "length (cs_sent s)" and ?pc = "S_Store m (rb_high (cs_channel s))"
  note f = channel_facts [OF inv]
  have g: "m \<noteq> NULL" "?H < ?L + 2 ^ p" "Suc (unat (rb_high (cs_channel s))) < 2 ^ 64"
    using f(3,6) f(8) [of t] pc by auto
  have "slots_ok (2 ^ p) (rb_buffer (cs_channel s)) (cs_sent s @ [m]) ?L
      (\<lambda>u. store_pos (((cs_send s)(t := ?pc)) u)) (advancing (cs_recv s))"
    using slots_reserve [OF f(7) g(2,1), of t] pc f(3) unfolding store_pos_upd by simp
  moreover have "(\<lambda>u. send_raise (((cs_send s)(t := ?pc)) u)) = (\<lambda>u. send_raise (cs_send s u))"
    using pc by (auto simp: fun_eq_iff)
  moreover have "\<forall>u. sender_ok (2 ^ p) (cs_sent s @ [m]) ?L (((cs_send s)(t := ?pc)) u)"
    using sender_ok_append [OF f(8)] f(3) by (auto simp: nth_append)
  moreover have "recv_ok (2 ^ p) (rb_buffer (cs_channel s)) (cs_sent s @ [m]) ?L (cs_recv s)"
    by (rule recv_ok_append [OF f(9)])
  moreover have "rb_buffer (cs_channel s) ! (?H mod 2 ^ p) = NULL"
    using f(7) g(2) by (simp add: slots_ok_def)
  then have "available (2 ^ p) (rb_buffer (cs_channel s)) (cs_sent s @ [m]) ?L \<longleftrightarrow>
      available (2 ^ p) (rb_buffer (cs_channel s)) (cs_sent s) ?L"
    using f(5) by (auto simp: available_def less_Suc_eq)
  moreover have "cs_received s = take ?L (cs_sent s @ [m])" using f(12,5) by simp
  ultimately show ?thesis
    using f(1-6,11,14) wake_ok_send [OF f(13), of t ?pc] pc unat_Suc64 [OF g(3)]
    by (intro channel_invI) (simp_all del: fun_upd_apply)
qed

text \<open>The message is stored; the sender goes on to raise the signal.\<close>

lemma send_store:
  assumes inv: "channel_inv p k s" and pc: "cs_send s t = S_Store m high"
  defines "c \<equiv> cs_channel s"
  shows "channel_inv p k (s\<lparr>cs_channel := c\<lparr>rb_buffer := (rb_buffer c)[ring_index high c := m]\<rparr>,
     cs_send := (cs_send s)(t := if bc_ready_signal c then S_Raise R_Exchange else S_Idle 0)\<rparr>)"
proof -
  let ?L = "length (cs_received s)" and ?pc = "if bc_ready_signal c then S_Raise R_Exchange else S_Idle 0"
  let ?buf = "(rb_buffer c)[ring_index high c := m]"
  note f = channel_facts [OF inv, folded c_def]
  have m: "m = cs_sent s ! unat high" and idx: "ring_index high c = unat high mod 2 ^ p"
    using f(8) [of t] pc channel_index(1) [OF inv] by (simp_all add: c_def)
  have slots: "slots_ok (2 ^ p) ?buf (cs_sent s) ?L (\<lambda>u. store_pos (((cs_send s)(t := ?pc)) u)) (advancing (cs_recv s))"
    using slots_store [OF f(7), of t "unat high"] pc unfolding store_pos_upd idx m by simp
  have "signal_inv (cs_signal s) (\<lambda>u. send_raise (((cs_send s)(t := ?pc)) u)) (recv_wait (cs_recv s))"
    using pc by (intro signal_inv_cong [OF f(11)]) auto
  moreover have "\<forall>u. sender_ok (2 ^ p) (cs_sent s) ?L (((cs_send s)(t := ?pc)) u)" using f(8) by simp
  moreover have "recv_ok (2 ^ p) ?buf (cs_sent s) ?L (cs_recv s)"
  proof (cases "cs_recv s")
    case (C_Zero ret low)
    have "unat high \<noteq> ?L" using f(7,9) pc C_Zero unfolding slots_ok_def by (metis recv_ok.simps(3) store_pos.simps(1))
    moreover have "?L \<le> unat high" "unat high < length (cs_sent s)" "length (cs_sent s) \<le> ?L + 2 ^ p"
      using f(7) pc unfolding slots_ok_def by (metis store_pos.simps(1))+
    ultimately have "?L mod 2 ^ p \<noteq> unat high mod 2 ^ p"
      using window_index_neq [of ?L "unat high" ?L "2 ^ p"] by simp
    with f(9) C_Zero idx show ?thesis by simp
  qed (use f(9) in simp_all)
  moreover have "wake_ok a w ((cs_send s)(t := ?pc)) ?L (cs_recv s)" if "bc_ready_signal c" for a w
    using that unfolding wake_ok_def by auto
  ultimately show ?thesis
    using f(1-6,10,12,14) slots by (intro channel_invI) (simp_all del: fun_upd_apply flip: c_def)
qed

lemma signal_inv_return: "signal_inv s (rp(t := R_Return r)) w \<Longrightarrow> signal_inv s (rp(t := R_Idle)) w"
  by (erule signal_inv_cong) auto

text \<open>A step of raising the signal.\<close>

lemma send_raise_step:
  assumes inv: "channel_inv p k s" and pc: "cs_send s t = S_Raise r"
  shows "\<exists>sg r'. fiber_signal_raise_step r (cs_signal s) = Some (sg, r') \<and>
     channel_inv p k (s\<lparr>cs_signal := sg, cs_send := (cs_send s)(t := case r' of R_Return x \<Rightarrow> S_Idle x | _ \<Rightarrow> S_Raise r')\<rparr>)"
proof -
  let ?L = "length (cs_received s)"
  note f = channel_facts [OF inv]
  obtain sg r' where step: "fiber_signal_raise_step r (cs_signal s) = Some (sg, r')"
      "signal_inv sg ((\<lambda>t. send_raise (cs_send s t))(t := r')) (recv_wait (cs_recv s))"
    using raise_step_inv [OF f(11), of t] pc by auto
  define pc' where "pc' = (case r' of R_Return x \<Rightarrow> S_Idle x | _ \<Rightarrow> S_Raise r')"
  have pos: "(\<lambda>u. store_pos (((cs_send s)(t := pc')) u)) = (\<lambda>u. store_pos (cs_send s u))"
    using pc by (auto simp: fun_eq_iff pc'_def split: raise_pc.splits)
  have sig: "signal_inv sg (\<lambda>u. send_raise (((cs_send s)(t := pc')) u)) (recv_wait (cs_recv s))"
    using step(2) signal_inv_return unfolding send_raise_upd by (cases r') (auto simp: pc'_def)
  have so: "\<forall>u. sender_ok (2 ^ p) (cs_sent s) ?L (((cs_send s)(t := pc')) u)"
    using f(8) by (simp add: pc'_def split: raise_pc.splits)
  have "wake_ok a (sg_waiter sg) ((cs_send s)(t := pc')) ?L (cs_recv s)"
    if "wake_ok a (sg_waiter (cs_signal s)) (cs_send s) ?L (cs_recv s)" for a
  proof (cases "r = R_Exchange")
    case True
    then show ?thesis using step(1) by (auto simp: fiber_signal_raise_step_def wake_ok_def)
  next
    case False
    have "sg_waiter sg = sg_waiter (cs_signal s) \<or> r = R_Clear \<and> sg_waiter sg = FIBER_SIGNAL_NO_WAITER"
      using step(1) False by (cases r) (auto simp: fiber_signal_raise_step_def split: if_splits)
    moreover have "\<not> unseen ?L (cs_recv s)" if "r = R_Clear"
    proof -
      have "sleeping (recv_wait (cs_recv s))" using f(11) pc that unfolding signal_inv_def by (metis send_raise.simps(1) waking.simps(1))
      then show ?thesis by (cases "cs_recv s") auto
    qed
    moreover have "wake_ok a (sg_waiter (cs_signal s)) ((cs_send s)(t := pc')) ?L (cs_recv s)"
      using wake_ok_send [OF that, of t pc'] pc False by simp
    ultimately show ?thesis unfolding wake_ok_def by (metis registered.simps(2))
  qed
  then have "channel_inv p k (s\<lparr>cs_signal := sg, cs_send := (cs_send s)(t := pc')\<rparr>)"
    using f pos sig so by (intro channel_invI) (simp_all del: fun_upd_apply)
  with step(1) show ?thesis by (auto simp: pc'_def)
qed

text \<open>The steps of the receiver.\<close>

lemma not_registered:
  assumes "channel_inv p k s" "recv_wait (cs_recv s) = W_Return"
  shows "\<not> registered (sg_waiter (cs_signal s))"
  using channel_facts(11) [OF assms(1)] assms(2) unfolding signal_inv_def by (metis sleeping.simps(9))

lemma recv_zero:
  assumes inv: "channel_inv p k s" and pc: "cs_recv s = C_Zero ret low"
  defines "c \<equiv> cs_channel s"
  shows "channel_inv p k (s\<lparr>cs_channel := c\<lparr>rb_buffer := (rb_buffer c)[ring_index low c := NULL]\<rparr>, cs_recv := C_Advance ret low\<rparr>)"
proof -
  let ?L = "length (cs_received s)"
  note f = channel_facts [OF inv, folded c_def]
  have L: "unat low = ?L" "?L < length (cs_sent s)" "rb_buffer c ! (?L mod 2 ^ p) \<noteq> NULL" "rb_buffer c ! (?L mod 2 ^ p) = ret"
    using f(9) pc by auto
  have idx: "ring_index low c = ?L mod 2 ^ p" using channel_index(1) [OF inv] L(1) by (simp add: c_def)
  have "slots_ok (2 ^ p) ((rb_buffer c)[ring_index low c := NULL]) (cs_sent s) ?L (\<lambda>t. store_pos (cs_send s t)) True"
    unfolding idx by (rule slots_zero [OF f(7) L(2,3)])
  moreover have "ret = cs_sent s ! ?L" using slots_next(1) [OF f(7) L(2,3)] L(4) by simp
  moreover have "wake_ok a (sg_waiter (cs_signal s)) (cs_send s) ?L (C_Advance ret low)" for a
    using not_registered [OF inv] pc by (simp add: wake_ok_def)
  ultimately show ?thesis
    using f(1-6,10-12) f(8) L(1,2) pc by (intro channel_invI) (simp_all flip: c_def)
qed

lemma recv_advance:
  assumes inv: "channel_inv p k s" and pc: "cs_recv s = C_Advance ret low"
  defines "c \<equiv> cs_channel s"
  shows "channel_inv p k (s\<lparr>cs_channel := c\<lparr>rb_low := low + 1\<rparr>, cs_received := cs_received s @ [ret], cs_recv := C_Idle 1\<rparr>)"
proof -
  let ?L = "length (cs_received s)"
  note f = channel_facts [OF inv, folded c_def]
  have L: "unat low = ?L" "?L < length (cs_sent s)" "ret = cs_sent s ! ?L" using f(9) pc by auto
  have "unat (low + 1) = Suc ?L" using unat_Suc64 [of low] L(1,2) f(6) by simp
  moreover have "slots_ok (2 ^ p) (rb_buffer c) (cs_sent s) (Suc ?L) (\<lambda>t. store_pos (cs_send s t)) False"
    using slots_advance f(7) pc by simp
  moreover have "\<forall>t. sender_ok (2 ^ p) (cs_sent s) (Suc ?L) (cs_send s t)" using sender_ok_Suc [OF f(8)] by blast
  moreover have "cs_received s @ [ret] = take (Suc ?L) (cs_sent s)" using f(12) L by (simp add: take_Suc_conv_app_nth)
  moreover have "wake_ok a (sg_waiter (cs_signal s)) (cs_send s) (Suc ?L) (C_Idle 1)" for a
    using not_registered [OF inv] pc by (simp add: wake_ok_def)
  ultimately show ?thesis
    using f(1-6,10-11) pc L(2) by (intro channel_invI) (simp_all add: min_absorb2 flip: c_def)
qed

lemma recv_wait_step:
  assumes inv: "channel_inv p k s" and pc: "cs_recv s = C_Wait w"
  shows "\<exists>sg w'. fiber_signal_wait_step f w (cs_signal s) = Some (sg, w') \<and>
     channel_inv p k (s\<lparr>cs_signal := sg, cs_recv := if w' = W_Return then C_High True else C_Wait w'\<rparr>)"
proof -
  let ?L = "length (cs_received s)"
  note f = channel_facts [OF inv]
  obtain sg w' where step: "fiber_signal_wait_step f w (cs_signal s) = Some (sg, w')"
      "signal_inv sg (\<lambda>t. send_raise (cs_send s t)) w'"
    using wait_step_inv [OF f(11), of f] pc by auto
  define pc' where "pc' = (if w' = W_Return then C_High True else C_Wait w')"
  have pc': "recv_wait pc' = w'" "\<not> advancing pc'" "recv_ok n buf sent L pc'" for n buf sent L
    by (auto simp: pc'_def)
  have "wake_ok a (sg_waiter sg) (cs_send s) ?L pc'"
    if "wake_ok a (sg_waiter (cs_signal s)) (cs_send s) ?L (cs_recv s)" for a
    using that step(1) pc
    by (cases w) (auto simp: wake_ok_def pc'_def fiber_signal_wait_step_def split: if_splits)
  moreover have "w' \<noteq> W_Return \<longrightarrow> bc_ready_signal (cs_channel s)"
    using f(14) pc step(1) by (cases w) (auto simp: fiber_signal_wait_step_def split: if_splits)
  ultimately have "channel_inv p k (s\<lparr>cs_signal := sg, cs_recv := pc'\<rparr>)"
    using f step(2) pc pc' by (intro channel_invI) simp_all
  with step(1) show ?thesis by (auto simp: pc'_def)
qed

section \<open>Every step\<close>

lemma channel_send_ok:
  assumes inv: "channel_inv p (Suc k) s"
  shows "\<exists>s'. fiber_bounded_channel_send_step t sp s = Some s' \<and> channel_inv p k s'"
proof -
  let ?L = "length (cs_received s)"
  note f = channel_facts [OF inv] and inv' = channel_inv_weaken [OF inv]
  note ok = f(8) [of t]
  show ?thesis
  proof (cases "cs_send s t")
    case (S_Low m)
    then show ?thesis
      using send_move [OF inv', of t "S_High m (rb_low (cs_channel s))"] ok f(4)
      by (simp add: fiber_bounded_channel_send_step_def Let_def)
  next
    case (S_High m low)
    then show ?thesis
      using send_move [OF inv', of t "S_Slot m low (rb_high (cs_channel s))"] ok f(3-5)
      by (simp add: fiber_bounded_channel_send_step_def Let_def)
  next
    case (S_Slot m low high)
    have "unat high < ?L + 2 ^ p" if "high - low < ucast (rb_size (cs_channel s))"
    proof -
      have "unat (high - low) < 2 ^ p" using that f(1) by (simp add: word_less_nat_alt)
      then have "unat high - unat low < 2 ^ p" using ok S_Slot by (simp add: unat_sub word_le_nat_alt)
      moreover have "unat low \<le> ?L" "unat low \<le> unat high" using ok S_Slot by auto
      ultimately show ?thesis by linarith
    qed
    then show ?thesis
      using S_Slot send_move [OF inv', of t "S_Cas m high"] send_move [OF inv', of t "S_Low m"] ok channel_index(2) [OF inv, of high]
      by (auto simp: fiber_bounded_channel_send_step_def Let_def)
  next
    case (S_Cas m high)
    then show ?thesis
      using send_reserve [OF inv, of t m] send_move [OF inv', of t "S_Low m"] ok
      by (auto simp: fiber_bounded_channel_send_step_def Let_def)
  next
    case (S_Store m high)
    then show ?thesis
      using send_store [OF inv' S_Store] channel_index(2) [OF inv, of high]
      by (simp add: fiber_bounded_channel_send_step_def Let_def)
  next
    case (S_Raise r)
    then show ?thesis
      using send_raise_step [OF inv' S_Raise] by (auto simp: fiber_bounded_channel_send_step_def Let_def)
  qed (use inv' in \<open>simp add: fiber_bounded_channel_send_step_def Let_def\<close>)
qed

lemma channel_receive_ok:
  assumes inv: "channel_inv p k s"
  shows "\<exists>s'. fiber_bounded_channel_receive_step g s = Some s' \<and> channel_inv p k s'"
proof -
  let ?L = "length (cs_received s)"
  note f = channel_facts [OF inv]
  note ok = f(9)
  show ?thesis
  proof (cases "cs_recv s")
    case (C_High b)
    then show ?thesis
      using recv_move [OF inv, of "C_Low b (rb_high (cs_channel s))"] f(3)
      by (simp add: fiber_bounded_channel_receive_step_def Let_def available_def)
  next
    case (C_Low b high)
    then show ?thesis
      using recv_move [OF inv, of "C_Slot b high (rb_low (cs_channel s))"] f(4) ok
      by (simp add: fiber_bounded_channel_receive_step_def Let_def)
  next
    case (C_Slot b high low)
    have L: "unat low = ?L" "unat high \<le> length (cs_sent s)" using ok C_Slot by auto
    have idx: "ring_index low (cs_channel s) = ?L mod 2 ^ p" using channel_index(1) [OF inv] L(1) by simp
    let ?ret = "rb_buffer (cs_channel s) ! (?L mod 2 ^ p)"
    have read: "nth_opt (rb_buffer (cs_channel s)) (?L mod 2 ^ p) = Some ?ret" using f(10) by simp
    have hl: "high > low \<longleftrightarrow> unat high > ?L" using L(1) by (simp add: word_less_nat_alt)
    show ?thesis
    proof (cases "?ret \<noteq> NULL \<and> high > low")
      case True
      then show ?thesis
        using C_Slot recv_move [OF inv, of "C_Zero ?ret low"] L idx read hl
        by (simp add: fiber_bounded_channel_receive_step_def Let_def)
    next
      case False
      then have un: "available (2 ^ p) (rb_buffer (cs_channel s)) (cs_sent s) ?L \<Longrightarrow> unseen ?L (cs_recv s)"
        using C_Slot hl by (auto simp: available_def)
      have "\<exists>pc. fiber_bounded_channel_receive_step g s = Some (s\<lparr>cs_recv := pc\<rparr>) \<and>
          (pc = C_Idle 0 \<or> pc = C_Wait W_Scratch \<and> bc_ready_signal (cs_channel s) \<or> pc = C_High True)"
        using False C_Slot read idx by (auto simp: fiber_bounded_channel_receive_step_def Let_def)
      then show ?thesis using recv_move [OF inv] C_Slot un by fastforce
    qed
  next
    case (C_Zero ret low)
    then show ?thesis
      using recv_zero [OF inv C_Zero] channel_index(2) [OF inv, of low]
      by (simp add: fiber_bounded_channel_receive_step_def Let_def)
  next
    case (C_Advance ret low)
    then show ?thesis
      using recv_advance [OF inv C_Advance] by (simp add: fiber_bounded_channel_receive_step_def Let_def)
  next
    case (C_Wait w)
    then show ?thesis
      using recv_wait_step [OF inv C_Wait, of g] by (auto simp: fiber_bounded_channel_receive_step_def Let_def)
  qed (use inv in \<open>simp add: fiber_bounded_channel_receive_step_def Let_def\<close>)
qed

interpretation channel: machine "channel_step f" "\<lambda>a. \<forall>t m. a = Ch_Send t m \<longrightarrow> m \<noteq> NULL" "channel_inv p" for f p
proof (unfold_locales, goal_cases)
  case (1 k s a)
  note inv' = channel_inv_weaken [OF 1(1)]
  show ?case
  proof (cases a)
    case (Ch_Send t m)
    show ?thesis
    proof (cases "cs_send s t")
      case (S_Idle r)
      with Ch_Send 1(2) show ?thesis using send_move [OF inv', of t "S_Low m"] by simp
    qed (use Ch_Send 1(2) inv' in simp_all)
  next
    case (Ch_Receive b)
    show ?thesis
    proof (cases "cs_recv s")
      case (C_Idle r)
      with Ch_Receive show ?thesis using recv_move [OF inv', of "C_High b"] by simp
    qed (use Ch_Receive inv' in simp_all)
  next
    case (Ch_Sender t sp)
    with channel_send_ok [OF 1(1)] show ?thesis by simp
  next
    case Ch_Receiver
    with channel_receive_ok [OF inv'] show ?thesis by simp
  qed
qed

text \<open>A channel as created, for the sizes whose block is not truncated.\<close>

lemma channel_create_inv:
  assumes "p \<noteq> 0" "p \<le> 28" and k: "k < 2 ^ 64"
  shows "\<exists>c. fiber_bounded_channel_create p signal True True = Some (Some c) \<and> channel_inv (unat p) k (channel_sys_init c)"
proof -
  have n: "unat p \<le> 28" "unat p < 32" and lt: "p < 32"
    using assms(2) by (auto simp: word_le_nat_alt word_less_nat_alt)
  have slots: "ring_slots sizeof_fiber_bounded_channel
      (required_size32 sizeof_fiber_bounded_channel (2 ^ unat p)) = 2 ^ unat p"
    using n unat_required_size32 [of "unat p" 216]
    by (simp add: ring_slots_def sizeof_fiber_bounded_channel_def sizeof_ptr_def)
  let ?c = "\<lparr>rb_high = 0, rb_low = 0, rb_size = 2 ^ unat p, rb_mod = 2 ^ unat p - 1,
             rb_buffer = replicate (2 ^ unat p) NULL, bc_ready_signal = signal\<rparr>"
  have size: "unat (2 ^ unat p :: 32 word) = 2 ^ unat p" by (rule unat_two_power [OF n(2)])
  then have m1: "unat (2 ^ unat p - 1 :: 32 word) = 2 ^ unat p - 1" by (simp add: unat_sub word_le_nat_alt)
  have "fiber_bounded_channel_create p signal True True = Some (Some ?c)"
    using assms(1) lt by (auto simp: fiber_bounded_channel_create_def Let_def slots)
  moreover have "channel_inv (unat p) k (channel_sys_init ?c)"
    using size m1 k signal_init_inv [of "\<lambda>_. R_Idle" W_Return]
    by (intro channel_invI) (auto simp: channel_sys_init_def slots_ok_def wake_ok_def available_def)
  ultimately show ?thesis by blast
qed

section \<open>Properties\<close>

text \<open>C6. Any number of senders, one receiver, every interleaving, from a channel as created: no step faults
  (in particular the receiver is put into a run queue only after its context is saved), the messages
  are received in the order in which their slots were reserved, without loss or duplication, at
  most \<open>2 ^ p\<close> are under way, and no wake-up is lost: when the receiver is asleep and in no run queue
  while all senders are idle, every message sent has been received.\<close>

theorem bounded_channel_correct:
  assumes "p \<noteq> 0" "p \<le> 28" "length acts < 2 ^ 64" "\<forall>t m. Ch_Send t m \<in> set acts \<longrightarrow> m \<noteq> NULL"
  shows "\<exists>c s. fiber_bounded_channel_create p signal True True = Some (Some c) \<and>
     channel_run f acts (channel_sys_init c) = Some s \<and>
     prefix (cs_received s) (cs_sent s) \<and> length (cs_sent s) \<le> length (cs_received s) + 2 ^ unat p \<and>
     (cs_recv s = C_Wait W_Asleep \<and> \<not> sg_queued (cs_signal s) \<and> (\<forall>t. \<exists>r. cs_send s t = S_Idle r) \<longrightarrow>
        cs_received s = cs_sent s)"
proof -
  obtain c where c: "fiber_bounded_channel_create p signal True True = Some (Some c)"
      "channel_inv (unat p) (length acts) (channel_sys_init c)"
    using channel_create_inv [OF assms(1-3)] by blast
  then obtain s where s: "channel_run f acts (channel_sys_init c) = Some s" "channel_inv (unat p) 0 s"
    using channel.run_ok [where as = acts and s = "channel_sys_init c"] assms(4) by blast
  note i = channel_facts [OF s(2)]
  have "cs_received s = cs_sent s"
    if "cs_recv s = C_Wait W_Asleep" "\<not> sg_queued (cs_signal s)" "\<forall>t. \<exists>r. cs_send s t = S_Idle r"
  proof -
    let ?L = "length (cs_received s)" and ?buf = "rb_buffer (cs_channel s)"
    have idle: "send_raise (cs_send s t) = R_Idle" "store_pos (cs_send s t) = None" for t
      using that(3) [rule_format, of t] by auto
    have "registered (sg_waiter (cs_signal s))"
      using i(11) that(1,2) idle(1) unfolding signal_inv_def by simp
    moreover have "bc_ready_signal (cs_channel s)" using i(14) that(1) by simp
    moreover have "cs_send s t \<noteq> S_Raise R_Exchange" for t using idle(1) [of t] by auto
    ultimately have "\<not> available (2 ^ unat p) ?buf (cs_sent s) ?L" using i(13) unfolding wake_ok_def by blast
    moreover have "?buf ! (?L mod 2 ^ unat p) = cs_sent s ! ?L \<and> cs_sent s ! ?L \<noteq> NULL" if "?L < length (cs_sent s)"
    proof -
      have "NULL \<notin> set (cs_sent s)" "\<not> advancing (cs_recv s)" using i(7) \<open>cs_recv s = _\<close> by (auto simp: slots_ok_def)
      then show ?thesis using i(7) that idle(2) nth_mem [OF that] unfolding slots_ok_def by (metis option.distinct(1) order_refl)
    qed
    ultimately have "length (cs_sent s) \<le> ?L" unfolding available_def by (metis not_le)
    with i(12) show ?thesis by simp
  qed
  moreover have "prefix (cs_received s) (cs_sent s)" using i(12) by (metis take_is_prefix)
  moreover have "length (cs_sent s) \<le> length (cs_received s) + 2 ^ unat p" using i(7) by (simp add: slots_ok_def)
  ultimately show ?thesis using c(1) s(1) by blast
qed

theorem bounded_channel_correct_witness:
  "\<exists>c s. fiber_bounded_channel_create 1 True True True = Some (Some c) \<and>
     channel_run 9 ([Ch_Receive True] @ replicate 8 Ch_Receiver @ [Ch_Send 0 5] @ replicate 9 (Ch_Sender 0 False) @ replicate 8 Ch_Receiver)
       (channel_sys_init c) = Some s \<and> prefix (cs_received s) (cs_sent s)"
  using bounded_channel_correct [of 1 "[Ch_Receive True] @ replicate 8 Ch_Receiver @ [Ch_Send 0 5] @
      replicate 9 (Ch_Sender 0 False) @ replicate 8 Ch_Receiver" True 9]
  by (simp del: run_steps.simps replicate_Suc) blast

end
