(* ===== verification/Multi_Channel.thy ===== *)
theory Multi_Channel
  imports Fiber_Types Ring_Buffer Mutex "HOL-Library.Sublist"
begin

text \<open>
  The bounded channel with many senders and receivers of \<open>include/fiber_multi_channel.h\<close>.  All
  accesses to the channel are made under its mutex, which is exclusive (theory \<open>Mutex\<close>), so a step
  is one critical section: from \<open>fiber_mutex_lock\<close> to the unlock at the end, or to the unlock that
  the manager performs after a waiting fiber has been switched out.  The waiters form a stack that is
  linked through the field \<open>scratch\<close> of the fibers.  \<open>mc_sent\<close> and \<open>mc_received\<close> are history.
\<close>

datatype multi_pc = M_Idle | M_Sending addr | M_Receiving | M_Wait_Send addr | M_Wait_Receive

record fiber_multi_channel = lockfree_ring_buffer +
  mc_waiters :: addr

record multi_sys =
  mc_channel :: fiber_multi_channel
  mc_scratch :: "addr \<Rightarrow> addr"
  mc_pc :: "addr \<Rightarrow> multi_pc"
  mc_sent :: "addr list"
  mc_received :: "addr list"

text \<open>The size of the block is a \<open>size_t\<close> here; the lock may fail to initialise.\<close>

definition fiber_multi_channel_create :: "32 word \<Rightarrow> bool \<Rightarrow> bool \<Rightarrow> fiber_multi_channel option option" where
  "fiber_multi_channel_create power_of_2_size calloc_ok mutex_ok = do {
     c_assert (power_of_2_size \<noteq> 0 \<and> power_of_2_size < 32);
     let size = (push_bit (unat power_of_2_size) 1 :: 32 word);
     Some (if calloc_ok \<and> mutex_ok
           then Some \<lparr>rb_high = 0, rb_low = 0, rb_size = size, rb_mod = size - 1,
                      rb_buffer = replicate (unat size) NULL, mc_waiters = NULL\<rparr>
           else None)
   }"

definition fiber_multi_channel_destroy :: "mpsc_heap \<Rightarrow> (fiber_multi_channel \<times> fiber_mutex) option \<Rightarrow> mpsc_heap option" where
  "fiber_multi_channel_destroy h channel =
     (case channel of None \<Rightarrow> Some h | Some (c, lock) \<Rightarrow> do { (h', _) \<leftarrow> fiber_mutex_destroy h lock; Some h' })"

lemma fiber_multi_channel_destroy_frees:
  "fiber_mutex_init h a = (h', lock, r) \<Longrightarrow> a \<noteq> NULL \<Longrightarrow> h a = None \<Longrightarrow> fiber_multi_channel_destroy h' (Some (c, lock)) = Some h"
  by (auto simp: fiber_multi_channel_destroy_def fiber_mutex_init_def fiber_mutex_destroy_def mpsc_init_destroy split: prod.splits)

definition fiber_multi_channel_internal_wait :: "addr \<Rightarrow> multi_pc \<Rightarrow> multi_sys \<Rightarrow> multi_sys" where
  "fiber_multi_channel_internal_wait f pc s =
     s\<lparr>mc_scratch := (mc_scratch s)(f := mc_waiters (mc_channel s)), mc_channel := (mc_channel s)\<lparr>mc_waiters := f\<rparr>,
       mc_pc := (mc_pc s)(f := pc)\<rparr>"

fun resumed :: "multi_pc \<Rightarrow> multi_pc" where
  "resumed (M_Wait_Send m) = M_Sending m" | "resumed M_Wait_Receive = M_Receiving" | "resumed pc = pc"

text \<open>A woken fiber is ready; it takes the lock and tests again when it is run.\<close>

definition fiber_multi_channel_internal_wake :: "multi_sys \<Rightarrow> multi_sys" where
  "fiber_multi_channel_internal_wake s =
     (let to_wake = mc_waiters (mc_channel s) in
      if to_wake \<noteq> NULL
      then s\<lparr>mc_channel := (mc_channel s)\<lparr>mc_waiters := mc_scratch s to_wake\<rparr>,
             mc_scratch := (mc_scratch s)(to_wake := NULL),
             mc_pc := (mc_pc s)(to_wake := resumed (mc_pc s to_wake))\<rparr>
      else s)"

definition fiber_multi_channel_send :: "addr \<Rightarrow> addr \<Rightarrow> multi_sys \<Rightarrow> multi_sys option" where
  "fiber_multi_channel_send f message s =
     (let c = mc_channel s in
      if rb_high c - rb_low c < ucast (rb_size c)
      then do {
        let index = ring_index (rb_high c) c;
        c_assert (index < length (rb_buffer c));
        Some (fiber_multi_channel_internal_wake
          (s\<lparr>mc_channel := c\<lparr>rb_buffer := (rb_buffer c)[index := message], rb_high := rb_high c + 1\<rparr>,
             mc_pc := (mc_pc s)(f := M_Idle), mc_sent := mc_sent s @ [message]\<rparr>)) }
      else Some (fiber_multi_channel_internal_wait f (M_Wait_Send message) s))"

definition fiber_multi_channel_receive :: "addr \<Rightarrow> multi_sys \<Rightarrow> multi_sys option" where
  "fiber_multi_channel_receive f s =
     (let c = mc_channel s in
      if rb_high c > rb_low c
      then do {
        let index = ring_index (rb_low c) c;
        ret \<leftarrow> nth_opt (rb_buffer c) index;
        Some (fiber_multi_channel_internal_wake
          (s\<lparr>mc_channel := c\<lparr>rb_buffer := (rb_buffer c)[index := NULL], rb_low := rb_low c + 1\<rparr>,
             mc_pc := (mc_pc s)(f := M_Idle), mc_received := mc_received s @ [ret]\<rparr>)) }
      else Some (fiber_multi_channel_internal_wait f M_Wait_Receive s))"

datatype multi_act = Mc_Send addr addr | Mc_Receive addr | Mc_Run addr

fun multi_fiber :: "multi_act \<Rightarrow> addr" where
  "multi_fiber (Mc_Send f m) = f" | "multi_fiber (Mc_Receive f) = f" | "multi_fiber (Mc_Run f) = f"

text \<open>A fiber starts a call, or runs the critical section of the call that it is in.\<close>

fun multi_step :: "multi_act \<Rightarrow> multi_sys \<Rightarrow> multi_sys option" where
  "multi_step (Mc_Send f m) s = Some (if mc_pc s f = M_Idle then s\<lparr>mc_pc := (mc_pc s)(f := M_Sending m)\<rparr> else s)"
| "multi_step (Mc_Receive f) s = Some (if mc_pc s f = M_Idle then s\<lparr>mc_pc := (mc_pc s)(f := M_Receiving)\<rparr> else s)"
| "multi_step (Mc_Run f) s =
     (case mc_pc s f of
        M_Sending m \<Rightarrow> fiber_multi_channel_send f m s
      | M_Receiving \<Rightarrow> fiber_multi_channel_receive f s
      | _ \<Rightarrow> Some s)"

abbreviation multi_run :: "multi_act list \<Rightarrow> multi_sys \<Rightarrow> multi_sys option" where
  "multi_run \<equiv> run_steps multi_step"

definition multi_sys_init :: "fiber_multi_channel \<Rightarrow> multi_sys" where
  "multi_sys_init c = \<lparr>mc_channel = c, mc_scratch = (\<lambda>_. NULL), mc_pc = (\<lambda>_. M_Idle), mc_sent = [], mc_received = []\<rparr>"

section \<open>The stack of waiters\<close>

fun waits :: "multi_pc \<Rightarrow> bool" where
  "waits (M_Wait_Send m) = True" | "waits M_Wait_Receive = True" | "waits pc = False"

fun links :: "(addr \<Rightarrow> addr) \<Rightarrow> addr \<Rightarrow> addr list \<Rightarrow> bool" where
  "links sc p [] \<longleftrightarrow> p = NULL"
| "links sc p (f # fs) \<longleftrightarrow> p = f \<and> f \<noteq> NULL \<and> links sc (sc f) fs"

text \<open>The waiting fibers are exactly the fibers of the stack, each of them once.\<close>

definition waiters_ok :: "addr \<Rightarrow> (addr \<Rightarrow> addr) \<Rightarrow> (addr \<Rightarrow> multi_pc) \<Rightarrow> addr list \<Rightarrow> bool" where
  "waiters_ok tp sc pc fs \<longleftrightarrow> links sc tp fs \<and> distinct fs \<and> (\<forall>f. waits (pc f) \<longleftrightarrow> f \<in> set fs)"

lemma links_upd: "f \<notin> set fs \<Longrightarrow> links (sc(f := x)) p fs = links sc p fs"
  by (induction fs arbitrary: p) auto

lemma waiters_push:
  "waiters_ok tp sc pc fs \<Longrightarrow> \<not> waits (pc f) \<Longrightarrow> f \<noteq> NULL \<Longrightarrow> waits x \<Longrightarrow> waiters_ok f (sc(f := tp)) (pc(f := x)) (f # fs)"
  by (auto simp: waiters_ok_def links_upd)

lemma waits_resumed [simp]: "\<not> waits (resumed pc)"
  by (cases pc) auto

lemma waiters_pop:
  "waiters_ok tp sc pc (f # fs) \<Longrightarrow> waiters_ok (sc f) (sc(f := NULL)) (pc(f := resumed (pc f))) fs"
  by (auto simp: waiters_ok_def links_upd)

lemma waiters_move: "waiters_ok tp sc pc fs \<Longrightarrow> waits x = waits (pc f) \<Longrightarrow> waiters_ok tp sc (pc(f := x)) fs"
  by (auto simp: waiters_ok_def)

section \<open>The invariant\<close>

definition multi_ring_ok :: "nat \<Rightarrow> nat \<Rightarrow> fiber_multi_channel \<Rightarrow> addr list \<Rightarrow> addr list \<Rightarrow> bool" where
  "multi_ring_ok p k c sent received \<longleftrightarrow>
     unat (rb_size c) = 2 ^ p \<and> unat (rb_mod c) = 2 ^ p - 1 \<and> length (rb_buffer c) = 2 ^ p \<and>
     unat (rb_high c) = length sent \<and> unat (rb_low c) = length received \<and> length sent + k < 2 ^ 64 \<and>
     length received \<le> length sent \<and> length sent \<le> length received + 2 ^ p \<and> received = take (length received) sent \<and>
     (\<forall>i. length received \<le> i \<longrightarrow> i < length sent \<longrightarrow> rb_buffer c ! (i mod 2 ^ p) = sent ! i)"

definition multi_inv :: "nat \<Rightarrow> nat \<Rightarrow> multi_sys \<Rightarrow> bool" where
  "multi_inv p k s \<longleftrightarrow> multi_ring_ok p k (mc_channel s) (mc_sent s) (mc_received s) \<and>
     (\<exists>fs. waiters_ok (mc_waiters (mc_channel s)) (mc_scratch s) (mc_pc s) fs)"

lemma multi_index:
  assumes "multi_ring_ok p k c sent received"
  shows "ring_index w c = unat w mod 2 ^ p" "ring_index w c < length (rb_buffer c)"
proof -
  have "unat (ucast (rb_mod c) :: 64 word) = 2 ^ p - 1" using assms by (simp add: multi_ring_ok_def)
  then show "ring_index w c = unat w mod 2 ^ p" by (simp add: ring_index_def unat_and_mask)
  then show "ring_index w c < length (rb_buffer c)" using assms by (simp add: multi_ring_ok_def)
qed

lemma multi_room:
  assumes "multi_ring_ok p k c sent received"
  shows "rb_high c - rb_low c < ucast (rb_size c) \<longleftrightarrow> length sent < length received + 2 ^ p"
    "rb_low c < rb_high c \<longleftrightarrow> length received < length sent"
proof -
  have "unat (rb_high c - rb_low c) = length sent - length received"
    using assms by (simp add: multi_ring_ok_def unat_sub word_le_nat_alt)
  then show "rb_high c - rb_low c < ucast (rb_size c) \<longleftrightarrow> length sent < length received + 2 ^ p"
    using assms by (auto simp: multi_ring_ok_def word_less_nat_alt)
  show "rb_low c < rb_high c \<longleftrightarrow> length received < length sent"
    using assms by (simp add: multi_ring_ok_def word_less_nat_alt)
qed

lemma multi_ring_put:
  assumes ok: "multi_ring_ok p (Suc k) c sent received" and room: "length sent < length received + 2 ^ p"
  shows "multi_ring_ok p k (c\<lparr>rb_buffer := (rb_buffer c)[ring_index (rb_high c) c := m], rb_high := rb_high c + 1\<rparr>) (sent @ [m]) received"
proof -
  have idx: "ring_index (rb_high c) c = length sent mod 2 ^ p" using multi_index(1) [OF ok] ok by (simp add: multi_ring_ok_def)
  have "unat (rb_high c + 1) = Suc (length sent)" using ok unat_Suc64 [of "rb_high c"] by (simp add: multi_ring_ok_def)
  moreover have "(rb_buffer c)[length sent mod 2 ^ p := m] ! (i mod 2 ^ p) = (sent @ [m]) ! i"
    if "length received \<le> i" "i < Suc (length sent)" for i
    using window_index_neq [of i "length sent" "length received" "2 ^ p"] ok room that
    by (cases "i = length sent") (auto simp: multi_ring_ok_def nth_append)
  ultimately show ?thesis using ok room by (simp add: multi_ring_ok_def idx)
qed

lemma multi_ring_take:
  assumes ok: "multi_ring_ok p k c sent received" and some: "length received < length sent"
  shows "rb_buffer c ! ring_index (rb_low c) c = sent ! length received"
    "multi_ring_ok p k (c\<lparr>rb_buffer := (rb_buffer c)[ring_index (rb_low c) c := NULL], rb_low := rb_low c + 1\<rparr>) sent
       (received @ [sent ! length received])"
proof -
  let ?L = "length received"
  have idx: "ring_index (rb_low c) c = ?L mod 2 ^ p" using multi_index(1) [OF ok] ok by (simp add: multi_ring_ok_def)
  show "rb_buffer c ! ring_index (rb_low c) c = sent ! ?L" using ok some by (simp add: multi_ring_ok_def idx)
  have "unat (rb_low c + 1) = Suc ?L" using ok some unat_Suc64 [of "rb_low c"] by (simp add: multi_ring_ok_def)
  moreover have "(rb_buffer c)[?L mod 2 ^ p := NULL] ! (i mod 2 ^ p) = sent ! i" if "Suc ?L \<le> i" "i < length sent" for i
    using window_index_neq [of i ?L ?L "2 ^ p"] ok that by (auto simp: multi_ring_ok_def)
  moreover have "received @ [sent ! ?L] = take (Suc ?L) sent"
    using ok some unfolding multi_ring_ok_def by (metis take_Suc_conv_app_nth)
  ultimately show "multi_ring_ok p k (c\<lparr>rb_buffer := (rb_buffer c)[ring_index (rb_low c) c := NULL], rb_low := rb_low c + 1\<rparr>) sent
       (received @ [sent ! ?L])"
    using ok some by (simp add: multi_ring_ok_def idx min_absorb2)
qed

lemma multi_ring_waiters [simp]: "multi_ring_ok p k (c\<lparr>mc_waiters := f\<rparr>) sent received = multi_ring_ok p k c sent received"
  by (simp add: multi_ring_ok_def)

lemma multi_ring_weaken: "multi_ring_ok p (Suc k) c sent received \<Longrightarrow> multi_ring_ok p k c sent received"
  by (simp add: multi_ring_ok_def)

lemma wake_inv: "multi_inv p k s \<Longrightarrow> multi_inv p k (fiber_multi_channel_internal_wake s)"
proof -
  assume inv: "multi_inv p k s"
  then obtain fs where fs: "waiters_ok (mc_waiters (mc_channel s)) (mc_scratch s) (mc_pc s) fs" by (auto simp: multi_inv_def)
  show ?thesis
  proof (cases fs)
    case Nil
    with fs inv show ?thesis by (simp add: fiber_multi_channel_internal_wake_def waiters_ok_def)
  next
    case (Cons f gs)
    with fs have "mc_waiters (mc_channel s) = f" "f \<noteq> NULL" by (auto simp: waiters_ok_def)
    with waiters_pop [of "mc_waiters (mc_channel s)" "mc_scratch s" "mc_pc s" f gs] fs Cons inv show ?thesis
      by (auto simp: fiber_multi_channel_internal_wake_def multi_inv_def Let_def)
  qed
qed

lemma wait_inv:
  assumes "multi_inv p k s" "\<not> waits (mc_pc s f)" "f \<noteq> NULL" "waits pc"
  shows "multi_inv p k (fiber_multi_channel_internal_wait f pc s)"
  using assms waiters_push [of _ _ "mc_pc s" _ f pc] by (auto simp: fiber_multi_channel_internal_wait_def multi_inv_def)

lemma multi_send_ok:
  assumes inv: "multi_inv p (Suc k) s" and pc: "mc_pc s f = M_Sending m" and f: "f \<noteq> NULL"
  shows "\<exists>s'. fiber_multi_channel_send f m s = Some s' \<and> multi_inv p k s'"
proof -
  have ok: "multi_ring_ok p (Suc k) (mc_channel s) (mc_sent s) (mc_received s)" using inv by (simp add: multi_inv_def)
  obtain fs where fs: "waiters_ok (mc_waiters (mc_channel s)) (mc_scratch s) (mc_pc s) fs" using inv by (auto simp: multi_inv_def)
  show ?thesis
  proof (cases "length (mc_sent s) < length (mc_received s) + 2 ^ p")
    case True
    have "waiters_ok (mc_waiters (mc_channel s)) (mc_scratch s) ((mc_pc s)(f := M_Idle)) fs"
      using fs pc by (intro waiters_move) auto
    then show ?thesis
      using True multi_room(1) [OF ok] multi_index(2) [OF ok] multi_ring_put [OF ok True, of m]
      by (auto simp: fiber_multi_channel_send_def Let_def intro!: wake_inv) (auto simp: multi_inv_def)
  next
    case False
    have "multi_inv p k s" using inv multi_ring_weaken by (auto simp: multi_inv_def)
    with False multi_room(1) [OF ok] wait_inv [of p k s f "M_Wait_Send m"] pc f show ?thesis
      by (simp add: fiber_multi_channel_send_def Let_def)
  qed
qed

lemma multi_receive_ok:
  assumes inv: "multi_inv p k s" and pc: "mc_pc s f = M_Receiving" and f: "f \<noteq> NULL"
  shows "\<exists>s'. fiber_multi_channel_receive f s = Some s' \<and> multi_inv p k s'"
proof -
  have ok: "multi_ring_ok p k (mc_channel s) (mc_sent s) (mc_received s)" using inv by (simp add: multi_inv_def)
  obtain fs where fs: "waiters_ok (mc_waiters (mc_channel s)) (mc_scratch s) (mc_pc s) fs" using inv by (auto simp: multi_inv_def)
  show ?thesis
  proof (cases "length (mc_received s) < length (mc_sent s)")
    case True
    have "waiters_ok (mc_waiters (mc_channel s)) (mc_scratch s) ((mc_pc s)(f := M_Idle)) fs"
      using fs pc by (intro waiters_move) auto
    then show ?thesis
      using True multi_room(2) [OF ok] multi_index(2) [OF ok] multi_ring_take [OF ok True]
      by (auto simp: fiber_multi_channel_receive_def Let_def intro!: wake_inv) (auto simp: multi_inv_def)
  next
    case False
    with inv multi_room(2) [OF ok] wait_inv [of p k s f M_Wait_Receive] pc f show ?thesis
      by (simp add: fiber_multi_channel_receive_def Let_def)
  qed
qed

interpretation multi: machine multi_step "\<lambda>a. multi_fiber a \<noteq> NULL" "multi_inv p" for p
proof (unfold_locales, goal_cases)
  case (1 k s a)
  then have inv': "multi_inv p k s" using multi_ring_weaken by (auto simp: multi_inv_def)
  have move: "multi_inv p k (s\<lparr>mc_pc := (mc_pc s)(f := pc)\<rparr>)" if "mc_pc s f = M_Idle" "\<not> waits pc" for f pc
    using inv' waiters_move [of _ _ "mc_pc s" _ pc f] that by (auto simp: multi_inv_def)
  show ?case
  proof (cases a)
    case (Mc_Run f)
    then show ?thesis
      using multi_send_ok [OF 1(1)] multi_receive_ok [OF inv'] inv' 1(2) by (cases "mc_pc s f") simp_all
  qed (use move inv' in simp_all)
qed

lemma multi_create_inv:
  assumes "p \<noteq> 0" "p < 32" "k < 2 ^ 64"
  shows "\<exists>c. fiber_multi_channel_create p True True = Some (Some c) \<and> multi_inv (unat p) k (multi_sys_init c)"
proof -
  have n: "unat p < 32" using assms(2) by (simp add: word_less_nat_alt)
  have size: "unat (2 ^ unat p :: 32 word) = 2 ^ unat p" by (rule unat_two_power [OF n])
  then have m1: "unat (2 ^ unat p - 1 :: 32 word) = 2 ^ unat p - 1" by (simp add: unat_sub word_le_nat_alt)
  have "waiters_ok NULL (\<lambda>_. NULL) (\<lambda>_. M_Idle) []" by (simp add: waiters_ok_def)
  then show ?thesis
    using assms size m1
    by (auto simp: fiber_multi_channel_create_def Let_def multi_inv_def multi_ring_ok_def multi_sys_init_def)
qed

section \<open>Properties\<close>

text \<open>C33. Any number of senders and receivers in any order of their critical sections, from a channel as created:
  no step faults, the messages are received in the order in which they were sent, without loss or
  duplication, at most \<open>2 ^ p\<close> are under way, and the fibers that wait are exactly those of the stack
  of waiters, each of them once.\<close>

theorem multi_channel_fifo:
  assumes "p \<noteq> 0" "p < 32" "length acts < 2 ^ 64" "\<forall>a \<in> set acts. multi_fiber a \<noteq> NULL"
  shows "\<exists>c s fs. fiber_multi_channel_create p True True = Some (Some c) \<and> multi_run acts (multi_sys_init c) = Some s \<and>
     prefix (mc_received s) (mc_sent s) \<and> length (mc_sent s) \<le> length (mc_received s) + 2 ^ unat p \<and>
     waiters_ok (mc_waiters (mc_channel s)) (mc_scratch s) (mc_pc s) fs"
proof -
  obtain c where c: "fiber_multi_channel_create p True True = Some (Some c)" "multi_inv (unat p) (length acts) (multi_sys_init c)"
    using multi_create_inv [OF assms(1-3)] by blast
  obtain s where s: "multi_run acts (multi_sys_init c) = Some s" "multi_inv (unat p) 0 s"
    using multi.run_ok [OF c(2) assms(4)] by blast
  have "prefix (mc_received s) (mc_sent s)"
    using s(2) unfolding multi_inv_def multi_ring_ok_def by (metis take_is_prefix)
  with c(1) s show ?thesis by (auto simp: multi_inv_def multi_ring_ok_def)
qed

theorem multi_channel_fifo_witness:
  "\<exists>c s fs. fiber_multi_channel_create 1 True True = Some (Some c) \<and>
     multi_run [Mc_Receive 1, Mc_Run 1, Mc_Send 2 5, Mc_Run 2, Mc_Run 1] (multi_sys_init c) = Some s \<and>
     prefix (mc_received s) (mc_sent s) \<and> length (mc_sent s) \<le> length (mc_received s) + 2 ^ unat (1 :: 32 word) \<and>
     waiters_ok (mc_waiters (mc_channel s)) (mc_scratch s) (mc_pc s) fs"
  by (rule multi_channel_fifo) simp_all


end
