(* ===== verification/Multi_Signal.thy ===== *)
theory Multi_Signal
  imports Fiber_Types
begin

text \<open>
  \<open>fiber_multi_signal_t\<close> of \<open>include/fiber_signal.h\<close>: any number of fibers wait and raise.  The
  signal is a counter and a head that are replaced by one double-word compare-exchange; the head is
  empty, raised, or the newest waiter.  A waiter lends its queue node to the signal and gets the
  same node back, so a node is named by its fiber; \<open>mu_next\<close> is the field \<open>next\<close> of the nodes.
  Nodes stay mapped, as the comment in \<open>fiber_multi_signal_raise\<close> requires.  A fiber is put into a
  run queue only when its context is saved; anything else is a fault.  \<open>mu_raised\<close> counts the
  raises that found no waiter, \<open>mu_accepted\<close> the waits that ended at once because of one.
\<close>

datatype multi_head = Mh_None | Mh_Raised | Mh_Waiter nat

record fiber_multi_signal =
  mu_counter :: "64 word"
  mu_head :: multi_head

datatype mu_pc =
    Mu_Idle
  | Mw_Counter
  | Mw_Head "64 word"
  | Mw_Accept fiber_multi_signal
  | Mw_Link fiber_multi_signal
  | Mw_Push fiber_multi_signal
  | Mw_State
  | Mw_Switch
  | Mw_Maintenance
  | Mw_Asleep
  | Mw_Resumed
  | Mr_Counter bool
  | Mr_Head bool "64 word"
  | Mr_Raise fiber_multi_signal
  | Mr_Next bool fiber_multi_signal nat
  | Mr_Pop bool fiber_multi_signal nat multi_head
  | Mr_Spin nat
  | Mr_Wake nat

record mu_sys =
  mu_signal :: fiber_multi_signal
  mu_next :: "nat \<Rightarrow> multi_head"
  mu_ready :: "nat \<Rightarrow> bool"
  mu_state :: "nat \<Rightarrow> fiber_state"
  mu_saved :: "nat \<Rightarrow> bool"
  mu_queued :: "nat \<Rightarrow> bool"
  mu_pcs :: "nat \<Rightarrow> mu_pc"
  mu_raised :: nat
  mu_accepted :: nat

definition fiber_multi_signal_init :: mu_sys where
  "fiber_multi_signal_init =
     \<lparr>mu_signal = \<lparr>mu_counter = 0, mu_head = Mh_None\<rparr>, mu_next = (\<lambda>_. Mh_None), mu_ready = (\<lambda>_. False),
      mu_state = (\<lambda>_. FIBER_STATE_RUNNING), mu_saved = (\<lambda>_. False), mu_queued = (\<lambda>_. False), mu_pcs = (\<lambda>_. Mu_Idle),
      mu_raised = 0, mu_accepted = 0\<rparr>"

definition mu_cas :: "fiber_multi_signal \<Rightarrow> multi_head \<Rightarrow> mu_sys \<Rightarrow> mu_sys \<times> bool" where
  "mu_cas snapshot new_head s =
     (let (x, ok) = compare_and_swap2 (mu_signal s) snapshot \<lparr>mu_counter = mu_counter snapshot + 1, mu_head = new_head\<rparr>
      in (s\<lparr>mu_signal := x\<rparr>, ok))"

section \<open>Waiting\<close>

definition mu_goto :: "nat \<Rightarrow> mu_pc \<Rightarrow> mu_sys \<Rightarrow> mu_sys" where
  "mu_goto t pc s = s\<lparr>mu_pcs := (mu_pcs s)(t := pc)\<rparr>"

definition fiber_multi_signal_wait_step :: "nat \<Rightarrow> mu_sys \<Rightarrow> mu_sys option" where
  "fiber_multi_signal_wait_step t s =
     (case mu_pcs s t of
        Mw_Counter \<Rightarrow> Some (mu_goto t (Mw_Head (mu_counter (mu_signal s))) s)
      | Mw_Head c \<Rightarrow>
          (let snapshot = \<lparr>mu_counter = c, mu_head = mu_head (mu_signal s)\<rparr>
           in Some (mu_goto t (if mu_head snapshot = Mh_Raised then Mw_Accept snapshot else Mw_Link snapshot) s))
      | Mw_Accept snapshot \<Rightarrow>
          (case mu_cas snapshot Mh_None s of
             (s', ok) \<Rightarrow> Some (if ok then mu_goto t Mu_Idle (s'\<lparr>mu_accepted := mu_accepted s + 1\<rparr>) else mu_goto t Mw_Counter s'))
      | Mw_Link snapshot \<Rightarrow> Some (mu_goto t (Mw_Push snapshot) (s\<lparr>mu_next := (mu_next s)(t := mu_head snapshot)\<rparr>))
      | Mw_Push snapshot \<Rightarrow>
          (case mu_cas snapshot (Mh_Waiter t) s of (s', ok) \<Rightarrow> Some (mu_goto t (if ok then Mw_State else Mw_Counter) s'))
      | Mw_State \<Rightarrow>
          if mu_state s t = FIBER_STATE_RUNNING
          then Some (mu_goto t Mw_Switch (s\<lparr>mu_state := (mu_state s)(t := FIBER_STATE_WAITING)\<rparr>)) else None
      | Mw_Switch \<Rightarrow> Some (mu_goto t Mw_Maintenance (s\<lparr>mu_saved := (mu_saved s)(t := True)\<rparr>))
      | Mw_Maintenance \<Rightarrow> Some (mu_goto t Mw_Asleep (s\<lparr>mu_ready := (mu_ready s)(t := True)\<rparr>))
      | Mw_Asleep \<Rightarrow>
          if mu_queued s t
          then Some (mu_goto t Mw_Resumed
                 (s\<lparr>mu_queued := (mu_queued s)(t := False), mu_saved := (mu_saved s)(t := False),
                    mu_state := (mu_state s)(t := FIBER_STATE_RUNNING)\<rparr>))
          else Some s
      | Mw_Resumed \<Rightarrow> Some (mu_goto t Mu_Idle (s\<lparr>mu_ready := (mu_ready s)(t := False)\<rparr>))
      | _ \<Rightarrow> Some s)"

section \<open>Raising\<close>

text \<open>\<open>fiber_multi_signal_raise\<close>, and with \<open>strict\<close> the variant that waits for a waiter.\<close>

definition fiber_multi_signal_raise_step :: "nat \<Rightarrow> mu_sys \<Rightarrow> mu_sys option" where
  "fiber_multi_signal_raise_step t s =
     (case mu_pcs s t of
        Mr_Counter strict \<Rightarrow> Some (mu_goto t (Mr_Head strict (mu_counter (mu_signal s))) s)
      | Mr_Head strict c \<Rightarrow>
          (let snapshot = \<lparr>mu_counter = c, mu_head = mu_head (mu_signal s)\<rparr>
           in Some (mu_goto t
                (case mu_head snapshot of
                   Mh_Waiter f \<Rightarrow> Mr_Next strict snapshot f
                 | _ \<Rightarrow> if strict then Mr_Counter True else Mr_Raise snapshot) s))
      | Mr_Raise snapshot \<Rightarrow>
          (case mu_cas snapshot Mh_Raised s of
             (s', ok) \<Rightarrow> Some (if ok then mu_goto t Mu_Idle (s'\<lparr>mu_raised := mu_raised s + 1\<rparr>) else mu_goto t (Mr_Counter False) s'))
      | Mr_Next strict snapshot f \<Rightarrow> Some (mu_goto t (Mr_Pop strict snapshot f (mu_next s f)) s)
      | Mr_Pop strict snapshot f nx \<Rightarrow>
          (case mu_cas snapshot nx s of
             (s', ok) \<Rightarrow> Some (if ok then mu_goto t (Mr_Spin f) s' else mu_goto t (Mr_Counter strict) s'))
      | Mr_Spin f \<Rightarrow> Some (if mu_ready s f then mu_goto t (Mr_Wake f) s else s)
      | Mr_Wake f \<Rightarrow>
          if mu_saved s f \<and> \<not> mu_queued s f
          then Some (mu_goto t Mu_Idle
                 (s\<lparr>mu_state := (mu_state s)(f := FIBER_STATE_READY), mu_queued := (mu_queued s)(f := True)\<rparr>))
          else None
      | _ \<Rightarrow> Some s)"

datatype mu_act = Mu_Wait nat | Mu_Raise bool nat | Mu_Step nat

fun waiting_pc :: "mu_pc \<Rightarrow> bool" where
  "waiting_pc Mw_Counter = True" | "waiting_pc (Mw_Head c) = True" | "waiting_pc (Mw_Accept x) = True" | "waiting_pc (Mw_Link x) = True"
| "waiting_pc (Mw_Push x) = True" | "waiting_pc Mw_State = True" | "waiting_pc Mw_Switch = True" | "waiting_pc Mw_Maintenance = True"
| "waiting_pc Mw_Asleep = True" | "waiting_pc Mw_Resumed = True" | "waiting_pc _ = False"

fun mu_step :: "mu_act \<Rightarrow> mu_sys \<Rightarrow> mu_sys option" where
  "mu_step (Mu_Wait t) s = Some (if mu_pcs s t = Mu_Idle then mu_goto t Mw_Counter (s\<lparr>mu_ready := (mu_ready s)(t := False)\<rparr>) else s)"
| "mu_step (Mu_Raise strict t) s = Some (if mu_pcs s t = Mu_Idle then mu_goto t (Mr_Counter strict) s else s)"
| "mu_step (Mu_Step t) s = (if waiting_pc (mu_pcs s t) then fiber_multi_signal_wait_step t s else fiber_multi_signal_raise_step t s)"

abbreviation mu_run :: "mu_act list \<Rightarrow> mu_sys \<Rightarrow> mu_sys option" where
  "mu_run \<equiv> run_steps mu_step"

section \<open>The invariant\<close>

text \<open>The waiters from the head on.\<close>

fun waiter_chain :: "(nat \<Rightarrow> multi_head) \<Rightarrow> multi_head \<Rightarrow> nat list \<Rightarrow> bool" where
  "waiter_chain nx h [] \<longleftrightarrow> h = Mh_None \<or> h = Mh_Raised"
| "waiter_chain nx h (f # fs) \<longleftrightarrow> h = Mh_Waiter f \<and> waiter_chain nx (nx f) fs \<and> nx f \<noteq> Mh_Raised"

fun target :: "mu_pc \<Rightarrow> nat option" where
  "target (Mr_Spin f) = Some f" | "target (Mr_Wake f) = Some f" | "target _ = None"

fun asleep :: "mu_pc \<Rightarrow> bool" where
  "asleep Mw_State = True" | "asleep Mw_Switch = True" | "asleep Mw_Maintenance = True" | "asleep Mw_Asleep = True"
| "asleep _ = False"

definition snap_ok :: "fiber_multi_signal \<Rightarrow> fiber_multi_signal \<Rightarrow> bool" where
  "snap_ok x snap \<longleftrightarrow> unat (mu_counter snap) \<le> unat (mu_counter x) \<and> (mu_counter snap = mu_counter x \<longrightarrow> snap = x)"

fun mu_pc_ok :: "mu_sys \<Rightarrow> nat \<Rightarrow> mu_pc \<Rightarrow> bool" where
  "mu_pc_ok s t (Mw_Accept snap) \<longleftrightarrow> mu_head snap = Mh_Raised"
| "mu_pc_ok s t (Mw_Link snap) \<longleftrightarrow> mu_head snap \<noteq> Mh_Raised"
| "mu_pc_ok s t (Mw_Push snap) \<longleftrightarrow> mu_head snap \<noteq> Mh_Raised \<and> mu_next s t = mu_head snap"
| "mu_pc_ok s t (Mr_Head b c) \<longleftrightarrow> unat c \<le> unat (mu_counter (mu_signal s))"
| "mu_pc_ok s t (Mr_Raise snap) \<longleftrightarrow> mu_head snap = Mh_None \<or> mu_head snap = Mh_Raised"
| "mu_pc_ok s t (Mr_Next b snap f) \<longleftrightarrow> mu_head snap = Mh_Waiter f \<and> snap_ok (mu_signal s) snap"
| "mu_pc_ok s t (Mr_Pop b snap f nx) \<longleftrightarrow>
     mu_head snap = Mh_Waiter f \<and> snap_ok (mu_signal s) snap \<and> (snap = mu_signal s \<longrightarrow> nx = mu_next s f)"
| "mu_pc_ok s t (Mr_Wake f) \<longleftrightarrow> mu_ready s f"
| "mu_pc_ok s t pc \<longleftrightarrow> True"

text \<open>The flags of a fiber agree with its position.\<close>

definition fiber_ok :: "mu_sys \<Rightarrow> nat \<Rightarrow> bool" where
  "fiber_ok s t \<longleftrightarrow>
     (let pc = mu_pcs s t in
      (mu_ready s t \<longleftrightarrow> pc = Mw_Asleep \<or> pc = Mw_Resumed) \<and>
      (mu_saved s t \<longleftrightarrow> pc = Mw_Maintenance \<or> pc = Mw_Asleep) \<and>
      (mu_state s t = FIBER_STATE_RUNNING \<longleftrightarrow> pc \<noteq> Mw_Switch \<and> pc \<noteq> Mw_Maintenance \<and> pc \<noteq> Mw_Asleep) \<and>
      (mu_queued s t \<longrightarrow> pc = Mw_Asleep))"

text \<open>Every fiber that sleeps is in exactly one place.\<close>

definition places_ok :: "mu_sys \<Rightarrow> nat list \<Rightarrow> bool" where
  "places_ok s ws \<longleftrightarrow>
     (\<forall>t. asleep (mu_pcs s t) \<longleftrightarrow> t \<in> set ws \<or> (\<exists>u. target (mu_pcs s u) = Some t) \<or> mu_queued s t) \<and>
     (\<forall>t \<in> set ws. \<not> mu_queued s t \<and> (\<forall>u. target (mu_pcs s u) \<noteq> Some t)) \<and>
     (\<forall>t u v. target (mu_pcs s u) = Some t \<longrightarrow> target (mu_pcs s v) = Some t \<longrightarrow> u = v) \<and>
     (\<forall>t u. target (mu_pcs s u) = Some t \<longrightarrow> \<not> mu_queued s t)"

definition mu_inv :: "nat \<Rightarrow> mu_sys \<Rightarrow> bool" where
  "mu_inv k s \<longleftrightarrow>
     unat (mu_counter (mu_signal s)) + k < 2 ^ 64 \<and>
     (\<exists>ws. waiter_chain (mu_next s) (mu_head (mu_signal s)) ws \<and> distinct ws \<and> places_ok s ws) \<and>
     (\<forall>t. fiber_ok s t) \<and> (\<forall>t. mu_pc_ok s t (mu_pcs s t)) \<and>
     mu_accepted s + (if mu_head (mu_signal s) = Mh_Raised then 1 else 0) \<le> mu_raised s"

lemma waiter_chain_upd: "t \<notin> set ws \<Longrightarrow> waiter_chain (nx(t := x)) h ws = waiter_chain nx h ws"
  by (induction ws arbitrary: h) auto

lemma mu_inv_weaken: "mu_inv (Suc k) s \<Longrightarrow> mu_inv k s"
  by (auto simp: mu_inv_def)

lemma snap_ok_refl [simp]: "snap_ok x x"
  by (simp add: snap_ok_def)

lemma snap_ok_read: "unat c \<le> unat (mu_counter x) \<Longrightarrow> snap_ok x \<lparr>mu_counter = c, mu_head = mu_head x\<rparr>"
  by (cases x) (auto simp: snap_ok_def)

text \<open>After a compare-exchange every snapshot is out of date.\<close>

lemma snap_ok_bump:
  assumes "snap_ok x snap" "Suc (unat (mu_counter x)) < 2 ^ 64"
  shows "snap_ok \<lparr>mu_counter = mu_counter x + 1, mu_head = h\<rparr> snap" "snap \<noteq> \<lparr>mu_counter = mu_counter x + 1, mu_head = h\<rparr>"
proof -
  have "unat (mu_counter x + 1) = Suc (unat (mu_counter x))" using unat_Suc64 [OF assms(2)] .
  then have "unat (mu_counter snap) < unat (mu_counter x + 1)" using assms(1) by (simp add: snap_ok_def)
  then show "snap_ok \<lparr>mu_counter = mu_counter x + 1, mu_head = h\<rparr> snap" "snap \<noteq> \<lparr>mu_counter = mu_counter x + 1, mu_head = h\<rparr>"
    by (auto simp: snap_ok_def)
qed

text \<open>A thread moves without changing anything else.\<close>

lemma mu_move:
  assumes inv: "mu_inv k s" and t: "target pc = target (mu_pcs s t)" "asleep pc = asleep (mu_pcs s t)"
    and ok: "mu_pc_ok s t pc" and fl: "fiber_ok (mu_goto t pc s) t"
  shows "mu_inv k (mu_goto t pc s)"
proof -
  have tg: "target (mu_pcs (mu_goto t pc s) u) = target (mu_pcs s u)" "asleep (mu_pcs (mu_goto t pc s) u) = asleep (mu_pcs s u)" for u
    using t by (auto simp: mu_goto_def)
  have "mu_pc_ok (mu_goto t pc s) u q = mu_pc_ok s u q" for u q by (cases q) (auto simp: mu_goto_def)
  moreover have "fiber_ok (mu_goto t pc s) u" for u using inv fl by (cases "u = t") (auto simp: mu_inv_def fiber_ok_def mu_goto_def)
  moreover have "places_ok (mu_goto t pc s) ws = places_ok s ws" for ws unfolding places_ok_def tg by (simp add: mu_goto_def)
  moreover have "mu_pc_ok s u (mu_pcs (mu_goto t pc s) u)" for u using inv ok by (cases "u = t") (auto simp: mu_inv_def mu_goto_def)
  moreover have "mu_signal (mu_goto t pc s) = mu_signal s" "mu_next (mu_goto t pc s) = mu_next s"
    "mu_accepted (mu_goto t pc s) = mu_accepted s" "mu_raised (mu_goto t pc s) = mu_raised s" by (simp_all add: mu_goto_def)
  ultimately show ?thesis using inv by (simp add: mu_inv_def)
qed

lemma mu_cas_fails: "mu_signal s \<noteq> snap \<Longrightarrow> mu_cas snap h s = (s, False)"
  by (simp add: mu_cas_def compare_and_swap2_def)

lemma mu_cas_ok: "mu_signal s = snap \<Longrightarrow> mu_cas snap h s = (s\<lparr>mu_signal := \<lparr>mu_counter = mu_counter snap + 1, mu_head = h\<rparr>\<rparr>, True)"
  by (simp add: mu_cas_def compare_and_swap2_def)

text \<open>A successful compare-exchange by thread \<open>t\<close>, which moves to \<open>pc\<close>; the new waiters are \<open>ws'\<close>.\<close>

lemma mu_swap:
  fixes a r :: nat
  assumes inv: "mu_inv (Suc k) s" and chain: "waiter_chain (mu_next s) h ws'" "distinct ws'"
    and pc: "\<And>s. mu_pc_ok s t pc"
  defines "s' \<equiv> (mu_goto t pc s)\<lparr>mu_signal := \<lparr>mu_counter = mu_counter (mu_signal s) + 1, mu_head = h\<rparr>,
     mu_accepted := a, mu_raised := r\<rparr>"
  assumes places: "places_ok s' ws'" and fl: "fiber_ok s' t" and cnt: "a + (if h = Mh_Raised then 1 else 0) \<le> r"
  shows "mu_inv k s'"
proof -
  have b: "Suc (unat (mu_counter (mu_signal s))) < 2 ^ 64" using inv by (simp add: mu_inv_def)
  have bump: "unat (mu_counter (mu_signal s) + 1) = Suc (unat (mu_counter (mu_signal s)))" using unat_Suc64 [OF b] .
  have "mu_pc_ok s' u (mu_pcs s' u)" for u
  proof (cases "u = t")
    case False
    then have "mu_pc_ok s u (mu_pcs s u)" "mu_pcs s' u = mu_pcs s u" using inv by (simp_all add: mu_inv_def s'_def mu_goto_def)
    then show ?thesis
      using snap_ok_bump [OF _ b] bump by (cases "mu_pcs s u") (auto simp: s'_def mu_goto_def)
  qed (use pc in \<open>simp add: s'_def mu_goto_def\<close>)
  moreover have "fiber_ok s' u" for u using inv fl by (cases "u = t") (auto simp: mu_inv_def fiber_ok_def s'_def mu_goto_def)
  ultimately show ?thesis
    using inv chain places cnt bump by (auto simp: mu_inv_def s'_def mu_goto_def)
qed

text \<open>A step that leaves the signal and the nodes alone.\<close>

lemma mu_local:
  assumes inv: "mu_inv k s"
    and same: "mu_signal s' = mu_signal s" "mu_next s' = mu_next s" "mu_accepted s' = mu_accepted s" "mu_raised s' = mu_raised s"
    and pcs: "\<And>u. u \<noteq> t \<Longrightarrow> mu_pcs s' u = mu_pcs s u" and ok: "mu_pc_ok s' t (mu_pcs s' t)"
    and ready: "\<And>u f. mu_pcs s u = Mr_Wake f \<Longrightarrow> mu_ready s f \<Longrightarrow> mu_ready s' f"
    and fl: "\<And>u. fiber_ok s' u" and places: "\<And>ws. places_ok s ws \<Longrightarrow> places_ok s' ws"
  shows "mu_inv k s'"
proof -
  have "mu_pc_ok s' u (mu_pcs s' u)" for u
  proof (cases "u = t")
    case False
    have "mu_pc_ok s u (mu_pcs s u)" using inv by (simp add: mu_inv_def)
    with False pcs same ready [of u] show ?thesis by (cases "mu_pcs s u") simp_all
  qed (use ok in simp)
  with inv same fl places show ?thesis by (auto simp: mu_inv_def)
qed

lemma mu_places:
  assumes "mu_inv k s"
  obtains ws where "waiter_chain (mu_next s) (mu_head (mu_signal s)) ws" "distinct ws" "places_ok s ws"
  using assms by (auto simp: mu_inv_def)

lemma mu_fiber: "mu_inv k s \<Longrightarrow> fiber_ok s t"
  by (simp add: mu_inv_def)

lemma mu_pc: "mu_inv k s \<Longrightarrow> mu_pc_ok s t (mu_pcs s t)"
  by (simp add: mu_inv_def)

lemma places_awake: "places_ok s ws \<Longrightarrow> \<not> asleep (mu_pcs s t) \<Longrightarrow> t \<notin> set ws \<and> target (mu_pcs s u) \<noteq> Some t \<and> \<not> mu_queued s t"
  unfolding places_ok_def by metis

lemma mu_awake: "mu_inv k s \<Longrightarrow> \<not> asleep (mu_pcs s t) \<Longrightarrow> target (mu_pcs s u) \<noteq> Some t \<and> \<not> mu_queued s t"
  by (metis mu_places places_awake)

text \<open>The positions of a fiber are what \<open>places_ok\<close> reads.\<close>

lemma places_cong:
  assumes "places_ok s ws" "\<And>u. target (mu_pcs s' u) = target (mu_pcs s u)" "\<And>u. asleep (mu_pcs s' u) = asleep (mu_pcs s u)"
    "mu_queued s' = mu_queued s"
  shows "places_ok s' ws"
  using assms(1) unfolding places_ok_def assms(2,3,4) .

lemma wait_flags_ok:
  assumes inv: "mu_inv k s" and pc: "mu_pcs s t \<in> {Mw_State, Mw_Switch, Mw_Maintenance, Mw_Resumed}"
  shows "\<exists>s'. fiber_multi_signal_wait_step t s = Some s' \<and> mu_inv k s'"
proof -
  note fo = mu_fiber [OF inv]
  have other: "fiber_ok s' u" if "u \<noteq> t" "mu_pcs s' u = mu_pcs s u" "mu_ready s' u = mu_ready s u" "mu_state s' u = mu_state s u"
      "mu_saved s' u = mu_saved s u" "mu_queued s' u = mu_queued s u" for s' u
    using fo [of u] that by (simp add: fiber_ok_def)
  consider "mu_pcs s t = Mw_State" | "mu_pcs s t = Mw_Switch" | "mu_pcs s t = Mw_Maintenance" | "mu_pcs s t = Mw_Resumed"
    using pc by blast
  then show ?thesis
  proof cases
    case 1
    let ?s = "mu_goto t Mw_Switch (s\<lparr>mu_state := (mu_state s)(t := FIBER_STATE_WAITING)\<rparr>)"
    have "fiber_ok ?s u" for u using other [of u ?s] fo [of t] 1 by (cases "u = t") (auto simp: mu_goto_def fiber_ok_def)
    then have "mu_inv k ?s"
      using 1 by (intro mu_local [OF inv, where t = t]) (auto simp: mu_goto_def elim!: places_cong split: if_splits)
    then show ?thesis using 1 fo [of t] by (simp add: fiber_multi_signal_wait_step_def fiber_ok_def Let_def)
  next
    case 2
    let ?s = "mu_goto t Mw_Maintenance (s\<lparr>mu_saved := (mu_saved s)(t := True)\<rparr>)"
    have "fiber_ok ?s u" for u using other [of u ?s] fo [of t] 2 by (cases "u = t") (auto simp: mu_goto_def fiber_ok_def)
    then have "mu_inv k ?s"
      using 2 by (intro mu_local [OF inv, where t = t]) (auto simp: mu_goto_def elim!: places_cong split: if_splits)
    then show ?thesis using 2 by (simp add: fiber_multi_signal_wait_step_def)
  next
    case 3
    let ?s = "mu_goto t Mw_Asleep (s\<lparr>mu_ready := (mu_ready s)(t := True)\<rparr>)"
    have "fiber_ok ?s u" for u using other [of u ?s] fo [of t] 3 by (cases "u = t") (auto simp: mu_goto_def fiber_ok_def)
    then have "mu_inv k ?s"
      using 3 by (intro mu_local [OF inv, where t = t]) (auto simp: mu_goto_def elim!: places_cong split: if_splits)
    then show ?thesis using 3 by (simp add: fiber_multi_signal_wait_step_def)
  next
    case 4
    let ?s = "mu_goto t Mu_Idle (s\<lparr>mu_ready := (mu_ready s)(t := False)\<rparr>)"
    have "fiber_ok ?s u" for u using other [of u ?s] fo [of t] 4 by (cases "u = t") (auto simp: mu_goto_def fiber_ok_def)
    moreover have "mu_pcs s u \<noteq> Mr_Wake t" for u
      using mu_awake [OF inv, of t u] 4 by auto
    ultimately have "mu_inv k ?s"
      using 4 by (intro mu_local [OF inv, where t = t]) (auto simp: mu_goto_def elim!: places_cong split: if_splits)
    then show ?thesis using 4 by (simp add: fiber_multi_signal_wait_step_def)
  qed
qed

lemma wait_resume_ok:
  assumes inv: "mu_inv k s" and pc: "mu_pcs s t = Mw_Asleep" and q: "mu_queued s t"
  shows "mu_inv k (mu_goto t Mw_Resumed (s\<lparr>mu_queued := (mu_queued s)(t := False), mu_saved := (mu_saved s)(t := False),
                    mu_state := (mu_state s)(t := FIBER_STATE_RUNNING)\<rparr>))" (is "mu_inv k ?s")
proof (rule mu_local [OF inv, where t = t])
  note fo = mu_fiber [OF inv]
  show "fiber_ok ?s u" for u using fo [of u] pc by (cases "u = t") (auto simp: mu_goto_def fiber_ok_def Let_def)
  fix ws assume p: "places_ok s ws"
  have "t \<notin> set ws" "target (mu_pcs s u) \<noteq> Some t" for u using p q unfolding places_ok_def by metis+
  moreover have "target (mu_pcs ?s u) = target (mu_pcs s u)" for u using pc by (simp add: mu_goto_def)
  ultimately show "places_ok ?s ws"
    using p unfolding places_ok_def by (auto simp: mu_goto_def)
qed (simp_all add: mu_goto_def)

lemma wait_link_ok:
  assumes inv: "mu_inv k s" and pc: "mu_pcs s t = Mw_Link snap"
  shows "mu_inv k (mu_goto t (Mw_Push snap) (s\<lparr>mu_next := (mu_next s)(t := mu_head snap)\<rparr>))" (is "mu_inv k ?s")
proof -
  obtain ws where ws: "waiter_chain (mu_next s) (mu_head (mu_signal s)) ws" "distinct ws" "places_ok s ws"
    using mu_places [OF inv] .
  have t: "t \<notin> set ws" using places_awake [OF ws(3), of t] pc by simp
  have head: "mu_head (mu_signal s) \<noteq> Mh_Waiter t" using ws(1) t by (cases ws) auto
  have "mu_pc_ok ?s u (mu_pcs ?s u)" for u
    using mu_pc [OF inv, of u] mu_pc [OF inv, of t] pc head
    by (cases "mu_pcs s u"; cases "u = t") (auto simp: mu_goto_def)
  moreover have "places_ok ?s ws"
    using pc by (intro places_cong [OF ws(3)]) (auto simp: mu_goto_def split: if_splits)
  moreover have "fiber_ok ?s u" for u using mu_fiber [OF inv, of u] pc by (cases "u = t") (auto simp: mu_goto_def fiber_ok_def Let_def)
  moreover have "waiter_chain (mu_next ?s) (mu_head (mu_signal ?s)) ws" using ws(1) waiter_chain_upd [OF t] by (simp add: mu_goto_def)
  moreover have "mu_signal ?s = mu_signal s" "mu_accepted ?s = mu_accepted s" "mu_raised ?s = mu_raised s" by (simp_all add: mu_goto_def)
  ultimately show ?thesis using inv ws(2) unfolding mu_inv_def by auto
qed

lemma wait_push_ok:
  assumes inv: "mu_inv (Suc k) s" and pc: "mu_pcs s t = Mw_Push (mu_signal s)"
  shows "mu_inv k (mu_goto t Mw_State (s\<lparr>mu_signal := \<lparr>mu_counter = mu_counter (mu_signal s) + 1, mu_head = Mh_Waiter t\<rparr>\<rparr>))" (is "mu_inv k ?s")
proof -
  obtain ws where ws: "waiter_chain (mu_next s) (mu_head (mu_signal s)) ws" "distinct ws" "places_ok s ws"
    using mu_places [OF inv] .
  have t: "t \<notin> set ws" "\<not> mu_queued s t" "target (mu_pcs s u) \<noteq> Some t" for u using places_awake [OF ws(3), of t u] pc by simp_all
  have nx: "mu_next s t = mu_head (mu_signal s)" "mu_head (mu_signal s) \<noteq> Mh_Raised" using mu_pc [OF inv, of t] pc by simp_all
  have tg: "target (mu_pcs ?s u) = target (mu_pcs s u)" for u using pc by (simp add: mu_goto_def)
  have as: "asleep (mu_pcs ?s u) = (asleep (mu_pcs s u) \<or> u = t)" for u by (simp add: mu_goto_def)
  have "places_ok ?s (t # ws)"
    using ws(3) t unfolding places_ok_def tg as by (auto simp: mu_goto_def)
  moreover have "fiber_ok ?s t" using mu_fiber [OF inv, of t] pc by (auto simp: mu_goto_def fiber_ok_def Let_def)
  moreover have eq: "?s = (mu_goto t Mw_State s)\<lparr>mu_signal := \<lparr>mu_counter = mu_counter (mu_signal s) + 1, mu_head = Mh_Waiter t\<rparr>,
      mu_accepted := mu_accepted s, mu_raised := mu_raised s\<rparr>" by (simp add: mu_goto_def)
  ultimately show ?thesis
    unfolding eq using ws nx t(1) inv by (intro mu_swap [OF inv, where ws' = "t # ws"]) (auto simp: mu_inv_def)
qed

lemma wait_accept_ok:
  assumes inv: "mu_inv (Suc k) s" and pc: "mu_pcs s t = Mw_Accept (mu_signal s)"
  shows "mu_inv k (mu_goto t Mu_Idle (s\<lparr>mu_signal := \<lparr>mu_counter = mu_counter (mu_signal s) + 1, mu_head = Mh_None\<rparr>,
     mu_accepted := mu_accepted s + 1\<rparr>))" (is "mu_inv k ?s")
proof -
  obtain ws where ws: "waiter_chain (mu_next s) (mu_head (mu_signal s)) ws" "distinct ws" "places_ok s ws"
    using mu_places [OF inv] .
  have h: "mu_head (mu_signal s) = Mh_Raised" using mu_pc [OF inv, of t] pc by simp
  then have "ws = []" using ws(1) by (cases ws) auto
  then have "places_ok ?s []" using pc ws(3) by (rule_tac places_cong [of s]) (auto simp: mu_goto_def split: if_splits)
  moreover have "fiber_ok ?s t" using mu_fiber [OF inv, of t] pc by (auto simp: mu_goto_def fiber_ok_def Let_def)
  moreover have eq: "?s = (mu_goto t Mu_Idle s)\<lparr>mu_signal := \<lparr>mu_counter = mu_counter (mu_signal s) + 1, mu_head = Mh_None\<rparr>,
      mu_accepted := mu_accepted s + 1, mu_raised := mu_raised s\<rparr>" by (simp add: mu_goto_def)
  ultimately show ?thesis
    unfolding eq using h inv by (intro mu_swap [OF inv, where ws' = "[]"]) (auto simp: mu_inv_def)
qed

lemma raise_raise_ok:
  assumes inv: "mu_inv (Suc k) s" and pc: "mu_pcs s t = Mr_Raise (mu_signal s)"
  shows "mu_inv k (mu_goto t Mu_Idle (s\<lparr>mu_signal := \<lparr>mu_counter = mu_counter (mu_signal s) + 1, mu_head = Mh_Raised\<rparr>,
     mu_raised := mu_raised s + 1\<rparr>))" (is "mu_inv k ?s")
proof -
  obtain ws where ws: "waiter_chain (mu_next s) (mu_head (mu_signal s)) ws" "distinct ws" "places_ok s ws"
    using mu_places [OF inv] .
  have h: "mu_head (mu_signal s) = Mh_None \<or> mu_head (mu_signal s) = Mh_Raised" using mu_pc [OF inv, of t] pc by simp
  then have "ws = []" using ws(1) by (cases ws) auto
  then have "places_ok ?s []" using pc ws(3) by (rule_tac places_cong [of s]) (auto simp: mu_goto_def split: if_splits)
  moreover have "fiber_ok ?s t" using mu_fiber [OF inv, of t] pc by (auto simp: mu_goto_def fiber_ok_def Let_def)
  moreover have eq: "?s = (mu_goto t Mu_Idle s)\<lparr>mu_signal := \<lparr>mu_counter = mu_counter (mu_signal s) + 1, mu_head = Mh_Raised\<rparr>,
      mu_accepted := mu_accepted s, mu_raised := mu_raised s + 1\<rparr>" by (simp add: mu_goto_def)
  ultimately show ?thesis
    unfolding eq using h inv by (intro mu_swap [OF inv, where ws' = "[]"]) (auto simp: mu_inv_def)
qed

lemma raise_pop_ok:
  assumes inv: "mu_inv (Suc k) s" and pc: "mu_pcs s t = Mr_Pop b (mu_signal s) f nx"
  shows "mu_inv k (mu_goto t (Mr_Spin f) (s\<lparr>mu_signal := \<lparr>mu_counter = mu_counter (mu_signal s) + 1, mu_head = nx\<rparr>\<rparr>))" (is "mu_inv k ?s")
proof -
  obtain ws where ws: "waiter_chain (mu_next s) (mu_head (mu_signal s)) ws" "distinct ws" "places_ok s ws"
    using mu_places [OF inv] .
  have h: "mu_head (mu_signal s) = Mh_Waiter f" "nx = mu_next s f" using mu_pc [OF inv, of t] pc by simp_all
  then obtain fs where fs: "ws = f # fs" "waiter_chain (mu_next s) nx fs" "nx \<noteq> Mh_Raised" using ws(1) by (cases ws) auto
  have f: "\<not> mu_queued s f" "target (mu_pcs s u) \<noteq> Some f" for u using ws(3) fs(1) unfolding places_ok_def by auto
  have tg: "target (mu_pcs ?s u) = (if u = t then Some f else target (mu_pcs s u))" for u by (simp add: mu_goto_def)
  have as: "asleep (mu_pcs ?s u) = asleep (mu_pcs s u)" for u using pc by (simp add: mu_goto_def)
  have tt: "target (mu_pcs s t) = None" using pc by simp
  have "places_ok ?s fs"
    using ws(2,3) f tt unfolding places_ok_def tg as fs(1)
    by (auto simp: mu_goto_def split: if_splits) (metis option.distinct(1))
  moreover have "fiber_ok ?s t" using mu_fiber [OF inv, of t] pc by (auto simp: mu_goto_def fiber_ok_def Let_def)
  moreover have eq: "?s = (mu_goto t (Mr_Spin f) s)\<lparr>mu_signal := \<lparr>mu_counter = mu_counter (mu_signal s) + 1, mu_head = nx\<rparr>,
      mu_accepted := mu_accepted s, mu_raised := mu_raised s\<rparr>" by (simp add: mu_goto_def)
  ultimately show ?thesis
    unfolding eq using fs ws(2) inv by (intro mu_swap [OF inv, where ws' = fs]) (auto simp: mu_inv_def)
qed

lemma raise_wake_ok:
  assumes inv: "mu_inv k s" and pc: "mu_pcs s t = Mr_Wake f"
  shows "mu_saved s f" "\<not> mu_queued s f"
    "mu_inv k (mu_goto t Mu_Idle (s\<lparr>mu_state := (mu_state s)(f := FIBER_STATE_READY), mu_queued := (mu_queued s)(f := True)\<rparr>))"
      (is "mu_inv k ?s")
proof -
  note fo = mu_fiber [OF inv]
  obtain ws where ws: "places_ok s ws" using mu_places [OF inv] .
  have "asleep (mu_pcs s f)" using ws pc unfolding places_ok_def by (metis target.simps(2))
  moreover have "mu_ready s f" using mu_pc [OF inv, of t] pc by simp
  ultimately have f: "mu_pcs s f = Mw_Asleep" using fo [of f] by (auto simp: fiber_ok_def Let_def)
  with fo [of f] show "mu_saved s f" by (simp add: fiber_ok_def Let_def)
  show q: "\<not> mu_queued s f" using ws pc unfolding places_ok_def by (metis target.simps(2))
  show "mu_inv k ?s"
  proof (rule mu_local [OF inv, where t = t])
    show "fiber_ok ?s u" for u using fo [of u] f pc by (auto simp: mu_goto_def fiber_ok_def Let_def)
    fix ws assume p: "places_ok s ws"
    have fw: "f \<notin> set ws" using p pc unfolding places_ok_def by (metis target.simps(2))
    have u: "target (mu_pcs s u) = Some f \<Longrightarrow> u = t" for u using p pc unfolding places_ok_def by (metis target.simps(2))
    have tg: "target (mu_pcs ?s u) = (if u = t then None else target (mu_pcs s u))" for u by (simp add: mu_goto_def)
    have as: "asleep (mu_pcs ?s u) = asleep (mu_pcs s u)" for u using pc by (simp add: mu_goto_def)
    have tt: "target (mu_pcs s t) = Some f" using pc by simp
    show "places_ok ?s ws"
      using p fw u tt f unfolding places_ok_def tg as by (auto simp: mu_goto_def) (metis option.inject)
  qed (simp_all add: mu_goto_def)
qed

section \<open>Every step\<close>

lemma mu_goto_fiber:
  assumes "fiber_ok s t" "mu_pcs s t \<notin> {Mw_Switch, Mw_Maintenance, Mw_Asleep, Mw_Resumed}" "pc \<notin> {Mw_Switch, Mw_Maintenance, Mw_Asleep, Mw_Resumed}"
  shows "fiber_ok (mu_goto t pc s) t"
  using assms by (auto simp: fiber_ok_def mu_goto_def Let_def)

lemma mu_wait_ok:
  assumes inv: "mu_inv (Suc k) s" and w: "waiting_pc (mu_pcs s t)"
  shows "\<exists>s'. fiber_multi_signal_wait_step t s = Some s' \<and> mu_inv k s'"
proof -
  note inv' = mu_inv_weaken [OF inv]
  note move = mu_move [OF inv' _ _ _ mu_goto_fiber [OF mu_fiber [OF inv']]]
  show ?thesis
  proof (cases "mu_pcs s t")
    case Mw_Counter
    then show ?thesis using move [of "Mw_Head (mu_counter (mu_signal s))" t] by (simp add: fiber_multi_signal_wait_step_def)
  next
    case (Mw_Head c)
    let ?x = "\<lparr>mu_counter = c, mu_head = mu_head (mu_signal s)\<rparr>"
    show ?thesis
      using Mw_Head move [of "Mw_Accept ?x" t] move [of "Mw_Link ?x" t] by (simp add: fiber_multi_signal_wait_step_def Let_def)
  next
    case (Mw_Accept x)
    then show ?thesis
      using wait_accept_ok [OF inv, of t] move [of Mw_Counter t] mu_cas_ok [of s x] mu_cas_fails [of s x]
      by (cases "mu_signal s = x") (auto simp: fiber_multi_signal_wait_step_def)
  next
    case (Mw_Link x)
    then show ?thesis using wait_link_ok [OF inv' Mw_Link] by (simp add: fiber_multi_signal_wait_step_def)
  next
    case (Mw_Push x)
    then show ?thesis
      using wait_push_ok [OF inv, of t] move [of Mw_Counter t] mu_cas_ok [of s x] mu_cas_fails [of s x]
      by (cases "mu_signal s = x") (auto simp: fiber_multi_signal_wait_step_def)
  next
    case Mw_Asleep
    then show ?thesis using wait_resume_ok [OF inv' Mw_Asleep] inv' by (simp add: fiber_multi_signal_wait_step_def)
  qed (use w wait_flags_ok [OF inv', of t] in simp_all)
qed

lemma mu_raise_ok:
  assumes inv: "mu_inv (Suc k) s"
  shows "\<exists>s'. fiber_multi_signal_raise_step t s = Some s' \<and> mu_inv k s'"
proof -
  note inv' = mu_inv_weaken [OF inv]
  note move = mu_move [OF inv' _ _ _ mu_goto_fiber [OF mu_fiber [OF inv']]]
  show ?thesis
  proof (cases "mu_pcs s t")
    case (Mr_Counter b)
    then show ?thesis using move [of "Mr_Head b (mu_counter (mu_signal s))" t] by (simp add: fiber_multi_signal_raise_step_def)
  next
    case (Mr_Head b c)
    let ?x = "\<lparr>mu_counter = c, mu_head = mu_head (mu_signal s)\<rparr>"
    have "snap_ok (mu_signal s) ?x" using mu_pc [OF inv, of t] Mr_Head by (intro snap_ok_read) simp
    then show ?thesis
      using Mr_Head move [of "Mr_Raise ?x" t] move [of "Mr_Next b ?x f" t for f] move [of "Mr_Counter True" t]
      by (cases "mu_head (mu_signal s)") (auto simp: fiber_multi_signal_raise_step_def Let_def)
  next
    case (Mr_Raise x)
    then show ?thesis
      using raise_raise_ok [OF inv, of t] move [of "Mr_Counter False" t] mu_cas_ok [of s x] mu_cas_fails [of s x]
      by (cases "mu_signal s = x") (auto simp: fiber_multi_signal_raise_step_def)
  next
    case (Mr_Next b x f)
    then show ?thesis
      using move [of "Mr_Pop b x f (mu_next s f)" t] mu_pc [OF inv, of t] by (simp add: fiber_multi_signal_raise_step_def)
  next
    case (Mr_Pop b x f nx)
    then show ?thesis
      using raise_pop_ok [OF inv, of t b f nx] move [of "Mr_Counter b" t] mu_cas_ok [of s x] mu_cas_fails [of s x]
      by (cases "mu_signal s = x") (auto simp: fiber_multi_signal_raise_step_def)
  next
    case (Mr_Spin f)
    then show ?thesis
      using move [of "Mr_Wake f" t] inv' by (simp add: fiber_multi_signal_raise_step_def)
  next
    case (Mr_Wake f)
    then show ?thesis using raise_wake_ok [OF inv' Mr_Wake] by (simp add: fiber_multi_signal_raise_step_def)
  qed (use inv' in \<open>simp_all add: fiber_multi_signal_raise_step_def\<close>)
qed

interpretation mu: machine mu_step "\<lambda>a. True" mu_inv
proof (unfold_locales, goal_cases)
  case (1 k s a)
  note inv' = mu_inv_weaken [OF 1(1)]
  note move = mu_move [OF inv' _ _ _ mu_goto_fiber [OF mu_fiber [OF inv']]]
  show ?case
  proof (cases a)
    case (Mu_Wait t)
    have "s\<lparr>mu_ready := (mu_ready s)(t := False)\<rparr> = s" if "mu_pcs s t = Mu_Idle"
      using mu_fiber [OF inv', of t] that by (simp add: fiber_ok_def Let_def fun_upd_idem)
    with Mu_Wait move [of Mw_Counter t] inv' show ?thesis by simp
  next
    case (Mu_Raise b t)
    with move [of "Mr_Counter b" t] inv' show ?thesis by simp
  next
    case (Mu_Step t)
    with mu_wait_ok [OF 1(1)] mu_raise_ok [OF 1(1)] show ?thesis by simp
  qed
qed

lemma mu_init_inv: "k < 2 ^ 64 \<Longrightarrow> mu_inv k fiber_multi_signal_init"
  by (auto simp: mu_inv_def fiber_multi_signal_init_def places_ok_def fiber_ok_def intro!: exI [of _ "[]"])

section \<open>Properties\<close>

text \<open>C7. Any number of fibers waiting on and raising a multi-signal, every interleaving: no step faults, so no fiber
  is put into a run queue before its context is saved; every fiber that sleeps is in exactly one place
  (the list of the signal, the hands of one raiser, a run queue), so no waiter is lost and none is
  woken twice; and the waits that end without sleeping are at most the raises that found no waiter.\<close>

theorem multi_signal_correct:
  assumes "length acts < 2 ^ 64"
  shows "\<exists>s ws. mu_run acts fiber_multi_signal_init = Some s \<and>
     waiter_chain (mu_next s) (mu_head (mu_signal s)) ws \<and> distinct ws \<and> places_ok s ws \<and> mu_accepted s \<le> mu_raised s"
proof -
  obtain s where s: "mu_run acts fiber_multi_signal_init = Some s" "mu_inv 0 s"
    using mu.run_ok [OF mu_init_inv [OF assms]] by blast
  then show ?thesis unfolding mu_inv_def by (metis (no_types, lifting) add_leD1)
qed

theorem multi_signal_correct_witness:
  "\<exists>s ws. mu_run ([Mu_Wait 0] @ replicate 7 (Mu_Step 0) @ [Mu_Raise False 1] @ replicate 6 (Mu_Step 1)) fiber_multi_signal_init = Some s \<and>
     waiter_chain (mu_next s) (mu_head (mu_signal s)) ws \<and> distinct ws \<and> places_ok s ws \<and> mu_accepted s \<le> mu_raised s"
  by (rule multi_signal_correct) simp

end
