(* ===== verification/Join.thy ===== *)
theory Join
  imports Fiber_Types
begin

text \<open>
  Completion, joining and detaching of one fiber, \<open>src/fiber.c\<close>, interleaved at the granularity of
  the accesses to shared memory.  The clients are fibers that call \<open>fiber_join\<close>, \<open>fiber_tryjoin\<close> and
  \<open>fiber_detach\<close> on it.  \<open>fiber_manager_set_and_wait\<close> is the state change, the context switch and the
  deferred store of the location by the fiber that runs next; \<open>fiber_manager_clear_or_wait\<close> is a
  turn of its exchange loop.  Accessing the fiber after it is freed, and putting a fiber whose
  context is not saved into a run queue, are faults.  \<open>jn_value\<close> (what the function of the fiber
  returned) and \<open>jn_joining\<close> (the last call of a client was a join) are history.
\<close>

datatype join_info = Ji_Null | Ji_Fiber | Ji_Client nat

datatype fiber_pc =
    F_Run
  | F_Result addr
  | F_Check
  | F_Exchange
  | F_Set_Wait
  | F_Switch
  | F_Publish
  | F_Asleep
  | F_Clear
  | F_Give nat
  | F_Wake nat
  | F_Done
  | F_Destroy
  | F_End

datatype client_pc =
    K_Idle
  | K_Join
  | K_Join_Exchange
  | K_Set_Wait
  | K_Switch
  | K_Publish
  | K_Asleep
  | K_Take
  | K_Read
  | K_Clear
  | K_Wake join_info
  | K_Tryjoin
  | K_Tryjoin_Again
  | K_Tryjoin_Exchange
  | K_Detach

record join_sys =
  jn_detach :: detach_state
  jn_info :: join_info
  jn_result :: addr
  jn_saved :: bool
  jn_queued :: bool
  jn_alive :: bool
  jn_pc :: fiber_pc
  jn_cpc :: "nat \<Rightarrow> client_pc"
  jn_csaved :: "nat \<Rightarrow> bool"
  jn_cqueued :: "nat \<Rightarrow> bool"
  jn_cresult :: "nat \<Rightarrow> addr"
  jn_out :: "nat \<Rightarrow> addr"
  jn_returned :: "nat \<Rightarrow> int option"
  jn_joining :: "nat \<Rightarrow> bool"
  jn_value :: "addr option"

definition join_sys_init :: join_sys where
  "join_sys_init =
     \<lparr>jn_detach = FIBER_DETACH_NONE, jn_info = Ji_Null, jn_result = NULL, jn_saved = False, jn_queued = False,
      jn_alive = True, jn_pc = F_Run, jn_cpc = (\<lambda>_. K_Idle), jn_csaved = (\<lambda>_. False), jn_cqueued = (\<lambda>_. False),
      jn_cresult = (\<lambda>_. NULL), jn_out = (\<lambda>_. NULL), jn_returned = (\<lambda>_. None), jn_joining = (\<lambda>_. False), jn_value = None\<rparr>"

text \<open>\<open>state = READY\<close> and \<open>fiber_manager_schedule\<close> for the fiber or for a client.\<close>

definition join_schedule :: "join_info \<Rightarrow> join_sys \<Rightarrow> join_sys option" where
  "join_schedule who s =
     (case who of
        Ji_Null \<Rightarrow> None
      | Ji_Fiber \<Rightarrow> if jn_saved s \<and> \<not> jn_queued s then Some (s\<lparr>jn_queued := True\<rparr>) else None
      | Ji_Client t \<Rightarrow> if jn_csaved s t \<and> \<not> jn_cqueued s t then Some (s\<lparr>jn_cqueued := (jn_cqueued s)(t := True)\<rparr>) else None)"

section \<open>The fiber\<close>

text \<open>
  \<open>fiber_go_function\<close> after the function has returned: \<open>fiber_mark_completed\<close>, then
  \<open>fiber_join_routine\<close> hands the fiber to the manager, which destroys it after the next switch.
\<close>

definition fiber_mark_completed_step :: "join_sys \<Rightarrow> join_sys option" where
  "fiber_mark_completed_step s =
     (case jn_pc s of
        F_Run \<Rightarrow> Some s
      | F_Result r \<Rightarrow> Some (s\<lparr>jn_result := r, jn_pc := F_Check\<rparr>)
      | F_Check \<Rightarrow> Some (s\<lparr>jn_pc := if jn_detach s \<noteq> FIBER_DETACH_DETACHED then F_Exchange else F_Done\<rparr>)
      | F_Exchange \<Rightarrow>
          Some (s\<lparr>jn_detach := FIBER_DETACH_WAIT_FOR_JOINER,
                  jn_pc := case jn_detach s of FIBER_DETACH_NONE \<Rightarrow> F_Set_Wait | FIBER_DETACH_WAIT_TO_JOIN \<Rightarrow> F_Clear | _ \<Rightarrow> F_Done\<rparr>)
      | F_Set_Wait \<Rightarrow> Some (s\<lparr>jn_pc := F_Switch\<rparr>)
      | F_Switch \<Rightarrow> Some (s\<lparr>jn_saved := True, jn_pc := F_Publish\<rparr>)
      | F_Publish \<Rightarrow> Some (s\<lparr>jn_info := Ji_Fiber, jn_pc := F_Asleep\<rparr>)
      | F_Asleep \<Rightarrow> Some (if jn_queued s then s\<lparr>jn_queued := False, jn_saved := False, jn_pc := F_Done\<rparr> else s)
      | F_Clear \<Rightarrow>
          Some (s\<lparr>jn_info := Ji_Null, jn_pc := case jn_info s of Ji_Client t \<Rightarrow> F_Give t | _ \<Rightarrow> F_Clear\<rparr>)
      | F_Give t \<Rightarrow> Some (s\<lparr>jn_cresult := (jn_cresult s)(t := jn_result s), jn_pc := F_Wake t\<rparr>)
      | F_Wake t \<Rightarrow> do { s' \<leftarrow> join_schedule (Ji_Client t) s; Some (s'\<lparr>jn_pc := F_Done\<rparr>) }
      | F_Done \<Rightarrow> Some (s\<lparr>jn_pc := F_Destroy\<rparr>)
      | F_Destroy \<Rightarrow> Some (s\<lparr>jn_alive := False, jn_pc := F_End\<rparr>)
      | F_End \<Rightarrow> Some s)"

section \<open>The clients\<close>

definition client_goto :: "nat \<Rightarrow> client_pc \<Rightarrow> join_sys \<Rightarrow> join_sys" where
  "client_goto t pc s = s\<lparr>jn_cpc := (jn_cpc s)(t := pc)\<rparr>"

definition client_return :: "nat \<Rightarrow> int \<Rightarrow> join_sys \<Rightarrow> join_sys" where
  "client_return t r s = s\<lparr>jn_cpc := (jn_cpc s)(t := K_Idle), jn_returned := (jn_returned s)(t := Some r)\<rparr>"

text \<open>The steps that all three calls share: reading the result, taking the sleeping fiber out of \<open>join_info\<close>, waking it.\<close>

definition client_wake_step :: "nat \<Rightarrow> join_sys \<Rightarrow> join_sys option" where
  "client_wake_step t s =
     (case jn_cpc s t of
        K_Read \<Rightarrow> do { c_assert (jn_alive s); Some (client_goto t K_Clear (s\<lparr>jn_out := (jn_out s)(t := jn_result s)\<rparr>)) }
      | K_Clear \<Rightarrow> do {
          c_assert (jn_alive s);
          Some (client_goto t (if jn_info s = Ji_Null then K_Clear else K_Wake (jn_info s)) (s\<lparr>jn_info := Ji_Null\<rparr>)) }
      | K_Wake who \<Rightarrow> do { s' \<leftarrow> join_schedule who s; Some (client_return t FIBER_SUCCESS s') }
      | _ \<Rightarrow> Some s)"

definition fiber_join_step :: "nat \<Rightarrow> join_sys \<Rightarrow> join_sys option" where
  "fiber_join_step t s =
     (case jn_cpc s t of
        K_Join \<Rightarrow> do {
          c_assert (jn_alive s);
          Some (if jn_detach s = FIBER_DETACH_DETACHED then client_return t FIBER_ERROR s else client_goto t K_Join_Exchange s) }
      | K_Join_Exchange \<Rightarrow> do {
          c_assert (jn_alive s);
          let s' = s\<lparr>jn_detach := FIBER_DETACH_WAIT_TO_JOIN\<rparr>;
          Some (case jn_detach s of
                  FIBER_DETACH_NONE \<Rightarrow> client_goto t K_Set_Wait s'
                | FIBER_DETACH_WAIT_FOR_JOINER \<Rightarrow> client_goto t K_Read s'
                | _ \<Rightarrow> client_return t FIBER_ERROR s') }
      | K_Set_Wait \<Rightarrow> Some (client_goto t K_Switch s)
      | K_Switch \<Rightarrow> Some (client_goto t K_Publish (s\<lparr>jn_csaved := (jn_csaved s)(t := True)\<rparr>))
      | K_Publish \<Rightarrow> do { c_assert (jn_alive s); Some (client_goto t K_Asleep (s\<lparr>jn_info := Ji_Client t\<rparr>)) }
      | K_Asleep \<Rightarrow>
          Some (if jn_cqueued s t
                then client_goto t K_Take (s\<lparr>jn_cqueued := (jn_cqueued s)(t := False), jn_csaved := (jn_csaved s)(t := False)\<rparr>)
                else s)
      | K_Take \<Rightarrow>
          Some (client_return t FIBER_SUCCESS
            (s\<lparr>jn_out := (jn_out s)(t := jn_cresult s t), jn_cresult := (jn_cresult s)(t := NULL)\<rparr>))
      | _ \<Rightarrow> client_wake_step t s)"

definition fiber_tryjoin_step :: "nat \<Rightarrow> join_sys \<Rightarrow> join_sys option" where
  "fiber_tryjoin_step t s =
     (case jn_cpc s t of
        K_Tryjoin \<Rightarrow> do {
          c_assert (jn_alive s);
          Some (if jn_detach s = FIBER_DETACH_DETACHED then client_return t FIBER_ERROR s else client_goto t K_Tryjoin_Again s) }
      | K_Tryjoin_Again \<Rightarrow> do {
          c_assert (jn_alive s);
          Some (if jn_detach s = FIBER_DETACH_WAIT_FOR_JOINER then client_goto t K_Tryjoin_Exchange s
                else client_return t FIBER_ERROR s) }
      | K_Tryjoin_Exchange \<Rightarrow> do {
          c_assert (jn_alive s);
          let s' = s\<lparr>jn_detach := FIBER_DETACH_WAIT_TO_JOIN\<rparr>;
          Some (if jn_detach s = FIBER_DETACH_WAIT_FOR_JOINER then client_goto t K_Read s' else client_return t FIBER_ERROR s') }
      | _ \<Rightarrow> Some s)"

definition fiber_detach_step :: "nat \<Rightarrow> join_sys \<Rightarrow> join_sys option" where
  "fiber_detach_step t s =
     (case jn_cpc s t of
        K_Detach \<Rightarrow> do {
          c_assert (jn_alive s);
          let s' = s\<lparr>jn_detach := FIBER_DETACH_DETACHED\<rparr>;
          Some (case jn_detach s of
                  FIBER_DETACH_WAIT_FOR_JOINER \<Rightarrow> client_goto t K_Clear s'
                | FIBER_DETACH_WAIT_TO_JOIN \<Rightarrow> client_goto t K_Clear s'
                | FIBER_DETACH_DETACHED \<Rightarrow> client_return t FIBER_ERROR s'
                | FIBER_DETACH_NONE \<Rightarrow> client_return t FIBER_SUCCESS s') }
      | _ \<Rightarrow> Some s)"

definition client_step :: "nat \<Rightarrow> join_sys \<Rightarrow> join_sys option" where
  "client_step t s =
     (case jn_cpc s t of
        K_Detach \<Rightarrow> fiber_detach_step t s
      | K_Tryjoin \<Rightarrow> fiber_tryjoin_step t s
      | K_Tryjoin_Again \<Rightarrow> fiber_tryjoin_step t s
      | K_Tryjoin_Exchange \<Rightarrow> fiber_tryjoin_step t s
      | _ \<Rightarrow> fiber_join_step t s)"

section \<open>The machine\<close>

datatype join_act = Ja_Complete addr | Ja_Fiber | Ja_Join nat | Ja_Tryjoin nat | Ja_Detach nat | Ja_Client nat

text \<open>A client may start a call until one of its calls has succeeded; \<open>*result\<close> is set to NULL first.\<close>

definition client_start :: "nat \<Rightarrow> client_pc \<Rightarrow> join_sys \<Rightarrow> join_sys" where
  "client_start t pc s =
     (if jn_cpc s t = K_Idle \<and> jn_returned s t \<noteq> Some FIBER_SUCCESS
      then client_goto t pc (s\<lparr>jn_out := (jn_out s)(t := NULL), jn_joining := (jn_joining s)(t := pc \<noteq> K_Detach)\<rparr>) else s)"

fun join_step :: "join_act \<Rightarrow> join_sys \<Rightarrow> join_sys option" where
  "join_step (Ja_Complete r) s = Some (if jn_pc s = F_Run then s\<lparr>jn_pc := F_Result r, jn_value := Some r\<rparr> else s)"
| "join_step Ja_Fiber s = fiber_mark_completed_step s"
| "join_step (Ja_Join t) s = Some (client_start t K_Join s)"
| "join_step (Ja_Tryjoin t) s = Some (client_start t K_Tryjoin s)"
| "join_step (Ja_Detach t) s = Some (client_start t K_Detach s)"
| "join_step (Ja_Client t) s = client_step t s"

abbreviation join_run :: "join_act list \<Rightarrow> join_sys \<Rightarrow> join_sys option" where
  "join_run \<equiv> run_steps join_step"

fun join_client :: "join_act \<Rightarrow> nat" where
  "join_client (Ja_Join t) = t" | "join_client (Ja_Tryjoin t) = t" | "join_client (Ja_Detach t) = t" | "join_client (Ja_Client t) = t"
| "join_client _ = 0"

section \<open>The invariant for one client\<close>

datatype f_phase = Running | Sleeping | Giving | Finished

fun fiber_phase :: "fiber_pc \<Rightarrow> f_phase" where
  "fiber_phase F_Run = Running" | "fiber_phase (F_Result r) = Running" | "fiber_phase F_Check = Running" | "fiber_phase F_Exchange = Running"
| "fiber_phase F_Set_Wait = Sleeping" | "fiber_phase F_Switch = Sleeping" | "fiber_phase F_Publish = Sleeping" | "fiber_phase F_Asleep = Sleeping"
| "fiber_phase F_Clear = Giving" | "fiber_phase (F_Give t) = Giving" | "fiber_phase (F_Wake t) = Giving"
| "fiber_phase F_Done = Finished" | "fiber_phase F_Destroy = Finished" | "fiber_phase F_End = Finished"

datatype c_phase = Before | Waits | Taking | Late | Over

fun client_phase :: "client_pc \<Rightarrow> int option \<Rightarrow> c_phase" where
  "client_phase K_Idle r = (if r = Some FIBER_SUCCESS then Over else Before)"
| "client_phase K_Set_Wait r = Waits" | "client_phase K_Switch r = Waits" | "client_phase K_Publish r = Waits" | "client_phase K_Asleep r = Waits"
| "client_phase K_Take r = Taking"
| "client_phase K_Read r = Late" | "client_phase K_Clear r = Late" | "client_phase (K_Wake x) r = Late"
| "client_phase _ r = Before"

text \<open>What holds in each combination of phases: \<open>d\<close> is the detach state, \<open>i\<close> the field \<open>join_info\<close>.\<close>

fun phases_ok :: "f_phase \<Rightarrow> c_phase \<Rightarrow> fiber_pc \<Rightarrow> client_pc \<Rightarrow> detach_state \<Rightarrow> join_info \<Rightarrow> bool \<Rightarrow> bool \<Rightarrow> bool" where
  "phases_ok Running Before pc c d i q cq \<longleftrightarrow> d = FIBER_DETACH_NONE \<and> i = Ji_Null \<and> c \<noteq> K_Tryjoin_Exchange"
| "phases_ok Running Waits pc c d i q cq \<longleftrightarrow>
     d = FIBER_DETACH_WAIT_TO_JOIN \<and> \<not> cq \<and> i = (if c = K_Asleep then Ji_Client 0 else Ji_Null)"
| "phases_ok Running Over pc c d i q cq \<longleftrightarrow> d = FIBER_DETACH_DETACHED \<and> i = Ji_Null"
| "phases_ok Sleeping Before pc c d i q cq \<longleftrightarrow>
     d = FIBER_DETACH_WAIT_FOR_JOINER \<and> \<not> q \<and> i = (if pc = F_Asleep then Ji_Fiber else Ji_Null)"
| "phases_ok Sleeping Late pc c d i q cq \<longleftrightarrow> \<not> q \<and>
     (case c of K_Wake who \<Rightarrow> who = Ji_Fiber \<and> pc = F_Asleep \<and> i = Ji_Null | _ \<Rightarrow> i = (if pc = F_Asleep then Ji_Fiber else Ji_Null))"
| "phases_ok Sleeping Over pc c d i q cq \<longleftrightarrow> pc = F_Asleep \<and> q \<and> i = Ji_Null"
| "phases_ok Giving Waits pc c d i q cq \<longleftrightarrow> \<not> cq \<and>
     (case pc of F_Give t \<Rightarrow> t = 0 \<and> c = K_Asleep \<and> i = Ji_Null | F_Wake t \<Rightarrow> t = 0 \<and> c = K_Asleep \<and> i = Ji_Null
      | _ \<Rightarrow> i = (if c = K_Asleep then Ji_Client 0 else Ji_Null))"
| "phases_ok Finished Waits pc c d i q cq \<longleftrightarrow> c = K_Asleep \<and> cq"
| "phases_ok Finished Taking pc c d i q cq \<longleftrightarrow> True"
| "phases_ok Finished Over pc c d i q cq \<longleftrightarrow> True"
| "phases_ok _ _ pc c d i q cq \<longleftrightarrow> False"

definition flags_ok :: "join_sys \<Rightarrow> bool" where
  "flags_ok s \<longleftrightarrow>
     (jn_alive s \<longleftrightarrow> jn_pc s \<noteq> F_End) \<and> (jn_saved s \<longleftrightarrow> jn_pc s = F_Publish \<or> jn_pc s = F_Asleep) \<and>
     (jn_queued s \<longrightarrow> jn_pc s = F_Asleep) \<and>
     (jn_csaved s 0 \<longleftrightarrow> jn_cpc s 0 = K_Publish \<or> jn_cpc s 0 = K_Asleep) \<and> (jn_cqueued s 0 \<longrightarrow> jn_cpc s 0 = K_Asleep)"

text \<open>The value travels from the fiber to the client.\<close>

fun result_ok :: "fiber_pc \<Rightarrow> addr option \<Rightarrow> addr \<Rightarrow> bool" where
  "result_ok F_Run v r \<longleftrightarrow> True" | "result_ok (F_Result x) v r \<longleftrightarrow> v = Some x" | "result_ok _ v r \<longleftrightarrow> v = Some r"

definition value_ok :: "join_sys \<Rightarrow> bool" where
  "value_ok s \<longleftrightarrow>
     result_ok (jn_pc s) (jn_value s) (jn_result s) \<and>
     (fiber_phase (jn_pc s) = Running \<and> client_phase (jn_cpc s 0) (jn_returned s 0) = Over \<longrightarrow> \<not> jn_joining s 0) \<and>
     (\<forall>t. jn_pc s = F_Wake t \<longrightarrow> jn_cresult s 0 = jn_result s) \<and>
     (fiber_phase (jn_pc s) = Finished \<and> (jn_cpc s 0 = K_Asleep \<or> jn_cpc s 0 = K_Take) \<longrightarrow> jn_cresult s 0 = jn_result s) \<and>
     (jn_joining s 0 \<and> (jn_cpc s 0 = K_Clear \<or> (\<exists>w. jn_cpc s 0 = K_Wake w) \<or> client_phase (jn_cpc s 0) (jn_returned s 0) = Over) \<longrightarrow>
        jn_value s = Some (jn_out s 0)) \<and>
     (jn_cpc s 0 \<noteq> K_Idle \<and> jn_cpc s 0 \<noteq> K_Detach \<and> jn_cpc s 0 \<noteq> K_Clear \<and> (\<forall>w. jn_cpc s 0 \<noteq> K_Wake w) \<longrightarrow> jn_joining s 0) \<and>
     (jn_cpc s 0 = K_Detach \<longrightarrow> \<not> jn_joining s 0)"

definition join_inv :: "nat \<Rightarrow> join_sys \<Rightarrow> bool" where
  "join_inv k s \<longleftrightarrow> flags_ok s \<and> value_ok s \<and>
     phases_ok (fiber_phase (jn_pc s)) (client_phase (jn_cpc s 0) (jn_returned s 0)) (jn_pc s) (jn_cpc s 0) (jn_detach s)
       (jn_info s) (jn_queued s) (jn_cqueued s 0)"

lemmas join_defs = join_inv_def flags_ok_def value_ok_def

lemma join_init_inv: "join_inv k join_sys_init"
  by (simp add: join_defs join_sys_init_def)

lemma join_fiber_ok:
  assumes "join_inv k s"
  shows "\<exists>s'. fiber_mark_completed_step s = Some s' \<and> join_inv k' s'"
proof (cases "jn_pc s")
  case F_Run
  with assms show ?thesis by (simp add: join_inv_def fiber_mark_completed_step_def)
next
  case F_Exchange
  with assms show ?thesis
    by (cases "client_phase (jn_cpc s 0) (jn_returned s 0)"; cases "jn_cpc s 0")
       (auto simp: join_defs fiber_mark_completed_step_def)
next
  case F_Clear
  with assms show ?thesis
    by (cases "jn_cpc s 0") (auto simp: join_defs fiber_mark_completed_step_def split: if_splits)
next
  case F_Check
  with assms show ?thesis
    by (cases "client_phase (jn_cpc s 0) (jn_returned s 0)"; cases "jn_cpc s 0")
       (auto simp: join_defs fiber_mark_completed_step_def)
next
  case F_Asleep
  with assms show ?thesis
    by (cases "client_phase (jn_cpc s 0) (jn_returned s 0)"; cases "jn_cpc s 0")
       (auto simp: join_defs fiber_mark_completed_step_def)
next
  case (F_Wake t)
  with assms show ?thesis
    by (cases "jn_cpc s 0") (auto simp: join_defs fiber_mark_completed_step_def join_schedule_def split: if_splits)
next
  case (F_Give t)
  with assms show ?thesis
    by (cases "jn_cpc s 0") (auto simp: join_defs fiber_mark_completed_step_def split: if_splits)
qed (use assms in \<open>cases "client_phase (jn_cpc s 0) (jn_returned s 0)"; cases "jn_cpc s 0";
      auto simp: join_defs fiber_mark_completed_step_def\<close>)+

lemma phase_alive: "fiber_phase pc = Running \<or> fiber_phase pc = Sleeping \<or> fiber_phase pc = Giving \<Longrightarrow> pc \<noteq> F_End"
  by auto

lemma value_phase: "value_ok s \<Longrightarrow> fiber_phase (jn_pc s) \<noteq> Running \<Longrightarrow> jn_value s = Some (jn_result s)"
  by (cases "jn_pc s") (auto simp: value_ok_def)

text \<open>Where the fiber can be in each phase of the client.\<close>

lemma join_phases:
  assumes "join_inv k s"
  shows "client_phase (jn_cpc s 0) (jn_returned s 0) = Before \<Longrightarrow> fiber_phase (jn_pc s) = Running \<or> fiber_phase (jn_pc s) = Sleeping"
    "client_phase (jn_cpc s 0) (jn_returned s 0) = Late \<Longrightarrow> fiber_phase (jn_pc s) = Sleeping"
    "client_phase (jn_cpc s 0) (jn_returned s 0) = Waits \<Longrightarrow> fiber_phase (jn_pc s) \<noteq> Sleeping"
    "client_phase (jn_cpc s 0) (jn_returned s 0) = Taking \<Longrightarrow> fiber_phase (jn_pc s) = Finished"
  using assms by (cases "fiber_phase (jn_pc s)"; simp add: join_inv_def)+

lemma join_start_ok:
  assumes inv: "join_inv k s" and pc: "pc = K_Join \<or> pc = K_Tryjoin \<or> pc = K_Detach"
  shows "join_inv k' (client_start 0 pc s)"
proof (cases "jn_cpc s 0 = K_Idle \<and> jn_returned s 0 \<noteq> Some FIBER_SUCCESS")
  case True
  then have "fiber_phase (jn_pc s) = Running \<or> fiber_phase (jn_pc s) = Sleeping" using join_phases(1) [OF inv] by simp
  with True inv pc show ?thesis by (elim disjE) (simp_all add: join_defs client_start_def client_goto_def)
next
  case False
  with inv pc show ?thesis by (auto simp: join_inv_def client_start_def)
qed

lemmas client_defs = client_step_def fiber_join_step_def fiber_tryjoin_step_def fiber_detach_step_def client_wake_step_def
  client_goto_def client_return_def join_schedule_def Let_def

lemma join_before_ok:
  assumes inv: "join_inv k s" and c: "jn_cpc s 0 \<in> {K_Join, K_Join_Exchange, K_Tryjoin, K_Tryjoin_Again, K_Tryjoin_Exchange, K_Detach}"
  shows "\<exists>s'. client_step 0 s = Some s' \<and> join_inv k' s'"
proof -
  have ph: "fiber_phase (jn_pc s) = Running \<or> fiber_phase (jn_pc s) = Sleeping" using join_phases(1) [OF inv] c by auto
  then have al: "jn_alive s" using inv phase_alive by (auto simp: join_inv_def flags_ok_def)
  from ph show ?thesis
  proof
    assume "fiber_phase (jn_pc s) = Running"
    with inv al c show ?thesis by (simp, elim disjE) (simp_all add: join_defs client_defs)
  next
    assume "fiber_phase (jn_pc s) = Sleeping"
    with inv al c show ?thesis by (simp, elim disjE) (simp_all add: join_defs client_defs)
  qed
qed

lemma join_late_ok:
  assumes inv: "join_inv k s" and c: "client_phase (jn_cpc s 0) (jn_returned s 0) = Late"
  shows "\<exists>s'. client_step 0 s = Some s' \<and> join_inv k' s'"
proof -
  have ph: "fiber_phase (jn_pc s) = Sleeping" using join_phases(2) [OF inv c] .
  then have al: "jn_alive s" using inv phase_alive by (auto simp: join_inv_def flags_ok_def)
  have v: "jn_value s = Some (jn_result s)" using inv value_phase ph by (simp add: join_inv_def)
  show ?thesis
  proof (cases "jn_cpc s 0")
    case K_Read
    with inv ph al v show ?thesis by (simp add: join_defs client_defs)
  next
    case K_Clear
    with inv ph al v show ?thesis by (cases "jn_pc s = F_Asleep") (simp_all add: join_defs client_defs)
  next
    case (K_Wake who)
    with inv ph al v show ?thesis by (auto simp: join_defs client_defs)
  qed (use c in \<open>simp_all split: if_splits\<close>)
qed

lemma join_waits_ok:
  assumes inv: "join_inv k s" and c: "client_phase (jn_cpc s 0) (jn_returned s 0) = Waits \<or> jn_cpc s 0 = K_Take"
  shows "\<exists>s'. client_step 0 s = Some s' \<and> join_inv k' s'"
proof (cases "jn_cpc s 0 = K_Take")
  case True
  then have ph: "fiber_phase (jn_pc s) = Finished" using join_phases(4) [OF inv] by simp
  have v: "jn_value s = Some (jn_result s)" using inv value_phase ph by (simp add: join_inv_def)
  have "\<And>t. jn_pc s \<noteq> F_Wake t" using ph by auto
  with True inv ph v show ?thesis by (simp add: join_defs client_defs)
next
  case False
  with c have c: "client_phase (jn_cpc s 0) (jn_returned s 0) = Waits" by simp
  then have ph: "fiber_phase (jn_pc s) = Running \<or> fiber_phase (jn_pc s) = Giving \<or> fiber_phase (jn_pc s) = Finished"
    using join_phases(3) [OF inv] by (cases "fiber_phase (jn_pc s)") auto
  consider "jn_cpc s 0 = K_Set_Wait" | "jn_cpc s 0 = K_Switch" | "jn_cpc s 0 = K_Publish" | "jn_cpc s 0 = K_Asleep"
    using c by (cases "jn_cpc s 0") (auto split: if_splits)
  then show ?thesis
  proof cases
    case 1
    with inv ph show ?thesis by (elim disjE; cases "jn_pc s") (simp_all add: join_defs client_defs)
  next
    case 2
    with inv ph show ?thesis by (elim disjE; cases "jn_pc s") (simp_all add: join_defs client_defs)
  next
    case 3
    with inv ph show ?thesis by (elim disjE; cases "jn_pc s") (simp_all add: join_defs client_defs)
  next
    case 4
    with inv ph show ?thesis by (elim disjE; cases "jn_cqueued s 0"; cases "jn_pc s") (simp_all add: join_defs client_defs)
  qed
qed

lemma join_client_ok:
  assumes inv: "join_inv k s"
  shows "\<exists>s'. client_step 0 s = Some s' \<and> join_inv k' s'"
proof (cases "jn_cpc s 0")
  case K_Idle
  with inv show ?thesis by (simp add: join_inv_def client_defs)
qed (use join_before_ok [OF inv] join_late_ok [OF inv] join_waits_ok [OF inv] in simp_all)

lemma join_complete_ok:
  assumes "join_inv k s" "jn_pc s = F_Run"
  shows "join_inv k' (s\<lparr>jn_pc := F_Result r, jn_value := Some r\<rparr>)"
proof -
  have "client_phase (jn_cpc s 0) (jn_returned s 0) \<noteq> Late" using join_phases(2) [OF assms(1)] assms(2) by auto
  then have c: "jn_cpc s 0 \<noteq> K_Clear" "\<And>w. jn_cpc s 0 \<noteq> K_Wake w" by auto
  have "phases_ok Running p (F_Result r) c d i q cq = phases_ok Running p F_Run c d i q cq" for p c d i q cq by (cases p) auto
  with assms c show ?thesis by (auto simp: join_defs)
qed

interpretation join: machine join_step "\<lambda>a. join_client a = 0" join_inv
proof (unfold_locales, goal_cases)
  case (1 k s a)
  have "join_inv k s" using 1(1) by (simp add: join_inv_def)
  then show ?case
    using 1 join_fiber_ok [OF 1(1)] join_start_ok [OF 1(1)] join_client_ok [OF 1(1)] join_complete_ok [OF 1(1)]
    by (cases a) simp_all
qed

section \<open>Properties\<close>

text \<open>C12. One client joins, polls with \<open>fiber_tryjoin\<close> or detaches a fiber while the fiber completes, in every interleaving:
  no step faults, so the fiber is not touched after it is freed and nobody is put into a run queue
  before its context is saved; a successful join delivers what the function of the fiber returned; and
  no wake-up is lost: a fiber that sleeps in no run queue is still waiting for a client that has not
  succeeded, and a client that sleeps in no run queue is waiting for a fiber that has not finished.\<close>

theorem join_correct:
  assumes "\<forall>a \<in> set acts. join_client a = 0"
  shows "\<exists>s. join_run acts join_sys_init = Some s \<and>
     (jn_returned s 0 = Some FIBER_SUCCESS \<and> jn_joining s 0 \<and> jn_cpc s 0 = K_Idle \<longrightarrow> jn_value s = Some (jn_out s 0)) \<and>
     (jn_pc s = F_Asleep \<and> \<not> jn_queued s \<longrightarrow> \<not> (jn_cpc s 0 = K_Idle \<and> jn_returned s 0 = Some FIBER_SUCCESS)) \<and>
     (jn_cpc s 0 = K_Asleep \<and> \<not> jn_cqueued s 0 \<longrightarrow> fiber_phase (jn_pc s) \<noteq> Finished)"
proof -
  obtain s where s: "join_run acts join_sys_init = Some s" "join_inv 0 s"
    using join.run_ok [OF join_init_inv assms] by blast
  have "jn_value s = Some (jn_out s 0)" if "jn_returned s 0 = Some FIBER_SUCCESS" "jn_joining s 0" "jn_cpc s 0 = K_Idle"
    using s(2) that by (simp add: join_inv_def value_ok_def)
  moreover have "\<not> (jn_cpc s 0 = K_Idle \<and> jn_returned s 0 = Some FIBER_SUCCESS)" if "jn_pc s = F_Asleep" "\<not> jn_queued s"
    using s(2) that by (auto simp: join_inv_def)
  moreover have "fiber_phase (jn_pc s) \<noteq> Finished" if "jn_cpc s 0 = K_Asleep" "\<not> jn_cqueued s 0"
    using s(2) that by (auto simp: join_inv_def)
  ultimately show ?thesis using s(1) by blast
qed

theorem join_correct_witness:
  "\<exists>s. join_run ([Ja_Join 0] @ replicate 5 (Ja_Client 0) @ [Ja_Complete 42] @ replicate 8 Ja_Fiber @ replicate 2 (Ja_Client 0)) join_sys_init = Some s \<and>
     (jn_returned s 0 = Some FIBER_SUCCESS \<and> jn_joining s 0 \<and> jn_cpc s 0 = K_Idle \<longrightarrow> jn_value s = Some (jn_out s 0)) \<and>
     (jn_pc s = F_Asleep \<and> \<not> jn_queued s \<longrightarrow> \<not> (jn_cpc s 0 = K_Idle \<and> jn_returned s 0 = Some FIBER_SUCCESS)) \<and>
     (jn_cpc s 0 = K_Asleep \<and> \<not> jn_cqueued s 0 \<longrightarrow> fiber_phase (jn_pc s) \<noteq> Finished)"
  by (rule join_correct) auto


end
