(* ===== verification/Schedule_Lock.thy ===== *)
theory Schedule_Lock
  imports Rwlock
begin

text \<open>
  \<open>src/schedule_lock.c\<close>: the global flag that \<open>fiber_manager_yield\<close> consults, guarded by a global
  reader-writer lock.  The operations are run without contention: an acquisition that has to wait
  does not return (\<open>None\<close>).  The lock is a zeroed global and is never initialised, so a fiber that has
  to wait would use a queue that does not exist.
\<close>

record schedule_lock =
  sk_word :: rw_state
  sk_lock_using :: int

definition schedule_lock_zero :: schedule_lock where
  "schedule_lock_zero = \<lparr>sk_word = rw_unblob 0, sk_lock_using = 0\<rparr>"

definition sk_rdlock :: "schedule_lock \<Rightarrow> schedule_lock option" where
  "sk_rdlock l = (case rdlock_body (sk_word l) of (w, Acquired) \<Rightarrow> Some (l\<lparr>sk_word := w\<rparr>) | (w, Must_Wait) \<Rightarrow> None)"

definition sk_wrlock :: "schedule_lock \<Rightarrow> schedule_lock option" where
  "sk_wrlock l = (case wrlock_body (sk_word l) of (w, Acquired) \<Rightarrow> Some (l\<lparr>sk_word := w\<rparr>) | (w, Must_Wait) \<Rightarrow> None)"

definition sk_rdunlock :: "schedule_lock \<Rightarrow> schedule_lock option" where
  "sk_rdunlock l = do { (w, wake) \<leftarrow> rdunlock_body (sk_word l); Some (l\<lparr>sk_word := w\<rparr>) }"

definition sk_wrunlock :: "schedule_lock \<Rightarrow> schedule_lock option" where
  "sk_wrunlock l = do { (w, wake) \<leftarrow> wrunlock_body (sk_word l); Some (l\<lparr>sk_word := w\<rparr>) }"

definition is_lock_using :: "schedule_lock \<Rightarrow> (schedule_lock \<times> int) option" where
  "is_lock_using l = do {
     l1 \<leftarrow> sk_rdlock l;
     let val = sk_lock_using l1;
     l2 \<leftarrow> sk_rdunlock l1;
     Some (l2, val)
   }"

definition set_lock_status :: "schedule_lock \<Rightarrow> schedule_lock option" where
  "set_lock_status l = do {
     l1 \<leftarrow> sk_wrlock l;
     sk_wrunlock (l1\<lparr>sk_lock_using := 1\<rparr>)
   }"

definition init_scheduler_lock_data :: "schedule_lock \<Rightarrow> schedule_lock" where
  "init_scheduler_lock_data l = l\<lparr>sk_lock_using := -1\<rparr>"

text \<open>The code locks for writing a second time where it should unlock.\<close>

definition add_lock :: "schedule_lock \<Rightarrow> schedule_lock option" where
  "add_lock l = do {
     (l1, val) \<leftarrow> is_lock_using l;
     if val < 0
     then do {
       l2 \<leftarrow> sk_wrlock l1;
       sk_wrlock (l2\<lparr>sk_lock_using := 0\<rparr>)
     }
     else Some l1
   }"

lemmas sk_defs = sk_rdlock_def sk_wrlock_def sk_rdunlock_def sk_wrunlock_def rdlock_body_def wrlock_body_def
  rdunlock_body_def wrunlock_body_def

definition lock_free :: "schedule_lock \<Rightarrow> bool" where
  "lock_free l \<longleftrightarrow> sk_word l = rw_unblob 0"

lemma rw_unblob_zero: "rw_unblob 0 = \<lparr>write_locked = 0, reader_count = 0, waiting_readers = 0, waiting_writers = 0\<rparr>"
  by (simp add: rw_unblob_def)

lemma is_lock_using_free: "lock_free l \<Longrightarrow> is_lock_using l = Some (l, sk_lock_using l)"
  by (simp add: lock_free_def is_lock_using_def sk_defs rw_unblob_zero)

lemma set_lock_status_free: "lock_free l \<Longrightarrow> set_lock_status l = Some (l\<lparr>sk_lock_using := 1\<rparr>)"
  by (simp add: lock_free_def set_lock_status_def sk_defs rw_unblob_zero rw_blob_def)

text \<open>On the free lock, \<open>set_lock_status\<close> sets the flag to 1, \<open>is_lock_using\<close> reads it, and both leave the lock free.
  \<open>add_lock\<close> on a flag that is not set yet (the case for which it exists) never returns: it holds the
  lock for writing and locks it again.\<close>

theorem schedule_lock_correct:
  assumes "lock_free l"
  shows "set_lock_status l = Some (l\<lparr>sk_lock_using := 1\<rparr>) \<and> is_lock_using l = Some (l, sk_lock_using l) \<and>
     (add_lock l = (if sk_lock_using l < 0 then None else Some l))"
  using assms is_lock_using_free [OF assms] set_lock_status_free [OF assms]
  by (simp add: add_lock_def lock_free_def sk_defs rw_unblob_zero rw_blob_def)

theorem schedule_lock_correct_witness:
  "set_lock_status schedule_lock_zero = Some (schedule_lock_zero\<lparr>sk_lock_using := 1\<rparr>) \<and>
   is_lock_using schedule_lock_zero = Some (schedule_lock_zero, sk_lock_using schedule_lock_zero) \<and>
   add_lock (init_scheduler_lock_data schedule_lock_zero) = None"
  using schedule_lock_correct [of schedule_lock_zero] schedule_lock_correct [of "init_scheduler_lock_data schedule_lock_zero"]
  by (simp add: lock_free_def schedule_lock_zero_def init_scheduler_lock_data_def)

end
