(* ===== verification/Manager.thy ===== *)
theory Manager
  imports Fiber_Types Schedule_Lock Scheduler_Wsd Mpmc_Fifo Ring_Buffer Mutex Spinlock
begin

text \<open>
  \<open>src/fiber_manager.c\<close> and the creation of fibers in \<open>src/fiber.c\<close>, one call at a time: the per-thread
  managers, context switching with its deferred actions, waiting and waking.  The scheduler that the
  program is linked with is a record of operations.  A context switch changes the current fiber of
  the kernel thread; the maintenance that the fiber which is switched in performs first is part of the
  step.  What a fiber does after it is switched in again is a later call.  Addresses returned by the
  allocator, the time of day and spurious failures are arguments.
\<close>

section \<open>State\<close>

record lock_stats =
  ls_banned_until :: "int \<times> int"
  ls_slice_size :: "int \<times> int"

record fiber =
  fb_state :: fiber_state
  fb_run_function :: addr
  fb_param :: addr
  fb_id :: "64 word"
  fb_result :: addr
  fb_mpsc_fifo_node :: addr
  fb_detach_state :: detach_state
  fb_join_info :: addr
  fb_scratch :: addr
  fb_fiber_stats :: addr

text \<open>What \<open>set_wait_location\<close> points to.\<close>

datatype wait_location = Loc_Join_Info addr | Loc_Scratch addr | Loc_Word addr

record fiber_manager =
  fm_maintenance_fiber :: addr
  fm_current_fiber :: addr
  fm_old_fiber :: addr
  fm_thread_fiber :: addr
  fm_to_schedule :: addr
  fm_mpsc_to_push :: "addr \<times> addr"
  fm_mpmc_hptr :: addr
  fm_mpmc_to_push :: "addr \<times> addr"
  fm_mutex_to_unlock :: addr
  fm_spinlock_to_unlock :: addr
  fm_set_wait_location :: "wait_location option"
  fm_set_wait_value :: addr
  fm_done_fiber :: addr
  fm_id :: nat
  fm_yield_count :: "64 word"
  fm_spin_count :: "64 word"
  fm_signal_spin_count :: "64 word"
  fm_multi_signal_spin_count :: "64 word"
  fm_wake_mpsc_spin_count :: "64 word"
  fm_wake_mpmc_spin_count :: "64 word"
  fm_poll_count :: "64 word"
  fm_event_wait_count :: "64 word"
  fm_lock_contention_count :: "64 word"

datatype manager_state = FIBER_MANAGER_STATE_NONE | FIBER_MANAGER_STATE_STARTED | FIBER_MANAGER_STATE_ERROR

text \<open>The operations of \<open>include/fiber_scheduler.h\<close>, for the scheduler of a kernel thread.\<close>

record 's scheduler_ops =
  so_init :: "nat \<Rightarrow> ('s \<times> int) option"
  so_schedule :: "nat \<Rightarrow> 's \<Rightarrow> addr \<Rightarrow> 's option"
  so_next :: "nat \<Rightarrow> (addr \<Rightarrow> bool) \<Rightarrow> 's \<Rightarrow> ('s \<times> addr) option"
  so_load_balance :: "nat \<Rightarrow> 's \<Rightarrow> 's option"
  so_stats :: "nat \<Rightarrow> 's \<Rightarrow> 64 word \<times> 64 word \<Rightarrow> (64 word \<times> 64 word) option"

text \<open>
  The globals of the library and the memory that its operations reach.  A word is any other location
  that \<open>set_and_wait\<close> may point to.
\<close>

record 's fiber_world =
  fw_state :: manager_state
  fw_fibers :: "fiber heap"
  fw_stats :: "lock_stats heap"
  fw_managers :: "fiber_manager list"
  fw_scheduler :: 's
  fw_schedule_lock :: schedule_lock
  fw_nodes :: mpsc_heap
  fw_mpsc :: "mpsc_fifo heap"
  fw_mpmc :: "mpmc_fifo heap"
  fw_mpmc_nodes :: mpmc_heap
  fw_hazard_nodes :: node_heap
  fw_records :: record_heap
  fw_hazard_head :: addr
  fw_free_mpmc_nodes :: "lockfree_ring_buffer option"
  fw_mutexes :: "fiber_mutex heap"
  fw_spinlocks :: "fiber_spinlock heap"
  fw_words :: "addr \<Rightarrow> addr"
  fw_shutting_down :: bool

text \<open>
  What the outside decides during a call: the addresses the allocator returns for a fiber, its queue node and
  its statistics, for a hazard record and for a node, whether \<open>calloc\<close> of the ring and
  \<open>fiber_context_init\<close> succeed, which compare-exchanges fail spuriously, fresh memory, and the time.
\<close>

record outside =
  o_fiber :: addr
  o_fiber_node :: addr
  o_stats :: addr
  o_record :: addr
  o_node :: addr
  o_ring_ok :: bool
  o_context_ok :: bool
  o_spurious :: "bool list"
  o_pop_spurious :: bool
  o_junk :: "nat \<Rightarrow> addr"
  o_now :: "int \<times> int"

definition upd_fiber :: "addr \<Rightarrow> (fiber \<Rightarrow> fiber) \<Rightarrow> 's fiber_world \<Rightarrow> 's fiber_world option" where
  "upd_fiber f g w = do { x \<leftarrow> load (fw_fibers w) f; h \<leftarrow> store (fw_fibers w) f (g x); Some (w\<lparr>fw_fibers := h\<rparr>) }"

definition upd_manager :: "nat \<Rightarrow> (fiber_manager \<Rightarrow> fiber_manager) \<Rightarrow> 's fiber_world \<Rightarrow> 's fiber_world option" where
  "upd_manager t g w = do {
     m \<leftarrow> nth_opt (fw_managers w) t;
     Some (w\<lparr>fw_managers := (fw_managers w)[t := g m]\<rparr>) }"

text \<open>The test of \<open>fiber_scheduler_next\<close> on the state of a fiber.\<close>

definition saving :: "'s fiber_world \<Rightarrow> addr \<Rightarrow> bool" where
  "saving w f \<longleftrightarrow> (\<exists>x. fw_fibers w f = Some x \<and> fb_state x = FIBER_STATE_SAVING_STATE_TO_WAIT)"

section \<open>Fibers\<close>

definition get_lock_stats :: "'s fiber_world \<Rightarrow> addr \<Rightarrow> addr option" where
  "get_lock_stats w f = do { x \<leftarrow> load (fw_fibers w) f; Some (fb_fiber_stats x) }"

definition set_lock_stats ::
  "addr \<Rightarrow> (int \<times> int) option \<Rightarrow> (int \<times> int) option \<Rightarrow> 's fiber_world \<Rightarrow> 's fiber_world option" where
  "set_lock_stats f banned_until slice_size w =
     (if banned_until = None \<and> slice_size = None then Some w
      else do {
        x \<leftarrow> load (fw_fibers w) f;
        s \<leftarrow> load (fw_stats w) (fb_fiber_stats x);
        h \<leftarrow> store (fw_stats w) (fb_fiber_stats x)
               \<lparr>ls_banned_until = (case banned_until of None \<Rightarrow> ls_banned_until s | Some b \<Rightarrow> b),
                ls_slice_size = (case slice_size of None \<Rightarrow> ls_slice_size s | Some z \<Rightarrow> z)\<rparr>;
        Some (w\<lparr>fw_stats := h\<rparr>)
      })"

text \<open>
  The two allocations of a fiber.  The address of the statistics is not checked before it is written
  through.  When the context cannot be made only the fiber itself is freed.
\<close>

definition alloc_fiber :: "outside \<Rightarrow> fiber \<Rightarrow> 's fiber_world \<Rightarrow> ('s fiber_world \<times> addr) option" where
  "alloc_fiber o1 x w =
     (if o_fiber o1 = NULL \<or> o_fiber_node o1 = NULL then Some (w, NULL)
      else do {
        c_assert (o_stats o1 \<noteq> NULL);
        let w1 = w\<lparr>fw_nodes := alloc (fw_nodes w) (o_fiber_node o1) \<lparr>mn_data = NULL, mn_next = NULL\<rparr>,
                   fw_stats := alloc (fw_stats w) (o_stats o1) \<lparr>ls_banned_until = (0, 0), ls_slice_size = (0, 2)\<rparr>\<rparr>;
        Some (if o_context_ok o1
              then (w1\<lparr>fw_fibers := alloc (fw_fibers w) (o_fiber o1)
                      (x\<lparr>fb_mpsc_fifo_node := o_fiber_node o1, fb_fiber_stats := o_stats o1\<rparr>)\<rparr>, o_fiber o1)
              else (w1, NULL))
      })"

definition zero_fiber :: fiber where
  "zero_fiber = \<lparr>fb_state = FIBER_STATE_READY, fb_run_function = NULL, fb_param = NULL, fb_id = 0, fb_result = NULL,
     fb_mpsc_fifo_node = NULL, fb_detach_state = FIBER_DETACH_NONE, fb_join_info = NULL, fb_scratch = NULL, fb_fiber_stats = NULL\<rparr>"

definition fiber_create_no_sched :: "outside \<Rightarrow> addr \<Rightarrow> addr \<Rightarrow> 's fiber_world \<Rightarrow> ('s fiber_world \<times> addr) option" where
  "fiber_create_no_sched o1 run_function param =
     alloc_fiber o1 (zero_fiber\<lparr>fb_run_function := run_function, fb_param := param, fb_state := FIBER_STATE_READY, fb_id := 1\<rparr>)"

definition fiber_create_from_thread :: "outside \<Rightarrow> 's fiber_world \<Rightarrow> ('s fiber_world \<times> addr) option" where
  "fiber_create_from_thread o1 = alloc_fiber o1 (zero_fiber\<lparr>fb_state := FIBER_STATE_RUNNING, fb_id := 1\<rparr>)"

definition fiber_destroy :: "addr \<Rightarrow> 's fiber_world \<Rightarrow> 's fiber_world option" where
  "fiber_destroy f w =
     (if f = NULL then Some w
      else do {
        x \<leftarrow> load (fw_fibers w) f;
        c_assert (fb_state x = FIBER_STATE_DONE);
        ns \<leftarrow> dealloc (fw_nodes w) (fb_mpsc_fifo_node x);
        h \<leftarrow> dealloc (fw_fibers w) f;
        Some (w\<lparr>fw_nodes := ns, fw_fibers := h\<rparr>)
      })"

section \<open>Scheduling\<close>

definition fiber_manager_schedule :: "'s scheduler_ops \<Rightarrow> nat \<Rightarrow> addr \<Rightarrow> 's fiber_world \<Rightarrow> 's fiber_world option" where
  "fiber_manager_schedule ops t the_fiber w = do {
     c_assert (the_fiber \<noteq> NULL);
     s \<leftarrow> so_schedule ops t (fw_scheduler w) the_fiber;
     Some (w\<lparr>fw_scheduler := s\<rparr>)
   }"

definition fiber_create ::
  "'s scheduler_ops \<Rightarrow> outside \<Rightarrow> nat \<Rightarrow> addr \<Rightarrow> addr \<Rightarrow> 's fiber_world \<Rightarrow> ('s fiber_world \<times> addr) option" where
  "fiber_create ops o1 t run_function param w = do {
     (w1, ret) \<leftarrow> fiber_create_no_sched o1 run_function param w;
     if ret = NULL then Some (w1, NULL)
     else do { w2 \<leftarrow> fiber_manager_schedule ops t ret w1; Some (w2, ret) }
   }"

section \<open>Hazard records and the pool of nodes\<close>

definition fiber_manager_get_hazard_record :: "outside \<Rightarrow> nat \<Rightarrow> 's fiber_world \<Rightarrow> ('s fiber_world \<times> addr) option" where
  "fiber_manager_get_hazard_record o1 t w = do {
     m \<leftarrow> nth_opt (fw_managers w) t;
     if fm_mpmc_hptr m \<noteq> NULL then Some (w, fm_mpmc_hptr m)
     else do {
       (rh, r) \<leftarrow> hazard_pointer_thread_record_create_and_push (fw_records w) (fw_hazard_head w) MPMC_HAZARD_COUNT (o_record o1);
       w1 \<leftarrow> upd_manager t (\<lambda>m. m\<lparr>fm_mpmc_hptr := r\<rparr>) (w\<lparr>fw_records := rh, fw_hazard_head := r\<rparr>);
       Some (w1, r)
     }
   }"

text \<open>The address of \<open>fiber_manager_return_mpmc_node_internal\<close>, the reclamation callback of the nodes.\<close>

definition RETURN_MPMC_NODE :: addr where
  "RETURN_MPMC_NODE = 1"

definition free_mpmc_node :: "addr \<Rightarrow> 's fiber_world \<Rightarrow> 's fiber_world option" where
  "free_mpmc_node node w = do {
     mh \<leftarrow> dealloc (fw_mpmc_nodes w) node;
     nh \<leftarrow> dealloc (fw_hazard_nodes w) node;
     Some (w\<lparr>fw_mpmc_nodes := mh, fw_hazard_nodes := nh\<rparr>)
   }"

definition fiber_manager_return_mpmc_node_internal :: "bool \<Rightarrow> addr \<Rightarrow> 's fiber_world \<Rightarrow> 's fiber_world option" where
  "fiber_manager_return_mpmc_node_internal spurious hazard w =
     (case fw_free_mpmc_nodes w of
        None \<Rightarrow> free_mpmc_node hazard w
      | Some free_nodes \<Rightarrow> do {
          (rb, pushed) \<leftarrow> lockfree_ring_buffer_trypush free_nodes hazard spurious;
          if pushed \<noteq> 0 then Some (w\<lparr>fw_free_mpmc_nodes := Some rb\<rparr>)
          else free_mpmc_node hazard (w\<lparr>fw_free_mpmc_nodes := Some rb\<rparr>)
        })"

definition fiber_manager_return_mpmc_node :: "bool \<Rightarrow> addr \<Rightarrow> 's fiber_world \<Rightarrow> 's fiber_world option" where
  "fiber_manager_return_mpmc_node spurious node w = fiber_manager_return_mpmc_node_internal spurious node w"

text \<open>The callbacks of a scan; only the nodes of the pool have a callback.\<close>

fun run_gc_calls :: "bool \<Rightarrow> gc_call list \<Rightarrow> 's fiber_world \<Rightarrow> 's fiber_world option" where
  "run_gc_calls spurious [] w = Some w"
| "run_gc_calls spurious ((f, d, node) # cs) w =
     (if f = RETURN_MPMC_NODE
      then do { w1 \<leftarrow> fiber_manager_return_mpmc_node_internal spurious node w; run_gc_calls spurious cs w1 }
      else None)"

definition fiber_manager_get_mpmc_node :: "outside \<Rightarrow> 's fiber_world \<Rightarrow> ('s fiber_world \<times> addr) option" where
  "fiber_manager_get_mpmc_node o1 w = do {
     free_nodes \<leftarrow> (case fw_free_mpmc_nodes w of
                      Some rb \<Rightarrow> Some (Some rb)
                    | None \<Rightarrow> lockfree_ring_buffer_create 10 (o_ring_ok o1));
     rb0 \<leftarrow> free_nodes;
     (rb, ret) \<leftarrow> lockfree_ring_buffer_trypop rb0 (o_pop_spurious o1);
     let w1 = w\<lparr>fw_free_mpmc_nodes := Some rb\<rparr>;
     if ret \<noteq> NULL then Some (w1, ret)
     else do {
       let node = o_node o1;
       c_assert (node \<noteq> NULL);
       Some (w1\<lparr>fw_mpmc_nodes := alloc (fw_mpmc_nodes w1) node \<lparr>mq_value = o_junk o1 0, mq_prev = o_junk o1 1, mq_next = o_junk o1 2\<rparr>,
                fw_hazard_nodes := alloc (fw_hazard_nodes w1) node
                  \<lparr>hn_next = o_junk o1 3, hn_gc_data = NULL, hn_gc_function = RETURN_MPMC_NODE\<rparr>\<rparr>, node)
     }
   }"

section \<open>Waking\<close>

text \<open>
  Waking from a queue of the first kind.  The queue belongs to the caller and is passed by value.  When
  the queue is empty and more fibers are to be woken the fiber yields and tries again later: the outcome
  \<open>Must_Yield\<close> carries the number woken so far.
\<close>

datatype wake_outcome = Woken int | Must_Yield int

definition wake_mpsc_fiber :: "'s scheduler_ops \<Rightarrow> nat \<Rightarrow> addr \<Rightarrow> 's fiber_world \<Rightarrow> 's fiber_world option" where
  "wake_mpsc_fiber ops t out w = do {
     n \<leftarrow> load (fw_nodes w) out;
     let to_schedule = mn_data n;
     x \<leftarrow> load (fw_fibers w) to_schedule;
     c_assert (fb_mpsc_fifo_node x = NULL);
     w1 \<leftarrow> upd_fiber to_schedule (\<lambda>x. x\<lparr>fb_mpsc_fifo_node := out,
             fb_state := (if fb_state x = FIBER_STATE_WAITING then FIBER_STATE_READY else fb_state x)\<rparr>) w;
     fiber_manager_schedule ops t to_schedule w1
   }"

function fiber_manager_wake_from_mpsc_queue ::
  "'s scheduler_ops \<Rightarrow> nat \<Rightarrow> mpsc_fifo \<Rightarrow> int \<Rightarrow> int \<Rightarrow> 's fiber_world \<Rightarrow> ('s fiber_world \<times> mpsc_fifo \<times> wake_outcome) option" where
  "fiber_manager_wake_from_mpsc_queue ops t fifo cnt wake_count w = do {
     (ns, fifo1, out) \<leftarrow> mpsc_fifo_trypop (fw_nodes w) fifo;
     if out \<noteq> NULL
     then do {
       w1 \<leftarrow> wake_mpsc_fiber ops t out (w\<lparr>fw_nodes := ns\<rparr>);
       if wake_count + 1 < cnt then fiber_manager_wake_from_mpsc_queue ops t fifo1 cnt (wake_count + 1) w1
       else Some (w1, fifo1, Woken (wake_count + 1))
     }
     else if cnt > 0
     then do {
       w1 \<leftarrow> upd_manager t (\<lambda>m. m\<lparr>fm_wake_mpsc_spin_count := fm_wake_mpsc_spin_count m + 1\<rparr>) w;
       Some (w1, fifo1, Must_Yield wake_count)
     }
     else Some (w, fifo1, Woken wake_count)
   }"
  by pat_completeness auto
termination
  by (relation "measure (\<lambda>(ops, t, fifo, cnt, wake_count, w). nat (cnt - wake_count))") auto

lemmas [simp del] = fiber_manager_wake_from_mpsc_queue.simps

text \<open>\<open>fiber_mutex_unlock_internal\<close>; run alone, a counter that promises a waiter whose push is missing never returns.\<close>

definition fiber_mutex_unlock_call :: "'s scheduler_ops \<Rightarrow> nat \<Rightarrow> addr \<Rightarrow> 's fiber_world \<Rightarrow> ('s fiber_world \<times> int) option" where
  "fiber_mutex_unlock_call ops t mx w = do {
     m \<leftarrow> load (fw_mutexes w) mx;
     let (c, wake) = mutex_unlock_add (mx_counter m);
     h1 \<leftarrow> store (fw_mutexes w) mx (m\<lparr>mx_counter := c\<rparr>);
     let w1 = w\<lparr>fw_mutexes := h1\<rparr>;
     if wake
     then do {
       (w2, fifo, oc) \<leftarrow> fiber_manager_wake_from_mpsc_queue ops t (mx_waiters m) 1 0 w1;
       c_assert (oc = Woken 1);
       h2 \<leftarrow> store (fw_mutexes w2) mx (m\<lparr>mx_counter := c, mx_waiters := fifo\<rparr>);
       Some (w2\<lparr>fw_mutexes := h2\<rparr>, 1)
     }
     else Some (w1, 0)
   }"

text \<open>Popping from a queue of the second kind: the queue is at an address, and a pop may reclaim nodes.\<close>

definition mpmc_pop :: "outside \<Rightarrow> addr \<Rightarrow> addr \<Rightarrow> 's fiber_world \<Rightarrow> ('s fiber_world \<times> addr) option" where
  "mpmc_pop o1 hptr fifo w = do {
     q \<leftarrow> load (fw_mpmc w) fifo;
     (rh, nh, q1, out, calls) \<leftarrow>
       mpmc_fifo_trypop (fw_mpmc_nodes w) (fw_records w) (fw_hazard_nodes w) (fw_hazard_head w) hptr (o_junk o1) q (o_spurious o1);
     qs \<leftarrow> store (fw_mpmc w) fifo q1;
     w1 \<leftarrow> run_gc_calls (o_pop_spurious o1) calls (w\<lparr>fw_records := rh, fw_hazard_nodes := nh, fw_mpmc := qs\<rparr>);
     Some (w1, out)
   }"

definition wake_mpmc_fiber :: "'s scheduler_ops \<Rightarrow> nat \<Rightarrow> addr \<Rightarrow> 's fiber_world \<Rightarrow> 's fiber_world option" where
  "wake_mpmc_fiber ops t to_schedule w = do {
     x \<leftarrow> load (fw_fibers w) to_schedule;
     c_assert (fb_state x = FIBER_STATE_WAITING);
     w1 \<leftarrow> upd_fiber to_schedule (\<lambda>x. x\<lparr>fb_state := FIBER_STATE_READY\<rparr>) w;
     fiber_manager_schedule ops t to_schedule w1
   }"

text \<open>
  The loop of \<open>fiber_manager_wake_from_mpmc_queue\<close>: every fiber that is woken both raises \<open>wake_count\<close> and lowers
  \<open>count\<close>.  On an empty queue it spins while more are to be woken, which run alone does not return.
\<close>

function wake_mpmc_loop ::
  "'s scheduler_ops \<Rightarrow> outside \<Rightarrow> nat \<Rightarrow> addr \<Rightarrow> addr \<Rightarrow> int \<Rightarrow> int \<Rightarrow> 's fiber_world \<Rightarrow> ('s fiber_world \<times> int) option" where
  "wake_mpmc_loop ops o1 t hptr fifo cnt wake_count w = do {
     (w1, out) \<leftarrow> mpmc_pop o1 hptr fifo w;
     if out \<noteq> NULL
     then do {
       w2 \<leftarrow> wake_mpmc_fiber ops t out w1;
       if wake_count + 1 < cnt - 1 then wake_mpmc_loop ops o1 t hptr fifo (cnt - 1) (wake_count + 1) w2
       else Some (w2, wake_count + 1)
     }
     else if cnt > 0 \<and> wake_count < cnt then None
     else if cnt > 0
     then do { w2 \<leftarrow> upd_manager t (\<lambda>m. m\<lparr>fm_wake_mpmc_spin_count := fm_wake_mpmc_spin_count m + 1\<rparr>) w1; Some (w2, wake_count) }
     else Some (w1, wake_count)
   }"
  by pat_completeness auto
termination
  by (relation "measure (\<lambda>(ops, o1, t, hptr, fifo, cnt, wake_count, w). nat (cnt - wake_count))") auto

lemmas [simp del] = wake_mpmc_loop.simps

definition fiber_manager_wake_from_mpmc_queue ::
  "'s scheduler_ops \<Rightarrow> outside \<Rightarrow> nat \<Rightarrow> addr \<Rightarrow> int \<Rightarrow> 's fiber_world \<Rightarrow> ('s fiber_world \<times> int) option" where
  "fiber_manager_wake_from_mpmc_queue ops o1 t fifo cnt w = do {
     (w1, hptr) \<leftarrow> fiber_manager_get_hazard_record o1 t w;
     wake_mpmc_loop ops o1 t hptr fifo cnt 0 w1
   }"

section \<open>Maintenance\<close>

text \<open>The blocks of \<open>fiber_manager_do_maintenance\<close>, in the order of the code.\<close>

definition maintain_old :: "fiber_manager \<Rightarrow> 's fiber_world \<Rightarrow> 's fiber_world option" where
  "maintain_old m w = do {
     x \<leftarrow> load (fw_fibers w) (fm_old_fiber m);
     if fb_state x = FIBER_STATE_SAVING_STATE_TO_WAIT
     then upd_fiber (fm_old_fiber m) (\<lambda>x. x\<lparr>fb_state := FIBER_STATE_WAITING\<rparr>) w
     else Some w
   }"

definition maintain_done :: "nat \<Rightarrow> fiber_manager \<Rightarrow> 's fiber_world \<Rightarrow> 's fiber_world option" where
  "maintain_done t m w =
     (if fm_done_fiber m = NULL then Some w
      else do { w1 \<leftarrow> fiber_destroy (fm_done_fiber m) w; upd_manager t (\<lambda>m. m\<lparr>fm_done_fiber := NULL\<rparr>) w1 })"

definition maintain_schedule :: "'s scheduler_ops \<Rightarrow> nat \<Rightarrow> fiber_manager \<Rightarrow> 's fiber_world \<Rightarrow> 's fiber_world option" where
  "maintain_schedule ops t m w =
     (if fm_to_schedule m = NULL then Some w
      else do {
        x \<leftarrow> load (fw_fibers w) (fm_to_schedule m);
        c_assert (fb_state x = FIBER_STATE_READY);
        s \<leftarrow> so_schedule ops t (fw_scheduler w) (fm_to_schedule m);
        upd_manager t (\<lambda>m. m\<lparr>fm_to_schedule := NULL\<rparr>) (w\<lparr>fw_scheduler := s\<rparr>)
      })"

definition maintain_mpmc :: "outside \<Rightarrow> nat \<Rightarrow> fiber_manager \<Rightarrow> 's fiber_world \<Rightarrow> 's fiber_world option" where
  "maintain_mpmc o1 t m w =
     (case fm_mpmc_to_push m of (fifo, node) \<Rightarrow>
        if fifo = NULL then Some w
        else do {
          (w1, hptr) \<leftarrow> fiber_manager_get_hazard_record o1 t w;
          q \<leftarrow> load (fw_mpmc w1) fifo;
          (mh, rh, q1) \<leftarrow> mpmc_fifo_push (fw_mpmc_nodes w1) (fw_records w1) hptr q node (o_spurious o1);
          qs \<leftarrow> store (fw_mpmc w1) fifo q1;
          upd_manager t (\<lambda>m. m\<lparr>fm_mpmc_to_push := (NULL, NULL)\<rparr>) (w1\<lparr>fw_mpmc_nodes := mh, fw_records := rh, fw_mpmc := qs\<rparr>)
        })"

definition maintain_mpsc :: "nat \<Rightarrow> fiber_manager \<Rightarrow> 's fiber_world \<Rightarrow> 's fiber_world option" where
  "maintain_mpsc t m w =
     (case fm_mpsc_to_push m of (fifo, node) \<Rightarrow>
        if fifo = NULL then Some w
        else do {
          q \<leftarrow> load (fw_mpsc w) fifo;
          (ns, q1) \<leftarrow> mpsc_fifo_push (fw_nodes w) q node;
          qs \<leftarrow> store (fw_mpsc w) fifo q1;
          upd_manager t (\<lambda>m. m\<lparr>fm_mpsc_to_push := (NULL, NULL)\<rparr>) (w\<lparr>fw_nodes := ns, fw_mpsc := qs\<rparr>)
        })"

definition maintain_mutex :: "'s scheduler_ops \<Rightarrow> nat \<Rightarrow> fiber_manager \<Rightarrow> 's fiber_world \<Rightarrow> 's fiber_world option" where
  "maintain_mutex ops t m w =
     (if fm_mutex_to_unlock m = NULL then Some w
      else do {
        w1 \<leftarrow> upd_manager t (\<lambda>m. m\<lparr>fm_mutex_to_unlock := NULL\<rparr>) w;
        (w2, r) \<leftarrow> fiber_mutex_unlock_call ops t (fm_mutex_to_unlock m) w1;
        Some w2
      })"

definition maintain_spinlock :: "nat \<Rightarrow> fiber_manager \<Rightarrow> 's fiber_world \<Rightarrow> 's fiber_world option" where
  "maintain_spinlock t m w =
     (if fm_spinlock_to_unlock m = NULL then Some w
      else do {
        w1 \<leftarrow> upd_manager t (\<lambda>m. m\<lparr>fm_spinlock_to_unlock := NULL\<rparr>) w;
        l \<leftarrow> load (fw_spinlocks w1) (fm_spinlock_to_unlock m);
        h \<leftarrow> store (fw_spinlocks w1) (fm_spinlock_to_unlock m) (fst (fiber_spinlock_unlock l));
        Some (w1\<lparr>fw_spinlocks := h\<rparr>)
      })"

fun store_location :: "wait_location \<Rightarrow> addr \<Rightarrow> 's fiber_world \<Rightarrow> 's fiber_world option" where
  "store_location (Loc_Join_Info f) v w = upd_fiber f (\<lambda>x. x\<lparr>fb_join_info := v\<rparr>) w"
| "store_location (Loc_Scratch f) v w = upd_fiber f (\<lambda>x. x\<lparr>fb_scratch := v\<rparr>) w"
| "store_location (Loc_Word a) v w = Some (w\<lparr>fw_words := (fw_words w)(a := v)\<rparr>)"

fun load_location :: "wait_location \<Rightarrow> 's fiber_world \<Rightarrow> addr option" where
  "load_location (Loc_Join_Info f) w = do { x \<leftarrow> load (fw_fibers w) f; Some (fb_join_info x) }"
| "load_location (Loc_Scratch f) w = do { x \<leftarrow> load (fw_fibers w) f; Some (fb_scratch x) }"
| "load_location (Loc_Word a) w = Some (fw_words w a)"

definition maintain_wait :: "nat \<Rightarrow> fiber_manager \<Rightarrow> 's fiber_world \<Rightarrow> 's fiber_world option" where
  "maintain_wait t m w =
     (case fm_set_wait_location m of
        None \<Rightarrow> Some w
      | Some l \<Rightarrow> do {
          w1 \<leftarrow> store_location l (fm_set_wait_value m) w;
          upd_manager t (\<lambda>m. m\<lparr>fm_set_wait_location := None, fm_set_wait_value := NULL\<rparr>) w1
        })"

text \<open>
  No block changes a field of the manager that a later block reads, so the blocks read the fields the
  manager had at the start.
\<close>

definition fiber_manager_do_maintenance :: "'s scheduler_ops \<Rightarrow> outside \<Rightarrow> nat \<Rightarrow> 's fiber_world \<Rightarrow> 's fiber_world option" where
  "fiber_manager_do_maintenance ops o1 t w = do {
     m \<leftarrow> nth_opt (fw_managers w) t;
     w1 \<leftarrow> maintain_old m w;
     w2 \<leftarrow> maintain_done t m w1;
     w3 \<leftarrow> maintain_schedule ops t m w2;
     w4 \<leftarrow> maintain_mpmc o1 t m w3;
     w5 \<leftarrow> maintain_mpsc t m w4;
     w6 \<leftarrow> maintain_mutex ops t m w5;
     w7 \<leftarrow> maintain_spinlock t m w6;
     maintain_wait t m w7
   }"

section \<open>Switching\<close>

definition fiber_manager_switch_to ::
  "'s scheduler_ops \<Rightarrow> outside \<Rightarrow> nat \<Rightarrow> addr \<Rightarrow> addr \<Rightarrow> 's fiber_world \<Rightarrow> 's fiber_world option" where
  "fiber_manager_switch_to ops o1 t old_fiber new_fiber w = do {
     x \<leftarrow> load (fw_fibers w) old_fiber;
     w1 \<leftarrow> (if fb_state x = FIBER_STATE_RUNNING
            then do {
              w' \<leftarrow> upd_fiber old_fiber (\<lambda>x. x\<lparr>fb_state := FIBER_STATE_READY\<rparr>) w;
              upd_manager t (\<lambda>m. m\<lparr>fm_to_schedule := old_fiber\<rparr>) w'
            }
            else Some w);
     w2 \<leftarrow> upd_manager t (\<lambda>m. m\<lparr>fm_current_fiber := new_fiber, fm_old_fiber := old_fiber\<rparr>) w1;
     w3 \<leftarrow> upd_fiber new_fiber (\<lambda>x. x\<lparr>fb_state := FIBER_STATE_RUNNING\<rparr>) w2;
     fiber_manager_do_maintenance ops o1 t w3
   }"

text \<open>\<open>timercmp\<close> with \<open>>\<close>, on seconds and microseconds.\<close>

definition timer_greater :: "int \<times> int \<Rightarrow> int \<times> int \<Rightarrow> bool" where
  "timer_greater a b \<longleftrightarrow> (if fst a = fst b then snd a > snd b else fst a > fst b)"

text \<open>
  A turn of the loop of \<open>fiber_manager_yield\<close>.  \<open>Returned\<close>: the call returns and the fiber goes on running;
  \<open>Switched f\<close>: \<open>f\<close> runs, and the call returns when the calling fiber is switched in again; \<open>Again f\<close>: \<open>f\<close> runs,
  and the calling fiber takes another turn when it is switched in again.
\<close>

datatype yield_outcome = Returned | Switched addr | Again addr

definition maybe_load_balance :: "'s scheduler_ops \<Rightarrow> nat \<Rightarrow> 's fiber_world \<Rightarrow> 's fiber_world option" where
  "maybe_load_balance ops t w = do {
     m \<leftarrow> nth_opt (fw_managers w) t;
     if and (fm_yield_count m) 1023 = 0
     then do { s \<leftarrow> so_load_balance ops t (fw_scheduler w); Some (w\<lparr>fw_scheduler := s\<rparr>) }
     else Some w
   }"

text \<open>The test of the statistics: the flag is read only when the fiber is not banned.\<close>

definition may_run :: "outside \<Rightarrow> addr \<Rightarrow> 's fiber_world \<Rightarrow> ('s fiber_world \<times> bool) option" where
  "may_run o1 new_fiber w = do {
     a \<leftarrow> get_lock_stats w new_fiber;
     new_fiber_lock_stats \<leftarrow> load (fw_stats w) a;
     if timer_greater (o_now o1) (ls_banned_until new_fiber_lock_stats)
     then do { (l, v) \<leftarrow> is_lock_using (fw_schedule_lock w); Some (w\<lparr>fw_schedule_lock := l\<rparr>, v \<noteq> 1) }
     else Some (w, False)
   }"

definition get_maintenance_fiber :: "outside \<Rightarrow> nat \<Rightarrow> addr \<Rightarrow> 's fiber_world \<Rightarrow> ('s fiber_world \<times> addr) option" where
  "get_maintenance_fiber o1 t thread_func w = do {
     m \<leftarrow> nth_opt (fw_managers w) t;
     if fm_maintenance_fiber m \<noteq> NULL then Some (w, fm_maintenance_fiber m)
     else do {
       (w1, f) \<leftarrow> fiber_create_no_sched o1 thread_func t w;
       w2 \<leftarrow> upd_manager t (\<lambda>m. m\<lparr>fm_maintenance_fiber := f\<rparr>) w1;
       Some (w2, f)
     }
   }"

text \<open>The address of \<open>fiber_manager_thread_func\<close>.\<close>

definition THREAD_FUNC :: addr where
  "THREAD_FUNC = 2"

definition fiber_manager_yield ::
  "'s scheduler_ops \<Rightarrow> outside \<Rightarrow> nat \<Rightarrow> 's fiber_world \<Rightarrow> ('s fiber_world \<times> yield_outcome) option" where
  "fiber_manager_yield ops o1 t w = do {
     c_assert (fw_state w = FIBER_MANAGER_STATE_STARTED);
     m \<leftarrow> nth_opt (fw_managers w) t;
     let current_fiber = fm_current_fiber m;
     w1 \<leftarrow> upd_manager t (\<lambda>m. m\<lparr>fm_yield_count := fm_yield_count m + 1\<rparr>) w;
     x \<leftarrow> load (fw_fibers w1) current_fiber;
     let state = fb_state x;
     (s, new_fiber) \<leftarrow> so_next ops t (saving w1) (fw_scheduler w1);
     let w2 = w1\<lparr>fw_scheduler := s\<rparr>;
     if new_fiber \<noteq> NULL
     then do {
       (w3, ok) \<leftarrow> may_run o1 new_fiber w2;
       if ok
       then do {
         l \<leftarrow> set_lock_status (fw_schedule_lock w3);
         w4 \<leftarrow> fiber_manager_switch_to ops o1 t current_fiber new_fiber (w3\<lparr>fw_schedule_lock := l\<rparr>);
         Some (w4, Switched new_fiber)
       }
       else do {
         w4 \<leftarrow> fiber_manager_schedule ops t current_fiber w3;
         w5 \<leftarrow> maybe_load_balance ops t w4;
         Some (w5, Returned)
       }
     }
     else if state = FIBER_STATE_WAITING \<or> state = FIBER_STATE_DONE \<or> state = FIBER_STATE_SAVING_STATE_TO_WAIT
     then do {
       (w3, f) \<leftarrow> get_maintenance_fiber o1 t THREAD_FUNC w2;
       w4 \<leftarrow> fiber_manager_switch_to ops o1 t current_fiber f w3;
       Some (w4, Again f)
     }
     else do { w3 \<leftarrow> maybe_load_balance ops t w2; Some (w3, Returned) }
   }"

section \<open>Waiting\<close>

definition set_current_state :: "nat \<Rightarrow> fiber_state \<Rightarrow> 's fiber_world \<Rightarrow> 's fiber_world option" where
  "set_current_state t st w = do {
     m \<leftarrow> nth_opt (fw_managers w) t;
     x \<leftarrow> load (fw_fibers w) (fm_current_fiber m);
     c_assert (fb_state x = FIBER_STATE_RUNNING);
     upd_fiber (fm_current_fiber m) (\<lambda>x. x\<lparr>fb_state := st\<rparr>) w
   }"

definition fiber_manager_wait_in_mpmc_queue ::
  "'s scheduler_ops \<Rightarrow> outside \<Rightarrow> nat \<Rightarrow> addr \<Rightarrow> 's fiber_world \<Rightarrow> ('s fiber_world \<times> yield_outcome) option" where
  "fiber_manager_wait_in_mpmc_queue ops o1 t fifo w = do {
     c_assert (fifo \<noteq> NULL);
     m \<leftarrow> nth_opt (fw_managers w) t;
     w1 \<leftarrow> set_current_state t FIBER_STATE_WAITING w;
     (w2, node) \<leftarrow> fiber_manager_get_mpmc_node o1 w1;
     n \<leftarrow> load (fw_mpmc_nodes w2) node;
     mh \<leftarrow> store (fw_mpmc_nodes w2) node (n\<lparr>mq_value := fm_current_fiber m\<rparr>);
     w3 \<leftarrow> upd_manager t (\<lambda>m. m\<lparr>fm_mpmc_to_push := (fifo, node)\<rparr>) (w2\<lparr>fw_mpmc_nodes := mh\<rparr>);
     fiber_manager_yield ops o1 t w3
   }"

definition fiber_manager_wait_in_mpsc_queue ::
  "'s scheduler_ops \<Rightarrow> outside \<Rightarrow> nat \<Rightarrow> mpsc_fifo \<Rightarrow> 's fiber_world \<Rightarrow> ('s fiber_world \<times> mpsc_fifo \<times> yield_outcome) option" where
  "fiber_manager_wait_in_mpsc_queue ops o1 t fifo w = do {
     m \<leftarrow> nth_opt (fw_managers w) t;
     x \<leftarrow> load (fw_fibers w) (fm_current_fiber m);
     c_assert (fb_mpsc_fifo_node x \<noteq> NULL);
     w1 \<leftarrow> set_current_state t FIBER_STATE_SAVING_STATE_TO_WAIT w;
     let node = fb_mpsc_fifo_node x;
     n \<leftarrow> load (fw_nodes w1) node;
     ns \<leftarrow> store (fw_nodes w1) node (n\<lparr>mn_data := fm_current_fiber m\<rparr>);
     w2 \<leftarrow> upd_fiber (fm_current_fiber m) (\<lambda>x. x\<lparr>fb_mpsc_fifo_node := NULL\<rparr>) w1;
     (ns1, fifo1) \<leftarrow> mpsc_fifo_push ns fifo node;
     (w3, oc) \<leftarrow> fiber_manager_yield ops o1 t (w2\<lparr>fw_nodes := ns1\<rparr>);
     Some (w3, fifo1, oc)
   }"

definition fiber_manager_wait_in_mpsc_queue_and_unlock ::
  "'s scheduler_ops \<Rightarrow> outside \<Rightarrow> nat \<Rightarrow> mpsc_fifo \<Rightarrow> addr \<Rightarrow> 's fiber_world \<Rightarrow> ('s fiber_world \<times> mpsc_fifo \<times> yield_outcome) option" where
  "fiber_manager_wait_in_mpsc_queue_and_unlock ops o1 t fifo mutex w = do {
     w1 \<leftarrow> upd_manager t (\<lambda>m. m\<lparr>fm_mutex_to_unlock := mutex\<rparr>) w;
     fiber_manager_wait_in_mpsc_queue ops o1 t fifo w1
   }"

definition fiber_manager_set_and_wait ::
  "'s scheduler_ops \<Rightarrow> outside \<Rightarrow> nat \<Rightarrow> wait_location \<Rightarrow> addr \<Rightarrow> 's fiber_world \<Rightarrow> ('s fiber_world \<times> yield_outcome) option" where
  "fiber_manager_set_and_wait ops o1 t location v w = do {
     c_assert (v \<noteq> NULL);
     m \<leftarrow> nth_opt (fw_managers w) t;
     w1 \<leftarrow> upd_manager t (\<lambda>m. m\<lparr>fm_set_wait_location := Some location, fm_set_wait_value := v\<rparr>) w;
     w2 \<leftarrow> set_current_state t FIBER_STATE_WAITING w1;
     fiber_manager_yield ops o1 t w2
   }"

text \<open>
  A turn of \<open>fiber_manager_clear_or_wait\<close>: the value, or a yield after which the fiber takes another turn.
\<close>

definition fiber_manager_clear_or_wait ::
  "'s scheduler_ops \<Rightarrow> outside \<Rightarrow> nat \<Rightarrow> wait_location \<Rightarrow> 's fiber_world \<Rightarrow> ('s fiber_world \<times> (addr + yield_outcome)) option" where
  "fiber_manager_clear_or_wait ops o1 t location w = do {
     ret \<leftarrow> load_location location w;
     w1 \<leftarrow> store_location location NULL w;
     if ret \<noteq> NULL then Some (w1, Inl ret)
     else do { (w2, oc) \<leftarrow> fiber_manager_yield ops o1 t w1; Some (w2, Inr oc) }
   }"

section \<open>Behaviour\<close>

lemma upd_fiber_Some:
  "fw_fibers w f = Some x \<Longrightarrow> f \<noteq> NULL \<Longrightarrow> upd_fiber f g w = Some (w\<lparr>fw_fibers := (fw_fibers w)(f \<mapsto> g x)\<rparr>)"
  by (simp add: upd_fiber_def)

lemma upd_manager_Some:
  "t < length (fw_managers w) \<Longrightarrow> upd_manager t g w = Some (w\<lparr>fw_managers := (fw_managers w)[t := g (fw_managers w ! t)]\<rparr>)"
  by (simp add: upd_manager_def)

lemmas upd_Some = upd_fiber_Some upd_manager_Some

text \<open>A manager with nothing deferred; only \<open>to_schedule\<close> and the wait location vary between two switches.\<close>

definition nothing_pending :: "fiber_manager \<Rightarrow> bool" where
  "nothing_pending m \<longleftrightarrow> fm_done_fiber m = NULL \<and> fm_mpmc_to_push m = (NULL, NULL) \<and> fm_mpsc_to_push m = (NULL, NULL) \<and>
     fm_mutex_to_unlock m = NULL \<and> fm_spinlock_to_unlock m = NULL"

lemma maintenance_pending:
  assumes "t < length (fw_managers w)" "nothing_pending (fw_managers w ! t)"
  shows "fiber_manager_do_maintenance ops o1 t w = do {
     w1 \<leftarrow> maintain_old (fw_managers w ! t) w;
     w2 \<leftarrow> maintain_schedule ops t (fw_managers w ! t) w1;
     maintain_wait t (fw_managers w ! t) w2 }"
  using assms by (simp add: fiber_manager_do_maintenance_def nothing_pending_def maintain_done_def maintain_mpmc_def
      maintain_mpsc_def maintain_mutex_def maintain_spinlock_def)

lemma saving_cong: "fw_fibers w = fw_fibers w' \<Longrightarrow> saving w = saving w'"
  by (simp add: saving_def fun_eq_iff)

text \<open>A switch away from a running fiber: it is scheduled again, and the new fiber runs.\<close>

lemma switch_to_running:
  assumes "t < length (fw_managers w)" "m = fw_managers w ! t" "nothing_pending m" "fm_set_wait_location m = None"
    and "fw_fibers w c = Some x" "c \<noteq> NULL" "fb_state x = FIBER_STATE_RUNNING"
    and "fw_fibers w f = Some y" "f \<noteq> NULL" "f \<noteq> c"
    and "so_schedule ops t (fw_scheduler w) c = Some s"
  shows "fiber_manager_switch_to ops o1 t c f w = Some (w\<lparr>
     fw_fibers := (fw_fibers w)(c \<mapsto> x\<lparr>fb_state := FIBER_STATE_READY\<rparr>, f \<mapsto> y\<lparr>fb_state := FIBER_STATE_RUNNING\<rparr>),
     fw_managers := (fw_managers w)[t := m\<lparr>fm_current_fiber := f, fm_old_fiber := c, fm_to_schedule := NULL\<rparr>],
     fw_scheduler := s\<rparr>)"
proof -
  let ?w = "w\<lparr>fw_managers := (fw_managers w)[t := m\<lparr>fm_to_schedule := c, fm_current_fiber := f, fm_old_fiber := c\<rparr>],
     fw_fibers := (fw_fibers w)(c \<mapsto> x\<lparr>fb_state := FIBER_STATE_READY\<rparr>, f \<mapsto> y\<lparr>fb_state := FIBER_STATE_RUNNING\<rparr>)\<rparr>"
  have "fiber_manager_switch_to ops o1 t c f w = fiber_manager_do_maintenance ops o1 t ?w"
    using assms by (simp add: fiber_manager_switch_to_def upd_Some)
  also have "\<dots> = do { w1 \<leftarrow> maintain_old (fw_managers ?w ! t) ?w; w2 \<leftarrow> maintain_schedule ops t (fw_managers ?w ! t) w1;
      maintain_wait t (fw_managers ?w ! t) w2 }"
    using assms by (intro maintenance_pending) (simp_all add: nothing_pending_def)
  also have "\<dots> = Some (w\<lparr>
     fw_fibers := (fw_fibers w)(c \<mapsto> x\<lparr>fb_state := FIBER_STATE_READY\<rparr>, f \<mapsto> y\<lparr>fb_state := FIBER_STATE_RUNNING\<rparr>),
     fw_managers := (fw_managers w)[t := m\<lparr>fm_current_fiber := f, fm_old_fiber := c, fm_to_schedule := NULL\<rparr>],
     fw_scheduler := s\<rparr>)"
    using assms by (simp add: maintain_old_def maintain_schedule_def maintain_wait_def upd_Some)
  finally show ?thesis .
qed

text \<open>A switch away from a waiting fiber, with a wait location to be published.\<close>

lemma switch_to_waiting:
  assumes "t < length (fw_managers w)" "m = fw_managers w ! t" "nothing_pending m" "fm_to_schedule m = NULL"
      "fm_set_wait_location m = Some (Loc_Join_Info g)" "fm_set_wait_value m = v"
    and "fw_fibers w c = Some x" "c \<noteq> NULL" "fb_state x = FIBER_STATE_WAITING"
    and "fw_fibers w f = Some y" "f \<noteq> NULL" "f \<noteq> c"
    and "((fw_fibers w)(f \<mapsto> y\<lparr>fb_state := FIBER_STATE_RUNNING\<rparr>)) g = Some z" "g \<noteq> NULL"
  shows "fiber_manager_switch_to ops o1 t c f w = Some (w\<lparr>
     fw_fibers := (fw_fibers w)(f \<mapsto> y\<lparr>fb_state := FIBER_STATE_RUNNING\<rparr>, g \<mapsto> z\<lparr>fb_join_info := v\<rparr>),
     fw_managers := (fw_managers w)[t := m\<lparr>fm_current_fiber := f, fm_old_fiber := c, fm_set_wait_location := None, fm_set_wait_value := NULL\<rparr>]\<rparr>)"
proof -
  let ?w = "w\<lparr>fw_managers := (fw_managers w)[t := m\<lparr>fm_current_fiber := f, fm_old_fiber := c\<rparr>],
     fw_fibers := (fw_fibers w)(f \<mapsto> y\<lparr>fb_state := FIBER_STATE_RUNNING\<rparr>)\<rparr>"
  have "fiber_manager_switch_to ops o1 t c f w = fiber_manager_do_maintenance ops o1 t ?w"
    using assms by (simp add: fiber_manager_switch_to_def upd_Some)
  also have "\<dots> = do { w1 \<leftarrow> maintain_old (fw_managers ?w ! t) ?w; w2 \<leftarrow> maintain_schedule ops t (fw_managers ?w ! t) w1;
      maintain_wait t (fw_managers ?w ! t) w2 }"
    using assms by (intro maintenance_pending) (simp_all add: nothing_pending_def)
  also have "\<dots> = Some (w\<lparr>
     fw_fibers := (fw_fibers w)(f \<mapsto> y\<lparr>fb_state := FIBER_STATE_RUNNING\<rparr>, g \<mapsto> z\<lparr>fb_join_info := v\<rparr>),
     fw_managers := (fw_managers w)[t := m\<lparr>fm_current_fiber := f, fm_old_fiber := c, fm_set_wait_location := None, fm_set_wait_value := NULL\<rparr>]\<rparr>)"
  proof -
    have "((fw_fibers w)(f \<mapsto> y\<lparr>fb_state := FIBER_STATE_RUNNING\<rparr>)) c = Some x" using assms by simp
    with assms show ?thesis
      by (simp add: maintain_old_def maintain_schedule_def maintain_wait_def upd_Some del: fun_upd_apply)
  qed
  finally show ?thesis .
qed

text \<open>What a yield needs of a ready fiber: it exists and has statistics, and its ban (if any) is known.\<close>

definition ban_of :: "'s fiber_world \<Rightarrow> addr \<Rightarrow> (int \<times> int) option" where
  "ban_of w f = do { a \<leftarrow> get_lock_stats w f; s \<leftarrow> load (fw_stats w) a; Some (ls_banned_until s) }"

lemma may_run_free:
  assumes "lock_free (fw_schedule_lock w)" "ban_of w f = Some b"
  shows "may_run o1 f w = Some (w, timer_greater (o_now o1) b \<and> sk_lock_using (fw_schedule_lock w) \<noteq> 1)"
  using assms by (auto simp: may_run_def ban_of_def bind_eq_Some_conv is_lock_using_free)

text \<open>The state in which a running fiber calls into its manager.\<close>

definition runs :: "nat \<Rightarrow> addr \<Rightarrow> 's fiber_world \<Rightarrow> bool" where
  "runs t c w \<longleftrightarrow> fw_state w = FIBER_MANAGER_STATE_STARTED \<and> t < length (fw_managers w) \<and>
     fm_current_fiber (fw_managers w ! t) = c \<and> c \<noteq> NULL \<and> nothing_pending (fw_managers w ! t) \<and>
     fm_set_wait_location (fw_managers w ! t) = None \<and> fm_to_schedule (fw_managers w ! t) = NULL \<and>
     map_option fb_state (fw_fibers w c) = Some FIBER_STATE_RUNNING"

lemma ban_of_Some: "ban_of w f = Some b \<Longrightarrow> f \<noteq> NULL \<and> (\<exists>y. fw_fibers w f = Some y)"
  by (auto simp: ban_of_def get_lock_stats_def bind_eq_Some_conv dest: load_SomeD)

lemma ban_of_cong: "fw_fibers w = fw_fibers w' \<Longrightarrow> fw_stats w = fw_stats w' \<Longrightarrow> ban_of w = ban_of w'"
  by (intro ext) (simp add: ban_of_def get_lock_stats_def)

definition yield_counted :: "nat \<Rightarrow> 's fiber_world \<Rightarrow> 's fiber_world" where
  "yield_counted t w =
     w\<lparr>fw_managers := (fw_managers w)[t := (fw_managers w ! t)\<lparr>fm_yield_count := fm_yield_count (fw_managers w ! t) + 1\<rparr>]\<rparr>"

locale manager_scheduler = balanced_scheduler "so_schedule ops t" "so_next ops t" ready ok "so_load_balance ops t"
  for ops :: "'s scheduler_ops" and t :: nat and ready :: "'s \<Rightarrow> addr multiset" and ok :: "nat \<Rightarrow> addr list \<Rightarrow> 's \<Rightarrow> bool"
begin

lemma maybe_load_balance_ok:
  assumes "ok (Suc k) fibers (fw_scheduler w)" "t < length (fw_managers w)"
  shows "\<exists>s. maybe_load_balance ops t w = Some (w\<lparr>fw_scheduler := s\<rparr>) \<and> ok k fibers s \<and> ready s = ready (fw_scheduler w)"
proof (cases "and (fm_yield_count (fw_managers w ! t)) 1023 = 0")
  case True
  with balance_ok [OF assms(1)] assms(2) show ?thesis by (auto simp: maybe_load_balance_def)
next
  case False
  then have "maybe_load_balance ops t w = Some (w\<lparr>fw_scheduler := fw_scheduler w\<rparr>)"
    using assms(2) by (simp add: maybe_load_balance_def)
  with weaken [OF assms(1)] show ?thesis by blast
qed

text \<open>
  A yield of a running fiber: nothing is ready that can run, or a fiber is taken and switched to, or a fiber is taken
  and may not run.
\<close>

lemma yield_cases:
  assumes "runs t c w" "lock_free (fw_schedule_lock w)" "ok (Suc (Suc (Suc k))) fibers (fw_scheduler w)"
    and "c \<in> set fibers" "c \<notin># ready (fw_scheduler w)"
    and "\<forall>f \<in># ready (fw_scheduler w). ban_of w f \<noteq> None"
    and "ready (fw_scheduler w) = {#} \<or> (\<exists>f. f \<in># ready (fw_scheduler w) \<and> \<not> saving w f)"
  shows "\<exists>w' oc. fiber_manager_yield ops o1 t w = Some (w', oc) \<and> ok k fibers (fw_scheduler w') \<and>
     (\<exists>s f. so_next ops t (saving w) (fw_scheduler w) = Some (s, f) \<and>
       (if f = NULL then oc = Returned \<and> ready (fw_scheduler w') = ready (fw_scheduler w) \<and> runs t c w'
        else f \<in># ready (fw_scheduler w) \<and> \<not> saving w f \<and>
          ready (fw_scheduler w') = ready (fw_scheduler w) - {#f#} + {#c#} \<and>
          (if timer_greater (o_now o1) (the (ban_of w f)) \<and> sk_lock_using (fw_schedule_lock w) \<noteq> 1
           then oc = Switched f \<and> runs t f w' \<and> map_option fb_state (fw_fibers w' c) = Some FIBER_STATE_READY \<and>
                lock_free (fw_schedule_lock w') \<and> sk_lock_using (fw_schedule_lock w') = 1
           else oc = Returned \<and> runs t c w')))"
proof -
  let ?s = "fw_scheduler w" and ?w1 = "yield_counted t w"
  have st: "fw_state w = FIBER_MANAGER_STATE_STARTED" "t < length (fw_managers w)" "fm_current_fiber (fw_managers w ! t) = c"
      "c \<noteq> NULL" "nothing_pending (fw_managers w ! t)" "fm_set_wait_location (fw_managers w ! t) = None"
      "fm_to_schedule (fw_managers w ! t) = NULL"
    using assms(1) by (auto simp: runs_def)
  obtain x where x: "fw_fibers w c = Some x" "fb_state x = FIBER_STATE_RUNNING" using assms(1) by (auto simp: runs_def)
  have w1: "upd_manager t (\<lambda>m. m\<lparr>fm_yield_count := fm_yield_count m + 1\<rparr>) w = Some ?w1"
      "fw_fibers ?w1 = fw_fibers w" "fw_scheduler ?w1 = ?s" "fw_stats ?w1 = fw_stats w" "fw_schedule_lock ?w1 = fw_schedule_lock w"
      "t < length (fw_managers ?w1)" "nothing_pending (fw_managers ?w1 ! t)" "fm_set_wait_location (fw_managers ?w1 ! t) = None"
      "fw_state ?w1 = fw_state w" "fm_current_fiber (fw_managers ?w1 ! t) = c" "fm_to_schedule (fw_managers ?w1 ! t) = NULL"
    using st by (simp_all add: upd_Some yield_counted_def nothing_pending_def)
  have sav: "saving ?w1 = saving w" using saving_cong w1(2) by blast
  obtain s f where n: "so_next ops t (saving w) ?s = Some (s, f)" "ok (Suc (Suc k)) fibers s"
      "if f = NULL then ready s = ready ?s else \<not> saving w f \<and> ready ?s = add_mset f (ready s)"
    using next_ok [OF assms(3,7)] by blast
  let ?w2 = "?w1\<lparr>fw_scheduler := s\<rparr>"
  note yd = fiber_manager_yield_def
  show ?thesis
  proof (cases "f = NULL")
    case True
    obtain s2 where s2: "maybe_load_balance ops t ?w2 = Some (?w2\<lparr>fw_scheduler := s2\<rparr>)" "ok (Suc k) fibers s2" "ready s2 = ready s"
      using maybe_load_balance_ok [of "Suc k" fibers ?w2] n(2) w1(6) by auto
    have "fiber_manager_yield ops o1 t w = Some (?w2\<lparr>fw_scheduler := s2\<rparr>, Returned)"
      using st w1 x sav n(1) True s2(1) by (simp add: yd)
    moreover have "runs t c (?w2\<lparr>fw_scheduler := s2\<rparr>)" using w1 st x by (simp add: runs_def)
    ultimately show ?thesis using True n s2 weaken by (intro exI conjI) auto
  next
    case False
    then have f: "f \<in># ready ?s" "\<not> saving w f" "ready s = ready ?s - {#f#}" using n(3) by simp_all
    obtain b where b: "ban_of w f = Some b" using assms(6) f(1) by auto
    have b2: "ban_of ?w2 f = Some b" using b ban_of_cong [of w ?w2] w1 by simp
    have ok2: "may_run o1 f ?w2 = Some (?w2, timer_greater (o_now o1) b \<and> sk_lock_using (fw_schedule_lock w) \<noteq> 1)"
      using may_run_free [OF _ b2] assms(2) w1(5) by simp
    have fc: "f \<noteq> c" using f(1) assms(5) by auto
    have nr: "c \<notin># ready s" using assms(5) f(3) by (auto dest: in_diffD)
    obtain s2 where s2: "so_schedule ops t s c = Some s2" "ok (Suc k) fibers s2" "ready s2 = add_mset c (ready s)"
      using schedule_ok [OF n(2) assms(4) nr] by blast
    show ?thesis
    proof (cases "timer_greater (o_now o1) b \<and> sk_lock_using (fw_schedule_lock w) \<noteq> 1")
      case True
      obtain y where y: "fw_fibers w f = Some y" "f \<noteq> NULL" using ban_of_Some [OF b] by auto
      let ?l = "(fw_schedule_lock w)\<lparr>sk_lock_using := 1\<rparr>"
      let ?w3 = "?w2\<lparr>fw_schedule_lock := ?l\<rparr>"
      let ?m = "fw_managers ?w1 ! t"
      have sw: "fiber_manager_switch_to ops o1 t c f ?w3 = Some (?w3\<lparr>
          fw_fibers := (fw_fibers ?w3)(c \<mapsto> x\<lparr>fb_state := FIBER_STATE_READY\<rparr>, f \<mapsto> y\<lparr>fb_state := FIBER_STATE_RUNNING\<rparr>),
          fw_managers := (fw_managers ?w3)[t := ?m\<lparr>fm_current_fiber := f, fm_old_fiber := c, fm_to_schedule := NULL\<rparr>],
          fw_scheduler := s2\<rparr>)" (is "_ = Some ?w4")
        by (rule switch_to_running) (use w1 st x y fc s2 in simp_all)
      have "fiber_manager_yield ops o1 t w = Some (?w4, Switched f)"
        using st w1 x sav n(1) False ok2 True set_lock_status_free [OF assms(2)] sw by (simp add: yd)
      moreover have "runs t f ?w4" using w1 st y by (simp add: runs_def nothing_pending_def)
      moreover have "lock_free ?l" using assms(2) by (simp add: lock_free_def)
      ultimately show ?thesis
        using False True n(1) f s2 fc b weaken by (intro exI [of _ ?w4] exI [of _ "Switched f"]) auto
    next
      case nb: False
      let ?w4 = "?w2\<lparr>fw_scheduler := s2\<rparr>"
      obtain s3 where s3: "maybe_load_balance ops t ?w4 = Some (?w4\<lparr>fw_scheduler := s3\<rparr>)" "ok k fibers s3" "ready s3 = ready s2"
        using maybe_load_balance_ok [of k fibers ?w4] s2(2) w1(6) by auto
      have "fiber_manager_yield ops o1 t w = Some (?w4\<lparr>fw_scheduler := s3\<rparr>, Returned)"
        using st w1 x sav n(1) False ok2 nb s2(1) s3(1) by (simp add: yd fiber_manager_schedule_def)
      moreover have "runs t c (?w4\<lparr>fw_scheduler := s3\<rparr>)" using w1 st x by (simp add: runs_def)
      ultimately show ?thesis
        using False nb n(1) f s2 s3 b by (intro exI [of _ "?w4\<lparr>fw_scheduler := s3\<rparr>"] exI [of _ Returned]) auto
    qed
  qed
qed

end

text \<open>The scheduler that the library is built with.\<close>

definition wsd_ops :: "allocator \<Rightarrow> bool list \<Rightarrow> (nat \<Rightarrow> nat \<Rightarrow> bool) \<Rightarrow> wsd_scheduler scheduler_ops" where
  "wsd_ops al sps sp =
     \<lparr>so_init = (\<lambda>n. map_option (\<lambda>s. (s, 1)) (fiber_scheduler_init_wsd al n)),
      so_schedule = fiber_scheduler_schedule_wsd al,
      so_next = (\<lambda>t. fiber_scheduler_next_wsd al t sps),
      so_load_balance = fiber_scheduler_load_balance_wsd al sp,
      so_stats = (\<lambda>t s. fiber_scheduler_stats_wsd s t)\<rparr>"

lemma wsd_ops_simps [simp]:
  "so_init (wsd_ops al sps sp) n = map_option (\<lambda>s. (s, 1)) (fiber_scheduler_init_wsd al n)"
  "so_schedule (wsd_ops al sps sp) = fiber_scheduler_schedule_wsd al"
  "so_next (wsd_ops al sps sp) t = fiber_scheduler_next_wsd al t sps"
  "so_load_balance (wsd_ops al sps sp) = fiber_scheduler_load_balance_wsd al sp"
  "so_stats (wsd_ops al sps sp) t s = fiber_scheduler_stats_wsd s t"
  by (simp_all add: wsd_ops_def)

interpretation wsd_manager: manager_scheduler "wsd_ops al sps sp" t wsd_all "wsd_all_ok al t" for al sps sp t
  unfolding manager_scheduler_def wsd_ops_simps by (rule wsd_balanced.balanced_scheduler_axioms)

text \<open>Waking from a queue: the oldest fibers are woken, get the nodes of the queue, and are ready.\<close>

definition woken :: "addr \<Rightarrow> fiber \<Rightarrow> fiber" where
  "woken node x = x\<lparr>fb_mpsc_fifo_node := node,
     fb_state := (if fb_state x = FIBER_STATE_WAITING then FIBER_STATE_READY else fb_state x)\<rparr>"

definition sleeper :: "'s fiber_world \<Rightarrow> addr \<Rightarrow> bool" where
  "sleeper w x \<longleftrightarrow> x \<noteq> NULL \<and> (\<exists>y. fw_fibers w x = Some y \<and> fb_mpsc_fifo_node y = NULL)"

lemma mpsc_rep_hd: "mpsc_rep h f ns xs \<Longrightarrow> hd ns \<noteq> NULL"
  using mpsc_rep_nodes [of h f ns xs] mpsc_rep_ends [of h f ns xs] by metis

context manager_scheduler
begin

lemma wake_mpsc_fiber_ok:
  assumes "ok (Suc k) fibers (fw_scheduler w)" "mpsc_dat (fw_nodes w) out = Some x" "out \<noteq> NULL" "sleeper w x"
    and "x \<in> set fibers" "x \<notin># ready (fw_scheduler w)"
  shows "\<exists>s. wake_mpsc_fiber ops t out w =
      Some (w\<lparr>fw_fibers := (fw_fibers w)(x \<mapsto> woken out (the (fw_fibers w x))), fw_scheduler := s\<rparr>) \<and>
     ok k fibers s \<and> ready s = add_mset x (ready (fw_scheduler w))"
proof -
  obtain y where y: "fw_fibers w x = Some y" "fb_mpsc_fifo_node y = NULL" "x \<noteq> NULL" using assms(4) by (auto simp: sleeper_def)
  obtain n where n: "fw_nodes w out = Some n" "mn_data n = x" using assms(2) by (auto simp: mpsc_dat_def)
  obtain s where s: "so_schedule ops t (fw_scheduler w) x = Some s" "ok k fibers s" "ready s = add_mset x (ready (fw_scheduler w))"
    using schedule_ok [OF assms(1,5,6)] by blast
  have "wake_mpsc_fiber ops t out w = Some (w\<lparr>fw_fibers := (fw_fibers w)(x \<mapsto> woken out y), fw_scheduler := s\<rparr>)"
    using n y s(1) assms(3) by (simp add: wake_mpsc_fiber_def upd_Some fiber_manager_schedule_def woken_def)
  with s y show ?thesis by auto
qed

lemma wake_mpsc_ok:
  assumes "mpsc_rep (fw_nodes w) fifo ns (xs @ ys)" "xs \<noteq> []" "distinct xs"
    and "\<forall>x \<in> set xs. sleeper w x \<and> x \<in> set fibers \<and> x \<notin># ready (fw_scheduler w)"
    and "ok (length xs + k) fibers (fw_scheduler w)"
  shows "\<exists>w' fifo'. fiber_manager_wake_from_mpsc_queue ops t fifo (wc + int (length xs)) wc w =
       Some (w', fifo', Woken (wc + int (length xs))) \<and>
     mpsc_rep (fw_nodes w') fifo' (drop (length xs) ns) ys \<and> ok k fibers (fw_scheduler w') \<and>
     ready (fw_scheduler w') = ready (fw_scheduler w) + mset xs \<and>
     (\<forall>f. fw_fibers w' f = (if f \<in> set xs then map_option (woken (the (map_of (zip xs ns) f))) (fw_fibers w f) else fw_fibers w f))"
  using assms
proof (induction xs arbitrary: w fifo ns wc)
  case (Cons x xs)
  obtain h1 fifo1 where pop: "mpsc_fifo_trypop (fw_nodes w) fifo = Some (h1, fifo1, hd ns)" "mpsc_rep h1 fifo1 (tl ns) (xs @ ys)"
      "mpsc_dat h1 = (mpsc_dat (fw_nodes w))(hd ns := Some x)"
    using mpsc_trypop_rep Cons.prems(1) by (metis append_Cons)
  have nz: "hd ns \<noteq> NULL" by (rule mpsc_rep_hd [OF Cons.prems(1)])
  have ne: "ns \<noteq> []" using Cons.prems(1) by (simp add: mpsc_rep_def)
  let ?w1 = "w\<lparr>fw_nodes := h1\<rparr>"
  have x: "sleeper ?w1 x" "x \<in> set fibers" "x \<notin># ready (fw_scheduler ?w1)" using Cons.prems(4) by (auto simp: sleeper_def)
  have okx: "ok (Suc (length xs + k)) fibers (fw_scheduler ?w1)" using Cons.prems(5) by simp
  have dat: "mpsc_dat (fw_nodes ?w1) (hd ns) = Some x" using pop(3) by simp
  obtain s where s: "wake_mpsc_fiber ops t (hd ns) ?w1 =
        Some (?w1\<lparr>fw_fibers := (fw_fibers w)(x \<mapsto> woken (hd ns) (the (fw_fibers w x))), fw_scheduler := s\<rparr>)" (is "_ = Some ?w2")
      "ok (length xs + k) fibers s" "ready s = add_mset x (ready (fw_scheduler w))"
    using wake_mpsc_fiber_ok [OF okx dat nz x] by auto
  have fx: "fw_fibers w x \<noteq> None" using x(1) by (auto simp: sleeper_def)
  have zip: "zip (x # xs) ns = (x, hd ns) # zip xs (tl ns)" using ne by (cases ns) auto
  have drop: "drop (length (x # xs)) ns = drop (length xs) (tl ns)" using ne by (cases ns) auto
  show ?case
  proof (cases "xs = []")
    case True
    have "fiber_manager_wake_from_mpsc_queue ops t fifo (wc + int (length (x # xs))) wc w = Some (?w2, fifo1, Woken (wc + 1))"
      using pop(1) nz s(1) True by (subst fiber_manager_wake_from_mpsc_queue.simps) simp
    with True pop(2) s fx zip drop show ?thesis
      by (intro exI [of _ ?w2] exI [of _ fifo1]) (auto simp: add.commute)
  next
    case False
    have all: "\<forall>y \<in> set xs. sleeper ?w2 y \<and> y \<in> set fibers \<and> y \<notin># ready (fw_scheduler ?w2)"
      using Cons.prems(3,4) s(3) by (auto simp: sleeper_def)
    have run: "fiber_manager_wake_from_mpsc_queue ops t fifo (wc + int (length (x # xs))) wc w =
        fiber_manager_wake_from_mpsc_queue ops t fifo1 (wc + 1 + int (length xs)) (wc + 1) ?w2"
      using pop(1) nz s(1) False by (subst fiber_manager_wake_from_mpsc_queue.simps) (simp add: add.assoc)
    obtain w' fifo' where w': "fiber_manager_wake_from_mpsc_queue ops t fifo1 (wc + 1 + int (length xs)) (wc + 1) ?w2 =
          Some (w', fifo', Woken (wc + 1 + int (length xs)))"
        "mpsc_rep (fw_nodes w') fifo' (drop (length xs) (tl ns)) ys" "ok k fibers (fw_scheduler w')"
        "ready (fw_scheduler w') = ready (fw_scheduler ?w2) + mset xs"
        "\<forall>f. fw_fibers w' f = (if f \<in> set xs then map_option (woken (the (map_of (zip xs (tl ns)) f))) (fw_fibers ?w2 f) else fw_fibers ?w2 f)"
      using Cons.IH [of ?w2 fifo1 "tl ns" "wc + 1"] pop(2) False Cons.prems(3) all s(2) by auto
    have "fw_fibers w' f = (if f \<in> set (x # xs) then map_option (woken (the (map_of (zip (x # xs) ns) f))) (fw_fibers w f) else fw_fibers w f)" for f
      using w'(5) Cons.prems(3) fx unfolding zip by auto
    with run w' s(3) drop show ?thesis
      by (intro exI [of _ w'] exI [of _ fifo']) (simp add: add.assoc)
  qed
qed simp

end

text \<open>The switch of a waiting fiber, whatever fiber holds the wait location.\<close>

lemma switch_waits:
  assumes "fw_state w = FIBER_MANAGER_STATE_STARTED" "t < length (fw_managers w)" "nothing_pending (fw_managers w ! t)"
      "fm_to_schedule (fw_managers w ! t) = NULL"
      "fm_set_wait_location (fw_managers w ! t) = Some (Loc_Join_Info g)" "fm_set_wait_value (fw_managers w ! t) = v"
    and "fw_fibers w c = Some x" "c \<noteq> NULL" "fb_state x = FIBER_STATE_WAITING"
    and "fw_fibers w f = Some y" "f \<noteq> NULL" "f \<noteq> c" "fw_fibers w g \<noteq> None" "g \<noteq> NULL"
  shows "\<exists>w'. fiber_manager_switch_to ops o1 t c f w = Some w' \<and> runs t f w' \<and> fw_scheduler w' = fw_scheduler w \<and>
     map_option fb_state (fw_fibers w' c) = Some FIBER_STATE_WAITING \<and> map_option fb_join_info (fw_fibers w' g) = Some v"
proof -
  obtain z where z: "((fw_fibers w)(f \<mapsto> y\<lparr>fb_state := FIBER_STATE_RUNNING\<rparr>)) g = Some z" using assms(13) by (cases "g = f") auto
  have zf: "g = f \<Longrightarrow> fb_state z = FIBER_STATE_RUNNING" using z by auto
  have zc: "g = c \<Longrightarrow> fb_state z = FIBER_STATE_WAITING" using z assms by auto
  show ?thesis
    using switch_to_waiting [OF assms(2) refl assms(3-12) z assms(14), of ops o1] assms zf zc
    by (auto simp: runs_def nothing_pending_def)
qed

text \<open>The world in which a yield switches: only the count of yields, the scheduler and the scheduling lock differ.\<close>

definition yielding :: "nat \<Rightarrow> 's fiber_world \<Rightarrow> 's fiber_world \<Rightarrow> bool" where
  "yielding t w u \<longleftrightarrow> fw_state u = fw_state w \<and> fw_fibers u = fw_fibers w \<and> fw_spinlocks u = fw_spinlocks w \<and>
     length (fw_managers u) = length (fw_managers w) \<and>
     fw_managers u ! t = (fw_managers w ! t)\<lparr>fm_yield_count := fm_yield_count (fw_managers w ! t) + 1\<rparr>"

context manager_scheduler
begin

text \<open>The yield of a fiber that cannot run on, for any effect \<open>P\<close> of the switch.\<close>

lemma yield_blocked:
  assumes "fw_state w = FIBER_MANAGER_STATE_STARTED" "t < length (fw_managers w)" "fm_current_fiber (fw_managers w ! t) = c"
    and "fw_fibers w c = Some x" "c \<noteq> NULL" "fb_state x = FIBER_STATE_WAITING"
    and "lock_free (fw_schedule_lock w)" "sk_lock_using (fw_schedule_lock w) \<noteq> 1" "ok (Suc k) fibers (fw_scheduler w)"
    and "c \<notin># ready (fw_scheduler w)"
    and "\<forall>f \<in># ready (fw_scheduler w). \<exists>b. ban_of w f = Some b \<and> timer_greater (o_now o1) b"
    and "ready (fw_scheduler w) = {#} \<or> (\<exists>f. f \<in># ready (fw_scheduler w) \<and> \<not> saving w f)"
    and "fm_maintenance_fiber (fw_managers w ! t) = mf" "mf \<noteq> NULL" "fw_fibers w mf \<noteq> None" "mf \<noteq> c"
    and sw: "\<And>f u. yielding t w u \<Longrightarrow> f \<noteq> NULL \<Longrightarrow> f \<noteq> c \<Longrightarrow> fw_fibers w f \<noteq> None \<Longrightarrow>
        \<exists>w'. fiber_manager_switch_to ops o1 t c f u = Some w' \<and> fw_scheduler w' = fw_scheduler u \<and> P f w'"
  shows "\<exists>w' oc f. fiber_manager_yield ops o1 t w = Some (w', oc) \<and> ok k fibers (fw_scheduler w') \<and> P f w' \<and>
     (oc = Switched f \<and> ready (fw_scheduler w) = add_mset f (ready (fw_scheduler w')) \<or>
      oc = Again f \<and> f = mf \<and> ready (fw_scheduler w') = ready (fw_scheduler w))"
proof -
  let ?s = "fw_scheduler w" and ?w1 = "yield_counted t w"
  have w1: "upd_manager t (\<lambda>m. m\<lparr>fm_yield_count := fm_yield_count m + 1\<rparr>) w = Some ?w1"
      "fw_fibers ?w1 = fw_fibers w" "fw_scheduler ?w1 = ?s" "fw_stats ?w1 = fw_stats w" "fw_schedule_lock ?w1 = fw_schedule_lock w"
      "t < length (fw_managers ?w1)" "fw_state ?w1 = fw_state w" "fm_current_fiber (fw_managers ?w1 ! t) = c"
      "fm_maintenance_fiber (fw_managers ?w1 ! t) = mf"
    using assms by (simp_all add: upd_Some yield_counted_def)
  have u: "yielding t w (?w1\<lparr>fw_scheduler := s, fw_schedule_lock := l\<rparr>)" "yielding t w (?w1\<lparr>fw_scheduler := s\<rparr>)" for s l
    using assms(2) by (simp_all add: yielding_def yield_counted_def)
  have sav: "saving ?w1 = saving w" using saving_cong w1(2) by blast
  obtain s f where n: "so_next ops t (saving w) ?s = Some (s, f)" "ok k fibers s"
      "if f = NULL then ready s = ready ?s else \<not> saving w f \<and> ready ?s = add_mset f (ready s)"
    using next_ok [OF assms(9,12)] by blast
  let ?w2 = "?w1\<lparr>fw_scheduler := s\<rparr>"
  note yd = fiber_manager_yield_def
  show ?thesis
  proof (cases "f = NULL")
    case True
    obtain w' where w': "fiber_manager_switch_to ops o1 t c mf ?w2 = Some w'" "fw_scheduler w' = s" "P mf w'"
      using sw [OF u(2) assms(14,16,15)] by auto
    have "get_maintenance_fiber o1 t THREAD_FUNC ?w2 = Some (?w2, mf)" using w1 assms(14) by (simp add: get_maintenance_fiber_def)
    then have "fiber_manager_yield ops o1 t w = Some (w', Again mf)"
      using assms(1-6) w1 sav n(1) True w'(1) by (simp add: yd)
    with w' n True show ?thesis by auto
  next
    case False
    then have f: "f \<in># ready ?s" "ready ?s = add_mset f (ready s)" using n(3) by simp_all
    obtain b where b: "ban_of w f = Some b" "timer_greater (o_now o1) b" using assms(11) f(1) by auto
    have "ban_of ?w2 f = Some b" using b ban_of_cong [of w ?w2] w1 by simp
    then have run: "may_run o1 f ?w2 = Some (?w2, True)"
      using may_run_free [of ?w2 f b o1] assms(7,8) w1(5) b(2) by simp
    have fc: "f \<noteq> c" "fw_fibers w f \<noteq> None" using f(1) assms(10) ban_of_Some [OF b(1)] by auto
    let ?w3 = "?w2\<lparr>fw_schedule_lock := (fw_schedule_lock w)\<lparr>sk_lock_using := 1\<rparr>\<rparr>"
    obtain w' where w': "fiber_manager_switch_to ops o1 t c f ?w3 = Some w'" "fw_scheduler w' = s" "P f w'"
      using sw [OF u(1) False fc] by auto
    have "fiber_manager_yield ops o1 t w = Some (w', Switched f)"
      using assms(1-6) w1 sav n(1) False run set_lock_status_free [OF assms(7)] w'(1) by (simp add: yd)
    with w' n f show ?thesis by auto
  qed
qed

lemma yield_waiting:
  assumes "fw_state w = FIBER_MANAGER_STATE_STARTED" "t < length (fw_managers w)" "nothing_pending (fw_managers w ! t)"
      "fm_to_schedule (fw_managers w ! t) = NULL" "fm_current_fiber (fw_managers w ! t) = c"
      "fm_set_wait_location (fw_managers w ! t) = Some (Loc_Join_Info g)" "fm_set_wait_value (fw_managers w ! t) = v"
    and "fw_fibers w c = Some x" "c \<noteq> NULL" "fb_state x = FIBER_STATE_WAITING" "fw_fibers w g \<noteq> None" "g \<noteq> NULL"
    and "lock_free (fw_schedule_lock w)" "sk_lock_using (fw_schedule_lock w) \<noteq> 1" "ok (Suc k) fibers (fw_scheduler w)"
    and "c \<notin># ready (fw_scheduler w)"
    and "\<forall>f \<in># ready (fw_scheduler w). \<exists>b. ban_of w f = Some b \<and> timer_greater (o_now o1) b"
    and "ready (fw_scheduler w) = {#} \<or> (\<exists>f. f \<in># ready (fw_scheduler w) \<and> \<not> saving w f)"
    and "fm_maintenance_fiber (fw_managers w ! t) = mf" "mf \<noteq> NULL" "fw_fibers w mf \<noteq> None" "mf \<noteq> c"
  shows "\<exists>w' oc f. fiber_manager_yield ops o1 t w = Some (w', oc) \<and> ok k fibers (fw_scheduler w') \<and>
     (runs t f w' \<and> map_option fb_state (fw_fibers w' c) = Some FIBER_STATE_WAITING \<and> map_option fb_join_info (fw_fibers w' g) = Some v) \<and>
     (oc = Switched f \<and> ready (fw_scheduler w) = add_mset f (ready (fw_scheduler w')) \<or>
      oc = Again f \<and> f = mf \<and> ready (fw_scheduler w') = ready (fw_scheduler w))"
proof (rule yield_blocked [OF assms(1,2,5,8-10,13-22)])
  fix f u
  assume "yielding t w u" "f \<noteq> NULL" "f \<noteq> c" "fw_fibers w f \<noteq> None"
  then show "\<exists>w'. fiber_manager_switch_to ops o1 t c f u = Some w' \<and> fw_scheduler w' = fw_scheduler u \<and>
      runs t f w' \<and> map_option fb_state (fw_fibers w' c) = Some FIBER_STATE_WAITING \<and> map_option fb_join_info (fw_fibers w' g) = Some v"
    using switch_waits [of u t g v c x f _ ops o1] assms by (fastforce simp: yielding_def nothing_pending_def)
qed

lemma set_and_wait_ok:
  assumes "runs t c w" "g \<noteq> NULL" "fw_fibers w g \<noteq> None" "v \<noteq> NULL"
    and "lock_free (fw_schedule_lock w)" "sk_lock_using (fw_schedule_lock w) \<noteq> 1" "ok (Suc k) fibers (fw_scheduler w)"
    and "c \<notin># ready (fw_scheduler w)"
    and "\<forall>f \<in># ready (fw_scheduler w). \<exists>b. ban_of w f = Some b \<and> timer_greater (o_now o1) b"
    and "ready (fw_scheduler w) = {#} \<or> (\<exists>f. f \<in># ready (fw_scheduler w) \<and> \<not> saving w f)"
    and "fm_maintenance_fiber (fw_managers w ! t) = mf" "mf \<noteq> NULL" "fw_fibers w mf \<noteq> None" "mf \<noteq> c"
  shows "\<exists>w' oc f. fiber_manager_set_and_wait ops o1 t (Loc_Join_Info g) v w = Some (w', oc) \<and>
     ok k fibers (fw_scheduler w') \<and> runs t f w' \<and>
     (oc = Switched f \<and> ready (fw_scheduler w) = add_mset f (ready (fw_scheduler w')) \<or>
      oc = Again f \<and> f = mf \<and> ready (fw_scheduler w') = ready (fw_scheduler w)) \<and>
     map_option fb_state (fw_fibers w' c) = Some FIBER_STATE_WAITING \<and> map_option fb_join_info (fw_fibers w' g) = Some v"
proof -
  obtain x where x: "fw_fibers w c = Some x" "fb_state x = FIBER_STATE_RUNNING" using assms(1) by (auto simp: runs_def)
  have st: "fw_state w = FIBER_MANAGER_STATE_STARTED" "t < length (fw_managers w)" "fm_current_fiber (fw_managers w ! t) = c"
      "c \<noteq> NULL" "nothing_pending (fw_managers w ! t)" "fm_to_schedule (fw_managers w ! t) = NULL"
    using assms(1) by (auto simp: runs_def)
  let ?x = "x\<lparr>fb_state := FIBER_STATE_WAITING\<rparr>"
  let ?w = "w\<lparr>fw_managers := (fw_managers w)[t := (fw_managers w ! t)\<lparr>fm_set_wait_location := Some (Loc_Join_Info g), fm_set_wait_value := v\<rparr>],
      fw_fibers := (fw_fibers w)(c \<mapsto> ?x)\<rparr>"
  have run: "fiber_manager_set_and_wait ops o1 t (Loc_Join_Info g) v w = fiber_manager_yield ops o1 t ?w"
    using st x assms(4) by (simp add: fiber_manager_set_and_wait_def set_current_state_def upd_Some)
  have ban: "ban_of ?w f = ban_of w f" for f
    using x st by (simp add: ban_of_def get_lock_stats_def load_def)
  have sav: "saving ?w f = saving w f" for f
    using x by (auto simp: saving_def)
  have "\<exists>w' oc f. fiber_manager_yield ops o1 t ?w = Some (w', oc) \<and> ok k fibers (fw_scheduler w') \<and>
     (runs t f w' \<and> map_option fb_state (fw_fibers w' c) = Some FIBER_STATE_WAITING \<and> map_option fb_join_info (fw_fibers w' g) = Some v) \<and>
     (oc = Switched f \<and> ready (fw_scheduler ?w) = add_mset f (ready (fw_scheduler w')) \<or>
      oc = Again f \<and> f = mf \<and> ready (fw_scheduler w') = ready (fw_scheduler ?w))"
    by (rule yield_waiting [where x = ?x]) (use st x assms ban sav in \<open>simp_all add: nothing_pending_def\<close>)
  then show ?thesis unfolding run by auto
qed

end

text \<open>A switch away from a waiting fiber that leaves a spin lock to be released.\<close>

definition only_spinlock_pending :: "addr \<Rightarrow> fiber_manager \<Rightarrow> bool" where
  "only_spinlock_pending a m \<longleftrightarrow> fm_done_fiber m = NULL \<and> fm_mpmc_to_push m = (NULL, NULL) \<and> fm_mpsc_to_push m = (NULL, NULL) \<and>
     fm_mutex_to_unlock m = NULL \<and> fm_spinlock_to_unlock m = a \<and> fm_to_schedule m = NULL \<and> fm_set_wait_location m = None"

lemma switch_unlocks:
  assumes "fw_state w = FIBER_MANAGER_STATE_STARTED" "t < length (fw_managers w)" "only_spinlock_pending a (fw_managers w ! t)"
    and "a \<noteq> NULL" "fw_spinlocks w a = Some l"
    and "fw_fibers w c = Some x" "c \<noteq> NULL" "fb_state x = FIBER_STATE_WAITING" "fw_fibers w f = Some y" "f \<noteq> NULL" "f \<noteq> c"
  shows "\<exists>w'. fiber_manager_switch_to ops o1 t c f w = Some w' \<and> fw_scheduler w' = fw_scheduler w \<and> runs t f w' \<and>
     fw_fibers w' = (fw_fibers w)(f \<mapsto> y\<lparr>fb_state := FIBER_STATE_RUNNING\<rparr>) \<and>
     fw_spinlocks w' = (fw_spinlocks w)(a \<mapsto> fst (fiber_spinlock_unlock l))"
  using assms
  by (auto simp: fiber_manager_switch_to_def upd_Some fiber_manager_do_maintenance_def only_spinlock_pending_def maintain_old_def
      maintain_done_def maintain_schedule_def maintain_mpmc_def maintain_mpsc_def maintain_mutex_def maintain_spinlock_def
      maintain_wait_def runs_def nothing_pending_def)

context manager_scheduler
begin

lemma yield_unlocking:
  assumes "fw_state w = FIBER_MANAGER_STATE_STARTED" "t < length (fw_managers w)" "fm_current_fiber (fw_managers w ! t) = c"
    and "fw_fibers w c = Some x" "c \<noteq> NULL" "fb_state x = FIBER_STATE_WAITING"
    and "lock_free (fw_schedule_lock w)" "sk_lock_using (fw_schedule_lock w) \<noteq> 1" "ok (Suc k) fibers (fw_scheduler w)"
    and "c \<notin># ready (fw_scheduler w)"
    and "\<forall>f \<in># ready (fw_scheduler w). \<exists>b. ban_of w f = Some b \<and> timer_greater (o_now o1) b"
    and "ready (fw_scheduler w) = {#} \<or> (\<exists>f. f \<in># ready (fw_scheduler w) \<and> \<not> saving w f)"
    and "fm_maintenance_fiber (fw_managers w ! t) = mf" "mf \<noteq> NULL" "fw_fibers w mf \<noteq> None" "mf \<noteq> c"
    and "only_spinlock_pending a (fw_managers w ! t)" "a \<noteq> NULL" "fw_spinlocks w a = Some l"
  shows "\<exists>w' oc f. fiber_manager_yield ops o1 t w = Some (w', oc) \<and> ok k fibers (fw_scheduler w') \<and>
     (runs t f w' \<and> f \<noteq> c \<and> (\<exists>y. fw_fibers w f = Some y \<and> fw_fibers w' = (fw_fibers w)(f \<mapsto> y\<lparr>fb_state := FIBER_STATE_RUNNING\<rparr>)) \<and> fw_spinlocks w' = (fw_spinlocks w)(a \<mapsto> fst (fiber_spinlock_unlock l))) \<and>
     (oc = Switched f \<and> ready (fw_scheduler w) = add_mset f (ready (fw_scheduler w')) \<or>
      oc = Again f \<and> f = mf \<and> ready (fw_scheduler w') = ready (fw_scheduler w))"
proof (rule yield_blocked [OF assms(1-16)])
  fix f u
  assume u: "yielding t w u" "f \<noteq> NULL" "f \<noteq> c" "fw_fibers w f \<noteq> None"
  then obtain y where y: "fw_fibers u f = Some y" by (auto simp: yielding_def)
  with switch_unlocks [of u t a l c x f y ops o1] u assms
  show "\<exists>w'. fiber_manager_switch_to ops o1 t c f u = Some w' \<and> fw_scheduler w' = fw_scheduler u \<and>
      runs t f w' \<and> f \<noteq> c \<and> (\<exists>y. fw_fibers w f = Some y \<and> fw_fibers w' = (fw_fibers w)(f \<mapsto> y\<lparr>fb_state := FIBER_STATE_RUNNING\<rparr>)) \<and> fw_spinlocks w' = (fw_spinlocks w)(a \<mapsto> fst (fiber_spinlock_unlock l))"
    by (force simp: yielding_def only_spinlock_pending_def)
qed

end

end
