(* ===== verification/Manager_Control.thy ===== *)
theory Manager_Control
  imports Manager
begin

text \<open>
  The control part of \<open>src/fiber_manager.c\<close>: creation and destruction of the managers, the function of the
  maintenance fibers, start, shutdown and statistics, and the completion of a fiber.  A kernel thread is
  the index of its manager.  The thread-local flag \<open>should_check_events\<close> is an argument.
\<close>

section \<open>Completion of a fiber\<close>

text \<open>
  \<open>fiber_mark_completed\<close> up to the point where it completes (\<open>None\<close> in the result) or leaves the processor
  (the outcome of the yield); a fiber that waits for its joiner completes when it runs again.
\<close>

definition fiber_set_done :: "addr \<Rightarrow> 's fiber_world \<Rightarrow> 's fiber_world option" where
  "fiber_set_done f w = upd_fiber f (\<lambda>x. x\<lparr>fb_state := FIBER_STATE_DONE\<rparr>) w"

definition fiber_mark_completed ::
  "'s scheduler_ops \<Rightarrow> outside \<Rightarrow> nat \<Rightarrow> addr \<Rightarrow> addr \<Rightarrow> 's fiber_world \<Rightarrow> ('s fiber_world \<times> yield_outcome option) option" where
  "fiber_mark_completed ops o1 t the_fiber result w = do {
     w1 \<leftarrow> upd_fiber the_fiber (\<lambda>x. x\<lparr>fb_result := result\<rparr>) w;
     x \<leftarrow> load (fw_fibers w1) the_fiber;
     if fb_detach_state x = FIBER_DETACH_DETACHED
     then do { w2 \<leftarrow> fiber_set_done the_fiber w1; Some (w2, None) }
     else do {
       let old_state = fb_detach_state x;
       w2 \<leftarrow> upd_fiber the_fiber (\<lambda>x. x\<lparr>fb_detach_state := FIBER_DETACH_WAIT_FOR_JOINER\<rparr>) w1;
       if old_state = FIBER_DETACH_NONE
       then do { (w3, oc) \<leftarrow> fiber_manager_set_and_wait ops o1 t (Loc_Join_Info the_fiber) the_fiber w2; Some (w3, Some oc) }
       else if old_state = FIBER_DETACH_WAIT_TO_JOIN
       then do {
         (w3, r) \<leftarrow> fiber_manager_clear_or_wait ops o1 t (Loc_Join_Info the_fiber) w2;
         case r of
           Inr oc \<Rightarrow> Some (w3, Some oc)
         | Inl to_schedule \<Rightarrow> do {
             w4 \<leftarrow> upd_fiber to_schedule (\<lambda>y. y\<lparr>fb_result := result, fb_state := FIBER_STATE_READY\<rparr>) w3;
             w5 \<leftarrow> fiber_manager_schedule ops t to_schedule w4;
             w6 \<leftarrow> fiber_set_done the_fiber w5;
             Some (w6, None)
           }
       }
       else do { w3 \<leftarrow> fiber_set_done the_fiber w2; Some (w3, None) }
     }
   }"

section \<open>Managers\<close>

definition zero_manager :: fiber_manager where
  "zero_manager = \<lparr>fm_maintenance_fiber = NULL, fm_current_fiber = NULL, fm_old_fiber = NULL, fm_thread_fiber = NULL,
     fm_to_schedule = NULL, fm_mpsc_to_push = (NULL, NULL), fm_mpmc_hptr = NULL, fm_mpmc_to_push = (NULL, NULL),
     fm_mutex_to_unlock = NULL, fm_spinlock_to_unlock = NULL, fm_set_wait_location = None, fm_set_wait_value = NULL,
     fm_done_fiber = NULL, fm_id = 0, fm_yield_count = 0, fm_spin_count = 0, fm_signal_spin_count = 0,
     fm_multi_signal_spin_count = 0, fm_wake_mpsc_spin_count = 0, fm_wake_mpmc_spin_count = 0, fm_poll_count = 0,
     fm_event_wait_count = 0, fm_lock_contention_count = 0\<rparr>"

text \<open>The new fiber is detached before it is compared with NULL, which \<open>fiber_detach\<close> tolerates.\<close>

definition fiber_manager_create :: "outside \<Rightarrow> 's fiber_world \<Rightarrow> ('s fiber_world \<times> fiber_manager option) option" where
  "fiber_manager_create o1 w = do {
     (w1, f) \<leftarrow> fiber_create_from_thread o1 w;
     if f = NULL then Some (w1, None)
     else do {
       w2 \<leftarrow> upd_fiber f (\<lambda>x. x\<lparr>fb_detach_state := FIBER_DETACH_DETACHED\<rparr>) w1;
       Some (w2, Some (zero_manager\<lparr>fm_thread_fiber := f, fm_current_fiber := f\<rparr>))
     }
   }"

definition fiber_manager_destroy :: "fiber_manager \<Rightarrow> 's fiber_world \<Rightarrow> 's fiber_world option" where
  "fiber_manager_destroy m w = fiber_destroy (fm_thread_fiber m) w"

fun create_managers :: "nat \<Rightarrow> outside list \<Rightarrow> 's fiber_world \<Rightarrow> 's fiber_world option" where
  "create_managers i [] w = Some w"
| "create_managers i (o1 # os) w = do {
     (w1, new_manager) \<leftarrow> fiber_manager_create o1 w;
     m \<leftarrow> new_manager;
     create_managers (i + 1) os (w1\<lparr>fw_managers := fw_managers w1 @ [m\<lparr>fm_id := i\<rparr>]\<rparr>)
   }"

text \<open>
  \<open>fiber_manager_init\<close>, with what the outside does while each of the \<open>length os\<close> managers is made; a
  kernel thread that cannot be created trips an assertion.
\<close>

definition fiber_manager_init ::
  "'s scheduler_ops \<Rightarrow> outside list \<Rightarrow> bool \<Rightarrow> bool \<Rightarrow> bool \<Rightarrow> 's fiber_world \<Rightarrow> ('s fiber_world \<times> int) option" where
  "fiber_manager_init ops os threads_ok io_ok event_ok w = do {
     let w0 = w\<lparr>fw_schedule_lock := init_scheduler_lock_data (fw_schedule_lock w), fw_shutting_down := False\<rparr>;
     if fw_state w0 \<noteq> FIBER_MANAGER_STATE_NONE then Some (w0, FIBER_ERROR)
     else do {
       (s, sched_ret) \<leftarrow> so_init ops (length os);
       if sched_ret = 0 then Some (w0, FIBER_ERROR)
       else do {
         c_assert (fw_managers w0 = []);
         w1 \<leftarrow> create_managers 0 os (w0\<lparr>fw_scheduler := s\<rparr>);
         c_assert (threads_ok);
         Some (w1\<lparr>fw_state := FIBER_MANAGER_STATE_STARTED\<rparr>, if io_ok \<and> event_ok then FIBER_SUCCESS else FIBER_ERROR)
       }
     }
   }"

section \<open>The maintenance fiber\<close>

datatype thread_outcome = Runs addr | Polls | Sleeps | Spins | Stops

definition fiber_manager_thread_func_enter :: "nat \<Rightarrow> 's fiber_world \<Rightarrow> 's fiber_world option" where
  "fiber_manager_thread_func_enter t w =
     upd_manager t (\<lambda>m. if fm_maintenance_fiber m = NULL then m\<lparr>fm_maintenance_fiber := fm_thread_fiber m\<rparr> else m) w"

text \<open>A turn of the loop of \<open>fiber_manager_thread_func\<close>.\<close>

definition fiber_manager_thread_func ::
  "'s scheduler_ops \<Rightarrow> outside \<Rightarrow> nat \<Rightarrow> bool \<Rightarrow> 's fiber_world \<Rightarrow> ('s fiber_world \<times> thread_outcome) option" where
  "fiber_manager_thread_func ops o1 t should_check_events w =
     (if fw_shutting_down w then Some (w, Stops)
      else do {
        s \<leftarrow> so_load_balance ops t (fw_scheduler w);
        (s1, new_fiber) \<leftarrow> so_next ops t (saving w) s;
        let w1 = w\<lparr>fw_scheduler := s1\<rparr>;
        if new_fiber \<noteq> NULL
        then do {
          m \<leftarrow> nth_opt (fw_managers w1) t;
          w2 \<leftarrow> upd_fiber (fm_maintenance_fiber m) (\<lambda>x. x\<lparr>fb_state := FIBER_STATE_SAVING_STATE_TO_WAIT\<rparr>) w1;
          w3 \<leftarrow> fiber_manager_switch_to ops o1 t (fm_maintenance_fiber m) new_fiber w2;
          Some (w3, Runs new_fiber)
        }
        else Some (w1, if should_check_events then Polls else Sleeps)
      })"

text \<open>
  A turn of the loop after the maintenance fiber has completed: kernel thread 0 returns to its thread
  fiber, and any other thread runs what is left or tries again.
\<close>

definition fiber_manager_thread_func_drain ::
  "'s scheduler_ops \<Rightarrow> outside \<Rightarrow> nat \<Rightarrow> 's fiber_world \<Rightarrow> ('s fiber_world \<times> thread_outcome) option" where
  "fiber_manager_thread_func_drain ops o1 t w = do {
     m \<leftarrow> nth_opt (fw_managers w) t;
     if fm_maintenance_fiber m = fm_thread_fiber m then Some (w, Stops)
     else if t = 0
     then do {
       w1 \<leftarrow> fiber_manager_switch_to ops o1 t (fm_maintenance_fiber m) (fm_thread_fiber m) w;
       Some (w1, Runs (fm_thread_fiber m))
     }
     else do {
       (s, new_fiber) \<leftarrow> so_next ops t (saving w) (fw_scheduler w);
       let w1 = w\<lparr>fw_scheduler := s\<rparr>;
       if new_fiber \<noteq> NULL \<and> new_fiber \<noteq> fm_maintenance_fiber m
       then do {
         w2 \<leftarrow> fiber_manager_switch_to ops o1 t (fm_maintenance_fiber m) new_fiber w1;
         Some (w2, Runs new_fiber)
       }
       else Some (w1, Spins)
     }
   }"

text \<open>\<open>fiber_do_real_sleep\<close>: the arguments of the calls of \<open>usleep\<close>.\<close>

definition fiber_do_real_sleep :: "32 word \<Rightarrow> 32 word \<Rightarrow> 32 word list" where
  "fiber_do_real_sleep seconds useconds = replicate (unat seconds) 1000000 @ (if useconds \<noteq> 0 then [useconds] else [])"

section \<open>Shutdown\<close>

fun destroy_managers :: "fiber_manager list \<Rightarrow> 's fiber_world \<Rightarrow> 's fiber_world option" where
  "destroy_managers [] w = Some w"
| "destroy_managers (m # ms) w = do { w1 \<leftarrow> fiber_manager_destroy m w; destroy_managers ms w1 }"

text \<open>
  \<open>fiber_shutdown\<close>, run on kernel thread 0 after the other threads have ended and when the maintenance
  fiber of thread 0, if there is one, has completed: everything is freed but the nodes in the ring and
  the statistics of the fibers, and the state stays as it is.
\<close>

definition fiber_shutdown :: "'s scheduler_ops \<Rightarrow> outside \<Rightarrow> 's fiber_world \<Rightarrow> 's fiber_world option" where
  "fiber_shutdown ops o1 w = do {
     let w0 = w\<lparr>fw_shutting_down := True\<rparr>;
     m \<leftarrow> nth_opt (fw_managers w0) 0;
     w1 \<leftarrow> (if fm_maintenance_fiber m \<noteq> NULL
            then do {
              (w', oc) \<leftarrow> fiber_mark_completed ops o1 0 (fm_maintenance_fiber m) NULL w0;
              c_assert (oc = None);
              fiber_destroy (fm_maintenance_fiber m) w'
            }
            else Some w0);
     (w2, oc) \<leftarrow> fiber_mark_completed ops o1 0 (fm_thread_fiber m) NULL w1;
     c_assert (oc = None);
     w3 \<leftarrow> destroy_managers (fw_managers w2) w2;
     let w4 = w3\<lparr>fw_managers := [], fw_free_mpmc_nodes := None\<rparr>;
     (rh, nh, calls) \<leftarrow> hazard_pointer_thread_record_destroy_all (fw_records w4) (fw_hazard_nodes w4) (fw_hazard_head w4) (o_junk o1) [];
     run_gc_calls False calls (w4\<lparr>fw_records := rh, fw_hazard_nodes := nh, fw_hazard_head := NULL\<rparr>)
   }"

section \<open>Statistics\<close>

record fiber_manager_stats =
  st_yield_count :: "64 word"
  st_steal_count :: "64 word"
  st_failed_steal_count :: "64 word"
  st_spin_count :: "64 word"
  st_signal_spin_count :: "64 word"
  st_multi_signal_spin_count :: "64 word"
  st_wake_mpsc_spin_count :: "64 word"
  st_wake_mpmc_spin_count :: "64 word"
  st_poll_count :: "64 word"
  st_event_wait_count :: "64 word"
  st_lock_contention_count :: "64 word"

definition add_manager_stats :: "'s scheduler_ops \<Rightarrow> 's \<Rightarrow> nat \<Rightarrow> fiber_manager \<Rightarrow> fiber_manager_stats \<Rightarrow> fiber_manager_stats option" where
  "add_manager_stats ops s t m out = do {
     (steals, fails) \<leftarrow> so_stats ops t s (st_steal_count out, st_failed_steal_count out);
     Some \<lparr>st_yield_count = st_yield_count out + fm_yield_count m,
           st_steal_count = steals, st_failed_steal_count = fails,
           st_spin_count = st_spin_count out + fm_spin_count m,
           st_signal_spin_count = st_signal_spin_count out + fm_signal_spin_count m,
           st_multi_signal_spin_count = st_multi_signal_spin_count out + fm_multi_signal_spin_count m,
           st_wake_mpsc_spin_count = st_wake_mpsc_spin_count out + fm_wake_mpsc_spin_count m,
           st_wake_mpmc_spin_count = st_wake_mpmc_spin_count out + fm_wake_mpmc_spin_count m,
           st_poll_count = st_poll_count out + fm_poll_count m,
           st_event_wait_count = st_event_wait_count out + fm_event_wait_count m,
           st_lock_contention_count = st_lock_contention_count out + fm_lock_contention_count m\<rparr>
   }"

fun all_stats_loop :: "'s scheduler_ops \<Rightarrow> 's \<Rightarrow> nat \<Rightarrow> fiber_manager list \<Rightarrow> fiber_manager_stats \<Rightarrow> fiber_manager_stats option" where
  "all_stats_loop ops s t [] out = Some out"
| "all_stats_loop ops s t (m # ms) out = do {
     out1 \<leftarrow> add_manager_stats ops s t m out;
     all_stats_loop ops s (t + 1) ms out1
   }"

definition fiber_manager_all_stats :: "'s scheduler_ops \<Rightarrow> 's fiber_world \<Rightarrow> fiber_manager_stats option" where
  "fiber_manager_all_stats ops w = all_stats_loop ops (fw_scheduler w) 0 (fw_managers w) \<lparr>st_yield_count = 0, st_steal_count = 0,
     st_failed_steal_count = 0, st_spin_count = 0, st_signal_spin_count = 0, st_multi_signal_spin_count = 0, st_wake_mpsc_spin_count = 0,
     st_wake_mpmc_spin_count = 0, st_poll_count = 0, st_event_wait_count = 0, st_lock_contention_count = 0\<rparr>"

section \<open>Starting\<close>

text \<open>Allocations that succeed.\<close>

definition allocates :: "outside \<Rightarrow> bool" where
  "allocates o1 \<longleftrightarrow> o_fiber o1 \<noteq> NULL \<and> o_fiber_node o1 \<noteq> NULL \<and> o_stats o1 \<noteq> NULL \<and> o_context_ok o1"

lemma create_manager_ok:
  assumes "allocates o1"
  shows "\<exists>w'. fiber_manager_create o1 w = Some (w', Some (zero_manager\<lparr>fm_thread_fiber := o_fiber o1, fm_current_fiber := o_fiber o1\<rparr>)) \<and>
     fw_managers w' = fw_managers w \<and> fw_scheduler w' = fw_scheduler w \<and> fw_state w' = fw_state w \<and>
     (\<forall>f. f \<noteq> o_fiber o1 \<longrightarrow> fw_fibers w' f = fw_fibers w f) \<and>
     (\<exists>x. fw_fibers w' (o_fiber o1) = Some x \<and> fb_state x = FIBER_STATE_RUNNING \<and> fb_detach_state x = FIBER_DETACH_DETACHED)"
  using assms by (auto simp: allocates_def fiber_manager_create_def fiber_create_from_thread_def alloc_fiber_def alloc_def upd_Some)

definition thread_fiber_of :: "'s fiber_world \<Rightarrow> nat \<Rightarrow> addr \<Rightarrow> bool" where
  "thread_fiber_of w i f \<longleftrightarrow> f \<noteq> NULL \<and>
     fw_managers w ! i = zero_manager\<lparr>fm_thread_fiber := f, fm_current_fiber := f, fm_id := i\<rparr> \<and>
     (\<exists>x. fw_fibers w f = Some x \<and> fb_state x = FIBER_STATE_RUNNING \<and> fb_detach_state x = FIBER_DETACH_DETACHED)"

lemma create_managers_ok:
  assumes "\<forall>o1 \<in> set os. allocates o1" "distinct (fs @ map o_fiber os)" "length (fw_managers w) = length fs"
    and "\<forall>i < length fs. thread_fiber_of w i (fs ! i)"
  shows "\<exists>w'. create_managers (length fs) os w = Some w' \<and> length (fw_managers w') = length fs + length os \<and>
     fw_scheduler w' = fw_scheduler w \<and> fw_state w' = fw_state w \<and>
     (\<forall>i < length fs + length os. thread_fiber_of w' i ((fs @ map o_fiber os) ! i))"
  using assms
proof (induction os arbitrary: fs w)
  case (Cons o1 os)
  let ?m = "zero_manager\<lparr>fm_thread_fiber := o_fiber o1, fm_current_fiber := o_fiber o1\<rparr>"
  obtain w1 where w1: "fiber_manager_create o1 w = Some (w1, Some ?m)"
      "fw_managers w1 = fw_managers w" "fw_scheduler w1 = fw_scheduler w" "fw_state w1 = fw_state w"
      "\<forall>f. f \<noteq> o_fiber o1 \<longrightarrow> fw_fibers w1 f = fw_fibers w f"
      "\<exists>x. fw_fibers w1 (o_fiber o1) = Some x \<and> fb_state x = FIBER_STATE_RUNNING \<and> fb_detach_state x = FIBER_DETACH_DETACHED"
    using create_manager_ok [of o1 w] Cons.prems(1) by auto
  let ?w2 = "w1\<lparr>fw_managers := fw_managers w1 @ [?m\<lparr>fm_id := length fs\<rparr>]\<rparr>"
  have nz: "o_fiber o1 \<noteq> NULL" using Cons.prems(1) by (simp add: allocates_def)
  have "thread_fiber_of ?w2 i ((fs @ [o_fiber o1]) ! i)" if "i < length (fs @ [o_fiber o1])" for i
  proof (cases "i < length fs")
    case True
    have "fs ! i \<noteq> o_fiber o1" using Cons.prems(2) True by (auto simp: in_set_conv_nth)
    with True Cons.prems(3,4) w1(2,5) show ?thesis by (simp add: thread_fiber_of_def nth_append)
  next
    case False
    then have "i = length fs" using that by simp
    with Cons.prems(3) w1(2,6) nz show ?thesis by (simp add: thread_fiber_of_def nth_append)
  qed
  then show ?case
    using Cons.IH [of "fs @ [o_fiber o1]" ?w2] Cons.prems w1 by simp
qed simp

section \<open>Properties\<close>

text \<open>A kernel thread that runs fiber 11, with fiber 12 for its scheduler and 13 as its maintenance fiber.\<close>

definition demo_world :: "'s \<Rightarrow> int \<Rightarrow> 's fiber_world" where
  "demo_world s lock_using = \<lparr>fw_state = FIBER_MANAGER_STATE_STARTED,
     fw_fibers = [11 \<mapsto> zero_fiber\<lparr>fb_state := FIBER_STATE_RUNNING, fb_fiber_stats := 21\<rparr>,
                  12 \<mapsto> zero_fiber\<lparr>fb_fiber_stats := 22\<rparr>, 13 \<mapsto> zero_fiber\<lparr>fb_state := FIBER_STATE_WAITING, fb_fiber_stats := 23\<rparr>],
     fw_stats = (\<lambda>_. Some \<lparr>ls_banned_until = (0, 0), ls_slice_size = (0, 2)\<rparr>),
     fw_managers = [zero_manager\<lparr>fm_current_fiber := 11, fm_thread_fiber := 11, fm_maintenance_fiber := 13\<rparr>],
     fw_scheduler = s, fw_schedule_lock = schedule_lock_zero\<lparr>sk_lock_using := lock_using\<rparr>,
     fw_nodes = (\<lambda>_. None), fw_mpsc = (\<lambda>_. None), fw_mpmc = (\<lambda>_. None), fw_mpmc_nodes = (\<lambda>_. None), fw_hazard_nodes = (\<lambda>_. None),
     fw_records = (\<lambda>_. None), fw_hazard_head = NULL, fw_free_mpmc_nodes = None, fw_mutexes = (\<lambda>_. None),
     fw_spinlocks = (\<lambda>_. None), fw_words = (\<lambda>_. NULL), fw_shutting_down = False\<rparr>"

definition demo_outside :: outside where
  "demo_outside = \<lparr>o_fiber = 31, o_fiber_node = 32, o_stats = 33, o_record = 34, o_node = 35, o_ring_ok = True, o_context_ok = True,
     o_spurious = [], o_pop_spurious = False, o_junk = (\<lambda>_. 0), o_now = (5, 0)\<rparr>"

lemma demo_scheduler:
  "\<exists>s. wsd_all_ok first_free 0 9 [11, 12] s \<and> wsd_all s = {#12#} \<and>
       (\<forall>saving. \<not> saving 12 \<longrightarrow> (\<exists>s'. fiber_scheduler_next_wsd first_free 0 [] saving s = Some (s', 12)))"
proof -
  obtain s0 where s0: "wsd_world_ok first_free s0" "length (sw_schedulers s0) = 1" "wsd_total (sw_queues s0) = {#}"
    using init_wsd_ok [OF first_free_good, of 1] by auto
  then have "wsd_all_ok first_free 0 (Suc 9) [11, 12] s0" by (simp add: wsd_all_ok_def wsd_all_def)
  from schedule_wsd_all [OF this, of 12] s0(3) obtain s where s: "wsd_all_ok first_free 0 9 [11, 12] s" "wsd_all s = {#12#}"
      "12 \<in> set (wsd_items (sw_queues s ! sc_schedule_from (sw_schedulers s ! 0)))"
    by (auto simp: wsd_all_def)
  then have "wsd_all_ok first_free 0 (Suc 8) [11, 12] s" by simp
  from next_wsd_all [OF this, of "[]"] s(2,3) have "\<exists>s'. fiber_scheduler_next_wsd first_free 0 [] saving s = Some (s', 12)"
    if "\<not> saving 12" for saving
    using that by (metis add_mset_eq_single)
  with s show ?thesis by blast
qed

lemma demo_runs:
  "runs 0 11 (demo_world s l)" "lock_free (fw_schedule_lock (demo_world s l))" "ban_of (demo_world s l) 12 = Some (0, 0)"
  "\<not> saving (demo_world s l) 12" "fw_scheduler (demo_world s l) = s" "sk_lock_using (fw_schedule_lock (demo_world s l)) = l"
  by (simp_all add: demo_world_def runs_def nothing_pending_def zero_manager_def zero_fiber_def lock_free_def schedule_lock_zero_def
      rw_unblob_zero ban_of_def get_lock_stats_def saving_def)

lemma demo_now: "timer_greater (o_now demo_outside) (0, 0)"
  by (simp add: timer_greater_def demo_outside_def)



text \<open>C19. When the flag of the scheduling lock is set, as it is after the first switch, a yield whose scheduler hands
  it a fiber forgets that fiber: the calling fiber goes on running and is put among the ready fibers in its place.\<close>

theorem yield_forgets_fiber:
  assumes "runs t c w" "lock_free (fw_schedule_lock w)" "sk_lock_using (fw_schedule_lock w) = 1"
    and "wsd_all_ok al t (Suc (Suc (Suc k))) fibers (fw_scheduler w)" "c \<in> set fibers" "c \<notin># wsd_all (fw_scheduler w)"
    and "\<forall>f \<in># wsd_all (fw_scheduler w). ban_of w f \<noteq> None"
    and "\<exists>f. f \<in># wsd_all (fw_scheduler w) \<and> \<not> saving w f"
    and "fiber_scheduler_next_wsd al t sps (saving w) (fw_scheduler w) = Some (s, f)" "f \<noteq> NULL"
  shows "\<exists>w'. fiber_manager_yield (wsd_ops al sps sp) o1 t w = Some (w', Returned) \<and> runs t c w' \<and>
     wsd_all (fw_scheduler w') + {#f#} = wsd_all (fw_scheduler w) + {#c#} \<and> c \<in># wsd_all (fw_scheduler w')"
  using wsd_manager.yield_cases [OF assms(1,2,4-7) disjI2 [OF assms(8)], of sps sp o1] assms(3,9,10) by auto

theorem yield_forgets_fiber_witness:
  "\<exists>s w'. wsd_all s = {#12#} \<and> wsd_all (fw_scheduler w') = {#11#} \<and> runs 0 11 w' \<and>
     fiber_manager_yield (wsd_ops first_free [] (\<lambda>_ _. False)) demo_outside 0 (demo_world s 1) = Some (w', Returned)"
proof -
  obtain s where s0: "wsd_all_ok first_free 0 9 [11, 12] s" "wsd_all s = {#12#}"
      "\<And>saving. \<not> saving 12 \<Longrightarrow> \<exists>s'. fiber_scheduler_next_wsd first_free 0 [] saving s = Some (s', 12)"
    using demo_scheduler by blast
  obtain s' where "fiber_scheduler_next_wsd first_free 0 [] (saving (demo_world s 1)) s = Some (s', 12)"
    using s0(3) [of "saving (demo_world s 1)"] demo_runs(4) [of s 1] by blast
  with s0 have s: "wsd_all_ok first_free 0 (Suc (Suc (Suc 6))) [11, 12] s" "wsd_all s = {#12#}"
      "fiber_scheduler_next_wsd first_free 0 [] (saving (demo_world s 1)) s = Some (s', 12)"
    by simp_all
  have h: "sk_lock_using (fw_schedule_lock (demo_world s 1)) = 1" "11 \<notin># wsd_all (fw_scheduler (demo_world s 1))"
      "\<forall>f \<in># wsd_all (fw_scheduler (demo_world s 1)). ban_of (demo_world s 1) f \<noteq> None"
      "\<exists>f. f \<in># wsd_all (fw_scheduler (demo_world s 1)) \<and> \<not> saving (demo_world s 1) f"
      "wsd_all_ok first_free 0 (Suc (Suc (Suc 6))) [11, 12] (fw_scheduler (demo_world s 1))"
      "fiber_scheduler_next_wsd first_free 0 [] (saving (demo_world s 1)) (fw_scheduler (demo_world s 1)) = Some (s', 12)"
    using s demo_runs [of s 1] by simp_all
  from yield_forgets_fiber [OF demo_runs(1,2) h(1,5) _ h(2,3,4,6), of "\<lambda>_ _. False" demo_outside]
  obtain w' where w': "fiber_manager_yield (wsd_ops first_free [] (\<lambda>_ _. False)) demo_outside 0 (demo_world s 1) = Some (w', Returned)"
      "runs 0 11 w'" "wsd_all (fw_scheduler w') + {#12#} = wsd_all (fw_scheduler (demo_world s 1)) + {#11#}"
    by (simp del: union_mset_add_mset_right) metis
  then have "wsd_all (fw_scheduler w') + {#12#} = {#12#} + {#11#}" using s(2) demo_runs(5) [of s 1] by simp
  then have "wsd_all (fw_scheduler w') = {#11#}" by (simp add: add_eq_conv_ex)
  with w' s(2) show ?thesis by blast
qed

text \<open>A fiber that waits with \<open>fiber_manager_set_and_wait\<close> while no fiber is banned leaves the processor before its wait
  location is written: when the call has switched, another fiber runs (a ready one, or the maintenance fiber when
  none can run), the location holds the value, the fiber is waiting, and it is in no scheduler.\<close>

theorem set_and_wait_publishes:
  assumes "runs t c w" "g \<noteq> NULL" "fw_fibers w g \<noteq> None" "v \<noteq> NULL"
    and "lock_free (fw_schedule_lock w)" "sk_lock_using (fw_schedule_lock w) \<noteq> 1" "wsd_all_ok al t (Suc k) fibers (fw_scheduler w)"
    and "c \<notin># wsd_all (fw_scheduler w)"
    and "\<forall>f \<in># wsd_all (fw_scheduler w). \<exists>b. ban_of w f = Some b \<and> timer_greater (o_now o1) b"
    and "wsd_all (fw_scheduler w) = {#} \<or> (\<exists>f. f \<in># wsd_all (fw_scheduler w) \<and> \<not> saving w f)"
    and "fm_maintenance_fiber (fw_managers w ! t) = mf" "mf \<noteq> NULL" "fw_fibers w mf \<noteq> None" "mf \<noteq> c"
  shows "\<exists>w' oc f. fiber_manager_set_and_wait (wsd_ops al sps sp) o1 t (Loc_Join_Info g) v w = Some (w', oc) \<and>
     wsd_all_ok al t k fibers (fw_scheduler w') \<and> runs t f w' \<and>
     (oc = Switched f \<and> wsd_all (fw_scheduler w) = add_mset f (wsd_all (fw_scheduler w')) \<or>
      oc = Again f \<and> f = mf \<and> wsd_all (fw_scheduler w') = wsd_all (fw_scheduler w)) \<and>
     map_option fb_state (fw_fibers w' c) = Some FIBER_STATE_WAITING \<and> map_option fb_join_info (fw_fibers w' g) = Some v"
  by (rule wsd_manager.set_and_wait_ok [OF assms])

theorem set_and_wait_publishes_witness:
  "\<exists>s w' oc. wsd_all s = {#12#} \<and>
     fiber_manager_set_and_wait (wsd_ops first_free [] (\<lambda>_ _. False)) demo_outside 0 (Loc_Join_Info 11) 11 (demo_world s (-1)) = Some (w', oc) \<and>
     map_option fb_state (fw_fibers w' 11) = Some FIBER_STATE_WAITING \<and> map_option fb_join_info (fw_fibers w' 11) = Some 11"
proof -
  obtain s where s0: "wsd_all_ok first_free 0 9 [11, 12] s" "wsd_all s = {#12#}"
    using demo_scheduler by blast
  have h: "fw_fibers (demo_world s (-1)) 11 \<noteq> None" "sk_lock_using (fw_schedule_lock (demo_world s (-1))) \<noteq> 1"
      "wsd_all_ok first_free 0 (Suc 8) [11, 12] (fw_scheduler (demo_world s (-1)))" "11 \<notin># wsd_all (fw_scheduler (demo_world s (-1)))"
      "\<forall>f \<in># wsd_all (fw_scheduler (demo_world s (-1))). \<exists>b. ban_of (demo_world s (-1)) f = Some b \<and> timer_greater (o_now demo_outside) b"
      "\<exists>f. f \<in># wsd_all (fw_scheduler (demo_world s (-1))) \<and> \<not> saving (demo_world s (-1)) f"
      "fm_maintenance_fiber (fw_managers (demo_world s (-1)) ! 0) = 13" "fw_fibers (demo_world s (-1)) 13 \<noteq> None"
    using s0 demo_runs [of s "-1"] demo_now by (simp_all add: demo_world_def)
  from set_and_wait_publishes [OF demo_runs(1) _ h(1) _ demo_runs(2) h(2-5) disjI2 [OF h(6)] h(7) _ h(8), of 11 "[]" "\<lambda>_ _. False"] s0(2)
  show ?thesis by auto
qed

text \<open>Waking \<open>n\<close> fibers from a queue in which at least \<open>n\<close> wait wakes exactly the \<open>n\<close> that have waited longest and
  returns \<open>n\<close>: each gets a node of the queue back, a waiting one becomes ready, all of them and no others become
  scheduled, and the rest stay in the queue in order.\<close>

theorem wake_from_mpsc_queue_in_order:
  assumes "mpsc_rep (fw_nodes w) fifo ns (xs @ ys)" "xs \<noteq> []" "distinct xs"
    and "\<forall>x \<in> set xs. sleeper w x \<and> x \<in> set fibers \<and> x \<notin># wsd_all (fw_scheduler w)"
    and "wsd_all_ok al t (length xs + k) fibers (fw_scheduler w)"
  shows "\<exists>w' fifo'. fiber_manager_wake_from_mpsc_queue (wsd_ops al sps sp) t fifo (int (length xs)) 0 w =
       Some (w', fifo', Woken (int (length xs))) \<and>
     mpsc_rep (fw_nodes w') fifo' (drop (length xs) ns) ys \<and> wsd_all_ok al t k fibers (fw_scheduler w') \<and>
     wsd_all (fw_scheduler w') = wsd_all (fw_scheduler w) + mset xs \<and>
     (\<forall>f. fw_fibers w' f = (if f \<in> set xs then map_option (woken (the (map_of (zip xs ns) f))) (fw_fibers w f) else fw_fibers w f))"
  using wsd_manager.wake_mpsc_ok [OF assms, of sps sp 0] by simp

theorem wake_from_mpsc_queue_in_order_witness:
  "\<exists>s w' fifo'. fiber_manager_wake_from_mpsc_queue (wsd_ops first_free [] (\<lambda>_ _. False)) 0 \<lparr>mpsc_head = 41, mpsc_tail = 42\<rparr> 1 0
      ((demo_world s (-1))\<lparr>fw_nodes := [41 \<mapsto> \<lparr>mn_data = 0, mn_next = 42\<rparr>, 42 \<mapsto> \<lparr>mn_data = 13, mn_next = 0\<rparr>]\<rparr>) = Some (w', fifo', Woken 1) \<and>
     wsd_all (fw_scheduler w') = {#12#} + {#13#} \<and> map_option fb_state (fw_fibers w' 13) = Some FIBER_STATE_READY"
proof -
  obtain s where s0: "wsd_all_ok first_free 0 9 [11, 12] s" "wsd_all s = {#12#}"
    using demo_scheduler by blast
  then have ok: "wsd_all_ok first_free 0 9 [11, 12, 13] s" by (simp add: wsd_all_ok_def)
  let ?w = "(demo_world s (-1))\<lparr>fw_nodes := [41 \<mapsto> \<lparr>mn_data = 0, mn_next = 42\<rparr>, 42 \<mapsto> \<lparr>mn_data = 13, mn_next = 0\<rparr>]\<rparr>"
  have rep: "mpsc_rep (fw_nodes ?w) \<lparr>mpsc_head = 41, mpsc_tail = 42\<rparr> [41, 42] ([13] @ [])"
    by (simp add: mpsc_rep_def mpsc_dat_def)
  have h: "\<forall>x \<in> set [13]. sleeper ?w x \<and> x \<in> set [11, 12, 13] \<and> x \<notin># wsd_all (fw_scheduler ?w)"
      "wsd_all_ok first_free 0 (length [13::nat] + 8) [11, 12, 13] (fw_scheduler ?w)"
    using s0 ok by (simp_all add: sleeper_def demo_world_def zero_fiber_def)
  obtain w' fifo' where w': "fiber_manager_wake_from_mpsc_queue (wsd_ops first_free [] (\<lambda>_ _. False)) 0
        \<lparr>mpsc_head = 41, mpsc_tail = 42\<rparr> 1 0 ?w = Some (w', fifo', Woken 1)"
      "wsd_all (fw_scheduler w') = wsd_all (fw_scheduler ?w) + mset [13]"
      "fw_fibers w' 13 = map_option (woken 41) (fw_fibers ?w 13)"
    using wake_from_mpsc_queue_in_order [OF rep _ _ h, of "[]" "\<lambda>_ _. False"] by auto
  have "map_option fb_state (map_option (woken 41) (fw_fibers ?w 13)) = Some FIBER_STATE_READY" "fw_scheduler ?w = s"
    by (simp_all add: demo_world_def zero_fiber_def woken_def)
  with w' s0(2) show ?thesis by (intro exI [of _ s] exI [of _ w'] exI [of _ fifo']) simp
qed

text \<open>Fibers 12 and 13 wait in the second kind of queue, at address 50.\<close>

definition demo_mpmc_world :: "'s \<Rightarrow> 's fiber_world" where
  "demo_mpmc_world s = (demo_world s (-1))\<lparr>
     fw_fibers := [12 \<mapsto> zero_fiber\<lparr>fb_state := FIBER_STATE_WAITING\<rparr>, 13 \<mapsto> zero_fiber\<lparr>fb_state := FIBER_STATE_WAITING\<rparr>],
     fw_managers := [zero_manager\<lparr>fm_mpmc_hptr := 34\<rparr>],
     fw_mpmc := [50 \<mapsto> \<lparr>mq_head = 51, mq_tail = 53\<rparr>],
     fw_mpmc_nodes := [51 \<mapsto> \<lparr>mq_value = 0, mq_prev = 52, mq_next = 0\<rparr>, 52 \<mapsto> \<lparr>mq_value = 12, mq_prev = 53, mq_next = 51\<rparr>,
                       53 \<mapsto> \<lparr>mq_value = 13, mq_prev = 0, mq_next = 52\<rparr>],
     fw_hazard_nodes := (\<lambda>_. Some \<lparr>hn_next = 0, hn_gc_data = 0, hn_gc_function = RETURN_MPMC_NODE\<rparr>),
     fw_records := [34 \<mapsto> \<lparr>hr_next = 0, hr_retire_threshold = 4, hr_retired_count = 0, hr_retired_list = 0, hr_plist_size = 0,
                           hr_plist = None, hr_pointers = [0, 0]\<rparr>],
     fw_hazard_head := 34\<rparr>"

text \<open>The queue of the second kind wakes too few: asked to wake two fibers of which two are waiting, the call returns after
  it has woken one, because each fiber it wakes is counted twice.\<close>

theorem wake_from_mpmc_queue_wakes_half:
  "\<exists>s w'. wsd_all s = {#} \<and> wsd_all (fw_scheduler w') = {#12#} \<and>
     fiber_manager_wake_from_mpmc_queue (wsd_ops first_free [] (\<lambda>_ _. False)) demo_outside 0 50 2 (demo_mpmc_world s) = Some (w', 1)"
proof -
  obtain s where s0: "wsd_world_ok first_free s" "length (sw_schedulers s) = 1" "wsd_total (sw_queues s) = {#}"
    using init_wsd_ok [OF first_free_good, of 1] by auto
  then have "wsd_all_ok first_free 0 (Suc 9) [12, 13] s" "wsd_all s = {#}" by (simp_all add: wsd_all_ok_def wsd_all_def)
  with schedule_wsd_all [of first_free 0 9 "[12, 13]" s 12]
  obtain s' where s': "fiber_scheduler_schedule_wsd first_free 0 s 12 = Some s'" "wsd_all s' = {#12#}" "wsd_all s = {#}" by auto
  let ?w = "demo_mpmc_world s"
  obtain w1 where pop: "mpmc_pop demo_outside 34 50 ?w = Some (w1, 12)" "fw_fibers w1 = fw_fibers ?w" "fw_scheduler w1 = s"
    by (simp add: mpmc_pop_def demo_mpmc_world_def demo_outside_def mpmc_fifo_trypop.simps hazard_pointer_using_def
        hazard_pointer_done_using_def hazard_pointer_free_def demo_world_def)
  have "fw_fibers w1 12 = Some (zero_fiber\<lparr>fb_state := FIBER_STATE_WAITING\<rparr>)" using pop(2) by (simp add: demo_mpmc_world_def)
  then have wake: "wake_mpmc_fiber (wsd_ops first_free [] (\<lambda>_ _. False)) 0 12 w1 =
      Some (w1\<lparr>fw_fibers := (fw_fibers w1)(12 \<mapsto> zero_fiber\<lparr>fb_state := FIBER_STATE_READY\<rparr>), fw_scheduler := s'\<rparr>)"
    using s'(1) pop(3) by (simp add: wake_mpmc_fiber_def upd_Some fiber_manager_schedule_def)
  have "fiber_manager_get_hazard_record demo_outside 0 ?w = Some (?w, 34)"
    by (simp add: fiber_manager_get_hazard_record_def demo_mpmc_world_def)
  then have "fiber_manager_wake_from_mpmc_queue (wsd_ops first_free [] (\<lambda>_ _. False)) demo_outside 0 50 2 ?w =
      Some (w1\<lparr>fw_fibers := (fw_fibers w1)(12 \<mapsto> zero_fiber\<lparr>fb_state := FIBER_STATE_READY\<rparr>), fw_scheduler := s'\<rparr>, 1)"
    using pop(1) wake by (simp add: fiber_manager_wake_from_mpmc_queue_def wake_mpmc_loop.simps)
  with s' show ?thesis by (intro exI [of _ s]) auto
qed

text \<open>When every allocation succeeds, \<open>fiber_manager_init\<close> makes one manager per kernel thread, each running a detached
  thread fiber of its own with nothing deferred, over an empty scheduler, and returns success; a second
  initialisation is an error that changes no manager and no scheduler.\<close>

theorem manager_init_correct:
  assumes "fw_state w = FIBER_MANAGER_STATE_NONE" "fw_managers w = []" "os \<noteq> []" "good_malloc al"
    and "\<forall>o1 \<in> set os. allocates o1" "distinct (map o_fiber os)"
  shows "\<exists>w'. fiber_manager_init (wsd_ops al sps sp) os True True True w = Some (w', FIBER_SUCCESS) \<and>
     length (fw_managers w') = length os \<and> wsd_all (fw_scheduler w') = {#} \<and> wsd_world_ok al (fw_scheduler w') \<and>
     (\<forall>i < length os. runs i (o_fiber (os ! i)) w' \<and> thread_fiber_of w' i (o_fiber (os ! i))) \<and>
     (\<exists>w''. fiber_manager_init (wsd_ops al sps sp) os True True True w' = Some (w'', FIBER_ERROR) \<and>
            fw_managers w'' = fw_managers w' \<and> fw_scheduler w'' = fw_scheduler w')"
proof -
  obtain s where s: "fiber_scheduler_init_wsd al (length os) = Some s" "wsd_world_ok al s" "wsd_total (sw_queues s) = {#}"
    using init_wsd_ok [OF assms(4), of "length os"] assms(3) by auto
  let ?w0 = "w\<lparr>fw_schedule_lock := init_scheduler_lock_data (fw_schedule_lock w), fw_shutting_down := False, fw_scheduler := s\<rparr>"
  obtain w1 where w1: "create_managers 0 os ?w0 = Some w1" "length (fw_managers w1) = length os" "fw_scheduler w1 = s"
      "\<forall>i < length os. thread_fiber_of w1 i (map o_fiber os ! i)"
    using create_managers_ok [OF assms(5), of "[]" ?w0] assms(2,6) by auto
  let ?w' = "w1\<lparr>fw_state := FIBER_MANAGER_STATE_STARTED\<rparr>"
  have "fiber_manager_init (wsd_ops al sps sp) os True True True w = Some (?w', FIBER_SUCCESS)"
    using assms(1,2) s(1) w1(1) by (simp add: fiber_manager_init_def)
  moreover have "\<forall>i < length os. runs i (o_fiber (os ! i)) ?w' \<and> thread_fiber_of ?w' i (o_fiber (os ! i))"
    using w1(2,4) by (auto simp: thread_fiber_of_def runs_def nothing_pending_def zero_manager_def)
  moreover have "\<exists>w''. fiber_manager_init (wsd_ops al sps sp) os True True True ?w' = Some (w'', FIBER_ERROR) \<and>
            fw_managers w'' = fw_managers ?w' \<and> fw_scheduler w'' = fw_scheduler ?w'"
    by (simp add: fiber_manager_init_def)
  ultimately show ?thesis using w1 s by (intro exI [of _ ?w']) (simp add: wsd_all_def)
qed

theorem manager_init_correct_witness:
  "\<exists>w'. fiber_manager_init (wsd_ops first_free [] (\<lambda>_ _. False)) [demo_outside, demo_outside\<lparr>o_fiber := 41\<rparr>] True True True
      ((demo_world undefined 0)\<lparr>fw_state := FIBER_MANAGER_STATE_NONE, fw_managers := []\<rparr>) = Some (w', FIBER_SUCCESS) \<and>
     length (fw_managers w') = 2 \<and> runs 0 31 w' \<and> runs 1 41 w'"
  using manager_init_correct [of "(demo_world undefined 0)\<lparr>fw_state := FIBER_MANAGER_STATE_NONE, fw_managers := []\<rparr>"
      "[demo_outside, demo_outside\<lparr>o_fiber := 41\<rparr>]" first_free "[]" "\<lambda>_ _. False"] first_free_good
  by (auto simp: allocates_def demo_outside_def numeral_2_eq_2 less_Suc_eq)

end
