(* ===== verification/Sleep_Tree.thy ===== *)
theory Sleep_Tree
  imports Fiber_Prelude "HOL-Library.Multiset"
begin

text \<open>
  The sleeping fibers of \<open>src/fiber_event_native.c\<close>: an unbalanced search tree on the wake time whose nodes
  carry a linked list of the sleepers with that time.  A node is its left child, its wake time, the
  fibers of the node and of its \<open>next\<close> chain, and its right child.
\<close>

datatype waiter_tree = No_Waiter | Waiter_El waiter_tree "64 word" "addr list" waiter_tree

text \<open>A node with the wake time of an existing one goes second in the chain of that node.\<close>

fun chain_insert :: "addr \<Rightarrow> addr list \<Rightarrow> addr list" where
  "chain_insert f [] = [f]"
| "chain_insert f (x # xs) = x # f # xs"

fun waiter_insert :: "waiter_tree \<Rightarrow> 64 word \<Rightarrow> addr \<Rightarrow> waiter_tree" where
  "waiter_insert No_Waiter wake_time f = Waiter_El No_Waiter wake_time [f] No_Waiter"
| "waiter_insert (Waiter_El left k fs right) wake_time f =
     (if wake_time < k then Waiter_El (waiter_insert left wake_time f) k fs right
      else if wake_time = k then Waiter_El left k (chain_insert f fs) right
      else Waiter_El left k fs (waiter_insert right wake_time f))"

fun waiter_remove_less_than :: "waiter_tree \<Rightarrow> 64 word \<Rightarrow> waiter_tree \<times> addr list option" where
  "waiter_remove_less_than No_Waiter wake_time = (No_Waiter, None)"
| "waiter_remove_less_than (Waiter_El left k fs right) wake_time =
     (if left \<noteq> No_Waiter
      then (case waiter_remove_less_than left wake_time of (left', ret) \<Rightarrow> (Waiter_El left' k fs right, ret))
      else if wake_time > k then (right, Some fs)
      else (Waiter_El left k fs right, None))"

lemma remove_size:
  "waiter_remove_less_than tr k = (tr', Some fs) \<Longrightarrow> size tr' < size tr"
  by (induction tr arbitrary: tr') (auto split: if_splits prod.splits)

text \<open>The loop of \<open>fiber_event_wake_sleepers\<close> that takes everything due off the tree; the chains are in order.\<close>

function due :: "waiter_tree \<Rightarrow> 64 word \<Rightarrow> waiter_tree \<times> addr list list" where
  "due tr now =
     (case waiter_remove_less_than tr now of
        (tr', None) \<Rightarrow> (tr', [])
      | (tr', Some fs) \<Rightarrow> (case due tr' now of (tr'', fss) \<Rightarrow> (tr'', fs # fss)))"
  by pat_completeness auto
termination
  by (relation "measure (size \<circ> fst)") (auto dest: remove_size [OF sym])

lemmas [simp del] = due.simps

section \<open>The tree as an ordered list\<close>

text \<open>The chains with their times, in order of time.\<close>

fun timetable :: "waiter_tree \<Rightarrow> (64 word \<times> addr list) list" where
  "timetable No_Waiter = []"
| "timetable (Waiter_El left k fs right) = timetable left @ (k, fs) # timetable right"

abbreviation in_order :: "(64 word \<times> addr list) list \<Rightarrow> bool" where
  "in_order es \<equiv> sorted_wrt (<) (map fst es)"

definition search_tree :: "waiter_tree \<Rightarrow> bool" where
  "search_tree tr \<longleftrightarrow> in_order (timetable tr)"

text \<open>The reference: insertion into an ordered list of chains.\<close>

fun ins_time :: "64 word \<Rightarrow> addr \<Rightarrow> (64 word \<times> addr list) list \<Rightarrow> (64 word \<times> addr list) list" where
  "ins_time k f [] = [(k, [f])]"
| "ins_time k f ((k', fs) # es) =
     (if k < k' then (k, [f]) # (k', fs) # es
      else if k = k' then (k', chain_insert f fs) # es
      else (k', fs) # ins_time k f es)"

definition entries :: "(64 word \<times> addr list) list \<Rightarrow> (64 word \<times> addr) multiset" where
  "entries es = mset (concat (map (\<lambda>(k, fs). map (Pair k) fs) es))"

lemma entries_simps [simp]:
  "entries [] = {#}" "entries ((k, fs) # es) = mset (map (Pair k) fs) + entries es"
  "entries (es @ es') = entries es + entries es'"
  by (simp_all add: entries_def)

lemma timetable_empty [simp]: "timetable tr = [] \<longleftrightarrow> tr = No_Waiter"
  by (cases tr) auto

lemma mset_chain_insert [simp]: "mset (chain_insert f fs) = add_mset f (mset fs)"
  by (cases fs) simp_all

lemma ins_time_times: "fst ` set (ins_time k f es) = insert k (fst ` set es)"
  by (induction k f es rule: ins_time.induct) auto

lemma ins_time_in_order: "in_order es \<Longrightarrow> in_order (ins_time k f es)"
proof (induction k f es rule: ins_time.induct)
  case (2 k f k' fs es)
  have lt: "\<forall>x \<in> fst ` set es. k' < x" using "2.prems" by auto
  then have "\<forall>x \<in> fst ` set (ins_time k f es). k' < x" if "k' < k" unfolding ins_time_times using that by blast
  with 2 lt show ?case by (auto simp: not_less_iff_gr_or_eq)
qed simp

lemma ins_time_entries: "entries (ins_time k f es) = add_mset (k, f) (entries es)"
  by (induction k f es rule: ins_time.induct) (auto simp: entries_def)

lemma ins_time_append1: "in_order (es @ [(k', fs)]) \<Longrightarrow> k < k' \<Longrightarrow> ins_time k f (es @ (k', fs) # es') = ins_time k f es @ (k', fs) # es'"
  by (induction k f es rule: ins_time.induct) auto

lemma ins_time_append2:
  "\<forall>x \<in> fst ` set es. x < k \<Longrightarrow> ins_time k f (es @ es') = es @ ins_time k f es'"
  by (induction es) (auto simp: not_less_iff_gr_or_eq)

text \<open>Inserting a sleeper into the tree is inserting it into the ordered list.\<close>

lemma timetable_insert: "search_tree tr \<Longrightarrow> timetable (waiter_insert tr k f) = ins_time k f (timetable tr)"
  unfolding search_tree_def
proof (induction tr)
  case (Waiter_El left k' fs right)
  have o: "in_order (timetable left)" "in_order (timetable right)" "in_order (timetable left @ [(k', fs)])"
      "\<forall>x \<in> fst ` set (timetable left). x < k'"
    using Waiter_El.prems by (auto simp: sorted_wrt_append)
  consider "k < k'" | "k' \<le> k" by fastforce
  then show ?case
  proof cases
    case 1
    then show ?thesis using Waiter_El.IH(1) o ins_time_append1 [OF o(3) 1] by simp
  next
    case 2
    then have "\<forall>x \<in> fst ` set (timetable left). x < k" using o(4) by fastforce
    from ins_time_append2 [OF this] 2 Waiter_El.IH(2) o(2) show ?thesis by auto
  qed
qed simp

text \<open>Removal takes the first chain when its time has passed.\<close>

lemma remove_none: "timetable tr = (k, fs) # es \<Longrightarrow> \<not> k < now \<Longrightarrow> waiter_remove_less_than tr now = (tr, None)"
proof (induction tr arbitrary: es)
  case (Waiter_El left k' fs' right)
  then show ?case by (cases "timetable left") auto
qed simp

lemma remove_some: "timetable tr = (k, fs) # es \<Longrightarrow> k < now \<Longrightarrow> snd (waiter_remove_less_than tr now) = Some fs"
proof (induction tr arbitrary: es)
  case (Waiter_El left k' fs' right)
  then show ?case by (cases "timetable left") (auto split: prod.splits)
qed simp

lemma remove_tail:
  "timetable tr = (k, fs) # es \<Longrightarrow> k < now \<Longrightarrow> timetable (fst (waiter_remove_less_than tr now)) = es"
proof (induction tr arbitrary: es)
  case (Waiter_El left k' fs' right)
  show ?case
  proof (cases "left = No_Waiter")
    case False
    then obtain e es' where t: "timetable left = e # es'" by (cases "timetable left") auto
    then show ?thesis using Waiter_El.IH(1) [of es'] Waiter_El.prems False by (auto split: prod.splits)
  qed (use Waiter_El.prems in auto)
qed simp

lemma due_timetable:
  "due tr now = (tr', fss) \<Longrightarrow>
     fss = map snd (takeWhile (\<lambda>e. fst e < now) (timetable tr)) \<and> timetable tr' = dropWhile (\<lambda>e. fst e < now) (timetable tr)"
proof (induction tr now arbitrary: tr' fss rule: due.induct)
  case (1 tr now)
  show ?case
  proof (cases "timetable tr")
    case Nil
    then have "due tr now = (No_Waiter, [])" by (subst due.simps) simp
    then show ?thesis using "1.prems" Nil by simp
  next
    case (Cons e es)
    obtain k fs where e: "e = (k, fs)" by (cases e)
    show ?thesis
    proof (cases "k < now")
      case False
      then have "waiter_remove_less_than tr now = (tr, None)" using Cons e remove_none [of tr k fs es now] by simp
      then have "due tr now = (tr, [])" by (subst due.simps) simp
      then show ?thesis using "1.prems" Cons e False by simp
    next
      case True
      define tr1 where "tr1 = fst (waiter_remove_less_than tr now)"
      have rm: "waiter_remove_less_than tr now = (tr1, Some fs)"
        using Cons e True remove_some [of tr k fs es now] by (simp add: tr1_def prod_eq_iff)
      obtain tr2 fss' where d: "due tr1 now = (tr2, fss')" by (cases "due tr1 now")
      have "due tr now = (tr2, fs # fss')" using rm d by (subst due.simps) simp
      then have r: "tr' = tr2" "fss = fs # fss'" using "1.prems" by simp_all
      have "timetable tr1 = es" using remove_tail [of tr k fs es now] Cons e True by (simp add: tr1_def)
      with "1.IH" [OF rm [symmetric] refl d] r Cons e True show ?thesis by simp
    qed
  qed
qed

lemma take_due: "in_order es \<Longrightarrow> takeWhile (\<lambda>e. fst e < now) es = filter (\<lambda>e. fst e < now) es"
proof (induction es)
  case (Cons e es)
  show ?case
  proof (cases "fst e < now")
    case False
    then have "\<forall>x \<in> set es. \<not> fst x < now" using Cons.prems by (force dest: less_trans)
    with False show ?thesis by (simp add: filter_empty_conv)
  qed (use Cons in simp)
qed simp

lemma drop_due: "in_order es \<Longrightarrow> dropWhile (\<lambda>e. fst e < now) es = filter (\<lambda>e. \<not> fst e < now) es"
proof (induction es)
  case (Cons e es)
  show ?case
  proof (cases "fst e < now")
    case False
    then have "\<forall>x \<in> set es. \<not> fst x < now" using Cons.prems by (force dest: less_trans)
    with False show ?thesis by simp
  qed (use Cons in simp)
qed simp

lemma entries_filter: "entries (filter (\<lambda>e. P (fst e)) es) = filter_mset (\<lambda>e. P (fst e)) (entries es)"
proof (induction es)
  case (Cons e es)
  obtain k fs where e: "e = (k, fs)" by (cases e)
  have "filter_mset (\<lambda>e. P (fst e)) (mset (map (Pair k) fs)) = (if P k then mset (map (Pair k) fs) else {#})"
    by (induction fs) auto
  then show ?case using Cons e by (simp del: mset_map)
qed simp

lemma in_order_filter: "in_order es \<Longrightarrow> in_order (filter P es)"
  by (induction es) auto

text \<open>The chains that are due, by time, and the tree that is left.\<close>

lemma due_filter:
  assumes "search_tree tr" "due tr now = (tr', fss)"
  shows "search_tree tr' \<and> entries (timetable tr') = filter_mset (\<lambda>e. \<not> fst e < now) (entries (timetable tr)) \<and>
    concat fss = concat (map snd (filter (\<lambda>e. fst e < now) (timetable tr))) \<and>
    mset (concat fss) = image_mset snd (filter_mset (\<lambda>e. fst e < now) (entries (timetable tr)))"
proof -
  have o: "in_order (timetable tr)" using assms(1) by (simp add: search_tree_def)
  have t: "timetable tr' = filter (\<lambda>e. \<not> fst e < now) (timetable tr)" "fss = map snd (filter (\<lambda>e. fst e < now) (timetable tr))"
    using due_timetable [OF assms(2)] take_due [OF o] drop_due [OF o] by simp_all
  have "mset (concat (map snd es)) = image_mset snd (entries es)" for es :: "(64 word \<times> addr list) list"
    by (induction es) (auto simp: image_mset.compositionality comp_def)
  then show ?thesis
    using t o entries_filter [of "\<lambda>k. \<not> k < now"] entries_filter [of "\<lambda>k. k < now"]
    by (simp add: search_tree_def in_order_filter)
qed

end
