(* ===== verification/Event.thy ===== *)
theory Event
  imports Manager_Control Sleep_Tree
begin

text \<open>
  \<open>src/fiber_event_native.c\<close> on Linux, one call at a time: waiting for a file descriptor, sleeping, and polling.  The
  kernel is outside: what \<open>epoll_wait\<close> and the read of the timer return are arguments, and the calls of
  \<open>epoll_ctl\<close> are recorded.  The spin lock of a descriptor and the one of the sleepers are cells of the
  heap of spin locks, so that the manager can release them after the switch.
\<close>

unbundle bit_operations_syntax

section \<open>State\<close>

record fd_wait_info =
  wi_events :: "32 word"
  wi_added :: bool
  wi_waiters :: addr

datatype epoll_call = Epoll_Add nat "32 word" | Epoll_Mod nat "32 word" | Epoll_Del nat

record event_state =
  ev_event_fd :: int
  ev_timer_fd :: int
  ev_max_fd :: nat
  ev_wait_info :: "fd_wait_info list option"
  ev_trigger_count :: "64 word"
  ev_sleepers :: waiter_tree
  ev_calls :: "epoll_call list"

definition EPOLLIN :: "32 word" where "EPOLLIN = 1"
definition EPOLLOUT :: "32 word" where "EPOLLOUT = 4"
definition EPOLLONESHOT :: "32 word" where "EPOLLONESHOT = 2 ^ 30"
definition FIBER_POLL_IN :: "32 word" where "FIBER_POLL_IN = 1"
definition FIBER_POLL_OUT :: "32 word" where "FIBER_POLL_OUT = 2"
definition FIBER_EVENT_NOTINIT :: int where "FIBER_EVENT_NOTINIT = -1"

text \<open>The addresses of the spin locks.\<close>

definition sleep_spinlock :: addr where "sleep_spinlock = 1"
definition fd_spinlock :: "nat \<Rightarrow> addr" where "fd_spinlock fd = fd + 2"

definition lock_at :: "addr \<Rightarrow> 's fiber_world \<Rightarrow> 's fiber_world option" where
  "lock_at a w = do {
     l \<leftarrow> load (fw_spinlocks w) a;
     (l1, r) \<leftarrow> fiber_spinlock_lock l;
     h \<leftarrow> store (fw_spinlocks w) a l1;
     Some (w\<lparr>fw_spinlocks := h\<rparr>)
   }"

definition unlock_at :: "addr \<Rightarrow> 's fiber_world \<Rightarrow> 's fiber_world option" where
  "unlock_at a w = do {
     l \<leftarrow> load (fw_spinlocks w) a;
     h \<leftarrow> store (fw_spinlocks w) a (fst (fiber_spinlock_unlock l));
     Some (w\<lparr>fw_spinlocks := h\<rparr>)
   }"

section \<open>Start and shutdown\<close>

text \<open>
  The limit of descriptors (\<open>None\<close> when \<open>getrlimit\<close> fails) and the descriptors of the timer and of epoll are the
  kernel's.  The spin locks of the descriptors come zeroed from \<open>calloc\<close>.
\<close>

definition fiber_event_init ::
  "nat option \<Rightarrow> int \<Rightarrow> int \<Rightarrow> event_state \<Rightarrow> 's fiber_world \<Rightarrow> (event_state \<times> 's fiber_world \<times> int) option" where
  "fiber_event_init limit the_timer_fd the_event_fd e w =
     (if ev_event_fd e \<ge> 0 then Some (e, w, FIBER_ERROR)
      else case limit of
        None \<Rightarrow> Some (e, w, FIBER_ERROR)
      | Some mx \<Rightarrow> do {
          c_assert (ev_wait_info e = None);
          c_assert (the_timer_fd \<ge> 0 \<and> the_event_fd \<ge> 0);
          Some (e\<lparr>ev_max_fd := mx, ev_wait_info := Some (replicate mx \<lparr>wi_events = 0, wi_added = False, wi_waiters = NULL\<rparr>),
                  ev_timer_fd := the_timer_fd, ev_event_fd := the_event_fd\<rparr>,
                w\<lparr>fw_spinlocks := (\<lambda>a. if a \<in> fd_spinlock ` {..<mx} then Some (fst fiber_spinlock_init) else fw_spinlocks w a)\<rparr>,
                FIBER_SUCCESS)
        })"

definition fiber_event_shutdown :: "event_state \<Rightarrow> event_state" where
  "fiber_event_shutdown e =
     (if ev_event_fd e < 0 then e else e\<lparr>ev_timer_fd := -1, ev_event_fd := -1, ev_wait_info := None\<rparr>)"

section \<open>Waking\<close>

text \<open>The fibers that wait for a descriptor are linked through their field \<open>scratch\<close>.\<close>

partial_function (option) fiber_event_wake_waiters ::
  "'s scheduler_ops \<Rightarrow> nat \<Rightarrow> addr \<Rightarrow> addr \<Rightarrow> 's fiber_world \<Rightarrow> 's fiber_world option" where
  "fiber_event_wake_waiters ops t waiters result w =
     (if waiters = NULL then Some w
      else Option.bind (load (fw_fibers w) waiters) (\<lambda>x.
             Option.bind (upd_fiber waiters (\<lambda>x. x\<lparr>fb_state := FIBER_STATE_READY, fb_scratch := result\<rparr>) w) (\<lambda>w1.
               Option.bind (fiber_manager_schedule ops t waiters w1) (\<lambda>w2.
                 fiber_event_wake_waiters ops t (fb_scratch x) result w2))))"

fun wake_chain :: "'s scheduler_ops \<Rightarrow> nat \<Rightarrow> addr list \<Rightarrow> 's fiber_world \<Rightarrow> 's fiber_world option" where
  "wake_chain ops t [] w = Some w"
| "wake_chain ops t (f # fs) w = do {
     c_assert (f \<noteq> NULL);
     w1 \<leftarrow> upd_fiber f (\<lambda>x. x\<lparr>fb_state := FIBER_STATE_READY\<rparr>) w;
     w2 \<leftarrow> fiber_manager_schedule ops t f w1;
     wake_chain ops t fs w2
   }"

definition fiber_event_wake_sleepers ::
  "'s scheduler_ops \<Rightarrow> nat \<Rightarrow> 64 word \<Rightarrow> event_state \<Rightarrow> 's fiber_world \<Rightarrow> (event_state \<times> 's fiber_world) option" where
  "fiber_event_wake_sleepers ops t trigger_count e w = do {
     w1 \<leftarrow> lock_at sleep_spinlock w;
     let now = ev_trigger_count e + trigger_count;
     let (tr, fss) = due (ev_sleepers e) now;
     w2 \<leftarrow> wake_chain ops t (concat fss) w1;
     w3 \<leftarrow> unlock_at sleep_spinlock w2;
     Some (e\<lparr>ev_trigger_count := now, ev_sleepers := tr\<rparr>, w3)
   }"

section \<open>Polling\<close>

text \<open>
  An event is a descriptor, its mask and, for the timer, what the read returned (\<open>None\<close> when there was nothing to read).
\<close>

definition poll_event ::
  "'s scheduler_ops \<Rightarrow> nat \<Rightarrow> int \<times> 32 word \<times> 64 word option \<Rightarrow> event_state \<times> 's fiber_world \<Rightarrow> (event_state \<times> 's fiber_world) option" where
  "poll_event ops t ev ew =
     (case ev of (the_fd, revents, timer_count) \<Rightarrow> case ew of (e, w) \<Rightarrow>
        if the_fd = ev_timer_fd e
        then (case timer_count of None \<Rightarrow> Some (e, w) | Some n \<Rightarrow> fiber_event_wake_sleepers ops t n e w)
        else do {
          infos \<leftarrow> ev_wait_info e;
          c_assert (the_fd \<ge> 0);
          let fd = nat the_fd;
          info \<leftarrow> nth_opt infos fd;
          w1 \<leftarrow> lock_at (fd_spinlock fd) w;
          let events = (wi_events info AND NOT revents) AND (EPOLLIN OR EPOLLOUT);
          let calls = (if events \<noteq> 0 then [Epoll_Mod fd (EPOLLONESHOT OR events)] else []);
          w2 \<leftarrow> fiber_event_wake_waiters ops t (wi_waiters info) NULL w1;
          w3 \<leftarrow> unlock_at (fd_spinlock fd) w2;
          Some (e\<lparr>ev_wait_info := Some (infos[fd := info\<lparr>wi_events := events, wi_waiters := NULL\<rparr>]), ev_calls := ev_calls e @ calls\<rparr>, w3)
        })"

fun poll_loop ::
  "'s scheduler_ops \<Rightarrow> nat \<Rightarrow> (int \<times> 32 word \<times> 64 word option) list \<Rightarrow> event_state \<times> 's fiber_world \<Rightarrow> (event_state \<times> 's fiber_world) option" where
  "poll_loop ops t [] ew = Some ew"
| "poll_loop ops t (ev # evs) ew = do { ew1 \<leftarrow> poll_event ops t ev ew; poll_loop ops t evs ew1 }"

text \<open>\<open>None\<close> for the events is an interrupted \<open>epoll_wait\<close>; any other failure of it trips an assertion.\<close>

definition fiber_poll_events_internal ::
  "'s scheduler_ops \<Rightarrow> nat \<Rightarrow> (int \<times> 32 word \<times> 64 word option) list option \<Rightarrow> event_state \<times> 's fiber_world \<Rightarrow>
   (event_state \<times> 's fiber_world \<times> int) option" where
  "fiber_poll_events_internal ops t events ew =
     (case events of
        None \<Rightarrow> Some (fst ew, snd ew, 0)
      | Some evs \<Rightarrow> do {
          w1 \<leftarrow> upd_manager t (\<lambda>m. m\<lparr>fm_poll_count := fm_poll_count m + 1\<rparr>) (snd ew);
          (e2, w2) \<leftarrow> poll_loop ops t evs (fst ew, w1);
          Some (e2, w2, int (length evs))
        })"

definition fiber_poll_events ::
  "'s scheduler_ops \<Rightarrow> nat \<Rightarrow> (int \<times> 32 word \<times> 64 word option) list option \<Rightarrow> event_state \<times> 's fiber_world \<Rightarrow>
   (event_state \<times> 's fiber_world \<times> int) option" where
  "fiber_poll_events ops t events ew =
     (if ev_event_fd (fst ew) < 0 then Some (fst ew, snd ew, FIBER_EVENT_NOTINIT)
      else fiber_poll_events_internal ops t events ew)"

text \<open>The third component lists the calls of \<open>usleep\<close> when the event system is not started.\<close>

definition fiber_poll_events_blocking ::
  "'s scheduler_ops \<Rightarrow> nat \<Rightarrow> 32 word \<Rightarrow> 32 word \<Rightarrow> (int \<times> 32 word \<times> 64 word option) list option \<Rightarrow> event_state \<times> 's fiber_world \<Rightarrow>
   (event_state \<times> 's fiber_world \<times> 32 word list \<times> int) option" where
  "fiber_poll_events_blocking ops t seconds useconds events ew =
     (if ev_event_fd (fst ew) < 0 then Some (fst ew, snd ew, fiber_do_real_sleep seconds useconds, 0)
      else do { (e, w, n) \<leftarrow> fiber_poll_events_internal ops t events ew; Some (e, w, [], n) })"

section \<open>Waiting\<close>

definition wanted :: "32 word \<Rightarrow> 32 word \<Rightarrow> 32 word" where
  "wanted old events =
     old OR (if events AND FIBER_POLL_IN \<noteq> 0 then EPOLLIN else 0) OR (if events AND FIBER_POLL_OUT \<noteq> 0 then EPOLLOUT else 0)"

text \<open>
  \<open>fiber_wait_for_event\<close> up to the yield; \<open>fiber_wait_for_event_result\<close> is what the fiber returns when it runs again.
\<close>

definition fiber_wait_for_event ::
  "'s scheduler_ops \<Rightarrow> outside \<Rightarrow> nat \<Rightarrow> int \<Rightarrow> 32 word \<Rightarrow> event_state \<times> 's fiber_world \<Rightarrow>
   (event_state \<times> 's fiber_world \<times> yield_outcome) option" where
  "fiber_wait_for_event ops o1 t the_fd events ew =
     (case ew of (e, w) \<Rightarrow> do {
        c_assert (the_fd \<ge> 0);
        let fd = nat the_fd;
        c_assert (fd < ev_max_fd e);
        infos \<leftarrow> ev_wait_info e;
        info \<leftarrow> nth_opt infos fd;
        w1 \<leftarrow> lock_at (fd_spinlock fd) w;
        let evs = wanted (wi_events info) events;
        let call = (if wi_added info then Epoll_Mod fd (EPOLLONESHOT OR evs) else Epoll_Add fd (EPOLLONESHOT OR evs));
        m \<leftarrow> nth_opt (fw_managers w1) t;
        let this_fiber = fm_current_fiber m;
        w2 \<leftarrow> upd_fiber this_fiber (\<lambda>x. x\<lparr>fb_state := FIBER_STATE_WAITING, fb_scratch := wi_waiters info\<rparr>) w1;
        w3 \<leftarrow> upd_manager t (\<lambda>m. m\<lparr>fm_event_wait_count := fm_event_wait_count m + 1, fm_spinlock_to_unlock := fd_spinlock fd\<rparr>) w2;
        (w4, oc) \<leftarrow> fiber_manager_yield ops o1 t w3;
        Some (e\<lparr>ev_wait_info := Some (infos[fd := info\<lparr>wi_events := evs, wi_added := True, wi_waiters := this_fiber\<rparr>]),
                ev_calls := ev_calls e @ [call]\<rparr>, w4, oc)
      })"

definition fiber_wait_for_event_result :: "addr \<Rightarrow> 's fiber_world \<Rightarrow> int option" where
  "fiber_wait_for_event_result this_fiber w = do {
     x \<leftarrow> load (fw_fibers w) this_fiber;
     Some (if fb_scratch x \<noteq> NULL then FIBER_ERROR else FIBER_SUCCESS)
   }"

text \<open>The number of ticks, computed in 32 bits.\<close>

definition sleep_ms :: "32 word \<Rightarrow> 32 word \<Rightarrow> 64 word" where
  "sleep_ms seconds useconds = ucast (seconds * 1000 + useconds div 1000 + 1)"

definition fiber_sleep ::
  "'s scheduler_ops \<Rightarrow> outside \<Rightarrow> nat \<Rightarrow> 32 word \<Rightarrow> 32 word \<Rightarrow> event_state \<times> 's fiber_world \<Rightarrow>
   (event_state \<times> 's fiber_world \<times> 32 word list \<times> yield_outcome) option" where
  "fiber_sleep ops o1 t seconds useconds ew =
     (case ew of (e, w) \<Rightarrow>
        if ev_event_fd e < 0 then Some (e, w, fiber_do_real_sleep seconds useconds, Returned)
        else do {
          w1 \<leftarrow> lock_at sleep_spinlock w;
          m \<leftarrow> nth_opt (fw_managers w1) t;
          let this_fiber = fm_current_fiber m;
          let tr = waiter_insert (ev_sleepers e) (ev_trigger_count e + sleep_ms seconds useconds) this_fiber;
          w2 \<leftarrow> upd_fiber this_fiber (\<lambda>x. x\<lparr>fb_state := FIBER_STATE_WAITING\<rparr>) w1;
          w3 \<leftarrow> upd_manager t (\<lambda>m. m\<lparr>fm_spinlock_to_unlock := sleep_spinlock\<rparr>) w2;
          (w4, oc) \<leftarrow> fiber_manager_yield ops o1 t w3;
          Some (e\<lparr>ev_sleepers := tr\<rparr>, w4, [], oc)
        })"

text \<open>The value \<open>-1\<close> as a pointer: any non-NULL value.\<close>

definition CLOSED :: addr where "CLOSED = 2 ^ 64 - 1"

definition fiber_fd_closed :: "'s scheduler_ops \<Rightarrow> nat \<Rightarrow> int \<Rightarrow> event_state \<times> 's fiber_world \<Rightarrow> (event_state \<times> 's fiber_world) option" where
  "fiber_fd_closed ops t the_fd ew =
     (case ew of (e, w) \<Rightarrow>
        if ev_event_fd e < 0 then Some (e, w)
        else do {
          c_assert (the_fd \<ge> 0);
          let fd = nat the_fd;
          c_assert (fd < ev_max_fd e);
          infos \<leftarrow> ev_wait_info e;
          info \<leftarrow> nth_opt infos fd;
          w1 \<leftarrow> lock_at (fd_spinlock fd) w;
          let registered = (wi_events info \<noteq> 0 \<or> wi_added info);
          w2 \<leftarrow> fiber_event_wake_waiters ops t (wi_waiters info) CLOSED w1;
          w3 \<leftarrow> unlock_at (fd_spinlock fd) w2;
          Some (e\<lparr>ev_wait_info := Some (infos[fd := \<lparr>wi_events = (if registered then 0 else wi_events info),
                     wi_added = (wi_added info \<and> \<not> registered), wi_waiters = NULL\<rparr>]),
                  ev_calls := ev_calls e @ (if registered then [Epoll_Del fd] else [])\<rparr>, w3)
        })"

section \<open>Locking and waking\<close>

definition spin_free :: "'s fiber_world \<Rightarrow> addr \<Rightarrow> bool" where
  "spin_free w a \<longleftrightarrow> a \<noteq> NULL \<and> (\<exists>l. fw_spinlocks w a = Some l \<and> sl_ticket l = sl_users l)"

lemma lock_at_free:
  assumes "spin_free w a"
  obtains l where "lock_at a w = Some (w\<lparr>fw_spinlocks := (fw_spinlocks w)(a \<mapsto> l)\<rparr>)" "sl_ticket l + 1 = sl_users l" "a \<noteq> NULL"
proof -
  obtain l where l: "fw_spinlocks w a = Some l" "sl_ticket l = sl_users l" "a \<noteq> NULL" using assms by (auto simp: spin_free_def)
  have "lock_at a w = Some (w\<lparr>fw_spinlocks := (fw_spinlocks w)(a \<mapsto> l\<lparr>sl_users := sl_users l + 1\<rparr>)\<rparr>)"
    using l by (simp add: lock_at_def fiber_spinlock_lock_def spinlock_take_ticket_def spinlock_poll_def)
  from that [OF this] l show thesis by simp
qed

lemma unlock_at_held:
  assumes "fw_spinlocks w a = Some l" "sl_ticket l + 1 = sl_users l" "a \<noteq> NULL"
  shows "\<exists>l'. unlock_at a w = Some (w\<lparr>fw_spinlocks := (fw_spinlocks w)(a \<mapsto> l')\<rparr>) \<and> sl_ticket l' = sl_users l'"
  using assms by (intro exI [of _ "l\<lparr>sl_ticket := sl_users l\<rparr>"])
    (simp add: unlock_at_def fiber_spinlock_unlock_def spinlock_serve_next_def)

text \<open>The fibers linked through \<open>scratch\<close>.\<close>

fun scratch_list :: "fiber heap \<Rightarrow> addr \<Rightarrow> addr list \<Rightarrow> bool" where
  "scratch_list h p [] \<longleftrightarrow> p = NULL"
| "scratch_list h p (f # fs) \<longleftrightarrow> p = f \<and> f \<noteq> NULL \<and> (\<exists>x. h f = Some x \<and> scratch_list h (fb_scratch x) fs)"

lemma scratch_list_cong: "(\<And>f. f \<in> set fs \<Longrightarrow> h' f = h f) \<Longrightarrow> scratch_list h' p fs = scratch_list h p fs"
  by (induction fs arbitrary: p) auto

lemma scratch_list_members: "scratch_list h p fs \<Longrightarrow> f \<in> set fs \<Longrightarrow> f \<noteq> NULL \<and> h f \<noteq> None"
  by (induction fs arbitrary: p) auto


definition map_fibers :: "addr set \<Rightarrow> (fiber \<Rightarrow> fiber) \<Rightarrow> fiber heap \<Rightarrow> fiber heap" where
  "map_fibers F g h = (\<lambda>f. if f \<in> F then map_option g (h f) else h f)"

lemma map_fibers_simps [simp]:
  "map_fibers {} g h = h" "h f = Some x \<Longrightarrow> f \<notin> F \<Longrightarrow> map_fibers F g (h(f \<mapsto> g x)) = map_fibers (insert f F) g h"
  by (auto simp: map_fibers_def fun_eq_iff)

context manager_scheduler
begin

lemma wake_chain_ok:
  assumes "ok (length fs + k) fibers (fw_scheduler w)" "distinct fs"
    and "\<forall>f \<in> set fs. f \<noteq> NULL \<and> fw_fibers w f \<noteq> None \<and> f \<in> set fibers \<and> f \<notin># ready (fw_scheduler w)"
  shows "\<exists>s. wake_chain ops t fs w =
      Some (w\<lparr>fw_fibers := map_fibers (set fs) (\<lambda>x. x\<lparr>fb_state := FIBER_STATE_READY\<rparr>) (fw_fibers w), fw_scheduler := s\<rparr>) \<and>
    ok k fibers s \<and> ready s = ready (fw_scheduler w) + mset fs"
  using assms
proof (induction fs arbitrary: w)
  case Nil
  then show ?case by (intro exI [of _ "fw_scheduler w"]) simp
next
  case (Cons f fs)
  obtain x where x: "fw_fibers w f = Some x" "f \<noteq> NULL" using Cons.prems(3) by auto
  have "ok (Suc (length fs + k)) fibers (fw_scheduler w)" using Cons.prems(1) by simp
  then obtain s1 where s1: "so_schedule ops t (fw_scheduler w) f = Some s1" "ok (length fs + k) fibers s1"
      "ready s1 = add_mset f (ready (fw_scheduler w))"
    using schedule_ok Cons.prems(3) by (metis list.set_intros(1))
  let ?w1 = "w\<lparr>fw_fibers := (fw_fibers w)(f \<mapsto> x\<lparr>fb_state := FIBER_STATE_READY\<rparr>), fw_scheduler := s1\<rparr>"
  have "wake_chain ops t (f # fs) w = wake_chain ops t fs ?w1"
    using x s1(1) by (simp add: upd_Some fiber_manager_schedule_def)
  moreover have "\<forall>g \<in> set fs. g \<noteq> NULL \<and> fw_fibers ?w1 g \<noteq> None \<and> g \<in> set fibers \<and> g \<notin># ready (fw_scheduler ?w1)"
    using Cons.prems(2,3) s1(3) by auto
  moreover have "ok (length fs + k) fibers (fw_scheduler ?w1)" "distinct fs" "f \<notin> set fs" using s1(2) Cons.prems(2) by simp_all
  moreover obtain s where "wake_chain ops t fs ?w1 =
      Some (?w1\<lparr>fw_fibers := map_fibers (set fs) (\<lambda>x. x\<lparr>fb_state := FIBER_STATE_READY\<rparr>) (fw_fibers ?w1), fw_scheduler := s\<rparr>)"
      "ok k fibers s" "ready s = ready (fw_scheduler ?w1) + mset fs"
    using Cons.IH calculation(2-4) by blast
  ultimately show ?case
    using x s1(3) by (intro exI [of _ s]) (simp del: fun_upd_apply wake_chain.simps)
qed

lemma wake_waiters_ok:
  assumes "ok (length fs + k) fibers (fw_scheduler w)" "distinct fs" "scratch_list (fw_fibers w) p fs"
    and "\<forall>f \<in> set fs. f \<in> set fibers \<and> f \<notin># ready (fw_scheduler w)"
  shows "\<exists>s. fiber_event_wake_waiters ops t p result w =
      Some (w\<lparr>fw_fibers := map_fibers (set fs) (\<lambda>x. x\<lparr>fb_state := FIBER_STATE_READY, fb_scratch := result\<rparr>) (fw_fibers w), fw_scheduler := s\<rparr>) \<and>
    ok k fibers s \<and> ready s = ready (fw_scheduler w) + mset fs"
  using assms
proof (induction fs arbitrary: w p)
  case Nil
  then show ?case by (intro exI [of _ "fw_scheduler w"]) (simp add: fiber_event_wake_waiters.simps)
next
  case (Cons f fs)
  obtain x where x: "fw_fibers w f = Some x" "f \<noteq> NULL" "p = f" "scratch_list (fw_fibers w) (fb_scratch x) fs"
    using Cons.prems(3) by auto
  have "ok (Suc (length fs + k)) fibers (fw_scheduler w)" using Cons.prems(1) by simp
  then obtain s1 where s1: "so_schedule ops t (fw_scheduler w) f = Some s1" "ok (length fs + k) fibers s1"
      "ready s1 = add_mset f (ready (fw_scheduler w))"
    using schedule_ok Cons.prems(4) by (metis list.set_intros(1))
  let ?w1 = "w\<lparr>fw_fibers := (fw_fibers w)(f \<mapsto> x\<lparr>fb_state := FIBER_STATE_READY, fb_scratch := result\<rparr>), fw_scheduler := s1\<rparr>"
  have "fiber_event_wake_waiters ops t p result w = fiber_event_wake_waiters ops t (fb_scratch x) result ?w1"
    using x s1(1) by (subst fiber_event_wake_waiters.simps) (simp add: upd_Some fiber_manager_schedule_def)
  moreover have "scratch_list (fw_fibers ?w1) (fb_scratch x) fs"
    using x(4) Cons.prems(2) by (subst scratch_list_cong [where h = "fw_fibers w"]) auto
  moreover have "\<forall>g \<in> set fs. g \<in> set fibers \<and> g \<notin># ready (fw_scheduler ?w1)"
    using Cons.prems(2,4) s1(3) by auto
  moreover have "ok (length fs + k) fibers (fw_scheduler ?w1)" "distinct fs" "f \<notin> set fs" using s1(2) Cons.prems(2) by simp_all
  moreover obtain s where "fiber_event_wake_waiters ops t (fb_scratch x) result ?w1 =
      Some (?w1\<lparr>fw_fibers := map_fibers (set fs) (\<lambda>x. x\<lparr>fb_state := FIBER_STATE_READY, fb_scratch := result\<rparr>) (fw_fibers ?w1), fw_scheduler := s\<rparr>)"
      "ok k fibers s" "ready s = ready (fw_scheduler ?w1) + mset fs"
    using Cons.IH calculation(2-5) by blast
  ultimately show ?case
    using x s1(3) map_fibers_simps(2) [of "fw_fibers w" f x "set fs" "\<lambda>x. x\<lparr>fb_state := FIBER_STATE_READY, fb_scratch := result\<rparr>"]
    by (intro exI [of _ s]) (simp del: fun_upd_apply map_fibers_simps)
qed

end

text \<open>The state in which a fiber may block: nothing is banned, and there is a maintenance fiber to fall back to.\<close>

definition may_block :: "nat \<Rightarrow> outside \<Rightarrow> addr \<Rightarrow> addr \<Rightarrow> addr multiset \<Rightarrow> 's fiber_world \<Rightarrow> bool" where
  "may_block t o1 c mf rdy w \<longleftrightarrow> runs t c w \<and> lock_free (fw_schedule_lock w) \<and> sk_lock_using (fw_schedule_lock w) \<noteq> 1 \<and> c \<notin># rdy \<and>
     (\<forall>f \<in># rdy. \<exists>b. ban_of w f = Some b \<and> timer_greater (o_now o1) b) \<and>
     (rdy = {#} \<or> (\<exists>f. f \<in># rdy \<and> \<not> saving w f)) \<and>
     fm_maintenance_fiber (fw_managers w ! t) = mf \<and> mf \<noteq> NULL \<and> fw_fibers w mf \<noteq> None \<and> mf \<noteq> c"

lemma ban_of_upd:
  assumes "fw_fibers w c = Some x" "fw_fibers w' = (fw_fibers w)(c \<mapsto> x')" "fb_fiber_stats x' = fb_fiber_stats x" "fw_stats w' = fw_stats w"
  shows "ban_of w' f = ban_of w f"
  using assms by (simp add: ban_of_def get_lock_stats_def load_def)

lemma saving_upd:
  assumes "fw_fibers w' = (fw_fibers w)(c \<mapsto> x')" "f \<noteq> c"
  shows "saving w' f = saving w f"
  using assms by (simp add: saving_def)

context manager_scheduler
begin

text \<open>
  Blocking with a spin lock held: the current fiber is set waiting with a new \<open>scratch\<close>, and the lock is left to the manager.
\<close>

lemma block_unlocking:
  assumes "may_block t o1 c mf (ready (fw_scheduler w)) w" "ok (Suc k) fibers (fw_scheduler w)"
    and "fw_fibers w c = Some x" "x' = x\<lparr>fb_state := FIBER_STATE_WAITING, fb_scratch := p\<rparr>"
    and "a \<noteq> NULL" "sl_ticket l + 1 = sl_users l"
    and u: "u = w\<lparr>fw_spinlocks := (fw_spinlocks w)(a \<mapsto> l), fw_fibers := (fw_fibers w)(c \<mapsto> x'),
        fw_managers := (fw_managers w)[t := m\<lparr>fm_spinlock_to_unlock := a\<rparr>]\<rparr>"
    and m: "m = (fw_managers w ! t)\<lparr>fm_event_wait_count := n\<rparr>"
  shows "\<exists>w' oc f. fiber_manager_yield ops o1 t u = Some (w', oc) \<and> ok k fibers (fw_scheduler w') \<and>
     runs t f w' \<and> f \<noteq> c \<and> (\<exists>y. fw_fibers u f = Some y \<and> fw_fibers w' = (fw_fibers u)(f \<mapsto> y\<lparr>fb_state := FIBER_STATE_RUNNING\<rparr>)) \<and> spin_free w' a \<and>
     (oc = Switched f \<and> ready (fw_scheduler w) = add_mset f (ready (fw_scheduler w')) \<or>
      oc = Again f \<and> f = mf \<and> ready (fw_scheduler w') = ready (fw_scheduler w))"
proof -
  have b: "runs t c w" "lock_free (fw_schedule_lock w)" "sk_lock_using (fw_schedule_lock w) \<noteq> 1" "c \<notin># ready (fw_scheduler w)"
      "\<forall>f \<in># ready (fw_scheduler w). \<exists>b. ban_of w f = Some b \<and> timer_greater (o_now o1) b"
      "ready (fw_scheduler w) = {#} \<or> (\<exists>f. f \<in># ready (fw_scheduler w) \<and> \<not> saving w f)"
      "fm_maintenance_fiber (fw_managers w ! t) = mf" "mf \<noteq> NULL" "fw_fibers w mf \<noteq> None" "mf \<noteq> c"
    using assms(1) by (simp_all add: may_block_def)
  have st: "fw_state w = FIBER_MANAGER_STATE_STARTED" "t < length (fw_managers w)" "fm_current_fiber (fw_managers w ! t) = c" "c \<noteq> NULL"
      "nothing_pending (fw_managers w ! t)" "fm_set_wait_location (fw_managers w ! t) = None" "fm_to_schedule (fw_managers w ! t) = NULL"
    using b(1) by (simp_all add: runs_def)
  have ban: "ban_of u f = ban_of w f" for f
    by (rule ban_of_upd [OF assms(3), where x' = x']) (simp_all add: u assms(4))
  have sav: "f \<in># ready (fw_scheduler w) \<Longrightarrow> saving u f = saving w f" for f
    using saving_upd [of u w c x' f] b(4) by (auto simp: u)
  have rdy: "ready (fw_scheduler u) = {#} \<or> (\<exists>f. f \<in># ready (fw_scheduler u) \<and> \<not> saving u f)"
    using b(6) sav by (auto simp: u)
  have "\<exists>w' oc f. fiber_manager_yield ops o1 t u = Some (w', oc) \<and> ok k fibers (fw_scheduler w') \<and>
     (runs t f w' \<and> f \<noteq> c \<and> (\<exists>y. fw_fibers u f = Some y \<and> fw_fibers w' = (fw_fibers u)(f \<mapsto> y\<lparr>fb_state := FIBER_STATE_RUNNING\<rparr>)) \<and> fw_spinlocks w' = (fw_spinlocks u)(a \<mapsto> fst (fiber_spinlock_unlock l))) \<and>
     (oc = Switched f \<and> ready (fw_scheduler u) = add_mset f (ready (fw_scheduler w')) \<or>
      oc = Again f \<and> f = mf \<and> ready (fw_scheduler w') = ready (fw_scheduler u))"
    by (rule yield_unlocking [where x = x'])
      (use st b assms(2-5) ban rdy in \<open>simp_all add: u m only_spinlock_pending_def nothing_pending_def\<close>)
  moreover have "sl_ticket (fst (fiber_spinlock_unlock l)) = sl_users (fst (fiber_spinlock_unlock l))"
    using assms(6) by (simp add: fiber_spinlock_unlock_def spinlock_serve_next_def)
  moreover have "fw_scheduler u = fw_scheduler w" by (simp add: u)
  ultimately show ?thesis using assms(5) unfolding spin_free_def by (metis fun_upd_same)
qed

lemma sleep_ok:
  assumes "may_block t o1 c mf (ready (fw_scheduler w)) w" "ok (Suc k) fibers (fw_scheduler w)"
    and "spin_free w sleep_spinlock" "ev_event_fd e \<ge> 0"
  shows "\<exists>w' oc f. fiber_sleep ops o1 t s us (e, w) =
       Some (e\<lparr>ev_sleepers := waiter_insert (ev_sleepers e) (ev_trigger_count e + sleep_ms s us) c\<rparr>, w', [], oc) \<and>
     ok k fibers (fw_scheduler w') \<and> runs t f w' \<and> map_option fb_state (fw_fibers w' c) = Some FIBER_STATE_WAITING \<and>
     spin_free w' sleep_spinlock \<and>
     (oc = Switched f \<and> ready (fw_scheduler w) = add_mset f (ready (fw_scheduler w')) \<or>
      oc = Again f \<and> f = mf \<and> ready (fw_scheduler w') = ready (fw_scheduler w))"
proof -
  have r: "runs t c w" using assms(1) by (simp add: may_block_def)
  then obtain x where x: "fw_fibers w c = Some x" "c \<noteq> NULL" "t < length (fw_managers w)" "fm_current_fiber (fw_managers w ! t) = c"
    by (auto simp: runs_def)
  obtain l where l: "lock_at sleep_spinlock w = Some (w\<lparr>fw_spinlocks := (fw_spinlocks w)(sleep_spinlock \<mapsto> l)\<rparr>)"
      "sl_ticket l + 1 = sl_users l" "sleep_spinlock \<noteq> NULL"
    using lock_at_free [OF assms(3)] by blast
  let ?x = "x\<lparr>fb_state := FIBER_STATE_WAITING, fb_scratch := fb_scratch x\<rparr>"
  let ?m = "(fw_managers w ! t)\<lparr>fm_event_wait_count := fm_event_wait_count (fw_managers w ! t)\<rparr>"
  let ?u = "w\<lparr>fw_spinlocks := (fw_spinlocks w)(sleep_spinlock \<mapsto> l), fw_fibers := (fw_fibers w)(c \<mapsto> ?x),
      fw_managers := (fw_managers w)[t := ?m\<lparr>fm_spinlock_to_unlock := sleep_spinlock\<rparr>]\<rparr>"
  obtain w' oc f where y: "fiber_manager_yield ops o1 t ?u = Some (w', oc)" "ok k fibers (fw_scheduler w')" "runs t f w'"
      "f \<noteq> c" "\<exists>y. fw_fibers ?u f = Some y \<and> fw_fibers w' = (fw_fibers ?u)(f \<mapsto> y\<lparr>fb_state := FIBER_STATE_RUNNING\<rparr>)" "spin_free w' sleep_spinlock"
      "oc = Switched f \<and> ready (fw_scheduler w) = add_mset f (ready (fw_scheduler w')) \<or>
       oc = Again f \<and> f = mf \<and> ready (fw_scheduler w') = ready (fw_scheduler w)"
    using block_unlocking [OF assms(1,2) x(1) refl l(3,2) refl refl] by blast
  have "fiber_sleep ops o1 t s us (e, w) =
      Some (e\<lparr>ev_sleepers := waiter_insert (ev_sleepers e) (ev_trigger_count e + sleep_ms s us) c\<rparr>, w', [], oc)"
    using assms(4) l(1) x y(1) by (simp add: fiber_sleep_def upd_Some)
  with y show ?thesis by auto
qed

lemma wait_for_event_ok:
  assumes "may_block t o1 c mf (ready (fw_scheduler w)) w" "ok (Suc k) fibers (fw_scheduler w)"
    and "ev_wait_info e = Some infos" "fd < ev_max_fd e" "fd < length infos" "spin_free w (fd_spinlock fd)"
  shows "\<exists>w' oc f call. fiber_wait_for_event ops o1 t (int fd) events (e, w) =
       Some (e\<lparr>ev_wait_info := Some (infos[fd := (infos ! fd)\<lparr>wi_events := wanted (wi_events (infos ! fd)) events, wi_added := True, wi_waiters := c\<rparr>]),
               ev_calls := ev_calls e @ [call]\<rparr>, w', oc) \<and>
     ok k fibers (fw_scheduler w') \<and> runs t f w' \<and> f \<noteq> c \<and>
     fw_fibers w' c = map_option (\<lambda>x. x\<lparr>fb_state := FIBER_STATE_WAITING, fb_scratch := wi_waiters (infos ! fd)\<rparr>) (fw_fibers w c) \<and>
     (\<forall>g. g \<noteq> c \<longrightarrow> map_option fb_scratch (fw_fibers w' g) = map_option fb_scratch (fw_fibers w g)) \<and>
     spin_free w' (fd_spinlock fd) \<and>
     (oc = Switched f \<and> ready (fw_scheduler w) = add_mset f (ready (fw_scheduler w')) \<or>
      oc = Again f \<and> f = mf \<and> ready (fw_scheduler w') = ready (fw_scheduler w))"
proof -
  have r: "runs t c w" using assms(1) by (simp add: may_block_def)
  then obtain x where x: "fw_fibers w c = Some x" "c \<noteq> NULL" "t < length (fw_managers w)" "fm_current_fiber (fw_managers w ! t) = c"
    by (auto simp: runs_def)
  let ?a = "fd_spinlock fd"
  obtain l where l: "lock_at ?a w = Some (w\<lparr>fw_spinlocks := (fw_spinlocks w)(?a \<mapsto> l)\<rparr>)" "sl_ticket l + 1 = sl_users l" "?a \<noteq> NULL"
    using lock_at_free [OF assms(6)] by blast
  let ?x = "x\<lparr>fb_state := FIBER_STATE_WAITING, fb_scratch := wi_waiters (infos ! fd)\<rparr>"
  let ?m = "(fw_managers w ! t)\<lparr>fm_event_wait_count := fm_event_wait_count (fw_managers w ! t) + 1\<rparr>"
  let ?u = "w\<lparr>fw_spinlocks := (fw_spinlocks w)(?a \<mapsto> l), fw_fibers := (fw_fibers w)(c \<mapsto> ?x),
      fw_managers := (fw_managers w)[t := ?m\<lparr>fm_spinlock_to_unlock := ?a\<rparr>]\<rparr>"
  obtain w' oc f where y: "fiber_manager_yield ops o1 t ?u = Some (w', oc)" "ok k fibers (fw_scheduler w')" "runs t f w'"
      "f \<noteq> c" "\<exists>y. fw_fibers ?u f = Some y \<and> fw_fibers w' = (fw_fibers ?u)(f \<mapsto> y\<lparr>fb_state := FIBER_STATE_RUNNING\<rparr>)" "spin_free w' ?a"
      "oc = Switched f \<and> ready (fw_scheduler w) = add_mset f (ready (fw_scheduler w')) \<or>
       oc = Again f \<and> f = mf \<and> ready (fw_scheduler w') = ready (fw_scheduler w)"
    using block_unlocking [OF assms(1,2) x(1) refl l(3,2) refl refl] by blast
  let ?evs = "wanted (wi_events (infos ! fd)) events"
  have "fiber_wait_for_event ops o1 t (int fd) events (e, w) =
      Some (e\<lparr>ev_wait_info := Some (infos[fd := (infos ! fd)\<lparr>wi_events := ?evs, wi_added := True, wi_waiters := c\<rparr>]),
        ev_calls := ev_calls e @ [if wi_added (infos ! fd) then Epoll_Mod fd (EPOLLONESHOT OR ?evs) else Epoll_Add fd (EPOLLONESHOT OR ?evs)]\<rparr>, w', oc)"
    using assms(3-5) l(1) x y(1) by (simp add: fiber_wait_for_event_def upd_Some Let_def)
  with y x show ?thesis by auto
qed

end

section \<open>Properties\<close>

lemma wsd_all_ok_mono: "wsd_all_ok al t k fibers s \<Longrightarrow> k' \<le> k \<Longrightarrow> wsd_all_ok al t k' fibers s"
  by (simp add: wsd_all_ok_def)

definition once :: "'a multiset \<Rightarrow> bool" where
  "once M \<longleftrightarrow> (\<forall>x. count M x \<le> 1)"

lemma distinct_once: "mset xs \<subseteq># M \<Longrightarrow> once M \<Longrightarrow> distinct xs"
proof -
  assume a: "mset xs \<subseteq># M" "once M"
  have "count (mset xs) x \<le> 1" for x
    using mset_subset_eq_count [OF a(1), of x] a(2) unfolding once_def by (meson order_trans)
  then show ?thesis
    unfolding distinct_count_atmost_1 by (metis One_nat_def count_eq_zero_iff le_SucE le_zero_eq set_mset_mset)
qed

text \<open>The fibers that sleep.\<close>

definition sleeping :: "event_state \<Rightarrow> (64 word \<times> addr) multiset" where
  "sleeping e = entries (timetable (ev_sleepers e))"

text \<open>C15. When the timer has expired \<open>n\<close> more times, exactly the sleepers whose wake time is below the new count of expirations
  are made ready and scheduled, each once; all others keep sleeping with their times, the search tree stays
  ordered, and the lock of the sleepers is free again.\<close>

theorem wake_sleepers_due:
  assumes "search_tree (ev_sleepers e)" "spin_free w sleep_spinlock"
    and "wsd_all_ok al t (size (sleeping e) + k) fibers (fw_scheduler w)" "once (image_mset snd (sleeping e))"
    and "\<forall>f \<in># image_mset snd (sleeping e). f \<noteq> NULL \<and> fw_fibers w f \<noteq> None \<and> f \<in> set fibers \<and> f \<notin># wsd_all (fw_scheduler w)"
    and "now = ev_trigger_count e + n" "woken_up = image_mset snd (filter_mset (\<lambda>x. fst x < now) (sleeping e))"
  shows "\<exists>e' w'. fiber_event_wake_sleepers (wsd_ops al sps sp) t n e w = Some (e', w') \<and> ev_trigger_count e' = now \<and>
     search_tree (ev_sleepers e') \<and> sleeping e' = filter_mset (\<lambda>x. \<not> fst x < now) (sleeping e) \<and>
     wsd_all (fw_scheduler w') = wsd_all (fw_scheduler w) + woken_up \<and> wsd_all_ok al t k fibers (fw_scheduler w') \<and>
     (\<forall>f. fw_fibers w' f = (if f \<in># woken_up then map_option (\<lambda>x. x\<lparr>fb_state := FIBER_STATE_READY\<rparr>) (fw_fibers w f) else fw_fibers w f)) \<and>
     spin_free w' sleep_spinlock"
proof -
  obtain tr fss where d: "due (ev_sleepers e) now = (tr, fss)" by (cases "due (ev_sleepers e) now")
  note df = due_filter [OF assms(1) d]
  let ?fs = "concat fss"
  have fs: "mset ?fs = woken_up" unfolding assms(7) sleeping_def using df by blast
  have sub: "woken_up \<subseteq># image_mset snd (sleeping e)" using assms(7) by (simp add: image_mset_subseteq_mono)
  have dist: "distinct ?fs" using distinct_once sub assms(4) fs by metis
  have "length ?fs \<le> size (sleeping e)" using size_mset_mono [OF sub] fs by (metis size_image_mset size_mset)
  then have ok: "wsd_all_ok al t (length ?fs + k) fibers (fw_scheduler w)" using wsd_all_ok_mono [OF assms(3)] by simp
  obtain l where l: "lock_at sleep_spinlock w = Some (w\<lparr>fw_spinlocks := (fw_spinlocks w)(sleep_spinlock \<mapsto> l)\<rparr>)"
      "sl_ticket l + 1 = sl_users l" "sleep_spinlock \<noteq> NULL"
    using lock_at_free [OF assms(2)] by blast
  let ?w1 = "w\<lparr>fw_spinlocks := (fw_spinlocks w)(sleep_spinlock \<mapsto> l)\<rparr>"
  have set_fs: "set ?fs = set_mset woken_up" using fs by (metis set_mset_mset)
  have all: "\<forall>f \<in> set ?fs. f \<noteq> NULL \<and> fw_fibers ?w1 f \<noteq> None \<and> f \<in> set fibers \<and> f \<notin># wsd_all (fw_scheduler ?w1)"
    using assms(5) set_mset_mono [OF sub] unfolding set_fs by auto
  obtain s where s: "wake_chain (wsd_ops al sps sp) t ?fs ?w1 =
        Some (?w1\<lparr>fw_fibers := map_fibers (set ?fs) (\<lambda>x. x\<lparr>fb_state := FIBER_STATE_READY\<rparr>) (fw_fibers w), fw_scheduler := s\<rparr>)" (is "_ = Some ?w2")
      "wsd_all_ok al t k fibers s" "wsd_all s = wsd_all (fw_scheduler w) + mset ?fs"
    using wsd_manager.wake_chain_ok [of al t ?fs k fibers ?w1 sps sp] ok dist all by auto
  obtain l' where l': "unlock_at sleep_spinlock ?w2 = Some (?w2\<lparr>fw_spinlocks := (fw_spinlocks ?w2)(sleep_spinlock \<mapsto> l')\<rparr>)" "sl_ticket l' = sl_users l'"
    using unlock_at_held [of ?w2 sleep_spinlock l] l(2,3) by auto
  have "fiber_event_wake_sleepers (wsd_ops al sps sp) t n e w =
      Some (e\<lparr>ev_trigger_count := now, ev_sleepers := tr\<rparr>, ?w2\<lparr>fw_spinlocks := (fw_spinlocks ?w2)(sleep_spinlock \<mapsto> l')\<rparr>)"
    using l(1) s(1) l'(1) d assms(6) by (simp add: fiber_event_wake_sleepers_def)
  with df s(2,3) l'(2) l(3) fs set_fs show ?thesis
    by (auto simp: sleeping_def spin_free_def map_fibers_def)
qed

theorem wake_sleepers_due_witness:
  "\<exists>s e' w'. fiber_event_wake_sleepers (wsd_ops first_free [] (\<lambda>_ _. False)) 0 3
      \<lparr>ev_event_fd = 4, ev_timer_fd = 5, ev_max_fd = 8, ev_wait_info = None, ev_trigger_count = 10,
       ev_sleepers = waiter_insert (waiter_insert No_Waiter 12 13) 13 11, ev_calls = []\<rparr>
      ((demo_world s (-1))\<lparr>fw_spinlocks := [sleep_spinlock \<mapsto> \<lparr>sl_ticket = 0, sl_users = 0\<rparr>]\<rparr>) = Some (e', w') \<and>
     sleeping e' = {#(13, 11)#} \<and> wsd_all (fw_scheduler w') = {#13, 12#}"
proof -
  obtain s where s0: "wsd_all_ok first_free 0 9 [11, 12] s" "wsd_all s = {#12#}"
    using demo_scheduler by blast
  then have ok: "wsd_all_ok first_free 0 9 [11, 12, 13] s" by (simp add: wsd_all_ok_def)
  let ?e = "\<lparr>ev_event_fd = 4, ev_timer_fd = 5, ev_max_fd = 8, ev_wait_info = None, ev_trigger_count = 10,
       ev_sleepers = waiter_insert (waiter_insert No_Waiter 12 13) 13 11, ev_calls = []\<rparr>"
  let ?w = "(demo_world s (-1))\<lparr>fw_spinlocks := [sleep_spinlock \<mapsto> \<lparr>sl_ticket = 0, sl_users = 0\<rparr>]\<rparr>"
  have sl: "sleeping ?e = {#(12, 13), (13, 11)#}" by (simp add: sleeping_def)
  have h: "search_tree (ev_sleepers ?e)" "spin_free ?w sleep_spinlock"
      "wsd_all_ok first_free 0 (size (sleeping ?e) + 7) [11, 12, 13] (fw_scheduler ?w)" "once (image_mset snd (sleeping ?e))"
      "\<forall>f \<in># image_mset snd (sleeping ?e). f \<noteq> NULL \<and> fw_fibers ?w f \<noteq> None \<and> f \<in> set [11, 12, 13] \<and> f \<notin># wsd_all (fw_scheduler ?w)"
    unfolding sl using s0 ok by (simp_all add: search_tree_def spin_free_def sleep_spinlock_def demo_world_def once_def)
  from wake_sleepers_due [OF h refl refl, of "[]" "\<lambda>_ _. False" 3]
  show ?thesis unfolding sl using s0(2) by (auto simp: demo_world_def)
qed

text \<open>A fiber that sleeps is entered into the search tree once, under the current count plus its number of ticks, and
  leaves the processor: it is waiting and in no scheduler, another fiber runs, and only then is the lock of
  the sleepers released.\<close>

theorem sleep_registers:
  assumes "may_block t o1 c mf (wsd_all (fw_scheduler w)) w" "wsd_all_ok al t (Suc k) fibers (fw_scheduler w)"
    and "spin_free w sleep_spinlock" "ev_event_fd e \<ge> 0" "search_tree (ev_sleepers e)"
  shows "\<exists>e' w' oc f. fiber_sleep (wsd_ops al sps sp) o1 t s us (e, w) = Some (e', w', [], oc) \<and>
     sleeping e' = add_mset (ev_trigger_count e + sleep_ms s us, c) (sleeping e) \<and> search_tree (ev_sleepers e') \<and>
     runs t f w' \<and> map_option fb_state (fw_fibers w' c) = Some FIBER_STATE_WAITING \<and> spin_free w' sleep_spinlock \<and>
     (oc = Switched f \<and> wsd_all (fw_scheduler w) = add_mset f (wsd_all (fw_scheduler w')) \<or>
      oc = Again f \<and> f = mf \<and> wsd_all (fw_scheduler w') = wsd_all (fw_scheduler w))"
proof -
  let ?tr = "waiter_insert (ev_sleepers e) (ev_trigger_count e + sleep_ms s us) c"
  have "search_tree ?tr" "entries (timetable ?tr) = add_mset (ev_trigger_count e + sleep_ms s us, c) (entries (timetable (ev_sleepers e)))"
    using assms(5) timetable_insert [OF assms(5)] by (simp_all add: ins_time_entries search_tree_def ins_time_in_order)
  with wsd_manager.sleep_ok [OF assms(1-4), of sps sp s us] show ?thesis by (fastforce simp: sleeping_def)
qed

lemma demo_block:
  assumes "wsd_all s = {#12#}"
  shows "may_block 0 demo_outside 11 13 (wsd_all (fw_scheduler ((demo_world s (-1))\<lparr>fw_spinlocks := h\<rparr>))) ((demo_world s (-1))\<lparr>fw_spinlocks := h\<rparr>)"
proof -
  let ?w = "(demo_world s (-1))\<lparr>fw_spinlocks := h\<rparr>"
  have "fw_fibers ?w = fw_fibers (demo_world s (-1))" "fw_stats ?w = fw_stats (demo_world s (-1))" by simp_all
  then have "ban_of ?w = ban_of (demo_world s (-1))" "saving ?w = saving (demo_world s (-1))" using ban_of_cong saving_cong by blast+
  moreover have "runs 0 11 ?w" using demo_runs(1) [of s "-1"] by (simp add: runs_def)
  moreover have "fm_maintenance_fiber (fw_managers ?w ! 0) = 13" "fw_fibers ?w 13 \<noteq> None" by (simp_all add: demo_world_def)
  ultimately show ?thesis
    using assms demo_runs [of s "-1"] demo_now by (simp add: may_block_def)
qed

theorem sleep_registers_witness:
  "\<exists>s e' w' oc. fiber_sleep (wsd_ops first_free [] (\<lambda>_ _. False)) demo_outside 0 1 0
      (\<lparr>ev_event_fd = 4, ev_timer_fd = 5, ev_max_fd = 8, ev_wait_info = None, ev_trigger_count = 10, ev_sleepers = No_Waiter, ev_calls = []\<rparr>,
       (demo_world s (-1))\<lparr>fw_spinlocks := [sleep_spinlock \<mapsto> \<lparr>sl_ticket = 0, sl_users = 0\<rparr>]\<rparr>) = Some (e', w', [], oc) \<and>
     sleeping e' = {#(1011, 11)#}"
proof -
  obtain s where s0: "wsd_all_ok first_free 0 9 [11, 12] s" "wsd_all s = {#12#}"
    using demo_scheduler by blast
  let ?w = "(demo_world s (-1))\<lparr>fw_spinlocks := [sleep_spinlock \<mapsto> \<lparr>sl_ticket = 0, sl_users = 0\<rparr>]\<rparr>"
  have h: "wsd_all_ok first_free 0 (Suc 8) [11, 12] (fw_scheduler ?w)" "spin_free ?w sleep_spinlock"
    using s0 by (simp_all add: demo_world_def spin_free_def sleep_spinlock_def)
  from sleep_registers [OF demo_block [OF s0(2)] h, of "\<lparr>ev_event_fd = 4, ev_timer_fd = 5, ev_max_fd = 8, ev_wait_info = None,
      ev_trigger_count = 10, ev_sleepers = No_Waiter, ev_calls = []\<rparr>" "[]" "\<lambda>_ _. False" 1 0]
  show ?thesis by (fastforce simp: search_tree_def sleeping_def sleep_ms_def)
qed


definition demo_events :: event_state where
  "demo_events = \<lparr>ev_event_fd = 4, ev_timer_fd = 5, ev_max_fd = 1, ev_wait_info = Some [\<lparr>wi_events = 0, wi_added = False, wi_waiters = NULL\<rparr>],
     ev_trigger_count = 0, ev_sleepers = No_Waiter, ev_calls = []\<rparr>"


text \<open>C17. Every fiber that waits for a descriptor is woken, newest first, when the kernel reports the descriptor and when it is
  closed: it is ready and scheduled once, the list of waiters is empty, and when it runs again its wait returns
  success in the first case and an error in the second.\<close>

theorem descriptor_wakes_waiters:
  assumes "ev_wait_info e = Some infos" "fd < ev_max_fd e" "fd < length infos" "spin_free w (fd_spinlock fd)" "int fd \<noteq> ev_timer_fd e" "ev_event_fd e \<ge> 0"
    and "scratch_list (fw_fibers w) (wi_waiters (infos ! fd)) fs" "distinct fs"
    and "wsd_all_ok al t (length fs + k) fibers (fw_scheduler w)" "\<forall>f \<in> set fs. f \<in> set fibers \<and> f \<notin># wsd_all (fw_scheduler w)"
  shows "\<forall>closed. \<exists>e' w' infos'.
     (if closed then fiber_fd_closed (wsd_ops al sps sp) t (int fd) (e, w) else poll_event (wsd_ops al sps sp) t (int fd, revents, None) (e, w))
       = Some (e', w') \<and>
     ev_wait_info e' = Some infos' \<and> wi_waiters (infos' ! fd) = NULL \<and> spin_free w' (fd_spinlock fd) \<and>
     wsd_all (fw_scheduler w') = wsd_all (fw_scheduler w) + mset fs \<and>
     (\<forall>f \<in> set fs. map_option fb_state (fw_fibers w' f) = Some FIBER_STATE_READY \<and>
        fiber_wait_for_event_result f w' = Some (if closed then FIBER_ERROR else FIBER_SUCCESS))"
proof (intro allI)
  fix closed
  let ?a = "fd_spinlock fd" and ?r = "if closed then CLOSED else NULL"
  let ?g = "\<lambda>x. x\<lparr>fb_state := FIBER_STATE_READY, fb_scratch := ?r\<rparr>"
  obtain l where l: "lock_at ?a w = Some (w\<lparr>fw_spinlocks := (fw_spinlocks w)(?a \<mapsto> l)\<rparr>)" "sl_ticket l + 1 = sl_users l" "?a \<noteq> NULL"
    using lock_at_free [OF assms(4)] by blast
  let ?w1 = "w\<lparr>fw_spinlocks := (fw_spinlocks w)(?a \<mapsto> l)\<rparr>"
  obtain s where s: "fiber_event_wake_waiters (wsd_ops al sps sp) t (wi_waiters (infos ! fd)) ?r ?w1 =
        Some (?w1\<lparr>fw_fibers := map_fibers (set fs) ?g (fw_fibers w), fw_scheduler := s\<rparr>)" (is "_ = Some ?w2")
      "wsd_all s = wsd_all (fw_scheduler w) + mset fs"
    using wsd_manager.wake_waiters_ok [of al t fs k fibers ?w1 "wi_waiters (infos ! fd)" sps sp ?r] assms(7-10) by auto
  obtain l' where l': "unlock_at ?a ?w2 = Some (?w2\<lparr>fw_spinlocks := (fw_spinlocks ?w2)(?a \<mapsto> l')\<rparr>)" (is "_ = Some ?w3") "sl_ticket l' = sl_users l'"
    using unlock_at_held [of ?w2 ?a l] l(2,3) by auto
  have fib: "\<forall>f \<in> set fs. map_option fb_state (fw_fibers ?w3 f) = Some FIBER_STATE_READY \<and>
      fiber_wait_for_event_result f ?w3 = Some (if closed then FIBER_ERROR else FIBER_SUCCESS)"
  proof
    fix f assume f: "f \<in> set fs"
    obtain y where "fw_fibers w f = Some y" "f \<noteq> NULL" using scratch_list_members [OF assms(7) f] by auto
    with f show "map_option fb_state (fw_fibers ?w3 f) = Some FIBER_STATE_READY \<and>
        fiber_wait_for_event_result f ?w3 = Some (if closed then FIBER_ERROR else FIBER_SUCCESS)"
      by (simp add: map_fibers_def fiber_wait_for_event_result_def CLOSED_def)
  qed
  have "\<exists>e' infos'. (if closed then fiber_fd_closed (wsd_ops al sps sp) t (int fd) (e, w)
        else poll_event (wsd_ops al sps sp) t (int fd, revents, None) (e, w)) = Some (e', ?w3) \<and>
      ev_wait_info e' = Some infos' \<and> wi_waiters (infos' ! fd) = NULL"
    using assms(1-3,5,6) l(1) s(1) l'(1) by (cases closed) (simp_all add: fiber_fd_closed_def poll_event_def Let_def)
  moreover have "spin_free ?w3 ?a" using l(3) l'(2) by (simp add: spin_free_def)
  moreover have sch: "wsd_all (fw_scheduler ?w3) = wsd_all (fw_scheduler w) + mset fs" using s(2) by simp
  ultimately show "\<exists>e' w' infos'.
     (if closed then fiber_fd_closed (wsd_ops al sps sp) t (int fd) (e, w) else poll_event (wsd_ops al sps sp) t (int fd, revents, None) (e, w))
       = Some (e', w') \<and>
     ev_wait_info e' = Some infos' \<and> wi_waiters (infos' ! fd) = NULL \<and> spin_free w' (fd_spinlock fd) \<and>
     wsd_all (fw_scheduler w') = wsd_all (fw_scheduler w) + mset fs \<and>
     (\<forall>f \<in> set fs. map_option fb_state (fw_fibers w' f) = Some FIBER_STATE_READY \<and>
        fiber_wait_for_event_result f w' = Some (if closed then FIBER_ERROR else FIBER_SUCCESS))"
    using fib sch by blast
qed

theorem descriptor_wakes_waiters_witness:
  "\<exists>s e' w'. fiber_fd_closed (wsd_ops first_free [] (\<lambda>_ _. False)) 0 (int 0)
      (demo_events\<lparr>ev_wait_info := Some [\<lparr>wi_events = 1, wi_added = True, wi_waiters = 13\<rparr>]\<rparr>,
       (demo_world s (-1))\<lparr>fw_spinlocks := [fd_spinlock 0 \<mapsto> \<lparr>sl_ticket = 0, sl_users = 0\<rparr>]\<rparr>) = Some (e', w') \<and>
     wsd_all (fw_scheduler w') = {#13, 12#} \<and> fiber_wait_for_event_result 13 w' = Some FIBER_ERROR"
proof -
  obtain s where s0: "wsd_all_ok first_free 0 9 [11, 12] s" "wsd_all s = {#12#}"
    using demo_scheduler by blast
  then have ok: "wsd_all_ok first_free 0 9 [11, 12, 13] s" by (simp add: wsd_all_ok_def)
  let ?w = "(demo_world s (-1))\<lparr>fw_spinlocks := [fd_spinlock 0 \<mapsto> \<lparr>sl_ticket = 0, sl_users = 0\<rparr>]\<rparr>"
  let ?i = "\<lparr>wi_events = 1, wi_added = True, wi_waiters = 13\<rparr>"
  let ?e = "demo_events\<lparr>ev_wait_info := Some [?i]\<rparr>"
  have h: "ev_wait_info ?e = Some [?i]" "0 < ev_max_fd ?e" "0 < length [?i]" "spin_free ?w (fd_spinlock 0)" "int 0 \<noteq> ev_timer_fd ?e" "ev_event_fd ?e \<ge> 0"
      "scratch_list (fw_fibers ?w) (wi_waiters ([?i] ! 0)) [13]" "distinct [13::nat]"
      "wsd_all_ok first_free 0 (length [13::nat] + 8) [11, 12, 13] (fw_scheduler ?w)"
      "\<forall>f \<in> set [13]. f \<in> set [11, 12, 13] \<and> f \<notin># wsd_all (fw_scheduler ?w)"
    using s0 ok by (simp_all add: demo_world_def spin_free_def fd_spinlock_def demo_events_def zero_fiber_def)
  from descriptor_wakes_waiters [OF h, of "[]" "\<lambda>_ _. False" 0, THEN spec, of True]
  obtain e' w' where w': "fiber_fd_closed (wsd_ops first_free [] (\<lambda>_ _. False)) 0 (int 0) (?e, ?w) = Some (e', w')"
      "wsd_all (fw_scheduler w') = wsd_all (fw_scheduler ?w) + mset [13]" "fiber_wait_for_event_result 13 w' = Some FIBER_ERROR"
    by auto
  moreover have "fw_scheduler ?w = s" by (simp add: demo_world_def)
  ultimately show ?thesis using s0(2) by (intro exI [of _ s]) simp
qed

text \<open>The number of ticks of a sleep is the number of milliseconds plus one as long as that fits into 32 bits; a sleep of
  4294968 seconds (49.7 days) wraps around and lasts 705 ticks.\<close>

theorem sleep_ms_exact_and_wraps:
  "(unat s * 1000 + unat us div 1000 + 1 < 2 ^ 32 \<longrightarrow> unat (sleep_ms s us) = unat s * 1000 + unat us div 1000 + 1) \<and>
   sleep_ms 4294968 0 = 705"
proof
  have "unat (s * 1000 + us div 1000 + 1) = unat s * 1000 + unat us div 1000 + 1" if "unat s * 1000 + unat us div 1000 + 1 < 2 ^ 32"
    using that by (simp add: unat_word_ariths unat_div)
  moreover have "unat (ucast v :: 64 word) = unat v" for v :: "32 word"
    by (simp add: unsigned_ucast_eq)
  ultimately show "unat s * 1000 + unat us div 1000 + 1 < 2 ^ 32 \<longrightarrow> unat (sleep_ms s us) = unat s * 1000 + unat us div 1000 + 1"
    by (simp add: sleep_ms_def)
  show "sleep_ms 4294968 0 = 705" by (simp add: sleep_ms_def)
qed

theorem sleep_ms_exact_and_wraps_witness: "unat (sleep_ms 2 500000) = 2501"
  using sleep_ms_exact_and_wraps [of 2 500000] by simp

end
