(* ===== verification/Fiber_IO.thy ===== *)
theory Fiber_IO
  imports Event
begin

text \<open>
  \<open>src/fiber_io.c\<close> on Linux: the system calls that block a fiber instead of its kernel thread.  The kernel is outside: what a
  system call returns, and its error number, are arguments.  A wrapper that may make several calls takes
  one \<open>io_turn\<close> per call: what the call returned, whether the wait for the descriptor succeeded, and the
  flags as they were before and after the call, because other fibers run while this one waits.
\<close>

section \<open>State\<close>

definition IO_FLAG_BLOCKING :: "8 word" where "IO_FLAG_BLOCKING = 1"
definition IO_FLAG_WAITABLE :: "8 word" where "IO_FLAG_WAITABLE = 2"

record io_state =
  io_fd_info :: "8 word list option"
  io_max_fd :: nat
  io_thread_locked :: bool

datatype errno = EWOULDBLOCK | EAGAIN | EINPROGRESS | EINVAL | OTHER int

definition would_block :: "errno \<Rightarrow> bool" where
  "would_block e \<longleftrightarrow> e = EWOULDBLOCK \<or> e = EAGAIN"

definition fiber_io_init :: "nat option \<Rightarrow> bool \<Rightarrow> io_state \<Rightarrow> io_state \<times> int" where
  "fiber_io_init limit calloc_ok st =
     (if io_fd_info st \<noteq> None then (st, FIBER_ERROR)
      else case limit of
        None \<Rightarrow> (st, FIBER_ERROR)
      | Some mx \<Rightarrow> if calloc_ok then (st\<lparr>io_max_fd := mx, io_fd_info := Some (replicate mx 0)\<rparr>, FIBER_SUCCESS)
                   else (st\<lparr>io_max_fd := mx\<rparr>, FIBER_ERROR))"

definition fiber_io_shutdown :: "io_state \<Rightarrow> io_state" where
  "fiber_io_shutdown st = st\<lparr>io_fd_info := None\<rparr>"

definition fiber_io_lock_thread :: "io_state \<Rightarrow> io_state \<times> int" where
  "fiber_io_lock_thread st = (st\<lparr>io_thread_locked := True\<rparr>, FIBER_SUCCESS)"

definition fiber_io_unlock_thread :: "io_state \<Rightarrow> io_state \<times> int" where
  "fiber_io_unlock_thread st = (st\<lparr>io_thread_locked := False\<rparr>, FIBER_SUCCESS)"

text \<open>One set flag of the two is enough for \<open>should_block\<close>.\<close>

definition should_block :: "io_state \<Rightarrow> int \<Rightarrow> bool option" where
  "should_block st fd = do {
     c_assert (fd \<ge> 0);
     case io_fd_info st of
       None \<Rightarrow> Some False
     | Some flags \<Rightarrow>
         if \<not> io_thread_locked st \<and> nat fd < io_max_fd st
         then do { f \<leftarrow> nth_opt flags (nat fd); Some (f AND (IO_FLAG_BLOCKING OR IO_FLAG_WAITABLE) \<noteq> 0) }
         else Some False
   }"

definition upd_flags :: "int \<Rightarrow> (8 word \<Rightarrow> 8 word) \<Rightarrow> io_state \<Rightarrow> io_state option" where
  "upd_flags fd g st = do {
     c_assert (fd \<ge> 0);
     flags \<leftarrow> io_fd_info st;
     f \<leftarrow> nth_opt flags (nat fd);
     Some (st\<lparr>io_fd_info := Some (flags[nat fd := g f])\<rparr>)
   }"

section \<open>Opening and closing\<close>

text \<open>\<open>setup_socket\<close> with what \<open>fcntl\<close> and \<open>setsockopt\<close> of the kernel return.\<close>

definition setup_socket :: "int \<Rightarrow> int \<Rightarrow> int \<Rightarrow> io_state \<Rightarrow> (io_state \<times> int) option" where
  "setup_socket sock fcntl_ret setsockopt_ret st =
     (if io_thread_locked st then Some (st, 0)
      else do {
        c_assert (nat sock < io_max_fd st);
        st1 \<leftarrow> upd_flags sock (\<lambda>f. f OR (IO_FLAG_BLOCKING OR IO_FLAG_WAITABLE)) st;
        Some (st1, if fcntl_ret < 0 then fcntl_ret else setsockopt_ret)
      })"

text \<open>The last argument but two of \<open>close\<close> is what the kernel's \<open>close\<close> returns.\<close>

definition close ::
  "'s scheduler_ops \<Rightarrow> nat \<Rightarrow> int \<Rightarrow> int \<Rightarrow> io_state \<Rightarrow> event_state \<times> 's fiber_world \<Rightarrow>
   (io_state \<times> (event_state \<times> 's fiber_world) \<times> int) option" where
  "close ops t fd close_ret st ew = do {
     ew1 \<leftarrow> fiber_fd_closed ops t fd ew;
     st1 \<leftarrow> (if io_fd_info st \<noteq> None \<and> 0 \<le> fd \<and> nat fd < io_max_fd st then upd_flags fd (\<lambda>_. 0) st else Some st);
     Some (st1, ew1, close_ret)
   }"

text \<open>The library's own calls of \<open>close\<close>, when setting a descriptor up fails, ignore its result.\<close>

definition close_failed ::
  "'s scheduler_ops \<Rightarrow> nat \<Rightarrow> int \<Rightarrow> io_state \<Rightarrow> event_state \<times> 's fiber_world \<Rightarrow>
   (io_state \<times> event_state \<times> 's fiber_world) option" where
  "close_failed ops t fd st ew = do { (st1, ew1, _) \<leftarrow> close ops t fd 0 st ew; Some (st1, ew1) }"

definition socket ::
  "'s scheduler_ops \<Rightarrow> nat \<Rightarrow> int \<Rightarrow> int \<Rightarrow> int \<Rightarrow> io_state \<Rightarrow> event_state \<times> 's fiber_world \<Rightarrow>
   (io_state \<times> (event_state \<times> 's fiber_world) \<times> int) option" where
  "socket ops t sock fcntl_ret setsockopt_ret st ew =
     (if sock < 0 then Some (st, ew, sock)
      else do {
        (st1, r) \<leftarrow> setup_socket sock fcntl_ret setsockopt_ret st;
        if r < 0 then do { (st2, ew2) \<leftarrow> close_failed ops t sock st1 ew; Some (st2, ew2, -1) }
        else Some (st1, ew, sock)
      })"

text \<open>
  \<open>socketpair\<close> sets up the second descriptor only when the first succeeds, and takes any non-zero result for a failure.
\<close>

definition socketpair ::
  "'s scheduler_ops \<Rightarrow> nat \<Rightarrow> int \<Rightarrow> int \<Rightarrow> int \<Rightarrow> (int \<times> int) \<times> (int \<times> int) \<Rightarrow> io_state \<Rightarrow> event_state \<times> 's fiber_world \<Rightarrow>
   (io_state \<times> (event_state \<times> 's fiber_world) \<times> int) option" where
  "socketpair ops t ret sv0 sv1 rets st ew =
     (if ret \<noteq> 0 then Some (st, ew, ret)
      else do {
        (st1, r1) \<leftarrow> setup_socket sv0 (fst (fst rets)) (snd (fst rets)) st;
        (st2, r2) \<leftarrow> (if r1 \<noteq> 0 then Some (st1, r1) else setup_socket sv1 (fst (snd rets)) (snd (snd rets)) st1);
        if r2 \<noteq> 0
        then do {
          (st3, ew3) \<leftarrow> close_failed ops t sv0 st2 ew;
          (st4, ew4) \<leftarrow> close_failed ops t sv1 st3 ew3;
          Some (st4, ew4, -1)
        }
        else Some (st2, ew, 0)
      })"

definition pipe ::
  "'s scheduler_ops \<Rightarrow> nat \<Rightarrow> int \<Rightarrow> int \<Rightarrow> int \<Rightarrow> int \<Rightarrow> int \<Rightarrow> io_state \<Rightarrow> event_state \<times> 's fiber_world \<Rightarrow>
   (io_state \<times> (event_state \<times> 's fiber_world) \<times> int) option" where
  "pipe ops t ret fd0 fd1 fcntl0 fcntl1 st ew =
     (if ret = 0 \<and> io_fd_info st \<noteq> None \<and> \<not> io_thread_locked st
      then if fcntl0 < 0 \<or> fcntl1 < 0
           then do {
             (st1, ew1) \<leftarrow> close_failed ops t fd0 st ew;
             (st2, ew2) \<leftarrow> close_failed ops t fd1 st1 ew1;
             Some (st2, ew2, if fcntl0 < 0 then fcntl0 else fcntl1)
           }
           else do {
             c_assert (nat fd0 < io_max_fd st);
             st1 \<leftarrow> upd_flags fd0 (\<lambda>f. f OR (IO_FLAG_BLOCKING OR IO_FLAG_WAITABLE)) st;
             c_assert (nat fd1 < io_max_fd st);
             st2 \<leftarrow> upd_flags fd1 (\<lambda>f. f OR (IO_FLAG_BLOCKING OR IO_FLAG_WAITABLE)) st1;
             Some (st2, ew, fcntl1)
           }
      else Some (st, ew, ret))"

section \<open>Reading and writing\<close>

record io_turn =
  it_before :: io_state
  it_wait_ok :: bool
  it_ret :: int
  it_errno :: errno
  it_after :: io_state

datatype io_result = Io_Return int | Io_Pending

text \<open>The result of the system call in a variable of type \<open>int\<close>.\<close>

definition int32 :: "int \<Rightarrow> int" where
  "int32 r = sint (word_of_int r :: 32 word)"

text \<open>
  The loop that waits before it calls: \<open>read\<close>, \<open>readv\<close>, \<open>recv\<close>, \<open>recvfrom\<close> and \<open>recvmsg\<close>.  \<open>Io_Pending\<close> is a call that has not returned
  after the given turns.
\<close>

fun input_loop :: "bool \<Rightarrow> int \<Rightarrow> io_turn list \<Rightarrow> io_result option" where
  "input_loop dontwait fd [] = Some Io_Pending"
| "input_loop dontwait fd (k # ks) = do {
     block \<leftarrow> (if dontwait then Some False else should_block (it_before k) fd);
     if block \<and> \<not> it_wait_ok k then Some (Io_Return (-1))
     else do {
       let ret = int32 (it_ret k);
       again \<leftarrow> (if ret < 0 \<and> would_block (it_errno k) \<and> \<not> dontwait then should_block (it_after k) fd else Some False);
       if again then input_loop dontwait fd ks else Some (Io_Return ret)
     }
   }"

definition MSG_DONTWAIT :: "32 word" where "MSG_DONTWAIT = 64"

definition read :: "int \<Rightarrow> io_turn list \<Rightarrow> io_result option" where
  "read fd ks = input_loop False fd ks"

definition readv :: "int \<Rightarrow> io_turn list \<Rightarrow> io_result option" where
  "readv fd ks = input_loop False fd ks"

definition recv :: "int \<Rightarrow> 32 word \<Rightarrow> io_turn list \<Rightarrow> io_result option" where
  "recv fd flags ks = input_loop (flags AND MSG_DONTWAIT \<noteq> 0) fd ks"

definition recvfrom :: "int \<Rightarrow> 32 word \<Rightarrow> io_turn list \<Rightarrow> io_result option" where
  "recvfrom sockfd flags ks = input_loop (flags AND MSG_DONTWAIT \<noteq> 0) sockfd ks"

definition recvmsg :: "int \<Rightarrow> 32 word \<Rightarrow> io_turn list \<Rightarrow> io_result option" where
  "recvmsg sockfd flags ks = input_loop (flags AND MSG_DONTWAIT \<noteq> 0) sockfd ks"

text \<open>
  The loop that calls first, with the conversion of the result: \<open>write\<close> and \<open>writev\<close> keep an \<open>int\<close>, \<open>send\<close>, \<open>sendto\<close> and \<open>sendmsg\<close> the
  full result.  The wait of a turn is the one after its call.
\<close>

fun output_loop :: "(int \<Rightarrow> int) \<Rightarrow> bool \<Rightarrow> int \<Rightarrow> io_turn list \<Rightarrow> io_result option" where
  "output_loop conv dontwait fd [] = Some Io_Pending"
| "output_loop conv dontwait fd (k # ks) = do {
     let ret = conv (it_ret k);
     again \<leftarrow> (if ret < 0 \<and> would_block (it_errno k) \<and> \<not> dontwait then should_block (it_after k) fd else Some False);
     if again then (if it_wait_ok k then output_loop conv dontwait fd ks else Some (Io_Return (-1)))
     else Some (Io_Return ret)
   }"

definition write_call :: "int \<Rightarrow> io_turn list \<Rightarrow> io_result option" where
  "write_call fd ks = output_loop int32 False fd ks"

definition writev :: "int \<Rightarrow> io_turn list \<Rightarrow> io_result option" where
  "writev fd ks = output_loop int32 False fd ks"

definition send :: "int \<Rightarrow> 32 word \<Rightarrow> io_turn list \<Rightarrow> io_result option" where
  "send sockfd flags ks = output_loop (\<lambda>r. r) (flags AND MSG_DONTWAIT \<noteq> 0) sockfd ks"

definition sendto :: "int \<Rightarrow> 32 word \<Rightarrow> io_turn list \<Rightarrow> io_result option" where
  "sendto sockfd flags ks = output_loop (\<lambda>r. r) (flags AND MSG_DONTWAIT \<noteq> 0) sockfd ks"

definition sendmsg :: "int \<Rightarrow> 32 word \<Rightarrow> io_turn list \<Rightarrow> io_result option" where
  "sendmsg sockfd flags ks = output_loop (\<lambda>r. r) (flags AND MSG_DONTWAIT \<noteq> 0) sockfd ks"

text \<open>
  \<open>accept\<close> waits at most once: the first turn, and the result of the second call.  A descriptor of 0 is not set up.
\<close>

definition accept ::
  "'s scheduler_ops \<Rightarrow> nat \<Rightarrow> int \<Rightarrow> io_turn \<Rightarrow> int \<Rightarrow> int \<Rightarrow> int \<Rightarrow> io_state \<Rightarrow> event_state \<times> 's fiber_world \<Rightarrow>
   (io_state \<times> (event_state \<times> 's fiber_world) \<times> int) option" where
  "accept ops t sockfd k second fcntl_ret setsockopt_ret st ew = do {
     wait \<leftarrow> (if it_ret k < 0 \<and> would_block (it_errno k) then should_block (it_after k) sockfd else Some False);
     if wait \<and> \<not> it_wait_ok k then Some (st, ew, -1)
     else do {
       let sock = (if wait then second else it_ret k);
       if sock > 0
       then do {
         (st1, r) \<leftarrow> setup_socket sock fcntl_ret setsockopt_ret st;
         if r < 0 then do { (st2, ew2) \<leftarrow> close_failed ops t sock st1 ew; Some (st2, ew2, -1) } else Some (st1, ew, sock)
       }
       else Some (st, ew, sock)
     }
   }"

text \<open>\<open>connect\<close>, with the results of \<open>getsockopt\<close> and its \<open>so_error\<close>; the second component is the error number it sets.\<close>

definition connect :: "int \<Rightarrow> io_turn \<Rightarrow> int \<Rightarrow> int \<Rightarrow> (int \<times> int option) option" where
  "connect sockfd k getsockopt_ret so_error = do {
     wait \<leftarrow> (if it_ret k < 0 \<and> it_errno k = EINPROGRESS then should_block (it_after k) sockfd else Some False);
     Some (if wait
           then if \<not> it_wait_ok k then (-1, None)
                else if getsockopt_ret \<noteq> 0 then (-1, None)
                else if so_error \<noteq> 0 then (-1, Some so_error)
                else (0, None)
           else (it_ret k, None))
   }"

section \<open>Control\<close>

text \<open>A call that is answered by the library, or that is passed to the kernel with these arguments.\<close>

datatype control = Answer int "errno option" | Kernel int "64 word"

definition F_SETFL :: int where "F_SETFL = 4"
definition O_NONBLOCK :: "64 word" where "O_NONBLOCK = 2048"
definition FIONBIO :: int where "FIONBIO = 21537"

definition fcntl :: "int \<Rightarrow> int \<Rightarrow> 64 word \<Rightarrow> io_state \<Rightarrow> (io_state \<times> control) option" where
  "fcntl fd cmd val st =
     (if \<not> io_thread_locked st \<and> cmd = F_SETFL \<and> val = O_NONBLOCK
      then do {
        c_assert (nat fd < io_max_fd st);
        st1 \<leftarrow> upd_flags fd (\<lambda>f. f AND NOT IO_FLAG_BLOCKING) st;
        Some (st1, Answer 0 None)
      }
      else Some (st, Kernel cmd (if \<not> io_thread_locked st \<and> cmd = F_SETFL then val OR O_NONBLOCK else val)))"

definition ioctl :: "int \<Rightarrow> int \<Rightarrow> int option \<Rightarrow> 64 word \<Rightarrow> io_state \<Rightarrow> (io_state \<times> control) option" where
  "ioctl d request target val st =
     (if \<not> io_thread_locked st \<and> request = FIONBIO
      then case target of
        None \<Rightarrow> Some (st, Answer (-1) (Some EINVAL))
      | Some v \<Rightarrow> do {
          c_assert (nat d < io_max_fd st);
          st1 \<leftarrow> upd_flags d (\<lambda>f. if v \<noteq> 0 then f AND NOT IO_FLAG_BLOCKING else f OR IO_FLAG_BLOCKING) st;
          Some (st1, Answer 0 None)
        }
      else Some (st, Kernel request val))"

section \<open>Sleeping\<close>

text \<open>Either the fiber sleeps, for so many seconds and microseconds, or the kernel thread does.\<close>

datatype sleep_call = Fiber_Sleeps "32 word" "32 word" | Thread_Sleeps

definition sleep :: "bool \<Rightarrow> bool \<Rightarrow> 32 word \<Rightarrow> sleep_call" where
  "sleep locked manager seconds = (if \<not> locked \<and> manager then Fiber_Sleeps seconds 0 else Thread_Sleeps)"

definition usleep :: "bool \<Rightarrow> bool \<Rightarrow> 32 word \<Rightarrow> sleep_call" where
  "usleep locked manager useconds =
     (if \<not> locked \<and> manager then Fiber_Sleeps (useconds div 1000000) (useconds mod 1000000) else Thread_Sleeps)"

text \<open>
  \<open>nanosleep\<close> with the time that remains, where the caller asks for it: none when the fiber slept, and as the
  kernel left it otherwise.  The division is that of C.
\<close>

definition nanosleep :: "bool \<Rightarrow> bool \<Rightarrow> int \<Rightarrow> int \<Rightarrow> (int \<times> int) option \<Rightarrow> sleep_call \<times> (int \<times> int) option" where
  "nanosleep locked manager tv_sec tv_nsec rmtp =
     (if \<not> locked \<and> manager
      then (Fiber_Sleeps (word_of_int tv_sec) (word_of_int (sgn tv_nsec * (\<bar>tv_nsec\<bar> div 1000) + 1)), map_option (\<lambda>_. (0, 0)) rmtp)
      else (Thread_Sleeps, rmtp))"

section \<open>What the loops compute\<close>

text \<open>A call that would have blocked, and a descriptor that makes fibers wait before and after a turn.\<close>

definition refused :: "(int \<Rightarrow> int) \<Rightarrow> io_turn \<Rightarrow> bool" where
  "refused conv k \<longleftrightarrow> conv (it_ret k) < 0 \<and> would_block (it_errno k)"

definition blocking :: "int \<Rightarrow> io_turn \<Rightarrow> bool" where
  "blocking fd k \<longleftrightarrow> should_block (it_before k) fd = Some True \<and> should_block (it_after k) fd = Some True"

text \<open>The reference: skip the turns that were refused and waited for, and let the next one decide.\<close>

definition first_turn :: "(int \<Rightarrow> int) \<Rightarrow> (io_turn \<Rightarrow> int) \<Rightarrow> io_turn list \<Rightarrow> io_result" where
  "first_turn conv result ks =
     (case dropWhile (\<lambda>k. it_wait_ok k \<and> refused conv k) ks of [] \<Rightarrow> Io_Pending | k # _ \<Rightarrow> Io_Return (result k))"

definition input_result :: "io_turn \<Rightarrow> int" where
  "input_result k = (if it_wait_ok k then int32 (it_ret k) else -1)"

definition output_result :: "(int \<Rightarrow> int) \<Rightarrow> io_turn \<Rightarrow> int" where
  "output_result conv k = (if refused conv k then -1 else conv (it_ret k))"

lemma input_loop_first:
  "\<forall>k \<in> set ks. blocking fd k \<Longrightarrow> input_loop False fd ks = Some (first_turn int32 input_result ks)"
  by (induction ks) (auto simp: first_turn_def input_result_def blocking_def refused_def)

lemma output_loop_first:
  "\<forall>k \<in> set ks. blocking fd k \<Longrightarrow> output_loop conv False fd ks = Some (first_turn conv (output_result conv) ks)"
  by (induction ks) (auto simp: first_turn_def output_result_def blocking_def refused_def)

lemma input_loop_once: "input_loop True fd (k # ks) = Some (Io_Return (int32 (it_ret k)))"
  by simp

lemma output_loop_once: "output_loop conv True fd (k # ks) = Some (Io_Return (conv (it_ret k)))"
  by simp

lemma int32_id: "- (2 ^ 31) \<le> r \<Longrightarrow> r < 2 ^ 31 \<Longrightarrow> int32 r = r"
  by (simp add: int32_def sint_sbintrunc' signed_take_bit_int_eq_self)

section \<open>The flags\<close>

text \<open>The flags are there, one for each descriptor.\<close>

definition io_ok :: "io_state \<Rightarrow> bool" where
  "io_ok st \<longleftrightarrow> (case io_fd_info st of None \<Rightarrow> False | Some flags \<Rightarrow> length flags = io_max_fd st)"

definition flags_of :: "io_state \<Rightarrow> int \<Rightarrow> 8 word" where
  "flags_of st fd = (case io_fd_info st of None \<Rightarrow> 0 | Some flags \<Rightarrow> if nat fd < length flags then flags ! nat fd else 0)"

definition valid_fd :: "io_state \<Rightarrow> int \<Rightarrow> bool" where
  "valid_fd st fd \<longleftrightarrow> 0 \<le> fd \<and> nat fd < io_max_fd st"

lemma upd_flags_ok:
  assumes "io_ok st" "valid_fd st fd"
  obtains st' where "upd_flags fd g st = Some st'" "io_ok st'" "io_max_fd st' = io_max_fd st" "io_thread_locked st' = io_thread_locked st"
    "\<And>d. 0 \<le> d \<Longrightarrow> flags_of st' d = (if d = fd then g (flags_of st fd) else flags_of st d)"
proof -
  obtain flags where flags: "io_fd_info st = Some flags" "length flags = io_max_fd st"
    using assms(1) by (auto simp: io_ok_def split: option.splits)
  show thesis
    by (rule that [of "st\<lparr>io_fd_info := Some (flags[nat fd := g (flags ! nat fd)])\<rparr>"])
      (use assms(2) flags in \<open>auto simp: upd_flags_def io_ok_def valid_fd_def flags_of_def nth_list_update\<close>)
qed

lemma should_block_flags:
  "io_ok st \<Longrightarrow> valid_fd st fd \<Longrightarrow>
   should_block st fd = Some (\<not> io_thread_locked st \<and> flags_of st fd AND (IO_FLAG_BLOCKING OR IO_FLAG_WAITABLE) \<noteq> 0)"
  by (auto simp: should_block_def io_ok_def valid_fd_def flags_of_def nth_opt_def split: option.splits)

lemma nonblocking_bits:
  "(f AND NOT IO_FLAG_BLOCKING) AND IO_FLAG_BLOCKING = 0"
  "(f OR (IO_FLAG_BLOCKING OR IO_FLAG_WAITABLE)) AND (IO_FLAG_BLOCKING OR IO_FLAG_WAITABLE) = IO_FLAG_BLOCKING OR IO_FLAG_WAITABLE"
  "IO_FLAG_BLOCKING OR IO_FLAG_WAITABLE \<noteq> 0"
  subgoal by (simp add: and.assoc)
  subgoal by (auto simp: bit_eq_iff bit_simps)
  subgoal by (simp add: IO_FLAG_BLOCKING_def IO_FLAG_WAITABLE_def)
  done

lemma waitable_remains:
  assumes "f AND IO_FLAG_WAITABLE \<noteq> 0"
  shows "(f AND NOT IO_FLAG_BLOCKING) AND (IO_FLAG_BLOCKING OR IO_FLAG_WAITABLE) \<noteq> 0"
proof -
  have "(f AND NOT IO_FLAG_BLOCKING) AND (IO_FLAG_BLOCKING OR IO_FLAG_WAITABLE) = f AND (NOT IO_FLAG_BLOCKING AND (IO_FLAG_BLOCKING OR IO_FLAG_WAITABLE))"
    by (simp add: and.assoc)
  also have "NOT IO_FLAG_BLOCKING AND (IO_FLAG_BLOCKING OR IO_FLAG_WAITABLE) = IO_FLAG_WAITABLE"
    by (simp add: IO_FLAG_BLOCKING_def IO_FLAG_WAITABLE_def)
  finally show ?thesis
    using assms by simp
qed

lemma usleep_split: "unat (useconds div 1000000 :: 32 word) * 1000000 + unat (useconds mod 1000000) = unat useconds"
  by (simp add: unat_div unat_mod)

section \<open>Properties\<close>

text \<open>C24. A fiber that reads a blocking descriptor never sees that the kernel would have blocked.  The call waits and tries again until the first turn whose wait fails, and
  then it returns -1, or whose system call has another result, and then it returns that result.  This holds for \<open>read\<close>, \<open>readv\<close>, and for \<open>recv\<close>, \<open>recvfrom\<close> and \<open>recvmsg\<close>
  without \<open>MSG_DONTWAIT\<close>; with it they make one call and return its result.
\<close>

theorem reading_waits_for_input:
  assumes "\<forall>k \<in> set ks. blocking fd k" "flags AND MSG_DONTWAIT = 0" "flags' AND MSG_DONTWAIT \<noteq> 0"
  shows "read fd ks = Some (first_turn int32 input_result ks) \<and> readv fd ks = read fd ks \<and>
    recv fd flags ks = read fd ks \<and> recvfrom fd flags ks = read fd ks \<and> recvmsg fd flags ks = read fd ks \<and>
    (ks \<noteq> [] \<longrightarrow> (\<forall>call \<in> {recv, recvfrom, recvmsg}. call fd flags' ks = Some (Io_Return (int32 (it_ret (hd ks))))))"
  using assms input_loop_first [OF assms(1)]
  by (cases ks) (simp_all add: read_def readv_def recv_def recvfrom_def recvmsg_def del: input_loop.simps(2), simp)

definition demo_io :: io_state where
  "demo_io = \<lparr>io_fd_info = Some [3, 3, 3, 0], io_max_fd = 4, io_thread_locked = False\<rparr>"

definition demo_turns :: "io_turn list" where
  "demo_turns = [\<lparr>it_before = demo_io, it_wait_ok = True, it_ret = -1, it_errno = EAGAIN, it_after = demo_io\<rparr>,
                 \<lparr>it_before = demo_io, it_wait_ok = True, it_ret = 7, it_errno = OTHER 0, it_after = demo_io\<rparr>]"

lemma demo_blocks: "should_block demo_io 1 = Some True"
  by (simp add: should_block_def demo_io_def IO_FLAG_BLOCKING_def IO_FLAG_WAITABLE_def)

lemma demo_blocking: "\<forall>k \<in> set demo_turns. blocking 1 k"
  by (simp add: demo_turns_def blocking_def demo_blocks)

theorem reading_waits_for_input_witness:
  "read 1 demo_turns = Some (Io_Return 7) \<and> recv 1 MSG_DONTWAIT demo_turns = Some (Io_Return (-1))"
proof -
  have results: "first_turn int32 input_result demo_turns = Io_Return 7" "int32 (it_ret (hd demo_turns)) = -1" "demo_turns \<noteq> []"
    by (simp_all add: first_turn_def demo_turns_def input_result_def refused_def would_block_def int32_id)
  show ?thesis
    using reading_waits_for_input [of demo_turns 1 0 MSG_DONTWAIT] demo_blocking results by (simp add: MSG_DONTWAIT_def)
qed

text \<open>A fiber that writes to a blocking descriptor calls the kernel first, and waits and calls again as long as the kernel would have blocked: it returns -1 when a wait fails, and otherwise
  the result of the first call that was not refused.  \<open>write\<close> and \<open>writev\<close> keep the result in 32 bits, which changes no result the kernel gives below two gigabytes.
\<close>

theorem writing_waits_for_output:
  assumes "\<forall>k \<in> set ks. blocking fd k" "flags AND MSG_DONTWAIT = 0" "\<forall>k \<in> set ks. -1 \<le> it_ret k \<and> it_ret k < 2 ^ 31"
  shows "send fd flags ks = Some (first_turn (\<lambda>r. r) (output_result (\<lambda>r. r)) ks) \<and>
    sendto fd flags ks = send fd flags ks \<and> sendmsg fd flags ks = send fd flags ks \<and>
    write_call fd ks = send fd flags ks \<and> writev fd ks = send fd flags ks"
proof -
  have "output_loop int32 False fd ks = output_loop (\<lambda>r. r) False fd ks"
    using assms(3) by (induction ks) (auto simp: int32_id Let_def cong: if_cong)
  then show ?thesis
    using assms output_loop_first [OF assms(1)]
    by (simp add: send_def sendto_def sendmsg_def write_call_def writev_def)
qed

theorem writing_waits_for_output_witness:
  "send 1 0 demo_turns = Some (Io_Return 7) \<and> write_call 1 demo_turns = Some (Io_Return 7)"
proof -
  have results: "first_turn (\<lambda>r. r) (output_result (\<lambda>r. r)) demo_turns = Io_Return 7"
    by (simp add: first_turn_def demo_turns_def output_result_def refused_def would_block_def)
  have "\<forall>k \<in> set demo_turns. -1 \<le> it_ret k \<and> it_ret k < 2 ^ 31"
    by (simp add: demo_turns_def)
  then show ?thesis
    using writing_waits_for_output [of demo_turns 1 0] demo_blocking results by simp
qed

lemma io_ok_table: "io_ok st \<Longrightarrow> \<exists>flags. io_fd_info st = Some flags"
  by (auto simp: io_ok_def split: option.splits)

lemma setup_socket_ok:
  assumes "io_ok st" "valid_fd st sock" "\<not> io_thread_locked st"
  obtains st' where "\<And>r1 r2. setup_socket sock r1 r2 st = Some (st', if r1 < 0 then r1 else r2)" "io_ok st'" "io_max_fd st' = io_max_fd st"
    "\<not> io_thread_locked st'"
    "\<And>d. 0 \<le> d \<Longrightarrow>
      flags_of st' d = (if d = sock then flags_of st sock OR (IO_FLAG_BLOCKING OR IO_FLAG_WAITABLE) else flags_of st d)"
proof -
  obtain st' where st': "upd_flags sock (\<lambda>f. f OR (IO_FLAG_BLOCKING OR IO_FLAG_WAITABLE)) st = Some st'" "io_ok st'"
      "io_max_fd st' = io_max_fd st" "io_thread_locked st' = io_thread_locked st"
      "\<And>d. 0 \<le> d \<Longrightarrow>
        flags_of st' d = (if d = sock then flags_of st sock OR (IO_FLAG_BLOCKING OR IO_FLAG_WAITABLE) else flags_of st d)"
    using upd_flags_ok [OF assms(1,2)] by metis
  show thesis
    by (rule that [of st']) (use assms st' in \<open>simp_all add: setup_socket_def valid_fd_def\<close>)
qed


lemma demo_io_ok: "io_ok demo_io" "valid_fd demo_io 2" "valid_fd demo_io 3" "\<not> io_thread_locked demo_io" "flags_of demo_io 2 = 3"
  by (simp_all add: io_ok_def valid_fd_def demo_io_def flags_of_def)

text \<open>Closing a descriptor while events are not set up.\<close>

lemma fd_closed_off: "ev_event_fd e < 0 \<Longrightarrow> fiber_fd_closed ops t fd (e, w) = Some (e, w)"
  by (simp add: fiber_fd_closed_def)

lemma demo_fd_closed:
  "fiber_fd_closed ops t fd (demo_events\<lparr>ev_event_fd := -1\<rparr>, w) = Some (demo_events\<lparr>ev_event_fd := -1\<rparr>, w)"
  by (rule fd_closed_off) simp


text \<open>A program cannot make a descriptor non-blocking.  On a socket of the library \<open>fcntl\<close> with \<open>O_NONBLOCK\<close>, and \<open>ioctl\<close> with \<open>FIONBIO\<close> and a non-zero
  value, report success and clear the blocking flag, but \<open>should_block\<close> accepts either flag and the other one is still set: the
  fiber goes on waiting in every call on that descriptor.
\<close>

theorem nonblocking_request_ignored:
  assumes "io_ok st" "valid_fd st fd" "\<not> io_thread_locked st" "flags_of st fd AND IO_FLAG_WAITABLE \<noteq> 0" "v \<noteq> 0"
  shows "\<exists>st'. fcntl fd F_SETFL O_NONBLOCK st = Some (st', Answer 0 None) \<and> ioctl fd FIONBIO (Some v) val st = Some (st', Answer 0 None) \<and>
    flags_of st' fd AND IO_FLAG_BLOCKING = 0 \<and> should_block st' fd = Some True"
proof -
  obtain st' where st': "upd_flags fd (\<lambda>f. f AND NOT IO_FLAG_BLOCKING) st = Some st'" "io_ok st'" "io_max_fd st' = io_max_fd st"
      "io_thread_locked st' = io_thread_locked st" "\<And>d. 0 \<le> d \<Longrightarrow> flags_of st' d = (if d = fd then flags_of st fd AND NOT IO_FLAG_BLOCKING else flags_of st d)"
    using upd_flags_ok [OF assms(1,2)] by metis
  have flags: "flags_of st' fd = flags_of st fd AND NOT IO_FLAG_BLOCKING" and valid: "valid_fd st' fd"
    using st'(3,5) assms(2) by (simp_all add: valid_fd_def)
  show ?thesis
    using assms st'(1,4) flags should_block_flags [OF st'(2) valid] waitable_remains [OF assms(4)] nonblocking_bits(1)
    by (simp add: fcntl_def ioctl_def valid_fd_def)
qed

theorem nonblocking_request_ignored_witness:
  "\<exists>st'. fcntl 2 F_SETFL O_NONBLOCK demo_io = Some (st', Answer 0 None) \<and> should_block st' 2 = Some True"
  using nonblocking_request_ignored [OF demo_io_ok(1,2,4), of 1 0] by (auto simp: demo_io_ok(5) IO_FLAG_WAITABLE_def)

text \<open>A socket makes fibers wait from the moment it is made to the moment it is closed: when the kernel gives a new descriptor and accepts its options, \<open>should_block\<close> holds of it and
  keeps its value on every other descriptor; after \<open>close\<close> it does not hold; and when the kernel refuses the options the
  descriptor is closed again, with its flags cleared, and -1 is returned.
\<close>

theorem socket_waits_until_closed:
  assumes "io_ok st" "valid_fd st sock" "\<not> io_thread_locked st" "fiber_fd_closed ops t sock ew = Some ew" "r1 \<ge> 0" "r2 \<ge> 0" "e < 0"
  shows "\<exists>st1 st2. socket ops t sock r1 r2 st ew = Some (st1, ew, sock) \<and> should_block st1 sock = Some True \<and>
      (\<forall>d. valid_fd st d \<and> d \<noteq> sock \<longrightarrow> should_block st1 d = should_block st d) \<and>
      close ops t sock r st1 ew = Some (st2, ew, r) \<and> should_block st2 sock = Some False \<and>
      socket ops t sock e r2 st ew = Some (st2, ew, -1)"
proof -
  obtain st1 where st1: "\<And>r1 r2. setup_socket sock r1 r2 st = Some (st1, if r1 < 0 then r1 else r2)" "io_ok st1" "io_max_fd st1 = io_max_fd st"
      "\<not> io_thread_locked st1" "\<And>d. 0 \<le> d \<Longrightarrow>
      flags_of st1 d = (if d = sock then flags_of st sock OR (IO_FLAG_BLOCKING OR IO_FLAG_WAITABLE) else flags_of st d)"
    using setup_socket_ok [OF assms(1-3)] by metis
  have valid: "valid_fd st1 sock"
    using assms(2) st1(3) by (simp add: valid_fd_def)
  obtain st2 where st2: "upd_flags sock (\<lambda>_. 0) st1 = Some st2" "io_ok st2" "io_max_fd st2 = io_max_fd st1" "io_thread_locked st2 = io_thread_locked st1"
      "\<And>d. 0 \<le> d \<Longrightarrow> flags_of st2 d = (if d = sock then 0 else flags_of st1 d)"
    using upd_flags_ok [OF st1(2) valid] by metis
  have closes: "close ops t sock r st1 ew = Some (st2, ew, r)" for r
    using st2(1) valid io_ok_table [OF st1(2)] assms(4) by (auto simp: close_def valid_fd_def)
  have "should_block st1 sock = Some True"
    using should_block_flags [OF st1(2) valid] st1(4) st1(5) [of sock] nonblocking_bits(2,3) valid by (simp add: valid_fd_def)
  moreover have "should_block st2 sock = Some False"
    using should_block_flags [OF st2(2), of sock] st2(3) st2(5) [of sock] valid by (simp add: valid_fd_def)
  moreover have "should_block st1 d = should_block st d" if "valid_fd st d" "d \<noteq> sock" for d
    using should_block_flags [OF st1(2), of d] should_block_flags [OF assms(1) that(1)] st1(3,4) st1(5) [of d] that assms(3)
    by (simp add: valid_fd_def)
  ultimately show ?thesis
    using closes st1(1) assms(2,5-7) by (auto simp: socket_def close_failed_def valid_fd_def)
qed

theorem socket_waits_until_closed_witness:
  "\<forall>ops t w. \<exists>st1. socket ops t 3 0 0 demo_io (demo_events\<lparr>ev_event_fd := -1\<rparr>, w) = Some (st1, (demo_events\<lparr>ev_event_fd := -1\<rparr>, w), 3) \<and>
     should_block st1 3 = Some True"
  using socket_waits_until_closed [OF demo_io_ok(1,3,4) demo_fd_closed, of 0 0 "-1"] by (metis order_refl neg_less_0_iff_less zero_less_one)

end
