(* ===== verification/Cond.thy ===== *)
theory Cond
  imports Mutex
begin

text \<open>
  \<open>src/fiber_cond.c\<close>: a condition variable over the mutex of its callers, a count and a queue of waiters, and an
  internal mutex that admits one signalling fiber at a time.  Both mutexes are machines of \<open>Mutex\<close>.
  A fiber that waits pushes itself into the queue and gives the caller's mutex up only after it
  is switched out, in the maintenance of the fiber that runs next on its kernel thread: by then another thread
  may have woken it.  So the mutex knows fiber \<open>t\<close> as \<open>2 * t\<close>, and as \<open>2 * t + 1\<close> the thread that unlocks on its behalf.
  The count is bounded by the number of fibers and is an integer here.
\<close>

record fiber_cond =
  co_caller_mutex :: addr
  co_waiter_count :: int
  co_waiters :: mpsc_fifo
  co_internal_mutex :: fiber_mutex

text \<open>The two allocations of the nodes of the queues.\<close>

definition fiber_cond_init :: "mpsc_heap \<Rightarrow> addr \<Rightarrow> addr \<Rightarrow> (mpsc_heap \<times> fiber_cond option \<times> int) option" where
  "fiber_cond_init h a b =
     (case mpsc_fifo_init h a of (h1, f, r) \<Rightarrow>
        if r = 0 then Some (h1, None, FIBER_ERROR)
        else case fiber_mutex_init h1 b of (h2, m, r2) \<Rightarrow>
          if r2 = FIBER_ERROR
          then do { (h3, _) \<leftarrow> mpsc_fifo_destroy h2 f; Some (h3, None, FIBER_ERROR) }
          else Some (h2, Some \<lparr>co_caller_mutex = NULL, co_waiter_count = 0, co_waiters = f, co_internal_mutex = m\<rparr>, FIBER_SUCCESS))"

definition fiber_cond_destroy :: "mpsc_heap \<Rightarrow> fiber_cond \<Rightarrow> mpsc_heap option" where
  "fiber_cond_destroy h c = do {
     (h1, _, _) \<leftarrow> fiber_mutex_destroy h (co_internal_mutex c);
     (h2, _) \<leftarrow> mpsc_fifo_destroy h1 (co_waiters c);
     Some h2
   }"

section \<open>Fibers\<close>

datatype cond_pc = C_Idle | C_Counted | C_Asleep | C_Relock | C_Locking
  | C_Signal | C_Broadcast | C_Restore | C_Wake nat | C_Unlock | C_Unlocking

datatype cond_event = Waits nat | Signals | Broadcasts

record cond_sys =
  cd_caller :: mutex_sys
  cd_internal :: mutex_sys
  cd_caller_mutex :: addr
  cd_waiter_count :: int
  cd_queue :: "nat list"
  cd_pc :: "nat \<Rightarrow> cond_pc"
  cd_unlocking :: "nat \<Rightarrow> bool"
  cd_waited :: "nat list"
  cd_granted :: nat
  cd_woken :: "nat list"
  cd_log :: "cond_event list"

definition the_mutex :: addr where "the_mutex = 1"

abbreviation cond_goto :: "nat \<Rightarrow> cond_pc \<Rightarrow> cond_sys \<Rightarrow> cond_sys" where
  "cond_goto t pc s \<equiv> s\<lparr>cd_pc := (cd_pc s)(t := pc)\<rparr>"

text \<open>
  \<open>fiber_cond_wait\<close>: the entry up to the increment, by a fiber that holds the mutex, and the steps that follow.  The push is the
  maintenance's; with it the right to unlock passes to the thread that performs it.
\<close>

definition fiber_cond_wait :: "nat \<Rightarrow> cond_sys \<Rightarrow> cond_sys option" where
  "fiber_cond_wait t s = do {
     c_assert (cd_caller_mutex s = NULL \<or> cd_caller_mutex s = the_mutex);
     Some (cond_goto t C_Counted (s\<lparr>cd_caller_mutex := the_mutex, cd_waiter_count := cd_waiter_count s + 1,
             cd_waited := cd_waited s @ [t], cd_log := cd_log s @ [Waits t]\<rparr>))
   }"

definition cond_wait_push :: "nat \<Rightarrow> cond_sys \<Rightarrow> cond_sys" where
  "cond_wait_push t s =
     cond_goto t C_Asleep (s\<lparr>cd_queue := cd_queue s @ [t],
       cd_caller := (cd_caller s)\<lparr>mu_pc := (mu_pc (cd_caller s))(2 * t := M_Idle, 2 * t + 1 := M_Held)\<rparr>,
       cd_unlocking := (cd_unlocking s)(t := True)\<rparr>)"

definition cond_wait_unlock :: "nat \<Rightarrow> cond_sys \<Rightarrow> cond_sys" where
  "cond_wait_unlock t s =
     (if cd_unlocking s t
      then s\<lparr>cd_caller := fiber_mutex_unlock_internal (2 * t + 1) (cd_caller s), cd_unlocking := (cd_unlocking s)(t := False)\<rparr>
      else s)"

definition cond_wait_relock :: "nat \<Rightarrow> cond_sys \<Rightarrow> cond_sys" where
  "cond_wait_relock t s = cond_goto t C_Locking (s\<lparr>cd_caller := fiber_mutex_lock (2 * t) (cd_caller s)\<rparr>)"

definition cond_wait_return :: "nat \<Rightarrow> cond_sys \<Rightarrow> cond_sys" where
  "cond_wait_return t s = (if mu_pc (cd_caller s) (2 * t) = M_Held then cond_goto t C_Idle s else s)"

text \<open>\<open>fiber_cond_signal\<close> and \<open>fiber_cond_broadcast\<close>: both begin with the internal mutex.\<close>

definition cond_lock :: "nat \<Rightarrow> cond_pc \<Rightarrow> cond_sys \<Rightarrow> cond_sys" where
  "cond_lock t pc s = cond_goto t pc (s\<lparr>cd_internal := fiber_mutex_lock t (cd_internal s)\<rparr>)"

definition fiber_cond_signal :: "nat \<Rightarrow> cond_sys \<Rightarrow> cond_sys" where
  "fiber_cond_signal t s =
     (let new_val = cd_waiter_count s - 1
      in if new_val \<ge> 0
         then cond_goto t (C_Wake 1) (s\<lparr>cd_waiter_count := new_val, cd_granted := cd_granted s + 1, cd_log := cd_log s @ [Signals]\<rparr>)
         else cond_goto t C_Restore (s\<lparr>cd_waiter_count := new_val, cd_log := cd_log s @ [Signals]\<rparr>))"

definition cond_restore :: "nat \<Rightarrow> cond_sys \<Rightarrow> cond_sys option" where
  "cond_restore t s = do {
     let new_val = cd_waiter_count s + 1;
     c_assert (new_val \<ge> 0);
     Some (cond_goto t C_Unlock (s\<lparr>cd_waiter_count := new_val\<rparr>))
   }"

definition fiber_cond_broadcast :: "nat \<Rightarrow> cond_sys \<Rightarrow> cond_sys" where
  "fiber_cond_broadcast t s =
     (let original = cd_waiter_count s
      in cond_goto t (if original \<noteq> 0 then C_Wake (nat original) else C_Unlock)
           (s\<lparr>cd_waiter_count := 0, cd_granted := cd_granted s + nat original, cd_log := cd_log s @ [Broadcasts]\<rparr>))"

text \<open>One turn of \<open>fiber_manager_wake_from_mpsc_queue\<close> with \<open>n\<close> fibers to go; an empty queue is tried again.\<close>

definition cond_wake_pop :: "nat \<Rightarrow> nat \<Rightarrow> cond_sys \<Rightarrow> cond_sys" where
  "cond_wake_pop t n s =
     (case cd_queue s of
        [] \<Rightarrow> s
      | u # q \<Rightarrow> s\<lparr>cd_queue := q, cd_woken := cd_woken s @ [u],
                   cd_pc := (cd_pc s)(u := C_Relock, t := if n = 1 then C_Unlock else C_Wake (n - 1))\<rparr>)"

definition cond_unlock :: "nat \<Rightarrow> cond_sys \<Rightarrow> cond_sys" where
  "cond_unlock t s = cond_goto t C_Unlocking (s\<lparr>cd_internal := fiber_mutex_unlock_internal t (cd_internal s)\<rparr>)"

definition cond_return :: "nat \<Rightarrow> cond_sys \<Rightarrow> cond_sys" where
  "cond_return t s = (if mu_pc (cd_internal s) t = M_Idle then cond_goto t C_Idle s else s)"

text \<open>
  Actions: the caller's mutex and the internal one make their own steps; a fiber that is in no operation may lock and unlock the caller's mutex,
  wait when it holds it, signal and broadcast.
\<close>

datatype cond_act = Caller_Lock nat | Caller_Trylock nat bool | Caller_Unlock nat | Caller_Step nat | Internal_Step nat
  | Cond_Wait nat | Cond_Signal nat | Cond_Broadcast nat | Cond_Step nat | Cond_Unlock nat

fun cond_fiber :: "cond_act \<Rightarrow> nat" where
  "cond_fiber (Caller_Lock t) = t" | "cond_fiber (Caller_Trylock t sp) = t" | "cond_fiber (Caller_Unlock t) = t"
| "cond_fiber (Caller_Step x) = x div 2" | "cond_fiber (Internal_Step t) = t"
| "cond_fiber (Cond_Wait t) = t" | "cond_fiber (Cond_Signal t) = t" | "cond_fiber (Cond_Broadcast t) = t"
| "cond_fiber (Cond_Step t) = t" | "cond_fiber (Cond_Unlock t) = t"

definition on_caller :: "mutex_act \<Rightarrow> cond_sys \<Rightarrow> cond_sys option" where
  "on_caller a s = do { m \<leftarrow> mutex_step a (cd_caller s); Some (s\<lparr>cd_caller := m\<rparr>) }"

definition on_internal :: "mutex_act \<Rightarrow> cond_sys \<Rightarrow> cond_sys option" where
  "on_internal a s = do { m \<leftarrow> mutex_step a (cd_internal s); Some (s\<lparr>cd_internal := m\<rparr>) }"

definition cond_own_step :: "nat \<Rightarrow> cond_sys \<Rightarrow> cond_sys option" where
  "cond_own_step t s =
     (case cd_pc s t of
        C_Idle \<Rightarrow> Some s
      | C_Counted \<Rightarrow> Some (cond_wait_push t s)
      | C_Asleep \<Rightarrow> Some s
      | C_Relock \<Rightarrow> Some (cond_wait_relock t s)
      | C_Locking \<Rightarrow> Some (cond_wait_return t s)
      | C_Signal \<Rightarrow> Some (if mu_pc (cd_internal s) t = M_Held then fiber_cond_signal t s else s)
      | C_Broadcast \<Rightarrow> Some (if mu_pc (cd_internal s) t = M_Held then fiber_cond_broadcast t s else s)
      | C_Restore \<Rightarrow> cond_restore t s
      | C_Wake n \<Rightarrow> Some (cond_wake_pop t n s)
      | C_Unlock \<Rightarrow> Some (cond_unlock t s)
      | C_Unlocking \<Rightarrow> Some (cond_return t s))"

fun cond_step :: "cond_act \<Rightarrow> cond_sys \<Rightarrow> cond_sys option" where
  "cond_step (Caller_Lock t) s = (if cd_pc s t = C_Idle then on_caller (Lock (2 * t)) s else Some s)"
| "cond_step (Caller_Trylock t sp) s = (if cd_pc s t = C_Idle then on_caller (Trylock (2 * t) sp) s else Some s)"
| "cond_step (Caller_Unlock t) s = (if cd_pc s t = C_Idle then on_caller (Unlock (2 * t)) s else Some s)"
| "cond_step (Caller_Step x) s = on_caller (Mutex_Step x) s"
| "cond_step (Internal_Step t) s = on_internal (Mutex_Step t) s"
| "cond_step (Cond_Wait t) s = (if cd_pc s t = C_Idle \<and> mu_pc (cd_caller s) (2 * t) = M_Held then fiber_cond_wait t s else Some s)"
| "cond_step (Cond_Signal t) s = Some (if cd_pc s t = C_Idle then cond_lock t C_Signal s else s)"
| "cond_step (Cond_Broadcast t) s = Some (if cd_pc s t = C_Idle then cond_lock t C_Broadcast s else s)"
| "cond_step (Cond_Step t) s = cond_own_step t s"
| "cond_step (Cond_Unlock t) s = Some (cond_wait_unlock t s)"

abbreviation cond_run :: "cond_act list \<Rightarrow> cond_sys \<Rightarrow> cond_sys option" where
  "cond_run \<equiv> run_steps cond_step"

definition cond_sys_init :: cond_sys where
  "cond_sys_init = \<lparr>cd_caller = mutex_sys_init, cd_internal = mutex_sys_init, cd_caller_mutex = NULL, cd_waiter_count = 0, cd_queue = [],
     cd_pc = (\<lambda>_. C_Idle), cd_unlocking = (\<lambda>_. False), cd_waited = [], cd_granted = 0, cd_woken = [], cd_log = []\<rparr>"

section \<open>Specification\<close>

text \<open>
  Waiting fibers are numbered in the order of their waits.  A signal grants the next one its wake-up, if there is one,
  and a broadcast grants it to all.
\<close>

fun cond_spec_step :: "cond_event \<Rightarrow> nat list \<times> nat \<Rightarrow> nat list \<times> nat" where
  "cond_spec_step (Waits t) (ws, g) = (ws @ [t], g)"
| "cond_spec_step Signals (ws, g) = (ws, min (g + 1) (length ws))"
| "cond_spec_step Broadcasts (ws, g) = (ws, length ws)"

definition cond_spec :: "cond_event list \<Rightarrow> nat list \<times> nat" where
  "cond_spec es = fold cond_spec_step es ([], 0)"

lemma cond_spec_snoc: "cond_spec (es @ [e]) = cond_spec_step e (cond_spec es)"
  by (simp add: cond_spec_def)

section \<open>The invariant\<close>

fun caller_ok :: "cond_pc \<Rightarrow> bool \<Rightarrow> mutex_pc \<Rightarrow> mutex_pc \<Rightarrow> bool" where
  "caller_ok p d m m' \<longleftrightarrow> (p = C_Counted \<longrightarrow> m = M_Held) \<and> (p = C_Asleep \<or> p = C_Relock \<longrightarrow> m = M_Idle) \<and>
     (if d then m' = M_Held else m' = M_Idle \<or> m' = M_Waking)"

fun internal_ok :: "cond_pc \<Rightarrow> mutex_pc \<Rightarrow> bool" where
  "internal_ok C_Signal m \<longleftrightarrow> m \<noteq> M_Idle \<and> m \<noteq> M_Waking"
| "internal_ok C_Broadcast m \<longleftrightarrow> m \<noteq> M_Idle \<and> m \<noteq> M_Waking"
| "internal_ok C_Restore m \<longleftrightarrow> m = M_Held"
| "internal_ok (C_Wake n) m \<longleftrightarrow> m = M_Held \<and> 0 < n"
| "internal_ok C_Unlock m \<longleftrightarrow> m = M_Held"
| "internal_ok C_Unlocking m \<longleftrightarrow> m = M_Idle \<or> m = M_Waking"
| "internal_ok _ m \<longleftrightarrow> m = M_Idle"

fun c_wakes :: "cond_pc \<Rightarrow> nat" where
  "c_wakes (C_Wake n) = n" | "c_wakes _ = 0"

fun c_restores :: "cond_pc \<Rightarrow> nat" where
  "c_restores C_Restore = 1" | "c_restores _ = 0"

definition callers_ok :: "(nat \<Rightarrow> cond_pc) \<Rightarrow> (nat \<Rightarrow> bool) \<Rightarrow> (nat \<Rightarrow> mutex_pc) \<Rightarrow> bool" where
  "callers_ok pc d m \<longleftrightarrow> (\<forall>t. caller_ok (pc t) (d t) (m (2 * t)) (m (2 * t + 1)))"

definition internals_ok :: "(nat \<Rightarrow> cond_pc) \<Rightarrow> (nat \<Rightarrow> mutex_pc) \<Rightarrow> bool" where
  "internals_ok pc m \<longleftrightarrow> (\<forall>t. internal_ok (pc t) (m t))"

text \<open>The fibers that have waited are those that were woken, those in the queue, and at most one that has not been pushed yet.\<close>

definition waiters_ok :: "(nat \<Rightarrow> cond_pc) \<Rightarrow> nat list \<Rightarrow> nat list \<Rightarrow> nat list \<Rightarrow> bool" where
  "waiters_ok pc waited woken q \<longleftrightarrow>
     (\<exists>cs. waited = woken @ q @ cs \<and> length cs \<le> 1 \<and> set cs = {t. pc t = C_Counted}) \<and>
     distinct q \<and> set q = {t. pc t = C_Asleep}"

definition counts_ok :: "nat \<Rightarrow> (nat \<Rightarrow> cond_pc) \<Rightarrow> nat \<Rightarrow> nat \<Rightarrow> nat \<Rightarrow> int \<Rightarrow> bool" where
  "counts_ok N pc waited woken granted cnt \<longleftrightarrow>
     granted = woken + weight N c_wakes pc \<and> granted \<le> waited \<and>
     cnt + int (weight N c_restores pc) + int granted = int waited"

definition cond_inv :: "nat \<Rightarrow> cond_sys \<Rightarrow> bool" where
  "cond_inv N s \<longleftrightarrow> mutex_inv (2 * N) (cd_caller s) \<and> mutex_inv N (cd_internal s) \<and>
     (\<forall>t \<ge> N. cd_pc s t = C_Idle) \<and>
     callers_ok (cd_pc s) (cd_unlocking s) (mu_pc (cd_caller s)) \<and> internals_ok (cd_pc s) (mu_pc (cd_internal s)) \<and>
     waiters_ok (cd_pc s) (cd_waited s) (cd_woken s) (cd_queue s) \<and>
     counts_ok N (cd_pc s) (length (cd_waited s)) (length (cd_woken s)) (cd_granted s) (cd_waiter_count s) \<and>
     cond_spec (cd_log s) = (cd_waited s, cd_granted s) \<and> cd_caller_mutex s \<in> {NULL, the_mutex}"

lemma cond_invI:
  assumes "mutex_inv (2 * N) (cd_caller s)" "mutex_inv N (cd_internal s)" "\<And>t. t \<ge> N \<Longrightarrow> cd_pc s t = C_Idle"
    "callers_ok (cd_pc s) (cd_unlocking s) (mu_pc (cd_caller s))" "internals_ok (cd_pc s) (mu_pc (cd_internal s))"
    "waiters_ok (cd_pc s) (cd_waited s) (cd_woken s) (cd_queue s)"
    "counts_ok N (cd_pc s) (length (cd_waited s)) (length (cd_woken s)) (cd_granted s) (cd_waiter_count s)"
    "cond_spec (cd_log s) = (cd_waited s, cd_granted s)" "cd_caller_mutex s \<in> {NULL, the_mutex}"
  shows "cond_inv N s"
  using assms unfolding cond_inv_def by blast

lemma cond_invD:
  assumes "cond_inv N s"
  shows "mutex_inv (2 * N) (cd_caller s)" "mutex_inv N (cd_internal s)" "t \<ge> N \<Longrightarrow> cd_pc s t = C_Idle"
    "callers_ok (cd_pc s) (cd_unlocking s) (mu_pc (cd_caller s))" "internals_ok (cd_pc s) (mu_pc (cd_internal s))"
    "waiters_ok (cd_pc s) (cd_waited s) (cd_woken s) (cd_queue s)"
    "counts_ok N (cd_pc s) (length (cd_waited s)) (length (cd_woken s)) (cd_granted s) (cd_waiter_count s)"
    "cond_spec (cd_log s) = (cd_waited s, cd_granted s)" "cd_caller_mutex s \<in> {NULL, the_mutex}"
  using assms unfolding cond_inv_def by blast+

lemma callers_okD: "callers_ok pc d m \<Longrightarrow> caller_ok (pc t) (d t) (m (2 * t)) (m (2 * t + 1))"
  by (simp add: callers_ok_def)

lemma internals_okD: "internals_ok pc m \<Longrightarrow> internal_ok (pc t) (m t)"
  by (simp add: internals_ok_def)

lemma callers_ok_goto:
  "callers_ok pc d m \<Longrightarrow> caller_ok p (d t) (m (2 * t)) (m (2 * t + 1)) \<Longrightarrow> callers_ok (pc(t := p)) d m"
  by (simp add: callers_ok_def)

lemma internals_ok_goto: "internals_ok pc m \<Longrightarrow> internal_ok p (m t) \<Longrightarrow> internals_ok (pc(t := p)) m"
  by (simp add: internals_ok_def)

text \<open>A position that says nothing about the queue.\<close>

lemma waiters_ok_goto:
  assumes "waiters_ok pc waited woken q" "pc t \<noteq> C_Counted" "pc t \<noteq> C_Asleep" "p \<noteq> C_Counted" "p \<noteq> C_Asleep"
  shows "waiters_ok (pc(t := p)) waited woken q"
proof -
  have "{u. (pc(t := p)) u = C_Counted} = {u. pc u = C_Counted}" "{u. (pc(t := p)) u = C_Asleep} = {u. pc u = C_Asleep}"
    using assms(2-) by auto
  with assms(1) show ?thesis
    unfolding waiters_ok_def by presburger
qed

lemma counts_ok_goto:
  assumes "counts_ok N pc waited woken granted cnt" "t < N"
    "granted' + c_wakes (pc t) + woken = granted + c_wakes p + woken'" "granted' \<le> waited'"
    "cnt' + int (c_restores p) + int granted' + int waited = cnt + int (c_restores (pc t)) + int granted + int waited'"
  shows "counts_ok N (pc(t := p)) waited' woken' granted' cnt'"
proof -
  note w = weight_upd [OF assms(2), of c_wakes pc p] weight_upd [OF assms(2), of c_restores pc p]
  have "int (weight N c_restores (pc(t := p))) + int (c_restores (pc t)) = int (weight N c_restores pc) + int (c_restores p)"
    using w(2) by linarith
  with w(1) assms show ?thesis
    unfolding counts_ok_def by linarith
qed

section \<open>The mutexes\<close>

fun moved :: "mutex_pc \<Rightarrow> mutex_pc \<Rightarrow> bool" where
  "moved M_Pushing m \<longleftrightarrow> m = M_Pushing \<or> m = M_Waiting"
| "moved M_Waiting m \<longleftrightarrow> m = M_Waiting \<or> m = M_Held"
| "moved M_Waking m \<longleftrightarrow> m = M_Waking \<or> m = M_Idle"
| "moved m m' \<longleftrightarrow> m' = m"

lemma moved_refl [simp]: "moved m m"
  by (cases m) auto

lemma mutex_own_step_moves:
  assumes "mutex_inv N m" "mutex_step (Mutex_Step x) m = Some m'"
  shows "moved (mu_pc m y) (mu_pc m' y)"
proof -
  have "mu_pc m u = M_Waiting" if "mu_queue m = u # q" for u q
    using assms(1) that by (auto simp: mutex_inv_def)
  with assms(2) show ?thesis
    by (cases "mu_pc m x") (auto simp: mutex_wait_push_def mutex_wake_pop_def split: list.splits)
qed

lemma caller_ok_moved: "caller_ok p d m m' \<Longrightarrow> moved m n \<Longrightarrow> moved m' n' \<Longrightarrow> caller_ok p d n n'"
  by (cases m; cases m') (auto split: if_splits)

lemma internal_ok_moved: "internal_ok p m \<Longrightarrow> moved m n \<Longrightarrow> internal_ok p n"
  by (cases p; cases m) auto

lemma lock_pc: "mu_pc (fiber_mutex_lock t m) = (mu_pc m)(t := if mu_counter m - 1 = 0 then M_Held else M_Pushing)"
  by (simp add: fiber_mutex_lock_def mutex_lock_sub_def Let_def)

lemma unlock_pc: "mu_pc (fiber_mutex_unlock_internal t m) = (mu_pc m)(t := if mu_counter m + 1 \<noteq> 1 then M_Waking else M_Idle)"
  by (simp add: fiber_mutex_unlock_internal_def mutex_unlock_add_def Let_def)

lemma trylock_pc:
  "mu_pc (fiber_mutex_trylock t sp m) = (if mu_counter m = 1 \<and> \<not> sp then (mu_pc m)(t := M_Held) else mu_pc m)"
  by (simp add: fiber_mutex_trylock_def mutex_try_cas_def)

text \<open>Handing the mutex to the thread that unlocks it.\<close>

lemma mutex_inv_transfer:
  assumes inv: "mutex_inv N m" and x: "x < N" "mu_pc m x = M_Held" and y: "y < N" "mu_pc m y = M_Idle"
  shows "mutex_inv N (m\<lparr>mu_pc := (mu_pc m)(x := M_Idle, y := M_Held)\<rparr>)"
proof -
  have ne: "((mu_pc m)(x := M_Idle)) y = M_Idle" using y(2) by auto
  note w = mutex_weights_upd [OF y(1), of "(mu_pc m)(x := M_Idle)" M_Held, unfolded ne]
    mutex_weights_upd [OF x(1), of "mu_pc m" M_Idle, unfolded x(2)]
  have "mutex_counts N (mu_counter m) ((mu_pc m)(x := M_Idle, y := M_Held))"
    using inv w by (simp add: mutex_inv_def mutex_counts_def)
  with inv x y show ?thesis
    by (auto simp: mutex_inv_def)
qed

lemma callers_ok_change:
  assumes "callers_ok pc d m" "caller_ok p b n n'" "\<And>u. u \<noteq> t \<Longrightarrow> m' (2 * u) = m (2 * u) \<and> m' (Suc (2 * u)) = m (Suc (2 * u))"
    "m' (2 * t) = n" "m' (Suc (2 * t)) = n'"
  shows "callers_ok (pc(t := p)) (d(t := b)) m'"
  using assms by (simp add: callers_ok_def)

lemma even_odd: "2 * t \<noteq> Suc (2 * u)" "Suc (2 * u) \<noteq> 2 * t" for t u :: nat
  by presburger+

section \<open>Preservation\<close>

lemma cond_inv_caller:
  assumes inv: "cond_inv N s" and N: "2 * N < 2 ^ 32" and a: "mutex_fiber a < 2 * N"
    and step: "mutex_step a (cd_caller s) = Some m" and ok: "callers_ok (cd_pc s) (cd_unlocking s) (mu_pc m)"
  shows "cond_inv N (s\<lparr>cd_caller := m\<rparr>)"
proof -
  have "mutex_inv (2 * N) m"
    using mutex_step_inv [OF cond_invD(1) [OF inv] N a] step by auto
  with inv ok show ?thesis
    by (simp add: cond_inv_def)
qed

lemma caller_step_ok:
  assumes inv: "cond_inv N s" and N: "2 * N < 2 ^ 32" and a: "mutex_fiber a < 2 * N"
    and idle: "(\<exists>x. a = Mutex_Step x) \<or> (\<exists>t. a \<in> {Lock (2 * t), Unlock (2 * t)} \<union> Trylock (2 * t) ` UNIV \<and> cd_pc s t = C_Idle)"
  shows "\<exists>s'. on_caller a s = Some s' \<and> cond_inv N s'"
proof -
  obtain m where m: "mutex_step a (cd_caller s) = Some m"
    using mutex_step_inv [OF cond_invD(1) [OF inv] N a] by auto
  note ok = cond_invD(4) [OF inv]
  have "callers_ok (cd_pc s) (cd_unlocking s) (mu_pc m)"
    using idle
  proof (elim disjE exE conjE)
    fix x assume "a = Mutex_Step x"
    with m mutex_own_step_moves [OF cond_invD(1) [OF inv]] callers_okD [OF ok] show ?thesis
      unfolding callers_ok_def by (blast intro: caller_ok_moved)
  next
    fix t assume a: "a \<in> {Lock (2 * t), Unlock (2 * t)} \<union> Trylock (2 * t) ` UNIV" and t: "cd_pc s t = C_Idle"
    then have "mu_pc m x = mu_pc (cd_caller s) x" if "x \<noteq> 2 * t" for x
      using m that by (auto simp: lock_pc unlock_pc trylock_pc split: if_splits)
    then show ?thesis
      using ok t unfolding callers_ok_def by (metis caller_ok.simps cond_pc.distinct(1,3,5) even_odd(2) Suc_eq_plus1 mult_cancel1 zero_neq_numeral)
  qed
  from cond_inv_caller [OF inv N a m this] m show ?thesis
    by (simp add: on_caller_def)
qed

lemma internal_step_ok:
  assumes inv: "cond_inv N s" and N: "2 * N < 2 ^ 32" and t: "t < N"
  shows "\<exists>s'. on_internal (Mutex_Step t) s = Some s' \<and> cond_inv N s'"
proof -
  obtain m where m: "mutex_step (Mutex_Step t) (cd_internal s) = Some m" "mutex_inv N m"
    using mutex_step_inv [OF cond_invD(2) [OF inv], of "Mutex_Step t"] N t by auto
  have "internals_ok (cd_pc s) (mu_pc m)"
    using mutex_own_step_moves [OF cond_invD(2) [OF inv] m(1)] internals_okD [OF cond_invD(5) [OF inv]]
    unfolding internals_ok_def by (blast intro: internal_ok_moved)
  with inv m show ?thesis
    by (simp add: on_internal_def cond_inv_def)
qed

lemma cond_wait_ok:
  assumes inv: "cond_inv N s" and t: "t < N" "cd_pc s t = C_Idle" "mu_pc (cd_caller s) (2 * t) = M_Held"
  shows "\<exists>s'. fiber_cond_wait t s = Some s' \<and> cond_inv N s'"
proof -
  note D = cond_invD [OF inv]
  have none: "cd_pc s u \<noteq> C_Counted" for u
    using callers_okD [OF D(4), of u] mutex_inv_exclusive [OF D(1), of "2 * t" "2 * u"] t(2,3) by auto
  obtain cs where cs: "cd_waited s = cd_woken s @ cd_queue s @ cs" "set cs = {u. cd_pc s u = C_Counted}"
    using D(6) unfolding waiters_ok_def by blast
  with none have waited: "cd_waited s = cd_woken s @ cd_queue s"
    by simp
  have "waiters_ok ((cd_pc s)(t := C_Counted)) (cd_waited s @ [t]) (cd_woken s) (cd_queue s)"
    using D(6) waited none t(2) by (auto simp: waiters_ok_def)
  moreover have "counts_ok N ((cd_pc s)(t := C_Counted)) (length (cd_waited s @ [t])) (length (cd_woken s)) (cd_granted s) (cd_waiter_count s + 1)"
    using D(7) by (rule counts_ok_goto) (use t D(7) in \<open>auto simp: counts_ok_def\<close>)
  moreover have "internals_ok ((cd_pc s)(t := C_Counted)) (mu_pc (cd_internal s))"
    using D(5) internals_okD [OF D(5), of t] t(2) by (intro internals_ok_goto) auto
  moreover have "callers_ok ((cd_pc s)(t := C_Counted)) (cd_unlocking s) (mu_pc (cd_caller s))"
    using D(4) callers_okD [OF D(4), of t] t(3) by (intro callers_ok_goto) auto
  ultimately show ?thesis
    using D t by (auto simp: fiber_cond_wait_def cond_inv_def cond_spec_snoc)
qed

lemma cond_wait_push_ok:
  assumes inv: "cond_inv N s" and t: "t < N" "cd_pc s t = C_Counted"
  shows "cond_inv N (cond_wait_push t s)"
proof -
  note D = cond_invD [OF inv]
  let ?m = "mu_pc (cd_caller s)" and ?pc = "(cd_pc s)(t := C_Asleep)"
  have held: "?m (2 * t) = M_Held"
    using callers_okD [OF D(4), of t] t(2) by simp
  have idle: "?m (2 * t + 1) = M_Idle"
    using callers_okD [OF D(4), of t] mutex_inv_exclusive [OF D(1), of "2 * t" "2 * t + 1"] held by (auto split: if_splits)
  have "mutex_inv (2 * N) ((cd_caller s)\<lparr>mu_pc := ?m(2 * t := M_Idle, 2 * t + 1 := M_Held)\<rparr>)"
    using mutex_inv_transfer [OF D(1) _ held _ idle] t(1) by simp
  moreover have "callers_ok ?pc ((cd_unlocking s)(t := True)) (?m(2 * t := M_Idle, 2 * t + 1 := M_Held))"
    using D(4) by (rule callers_ok_change) (auto simp: even_odd)
  moreover have "internals_ok ?pc (mu_pc (cd_internal s))"
    using D(5) internals_okD [OF D(5), of t] t(2) by (intro internals_ok_goto) auto
  moreover have "counts_ok N ?pc (length (cd_waited s)) (length (cd_woken s)) (cd_granted s) (cd_waiter_count s)"
    using D(7) by (rule counts_ok_goto) (use t D(7) in \<open>auto simp: counts_ok_def\<close>)
  moreover have "waiters_ok ?pc (cd_waited s) (cd_woken s) (cd_queue s @ [t])"
  proof -
    obtain cs where cs: "cd_waited s = cd_woken s @ cd_queue s @ cs" "length cs \<le> 1" "set cs = {u. cd_pc s u = C_Counted}"
      using D(6) unfolding waiters_ok_def by blast
    with t(2) have "t \<in> set cs" by simp
    with cs(2) have "cs = [t]" by (cases cs) auto
    with cs D(6) t(2) show ?thesis
      by (auto simp: waiters_ok_def)
  qed
  ultimately show ?thesis
    using D t by (simp add: cond_wait_push_def cond_inv_def)
qed

lemma cond_wait_unlock_ok:
  assumes inv: "cond_inv N s" and N: "2 * N < 2 ^ 32" and t: "t < N"
  shows "cond_inv N (cond_wait_unlock t s)"
proof (cases "cd_unlocking s t")
  case True
  note D = cond_invD [OF inv]
  have held: "mu_pc (cd_caller s) (2 * t + 1) = M_Held"
    using callers_okD [OF D(4), of t] True by simp
  then have "mutex_inv (2 * N) (fiber_mutex_unlock_internal (2 * t + 1) (cd_caller s))"
    using mutex_unlock_inv [OF D(1) N] t by simp
  moreover have "callers_ok ((cd_pc s)(t := cd_pc s t)) ((cd_unlocking s)(t := False)) (mu_pc (fiber_mutex_unlock_internal (2 * t + 1) (cd_caller s)))"
    using D(4) callers_okD [OF D(4), of t] by (intro callers_ok_change [where m = "mu_pc (cd_caller s)"]) (auto simp: even_odd unlock_pc)
  ultimately show ?thesis
    using D True by (simp add: cond_wait_unlock_def cond_inv_def)
qed (use inv in \<open>simp add: cond_wait_unlock_def\<close>)

text \<open>The other steps of a fiber move it between positions that say nothing about the queue and the caller's mutex.\<close>

fun apart :: "cond_pc \<Rightarrow> bool" where
  "apart C_Counted \<longleftrightarrow> False" | "apart C_Asleep \<longleftrightarrow> False" | "apart _ \<longleftrightarrow> True"

lemma cond_goto_ok:
  assumes inv: "cond_inv N s" and t: "t < N" "apart (cd_pc s t)" "apart p" "p \<noteq> C_Relock"
    and internal: "mutex_inv N m" "internals_ok ((cd_pc s)(t := p)) (mu_pc m)"
    and counts: "g + c_wakes (cd_pc s t) = cd_granted s + c_wakes p" "g \<le> length (cd_waited s)"
      "c + int (c_restores p) + int g = cd_waiter_count s + int (c_restores (cd_pc s t)) + int (cd_granted s)"
    and log: "cond_spec l = (cd_waited s, g)"
  shows "cond_inv N (s\<lparr>cd_internal := m, cd_waiter_count := c, cd_granted := g, cd_log := l, cd_pc := (cd_pc s)(t := p)\<rparr>)"
proof -
  note D = cond_invD [OF inv]
  have "callers_ok ((cd_pc s)(t := p)) (cd_unlocking s) (mu_pc (cd_caller s))"
    using D(4) callers_okD [OF D(4), of t] t by (intro callers_ok_goto) (auto split: if_splits)
  moreover have "waiters_ok ((cd_pc s)(t := p)) (cd_waited s) (cd_woken s) (cd_queue s)"
    using D(6) t by (intro waiters_ok_goto) auto
  moreover have "counts_ok N ((cd_pc s)(t := p)) (length (cd_waited s)) (length (cd_woken s)) g c"
    using D(7) by (rule counts_ok_goto) (use t counts in auto)
  ultimately show ?thesis
    using D t internal log by (auto intro!: cond_invI)
qed

lemma cond_move_ok:
  assumes "cond_inv N s" "t < N" "apart (cd_pc s t)" "apart p" "p \<noteq> C_Relock" "mutex_inv N m" "internals_ok ((cd_pc s)(t := p)) (mu_pc m)"
    "c_wakes p = c_wakes (cd_pc s t)" "c_restores p = c_restores (cd_pc s t)"
  shows "cond_inv N (s\<lparr>cd_internal := m, cd_pc := (cd_pc s)(t := p)\<rparr>)"
  using cond_goto_ok [OF assms(1-7), of "cd_granted s" "cd_waiter_count s" "cd_log s"] assms(8,9) cond_invD(7,8) [OF assms(1)]
  by (simp add: counts_ok_def)

lemma cond_wait_relock_ok:
  assumes inv: "cond_inv N s" and N: "2 * N < 2 ^ 32" and t: "t < N" "cd_pc s t = C_Relock"
  shows "cond_inv N (cond_wait_relock t s)"
proof -
  note D = cond_invD [OF inv]
  have idle: "mu_pc (cd_caller s) (2 * t) = M_Idle"
    using callers_okD [OF D(4), of t] t(2) by simp
  let ?s = "s\<lparr>cd_caller := fiber_mutex_lock (2 * t) (cd_caller s), cd_pc := (cd_pc s)(t := C_Locking)\<rparr>"
  have "callers_ok ((cd_pc s)(t := C_Locking)) ((cd_unlocking s)(t := cd_unlocking s t)) (mu_pc (fiber_mutex_lock (2 * t) (cd_caller s)))"
    using D(4) callers_okD [OF D(4), of t] by (intro callers_ok_change [where m = "mu_pc (cd_caller s)"]) (auto simp: even_odd lock_pc)
  moreover have "mutex_inv (2 * N) (fiber_mutex_lock (2 * t) (cd_caller s))"
    using mutex_lock_inv [OF D(1) N _ idle] t(1) by simp
  moreover have "cond_inv N (s\<lparr>cd_internal := cd_internal s, cd_pc := (cd_pc s)(t := C_Locking)\<rparr>)"
    using inv t D(2) internals_okD [OF D(5), of t] by (intro cond_move_ok internals_ok_goto D(5)) auto
  ultimately show ?thesis
    by (simp add: cond_wait_relock_def cond_inv_def)
qed

lemma cond_wait_return_ok:
  assumes "cond_inv N s" "t < N" "cd_pc s t = C_Locking"
  shows "cond_inv N (cond_wait_return t s)"
  using cond_move_ok [OF assms(1,2), of C_Idle "cd_internal s"] assms cond_invD(2,5) [OF assms(1)] internals_okD [OF cond_invD(5) [OF assms(1)], of t]
  by (simp add: cond_wait_return_def internals_ok_goto)

lemma cond_lock_ok:
  assumes inv: "cond_inv N s" and N: "2 * N < 2 ^ 32" and t: "t < N" "cd_pc s t = C_Idle" and p: "p = C_Signal \<or> p = C_Broadcast"
  shows "cond_inv N (cond_lock t p s)"
proof -
  note D = cond_invD [OF inv]
  have idle: "mu_pc (cd_internal s) t = M_Idle"
    using internals_okD [OF D(5), of t] t(2) by simp
  have "internals_ok ((cd_pc s)(t := p)) (mu_pc (fiber_mutex_lock t (cd_internal s)))"
    using D(5) p by (auto simp: internals_ok_def lock_pc)
  moreover have "mutex_inv N (fiber_mutex_lock t (cd_internal s))"
    using mutex_lock_inv [OF D(2) _ t(1) idle] N by simp
  ultimately show ?thesis
    unfolding cond_lock_def using cond_move_ok [OF inv t(1), of p] t(2) p by auto
qed

text \<open>The fiber that holds the internal mutex is the only one with a wake-up or a correction of the count to perform.\<close>

lemma alone:
  assumes inv: "cond_inv N s" and t: "mu_pc (cd_internal s) t = M_Held" and u: "u \<noteq> t"
  shows "c_wakes (cd_pc s u) = 0" "c_restores (cd_pc s u) = 0"
proof -
  have "mu_pc (cd_internal s) u \<noteq> M_Held"
    using mutex_inv_exclusive [OF cond_invD(2) [OF inv], of t u] t u by auto
  then show "c_wakes (cd_pc s u) = 0" "c_restores (cd_pc s u) = 0"
    using internals_okD [OF cond_invD(5) [OF inv], of u] by (cases "cd_pc s u"; simp)+
qed

lemma weight_alone: "t < N \<Longrightarrow> (\<And>u. u \<noteq> t \<Longrightarrow> f (pc u) = 0) \<Longrightarrow> weight N f pc = f (pc t)"
  by (simp add: weight_def sum.remove [of "{..<N}" t])

lemma counts_alone:
  assumes inv: "cond_inv N s" and t: "t < N" "mu_pc (cd_internal s) t = M_Held"
  shows "cd_granted s = length (cd_woken s) + c_wakes (cd_pc s t)" "cd_granted s \<le> length (cd_waited s)"
    "cd_waiter_count s + int (c_restores (cd_pc s t)) + int (cd_granted s) = int (length (cd_waited s))"
  using cond_invD(7) [OF inv] weight_alone [OF t(1), of c_wakes "cd_pc s"] weight_alone [OF t(1), of c_restores "cd_pc s"] alone [OF inv t(2)]
  by (auto simp: counts_ok_def)

lemma internals_goto_held:
  "cond_inv N s \<Longrightarrow> mu_pc (cd_internal s) t = M_Held \<Longrightarrow> internal_ok p M_Held \<Longrightarrow> internals_ok ((cd_pc s)(t := p)) (mu_pc (cd_internal s))"
  using cond_invD(5) by (metis internals_ok_goto)

lemma cond_signal_ok:
  assumes inv: "cond_inv N s" and t: "t < N" "cd_pc s t = C_Signal" "mu_pc (cd_internal s) t = M_Held"
  shows "cond_inv N (fiber_cond_signal t s)"
proof (cases "cd_waiter_count s - 1 \<ge> 0")
  case True
  have "cond_inv N (s\<lparr>cd_internal := cd_internal s, cd_waiter_count := cd_waiter_count s - 1, cd_granted := cd_granted s + 1, cd_log := cd_log s @ [Signals],
      cd_pc := (cd_pc s)(t := C_Wake 1)\<rparr>)"
    using inv t(1) by (rule cond_goto_ok)
      (use t True counts_alone [OF inv t(1,3)] cond_invD(2,8) [OF inv] internals_goto_held [OF inv t(3)] in \<open>auto simp: cond_spec_snoc\<close>)
  with True show ?thesis
    by (simp add: fiber_cond_signal_def)
next
  case False
  have "cond_inv N (s\<lparr>cd_internal := cd_internal s, cd_waiter_count := cd_waiter_count s - 1, cd_granted := cd_granted s, cd_log := cd_log s @ [Signals],
      cd_pc := (cd_pc s)(t := C_Restore)\<rparr>)"
    using inv t(1) by (rule cond_goto_ok)
      (use t False counts_alone [OF inv t(1,3)] cond_invD(2,8) [OF inv] internals_goto_held [OF inv t(3)] in \<open>auto simp: cond_spec_snoc\<close>)
  with False show ?thesis
    by (simp add: fiber_cond_signal_def)
qed

lemma cond_restore_ok:
  assumes inv: "cond_inv N s" and t: "t < N" "cd_pc s t = C_Restore"
  shows "\<exists>s'. cond_restore t s = Some s' \<and> cond_inv N s'"
proof -
  have held: "mu_pc (cd_internal s) t = M_Held"
    using internals_okD [OF cond_invD(5) [OF inv], of t] t(2) by simp
  note c = counts_alone [OF inv t(1) held, unfolded t(2)]
  have "cond_inv N (s\<lparr>cd_internal := cd_internal s, cd_waiter_count := cd_waiter_count s + 1, cd_granted := cd_granted s, cd_log := cd_log s,
      cd_pc := (cd_pc s)(t := C_Unlock)\<rparr>)"
    using inv t(1) by (rule cond_goto_ok)
      (use t c cond_invD(2,8) [OF inv] internals_goto_held [OF inv held] in auto)
  moreover have "cd_waiter_count s + 1 \<ge> 0"
    using c by simp
  ultimately show ?thesis
    by (simp add: cond_restore_def)
qed

lemma cond_broadcast_ok:
  assumes inv: "cond_inv N s" and t: "t < N" "cd_pc s t = C_Broadcast" "mu_pc (cd_internal s) t = M_Held"
  shows "cond_inv N (fiber_cond_broadcast t s)"
proof -
  let ?p = "if cd_waiter_count s \<noteq> 0 then C_Wake (nat (cd_waiter_count s)) else C_Unlock"
  note c = counts_alone [OF inv t(1,3), unfolded t(2)]
  have "cond_inv N (s\<lparr>cd_internal := cd_internal s, cd_waiter_count := 0, cd_granted := cd_granted s + nat (cd_waiter_count s), cd_log := cd_log s @ [Broadcasts],
      cd_pc := (cd_pc s)(t := ?p)\<rparr>)"
    using inv t(1) by (rule cond_goto_ok)
      (use t c cond_invD(2,8) [OF inv] in \<open>auto simp: cond_spec_snoc intro!: internals_goto_held [OF inv t(3)]\<close>)
  then show ?thesis
    by (simp only: fiber_cond_broadcast_def Let_def) simp
qed

lemma cond_wake_pop_ok:
  assumes inv: "cond_inv N s" and t: "t < N" "cd_pc s t = C_Wake n"
  shows "cond_inv N (cond_wake_pop t n s)"
proof (cases "cd_queue s")
  case (Cons u q)
  note D = cond_invD [OF inv]
  have held: "mu_pc (cd_internal s) t = M_Held" "0 < n"
    using internals_okD [OF D(5), of t] t(2) by simp_all
  have u: "cd_pc s u = C_Asleep" "u \<notin> set q" "distinct q"
    using D(6) Cons by (auto simp: waiters_ok_def)
  then have "u < N" using D(3) [of u] by (metis cond_pc.distinct(3) leI)
  let ?p = "if n = 1 then C_Unlock else C_Wake (n - 1)" and ?pc = "(cd_pc s)(u := C_Relock)"
  have ne: "u \<noteq> t" using u t by auto
  have counts: "counts_ok N (?pc(t := ?p)) (length (cd_waited s)) (length (cd_woken s @ [u])) (cd_granted s) (cd_waiter_count s)"
  proof (rule counts_ok_goto)
    show "counts_ok N ?pc (length (cd_waited s)) (length (cd_woken s)) (cd_granted s) (cd_waiter_count s)"
      using D(7) by (rule counts_ok_goto) (use \<open>u < N\<close> u D(7) in \<open>auto simp: counts_ok_def\<close>)
  qed (use t ne held D(7) in \<open>auto simp: counts_ok_def\<close>)
  have "waiters_ok ?pc (cd_waited s) (cd_woken s @ [u]) q"
    using D(6) Cons u by (auto simp: waiters_ok_def)
  then have "waiters_ok (?pc(t := ?p)) (cd_waited s) (cd_woken s @ [u]) q"
    by (rule waiters_ok_goto) (use t ne in auto)
  moreover have "callers_ok (?pc(t := ?p)) (cd_unlocking s) (mu_pc (cd_caller s))"
    using callers_okD [OF D(4), of t] callers_okD [OF D(4), of u] t u ne by (intro callers_ok_goto D(4)) auto
  moreover have "internals_ok (?pc(t := ?p)) (mu_pc (cd_internal s))"
    using internals_okD [OF D(5), of u] u held by (intro internals_ok_goto D(5)) auto
  ultimately show ?thesis
    using D counts Cons t \<open>u < N\<close> by (auto simp: cond_wake_pop_def intro!: cond_invI)
qed (use inv in \<open>simp add: cond_wake_pop_def\<close>)

lemma cond_unlock_ok:
  assumes inv: "cond_inv N s" and N: "2 * N < 2 ^ 32" and t: "t < N" "cd_pc s t = C_Unlock"
  shows "cond_inv N (cond_unlock t s)"
proof -
  note D = cond_invD [OF inv]
  have held: "mu_pc (cd_internal s) t = M_Held"
    using internals_okD [OF D(5), of t] t(2) by simp
  have "internals_ok ((cd_pc s)(t := C_Unlocking)) (mu_pc (fiber_mutex_unlock_internal t (cd_internal s)))"
    using D(5) by (auto simp: internals_ok_def unlock_pc)
  moreover have "mutex_inv N (fiber_mutex_unlock_internal t (cd_internal s))"
    using mutex_unlock_inv [OF D(2) _ t(1) held] N by simp
  ultimately show ?thesis
    unfolding cond_unlock_def using cond_move_ok [OF inv t(1), of C_Unlocking] t(2) by auto
qed

lemma cond_return_ok:
  assumes "cond_inv N s" "t < N" "cd_pc s t = C_Unlocking"
  shows "cond_inv N (cond_return t s)"
  using cond_move_ok [OF assms(1,2), of C_Idle "cd_internal s"] assms cond_invD(2,5) [OF assms(1)]
  by (simp add: cond_return_def internals_ok_goto)

lemma cond_own_step_ok:
  assumes "cond_inv N s" "2 * N < 2 ^ 32" "t < N"
  shows "\<exists>s'. cond_own_step t s = Some s' \<and> cond_inv N s'"
  using assms
  by (cases "cd_pc s t")
    (simp_all add: cond_own_step_def cond_wait_push_ok cond_wait_relock_ok cond_wait_return_ok cond_signal_ok cond_broadcast_ok
      cond_restore_ok cond_wake_pop_ok cond_unlock_ok cond_return_ok)

lemma caller_call_ok:
  assumes "cond_inv N s" "2 * N < 2 ^ 32" "t < N" "cd_pc s t = C_Idle"
  shows "\<exists>s'. on_caller (Lock (2 * t)) s = Some s' \<and> cond_inv N s'" "\<exists>s'. on_caller (Unlock (2 * t)) s = Some s' \<and> cond_inv N s'"
    "\<exists>s'. on_caller (Trylock (2 * t) sp) s = Some s' \<and> cond_inv N s'"
  by (rule caller_step_ok [OF assms(1,2)]; use assms(3,4) in auto)+

lemma cond_step_ok:
  assumes "cond_inv N s" "2 * N < 2 ^ 32" "cond_fiber a < N"
  shows "\<exists>s'. cond_step a s = Some s' \<and> cond_inv N s'"
  using assms
  by (cases a) (simp_all add: caller_call_ok caller_step_ok internal_step_ok cond_wait_ok cond_lock_ok cond_own_step_ok cond_wait_unlock_ok)

interpretation cond_machine: machine cond_step "\<lambda>a. cond_fiber a < N" "\<lambda>_ s. 2 * N < 2 ^ 32 \<and> cond_inv N s" for N
  by unfold_locales (use cond_step_ok in blast)

lemma cond_init_inv: "cond_inv N cond_sys_init"
  using mutex_sys_init_inv
  by (simp add: cond_inv_def cond_sys_init_def callers_ok_def internals_ok_def waiters_ok_def counts_ok_def cond_spec_def)
    (simp add: mutex_sys_init_def)

section \<open>Properties\<close>

lemma waiters_unwoken:
  assumes "waiters_ok pc waited woken q"
  shows "woken = take (length woken) waited" "set (drop (length woken) waited) = {t. pc t = C_Counted \<or> pc t = C_Asleep}"
  using assms by (auto simp: waiters_ok_def)

text \<open>C9. The condition variable, with fewer than \<open>2 ^ 31\<close> fibers, under every interleaving of its callers, of the maintenance that unlocks the mutex of a waiting fiber, and of both mutexes.
  No assertion fails.  Fibers are woken in the order in which they waited, and never one that was not granted a wake-up; grants follow
  the specification: a signal grants one wake-up to the next waiting fiber if there is one, a broadcast one to every fiber that waits.  The
  fibers that wait are exactly those not woken yet; a fiber that still has to wake others will find them; and once no
  fiber signals, everyone who was granted a wake-up is awake and the count is the number of those who wait.
\<close>

theorem cond_correct:
  assumes "2 * N < 2 ^ 32" "\<forall>a \<in> set acts. cond_fiber a < N"
  shows "\<exists>s. cond_run acts cond_sys_init = Some s \<and>
     cond_spec (cd_log s) = (cd_waited s, cd_granted s) \<and>
     cd_woken s = take (length (cd_woken s)) (cd_waited s) \<and> length (cd_woken s) \<le> cd_granted s \<and>
     (\<forall>t. cd_pc s t \<in> {C_Counted, C_Asleep} \<longleftrightarrow> t \<in> set (drop (length (cd_woken s)) (cd_waited s))) \<and>
     (\<forall>t n. cd_pc s t = C_Wake n \<longrightarrow> n \<le> length (drop (length (cd_woken s)) (cd_waited s))) \<and>
     ((\<forall>t. cd_pc s t \<noteq> C_Restore \<and> (\<forall>n. cd_pc s t \<noteq> C_Wake n)) \<longrightarrow>
        cd_woken s = take (cd_granted s) (cd_waited s) \<and> cd_waiter_count s = int (length (cd_waited s) - cd_granted s))"
proof -
  obtain s where run: "cond_run acts cond_sys_init = Some s" and inv: "cond_inv N s"
    using cond_machine.run_ok [where N = N and as = acts and s = cond_sys_init] assms cond_init_inv [of N] by auto
  note D = cond_invD [OF inv]
  note W = waiters_unwoken [OF D(6)]
  have C: "cd_granted s = length (cd_woken s) + weight N c_wakes (cd_pc s)" "cd_granted s \<le> length (cd_waited s)"
    "cd_waiter_count s + int (weight N c_restores (cd_pc s)) + int (cd_granted s) = int (length (cd_waited s))"
    using D(7) by (simp_all add: counts_ok_def)
  have waking: "n \<le> length (drop (length (cd_woken s)) (cd_waited s))" if "cd_pc s t = C_Wake n" for t n
  proof -
    have "t < N" using D(3) [of t] that by (metis cond_pc.distinct(15) leI)
    then have "n \<le> weight N c_wakes (cd_pc s)"
      using weight_ge [of t N c_wakes "cd_pc s"] that by simp
    with C show ?thesis by simp
  qed
  have quiet: "cd_woken s = take (cd_granted s) (cd_waited s) \<and> cd_waiter_count s = int (length (cd_waited s) - cd_granted s)"
    if q: "\<forall>t. cd_pc s t \<noteq> C_Restore \<and> (\<forall>n. cd_pc s t \<noteq> C_Wake n)"
  proof -
    have "c_wakes (cd_pc s t) = 0" "c_restores (cd_pc s t) = 0" for t
      using q by (cases "cd_pc s t"; simp; metis)+
    with C W(1) show ?thesis by (simp add: of_nat_diff)
  qed
  show ?thesis
    using run D(8) W C(1) waking quiet by (intro exI [of _ s]) auto
qed

definition demo_cond :: "cond_act list" where
  "demo_cond = [Caller_Lock 0, Cond_Wait 0, Cond_Step 0, Cond_Unlock 0, Caller_Lock 1, Cond_Wait 1, Cond_Step 1, Cond_Unlock 1,
     Cond_Signal 2, Cond_Step 2, Cond_Step 2, Cond_Step 2, Cond_Step 2]"

theorem cond_correct_witness:
  "\<exists>s. cond_run demo_cond cond_sys_init = Some s \<and> cond_spec (cd_log s) = (cd_waited s, cd_granted s) \<and> cd_waited s = [0, 1] \<and> cd_woken s = [0]"
proof -
  have "cond_run demo_cond cond_sys_init \<noteq> None \<and> cd_waited (the (cond_run demo_cond cond_sys_init)) = [0, 1] \<and>
      cd_woken (the (cond_run demo_cond cond_sys_init)) = [0]"
    by code_simp
  moreover have "\<forall>a \<in> set demo_cond. cond_fiber a < 3"
    by (simp add: demo_cond_def)
  ultimately show ?thesis
    using cond_correct [of 3 demo_cond] by auto
qed

end
