(* ===== verification/Work_Queue.thy ===== *)
theory Work_Queue
  imports Mpsc_Fifo Step_Machine
begin

text \<open>
  \<open>src/work_queue.c\<close>: threads push items; the one that finds the count of items at zero becomes the worker and takes items until it finds the
  queue empty.  Every access to the counts, the exchange and the link of a push, and a pop are steps.  The queue is the list of
  the items whose exchange has taken effect, each with its pusher and whether it is linked: a pop sees the first item
  only when it is linked.  The counts have 64 bits.
\<close>

record work_queue =
  wq_fifo :: mpsc_fifo
  wq_in_count :: "64 word"
  wq_out_count :: "64 word"

definition work_queue_init :: "mpsc_heap \<Rightarrow> addr \<Rightarrow> mpsc_heap \<times> work_queue \<times> int" where
  "work_queue_init h a =
     (case mpsc_fifo_init h a of (h', f, r) \<Rightarrow> (h', \<lparr>wq_fifo = f, wq_in_count = 0, wq_out_count = 0\<rparr>, if r = 0 then 0 else 1))"

definition work_queue_destroy :: "mpsc_heap \<Rightarrow> work_queue option \<Rightarrow> mpsc_heap option" where
  "work_queue_destroy h wq =
     (case wq of None \<Rightarrow> Some h | Some q \<Rightarrow> do { (h', _) \<leftarrow> mpsc_fifo_destroy h (wq_fifo q); Some h' })"

section \<open>Threads\<close>

text \<open>A position, and whether the thread is the worker.\<close>

datatype wq_pc = Q_Idle | Q_Exchange nat bool | Q_Link bool | Q_Pop | Q_Got | Q_Compare | Q_Reset | Q_Sub "64 word"

type_synonym wq_thread = "wq_pc \<times> bool"

record wq_sys =
  ws_in :: "64 word"
  ws_out :: "64 word"
  ws_queue :: "(nat \<times> nat \<times> bool) list"
  ws_thread :: "nat \<Rightarrow> wq_thread"
  ws_pushed :: "nat list"
  ws_got :: "nat list"

abbreviation wq_goto :: "nat \<Rightarrow> wq_thread \<Rightarrow> wq_sys \<Rightarrow> wq_sys" where
  "wq_goto t th s \<equiv> s\<lparr>ws_thread := (ws_thread s)(t := th)\<rparr>"

text \<open>\<open>work_queue_push\<close>: the increment decides whether \<open>WORK_QUEUE_START_WORKING\<close> will be returned; then the push.\<close>

definition work_queue_push :: "nat \<Rightarrow> nat \<Rightarrow> wq_sys \<Rightarrow> wq_sys" where
  "work_queue_push t item s =
     (let in_count = ws_in s + 1
      in wq_goto t (Q_Exchange item (in_count = 1), snd (ws_thread s t)) (s\<lparr>ws_in := in_count\<rparr>))"

definition work_queue_push_step :: "nat \<Rightarrow> wq_sys \<Rightarrow> wq_sys" where
  "work_queue_push_step t s =
     (case ws_thread s t of (pc, w) \<Rightarrow>
        case pc of
          Q_Exchange item start \<Rightarrow>
            wq_goto t (Q_Link start, w) (s\<lparr>ws_queue := ws_queue s @ [(t, item, False)], ws_pushed := ws_pushed s @ [item]\<rparr>)
        | Q_Link start \<Rightarrow>
            wq_goto t (Q_Idle, start \<or> w) (s\<lparr>ws_queue := map (\<lambda>(u, i, l). (u, i, l \<or> u = t)) (ws_queue s)\<rparr>)
        | _ \<Rightarrow> s)"

text \<open>\<open>work_queue_get_work\<close>; \<open>WORK_QUEUE_EMPTY\<close> ends the work.\<close>

definition work_queue_get_work_step :: "nat \<Rightarrow> wq_sys \<Rightarrow> wq_sys" where
  "work_queue_get_work_step t s =
     (case ws_thread s t of (pc, w) \<Rightarrow>
        case pc of
          Q_Pop \<Rightarrow>
            (case ws_queue s of
               (u, item, True) # q \<Rightarrow> wq_goto t (Q_Got, w) (s\<lparr>ws_queue := q, ws_got := ws_got s @ [item]\<rparr>)
             | _ \<Rightarrow> wq_goto t (Q_Compare, w) s)
        | Q_Got \<Rightarrow> wq_goto t (Q_Idle, w) (s\<lparr>ws_out := ws_out s + 1\<rparr>)
        | Q_Compare \<Rightarrow> wq_goto t (if ws_out s = ws_in s then Q_Reset else Q_Pop, w) s
        | Q_Reset \<Rightarrow> wq_goto t (Q_Sub (ws_out s), w) (s\<lparr>ws_out := 0\<rparr>)
        | Q_Sub old_out_count \<Rightarrow>
            (let new_in_count = ws_in s - old_out_count
             in wq_goto t (if new_in_count = 0 then (Q_Idle, False) else (Q_Pop, w)) (s\<lparr>ws_in := new_in_count\<rparr>))
        | _ \<Rightarrow> s)"

datatype wq_act = Wq_Push nat nat | Wq_Get_Work nat | Wq_Step nat

fun wq_act_thread :: "wq_act \<Rightarrow> nat" where
  "wq_act_thread (Wq_Push t i) = t" | "wq_act_thread (Wq_Get_Work t) = t" | "wq_act_thread (Wq_Step t) = t"

fun wq_step :: "wq_act \<Rightarrow> wq_sys \<Rightarrow> wq_sys option" where
  "wq_step (Wq_Push t item) s = Some (if fst (ws_thread s t) = Q_Idle then work_queue_push t item s else s)"
| "wq_step (Wq_Get_Work t) s = Some (if ws_thread s t = (Q_Idle, True) then wq_goto t (Q_Pop, True) s else s)"
| "wq_step (Wq_Step t) s =
     Some (case fst (ws_thread s t) of
             Q_Idle \<Rightarrow> s
           | Q_Exchange item start \<Rightarrow> work_queue_push_step t s
           | Q_Link start \<Rightarrow> work_queue_push_step t s
           | _ \<Rightarrow> work_queue_get_work_step t s)"

abbreviation wq_run :: "wq_act list \<Rightarrow> wq_sys \<Rightarrow> wq_sys option" where
  "wq_run \<equiv> run_steps wq_step"

definition wq_sys_init :: wq_sys where
  "wq_sys_init = \<lparr>ws_in = 0, ws_out = 0, ws_queue = [], ws_thread = (\<lambda>_. (Q_Idle, False)), ws_pushed = [], ws_got = []\<rparr>"

section \<open>The invariant\<close>

text \<open>A thread with the token is the worker or is about to become it.\<close>

fun wq_starts :: "wq_pc \<Rightarrow> bool" where
  "wq_starts (Q_Exchange i b) = b" | "wq_starts (Q_Link b) = b" | "wq_starts _ = False"

definition wq_token :: "wq_thread \<Rightarrow> nat" where
  "wq_token th = (if snd th \<or> wq_starts (fst th) then 1 else 0)"

fun wq_works :: "wq_pc \<Rightarrow> bool" where
  "wq_works Q_Idle = False" | "wq_works (Q_Exchange i b) = False" | "wq_works (Q_Link b) = False" | "wq_works _ = True"

text \<open>What a thread still owes to the counts.\<close>

fun wq_owes :: "wq_pc \<Rightarrow> nat" where
  "wq_owes (Q_Exchange i b) = 1" | "wq_owes Q_Got = 1" | "wq_owes (Q_Sub old) = unat old" | "wq_owes _ = 0"

definition wq_balance :: "nat \<Rightarrow> wq_sys \<Rightarrow> nat" where
  "wq_balance N s = unat (ws_out s) + length (ws_queue s) + weight N (\<lambda>th. wq_owes (fst th)) (ws_thread s)"

definition wq_inv :: "nat \<Rightarrow> nat \<Rightarrow> wq_sys \<Rightarrow> bool" where
  "wq_inv N k s \<longleftrightarrow>
     unat (ws_in s) = wq_balance N s \<and> unat (ws_in s) + k < 2 ^ 64 \<and>
     weight N wq_token (ws_thread s) = (if ws_in s = 0 then 0 else 1) \<and>
     (\<forall>t. wq_works (fst (ws_thread s t)) \<longrightarrow> snd (ws_thread s t)) \<and>
     ws_pushed s = ws_got s @ map (fst \<circ> snd) (ws_queue s) \<and>
     (\<forall>u i. (u, i, False) \<in> set (ws_queue s) \<longrightarrow> (\<exists>b. fst (ws_thread s u) = Q_Link b)) \<and>
     (\<forall>t \<ge> N. ws_thread s t = (Q_Idle, False))"

text \<open>A step of thread \<open>t\<close>: the counts balance when the changes of the step do.\<close>

lemma wq_inv_move:
  assumes inv: "wq_inv N (Suc k) s" and t: "t < N"
    and bal: "unat c + unat (ws_out s) + length (ws_queue s) + wq_owes (fst (ws_thread s t)) =
              unat (ws_in s) + unat d + length q + wq_owes (fst th)"
    and bound: "unat c \<le> Suc (unat (ws_in s))"
    and token: "(if c = 0 then 0 else 1) + wq_token (ws_thread s t) = (if ws_in s = 0 then 0 else 1) + wq_token th"
    and works: "wq_works (fst th) \<Longrightarrow> snd th"
    and queue: "pd = gt @ map (fst \<circ> snd) q"
    and links: "\<And>u i. (u, i, False) \<in> set q \<Longrightarrow> if u = t then (\<exists>b. fst th = Q_Link b) else (u, i, False) \<in> set (ws_queue s)"
  shows "wq_inv N k (wq_goto t th (s\<lparr>ws_in := c, ws_out := d, ws_queue := q, ws_pushed := pd, ws_got := gt\<rparr>))"
proof -
  let ?s = "wq_goto t th (s\<lparr>ws_in := c, ws_out := d, ws_queue := q, ws_pushed := pd, ws_got := gt\<rparr>)"
  note w = weight_upd [OF t, of "\<lambda>th. wq_owes (fst th)" "ws_thread s" th] weight_upd [OF t, of wq_token "ws_thread s" th]
  have "unat c = wq_balance N ?s"
    using inv bal w(1) by (simp add: wq_inv_def wq_balance_def)
  moreover have "unat c + k < 2 ^ 64"
    using inv bound by (simp add: wq_inv_def)
  moreover have "weight N wq_token (ws_thread ?s) = (if c = 0 then 0 else 1)"
    using inv token w(2) by (simp add: wq_inv_def)
  moreover have "\<exists>b. fst (ws_thread ?s u) = Q_Link b" if "(u, i, False) \<in> set q" for u i
    using links [OF that] inv by (auto simp: wq_inv_def split: if_splits)
  ultimately show ?thesis
    using inv t works queue unfolding wq_inv_def by auto
qed

lemma wq_invD:
  assumes "wq_inv N k s"
  shows "unat (ws_in s) = wq_balance N s" "unat (ws_in s) + k < 2 ^ 64" "weight N wq_token (ws_thread s) = (if ws_in s = 0 then 0 else 1)"
    "wq_works (fst (ws_thread s t)) \<Longrightarrow> snd (ws_thread s t)" "ws_pushed s = ws_got s @ map (fst \<circ> snd) (ws_queue s)"
    "(u, i, False) \<in> set (ws_queue s) \<Longrightarrow> \<exists>b. fst (ws_thread s u) = Q_Link b" "t \<ge> N \<Longrightarrow> ws_thread s t = (Q_Idle, False)"
  using assms unfolding wq_inv_def by blast+

lemma wq_inv_less: "wq_inv N (Suc k) s \<Longrightarrow> wq_inv N k s"
  by (simp add: wq_inv_def)

lemma wq_owes_le: "wq_inv N k s \<Longrightarrow> t < N \<Longrightarrow> unat (ws_out s) + wq_owes (fst (ws_thread s t)) \<le> unat (ws_in s)"
  using wq_invD(1) [of N k s] weight_ge [of t N "\<lambda>th. wq_owes (fst th)" "ws_thread s"] by (simp add: wq_balance_def)

lemma wq_unlinked_other: "wq_inv N k s \<Longrightarrow> (\<And>b. fst (ws_thread s t) \<noteq> Q_Link b) \<Longrightarrow> (t, i, False) \<notin> set (ws_queue s)"
  using wq_invD(6) by blast

lemma wq_token_in: "wq_inv N k s \<Longrightarrow> t < N \<Longrightarrow> snd (ws_thread s t) \<Longrightarrow> ws_in s \<noteq> 0"
  using weight_ge [of t N wq_token "ws_thread s"] by (auto simp: wq_inv_def wq_token_def split: if_splits)

lemma push_ok:
  assumes inv: "wq_inv N (Suc k) s" and t: "t < N" "fst (ws_thread s t) = Q_Idle"
  shows "wq_inv N k (work_queue_push t item s)"
proof -
  have u: "unat (ws_in s + 1) = Suc (unat (ws_in s))"
    using wq_invD(2) [OF inv] by (intro unat_Suc64) simp
  then have ne: "ws_in s + 1 \<noteq> 0" "ws_in s + 1 = 1 \<longleftrightarrow> ws_in s = 0"
    by auto
  have "wq_inv N k (wq_goto t (Q_Exchange item (ws_in s + 1 = 1), snd (ws_thread s t))
      (s\<lparr>ws_in := ws_in s + 1, ws_out := ws_out s, ws_queue := ws_queue s, ws_pushed := ws_pushed s, ws_got := ws_got s\<rparr>))"
    using inv t(1)
  proof (rule wq_inv_move)
    show "(if ws_in s + 1 = 0 then 0 else 1) + wq_token (ws_thread s t) =
        (if ws_in s = 0 then 0 else 1) + wq_token (Q_Exchange item (ws_in s + 1 = 1), snd (ws_thread s t))"
      using wq_token_in [OF inv t(1)] t(2) ne by (auto simp: wq_token_def)
  qed (use t u wq_invD [OF inv] wq_unlinked_other [OF inv, of t] in auto)
  then show ?thesis
    by (simp add: work_queue_push_def Let_def)
qed

lemma push_step_ok:
  assumes inv: "wq_inv N (Suc k) s" and t: "t < N"
  shows "wq_inv N k (work_queue_push_step t s)"
proof -
  obtain pc w where th: "ws_thread s t = (pc, w)" by fastforce
  note D = wq_invD [OF inv]
  show ?thesis
  proof (cases pc)
    case (Q_Exchange item start)
    have "wq_inv N k (wq_goto t (Q_Link start, w) (s\<lparr>ws_in := ws_in s, ws_out := ws_out s,
        ws_queue := ws_queue s @ [(t, item, False)], ws_pushed := ws_pushed s @ [item], ws_got := ws_got s\<rparr>))"
      using inv t by (rule wq_inv_move) (use th Q_Exchange D in \<open>auto simp: wq_token_def split: if_splits\<close>)
    with th Q_Exchange show ?thesis by (simp add: work_queue_push_step_def)
  next
    case (Q_Link start)
    have "wq_inv N k (wq_goto t (Q_Idle, start \<or> w) (s\<lparr>ws_in := ws_in s, ws_out := ws_out s,
        ws_queue := map (\<lambda>(u, i, l). (u, i, l \<or> u = t)) (ws_queue s), ws_pushed := ws_pushed s, ws_got := ws_got s\<rparr>))"
      using inv t by (rule wq_inv_move) (use th Q_Link D in \<open>auto simp: wq_token_def comp_def case_prod_beta split: if_splits\<close>)
    with th Q_Link show ?thesis by (simp add: work_queue_push_step_def)
  qed (use wq_inv_less [OF inv] th in \<open>simp_all add: work_queue_push_step_def\<close>)
qed

lemma get_work_step_ok:
  assumes inv: "wq_inv N (Suc k) s" and t: "t < N"
  shows "wq_inv N k (work_queue_get_work_step t s)"
proof -
  obtain pc w where th: "ws_thread s t = (pc, w)" by fastforce
  note D = wq_invD [OF inv]
  let ?set = "\<lambda>th c d q pd gt. wq_goto t th (s\<lparr>ws_in := c, ws_out := d, ws_queue := q, ws_pushed := pd, ws_got := gt\<rparr>)"
  have alone: "(t, i, False) \<notin> set (ws_queue s)" if "wq_works pc" for i
    using wq_unlinked_other [OF inv, of t] th that by (metis fst_conv wq_works.simps(3))
  have stay: "wq_inv N k (?set (pc', w) (ws_in s) (ws_out s) (ws_queue s) (ws_pushed s) (ws_got s))"
    if "wq_works pc" "wq_owes pc = 0" "wq_works pc'" "wq_owes pc' = 0" for pc'
    using inv t by (rule wq_inv_move)
      (use that th D(4) [of t] D(5) alone in \<open>auto simp: wq_token_def split: if_splits\<close>)
  show ?thesis
  proof (cases pc)
    case Q_Pop
    show ?thesis
    proof (cases "\<exists>u item q. ws_queue s = (u, item, True) # q")
      case True
      then obtain u item q where q: "ws_queue s = (u, item, True) # q" by blast
      have "wq_inv N k (?set (Q_Got, w) (ws_in s) (ws_out s) q (ws_pushed s) (ws_got s @ [item]))"
        using inv t by (rule wq_inv_move) (use Q_Pop th D(4) [of t] D(5) alone q in \<open>auto simp: wq_token_def split: if_splits\<close>)
      with q Q_Pop th show ?thesis by (simp add: work_queue_get_work_step_def)
    next
      case False
      then have "work_queue_get_work_step t s = wq_goto t (Q_Compare, w) s"
        using Q_Pop th by (auto simp: work_queue_get_work_step_def split: list.splits prod.splits bool.splits)
      with stay [of Q_Compare] Q_Pop show ?thesis by simp
    qed
  next
    case Q_Got
    have "unat (ws_out s + 1) = Suc (unat (ws_out s))"
      using wq_owes_le [OF inv t] D(2) th Q_Got by (intro unat_Suc64) simp
    then have "wq_inv N k (?set (Q_Idle, w) (ws_in s) (ws_out s + 1) (ws_queue s) (ws_pushed s) (ws_got s))"
      by (intro wq_inv_move [OF inv t]) (use Q_Got th D(4) [of t] D(5) alone in \<open>auto simp: wq_token_def split: if_splits\<close>)
    with Q_Got th show ?thesis by (simp add: work_queue_get_work_step_def)
  next
    case Q_Compare
    with stay [of Q_Reset] stay [of Q_Pop] th show ?thesis by (simp add: work_queue_get_work_step_def)
  next
    case Q_Reset
    have "wq_inv N k (?set (Q_Sub (ws_out s), w) (ws_in s) 0 (ws_queue s) (ws_pushed s) (ws_got s))"
      by (intro wq_inv_move [OF inv t]) (use Q_Reset th D(4) [of t] D(5) alone in \<open>auto simp: wq_token_def split: if_splits\<close>)
    with Q_Reset th show ?thesis by (simp add: work_queue_get_work_step_def)
  next
    case (Q_Sub old)
    let ?c = "ws_in s - old"
    have w: "w" "ws_in s \<noteq> 0"
      using D(4) [of t] Q_Sub th wq_token_in [OF inv t] by simp_all
    have "unat old \<le> unat (ws_in s)"
      using wq_owes_le [OF inv t] th Q_Sub by simp
    then have u: "unat ?c = unat (ws_in s) - unat old" "unat old \<le> unat (ws_in s)"
      by (simp_all add: unat_sub word_le_nat_alt)
    have "wq_inv N k (?set (if ?c = 0 then (Q_Idle, False) else (Q_Pop, w)) ?c (ws_out s) (ws_queue s) (ws_pushed s) (ws_got s))"
      by (intro wq_inv_move [OF inv t]) (use Q_Sub th D(5) alone u w in \<open>auto simp: wq_token_def split: if_splits\<close>)
    with Q_Sub th show ?thesis by (simp add: work_queue_get_work_step_def Let_def)
  qed (use wq_inv_less [OF inv] th in \<open>simp_all add: work_queue_get_work_step_def\<close>)
qed

lemma get_work_ok:
  assumes inv: "wq_inv N (Suc k) s" and t: "t < N" "ws_thread s t = (Q_Idle, True)"
  shows "wq_inv N k (wq_goto t (Q_Pop, True) s)"
proof -
  have "wq_inv N k (wq_goto t (Q_Pop, True)
      (s\<lparr>ws_in := ws_in s, ws_out := ws_out s, ws_queue := ws_queue s, ws_pushed := ws_pushed s, ws_got := ws_got s\<rparr>))"
    by (intro wq_inv_move [OF inv t(1)])
      (use t wq_invD(5) [OF inv] wq_unlinked_other [OF inv, of t] in \<open>auto simp: wq_token_def split: if_splits\<close>)
  then show ?thesis by simp
qed

lemma wq_step_ok:
  assumes inv: "wq_inv N (Suc k) s" and t: "wq_act_thread a < N"
  shows "\<exists>s'. wq_step a s = Some s' \<and> wq_inv N k s'"
proof (cases a)
  case (Wq_Step u)
  with t push_step_ok [OF inv, of u] get_work_step_ok [OF inv, of u] wq_inv_less [OF inv] show ?thesis
    by (cases "fst (ws_thread s u)") simp_all
qed (use t push_ok [OF inv] get_work_ok [OF inv] wq_inv_less [OF inv] in auto)

interpretation wq_machine: machine wq_step "\<lambda>a. wq_act_thread a < N" "wq_inv N" for N
  by unfold_locales (use wq_step_ok in blast)

lemma wq_init_inv: "k < 2 ^ 64 \<Longrightarrow> wq_inv N k wq_sys_init"
  by (simp add: wq_inv_def wq_sys_init_def wq_balance_def wq_token_def)

section \<open>Properties\<close>

lemma wq_token_unique:
  assumes inv: "wq_inv N k s" and t: "0 < wq_token (ws_thread s t)" and u: "0 < wq_token (ws_thread s u)"
  shows "t = u"
proof (rule ccontr)
  assume ne: "t \<noteq> u"
  have "x < N" if "0 < wq_token (ws_thread s x)" for x
    using wq_invD(7) [OF inv, of x] that by (force simp: wq_token_def intro: ccontr)
  then have "wq_token (ws_thread s t) + wq_token (ws_thread s u) \<le> weight N wq_token (ws_thread s)"
    using t u ne by (intro weight_ge2) auto
  with t u wq_invD(3) [OF inv] show False
    by (simp split: if_splits)
qed

text \<open>C11. The work queue, with any number of threads and fewer than \<open>2 ^ 64\<close> steps, under every interleaving of pushes and of the worker: at most one thread is the worker or about to become it; items are taken in the
  order in which they were pushed, none is lost or taken twice; as long as an item is in the queue or a thread is
  pushing one there is a worker or one about to start; when there is none, all items have been taken; and an item that a pop cannot see yet is about to be linked by its pusher, so the worker does not spin for ever.
\<close>

theorem work_queue_correct:
  assumes "length acts < 2 ^ 64" "\<forall>a \<in> set acts. wq_act_thread a < N"
  shows "\<exists>s. wq_run acts wq_sys_init = Some s \<and>
     (\<forall>t u. 0 < wq_token (ws_thread s t) \<and> 0 < wq_token (ws_thread s u) \<longrightarrow> t = u) \<and>
     ws_pushed s = ws_got s @ map (fst \<circ> snd) (ws_queue s) \<and>
     (ws_queue s \<noteq> [] \<or> (\<exists>t item b. fst (ws_thread s t) = Q_Exchange item b) \<longrightarrow> (\<exists>t. 0 < wq_token (ws_thread s t))) \<and>
     ((\<forall>t. wq_token (ws_thread s t) = 0) \<longrightarrow> ws_got s = ws_pushed s \<and> ws_in s = 0 \<and> ws_out s = 0) \<and>
     (\<forall>u i. (u, i, False) \<in> set (ws_queue s) \<longrightarrow> (\<exists>b. fst (ws_thread s u) = Q_Link b))"
proof -
  obtain s where run: "wq_run acts wq_sys_init = Some s" and inv: "wq_inv N 0 s"
    using wq_machine.run_ok [where N = N and as = acts and s = wq_sys_init] assms wq_init_inv by blast
  note D = wq_invD [OF inv]
  have idle: "ws_in s = 0" if "\<forall>t. wq_token (ws_thread s t) = 0"
    using that D(3) by (simp split: if_splits)
  have quiet: "ws_queue s = [] \<and> ws_out s = 0 \<and> (\<forall>t < N. wq_owes (fst (ws_thread s t)) = 0)" if "ws_in s = 0"
    using that D(1) weight_ge [of _ N "\<lambda>th. wq_owes (fst th)" "ws_thread s"] by (auto simp: wq_balance_def unat_eq_0)
  have pushing: "fst (ws_thread s t) \<noteq> Q_Exchange item b" if "ws_in s = 0" for t item b
    using quiet [OF that] D(7) [of t] by (cases "t < N") force+
  have worker: "\<exists>t. 0 < wq_token (ws_thread s t)" if "ws_queue s \<noteq> [] \<or> (\<exists>t item b. fst (ws_thread s t) = Q_Exchange item b)"
    using that idle quiet pushing by (meson gr0I)
  have done_: "ws_got s = ws_pushed s \<and> ws_in s = 0 \<and> ws_out s = 0" if "\<forall>t. wq_token (ws_thread s t) = 0"
    using idle [OF that] quiet D(5) by simp
  show ?thesis
    using run D(5,6) wq_token_unique [OF inv] worker done_ by (intro exI [of _ s] conjI allI impI) blast+
qed

definition demo_work :: "wq_act list" where
  "demo_work = [Wq_Push 0 7, Wq_Push 1 8, Wq_Step 1, Wq_Step 0, Wq_Step 0, Wq_Step 1, Wq_Get_Work 0, Wq_Step 0, Wq_Step 0]"

theorem work_queue_correct_witness:
  "\<exists>s. wq_run demo_work wq_sys_init = Some s \<and> ws_pushed s = ws_got s @ map (fst \<circ> snd) (ws_queue s) \<and> ws_got s = [8] \<and> ws_pushed s = [8, 7]"
proof -
  have "map_option (\<lambda>s. (ws_got s, ws_pushed s)) (wq_run demo_work wq_sys_init) = Some ([8], [8, 7])"
    by code_simp
  moreover have "\<forall>a \<in> set demo_work. wq_act_thread a < 2" "length demo_work < 2 ^ 64"
    by (simp_all add: demo_work_def)
  ultimately show ?thesis
    using work_queue_correct [of demo_work 2] by auto
qed

end
