(* ===== verification/Unbounded_Channel.thy ===== *)
theory Unbounded_Channel
  imports Signal Step_Machine Mpsc_Fifo Spsc_Fifo
begin

text \<open>
  The unbounded channels of \<open>include/fiber_channel.h\<close>: a queue of messages and a signal.  \<open>fiber_unbounded_channel_t\<close>
  has many senders, \<open>fiber_unbounded_sp_channel_t\<close> one; both have one receiver.  A push replaces the tail of the queue, with an exchange when
  there are many senders and with a load and a store when there is one, and then links the message behind the old tail.  The queue is the list
  of the messages in the order in which they became the tail, each with its sender and whether it is linked, and a pop sees the first only
  when it is linked.
\<close>

record fiber_unbounded_channel =
  uc_queue :: mpsc_fifo
  uc_ready_signal :: bool

definition fiber_unbounded_channel_init :: "mpsc_heap \<Rightarrow> addr \<Rightarrow> bool \<Rightarrow> mpsc_heap \<times> fiber_unbounded_channel \<times> int" where
  "fiber_unbounded_channel_init h a signal =
     (case mpsc_fifo_init h a of (h', f, r) \<Rightarrow> (h', \<lparr>uc_queue = f, uc_ready_signal = signal\<rparr>, if r = 0 then 0 else 1))"

definition fiber_unbounded_channel_destroy :: "mpsc_heap \<Rightarrow> fiber_unbounded_channel option \<Rightarrow> mpsc_heap option" where
  "fiber_unbounded_channel_destroy h ch =
     (case ch of None \<Rightarrow> Some h | Some c \<Rightarrow> do { (h', _) \<leftarrow> mpsc_fifo_destroy h (uc_queue c); Some h' })"

record fiber_unbounded_sp_channel =
  up_queue :: spsc_fifo
  up_ready_signal :: bool

definition fiber_unbounded_sp_channel_init :: "mpsc_heap \<Rightarrow> addr \<Rightarrow> bool \<Rightarrow> mpsc_heap \<times> fiber_unbounded_sp_channel \<times> int" where
  "fiber_unbounded_sp_channel_init h a signal =
     (case spsc_fifo_init h a of (h', f, r) \<Rightarrow> (h', \<lparr>up_queue = f, up_ready_signal = signal\<rparr>, if r = 0 then 0 else 1))"

definition fiber_unbounded_sp_channel_destroy :: "mpsc_heap \<Rightarrow> fiber_unbounded_sp_channel option \<Rightarrow> mpsc_heap option" where
  "fiber_unbounded_sp_channel_destroy h ch =
     (case ch of None \<Rightarrow> Some h | Some c \<Rightarrow> do { (h', _) \<leftarrow> spsc_fifo_destroy h (up_queue c); Some h' })"

section \<open>Senders and receiver\<close>

datatype usend_pc = U_Idle int | U_Push addr | U_Link | U_Raise raise_pc

datatype urecv_pc = V_Idle addr | V_Pop bool | V_Wait wait_pc

record uc_sys =
  us_signalled :: bool
  us_queue :: "(nat \<times> addr \<times> bool) list"
  us_signal :: fiber_signal
  us_send :: "nat \<Rightarrow> usend_pc"
  us_recv :: urecv_pc
  us_sent :: "addr list"
  us_received :: "addr list"

abbreviation us_goto :: "nat \<Rightarrow> usend_pc \<Rightarrow> uc_sys \<Rightarrow> uc_sys" where
  "us_goto t pc s \<equiv> s\<lparr>us_send := (us_send s)(t := pc)\<rparr>"

definition raise_or_return :: "uc_sys \<Rightarrow> usend_pc" where
  "raise_or_return s = (if us_signalled s then U_Raise R_Exchange else U_Idle 0)"

definition uc_raise_step :: "nat \<Rightarrow> raise_pc \<Rightarrow> uc_sys \<Rightarrow> uc_sys option" where
  "uc_raise_step t pc s = do {
     (sg, pc') \<leftarrow> fiber_signal_raise_step pc (us_signal s);
     Some (us_goto t (case pc' of R_Return r \<Rightarrow> U_Idle r | _ \<Rightarrow> U_Raise pc') (s\<lparr>us_signal := sg\<rparr>))
   }"

definition uc_send_step :: "nat \<Rightarrow> uc_sys \<Rightarrow> uc_sys option" where
  "uc_send_step t s =
     (case us_send s t of
        U_Idle r \<Rightarrow> Some s
      | U_Push m \<Rightarrow> Some (us_goto t U_Link (s\<lparr>us_queue := us_queue s @ [(t, m, False)], us_sent := us_sent s @ [m]\<rparr>))
      | U_Link \<Rightarrow> Some (us_goto t (raise_or_return s) (s\<lparr>us_queue := map (\<lambda>(u, m, l). (u, m, l \<or> u = t)) (us_queue s)\<rparr>))
      | U_Raise pc \<Rightarrow> uc_raise_step t pc s)"

definition fiber_unbounded_channel_send_step :: "nat \<Rightarrow> uc_sys \<Rightarrow> uc_sys option" where
  "fiber_unbounded_channel_send_step t s = uc_send_step t s"

text \<open>The only sender of the other channel is number 0.\<close>

definition fiber_unbounded_sp_channel_send_step :: "uc_sys \<Rightarrow> uc_sys option" where
  "fiber_unbounded_sp_channel_send_step s = uc_send_step 0 s"

text \<open>
  Receiving (\<open>b\<close>) and trying to receive: pop, and on an empty queue wait for the signal, or try again when there is none.  The two
  channels have the same code over their own queues.
\<close>

definition uc_receive_step :: "addr \<Rightarrow> uc_sys \<Rightarrow> uc_sys option" where
  "uc_receive_step this_fiber s =
     (case us_recv s of
        V_Idle r \<Rightarrow> Some s
      | V_Pop b \<Rightarrow>
          Some (case us_queue s of
                  (u, m, True) # q \<Rightarrow> s\<lparr>us_queue := q, us_received := us_received s @ [m], us_recv := V_Idle m\<rparr>
                | _ \<Rightarrow> s\<lparr>us_recv := if \<not> b then V_Idle NULL else if us_signalled s then V_Wait W_Scratch else V_Pop True\<rparr>)
      | V_Wait w \<Rightarrow> do {
          (sg, w') \<leftarrow> fiber_signal_wait_step this_fiber w (us_signal s);
          Some (s\<lparr>us_signal := sg, us_recv := if w' = W_Return then V_Pop True else V_Wait w'\<rparr>)
        })"

definition fiber_unbounded_channel_receive_step :: "addr \<Rightarrow> uc_sys \<Rightarrow> uc_sys option" where
  "fiber_unbounded_channel_receive_step this_fiber s = uc_receive_step this_fiber s"

definition fiber_unbounded_sp_channel_receive_step :: "addr \<Rightarrow> uc_sys \<Rightarrow> uc_sys option" where
  "fiber_unbounded_sp_channel_receive_step this_fiber s = uc_receive_step this_fiber s"

text \<open>\<open>sp\<close> selects the channel of a single sender.\<close>

datatype uc_act = Uc_Send nat addr | Uc_Receive bool | Uc_Sender nat | Uc_Receiver

fun uc_step :: "bool \<Rightarrow> addr \<Rightarrow> uc_act \<Rightarrow> uc_sys \<Rightarrow> uc_sys option" where
  "uc_step sp f (Uc_Send t m) s = do {
     c_assert (m \<noteq> NULL);
     let t = (if sp then 0 else t);
     Some (case us_send s t of U_Idle r \<Rightarrow> us_goto t (U_Push m) s | _ \<Rightarrow> s) }"
| "uc_step sp f (Uc_Receive b) s = Some (case us_recv s of V_Idle r \<Rightarrow> s\<lparr>us_recv := V_Pop b\<rparr> | _ \<Rightarrow> s)"
| "uc_step sp f (Uc_Sender t) s = (if sp then fiber_unbounded_sp_channel_send_step s else fiber_unbounded_channel_send_step t s)"
| "uc_step sp f Uc_Receiver s = (if sp then fiber_unbounded_sp_channel_receive_step f s else fiber_unbounded_channel_receive_step f s)"

definition uc_sys_init :: "bool \<Rightarrow> uc_sys" where
  "uc_sys_init signal = \<lparr>us_signalled = signal, us_queue = [], us_signal = fiber_signal_init, us_send = (\<lambda>_. U_Idle 0), us_recv = V_Idle NULL,
     us_sent = [], us_received = []\<rparr>"

abbreviation uc_run :: "bool \<Rightarrow> addr \<Rightarrow> uc_act list \<Rightarrow> uc_sys \<Rightarrow> uc_sys option" where
  "uc_run sp f \<equiv> run_steps (uc_step sp f)"

section \<open>Wake-ups\<close>

text \<open>
  When there is something to receive and nobody is about to raise the signal, the receiver is not registered, and it will not
  register because the signal is raised.
\<close>

fun registering :: "wait_pc \<Rightarrow> bool" where
  "registering W_Scratch = True" | "registering W_Cas = True" | "registering _ = False"

definition no_lost_wakeup :: "bool \<Rightarrow> signal_word \<Rightarrow> (nat \<Rightarrow> raise_pc) \<Rightarrow> wait_pc \<Rightarrow> bool" where
  "no_lost_wakeup avail w rp wp \<longleftrightarrow>
     (avail \<longrightarrow> (\<forall>t. rp t \<noteq> R_Exchange) \<longrightarrow> \<not> registered w \<and> (registering wp \<longrightarrow> w = FIBER_SIGNAL_RAISED))"

lemma no_lost_wakeup_raise:
  assumes inv: "signal_inv sg rp wp" and ok: "no_lost_wakeup avail (sg_waiter sg) rp wp"
    and step: "fiber_signal_raise_step (rp t) sg = Some (sg', pc')"
  shows "no_lost_wakeup avail (sg_waiter sg') (rp(t := pc'')) wp"
proof (cases "rp t = R_Exchange")
  case True
  then have "sg_waiter sg' = FIBER_SIGNAL_RAISED"
    using step by (auto simp: fiber_signal_raise_step_def)
  then show ?thesis by (simp add: no_lost_wakeup_def)
next
  case False
  have "sg_waiter sg' = sg_waiter sg \<or> rp t = R_Clear \<and> sg_waiter sg' = FIBER_SIGNAL_NO_WAITER"
    using step False by (cases "rp t") (auto simp: fiber_signal_raise_step_def split: if_splits)
  moreover have "\<not> registering wp" if "rp t = R_Clear"
    using inv that unfolding signal_inv_def by (metis registering.elims(2) sleeping.simps(5,6) waking.simps(1))
  moreover have "\<forall>u. rp u \<noteq> R_Exchange" if "\<forall>u. (rp(t := pc'')) u \<noteq> R_Exchange"
    using that False by (metis fun_upd_apply)
  ultimately show ?thesis
    using ok unfolding no_lost_wakeup_def by (metis registered.simps(2))
qed

lemma no_lost_wakeup_wait:
  assumes "no_lost_wakeup avail (sg_waiter sg) rp wp" "fiber_signal_wait_step f wp sg = Some (sg', wp')"
  shows "no_lost_wakeup avail (sg_waiter sg') rp wp'"
  using assms unfolding no_lost_wakeup_def by (cases wp) (auto simp: fiber_signal_wait_step_def split: if_splits)

section \<open>The invariant\<close>

fun us_raise :: "usend_pc \<Rightarrow> raise_pc" where
  "us_raise (U_Raise pc) = pc" | "us_raise _ = R_Idle"

fun us_wait :: "urecv_pc \<Rightarrow> wait_pc" where
  "us_wait (V_Wait w) = w" | "us_wait _ = W_Return"

fun us_avail :: "(nat \<times> addr \<times> bool) list \<Rightarrow> bool" where
  "us_avail ((u, m, l) # q) = l" | "us_avail [] = False"

abbreviation us_raises :: "(nat \<Rightarrow> usend_pc) \<Rightarrow> nat \<Rightarrow> raise_pc" where
  "us_raises send \<equiv> (\<lambda>t. us_raise (send t))"

definition uc_inv :: "uc_sys \<Rightarrow> bool" where
  "uc_inv s \<longleftrightarrow>
     signal_inv (us_signal s) (us_raises (us_send s)) (us_wait (us_recv s)) \<and>
     (us_signalled s \<longrightarrow> no_lost_wakeup (us_avail (us_queue s)) (sg_waiter (us_signal s)) (us_raises (us_send s)) (us_wait (us_recv s))) \<and>
     us_sent s = us_received s @ map (fst \<circ> snd) (us_queue s) \<and>
     (\<forall>u m. (u, m, False) \<in> set (us_queue s) \<longrightarrow> us_send s u = U_Link) \<and>
     (\<forall>w. us_recv s = V_Wait w \<longrightarrow> us_signalled s)"

lemma uc_invD:
  assumes "uc_inv s"
  shows "signal_inv (us_signal s) (us_raises (us_send s)) (us_wait (us_recv s))"
    "us_signalled s \<Longrightarrow> no_lost_wakeup (us_avail (us_queue s)) (sg_waiter (us_signal s)) (us_raises (us_send s)) (us_wait (us_recv s))"
    "us_sent s = us_received s @ map (fst \<circ> snd) (us_queue s)" "(u, m, False) \<in> set (us_queue s) \<Longrightarrow> us_send s u = U_Link"
    "us_recv s = V_Wait w \<Longrightarrow> us_signalled s"
  using assms unfolding uc_inv_def by blast+

lemma us_raises_upd: "us_raises (send(t := pc)) = (us_raises send)(t := us_raise pc)"
  by auto

lemma us_raises_same: "us_raise pc = us_raise (send t) \<Longrightarrow> us_raises (send(t := pc)) = us_raises send"
  by auto

lemma us_avail_snoc: "us_avail (q @ [(t, m, False)]) = us_avail q"
  by (cases q) auto

text \<open>A sender that is not raising the signal starts, or becomes the tail.\<close>

lemma uc_inv_send:
  assumes "uc_inv s" "us_raise (us_send s t) = R_Idle" "us_raise pc = R_Idle" "us_send s t = U_Link \<longrightarrow> pc = U_Link"
  shows "uc_inv (us_goto t pc s)"
  using assms(1) us_raises_same [of pc "us_send s" t] assms(2-) by (simp add: uc_inv_def)

lemma uc_push_ok:
  assumes inv: "uc_inv s" and t: "us_send s t = U_Push m"
  shows "uc_inv (us_goto t U_Link (s\<lparr>us_queue := us_queue s @ [(t, m, False)], us_sent := us_sent s @ [m]\<rparr>))"
  using inv us_raises_same [of U_Link "us_send s" t] t
  by (auto simp: uc_inv_def us_avail_snoc simp del: fun_upd_apply) (auto split: if_splits)

lemma uc_link_ok:
  assumes inv: "uc_inv s" and t: "us_send s t = U_Link"
  shows "uc_inv (us_goto t (raise_or_return s) (s\<lparr>us_queue := map (\<lambda>(u, m, l). (u, m, l \<or> u = t)) (us_queue s)\<rparr>))"
proof -
  let ?pc = "raise_or_return s" and ?q = "map (\<lambda>(u, m, l). (u, m, l \<or> u = t)) (us_queue s)"
  note D = uc_invD [OF inv]
  have "signal_inv (us_signal s) (us_raises ((us_send s)(t := ?pc))) (us_wait (us_recv s))"
    using D(1) by (rule signal_inv_cong) (use t in \<open>auto simp: raise_or_return_def\<close>)
  moreover have "no_lost_wakeup a w (us_raises ((us_send s)(t := ?pc))) wp" if "us_signalled s" for a w wp
  proof -
    have "us_raise (((us_send s)(t := ?pc)) t) = R_Exchange"
      using that by (simp add: raise_or_return_def)
    then show ?thesis unfolding no_lost_wakeup_def by blast
  qed
  moreover have "us_sent s = us_received s @ map (fst \<circ> snd) ?q"
    using D(3) by (simp add: comp_def case_prod_beta)
  moreover have "((us_send s)(t := ?pc)) u = U_Link" if "(u, m, False) \<in> set ?q" for u m
  proof -
    have "u \<noteq> t" "(u, m, False) \<in> set (us_queue s)" using that by (auto, metis (full_types))
    with D(4) show ?thesis by simp
  qed
  ultimately show ?thesis
    using D(5) by (simp add: uc_inv_def del: fun_upd_apply set_map)
qed

lemma uc_raise_ok:
  assumes inv: "uc_inv s" and t: "us_send s t = U_Raise r"
  shows "\<exists>s'. uc_raise_step t r s = Some s' \<and> uc_inv s'"
proof -
  note D = uc_invD [OF inv]
  obtain sg r' where step: "fiber_signal_raise_step r (us_signal s) = Some (sg, r')"
      "signal_inv sg ((us_raises (us_send s))(t := r')) (us_wait (us_recv s))"
    using raise_step_inv [OF D(1), of t] t by auto
  define pc where "pc = (case r' of R_Return x \<Rightarrow> U_Idle x | _ \<Rightarrow> U_Raise r')"
  have "signal_inv sg (us_raises ((us_send s)(t := pc))) (us_wait (us_recv s))"
    using step(2) unfolding us_raises_upd by (rule signal_inv_cong) (auto simp: pc_def split: raise_pc.splits)
  moreover have "no_lost_wakeup (us_avail (us_queue s)) (sg_waiter sg) (us_raises ((us_send s)(t := pc))) (us_wait (us_recv s))"
    if "us_signalled s"
    using no_lost_wakeup_raise [OF D(1) D(2) [OF that], of t] step(1) t unfolding us_raises_upd by simp
  moreover have "((us_send s)(t := pc)) u = U_Link" if "(u, m, False) \<in> set (us_queue s)" for u m
    using D(4) [OF that] t by auto
  ultimately have "uc_inv (us_goto t pc (s\<lparr>us_signal := sg\<rparr>))"
    using D(3,5) by (auto simp: uc_inv_def simp del: fun_upd_apply)
  with step(1) show ?thesis by (simp add: uc_raise_step_def pc_def)
qed

lemma uc_send_step_ok: "uc_inv s \<Longrightarrow> \<exists>s'. uc_send_step t s = Some s' \<and> uc_inv s'"
  by (cases "us_send s t"; simp only: uc_send_step_def usend_pc.case option.inject ex_simps simp_thms)
    (use uc_push_ok uc_link_ok uc_raise_ok in blast)+

lemma uc_recv_move:
  assumes inv: "uc_inv s" and w: "us_wait (us_recv s) = W_Return" "us_wait pc = W_Return \<or> us_wait pc = W_Scratch \<and> us_signalled s \<and> \<not> us_avail q" "pc \<noteq> V_Wait W_Return"
    and q: "us_sent s = rc @ map (fst \<circ> snd) q" "set q \<subseteq> set (us_queue s)"
  shows "uc_inv (s\<lparr>us_queue := q, us_received := rc, us_recv := pc\<rparr>)"
proof -
  note D = uc_invD [OF inv]
  have "signal_inv (us_signal s) (us_raises (us_send s)) (us_wait pc)"
    using D(1) w by (auto simp: signal_inv_def)
  moreover have "\<not> registered (sg_waiter (us_signal s))"
    using D(1) w(1) unfolding signal_inv_def by (metis sleeping.simps(9))
  ultimately show ?thesis
    using D(4) w q by (cases pc) (auto simp: uc_inv_def no_lost_wakeup_def)
qed

lemma uc_receive_step_ok:
  assumes inv: "uc_inv s"
  shows "\<exists>s'. uc_receive_step f s = Some s' \<and> uc_inv s'"
proof (cases "us_recv s")
  case (V_Pop b)
  show ?thesis
  proof (cases "us_avail (us_queue s)")
    case True
    then obtain u m q where q: "us_queue s = (u, m, True) # q"
      by (cases "us_queue s" rule: us_avail.cases) auto
    with inv V_Pop uc_recv_move [OF inv, of "V_Idle m" q "us_received s @ [m]"] uc_invD(3) [OF inv] show ?thesis
      by (auto simp: uc_receive_step_def)
  next
    case False
    let ?pc = "if \<not> b then V_Idle NULL else if us_signalled s then V_Wait W_Scratch else V_Pop True"
    have "uc_receive_step f s = Some (s\<lparr>us_recv := ?pc\<rparr>)"
      using V_Pop False by (cases "us_queue s" rule: us_avail.cases) (auto simp: uc_receive_step_def)
    with V_Pop False uc_recv_move [OF inv, of ?pc "us_queue s" "us_received s"] uc_invD(3) [OF inv] show ?thesis
      by simp
  qed
next
  case (V_Wait w)
  note D = uc_invD [OF inv]
  obtain sg w' where step: "fiber_signal_wait_step f w (us_signal s) = Some (sg, w')" "signal_inv sg (us_raises (us_send s)) w'"
    using wait_step_inv [OF D(1), of f] V_Wait by auto
  have sig: "us_signalled s" using D(5) V_Wait .
  have "no_lost_wakeup (us_avail (us_queue s)) (sg_waiter sg) (us_raises (us_send s)) w'"
    using no_lost_wakeup_wait [OF D(2) [OF sig], of f sg w'] step(1) V_Wait by simp
  then have "uc_inv (s\<lparr>us_signal := sg, us_recv := if w' = W_Return then V_Pop True else V_Wait w'\<rparr>)"
    using D(3,4) step(2) sig by (auto simp: uc_inv_def)
  with V_Wait step(1) show ?thesis by (simp add: uc_receive_step_def)
qed (use inv in \<open>simp add: uc_receive_step_def\<close>)

lemma uc_step_ok:
  assumes inv: "uc_inv s" and m: "\<forall>t m. a = Uc_Send t m \<longrightarrow> m \<noteq> NULL"
  shows "\<exists>s'. uc_step sp f a s = Some s' \<and> uc_inv s'"
proof (cases a)
  case (Uc_Send t m')
  let ?t = "if sp then 0 else t"
  have "uc_inv (us_goto ?t (U_Push m') s)" if "us_send s ?t = U_Idle r" for r
    using uc_inv_send [OF inv, of ?t "U_Push m'"] that by simp
  with Uc_Send m inv show ?thesis by (cases "us_send s ?t") (simp_all add: Let_def)
next
  case (Uc_Receive b)
  have "uc_inv (s\<lparr>us_recv := V_Pop b\<rparr>)" if "us_recv s = V_Idle r" for r
    using uc_recv_move [OF inv, of "V_Pop b" "us_queue s" "us_received s"] uc_invD(3) [OF inv] that by simp
  with Uc_Receive inv show ?thesis by (cases "us_recv s") simp_all
qed (use uc_send_step_ok [OF inv] uc_receive_step_ok [OF inv] in
  \<open>simp_all add: fiber_unbounded_channel_send_step_def fiber_unbounded_sp_channel_send_step_def
     fiber_unbounded_channel_receive_step_def fiber_unbounded_sp_channel_receive_step_def\<close>)

interpretation uc_machine: machine "uc_step sp f" "\<lambda>a. \<forall>t m. a = Uc_Send t m \<longrightarrow> m \<noteq> NULL" "\<lambda>_. uc_inv" for sp f
  by unfold_locales (use uc_step_ok in blast)

lemma uc_init_inv: "uc_inv (uc_sys_init signal)"
  using signal_init_inv [of "\<lambda>_. R_Idle" W_Return]
  by (simp add: uc_inv_def uc_sys_init_def no_lost_wakeup_def)

section \<open>Properties\<close>

text \<open>C10. Both unbounded channels, with any number of senders for the one and one sender for the other, one receiver, with or without a signal, under every interleaving: no step faults, so the receiver is woken only
  after its context is saved; messages are received in the order in which they were sent, none lost or received twice;
  and no wake-up is lost: when the receiver sleeps and is in no run queue while all senders are idle, every message sent has been received.
\<close>

theorem unbounded_channel_correct:
  assumes "\<forall>t m. Uc_Send t m \<in> set acts \<longrightarrow> m \<noteq> NULL"
  shows "\<exists>s. uc_run sp f acts (uc_sys_init signal) = Some s \<and>
     us_sent s = us_received s @ map (fst \<circ> snd) (us_queue s) \<and>
     (us_recv s = V_Wait W_Asleep \<and> \<not> sg_queued (us_signal s) \<and> (\<forall>t. \<exists>r. us_send s t = U_Idle r) \<longrightarrow> us_received s = us_sent s)"
proof -
  obtain s where run: "uc_run sp f acts (uc_sys_init signal) = Some s" and inv: "uc_inv s"
    using uc_machine.run_ok [where as = acts and s = "uc_sys_init signal"] assms uc_init_inv by blast
  note D = uc_invD [OF inv]
  have "us_received s = us_sent s"
    if asleep: "us_recv s = V_Wait W_Asleep" "\<not> sg_queued (us_signal s)" and idle: "\<forall>t. \<exists>r. us_send s t = U_Idle r"
  proof -
    have raises: "us_raise (us_send s t) = R_Idle" "us_send s t \<noteq> U_Link" for t
      using idle [rule_format, of t] by auto
    then have "registered (sg_waiter (us_signal s))"
      using D(1) asleep unfolding signal_inv_def by simp
    then have "\<not> us_avail (us_queue s)"
      using D(2) [OF D(5) [OF asleep(1)]] raises(1) by (simp add: no_lost_wakeup_def)
    then have "us_queue s = []"
      using D(4) raises(2) by (cases "us_queue s" rule: us_avail.cases) force+
    with D(3) show ?thesis by simp
  qed
  with run D(3) show ?thesis by blast
qed

definition demo_unbounded :: "uc_act list" where
  "demo_unbounded = [Uc_Receive True] @ replicate 6 Uc_Receiver @ [Uc_Send 0 5, Uc_Sender 0, Uc_Sender 0, Uc_Sender 0, Uc_Sender 0, Uc_Sender 0, Uc_Sender 0] @
     replicate 6 Uc_Receiver"

theorem unbounded_channel_correct_witness:
  "\<exists>s. uc_run False 9 demo_unbounded (uc_sys_init True) = Some s \<and> us_sent s = us_received s @ map (fst \<circ> snd) (us_queue s) \<and> us_received s = [5]"
proof -
  have "map_option us_received (uc_run False 9 demo_unbounded (uc_sys_init True)) = Some [5]"
    by code_simp
  moreover have "\<forall>t m. Uc_Send t m \<in> set demo_unbounded \<longrightarrow> m \<noteq> NULL"
    by (simp add: demo_unbounded_def)
  ultimately show ?thesis
    using unbounded_channel_correct [of demo_unbounded False 9 True] by auto
qed

end
