(* ===== verification/Context.thy ===== *)
theory Context
  imports Fiber_Prelude
begin

text \<open>
  \<open>src/fiber_context.c\<close> with assembly switching: stacks, new contexts, and the switch itself, which runs here on a small model of the
  processor.  Memory consists of mapped cells of the size of a register, at addresses that are multiples of it; an access to anything
  else is a fault.  The 64-bit and the 32-bit switch are both modelled.
\<close>

unbundle bit_operations_syntax

section \<open>Stacks\<close>

text \<open>\<open>page\<close> is what \<open>sysconf\<close> returns; the function keeps 50 bytes less than that as its page size.\<close>

definition fiber_round_to_page_size :: "64 word \<Rightarrow> 64 word \<Rightarrow> 64 word" where
  "fiber_round_to_page_size page sz =
     (let fiberPageSize = page - 50;
          numPages = sz div fiberPageSize + 1;
          numPagesAfterMin = (if numPages \<ge> 2 then numPages else 2)
      in fiberPageSize * numPagesAfterMin)"

record fiber_context =
  ctx_stack :: "64 word"
  ctx_stack_size :: "64 word"
  ctx_stack_pointer :: "64 word"
  ctx_is_thread :: bool

datatype stack_strategy = FIBER_STACK_MALLOC | FIBER_STACK_MMAP

text \<open>What is given back: a block, or a mapping.\<close>

datatype stack_release = Free "64 word" | Munmap "64 word" "64 word"

text \<open>
  The allocator returns an address (\<open>None\<close> is \<open>MAP_FAILED\<close>), and \<open>mprotect\<close> succeeds or not.  The result is the
  context, whether it has a stack, and what was given back.
\<close>

definition fiber_context_alloc_stack ::
  "stack_strategy \<Rightarrow> 64 word \<Rightarrow> 64 word option \<Rightarrow> bool \<Rightarrow> 64 word \<Rightarrow> fiber_context \<Rightarrow> fiber_context \<times> bool \<times> stack_release list" where
  "fiber_context_alloc_stack strategy page allocated protected stack_size c =
     (case strategy of
        FIBER_STACK_MALLOC \<Rightarrow>
          (let a = (case allocated of None \<Rightarrow> 0 | Some a \<Rightarrow> a)
           in (c\<lparr>ctx_stack := a, ctx_stack_size := stack_size\<rparr>, a \<noteq> 0, []))
      | FIBER_STACK_MMAP \<Rightarrow>
          (let c1 = c\<lparr>ctx_stack_size := fiber_round_to_page_size page stack_size\<rparr>
           in case allocated of
                None \<Rightarrow> (c1\<lparr>ctx_stack := -1\<rparr>, False, [])
              | Some a \<Rightarrow>
                  if protected then (c1\<lparr>ctx_stack := a\<rparr>, a \<noteq> 0, [])
                  else (c1\<lparr>ctx_stack := a\<rparr>, False, [Munmap a (ctx_stack_size c1)])))"

definition fiber_free_stack :: "stack_strategy \<Rightarrow> fiber_context \<Rightarrow> stack_release" where
  "fiber_free_stack strategy c =
     (case strategy of FIBER_STACK_MALLOC \<Rightarrow> Free (ctx_stack c) | FIBER_STACK_MMAP \<Rightarrow> Munmap (ctx_stack c) (ctx_stack_size c))"

section \<open>Memory\<close>

type_synonym mem64 = "64 word \<Rightarrow> 64 word option"

definition aligned8 :: "64 word \<Rightarrow> bool" where "aligned8 a \<longleftrightarrow> a AND 7 = 0"

definition load64 :: "mem64 \<Rightarrow> 64 word \<Rightarrow> 64 word option" where
  "load64 m a = (if aligned8 a then m a else None)"

definition store64 :: "mem64 \<Rightarrow> 64 word \<Rightarrow> 64 word \<Rightarrow> mem64 option" where
  "store64 m a v = (if aligned8 a \<and> m a \<noteq> None then Some (m(a \<mapsto> v)) else None)"

text \<open>\<open>*--sp = v\<close>\<close>

definition push64 :: "64 word \<Rightarrow> mem64 \<times> 64 word \<Rightarrow> (mem64 \<times> 64 word) option" where
  "push64 v ms = (case ms of (m, sp) \<Rightarrow> do { m1 \<leftarrow> store64 m (sp - 8) v; Some (m1, sp - 8) })"

section \<open>New contexts\<close>

text \<open>The argument, the return address 0, the function, and zero for the registers.\<close>

definition push_frame64 :: "64 word \<Rightarrow> 64 word \<Rightarrow> mem64 \<times> 64 word \<Rightarrow> (mem64 \<times> 64 word) option" where
  "push_frame64 param run_function ms1 = do {
     ms2 \<leftarrow> push64 param ms1;
     ms3 \<leftarrow> push64 0 ms2;
     ms4 \<leftarrow> push64 run_function ms3;
     ms5 \<leftarrow> push64 0 ms4;
     ms6 \<leftarrow> push64 0 ms5;
     ms7 \<leftarrow> push64 0 ms6;
     ms8 \<leftarrow> push64 0 ms7;
     ms9 \<leftarrow> push64 0 ms8;
     push64 0 ms9
   }"

datatype init_result = Init_Error | Init_Success

definition fiber_context_init ::
  "stack_strategy \<Rightarrow> 64 word \<Rightarrow> 64 word option \<Rightarrow> bool \<Rightarrow> 64 word \<Rightarrow> 64 word \<Rightarrow> 64 word \<Rightarrow> mem64 \<Rightarrow> fiber_context \<Rightarrow>
   (mem64 \<times> fiber_context \<times> init_result) option" where
  "fiber_context_init strategy page allocated protected stack_size run_function param m c =
     (if stack_size = 0 \<or> run_function = 0 then Some (m, c, Init_Error)
      else case fiber_context_alloc_stack strategy page allocated protected stack_size c of
        (c1, False, _) \<Rightarrow> Some (m, c1, Init_Error)
      | (c1, True, _) \<Rightarrow> do {
          let sp0 = (ctx_stack c1 + ctx_stack_size c1 - 8) AND NOT 15;
          (m1, sp) \<leftarrow> push_frame64 param run_function (m, sp0 - 8);
          c_assert (sp AND 15 = 0);
          Some (m1, c1\<lparr>ctx_stack_pointer := sp, ctx_is_thread := False\<rparr>, Init_Success)
        })"

definition fiber_context_init_from_thread :: "fiber_context" where
  "fiber_context_init_from_thread = \<lparr>ctx_stack = 0, ctx_stack_size = 0, ctx_stack_pointer = 0, ctx_is_thread = True\<rparr>"

definition fiber_context_destroy :: "stack_strategy \<Rightarrow> fiber_context option \<Rightarrow> stack_release list" where
  "fiber_context_destroy strategy context =
     (case context of None \<Rightarrow> [] | Some c \<Rightarrow> if ctx_is_thread c then [] else [fiber_free_stack strategy c])"

section \<open>The processor\<close>

datatype reg64 = RAX | RBX | RCX | RSI | RDI | RBP | RSP | R12 | R13 | R14 | R15

record x64 =
  regs :: "reg64 \<Rightarrow> 64 word"
  mem :: mem64
  rip :: "64 word"

text \<open>The instructions of the switch; \<open>Lea_Label\<close> loads the address of label 0, which follows the last one.\<close>

datatype instr64 =
    Lea_Label reg64
  | Load "64 word" reg64 reg64
  | Store reg64 reg64
  | Mov reg64 reg64
  | Push reg64
  | Pop reg64
  | Add_Imm "64 word" reg64
  | Jmp reg64

abbreviation set_reg :: "reg64 \<Rightarrow> 64 word \<Rightarrow> x64 \<Rightarrow> x64" where
  "set_reg r v s \<equiv> s\<lparr>regs := (regs s)(r := v)\<rparr>"

fun exec64 :: "64 word \<Rightarrow> instr64 \<Rightarrow> x64 \<Rightarrow> x64 option" where
  "exec64 label0 (Lea_Label r) s = Some (set_reg r label0 s)"
| "exec64 label0 (Load disp b r) s = do { v \<leftarrow> load64 (mem s) (regs s b + disp); Some (set_reg r v s) }"
| "exec64 label0 (Store r b) s = do { m \<leftarrow> store64 (mem s) (regs s b) (regs s r); Some (s\<lparr>mem := m\<rparr>) }"
| "exec64 label0 (Mov a b) s = Some (set_reg b (regs s a) s)"
| "exec64 label0 (Push r) s = do {
     m \<leftarrow> store64 (mem s) (regs s RSP - 8) (regs s r);
     Some (set_reg RSP (regs s RSP - 8) (s\<lparr>mem := m\<rparr>)) }"
| "exec64 label0 (Pop r) s = do {
     v \<leftarrow> load64 (mem s) (regs s RSP);
     Some (set_reg r v (set_reg RSP (regs s RSP + 8) s)) }"
| "exec64 label0 (Add_Imm v r) s = Some (set_reg r (regs s r + v) s)"
| "exec64 label0 (Jmp r) s = Some (s\<lparr>rip := regs s r\<rparr>)"

fun exec64s :: "64 word \<Rightarrow> instr64 list \<Rightarrow> x64 \<Rightarrow> x64 option" where
  "exec64s label0 [] s = Some s"
| "exec64s label0 (i # is) s = do { s1 \<leftarrow> exec64 label0 i s; exec64s label0 is s1 }"

section \<open>The switch\<close>

definition swap_code64 :: "instr64 list" where
  "swap_code64 =
    [Lea_Label RAX,
     Load 48 RSI RCX,
     Push RAX,
     Push RBP,
     Push RBX,
     Push R12,
     Push R13,
     Push R14,
     Push R15,
     Store RSP RDI,
     Mov RSI RSP,
     Pop R15,
     Pop R14,
     Pop R13,
     Pop R12,
     Pop RBX,
     Pop RBP,
     Load 64 RSI RDI,
     Add_Imm 8 RSP,
     Jmp RCX]"

text \<open>\<open>from_sp\<close> and \<open>to_ctx\<close> are the addresses of the saved stack pointers of the two contexts.\<close>

definition fiber_context_swap :: "64 word \<Rightarrow> 64 word \<Rightarrow> 64 word \<Rightarrow> x64 \<Rightarrow> x64 option" where
  "fiber_context_swap label0 from_sp to_ctx s = do {
     to_sp \<leftarrow> load64 (mem s) to_ctx;
     exec64s label0 swap_code64 (set_reg RSI to_sp (set_reg RDI from_sp s))
   }"

section \<open>Alignment\<close>

lemma mask3: "a AND 7 = take_bit 3 (a :: 64 word)"
  by (simp add: take_bit_eq_mask mask_eq_exp_minus_1)

lemma aligned8_unat: "aligned8 a \<longleftrightarrow> unat a mod 8 = 0"
proof -
  have "unat (take_bit 3 a) = unat a mod 8"
    by (simp add: take_bit_eq_mod unat_mod_distrib)
  then show ?thesis
    by (metis aligned8_def mask3 unat_eq_0)
qed

lemma aligned16_unat: "a AND 15 = 0 \<longleftrightarrow> unat (a :: 64 word) mod 16 = 0"
proof -
  have "a AND 15 = take_bit 4 a"
    by (simp add: take_bit_eq_mask mask_eq_exp_minus_1)
  then have "unat (a AND 15) = unat a mod 16"
    by (simp add: take_bit_eq_mod unat_mod_distrib)
  then show ?thesis
    by (metis unat_eq_0)
qed

lemma aligned8_add: "aligned8 a \<Longrightarrow> aligned8 b \<Longrightarrow> aligned8 (a + b)"
  unfolding aligned8_unat unat_word_ariths
  by (simp add: mod_mod_cancel mod_add_eq [of "unat a" 8 "unat b", symmetric])

lemma aligned8_offsets [simp]:
  assumes "aligned8 a"
  shows "aligned8 (a + 8)" "aligned8 (a + 16)" "aligned8 (a + 24)" "aligned8 (a + 32)" "aligned8 (a + 40)" "aligned8 (a + 48)" "aligned8 (a + 64)"
  by (rule aligned8_add [OF assms], simp add: aligned8_def)+

section \<open>Frames\<close>

text \<open>A context that is not running: its stack pointer is saved, and its registers and the place where it continues are above it on the stack.\<close>

definition frame64 :: "64 word \<Rightarrow> 64 word set" where
  "frame64 q = {q, q + 8, q + 16, q + 24, q + 32, q + 40, q + 48}"

definition suspended64 :: "mem64 \<Rightarrow> 64 word \<Rightarrow> 64 word \<Rightarrow> 64 word \<Rightarrow> (reg64 \<Rightarrow> 64 word) \<Rightarrow> bool" where
  "suspended64 m ctx q continue r \<longleftrightarrow>
     aligned8 ctx \<and> aligned8 q \<and> m ctx = Some q \<and> m (q + 48) = Some continue \<and> m (q + 40) = Some (r RBP) \<and> m (q + 32) = Some (r RBX) \<and>
     m (q + 24) = Some (r R12) \<and> m (q + 16) = Some (r R13) \<and> m (q + 8) = Some (r R14) \<and> m q = Some (r R15)"

definition callee_saved :: "reg64 set" where
  "callee_saved = {RBX, RBP, R12, R13, R14, R15}"

definition save_code64 :: "instr64 list" where "save_code64 = take 10 swap_code64"
definition restore_code64 :: "instr64 list" where "restore_code64 = drop 10 swap_code64"

lemma swap_code_parts: "swap_code64 = save_code64 @ restore_code64"
  by (simp add: save_code64_def restore_code64_def)

lemma exec64s_append: "exec64s l (is @ js) s = do { s1 \<leftarrow> exec64s l is s; exec64s l js s1 }"
  by (induction "is" arbitrary: s) (auto split: Option.bind_splits)

lemma store64_mapped: "aligned8 a \<Longrightarrow> m a \<noteq> None \<Longrightarrow> store64 m a v = Some (m(a \<mapsto> v))"
  by (simp add: store64_def)

lemma word_plus_minus: "(p :: 64 word) + 56 - 8 = p + 48" "p + 48 - 8 = p + 40" "p + 40 - 8 = p + 32" "p + 32 - 8 = p + 24"
  "p + 24 - 8 = p + 16" "p + 16 - 8 = p + 8" "p + 8 - 8 = p" "p + 64 - 8 = p + 56" "p + 72 - 8 = p + 64" "p + 80 - 8 = p + 72"
  by simp_all

text \<open>Memory after the running context has been saved.\<close>

definition saved_mem64 :: "mem64 \<Rightarrow> 64 word \<Rightarrow> 64 word \<Rightarrow> 64 word \<Rightarrow> (reg64 \<Rightarrow> 64 word) \<Rightarrow> mem64" where
  "saved_mem64 m p ctx l r =
     m(p + 48 \<mapsto> l, p + 40 \<mapsto> r RBP, p + 32 \<mapsto> r RBX, p + 24 \<mapsto> r R12, p + 16 \<mapsto> r R13, p + 8 \<mapsto> r R14, p \<mapsto> r R15, ctx \<mapsto> p)"

lemma save64:
  assumes rsp: "regs s RSP = p + 56" "aligned8 p" "\<forall>a \<in> frame64 p. mem s a \<noteq> None"
    and ctx: "regs s RDI = ctx" "aligned8 ctx" "mem s ctx \<noteq> None" and target: "load64 (mem s) (regs s RSI + 48) = Some target"
  shows "\<exists>s'. exec64s l save_code64 s = Some s' \<and> regs s' RSI = regs s RSI \<and> regs s' RCX = target \<and>
    mem s' = saved_mem64 (mem s) p ctx l (regs s)"
  using assms
  by (simp add: saved_mem64_def save_code64_def swap_code64_def store64_mapped frame64_def word_plus_minus)

lemma restore64:
  assumes "suspended64 m ctx q c r" "mem s = m" "regs s RSI = q" "m (q + 64) = Some di"
  shows "\<exists>s'. exec64s l restore_code64 s = Some s' \<and> mem s' = m \<and> rip s' = regs s RCX \<and> regs s' RSP = q + 56 \<and> regs s' RDI = di \<and>
    (\<forall>x \<in> callee_saved. regs s' x = r x)"
  using assms
  by (simp add: restore_code64_def swap_code64_def suspended64_def load64_def callee_saved_def add.assoc)

text \<open>A running context with room for a frame below its stack pointer, and two contexts that do not share memory.\<close>

definition ready64 :: "x64 \<Rightarrow> 64 word \<Rightarrow> 64 word \<Rightarrow> bool" where
  "ready64 s p ctx \<longleftrightarrow> regs s RSP = p + 56 \<and> aligned8 p \<and> (\<forall>a \<in> frame64 p. mem s a \<noteq> None) \<and>
     aligned8 ctx \<and> mem s ctx \<noteq> None \<and> ctx \<notin> frame64 p"

definition apart64 :: "64 word \<Rightarrow> 64 word \<Rightarrow> 64 word \<Rightarrow> 64 word \<Rightarrow> bool" where
  "apart64 p ctx q ctx' \<longleftrightarrow> (frame64 q \<union> {q + 56, q + 64, ctx'}) \<inter> (frame64 p \<union> {ctx}) = {}"

lemma frame_distinct:
  "p \<noteq> p + (8 :: 64 word)" "p \<noteq> p + (16 :: 64 word)" "p \<noteq> p + (24 :: 64 word)" "p \<noteq> p + (32 :: 64 word)" "p \<noteq> p + (40 :: 64 word)" "p \<noteq> p + (48 :: 64 word)"
  by simp_all

lemma suspended64_cong:
  assumes "suspended64 m ctx q c r" "\<forall>a \<in> frame64 q \<union> {ctx}. m' a = m a"
  shows "suspended64 m' ctx q c r"
  using assms by (simp add: suspended64_def frame64_def)

lemma swap64:
  assumes run: "ready64 s p ctx" and to: "suspended64 (mem s) ctx' q c r" "mem s (q + 64) = Some di" and ap: "apart64 p ctx q ctx'"
  shows "\<exists>s'. fiber_context_swap l ctx ctx' s = Some s' \<and> rip s' = c \<and> regs s' RSP = q + 56 \<and> regs s' RDI = di \<and>
    (\<forall>x \<in> callee_saved. regs s' x = r x) \<and> suspended64 (mem s') ctx p l (regs s) \<and>
    (\<forall>a. a \<notin> frame64 p \<union> {ctx} \<longrightarrow> mem s' a = mem s a)"
proof -
  let ?s = "set_reg RSI q (set_reg RDI ctx s)"
  have load: "load64 (mem s) ctx' = Some q" "load64 (mem s) (q + 48) = Some c"
    using to(1) by (simp_all add: suspended64_def load64_def)
  have "\<exists>s1. exec64s l save_code64 ?s = Some s1 \<and> regs s1 RSI = regs ?s RSI \<and> regs s1 RCX = c \<and>
      mem s1 = saved_mem64 (mem ?s) p ctx l (regs ?s)"
    by (rule save64) (use run load(2) in \<open>simp_all add: ready64_def\<close>)
  moreover have "saved_mem64 (mem ?s) p ctx l (regs ?s) = saved_mem64 (mem s) p ctx l (regs s)" "regs ?s RSI = q"
    by (simp_all add: saved_mem64_def)
  ultimately obtain s1 where s1: "exec64s l save_code64 ?s = Some s1" "regs s1 RSI = q" "regs s1 RCX = c"
      "mem s1 = saved_mem64 (mem s) p ctx l (regs s)"
    by metis
  have saved: "suspended64 (mem s1) ctx p l (regs s)"
  proof -
    have "p \<noteq> ctx" "p + 8 \<noteq> ctx" "p + 16 \<noteq> ctx" "p + 24 \<noteq> ctx" "p + 32 \<noteq> ctx" "p + 40 \<noteq> ctx" "p + 48 \<noteq> ctx" "aligned8 ctx" "aligned8 p"
      using run by (auto simp: ready64_def frame64_def)
    then show ?thesis
      unfolding s1(4) saved_mem64_def suspended64_def by (simp add: frame_distinct)
  qed
  have same: "mem s1 a = mem s a" if "a \<notin> frame64 p \<union> {ctx}" for a
    using that unfolding s1(4) saved_mem64_def frame64_def by simp
  have "suspended64 (mem s1) ctx' q c r"
    using to(1) by (rule suspended64_cong) (use ap same in \<open>unfold apart64_def, blast\<close>)
  moreover have "q + 64 \<notin> frame64 p \<union> {ctx}"
    using ap unfolding apart64_def by blast
  then have "mem s1 (q + 64) = Some di"
    using to(2) same by simp
  ultimately obtain s2 where "exec64s l restore_code64 s1 = Some s2" "mem s2 = mem s1" "rip s2 = c" "regs s2 RSP = q + 56" "regs s2 RDI = di"
      "\<forall>x \<in> callee_saved. regs s2 x = r x"
    using restore64 [of "mem s1" ctx' q c r s1 di l] s1(2,3) by auto
  with s1(1) load(1) saved same show ?thesis
    by (simp add: fiber_context_swap_def swap_code_parts exec64s_append)
qed

section \<open>New stacks\<close>

lemma clear_low_bits:
  fixes x :: "64 word"
  shows "unat (x AND NOT 15) = unat x - unat x mod 16" "(x AND NOT 15) AND 15 = 0"
proof -
  have m: "x AND 15 = take_bit 4 x"
    by (simp add: take_bit_eq_mask mask_eq_exp_minus_1)
  have low: "unat (x AND 15) = unat x mod 16"
    unfolding m by (simp add: take_bit_eq_mod unat_mod_distrib)
  have "x = (x AND 15) OR (x AND NOT 15)"
    by (simp add: bit_eq_iff bit_simps) blast
  moreover have "(x AND 15) AND (x AND NOT 15) = 0"
    by (simp add: bit_eq_iff bit_simps)
  ultimately have sum: "x = (x AND 15) + (x AND NOT 15)"
    by (simp add: disjunctive_add_eq_or)
  have "x AND 15 \<le> x"
    by (metis low mod_less_eq_dividend word_le_nat_alt)
  then have "unat (x - (x AND 15)) = unat x - unat (x AND 15)"
    by (simp add: unat_sub)
  moreover have "x - (x AND 15) = x AND NOT 15"
    using sum by (metis add_diff_cancel_left')
  ultimately show "unat (x AND NOT 15) = unat x - unat x mod 16"
    by (simp add: low)
  show "(x AND NOT 15) AND 15 = 0"
    by (simp add: and.assoc)
qed

lemma init_pushes:
  assumes "aligned8 q" "\<forall>a \<in> frame64 q \<union> {q + 56, q + 64}. m a \<noteq> None"
  shows "push_frame64 param f (m, q + 72) =
    Some (m(q + 64 \<mapsto> param, q + 56 \<mapsto> 0, q + 48 \<mapsto> f, q + 40 \<mapsto> 0, q + 32 \<mapsto> 0, q + 24 \<mapsto> 0, q + 16 \<mapsto> 0, q + 8 \<mapsto> 0, q \<mapsto> 0), q)"
proof -
  have "aligned8 (q + 56)"
    using assms(1) by (rule aligned8_add) (simp add: aligned8_def)
  with assms show ?thesis
    by (simp add: push_frame64_def push64_def store64_mapped frame64_def word_plus_minus)
qed

text \<open>What a new stack holds: a frame that continues at the function, the return address 0 above it, and the argument.\<close>

definition new_stack64 :: "mem64 \<Rightarrow> 64 word \<Rightarrow> 64 word \<Rightarrow> 64 word \<Rightarrow> bool" where
  "new_stack64 m q f param \<longleftrightarrow> (\<forall>a \<in> {q, q + 8, q + 16, q + 24, q + 32, q + 40}. m a = Some 0) \<and> m (q + 48) = Some f \<and> m (q + 56) = Some 0 \<and> m (q + 64) = Some param"

lemma new_stack_suspended:
  "new_stack64 m q f param \<Longrightarrow> aligned8 q \<Longrightarrow> aligned8 ctx \<Longrightarrow> m ctx = Some q \<Longrightarrow> suspended64 m ctx q f (\<lambda>_. 0)"
  by (simp add: new_stack64_def suspended64_def frame64_def)

lemma context_init_ok:
  assumes alloc: "fiber_context_alloc_stack strategy page allocated protected stack_size c = (c1, True, rel)" "stack_size \<noteq> 0" "run_function \<noteq> 0"
    and top: "unat (ctx_stack c1) + unat (ctx_stack_size c1) < 2 ^ 64" "low + 104 \<le> unat (ctx_stack c1) + unat (ctx_stack_size c1)"
    and region: "\<forall>a. aligned8 a \<and> low \<le> unat a \<and> unat a < unat (ctx_stack c1) + unat (ctx_stack_size c1) \<longrightarrow> m a \<noteq> None"
  shows "\<exists>m' q. fiber_context_init strategy page allocated protected stack_size run_function param m c =
      Some (m', c1\<lparr>ctx_stack_pointer := q, ctx_is_thread := False\<rparr>, Init_Success) \<and>
    q AND 15 = 0 \<and> low \<le> unat q \<and> unat q + 80 < unat (ctx_stack c1) + unat (ctx_stack_size c1) \<and> new_stack64 m' q run_function param"
proof -
  let ?top = "unat (ctx_stack c1) + unat (ctx_stack_size c1)"
  define x where "x = ctx_stack c1 + ctx_stack_size c1 - 8"
  define sp0 where "sp0 = x AND NOT 15"
  define q where "q = sp0 - 80"
  have "unat (ctx_stack c1 + ctx_stack_size c1) = ?top"
    using top(1) by (simp add: unat_word_ariths)
  then have x: "unat x = ?top - 8"
    using top(2) by (simp add: x_def unat_sub word_le_nat_alt)
  have sp0: "unat sp0 = ?top - 8 - (?top - 8) mod 16"
    unfolding sp0_def clear_low_bits(1) x ..
  then have ge: "unat sp0 \<ge> low + 81" "unat sp0 < ?top"
    using top(2) mod_less_divisor [of 16 "?top - 8"] by linarith+
  then have q: "unat q = unat sp0 - 80"
    by (simp add: q_def unat_sub word_le_nat_alt)
  have "16 dvd unat sp0"
    unfolding sp0 by (metis dvd_triv_left minus_mod_eq_mult_div)
  then have "16 dvd unat q"
    unfolding q by (intro dvd_diff_nat) simp_all
  then have al: "q AND 15 = 0" "aligned8 q"
    unfolding aligned16_unat aligned8_unat by (auto simp: dvd_def)
  have off: "unat (q + of_nat n) = unat q + n" if "n \<le> 80" for n
    using that q ge top(1) by (simp add: unat_word_ariths unat_of_nat)
  have mapped: "m (q + of_nat n) \<noteq> None" if "n \<le> 64" "aligned8 (of_nat n)" for n
  proof -
    have "low \<le> unat (q + of_nat n)" "unat (q + of_nat n) < ?top"
      using that off [of n] q ge by linarith+
    with aligned8_add [OF al(2) that(2)] region show ?thesis by blast
  qed
  have cells: "\<forall>a \<in> frame64 q \<union> {q + 56, q + 64}. m a \<noteq> None"
    using mapped [of 0] mapped [of 8] mapped [of 16] mapped [of 24] mapped [of 32] mapped [of 40] mapped [of 48] mapped [of 56] mapped [of 64]
    by (simp add: frame64_def aligned8_def)
  let ?m = "m(q + 64 \<mapsto> param, q + 56 \<mapsto> 0, q + 48 \<mapsto> run_function, q + 40 \<mapsto> 0, q + 32 \<mapsto> 0, q + 24 \<mapsto> 0, q + 16 \<mapsto> 0, q + 8 \<mapsto> 0, q \<mapsto> 0)"
  have sp: "((ctx_stack c1 + ctx_stack_size c1 - 8) AND NOT 15) - 8 = q + 72"
    by (simp add: q_def sp0_def x_def)
  have "fiber_context_init strategy page allocated protected stack_size run_function param m c =
      Some (?m, c1\<lparr>ctx_stack_pointer := q, ctx_is_thread := False\<rparr>, Init_Success)"
    unfolding fiber_context_init_def alloc(1) prod.case bool.case Let_def sp init_pushes [OF al(2) cells]
    using alloc(2,3) al(1) by simp
  moreover have "new_stack64 ?m q run_function param"
    by (simp add: new_stack64_def frame64_def frame_distinct)
  ultimately show ?thesis
    using al(1) q ge by (intro exI [of _ ?m] exI [of _ q]) simp
qed

section \<open>The 32-bit switch\<close>

type_synonym mem32 = "32 word \<Rightarrow> 32 word option"

definition load32 :: "mem32 \<Rightarrow> 32 word \<Rightarrow> 32 word option" where
  "load32 m a = (if a AND 3 = 0 then m a else None)"

definition store32 :: "mem32 \<Rightarrow> 32 word \<Rightarrow> 32 word \<Rightarrow> mem32 option" where
  "store32 m a v = (if a AND 3 = 0 \<and> m a \<noteq> None then Some (m(a \<mapsto> v)) else None)"

definition push32 :: "32 word \<Rightarrow> mem32 \<times> 32 word \<Rightarrow> (mem32 \<times> 32 word) option" where
  "push32 v ms = (case ms of (m, sp) \<Rightarrow> do { m1 \<leftarrow> store32 m (sp - 4) v; Some (m1, sp - 4) })"

text \<open>The stack of a new context from the end of its stack: an unused word, the argument, the return address and the function.\<close>

definition init_stack32 :: "32 word \<Rightarrow> 32 word \<Rightarrow> 32 word \<Rightarrow> mem32 \<Rightarrow> (mem32 \<times> 32 word) option" where
  "init_stack32 stack_end run_function param m = do {
     let sp0 = (stack_end - 4) AND NOT 15;
     ms1 \<leftarrow> push32 param (m, sp0 - 4);
     ms2 \<leftarrow> push32 0 ms1;
     (m3, sp) \<leftarrow> push32 run_function ms2;
     c_assert (sp AND 15 = 0);
     Some (m3, sp)
   }"

record x32 =
  eax :: "32 word"
  edx :: "32 word"
  ecx :: "32 word"
  esp :: "32 word"
  ebp :: "32 word"
  mem32 :: mem32
  eip :: "32 word"

text \<open>
  The code up to the jump: push \<open>ebp\<close> and the address of label 0, save the stack pointer, load the other one, pop the address and jump.  At label 0 the
  context that continues pops \<open>ebp\<close>.
\<close>

definition swap_code32 :: "32 word \<Rightarrow> x32 \<Rightarrow> x32 option" where
  "swap_code32 label0 s = do {
     m1 \<leftarrow> store32 (mem32 s) (esp s - 4) (ebp s);
     m2 \<leftarrow> store32 m1 (esp s - 8) label0;
     m3 \<leftarrow> store32 m2 (eax s) (esp s - 8);
     c \<leftarrow> load32 m3 (edx s);
     Some (s\<lparr>mem32 := m3, ecx := c, esp := edx s + 4, eip := c\<rparr>)
   }"

definition label0_code32 :: "x32 \<Rightarrow> x32 option" where
  "label0_code32 s = do { b \<leftarrow> load32 (mem32 s) (esp s); Some (s\<lparr>ebp := b, esp := esp s + 4\<rparr>) }"

definition fiber_context_swap32 :: "32 word \<Rightarrow> 32 word \<Rightarrow> 32 word \<Rightarrow> x32 \<Rightarrow> x32 option" where
  "fiber_context_swap32 label0 from_sp to_ctx s = do {
     to_sp \<leftarrow> load32 (mem32 s) to_ctx;
     swap_code32 label0 (s\<lparr>eax := from_sp, edx := to_sp\<rparr>)
   }"

section \<open>Properties\<close>

text \<open>C8. The 64-bit context switch.  Switching from a running context to a suspended one continues the second where it stopped, with its stack pointer and its callee-saved registers, and writes nothing but a frame
  below the stack pointer of the first and its saved stack pointer.  Whenever any context later switches back to the first, as long as nobody wrote into that frame, the first continues at the label behind the
  switch with the stack pointer and all the callee-saved registers it had.
\<close>

theorem context_switch_roundtrip:
  assumes "ready64 s p ctx" "suspended64 (mem s) ctx' q c r" "mem s (q + 64) = Some di" "apart64 p ctx q ctx'"
  shows "\<exists>s1. fiber_context_swap l ctx ctx' s = Some s1 \<and> rip s1 = c \<and> regs s1 RSP = q + 56 \<and> (\<forall>x \<in> callee_saved. regs s1 x = r x) \<and>
    (\<forall>a. a \<notin> frame64 p \<union> {ctx} \<longrightarrow> mem s1 a = mem s a) \<and>
    (\<forall>s2 p2 ctx2 l2. ready64 s2 p2 ctx2 \<and> apart64 p2 ctx2 p ctx \<and> (\<forall>a \<in> frame64 p \<union> {ctx}. mem s2 a = mem s1 a) \<and> mem s2 (p + 64) \<noteq> None \<longrightarrow>
       (\<exists>s3. fiber_context_swap l2 ctx2 ctx s2 = Some s3 \<and> rip s3 = l \<and> regs s3 RSP = regs s RSP \<and>
          (\<forall>x \<in> callee_saved. regs s3 x = regs s x)))"
proof -
  obtain s1 where s1: "fiber_context_swap l ctx ctx' s = Some s1" "rip s1 = c" "regs s1 RSP = q + 56" "\<forall>x \<in> callee_saved. regs s1 x = r x"
      "suspended64 (mem s1) ctx p l (regs s)" "\<forall>a. a \<notin> frame64 p \<union> {ctx} \<longrightarrow> mem s1 a = mem s a"
    using swap64 [OF assms] by blast
  have "\<exists>s3. fiber_context_swap l2 ctx2 ctx s2 = Some s3 \<and> rip s3 = l \<and> regs s3 RSP = regs s RSP \<and> (\<forall>x \<in> callee_saved. regs s3 x = regs s x)"
    if s2: "ready64 s2 p2 ctx2" "apart64 p2 ctx2 p ctx" "\<forall>a \<in> frame64 p \<union> {ctx}. mem s2 a = mem s1 a" "mem s2 (p + 64) \<noteq> None" for s2 p2 ctx2 l2
  proof -
    obtain di where "mem s2 (p + 64) = Some di"
      using s2(4) by blast
    moreover have "regs s RSP = p + 56"
      using assms(1) by (simp add: ready64_def)
    ultimately show ?thesis
      using swap64 [OF s2(1) suspended64_cong [OF s1(5) s2(3)] _ s2(2), of di l2] by metis
  qed
  with s1 show ?thesis
    by blast
qed

definition demo_x64 :: x64 where
  "demo_x64 = \<lparr>regs = (\<lambda>_. 5)(RSP := 1056), mem = (\<lambda>a. Some (if a = 3000 then 2000 else 0)), rip = 0\<rparr>"

lemma demo_frames: "ready64 demo_x64 1000 4000" "suspended64 (mem demo_x64) 3000 2000 0 (\<lambda>_. 0)" "mem demo_x64 (2000 + 64) = Some 0" "apart64 1000 4000 2000 3000"
  by (simp_all add: ready64_def suspended64_def apart64_def frame64_def demo_x64_def aligned8_def)

theorem context_switch_roundtrip_witness:
  "\<exists>s1. fiber_context_swap 77 4000 3000 demo_x64 = Some s1 \<and> rip s1 = 0 \<and> regs s1 RSP = 2056"
proof -
  obtain s1 where "fiber_context_swap 77 4000 3000 demo_x64 = Some s1" "rip s1 = 0" "regs s1 RSP = 2000 + 56"
    using context_switch_roundtrip [OF demo_frames, of 77] by blast
  then show ?thesis
    by (intro exI [of _ s1]) simp
qed

text \<open>C14. A new 64-bit context starts correctly.  When its stack was allocated and the 104 bytes at its upper end are mapped, making the context succeeds without touching memory outside the stack, and the first switch to
  it enters the function with its argument in \<open>rdi\<close>, the return address 0 on top of the stack, and the stack aligned as the calling convention asks for at the entry of a function.
\<close>

theorem new_context_starts:
  assumes "fiber_context_alloc_stack strategy page allocated protected stack_size c = (c1, True, rel)" "stack_size \<noteq> 0" "run_function \<noteq> 0"
    "unat (ctx_stack c1) + unat (ctx_stack_size c1) < 2 ^ 64" "low + 104 \<le> unat (ctx_stack c1) + unat (ctx_stack_size c1)"
    "\<forall>a. aligned8 a \<and> low \<le> unat a \<and> unat a < unat (ctx_stack c1) + unat (ctx_stack_size c1) \<longrightarrow> m a \<noteq> None"
  shows "\<exists>m' c'. fiber_context_init strategy page allocated protected stack_size run_function param m c = Some (m', c', Init_Success) \<and>
    (\<forall>s p ctx ctx' l. ready64 s p ctx \<and> aligned8 ctx' \<and> mem s ctx' = Some (ctx_stack_pointer c') \<and> apart64 p ctx (ctx_stack_pointer c') ctx' \<and>
       new_stack64 (mem s) (ctx_stack_pointer c') run_function param \<longrightarrow>
       (\<exists>s'. fiber_context_swap l ctx ctx' s = Some s' \<and> rip s' = run_function \<and> regs s' RDI = param \<and>
          mem s' (regs s' RSP) = Some 0 \<and> (regs s' RSP + 8) AND 15 = 0)) \<and>
    new_stack64 m' (ctx_stack_pointer c') run_function param"
proof -
  obtain m' q where init: "fiber_context_init strategy page allocated protected stack_size run_function param m c =
      Some (m', c1\<lparr>ctx_stack_pointer := q, ctx_is_thread := False\<rparr>, Init_Success)" and q: "q AND 15 = 0" "new_stack64 m' q run_function param"
    using context_init_ok [OF assms] by blast
  have al: "aligned8 q" "(q + 56 + 8) AND 15 = 0"
  proof -
    have "unat q mod 16 = 0"
      using q(1) by (simp add: aligned16_unat)
    moreover have "unat (q + 64) mod 16 = unat q mod 16"
      by (simp add: unat_word_ariths mod_mod_cancel mod_add_eq [of "unat q" 16 64, symmetric])
    ultimately have "unat q mod 8 = 0" "(q + 64) AND 15 = 0"
      by (auto simp: aligned16_unat dvd_def)
    then show "aligned8 q" "(q + 56 + 8) AND 15 = 0"
      by (simp_all add: aligned8_unat add.assoc)
  qed
  have "\<exists>s'. fiber_context_swap l ctx ctx' s = Some s' \<and> rip s' = run_function \<and> regs s' RDI = param \<and> mem s' (regs s' RSP) = Some 0 \<and> (regs s' RSP + 8) AND 15 = 0"
    if s: "ready64 s p ctx" "aligned8 ctx'" "mem s ctx' = Some q" "apart64 p ctx q ctx'" "new_stack64 (mem s) q run_function param" for s p ctx ctx' l
  proof -
    obtain s' where s': "fiber_context_swap l ctx ctx' s = Some s'" "rip s' = run_function" "regs s' RSP = q + 56" "regs s' RDI = param"
        "\<forall>a. a \<notin> frame64 p \<union> {ctx} \<longrightarrow> mem s' a = mem s a"
      using swap64 [OF s(1) new_stack_suspended [OF s(5) al(1) s(2,3)] _ s(4), of param l] s(5) by (auto simp: new_stack64_def)
    have "q + 56 \<notin> frame64 p \<union> {ctx}"
      using s(4) unfolding apart64_def by blast
    with s'(5) s(5) have "mem s' (q + 56) = Some 0"
      by (simp add: new_stack64_def)
    with s' al(2) show ?thesis by simp
  qed
  with init q(2) show ?thesis
    by (intro exI [of _ m'] exI [of _ "c1\<lparr>ctx_stack_pointer := q, ctx_is_thread := False\<rparr>"]) (simp, blast)
qed


theorem new_context_starts_witness:
  "\<exists>m' c'. fiber_context_init FIBER_STACK_MALLOC 4096 (Some 8192) True 4096 77 9 (\<lambda>_. Some 1) fiber_context_init_from_thread = Some (m', c', Init_Success) \<and>
     new_stack64 m' (ctx_stack_pointer c') 77 9"
proof -
  let ?c = "fiber_context_init_from_thread\<lparr>ctx_stack := 8192, ctx_stack_size := 4096\<rparr>"
  have alloc: "fiber_context_alloc_stack FIBER_STACK_MALLOC 4096 (Some 8192) True 4096 fiber_context_init_from_thread = (?c, True, [])"
    by (simp add: fiber_context_alloc_stack_def)
  show ?thesis
    using new_context_starts [OF alloc, of 77 8192 "\<lambda>_. Some 1" 9] by auto
qed

text \<open>With mapped stacks a fiber always has less stack than was asked for.  For a request of at least a page less 50 bytes, the mapping is larger than the request, but the first page of it is made
  inaccessible as a sentinel, and what remains is smaller than the request by at least 50 bytes.
\<close>

theorem mapped_stack_too_small:
  assumes "100 \<le> unat page" "unat page < 2 ^ 32" "unat page \<le> unat sz + 50" "unat sz < 2 ^ 63"
  shows "unat sz < unat (fiber_round_to_page_size page sz) \<and>
    unat (fiber_round_to_page_size page sz) - unat page + 50 \<le> unat sz"
proof -
  define P where "P = unat page - 50"
  have P: "unat (page - 50) = P" "0 < P" "P < 2 ^ 32" "P \<le> unat sz" "P + 50 = unat page"
    using assms(1-3) by (simp_all add: P_def unat_sub word_le_nat_alt)
  have "unat (sz div (page - 50)) = unat sz div P"
    by (simp add: unat_div_distrib P(1))
  moreover have d: "unat sz div P < 2 ^ 63" "1 \<le> unat sz div P"
    using P(2,4) assms(4) by (simp_all add: div_le_dividend le_less_trans [OF div_le_dividend] Suc_le_eq div_greater_zero_iff)
  ultimately have n: "unat (sz div (page - 50) + 1) = unat sz div P + 1"
    by (simp add: unat_word_ariths)
  then have "sz div (page - 50) + 1 \<ge> 2"
    using d(2) by (simp add: word_le_nat_alt)
  then have r: "fiber_round_to_page_size page sz = (page - 50) * (sz div (page - 50) + 1)"
    by (simp add: fiber_round_to_page_size_def Let_def)
  have mul: "unat (a * b) = unat a * unat b mod 2 ^ 64" for a b :: "64 word"
    by (simp add: unat_word_ariths)
  have le: "P * (unat sz div P) \<le> unat sz" "unat sz < P * (unat sz div P + 1)"
    using P(2) by (simp_all add: dividend_less_times_div)
  moreover have eq: "P * (unat sz div P + 1) = P * (unat sz div P) + P"
    by simp
  moreover have "(2 :: nat) ^ 63 + 2 ^ 32 \<le> 2 ^ 64"
    by simp
  ultimately have "P * (unat sz div P + 1) < 2 ^ 64"
    using assms(4) P(3) by linarith
  then have "unat (fiber_round_to_page_size page sz) = P * (unat sz div P + 1)"
    unfolding r mul P(1) n by simp
  moreover have "P \<le> P * (unat sz div P)" "50 \<le> P"
    using d(2) assms(1) P(5) by simp_all
  ultimately show ?thesis
    using le eq P(5) by linarith
qed

theorem mapped_stack_too_small_witness:
  "fiber_round_to_page_size 4096 102400 = 105196 \<and> (102400 :: nat) < 105196 \<and> 105196 - 4096 + 50 \<le> (102400 :: nat)"
  using mapped_stack_too_small [of 4096 102400] by (simp add: fiber_round_to_page_size_def)

lemma low_bits32:
  fixes a :: "32 word"
  shows "a AND 15 = 0 \<longleftrightarrow> uint a mod 16 = 0" "a AND 3 = 0 \<longleftrightarrow> uint a mod 4 = 0" "a AND 15 = 8 \<longleftrightarrow> uint a mod 16 = 8"
proof -
  have "a AND 15 = take_bit 4 a" "a AND 3 = take_bit 2 a"
    by (simp_all add: take_bit_eq_mask mask_eq_exp_minus_1)
  then have "uint (a AND 15) = uint a mod 16" "uint (a AND 3) = uint a mod 4"
    by (simp_all add: take_bit_eq_mod uint_mod_distrib)
  then show "a AND 15 = 0 \<longleftrightarrow> uint a mod 16 = 0" "a AND 3 = 0 \<longleftrightarrow> uint a mod 4 = 0" "a AND 15 = 8 \<longleftrightarrow> uint a mod 16 = 8"
    by (simp_all add: word_uint_eq_iff)
qed

lemma low_bits_offset32:
  fixes a b :: "32 word"
  shows "uint (a + b) mod 16 = (uint a + uint b) mod 16" "uint (a - b) mod 16 = (uint a - uint b) mod 16"
proof -
  have "uint (a + b) = (uint a + uint b) mod 2 ^ 32" "uint (a - b) = (uint a - uint b) mod 2 ^ 32"
    by (simp_all add: uint_word_ariths)
  then show "uint (a + b) mod 16 = (uint a + uint b) mod 16" "uint (a - b) mod 16 = (uint a - uint b) mod 16"
    by (simp_all add: mod_mod_cancel)
qed

lemma low_bits4_offset32:
  fixes a b :: "32 word"
  shows "uint (a - b) mod 4 = (uint a - uint b) mod 4"
proof -
  have "uint (a - b) = (uint a - uint b) mod 2 ^ 32"
    by (simp add: uint_word_ariths)
  then show ?thesis
    by (simp add: mod_mod_cancel)
qed

text \<open>A new 32-bit context starts misaligned.  The first switch to it enters the function with the return address 0 on top of the stack and the argument above it, but the address of the argument is 8 modulo 16,
  where the calling convention, which the code means to follow with its alignment to 16 bytes, asks for a multiple of 16.
\<close>

theorem new_context32_misaligned:
  assumes "\<forall>a. a AND 3 = 0 \<longrightarrow> m a \<noteq> None"
  shows "\<exists>m' sp. init_stack32 stack_end run_function param m = Some (m', sp) \<and>
    (\<forall>s from_sp to_ctx l. (\<forall>a. a AND 3 = 0 \<longrightarrow> mem32 s a \<noteq> None) \<and> from_sp AND 3 = 0 \<and> to_ctx AND 3 = 0 \<and> esp s AND 3 = 0 \<and>
       mem32 s to_ctx = Some sp \<and> (\<forall>a \<in> {sp, sp + 4, sp + 8}. mem32 s a = m' a \<and> a \<notin> {esp s - 4, esp s - 8, from_sp}) \<longrightarrow>
       (\<exists>s'. fiber_context_swap32 l from_sp to_ctx s = Some s' \<and> eip s' = run_function \<and>
          mem32 s' (esp s') = Some 0 \<and> mem32 s' (esp s' + 4) = Some param \<and> (esp s' + 4) AND 15 = 8))"
proof -
  define sp where "sp = ((stack_end - 4) AND NOT 15) - 16"
  have "uint ((stack_end - 4) AND NOT 15) mod 16 = 0"
    unfolding low_bits32(1) [symmetric] by (simp add: and.assoc)
  then have sp: "uint sp mod 16 = 0"
    unfolding sp_def low_bits_offset32(2) by (simp add: mod_diff_left_eq [symmetric])
  have four: "uint x mod 4 = 0" if "uint x mod 16 \<in> {0, 4, 8, 12}" for x :: "32 word"
    using that by auto presburger+
  have off: "uint (sp + n) mod 16 = uint n mod 16" for n
    unfolding low_bits_offset32(1) using sp by (simp add: mod_add_left_eq [symmetric])
  have al: "sp AND 3 = 0" "(sp + 4) AND 3 = 0" "(sp + 8) AND 3 = 0" "sp AND 15 = 0" "(sp + 8) AND 15 = 8"
    unfolding low_bits32 using sp off [of 4] off [of 8] by (auto intro: four)
  have sp0: "((stack_end - 4) AND NOT 15) - 4 = sp + 12"
    by (simp add: sp_def)
  let ?m = "m(sp + 8 \<mapsto> param, sp + 4 \<mapsto> 0, sp \<mapsto> run_function)"
  have ne: "sp \<noteq> sp + 4" "sp \<noteq> sp + 8" "sp + 4 \<noteq> sp + 8"
    by simp_all
  have plus: "sp + 4 + 4 = sp + 8"
    by simp
  have minus: "sp + 12 - 4 = sp + 8" "sp + 8 - 4 = sp + 4" "sp + 4 - 4 = sp"
    by simp_all
  have init: "init_stack32 stack_end run_function param m = Some (?m, sp)"
    unfolding init_stack32_def Let_def sp0 using assms al by (simp add: push32_def store32_def minus)
  have swap: "\<exists>s'. fiber_context_swap32 l from_sp to_ctx s = Some s' \<and> eip s' = run_function \<and>
        mem32 s' (esp s') = Some 0 \<and> mem32 s' (esp s' + 4) = Some param \<and> (esp s' + 4) AND 15 = 8"
    if s: "\<forall>a. a AND 3 = 0 \<longrightarrow> mem32 s a \<noteq> None" "from_sp AND 3 = 0" "to_ctx AND 3 = 0" "esp s AND 3 = 0" "mem32 s to_ctx = Some sp"
      "\<forall>a \<in> {sp, sp + 4, sp + 8}. mem32 s a = ?m a \<and> a \<notin> {esp s - 4, esp s - 8, from_sp}" for s from_sp to_ctx l
  proof -
    have stack: "(esp s - 4) AND 3 = 0" "(esp s - 8) AND 3 = 0"
      using s(4) unfolding low_bits32(2) low_bits4_offset32 by (simp_all add: mod_diff_left_eq [symmetric])
    show ?thesis
      using s al stack ne by (simp add: fiber_context_swap32_def swap_code32_def load32_def store32_def plus)
  qed
  show ?thesis
    by (intro exI [of _ ?m] exI [of _ sp] conjI [OF init] allI impI, elim conjE, rule swap)
qed

theorem new_context32_misaligned_witness:
  "\<exists>m' sp. init_stack32 8192 77 9 (\<lambda>_. Some 1) = Some (m', sp)"
proof -
  have "\<forall>a. a AND 3 = 0 \<longrightarrow> (\<lambda>_ :: 32 word. Some (1 :: 32 word)) a \<noteq> None"
    by simp
  from new_context32_misaligned [OF this, of 8192 77 9] show ?thesis
    by blast
qed

end
