(* ===== verification/Context_Portable.thy ===== *)
theory Context_Portable
  imports Context
begin

text \<open>
  The portable variant of \<open>src/fiber_context.c\<close>, for processors without an assembly switch: a context is a block that holds a
  \<open>ucontext_t\<close>.  The state is the table of these blocks and the context that the kernel thread is executing; the functions of
  \<open>ucontext.h\<close> are the ones of the C library.  \<open>'r\<close> is whatever the processor has to save.
\<close>

section \<open>The C library\<close>

datatype 'r uc_code = Uc_Saved 'r | Uc_Entry "64 word" "64 word"

record 'r ucontext =
  uc_link :: "64 word"
  uc_stack_sp :: "64 word"
  uc_stack_size :: "64 word"
  uc_stack_flags :: "32 word"
  uc_code :: "'r uc_code"

record 'r uc_machine =
  um_blocks :: "64 word \<Rightarrow> 'r ucontext option"
  um_now :: "'r ucontext"

definition uc_block :: "'r uc_machine \<Rightarrow> 64 word \<Rightarrow> 'r ucontext option" where
  "uc_block s a = (if a = 0 then None else um_blocks s a)"

definition uc_update :: "64 word \<Rightarrow> ('r ucontext \<Rightarrow> 'r ucontext) \<Rightarrow> 'r uc_machine \<Rightarrow> 'r uc_machine option" where
  "uc_update a f s = do { u \<leftarrow> uc_block s a; Some (s\<lparr>um_blocks := (um_blocks s)(a \<mapsto> f u)\<rparr>) }"

text \<open>The block of a \<open>malloc\<close> that succeeded; its content is arbitrary.\<close>

definition uc_malloc :: "64 word \<Rightarrow> 'r ucontext \<Rightarrow> 'r uc_machine \<Rightarrow> 'r uc_machine" where
  "uc_malloc a junk s = s\<lparr>um_blocks := (um_blocks s)(a \<mapsto> junk)\<rparr>"

definition uc_free :: "64 word \<Rightarrow> 'r uc_machine \<Rightarrow> 'r uc_machine option" where
  "uc_free a s = (if a = 0 then Some s else do { _ \<leftarrow> uc_block s a; Some (s\<lparr>um_blocks := (um_blocks s)(a := None)\<rparr>) })"

definition getcontext :: "64 word \<Rightarrow> 'r uc_machine \<Rightarrow> 'r uc_machine option" where
  "getcontext a s = uc_update a (\<lambda>_. um_now s) s"

definition makecontext :: "64 word \<Rightarrow> 64 word \<Rightarrow> 64 word \<Rightarrow> 'r uc_machine \<Rightarrow> 'r uc_machine option" where
  "makecontext a func arg s = uc_update a (\<lambda>u. u\<lparr>uc_code := Uc_Entry func arg\<rparr>) s"

definition swapcontext :: "64 word \<Rightarrow> 64 word \<Rightarrow> 'r uc_machine \<Rightarrow> 'r uc_machine option" where
  "swapcontext a b s = do { s1 \<leftarrow> getcontext a s; u \<leftarrow> uc_block s1 b; Some (s1\<lparr>um_now := u\<rparr>) }"

section \<open>Contexts\<close>

text \<open>\<open>block\<close> is what \<open>malloc\<close> returns; the result lists what was given back to the system on the way.\<close>

definition fiber_context_init_uc ::
  "stack_strategy \<Rightarrow> 64 word \<Rightarrow> 64 word option \<Rightarrow> bool \<Rightarrow> 64 word \<Rightarrow> 'r ucontext \<Rightarrow> 64 word \<Rightarrow> 64 word \<Rightarrow> 64 word \<Rightarrow>
   fiber_context \<Rightarrow> 'r uc_machine \<Rightarrow> ('r uc_machine \<times> fiber_context \<times> init_result \<times> stack_release list) option" where
  "fiber_context_init_uc strategy page allocated protected block junk stack_size run_function param c s =
     (let c1 = c\<lparr>ctx_stack_pointer := block\<rparr> in
      if block = 0 then Some (s, c1, Init_Error, [])
      else do {
        s1 \<leftarrow> getcontext block (uc_malloc block junk s);
        s2 \<leftarrow> uc_update block (\<lambda>u. u\<lparr>uc_link := 0\<rparr>) s1;
        case fiber_context_alloc_stack strategy page allocated protected stack_size c1 of
          (c2, False, released) \<Rightarrow> do { s3 \<leftarrow> uc_free block s2; Some (s3, c2, Init_Error, released) }
        | (c2, True, released) \<Rightarrow> do {
            s3 \<leftarrow> uc_update block (\<lambda>u. u\<lparr>uc_stack_sp := ctx_stack c2, uc_stack_size := ctx_stack_size c2, uc_stack_flags := 0\<rparr>) s2;
            s4 \<leftarrow> makecontext block run_function param s3;
            Some (s4, c2\<lparr>ctx_is_thread := False\<rparr>, Init_Success, released)
          }
      })"

definition fiber_context_init_from_thread_uc ::
  "64 word \<Rightarrow> 'r ucontext \<Rightarrow> fiber_context option \<Rightarrow> 'r uc_machine \<Rightarrow> ('r uc_machine \<times> fiber_context option \<times> init_result) option" where
  "fiber_context_init_from_thread_uc block junk context s =
     (case context of
        None \<Rightarrow> Some (s, None, Init_Error)
      | Some _ \<Rightarrow>
          let c = \<lparr>ctx_stack = 0, ctx_stack_size = 0, ctx_stack_pointer = block, ctx_is_thread = False\<rparr> in
          if block = 0 then Some (s, Some c, Init_Error)
          else do { s1 \<leftarrow> getcontext block (uc_malloc block junk s); Some (s1, Some (c\<lparr>ctx_is_thread := True\<rparr>), Init_Success) })"

definition fiber_context_destroy_uc ::
  "stack_strategy \<Rightarrow> fiber_context option \<Rightarrow> 'r uc_machine \<Rightarrow> ('r uc_machine \<times> stack_release list) option" where
  "fiber_context_destroy_uc strategy context s =
     (case context of
        None \<Rightarrow> Some (s, [])
      | Some c \<Rightarrow> do {
          s1 \<leftarrow> uc_free (ctx_stack_pointer c) s;
          Some (s1, if ctx_is_thread c then [] else [fiber_free_stack strategy c])
        })"

definition fiber_context_swap_uc :: "fiber_context \<Rightarrow> fiber_context \<Rightarrow> 'r uc_machine \<Rightarrow> 'r uc_machine option" where
  "fiber_context_swap_uc from_context to_context = swapcontext (ctx_stack_pointer from_context) (ctx_stack_pointer to_context)"

lemmas uc_defs = uc_block_def uc_update_def uc_malloc_def uc_free_def getcontext_def makecontext_def swapcontext_def

section \<open>Properties\<close>

text \<open>The context that a successful call makes: a block of its own that will start the function on the new stack.\<close>

lemma init_uc_block:
  assumes "fiber_context_init_uc strategy page allocated protected block junk stack_size run_function param c s = Some (s', c', Init_Success, released)"
  shows "block \<noteq> 0" "ctx_stack_pointer c' = block" "\<not> ctx_is_thread c'" "released = []" "um_now s' = um_now s"
    "um_blocks s' = (um_blocks s)(block \<mapsto> \<lparr>uc_link = 0, uc_stack_sp = ctx_stack c', uc_stack_size = ctx_stack_size c', uc_stack_flags = 0,
       uc_code = Uc_Entry run_function param\<rparr>)"
  using assms
  by (auto simp: fiber_context_init_uc_def fiber_context_alloc_stack_def uc_defs Let_def split: if_splits prod.splits bool.splits stack_strategy.splits option.splits)

text \<open>A call that fails leaves no block behind.\<close>

lemma init_uc_error:
  assumes "fiber_context_init_uc strategy page allocated protected block junk stack_size run_function param c s = Some (s', c', Init_Error, released)"
    and "um_blocks s block = None"
  shows "s' = s"
  using assms
  by (auto simp: fiber_context_init_uc_def uc_defs Let_def fun_upd_idem split: if_splits prod.splits bool.splits)

text \<open>A call never faults, and it fails only without a block or without a stack.\<close>

lemma init_uc_total:
  "\<exists>s' c' r released. fiber_context_init_uc strategy page allocated protected block junk stack_size run_function param c s = Some (s', c', r, released) \<and>
     (r = Init_Success \<longleftrightarrow> block \<noteq> 0 \<and> fst (snd (fiber_context_alloc_stack strategy page allocated protected stack_size (c\<lparr>ctx_stack_pointer := block\<rparr>))))"
  by (auto simp: fiber_context_init_uc_def uc_defs Let_def split: prod.splits bool.splits)

lemma swap_uc:
  assumes "a \<noteq> 0" "b \<noteq> 0" "a \<noteq> b" "um_blocks s a \<noteq> None" "um_blocks s b = Some u"
  shows "swapcontext a b s = Some (s\<lparr>um_blocks := (um_blocks s)(a \<mapsto> um_now s), um_now := u\<rparr>)"
  using assms by (auto simp: uc_defs)

text \<open>
  The life of a portable context.  The first switch to a new context starts its function, with its argument, on its own stack; whatever
  runs there and wherever it is when it switches back, the first context continues exactly as it was; and destroying the new context gives
  back its block and its stack, and nothing else.
\<close>

theorem portable_context_life:
  assumes init: "fiber_context_init_uc strategy page allocated protected block junk stack_size run_function param c s = Some (s1, c1, Init_Success, released)"
    and "ctx_stack_pointer c0 \<noteq> 0" "ctx_stack_pointer c0 \<noteq> block" "um_blocks s (ctx_stack_pointer c0) \<noteq> None" "um_blocks s block = None"
  shows "\<exists>s2. fiber_context_swap_uc c0 c1 s1 = Some s2 \<and>
     um_now s2 = \<lparr>uc_link = 0, uc_stack_sp = ctx_stack c1, uc_stack_size = ctx_stack_size c1, uc_stack_flags = 0, uc_code = Uc_Entry run_function param\<rparr> \<and>
     (\<forall>later. \<exists>s3 s4. fiber_context_swap_uc c1 c0 (s2\<lparr>um_now := later\<rparr>) = Some s3 \<and> um_now s3 = um_now s \<and>
        fiber_context_destroy_uc strategy (Some c1) s3 = Some (s4, [fiber_free_stack strategy c1]) \<and>
        um_blocks s4 = (um_blocks s)(ctx_stack_pointer c0 \<mapsto> um_now s))"
proof -
  note i = init_uc_block [OF init]
  have "ctx_stack_pointer c0 \<noteq> ctx_stack_pointer c1" using i(2) assms(3) by simp
  then show ?thesis
    using i assms(2-5)
    by (auto simp: fiber_context_swap_uc_def fiber_context_destroy_uc_def swap_uc uc_free_def uc_block_def fun_upd_twist fun_upd_idem)
qed

end
