(* ===== verification/Cpp_Channel.thy ===== *)
theory Cpp_Channel
  imports Spsc_Fifo
begin

text \<open>
  \<open>cpp/channel.hpp\<close>: events over the unbounded channels.  An event lives in a block with a queue node in front of it; both have the address of the block
  here, in one heap of nodes and one of events.  The node that a queue returns is never the one the event was sent with, so an
  event points to the node it travels in (\<open>wrapper\<close>), and a node to its event (\<open>data\<close>).  The two classes differ in their queue only: the operations are
  functions of its push and its pop.  Waking the receiver is the subject of \<open>Unbounded_Channel\<close>.
\<close>

record event =
  evt_type :: nat
  evt_wrapper :: addr
  evt_payload :: "nat option"

record 'f event_channel =
  ech_nodes :: mpsc_heap
  ech_events :: "event heap"
  ech_queue :: 'f

datatype cpp_exception = Runtime_Error | Bad_Alloc

section \<open>Events\<close>

text \<open>\<open>a\<close> is what \<open>malloc\<close> returns; a new event has no payload, and its node points to itself.\<close>

definition allocEvent :: "addr \<Rightarrow> nat \<Rightarrow> 'f event_channel \<Rightarrow> cpp_exception + 'f event_channel \<times> addr" where
  "allocEvent a type s =
     (if a = NULL then Inl Bad_Alloc
      else Inr (s\<lparr>ech_nodes := (ech_nodes s)(a \<mapsto> \<lparr>mn_data = a, mn_next = NULL\<rparr>),
                  ech_events := (ech_events s)(a \<mapsto> \<lparr>evt_type = type, evt_wrapper = a, evt_payload = None\<rparr>)\<rparr>, a))"

text \<open>The destructor of the event ends its life, and the block of its wrapper is freed, with whatever event is in that block.\<close>

definition freeEvent :: "addr \<Rightarrow> 'f event_channel \<Rightarrow> 'f event_channel option" where
  "freeEvent e s = do {
     x \<leftarrow> load (ech_events s) e;
     let wrapper = evt_wrapper x;
     _ \<leftarrow> load (ech_nodes s) wrapper;
     Some (s\<lparr>ech_nodes := (ech_nodes s)(wrapper := None), ech_events := (ech_events s)(e := None, wrapper := None)\<rparr>)
   }"

definition getType :: "addr \<Rightarrow> 'f event_channel \<Rightarrow> nat option" where
  "getType e s = map_option evt_type (load (ech_events s) e)"

definition getPayload :: "addr \<Rightarrow> 'f event_channel \<Rightarrow> nat option option" where
  "getPayload e s = map_option evt_payload (load (ech_events s) e)"

definition setPayload :: "addr \<Rightarrow> nat \<Rightarrow> 'f event_channel \<Rightarrow> 'f event_channel option" where
  "setPayload e p s = do {
     x \<leftarrow> load (ech_events s) e;
     evs \<leftarrow> store (ech_events s) e (x\<lparr>evt_payload := Some p\<rparr>);
     Some (s\<lparr>ech_events := evs\<rparr>)
   }"

section \<open>Channels\<close>

type_synonym 'f push_fun = "mpsc_heap \<Rightarrow> 'f \<Rightarrow> addr \<Rightarrow> (mpsc_heap \<times> 'f) option"
type_synonym 'f pop_fun = "mpsc_heap \<Rightarrow> 'f \<Rightarrow> (mpsc_heap \<times> 'f \<times> addr) option"

definition event_send :: "'f push_fun \<Rightarrow> addr \<Rightarrow> 'f event_channel \<Rightarrow> 'f event_channel option" where
  "event_send push e s = do {
     x \<leftarrow> load (ech_events s) e;
     (h, f) \<leftarrow> push (ech_nodes s) (ech_queue s) (evt_wrapper x);
     Some (s\<lparr>ech_nodes := h, ech_queue := f\<rparr>)
   }"

text \<open>The event of a popped node learns its wrapper.\<close>

definition unwrap_event :: "addr \<Rightarrow> 'f event_channel \<Rightarrow> ('f event_channel \<times> addr) option" where
  "unwrap_event wrapper s = do {
     n \<leftarrow> load (ech_nodes s) wrapper;
     x \<leftarrow> load (ech_events s) (mn_data n);
     evs \<leftarrow> store (ech_events s) (mn_data n) (x\<lparr>evt_wrapper := wrapper\<rparr>);
     Some (s\<lparr>ech_events := evs\<rparr>, mn_data n)
   }"

definition event_tryReceive :: "'f pop_fun \<Rightarrow> 'f event_channel \<Rightarrow> ('f event_channel \<times> addr) option" where
  "event_tryReceive trypop s = do {
     (h, f, wrapper) \<leftarrow> trypop (ech_nodes s) (ech_queue s);
     let s1 = s\<lparr>ech_nodes := h, ech_queue := f\<rparr>;
     if wrapper = NULL then Some (s1, NULL) else unwrap_event wrapper s1
   }"

text \<open>Run alone, \<open>receive\<close> on an empty channel does not return.\<close>

definition event_receive :: "'f pop_fun \<Rightarrow> 'f event_channel \<Rightarrow> ('f event_channel \<times> addr) option" where
  "event_receive trypop s = do {
     (h, f, wrapper) \<leftarrow> trypop (ech_nodes s) (ech_queue s);
     c_assert (wrapper \<noteq> NULL);
     unwrap_event wrapper (s\<lparr>ech_nodes := h, ech_queue := f\<rparr>)
   }"

text \<open>The two classes, with \<open>a\<close> the block of the first node; a failure of the queue is an exception.\<close>

definition UnboundedMultiProducerChannel :: "addr \<Rightarrow> cpp_exception + mpsc_fifo event_channel" where
  "UnboundedMultiProducerChannel a =
     (case mpsc_fifo_init (\<lambda>_. None) a of (h, f, r) \<Rightarrow>
        if r = 0 then Inl Runtime_Error else Inr \<lparr>ech_nodes = h, ech_events = (\<lambda>_. None), ech_queue = f\<rparr>)"

definition mp_send :: "addr \<Rightarrow> mpsc_fifo event_channel \<Rightarrow> mpsc_fifo event_channel option" where
  "mp_send e s = event_send mpsc_fifo_push e s"

definition mp_tryReceive :: "mpsc_fifo event_channel \<Rightarrow> (mpsc_fifo event_channel \<times> addr) option" where
  "mp_tryReceive s = event_tryReceive mpsc_fifo_trypop s"

definition mp_receive :: "mpsc_fifo event_channel \<Rightarrow> (mpsc_fifo event_channel \<times> addr) option" where
  "mp_receive s = event_receive mpsc_fifo_trypop s"

definition mp_destroy :: "mpsc_fifo event_channel \<Rightarrow> mpsc_fifo event_channel option" where
  "mp_destroy s = do { (h, f) \<leftarrow> mpsc_fifo_destroy (ech_nodes s) (ech_queue s); Some (s\<lparr>ech_nodes := h, ech_queue := f\<rparr>) }"

definition UnboundedSingleProducerChannel :: "addr \<Rightarrow> cpp_exception + spsc_fifo event_channel" where
  "UnboundedSingleProducerChannel a =
     (case spsc_fifo_init (\<lambda>_. None) a of (h, f, r) \<Rightarrow>
        if r = 0 then Inl Runtime_Error else Inr \<lparr>ech_nodes = h, ech_events = (\<lambda>_. None), ech_queue = f\<rparr>)"

definition sp_send :: "addr \<Rightarrow> spsc_fifo event_channel \<Rightarrow> spsc_fifo event_channel option" where
  "sp_send e s = event_send spsc_fifo_push e s"

definition sp_tryReceive :: "spsc_fifo event_channel \<Rightarrow> (spsc_fifo event_channel \<times> addr) option" where
  "sp_tryReceive s = event_tryReceive spsc_fifo_trypop s"

definition sp_receive :: "spsc_fifo event_channel \<Rightarrow> (spsc_fifo event_channel \<times> addr) option" where
  "sp_receive s = event_receive spsc_fifo_trypop s"

definition sp_destroy :: "spsc_fifo event_channel \<Rightarrow> spsc_fifo event_channel option" where
  "sp_destroy s = do { (h, f) \<leftarrow> spsc_fifo_destroy (ech_nodes s) (ech_queue s); Some (s\<lparr>ech_nodes := h, ech_queue := f\<rparr>) }"

section \<open>Selecting\<close>

text \<open>Channels over the same heaps: their queues, and the heaps of the first component.\<close>

definition ChannelSelector :: "'f option list \<Rightarrow> cpp_exception + 'f list" where
  "ChannelSelector channels =
     (if channels = [] then Inl Runtime_Error
      else if None \<in> set channels then Inl Runtime_Error
      else Inr (map the channels))"

fun selector_tryReceive :: "'f pop_fun \<Rightarrow> mpsc_heap \<times> event heap \<Rightarrow> 'f list \<Rightarrow> ((mpsc_heap \<times> event heap) \<times> 'f list \<times> addr) option" where
  "selector_tryReceive trypop hs [] = Some (hs, [], NULL)"
| "selector_tryReceive trypop hs (f # fs) = do {
     (s, ret) \<leftarrow> event_tryReceive trypop \<lparr>ech_nodes = fst hs, ech_events = snd hs, ech_queue = f\<rparr>;
     if ret \<noteq> NULL then Some ((ech_nodes s, ech_events s), ech_queue s # fs, ret)
     else do {
       (hs', fs', ret') \<leftarrow> selector_tryReceive trypop (ech_nodes s, ech_events s) fs;
       Some (hs', ech_queue s # fs', ret')
     }
   }"

text \<open>
  \<open>receive\<close>: the channels as it finds them in each of its turns.  After a turn in which no channel has an event it waits for the signal,
  or goes round at once where there is none, while others send.  \<open>Some None\<close>: it has not returned after these turns.
\<close>

fun selector_receive :: "'f pop_fun \<Rightarrow> ((mpsc_heap \<times> event heap) \<times> 'f list) list \<Rightarrow> ((mpsc_heap \<times> event heap) \<times> 'f list \<times> addr) option option" where
  "selector_receive trypop [] = Some None"
| "selector_receive trypop ((hs, fs) # turns) = do {
     (hs', fs', ret) \<leftarrow> selector_tryReceive trypop hs fs;
     if ret \<noteq> NULL then Some (Some (hs', fs', ret)) else selector_receive trypop turns
   }"

section \<open>Clients\<close>

text \<open>A client that makes, fills and sends an event, and one that receives, reads and frees one.\<close>

definition send_new :: "'f push_fun \<Rightarrow> addr \<Rightarrow> nat \<Rightarrow> nat \<Rightarrow> 'f event_channel \<Rightarrow> 'f event_channel option" where
  "send_new push a ty p s =
     (case allocEvent a ty s of
        Inl _ \<Rightarrow> None
      | Inr (s1, e) \<Rightarrow> do { s2 \<leftarrow> setPayload e p s1; event_send push e s2 })"

definition receive_one :: "'f pop_fun \<Rightarrow> 'f event_channel \<Rightarrow> ('f event_channel \<times> (nat \<times> nat option) option) option" where
  "receive_one trypop s = do {
     (s1, e) \<leftarrow> event_tryReceive trypop s;
     if e = NULL then Some (s1, None)
     else do {
       ty \<leftarrow> getType e s1;
       p \<leftarrow> getPayload e s1;
       s2 \<leftarrow> freeEvent e s1;
       Some (s2, Some (ty, p))
     }
   }"

text \<open>
  A channel whose clients free what they receive before they receive again: its queue owns exactly the blocks that are allocated, the dummy, which holds no
  event, and the blocks of the events that were sent.
\<close>

definition tidy :: "(mpsc_heap \<Rightarrow> 'f \<Rightarrow> addr list \<Rightarrow> addr list \<Rightarrow> bool) \<Rightarrow> 'f event_channel \<Rightarrow> addr \<Rightarrow> addr list \<Rightarrow> bool" where
  "tidy rep s d es \<longleftrightarrow> rep (ech_nodes s) (ech_queue s) (d # es) es \<and> dom (ech_nodes s) = set (d # es) \<and> dom (ech_events s) = set es"

text \<open>Sequences of both, each sending with the block \<open>malloc\<close> returns for it, and what an abstract queue of types and payloads delivers.\<close>

datatype client_op = Client_Send addr nat nat | Client_Receive

fun clients :: "'f push_fun \<Rightarrow> 'f pop_fun \<Rightarrow> client_op list \<Rightarrow> 'f event_channel \<Rightarrow>
    ('f event_channel \<times> (nat \<times> nat option) option list) option" where
  "clients push trypop [] s = Some (s, [])"
| "clients push trypop (Client_Send a ty p # ops) s = do {
     s1 \<leftarrow> send_new push a ty p s;
     clients push trypop ops s1 }"
| "clients push trypop (Client_Receive # ops) s = do {
     (s1, r) \<leftarrow> receive_one trypop s;
     (s2, rs) \<leftarrow> clients push trypop ops s1;
     Some (s2, r # rs) }"

text \<open>
  \<open>malloc\<close> returns blocks that are not in use: with \<open>d\<close> the block of the first node of the queue and \<open>es\<close> the blocks behind it, no send uses one of these.  The block of an event may
  be used again once the event after it was received and freed.
\<close>

fun blocks_free :: "addr \<Rightarrow> addr list \<Rightarrow> client_op list \<Rightarrow> bool" where
  "blocks_free d es [] = True"
| "blocks_free d es (Client_Send a ty p # ops) \<longleftrightarrow> a \<noteq> NULL \<and> a \<noteq> d \<and> a \<notin> set es \<and> blocks_free d (es @ [a]) ops"
| "blocks_free d [] (Client_Receive # ops) = blocks_free d [] ops"
| "blocks_free d (e # es) (Client_Receive # ops) = blocks_free e es ops"

fun clients_spec :: "client_op list \<Rightarrow> (nat \<times> nat) list \<Rightarrow> (nat \<times> nat option) option list" where
  "clients_spec [] q = []"
| "clients_spec (Client_Send a ty p # ops) q = clients_spec ops (q @ [(ty, p)])"
| "clients_spec (Client_Receive # ops) [] = None # clients_spec ops []"
| "clients_spec (Client_Receive # ops) ((ty, p) # q) = Some (ty, Some p) # clients_spec ops q"

lemma mpsc_dat_dom: "mpsc_dat h = mpsc_dat h' \<Longrightarrow> dom h = dom h'"
  by (auto simp: mpsc_dat_def fun_eq_iff dom_def) (metis option.map_disc_iff not_None_eq)+

lemma mpsc_dat_dom_upd: "mpsc_dat h = (mpsc_dat h')(d := Some x) \<Longrightarrow> dom h = insert d (dom h')"
  by (auto simp: mpsc_dat_def fun_eq_iff dom_def split: if_splits) (metis option.map_disc_iff not_None_eq)+

section \<open>The contract of the queues\<close>

text \<open>
  The queues keep their laws when a block that is none of theirs is allocated or freed.
\<close>

locale event_queue = fifo_queue push trypop mpsc_dat rep
  for push :: "'f push_fun" and trypop :: "'f pop_fun" and rep :: "mpsc_heap \<Rightarrow> 'f \<Rightarrow> addr list \<Rightarrow> addr list \<Rightarrow> bool" +
  assumes rep_frame: "(\<And>a. a \<in> set ns \<Longrightarrow> h' a = h a) \<Longrightarrow> rep h' f ns xs = rep h f ns xs"
begin

lemma send_fresh:
  assumes s: "tidy rep s d es" and a: "a \<noteq> NULL" "ech_nodes s a = None"
  shows "\<exists>s'. send_new push a ty p s = Some s' \<and> tidy rep s' d (es @ [a]) \<and>
    ech_events s' = (ech_events s)(a \<mapsto> \<lparr>evt_type = ty, evt_wrapper = a, evt_payload = Some p\<rparr>)"
proof -
  let ?h = "(ech_nodes s)(a \<mapsto> \<lparr>mn_data = a, mn_next = NULL\<rparr>)"
  have new: "a \<notin> set (d # es)"
    using s a(2) by (auto simp: tidy_def)
  have "rep ?h (ech_queue s) (d # es) es = rep (ech_nodes s) (ech_queue s) (d # es) es"
    by (rule rep_frame) (use new in auto)
  then have "rep ?h (ech_queue s) (d # es) es"
    using s by (simp add: tidy_def)
  moreover have "mpsc_dat ?h a = Some a"
    by (simp add: mpsc_dat_def)
  ultimately obtain h f where push: "push ?h (ech_queue s) a = Some (h, f)" "rep h f ((d # es) @ [a]) (es @ [a])" "mpsc_dat h = mpsc_dat ?h"
    using push_rep [of ?h "ech_queue s" "d # es" es a a] new a(1) by blast
  have "dom h = dom ?h"
    using push(3) by (rule mpsc_dat_dom)
  with push s show ?thesis
    using a new by (auto simp: send_new_def allocEvent_def setPayload_def event_send_def tidy_def)
qed

lemma receive_free:
  assumes s: "tidy rep s d (e # es)"
  shows "\<exists>s' x. receive_one trypop s = Some (s', Some (evt_type x, evt_payload x)) \<and> ech_events s e = Some x \<and> tidy rep s' e es \<and>
    ech_events s' = (ech_events s)(e := None)"
proof -
  have rep: "rep (ech_nodes s) (ech_queue s) (d # e # es) (e # es)" and doms: "dom (ech_nodes s) = set (d # e # es)" "dom (ech_events s) = set (e # es)"
    using s by (simp_all add: tidy_def)
  obtain h f where pop: "trypop (ech_nodes s) (ech_queue s) = Some (h, f, d)" "rep h f (e # es) es"
      "mpsc_dat h = (mpsc_dat (ech_nodes s))(d := Some e)"
    using trypop_rep [OF rep] by auto
  have nodes: "d \<noteq> NULL" "e \<noteq> NULL" "d \<noteq> e" "d \<notin> set es" "e \<notin> set es"
    using rep_nodes [OF rep] by auto
  obtain n where n: "h d = Some n" "mn_data n = e"
  proof -
    have "mpsc_dat h d = Some e"
      using pop(3) by simp
    then show thesis
      using that by (auto simp: mpsc_dat_def)
  qed
  obtain x where x: "ech_events s e = Some x"
    using doms(2) by (metis domD list.set_intros(1))
  have "dom h = insert d (dom (ech_nodes s))"
    using mpsc_dat_dom_upd [OF pop(3)] .
  moreover have "rep (h(d := None)) f (e # es) es = rep h f (e # es) es"
    by (rule rep_frame) (use nodes in auto)
  then have "rep (h(d := None)) f (e # es) es"
    using pop(2) by simp
  ultimately have "tidy rep (s\<lparr>ech_queue := f, ech_nodes := h(d := None), ech_events := (ech_events s)(e := None, d := None)\<rparr>) e es"
    using doms nodes by (auto simp: tidy_def)
  moreover have "ech_events s d = None"
    using doms(2) nodes by (metis domIff list.set_cases set_ConsD)
  ultimately show ?thesis
    using pop(1) n x nodes
    by (auto simp: receive_one_def event_tryReceive_def unwrap_event_def getType_def getPayload_def freeEvent_def fun_upd_twist fun_upd_idem)
qed

lemma selector_first:
  assumes "\<forall>f \<in> set fs. \<exists>d. rep h f [d] []"
    and "event_tryReceive trypop \<lparr>ech_nodes = h, ech_events = evs, ech_queue = f\<rparr> = Some (s, e)" "e \<noteq> NULL"
  shows "selector_tryReceive trypop (h, evs) (fs @ f # fs') = Some ((ech_nodes s, ech_events s), fs @ ech_queue s # fs', e)"
  using assms
proof (induction fs)
  case (Cons g fs)
  then obtain d where "rep h g [d] []"
    by auto
  then have "event_tryReceive trypop \<lparr>ech_nodes = h, ech_events = evs, ech_queue = g\<rparr> = Some (\<lparr>ech_nodes = h, ech_events = evs, ech_queue = g\<rparr>, NULL)"
    using trypop_empty by (simp add: event_tryReceive_def)
  with Cons show ?case
    by simp
qed simp

lemma selector_none: "\<forall>f \<in> set fs. \<exists>d. rep h f [d] [] \<Longrightarrow> selector_tryReceive trypop (h, evs) fs = Some ((h, evs), fs, NULL)"
proof (induction fs)
  case (Cons g fs)
  then obtain d where "rep h g [d] []"
    by auto
  then show ?case
    using Cons trypop_empty by (simp add: event_tryReceive_def)
qed simp

text \<open>It returns in the first turn in which a channel has an event, with the event of the first such channel.\<close>

lemma selector_receive_first:
  assumes "\<forall>((h, evs), fs) \<in> set idle. \<forall>f \<in> set fs. \<exists>d. rep h f [d] []" "\<forall>f \<in> set fs. \<exists>d. rep h f [d] []"
    and "event_tryReceive trypop \<lparr>ech_nodes = h, ech_events = evs, ech_queue = f\<rparr> = Some (s, e)" "e \<noteq> NULL"
  shows "selector_receive trypop (idle @ ((h, evs), fs @ f # fs') # turns) = Some (Some ((ech_nodes s, ech_events s), fs @ ech_queue s # fs', e))"
  using assms(1)
proof (induction idle)
  case Nil
  then show ?case using selector_first [OF assms(2-4)] assms(4) by simp
next
  case (Cons turn idle)
  then show ?case by (cases turn) (auto simp: selector_none)
qed

lemma receive_empty: "tidy rep s d [] \<Longrightarrow> receive_one trypop s = Some (s, None)"
  using trypop_empty [of "ech_nodes s" "ech_queue s" "[d]"] by (simp add: tidy_def receive_one_def event_tryReceive_def)

lemma clients_ok:
  "tidy rep s d es \<Longrightarrow> map (ech_events s) es = map (\<lambda>(e, ty, p). Some \<lparr>evt_type = ty, evt_wrapper = e, evt_payload = Some p\<rparr>) (zip es q) \<Longrightarrow>
    length q = length es \<Longrightarrow> blocks_free d es ops \<Longrightarrow>
    \<exists>s'. clients push trypop ops s = Some (s', clients_spec ops q) \<and> (\<exists>d' es'. tidy rep s' d' es')"
proof (induction ops arbitrary: s d es q)
  case (Cons op ops)
  show ?case
  proof (cases op)
    case (Client_Send a ty p)
    then have a: "a \<noteq> NULL" "a \<notin> set (d # es)" and free: "blocks_free d (es @ [a]) ops"
      using Cons.prems(4) by auto
    then have "ech_nodes s a = None"
      using Cons.prems(1) by (auto simp: tidy_def)
    then obtain s' where s': "send_new push a ty p s = Some s'" "tidy rep s' d (es @ [a])"
        "ech_events s' = (ech_events s)(a \<mapsto> \<lparr>evt_type = ty, evt_wrapper = a, evt_payload = Some p\<rparr>)"
      using send_fresh [OF Cons.prems(1) a(1)] by blast
    have "map (ech_events s') (es @ [a]) =
        map (\<lambda>(e, ty, p). Some \<lparr>evt_type = ty, evt_wrapper = e, evt_payload = Some p\<rparr>) (zip (es @ [a]) (q @ [(ty, p)]))"
      using Cons.prems(2,3) a(2) by (auto simp: s'(3))
    from Cons.IH [OF s'(2) this _ free] Cons.prems(3) s'(1) Client_Send show ?thesis
      by simp
  next
    case Client_Receive
    show ?thesis
    proof (cases es)
      case Nil
      with Cons.prems receive_empty [of s d] Cons.IH [of s d "[]" "[]"] Client_Receive show ?thesis
        by (auto, blast)
    next
      case (Cons e es')
      then obtain ty p q' where q: "q = (ty, p) # q'"
        using Cons.prems(3) by (cases q) auto
      obtain s' x where s': "receive_one trypop s = Some (s', Some (evt_type x, evt_payload x))" "ech_events s e = Some x" "tidy rep s' e es'"
          "ech_events s' = (ech_events s)(e := None)"
        using receive_free Cons Cons.prems(1) by blast
      have x: "evt_type x = ty" "evt_payload x = Some p"
        using Cons.prems(2) s'(2) Cons q by auto
      have "e \<notin> set es'"
        using rep_nodes Cons.prems(1) Cons by (fastforce simp: tidy_def)
      then have "map (ech_events s') es' = map (\<lambda>(e, ty, p). Some \<lparr>evt_type = ty, evt_wrapper = e, evt_payload = Some p\<rparr>) (zip es' q')"
        using Cons.prems(2) Cons q by (simp add: s'(4))
      from Cons.IH [OF s'(3) this] Cons.prems(3,4) s'(1) x q Cons Client_Receive show ?thesis
        by (auto, blast)
    qed
  qed
qed auto

lemma clients_from_new:
  assumes s: "tidy rep s d []" and free: "blocks_free d [] ops"
  shows "\<exists>s'. clients push trypop ops s = Some (s', clients_spec ops []) \<and> card (dom (ech_nodes s')) = Suc (card (dom (ech_events s')))"
proof -
  obtain s' d' es' where s': "clients push trypop ops s = Some (s', clients_spec ops [])" "tidy rep s' d' es'"
    using clients_ok [OF s, of "[]" ops] free by auto
  have "distinct (d' # es')"
    using s'(2) rep_nodes unfolding tidy_def by blast
  with s' show ?thesis
    by (auto simp: tidy_def)
qed

end

interpretation mp_events: event_queue mpsc_fifo_push mpsc_fifo_trypop mpsc_rep
  by unfold_locales (rule mpsc_rep_cong)

interpretation sp_events: event_queue spsc_fifo_push spsc_fifo_trypop spsc_rep
  by unfold_locales (rule spsc_rep_cong)

lemma mp_new: "a \<noteq> NULL \<Longrightarrow> \<exists>s. UnboundedMultiProducerChannel a = Inr s \<and> tidy mpsc_rep s a []"
  using mpsc_init_rep [of a "\<lambda>_. None"]
  by (auto simp: UnboundedMultiProducerChannel_def tidy_def mpsc_fifo_init_def alloc_def split: if_splits)

lemma sp_new: "a \<noteq> NULL \<Longrightarrow> \<exists>s. UnboundedSingleProducerChannel a = Inr s \<and> tidy spsc_rep s a []"
  using mpsc_init_rep [of a "\<lambda>_. None"]
  by (auto simp: UnboundedSingleProducerChannel_def tidy_def spsc_fifo_init_def mpsc_fifo_init_def alloc_def spsc_rep_def spsc_as_mpsc_def split: if_splits)

section \<open>Properties\<close>

text \<open>C37. Events over both classes of channels.  Clients make, fill and send events in any order with a client that receives, reads and frees one event at a time; \<open>malloc\<close> returns blocks that are not in use.  Then nothing
  faults, every event arrives with its type and its payload, in the order of sending, an empty channel gives \<open>NULL\<close>, and no block
  leaks: there is one block for each event that is under way, and one more.
\<close>

theorem events_in_order:
  assumes "a \<noteq> NULL" "blocks_free a [] ops"
  shows "(\<exists>s s'. UnboundedMultiProducerChannel a = Inr s \<and> clients mpsc_fifo_push mpsc_fifo_trypop ops s = Some (s', clients_spec ops []) \<and>
       card (dom (ech_nodes s')) = Suc (card (dom (ech_events s')))) \<and>
    (\<exists>s s'. UnboundedSingleProducerChannel a = Inr s \<and> clients spsc_fifo_push spsc_fifo_trypop ops s = Some (s', clients_spec ops []) \<and>
       card (dom (ech_nodes s')) = Suc (card (dom (ech_events s'))))"
  using mp_new [OF assms(1)] sp_new [OF assms(1)] mp_events.clients_from_new [OF _ assms(2)] sp_events.clients_from_new [OF _ assms(2)]
  by blast

theorem events_in_order_witness:
  "(\<exists>s s'. UnboundedMultiProducerChannel 1 = Inr s \<and>
      clients mpsc_fifo_push mpsc_fifo_trypop [Client_Receive, Client_Send 2 7 70, Client_Send 3 8 80, Client_Receive, Client_Send 1 9 90, Client_Receive] s =
        Some (s', [None, Some (7, Some 70), Some (8, Some 80)]) \<and> card (dom (ech_nodes s')) = Suc (card (dom (ech_events s'))))"
  using events_in_order [of 1 "[Client_Receive, Client_Send 2 7 70, Client_Send 3 8 80, Client_Receive, Client_Send 1 9 90, Client_Receive]"]
  by simp

text \<open>C38. A receiver cannot keep an event.  When it receives two events and frees the second, the block of the first is freed: reading the first, or freeing it, is then an access to freed memory.
\<close>

theorem held_event_freed:
  assumes "a \<noteq> NULL" "e1 \<noteq> NULL" "e2 \<noteq> NULL" "distinct [a, e1, e2]"
  shows "\<exists>s s1 s2 s3 s4 s5 s6 s7. UnboundedMultiProducerChannel a = Inr s \<and> allocEvent e1 t1 s = Inr (s1, e1) \<and> allocEvent e2 t2 s1 = Inr (s2, e2) \<and>
    mp_send e1 s2 = Some s3 \<and> mp_send e2 s3 = Some s4 \<and> mp_receive s4 = Some (s5, e1) \<and> mp_receive s5 = Some (s6, e2) \<and>
    getType e1 s6 = Some t1 \<and> freeEvent e2 s6 = Some s7 \<and> getType e1 s7 = None \<and> freeEvent e1 s7 = None"
  using assms
  by (simp add: UnboundedMultiProducerChannel_def allocEvent_def mp_send_def mp_receive_def event_send_def event_receive_def unwrap_event_def
      getType_def freeEvent_def fifo_defs alloc_def load_def)

theorem held_event_freed_witness:
  "\<exists>s s1 s2 s3 s4 s5 s6 s7. UnboundedMultiProducerChannel 1 = Inr s \<and> allocEvent 2 7 s = Inr (s1, 2) \<and> allocEvent 3 8 s1 = Inr (s2, 3) \<and>
    mp_send 2 s2 = Some s3 \<and> mp_send 3 s3 = Some s4 \<and> mp_receive s4 = Some (s5, 2) \<and> mp_receive s5 = Some (s6, 3) \<and>
    getType 2 s6 = Some 7 \<and> freeEvent 3 s6 = Some s7 \<and> getType 2 s7 = None \<and> freeEvent 2 s7 = None"
  using held_event_freed [of 1 2 3 7 8] by simp

end
