(* ===== verification/Cpp_Fifo.thy ===== *)
theory Cpp_Fifo
  imports Step_Machine Pending_Chain
begin

text \<open>
  \<open>cpp/lockfree_fifo.hpp\<close>: the C++ queue with its two kinds of producers and of consumers, at the granularity of the shared
  accesses.  A popped node is returned to the allocator and may be used again at once, while another consumer still
  reads it; such a read returns anything, which the actions carry as an argument, and is recorded.
\<close>

section \<open>State\<close>

record fifo_node =
  fn_next :: addr
  fn_data :: nat

datatype PopResult = Empty | Failure | Success

datatype fpush_pc = N_Idle | N_New addr | N_Swapped addr addr

datatype fpop_pc =
    O_Done PopResult
  | O_Tag "64 word"
  | O_Snapshot "64 word" addr
  | O_Next "64 word" addr addr
  | O_Data "64 word" addr addr nat
  | O_Single addr addr
  | O_Destroy addr

record fifo_sys =
  fq_heap :: "fifo_node heap"
  fq_tail :: addr
  fq_tag :: "64 word"
  fq_head :: addr
  fq_push :: "nat \<Rightarrow> fpush_pc"
  fq_pop :: "nat \<Rightarrow> fpop_pc"
  fq_pushed :: "nat list"
  fq_popped :: "nat list"
  fq_stale :: "addr list"

abbreviation push_goto :: "nat \<Rightarrow> fpush_pc \<Rightarrow> fifo_sys \<Rightarrow> fifo_sys" where
  "push_goto t pc s \<equiv> s\<lparr>fq_push := (fq_push s)(t := pc)\<rparr>"

abbreviation pop_goto :: "nat \<Rightarrow> fpop_pc \<Rightarrow> fifo_sys \<Rightarrow> fifo_sys" where
  "pop_goto t pc s \<equiv> s\<lparr>fq_pop := (fq_pop s)(t := pc)\<rparr>"

section \<open>Producers\<close>

text \<open>\<open>push\<close> begins with \<open>alloc_node\<close>; the allocator returns a block that is not in use.\<close>

definition alloc_node :: "nat \<Rightarrow> addr \<Rightarrow> nat \<Rightarrow> fifo_sys \<Rightarrow> fifo_sys" where
  "alloc_node t a v s =
     (if a \<noteq> NULL \<and> fq_heap s a = None
      then push_goto t (N_New a) (s\<lparr>fq_heap := (fq_heap s)(a \<mapsto> \<lparr>fn_next = NULL, fn_data = v\<rparr>)\<rparr>)
      else s)"

text \<open>
  \<open>try_push\<close>: the tail is replaced (an exchange, or a load and a store by the only producer), then the old tail
  linked.  It succeeds at once, so \<open>push\<close> never backs off.
\<close>

definition try_push_step :: "nat \<Rightarrow> fifo_sys \<Rightarrow> fifo_sys option" where
  "try_push_step t s =
     (case fq_push s t of
        N_Idle \<Rightarrow> Some s
      | N_New newNode \<Rightarrow> do {
          n \<leftarrow> load (fq_heap s) newNode;
          let oldTail = fq_tail s;
          Some (push_goto t (N_Swapped oldTail newNode) (s\<lparr>fq_tail := newNode, fq_pushed := fq_pushed s @ [fn_data n]\<rparr>)) }
      | N_Swapped oldTail newNode \<Rightarrow> do {
          n \<leftarrow> load (fq_heap s) oldTail;
          h \<leftarrow> store (fq_heap s) oldTail (n\<lparr>fn_next := newNode\<rparr>);
          Some (push_goto t N_Idle (s\<lparr>fq_heap := h\<rparr>)) })"

section \<open>Consumers\<close>

definition tagged_compare_and_swap :: "64 word \<times> addr \<Rightarrow> 64 word \<times> addr \<Rightarrow> addr \<Rightarrow> (64 word \<times> addr) \<times> bool" where
  "tagged_compare_and_swap this original updated = compare_and_swap2 this original (fst original + 1, updated)"

text \<open>A read that may hit memory which was freed.\<close>

definition read_node :: "fifo_node \<Rightarrow> addr \<Rightarrow> fifo_sys \<Rightarrow> fifo_node" where
  "read_node junk a s = (case fq_heap s a of Some n \<Rightarrow> n | None \<Rightarrow> junk)"

definition note_read :: "addr \<Rightarrow> fifo_sys \<Rightarrow> fifo_sys" where
  "note_read a s = (if fq_heap s a = None then s\<lparr>fq_stale := fq_stale s @ [a]\<rparr> else s)"

definition destroy_node :: "nat \<Rightarrow> addr \<Rightarrow> fifo_sys \<Rightarrow> fifo_sys option" where
  "destroy_node t a s = do { h \<leftarrow> dealloc (fq_heap s) a; Some (pop_goto t (O_Done Success) (s\<lparr>fq_heap := h\<rparr>)) }"

text \<open>The consumer of \<open>concurrency::multiple\<close>; after \<open>O_Done\<close> the loop of \<open>pop\<close>, or its next call, begins again.\<close>

definition try_pop_step :: "nat \<Rightarrow> fifo_node \<Rightarrow> fifo_sys \<Rightarrow> fifo_sys option" where
  "try_pop_step t junk s =
     (case fq_pop s t of
        O_Done r \<Rightarrow> Some (pop_goto t (O_Tag (fq_tag s)) s)
      | O_Tag c \<Rightarrow> Some (pop_goto t (O_Snapshot c (fq_head s)) s)
      | O_Snapshot c oldHead \<Rightarrow>
          let oldHeadNext = fn_next (read_node junk oldHead s)
          in Some (pop_goto t (if oldHeadNext \<noteq> NULL then O_Next c oldHead oldHeadNext else O_Done Empty) (note_read oldHead s))
      | O_Next c oldHead oldHeadNext \<Rightarrow>
          Some (pop_goto t (O_Data c oldHead oldHeadNext (fn_data (read_node junk oldHeadNext s))) (note_read oldHeadNext s))
      | O_Data c oldHead oldHeadNext dest \<Rightarrow>
          (case tagged_compare_and_swap (fq_tag s, fq_head s) (c, oldHead) oldHeadNext of (head, ok) \<Rightarrow>
             Some (if ok then pop_goto t (O_Destroy oldHead) (s\<lparr>fq_tag := fst head, fq_head := snd head, fq_popped := fq_popped s @ [dest]\<rparr>)
                   else pop_goto t (O_Done Failure) s))
      | O_Destroy oldHead \<Rightarrow> destroy_node t oldHead s
      | O_Single oldHead oldHeadNext \<Rightarrow> Some s)"

text \<open>The consumer of \<open>concurrency::single\<close>.\<close>

definition try_pop_single_step :: "nat \<Rightarrow> fifo_sys \<Rightarrow> fifo_sys option" where
  "try_pop_single_step t s =
     (case fq_pop s t of
        O_Done r \<Rightarrow> do {
          n \<leftarrow> load (fq_heap s) (fq_head s);
          Some (pop_goto t (if fn_next n \<noteq> NULL then O_Single (fq_head s) (fn_next n) else O_Done Empty) s) }
      | O_Single oldHead oldHeadNext \<Rightarrow> do {
          n \<leftarrow> load (fq_heap s) oldHeadNext;
          Some (pop_goto t (O_Destroy oldHead) (s\<lparr>fq_head := oldHeadNext, fq_popped := fq_popped s @ [fn_data n]\<rparr>)) }
      | O_Destroy oldHead \<Rightarrow> destroy_node t oldHead s
      | _ \<Rightarrow> Some s)"

section \<open>The queue\<close>

text \<open>\<open>fifo\<close> with \<open>a\<close> the first block; \<open>sp\<close> and \<open>sc\<close> select a single producer and a single consumer, which are number 0.\<close>

definition fifo :: "addr \<Rightarrow> fifo_sys" where
  "fifo a = \<lparr>fq_heap = [a \<mapsto> \<lparr>fn_next = NULL, fn_data = 0\<rparr>], fq_tail = a, fq_tag = 0, fq_head = a, fq_push = (\<lambda>_. N_Idle), fq_pop = (\<lambda>_. O_Done Empty),
     fq_pushed = [], fq_popped = [], fq_stale = []\<rparr>"

datatype fifo_act = Fifo_Push nat addr nat | Fifo_Pusher nat | Fifo_Popper nat fifo_node

fun fifo_step :: "bool \<Rightarrow> bool \<Rightarrow> fifo_act \<Rightarrow> fifo_sys \<Rightarrow> fifo_sys option" where
  "fifo_step sp sc (Fifo_Push t a v) s =
     (let t = (if sp then 0 else t) in Some (case fq_push s t of N_Idle \<Rightarrow> alloc_node t a v s | _ \<Rightarrow> s))"
| "fifo_step sp sc (Fifo_Pusher t) s = try_push_step (if sp then 0 else t) s"
| "fifo_step sp sc (Fifo_Popper t junk) s = (if sc then try_pop_single_step 0 s else try_pop_step t junk s)"

abbreviation fifo_run :: "bool \<Rightarrow> bool \<Rightarrow> fifo_act list \<Rightarrow> fifo_sys \<Rightarrow> fifo_sys option" where
  "fifo_run sp sc \<equiv> run_steps (fifo_step sp sc)"

section \<open>Back-off\<close>

text \<open>\<open>wait_strategy::spin\<close>: its counter, and how often the next strategy waited.\<close>

definition spin_wait :: "64 word \<Rightarrow> 64 word \<times> nat \<Rightarrow> 64 word \<times> nat" where
  "spin_wait Count s =
     (let counter = fst s - 1 in if counter = 0 then (Count, Suc (snd s)) else (counter, snd s))"

lemma spin_wait_iterate:
  assumes "Count \<noteq> 0"
  shows "(spin_wait Count ^^ n) (Count, 0) = (Count - of_nat (n mod unat Count), n div unat Count)"
proof (induction n)
  case (Suc n)
  let ?c = "unat Count"
  have c: "0 < ?c" using assms by (simp add: unat_gt_0)
  have m: "n mod ?c < ?c" using c by simp
  have "Count - of_nat (n mod ?c) - 1 = 0 \<longleftrightarrow> Suc (n mod ?c) = ?c"
  proof -
    have eq: "Count - of_nat (n mod ?c) - 1 = of_nat (?c - Suc (n mod ?c))"
      using m by (simp add: of_nat_diff)
    have "?c - Suc (n mod ?c) < 2 ^ 64"
      using unsigned_less [of Count, where 'a = nat] by simp
    then show ?thesis
      unfolding eq word_of_nat_eq_0_iff using m by (auto dest: dvd_imp_le)
  qed
  then show ?case
    using Suc c by (auto simp: spin_wait_def Let_def mod_Suc div_Suc)
qed simp

section \<open>The invariant\<close>

fun new_node :: "fpush_pc \<Rightarrow> addr" where
  "new_node (N_New n) = n" | "new_node _ = NULL"

fun swapped :: "fpush_pc \<Rightarrow> addr" where
  "swapped (N_Swapped a b) = a" | "swapped _ = NULL"

fun destroyed :: "fpop_pc \<Rightarrow> addr" where
  "destroyed (O_Destroy p) = p" | "destroyed _ = NULL"

fun fpush_ok :: "fifo_node heap \<Rightarrow> addr list \<Rightarrow> fpush_pc \<Rightarrow> bool" where
  "fpush_ok h ns N_Idle = True"
| "fpush_ok h ns (N_New n) = (n \<noteq> NULL \<and> n \<notin> set ns \<and> (\<exists>x. h n = Some \<lparr>fn_next = NULL, fn_data = x\<rparr>))"
| "fpush_ok h ns (N_Swapped a b) = (a \<noteq> NULL \<and> (\<exists>xs ys. ns = xs @ a # b # ys) \<and> (\<exists>x. h a = Some \<lparr>fn_next = NULL, fn_data = x\<rparr>))"

definition data_of :: "fifo_node heap \<Rightarrow> addr \<Rightarrow> nat option" where
  "data_of h a = map_option fn_data (h a)"

text \<open>A snapshot with the current tag is still true.\<close>

fun fpop_ok :: "fifo_node heap \<Rightarrow> 64 word \<Rightarrow> addr list \<Rightarrow> fpop_pc \<Rightarrow> bool" where
  "fpop_ok h c ns (O_Done r) = True"
| "fpop_ok h c ns (O_Tag d) = (d \<le> c)"
| "fpop_ok h c ns (O_Snapshot d p) = (d \<le> c \<and> (d = c \<longrightarrow> p = hd ns))"
| "fpop_ok h c ns (O_Next d p n) = (d \<le> c \<and> (d = c \<longrightarrow> (\<exists>ms. ns = p # n # ms \<and> map_option fn_next (h p) = Some n)))"
| "fpop_ok h c ns (O_Data d p n x) = (d \<le> c \<and> (d = c \<longrightarrow> (\<exists>ms. ns = p # n # ms \<and> map_option fn_next (h p) = Some n \<and> data_of h n = Some x)))"
| "fpop_ok h c ns (O_Single p n) = (\<exists>ms. ns = p # n # ms \<and> map_option fn_next (h p) = Some n)"
| "fpop_ok h c ns (O_Destroy p) = (p \<notin> set ns \<and> p \<noteq> NULL \<and> h p \<noteq> None)"

text \<open>The blocks that no longer, or do not yet, belong to the queue have one owner each.\<close>

definition owners :: "(nat \<Rightarrow> fpush_pc) \<Rightarrow> (nat \<Rightarrow> fpop_pc) \<Rightarrow> bool" where
  "owners P Q \<longleftrightarrow> exclusive (new_node \<circ> P) \<and> exclusive (swapped \<circ> P) \<and> exclusive (destroyed \<circ> Q) \<and>
     (\<forall>t u. new_node (P t) = destroyed (Q u) \<longrightarrow> new_node (P t) = NULL)"

lemma owners_push:
  assumes "owners P Q" "new_node pc = NULL \<or> (\<forall>u. u \<noteq> t \<longrightarrow> new_node (P u) \<noteq> new_node pc) \<and> (\<forall>u. destroyed (Q u) \<noteq> new_node pc)"
    and "swapped pc = NULL \<or> (\<forall>u. u \<noteq> t \<longrightarrow> swapped (P u) \<noteq> swapped pc)"
  shows "owners (P(t := pc)) Q"
  using assms unfolding owners_def by (auto simp: fun_upd_comp intro!: exclusive_upd)

lemma owners_pop:
  assumes "owners P Q" "destroyed pc = NULL \<or> (\<forall>u. u \<noteq> t \<longrightarrow> destroyed (Q u) \<noteq> destroyed pc) \<and> (\<forall>u. new_node (P u) \<noteq> destroyed pc)"
  shows "owners P (Q(t := pc))"
  using assms unfolding owners_def by (auto simp: fun_upd_comp intro!: exclusive_upd)

definition no_leak :: "fifo_sys \<Rightarrow> addr list \<Rightarrow> bool" where
  "no_leak s ns \<longleftrightarrow> (\<forall>a. a \<noteq> NULL \<and> fq_heap s a \<noteq> None \<longrightarrow> a \<in> set ns \<or> (\<exists>t. new_node (fq_push s t) = a) \<or> (\<exists>t. destroyed (fq_pop s t) = a))"

lemma no_leak_push:
  assumes "no_leak s ns" "fq_push s' = (fq_push s)(t := pc)" "fq_pop s' = fq_pop s" "set ns \<subseteq> set ns'"
    and "\<And>a. fq_heap s' a \<noteq> None \<Longrightarrow> fq_heap s a \<noteq> None \<or> a = new_node pc" "new_node (fq_push s t) \<in> {NULL, new_node pc} \<union> set ns'"
  shows "no_leak s' ns'"
  unfolding no_leak_def
proof (intro allI impI)
  fix a
  assume a: "a \<noteq> NULL \<and> fq_heap s' a \<noteq> None"
  have pc: "new_node (fq_push s' t) = new_node pc" using assms(2) by simp
  show "a \<in> set ns' \<or> (\<exists>t. new_node (fq_push s' t) = a) \<or> (\<exists>t. destroyed (fq_pop s' t) = a)"
  proof (cases "a = new_node pc \<or> a \<in> set ns' \<or> (\<exists>u. destroyed (fq_pop s u) = a)")
    case True
    with pc assms(3) show ?thesis by auto
  next
    case False
    then obtain u where u: "new_node (fq_push s u) = a"
      using assms(1,4,5) a unfolding no_leak_def by blast
    with False assms(6) a have "u \<noteq> t" by auto
    with u assms(2) have "new_node (fq_push s' u) = a" by simp
    then show ?thesis by blast
  qed
qed

lemma no_leak_pop:
  assumes "no_leak s ns" "fq_push s' = fq_push s" "fq_pop s' = (fq_pop s)(t := pc)" "set ns \<subseteq> insert (destroyed pc) (set ns')"
    and "\<And>a. fq_heap s' a \<noteq> None \<Longrightarrow> fq_heap s a \<noteq> None"
    and "destroyed (fq_pop s t) \<in> {NULL, destroyed pc} \<or> fq_heap s' (destroyed (fq_pop s t)) = None"
  shows "no_leak s' ns'"
  unfolding no_leak_def
proof (intro allI impI)
  fix a
  assume a: "a \<noteq> NULL \<and> fq_heap s' a \<noteq> None"
  have pc: "destroyed (fq_pop s' t) = destroyed pc" using assms(3) by simp
  show "a \<in> set ns' \<or> (\<exists>t. new_node (fq_push s' t) = a) \<or> (\<exists>t. destroyed (fq_pop s' t) = a)"
  proof (cases "a = destroyed pc \<or> a \<in> set ns' \<or> (\<exists>u. new_node (fq_push s u) = a)")
    case True
    with pc assms(2) show ?thesis by auto
  next
    case False
    then obtain u where u: "destroyed (fq_pop s u) = a"
      using assms(1,4,5) a unfolding no_leak_def by blast
    with False assms(6) a have "u \<noteq> t" by auto
    with u assms(3) have "destroyed (fq_pop s' u) = a" by simp
    then show ?thesis by blast
  qed
qed

definition one_kind :: "bool \<Rightarrow> (nat \<Rightarrow> fpop_pc) \<Rightarrow> bool" where
  "one_kind sc Q \<longleftrightarrow> (if sc then \<forall>t. t \<noteq> 0 \<longrightarrow> (\<exists>r. Q t = O_Done r) else \<forall>t p n. Q t \<noteq> O_Single p n)"

definition fifo_inv :: "bool \<Rightarrow> nat \<Rightarrow> fifo_sys \<Rightarrow> addr list \<Rightarrow> bool" where
  "fifo_inv sc k s ns \<longleftrightarrow>
     linking fn_next (fq_heap s) (\<lambda>a b. \<exists>t. fq_push s t = N_Swapped a b) ns \<and> distinct ns \<and> fq_head s = hd ns \<and> fq_tail s = last ns \<and>
     (\<forall>t. fpush_ok (fq_heap s) ns (fq_push s t)) \<and> (\<forall>t. fpop_ok (fq_heap s) (fq_tag s) ns (fq_pop s t)) \<and>
     owners (fq_push s) (fq_pop s) \<and> no_leak s ns \<and> one_kind sc (fq_pop s) \<and>
     map Some (fq_pushed s) = map Some (fq_popped s) @ map (data_of (fq_heap s)) (tl ns) \<and>
     unat (fq_tag s) + k < 2 ^ 64"

lemma fifo_invD:
  assumes "fifo_inv sc k s ns"
  shows "linking fn_next (fq_heap s) (\<lambda>a b. \<exists>t. fq_push s t = N_Swapped a b) ns" "distinct ns" "fq_head s = hd ns" "fq_tail s = last ns"
    "\<And>t. fpush_ok (fq_heap s) ns (fq_push s t)" "\<And>t. fpop_ok (fq_heap s) (fq_tag s) ns (fq_pop s t)"
    "owners (fq_push s) (fq_pop s)" "no_leak s ns" "one_kind sc (fq_pop s)"
    "map Some (fq_pushed s) = map Some (fq_popped s) @ map (data_of (fq_heap s)) (tl ns)" "unat (fq_tag s) + k < 2 ^ 64"
  using assms by (simp_all add: fifo_inv_def)

lemma fifo_inv_nonempty: "fifo_inv sc k s ns \<Longrightarrow> ns \<noteq> []"
  using fifo_invD(1) by fastforce

section \<open>Preservation\<close>

lemma fpush_ok_alloc: "fpush_ok h ns pc \<Longrightarrow> h a = None \<Longrightarrow> fpush_ok (h(a \<mapsto> m)) ns pc"
  by (cases pc) auto

lemma fpop_ok_alloc: "fpop_ok h c ns pc \<Longrightarrow> a \<notin> set ns \<Longrightarrow> fpop_ok (h(a \<mapsto> m)) c ns pc"
  by (cases pc) (auto simp: data_of_def)

lemma owned_allocated:
  assumes inv: "fifo_inv sc k s ns" and a: "fq_heap s a = None" "a \<noteq> NULL"
  shows "a \<notin> set ns" "new_node (fq_push s u) \<noteq> a" "destroyed (fq_pop s u) \<noteq> a"
proof -
  show "a \<notin> set ns"
    using linking_members [OF fifo_invD(1) [OF inv]] a(1) by blast
  show "new_node (fq_push s u) \<noteq> a"
    using fifo_invD(5) [OF inv, of u] a by (cases "fq_push s u") auto
  show "destroyed (fq_pop s u) \<noteq> a"
    using fifo_invD(6) [OF inv, of u] a by (cases "fq_pop s u") auto
qed

lemma alloc_node_inv:
  assumes inv: "fifo_inv sc k s ns" and t: "fq_push s t = N_Idle"
  shows "fifo_inv sc k (alloc_node t a v s) ns"
proof (cases "a \<noteq> NULL \<and> fq_heap s a = None")
  case True
  note D = fifo_invD [OF inv]
  note fresh = owned_allocated [OF inv, of a]
  let ?h = "(fq_heap s)(a \<mapsto> \<lparr>fn_next = NULL, fn_data = v\<rparr>)" and ?P = "(fq_push s)(t := N_New a)"
  have "linking fn_next ?h (\<lambda>c d. \<exists>u. ?P u = N_Swapped c d) ns"
  proof (rule linking_cong [OF D(1)])
    show "?h c = fq_heap s c" if "c \<in> set ns" for c
      using fresh(1) True that by auto
    show "\<exists>u. ?P u = N_Swapped c d" if "\<exists>u. fq_push s u = N_Swapped c d" for c d
      using that t by (metis fpush_pc.distinct(3) fun_upd_apply)
  qed
  moreover have "fpush_ok ?h ns (?P u)" for u
    using fpush_ok_alloc [OF D(5)] fresh(1) True by auto
  moreover have "fpop_ok ?h (fq_tag s) ns (fq_pop s u)" for u
    using fpop_ok_alloc [OF D(6)] fresh(1) True by auto
  moreover have "owners ?P (fq_pop s)"
    using fresh(2,3) True by (intro owners_push [OF D(7)]) auto
  moreover have "no_leak (s\<lparr>fq_heap := ?h, fq_push := ?P\<rparr>) ns"
    using t by (intro no_leak_push [OF D(8), where t = t and pc = "N_New a"]) (auto split: if_splits)
  moreover have "map (data_of ?h) (tl ns) = map (data_of (fq_heap s)) (tl ns)"
    using fresh(1) True by (cases ns) (auto simp: data_of_def)
  ultimately show ?thesis
    using True D by (simp add: fifo_inv_def alloc_node_def del: fun_upd_apply)
next
  case False
  with inv show ?thesis by (simp only: alloc_node_def if_False)
qed

lemma fpop_ok_snoc: "fpop_ok h c ns pc \<Longrightarrow> ns \<noteq> [] \<Longrightarrow> destroyed pc \<noteq> n \<Longrightarrow> fpop_ok h c (ns @ [n]) pc"
  by (cases pc) auto

lemma fpush_ok_snoc: "fpush_ok h ns pc \<Longrightarrow> new_node pc \<noteq> n \<Longrightarrow> fpush_ok h (ns @ [n]) pc"
proof (cases pc)
  case (N_Swapped a b)
  assume "fpush_ok h ns pc"
  then obtain xs ys where "ns @ [n] = xs @ a # b # (ys @ [n])" using N_Swapped by auto
  with N_Swapped \<open>fpush_ok h ns pc\<close> show ?thesis by (metis fpush_ok.simps(3))
qed auto

lemma swap_tail_inv:
  assumes inv: "fifo_inv sc k s ns" and t: "fq_push s t = N_New n"
  shows "\<exists>s'. try_push_step t s = Some s' \<and> fifo_inv sc k s' (ns @ [n])"
proof -
  note D = fifo_invD [OF inv]
  have ne: "ns \<noteq> []" by (rule fifo_inv_nonempty [OF inv])
  obtain x where n: "n \<noteq> NULL" "n \<notin> set ns" "fq_heap s n = Some \<lparr>fn_next = NULL, fn_data = x\<rparr>"
    using D(5) [of t] t by auto
  let ?P = "(fq_push s)(t := N_Swapped (last ns) n)"
  let ?s = "s\<lparr>fq_tail := n, fq_push := ?P, fq_pushed := fq_pushed s @ [x]\<rparr>"
  have step: "try_push_step t s = Some ?s"
    using t n D(4) by (simp add: try_push_step_def)
  have others: "new_node (fq_push s u) \<noteq> n" if "u \<noteq> t" for u
    using D(7) t n(1) that unfolding owners_def exclusive_def by (metis comp_apply new_node.simps(1))
  have undestroyed: "destroyed (fq_pop s u) \<noteq> n" for u
    using D(7) t n(1) unfolding owners_def by (metis new_node.simps(1))
  have "last ns \<in> set ns" using ne by simp
  then have last: "last ns \<noteq> NULL" "last ns \<noteq> n"
    using linking_members [OF D(1)] n(2) by auto
  obtain y where y: "fq_heap s (last ns) = Some \<lparr>fn_next = NULL, fn_data = y\<rparr>"
    using linking_last [OF D(1)] by (metis (full_types) fifo_node.cases fifo_node.select_convs(1))
  have unswapped: "swapped (fq_push s u) \<noteq> last ns" for u
  proof
    assume "swapped (fq_push s u) = last ns"
    then obtain b where "fq_push s u = N_Swapped (last ns) b" using last(1) by (cases "fq_push s u") auto
    then obtain xs ys where "ns = xs @ last ns # b # ys" using D(5) [of u] by auto
    then have "last ns \<in> set (b # ys)" by (metis last_ConsR last_appendR last_in_set list.distinct(1))
    with D(2) \<open>ns = xs @ last ns # b # ys\<close> show False by (metis distinct.simps(2) distinct_append)
  qed
  have "linking fn_next (fq_heap s) (\<lambda>c d. \<exists>u. ?P u = N_Swapped c d) (ns @ [n])"
  proof (rule linking_snoc [OF D(1) n(3) _ n(1)])
    show "fn_next \<lparr>fn_next = NULL, fn_data = x\<rparr> = NULL" by simp
    show "\<exists>u. ?P u = N_Swapped c d" if "\<exists>u. fq_push s u = N_Swapped c d" for c d
      using that t by (metis fpush_pc.distinct(5) fun_upd_apply)
    show "\<exists>u. ?P u = N_Swapped (last ns) n" by (rule exI [of _ t]) simp
  qed
  moreover have "fpush_ok (fq_heap s) (ns @ [n]) (?P u)" for u
  proof (cases "u = t")
    case True
    have "ns @ [n] = butlast ns @ last ns # n # []" using ne by simp
    then have "\<exists>xs ys. ns @ [n] = xs @ last ns # n # ys" by blast
    with True last(1) y show ?thesis by simp
  qed (use fpush_ok_snoc [OF D(5) others] in simp)
  moreover have "fpop_ok (fq_heap s) (fq_tag s) (ns @ [n]) (fq_pop s u)" for u
    by (rule fpop_ok_snoc [OF D(6) ne undestroyed])
  moreover have "owners ?P (fq_pop s)"
    using unswapped by (intro owners_push [OF D(7)]) auto
  moreover have "no_leak ?s (ns @ [n])"
    using t by (intro no_leak_push [OF D(8), where t = t and pc = "N_Swapped (last ns) n"]) auto
  moreover have "map Some (fq_pushed s @ [x]) = map Some (fq_popped s) @ map (data_of (fq_heap s)) (tl (ns @ [n]))"
    using D(10) n(3) ne by (simp add: data_of_def)
  ultimately have "fifo_inv sc k ?s (ns @ [n])"
    using D n(2) ne by (simp add: fifo_inv_def del: fun_upd_apply)
  with step show ?thesis by blast
qed

lemma data_of_link: "h a = Some \<lparr>fn_next = n, fn_data = x\<rparr> \<Longrightarrow> data_of (h(a \<mapsto> \<lparr>fn_next = b, fn_data = x\<rparr>)) = data_of h"
  by (auto simp: data_of_def fun_eq_iff)

text \<open>The link of a node that has none is of no popper's concern.\<close>

lemma fpop_ok_link:
  assumes "fpop_ok h c ns pc" "h a = Some \<lparr>fn_next = NULL, fn_data = x\<rparr>" "NULL \<notin> set ns"
  shows "fpop_ok (h(a \<mapsto> \<lparr>fn_next = b, fn_data = x\<rparr>)) c ns pc"
proof -
  have "map_option fn_next ((h(a \<mapsto> \<lparr>fn_next = b, fn_data = x\<rparr>)) p) = Some n"
    if "map_option fn_next (h p) = Some n" "n \<noteq> NULL" for p n
    using that assms(2) by auto
  moreover have "h p \<noteq> None \<Longrightarrow> (h(a \<mapsto> \<lparr>fn_next = b, fn_data = x\<rparr>)) p \<noteq> None" for p
    by simp
  ultimately show ?thesis
    using assms by (cases pc) (auto simp: data_of_link [of h a, OF assms(2)] simp del: fun_upd_apply)
qed

lemma link_tail_inv:
  assumes inv: "fifo_inv sc k s ns" and t: "fq_push s t = N_Swapped a b"
  shows "\<exists>s'. try_push_step t s = Some s' \<and> fifo_inv sc k s' ns"
proof -
  note D = fifo_invD [OF inv]
  obtain xs ys x where a: "a \<noteq> NULL" "ns = xs @ a # b # ys" "fq_heap s a = Some \<lparr>fn_next = NULL, fn_data = x\<rparr>"
    using D(5) [of t] t by auto
  let ?h = "(fq_heap s)(a \<mapsto> \<lparr>fn_next = b, fn_data = x\<rparr>)" and ?P = "(fq_push s)(t := N_Idle)"
  let ?s = "s\<lparr>fq_heap := ?h, fq_push := ?P\<rparr>"
  have step: "try_push_step t s = Some ?s"
    using t a by (simp add: try_push_step_def)
  have others: "swapped (fq_push s u) \<noteq> a" if "u \<noteq> t" for u
    using D(7) t a(1) that unfolding owners_def exclusive_def by (metis comp_apply swapped.simps(1))
  have null: "NULL \<notin> set ns"
    using linking_members [OF D(1)] by blast
  have "linking fn_next ?h (\<lambda>c d. \<exists>u. ?P u = N_Swapped c d) ns"
    unfolding a(2)
  proof (rule linking_link)
    show "c = a \<or> (\<exists>u. ?P u = N_Swapped c d)" if "\<exists>u. fq_push s u = N_Swapped c d" for c d
      using that t by (metis fpush_pc.inject(2) fun_upd_apply)
  qed (use D(1,2) a(2) in auto)
  moreover have "fpush_ok ?h ns (?P u)" for u
    using D(5) [of u] others [of u] a(3) by (cases "u = t"; cases "fq_push s u") (use D(5) [of u] a in auto)
  moreover have "fpop_ok ?h (fq_tag s) ns (fq_pop s u)" for u
    by (rule fpop_ok_link [OF D(6) a(3) null])
  moreover have "owners ?P (fq_pop s)"
    by (intro owners_push [OF D(7)]) auto
  moreover have "no_leak ?s ns"
    using t a(3) by (intro no_leak_push [OF D(8), where t = t and pc = N_Idle]) (auto split: if_splits)
  ultimately have "fifo_inv sc k ?s ns"
    using D by (simp add: fifo_inv_def data_of_link [of "fq_heap s" a, OF a(3)] del: fun_upd_apply)
  with step show ?thesis by blast
qed

lemma try_push_inv:
  assumes inv: "fifo_inv sc k s ns"
  shows "\<exists>s' ns'. try_push_step t s = Some s' \<and> fifo_inv sc k s' ns'"
proof (cases "fq_push s t")
  case N_Idle
  with inv show ?thesis by (auto simp: try_push_step_def)
next
  case (N_New n)
  with swap_tail_inv [OF inv] show ?thesis by blast
next
  case (N_Swapped a b)
  with link_tail_inv [OF inv] show ?thesis by blast
qed

text \<open>A consumer moves without writing.\<close>

lemma pop_goto_inv:
  assumes inv: "fifo_inv sc k s ns" and pc: "fpop_ok (fq_heap s) (fq_tag s) ns pc" "destroyed (fq_pop s t) = NULL" "destroyed pc = NULL"
    and kind: "if sc then t = 0 else \<forall>p n. pc \<noteq> O_Single p n"
  shows "fifo_inv sc k (pop_goto t pc s) ns"
proof -
  note D = fifo_invD [OF inv]
  have "owners (fq_push s) ((fq_pop s)(t := pc))"
    using pc(3) by (intro owners_pop [OF D(7)]) simp
  moreover have "no_leak (pop_goto t pc s) ns"
    using pc(2) by (intro no_leak_pop [OF D(8), where t = t and pc = pc]) auto
  moreover have "one_kind sc ((fq_pop s)(t := pc))"
    using D(9) kind by (auto simp: one_kind_def)
  ultimately show ?thesis
    using D pc(1) by (simp add: fifo_inv_def)
qed

lemma note_read_inv: "fifo_inv sc k (note_read a s) ns = fifo_inv sc k s ns"
  by (simp add: note_read_def fifo_inv_def no_leak_def)

lemma note_read_sel [simp]:
  "fq_heap (note_read a s) = fq_heap s" "fq_tag (note_read a s) = fq_tag s" "fq_pop (note_read a s) = fq_pop s" "fq_head (note_read a s) = fq_head s"
  by (simp_all add: note_read_def)

text \<open>The head moves to the next node.\<close>

lemma advance_inv:
  assumes inv: "fifo_inv sc k s (p # n # ms)" and n: "map_option fn_next (fq_heap s p) = Some n" "data_of (fq_heap s) n = Some x"
    and pops: "\<And>u. u \<noteq> t \<Longrightarrow> fpop_ok (fq_heap s) tag (n # ms) (fq_pop s u)" and tag: "unat tag + k' < 2 ^ 64"
    and t: "destroyed (fq_pop s t) = NULL" "sc \<Longrightarrow> t = 0"
  shows "fifo_inv sc k' (pop_goto t (O_Destroy p) (s\<lparr>fq_tag := tag, fq_head := n, fq_popped := fq_popped s @ [x]\<rparr>)) (n # ms)"
    (is "fifo_inv sc k' ?s (n # ms)")
proof -
  note D = fifo_invD [OF inv]
  let ?Q = "(fq_pop s)(t := O_Destroy p)"
  have p: "p \<noteq> NULL" "n \<noteq> NULL" "p \<notin> set (n # ms)" "fq_heap s p \<noteq> None"
    using linking_members [OF D(1)] D(2) by auto
  have "fpush_ok (fq_heap s) (n # ms) (fq_push s u)" for u
  proof (cases "fq_push s u")
    case (N_Swapped a b)
    then obtain xs ys y where a: "p # n # ms = xs @ a # b # ys" "fq_heap s a = Some \<lparr>fn_next = NULL, fn_data = y\<rparr>" "a \<noteq> NULL"
      using D(5) [of u] by auto
    then have "a \<noteq> p" using n(1) p(2) by auto
    then obtain xs' where "n # ms = xs' @ a # b # ys" using a(1) by (cases xs) auto
    with N_Swapped a show ?thesis by auto
  qed (use D(5) [of u] in auto)
  moreover have "fpop_ok (fq_heap s) tag (n # ms) (?Q u)" for u
    using pops [of u] p by simp
  moreover have "new_node (fq_push s u) \<noteq> p" "destroyed (fq_pop s u) \<noteq> p" for u
    using D(5) [of u] D(6) [of u] p(1) by (cases "fq_push s u"; cases "fq_pop s u"; auto)+
  then have "owners (fq_push s) ?Q"
    by (intro owners_pop [OF D(7)]) simp
  moreover have "no_leak ?s (n # ms)"
    using t(1) by (intro no_leak_pop [OF D(8), where t = t and pc = "O_Destroy p"]) auto
  moreover have "one_kind sc ?Q"
    using D(9) t(2) by (auto simp: one_kind_def)
  moreover have "map Some (fq_pushed s) = map Some (fq_popped s @ [x]) @ map (data_of (fq_heap s)) ms"
    using D(10) n(2) by simp
  ultimately show ?thesis
    using D tag by (simp add: fifo_inv_def del: fun_upd_apply)
qed

lemma destroy_node_inv:
  assumes inv: "fifo_inv sc k s ns" and pc: "fq_pop s t = O_Destroy p"
  shows "\<exists>s'. destroy_node t p s = Some s' \<and> fifo_inv sc k s' ns"
proof -
  note D = fifo_invD [OF inv]
  have p: "p \<notin> set ns" "p \<noteq> NULL" "fq_heap s p \<noteq> None"
    using D(6) [of t] pc by auto
  let ?h = "(fq_heap s)(p := None)" and ?Q = "(fq_pop s)(t := O_Done Success)"
  let ?s = "pop_goto t (O_Done Success) (s\<lparr>fq_heap := ?h\<rparr>)"
  have step: "destroy_node t p s = Some ?s"
    using p by (simp add: destroy_node_def dealloc_def)
  have new: "new_node (fq_push s u) \<noteq> p" for u
    using D(7) pc p(2) unfolding owners_def by (metis destroyed.simps(1))
  have other: "destroyed (fq_pop s u) \<noteq> p" if "u \<noteq> t" for u
    using D(7) pc p(2) that unfolding owners_def exclusive_def by (metis comp_apply destroyed.simps(1))
  have same: "?h c = fq_heap s c" if "c \<in> set ns" for c
    using that p(1) by auto
  have "linking fn_next ?h (\<lambda>c d. \<exists>u. fq_push s u = N_Swapped c d) ns"
    by (rule linking_cong [OF D(1) same])
  moreover have "fpush_ok ?h ns (fq_push s u)" for u
    using D(5) [of u] new [of u] p(1) by (cases "fq_push s u") auto
  moreover have "fpop_ok ?h (fq_tag s) ns (?Q u)" for u
    using D(6) [of u] other [of u] p(1) by (cases "u = t"; cases "fq_pop s u") (auto simp: data_of_def)
  moreover have "owners (fq_push s) ?Q"
    by (intro owners_pop [OF D(7)]) simp
  moreover have "no_leak ?s ns"
    using pc by (intro no_leak_pop [OF D(8), where t = t and pc = "O_Done Success"]) (auto split: if_splits)
  moreover have "one_kind sc ?Q"
    using D(9) pc by (auto simp: one_kind_def split: if_splits)
  moreover have "map (data_of ?h) (tl ns) = map (data_of (fq_heap s)) (tl ns)"
    using p(1) by (cases ns) (auto simp: data_of_def)
  ultimately have "fifo_inv sc k ?s ns"
    using D by (simp add: fifo_inv_def del: fun_upd_apply)
  with step show ?thesis by blast
qed

lemma fpop_ok_later:
  assumes "fpop_ok h c (p # n # ms) pc" "Suc (unat c) < 2 ^ 64" "\<And>a b. pc \<noteq> O_Single a b"
  shows "fpop_ok h (c + 1) (n # ms) pc"
proof -
  have u: "unat (c + 1) = Suc (unat c)" by (rule unat_Suc64 [OF assms(2)])
  have "d < c + 1" if "d \<le> c" for d
    using that u by (simp add: word_less_nat_alt word_le_nat_alt)
  then have "d \<le> c + 1 \<and> d \<noteq> c + 1" if "d \<le> c" for d
    using that by (auto simp: less_le)
  then show ?thesis using assms(1,3) by (cases pc) auto
qed

lemma cas_inv:
  assumes inv: "fifo_inv False (Suc k) s ns" and pc: "fq_pop s t = O_Data c p n x"
  shows "\<exists>s' ns'. try_pop_step t junk s = Some s' \<and> fifo_inv False k s' ns'"
proof (cases "(fq_tag s, fq_head s) = (c, p)")
  case False
  then have "try_pop_step t junk s = Some (pop_goto t (O_Done Failure) s)"
    unfolding try_pop_step_def tagged_compare_and_swap_def compare_and_swap2_def pc by auto
  moreover have "fifo_inv False k s ns" using inv by (simp add: fifo_inv_def)
  then have "fifo_inv False k (pop_goto t (O_Done Failure) s) ns"
    using pc by (intro pop_goto_inv) simp_all
  ultimately show ?thesis by blast
next
  case True
  note D = fifo_invD [OF inv]
  have c: "c = fq_tag s" "p = fq_head s" using True by auto
  obtain ms where ns: "ns = p # n # ms" and n: "map_option fn_next (fq_heap s p) = Some n" "data_of (fq_heap s) n = Some x"
    using D(6) [of t] pc c(1) by auto
  have b: "Suc (unat c) < 2 ^ 64" "unat (c + 1) + k < 2 ^ 64"
    using D(11) c(1) unat_Suc64 [of c] by auto
  have single: "fq_pop s u \<noteq> O_Single a d" for u a d
    using D(9) by (simp add: one_kind_def)
  have pops: "fpop_ok (fq_heap s) (c + 1) (n # ms) (fq_pop s u)" for u
    using D(6) [of u] single by (intro fpop_ok_later [OF _ b(1)]) (auto simp: c(1) ns)
  have "try_pop_step t junk s = Some (pop_goto t (O_Destroy p) (s\<lparr>fq_tag := c + 1, fq_head := n, fq_popped := fq_popped s @ [x]\<rparr>))"
    using True pc by (simp add: try_pop_step_def tagged_compare_and_swap_def compare_and_swap2_def)
  moreover have "fifo_inv False k (pop_goto t (O_Destroy p) (s\<lparr>fq_tag := c + 1, fq_head := n, fq_popped := fq_popped s @ [x]\<rparr>)) (n # ms)"
    using inv pops b(2) pc by (intro advance_inv [OF _ n]) (auto simp: ns)
  ultimately show ?thesis by blast
qed

lemma try_pop_inv:
  assumes inv: "fifo_inv False (Suc k) s ns"
  shows "\<exists>s' ns'. try_pop_step t junk s = Some s' \<and> fifo_inv False k s' ns'"
proof -
  have weak: "fifo_inv False k s ns" using inv by (simp add: fifo_inv_def)
  note D = fifo_invD [OF weak]
  have pc: "fpop_ok (fq_heap s) (fq_tag s) ns (fq_pop s t)" by (rule D(6))
  obtain m where hd: "hd ns \<noteq> NULL" "fq_heap s (hd ns) = Some m" "fn_next m \<noteq> NULL \<longrightarrow> (\<exists>ms. ns = hd ns # fn_next m # ms)"
    using linking_hd [OF D(1)] by blast
  show ?thesis
  proof (cases "fq_pop s t")
    case (O_Done r)
    then show ?thesis
      using pop_goto_inv [OF weak, of "O_Tag (fq_tag s)" t] by (auto simp: try_pop_step_def)
  next
    case (O_Tag c)
    then show ?thesis
      using pop_goto_inv [OF weak, of "O_Snapshot c (hd ns)" t] pc D(3) by (auto simp: try_pop_step_def)
  next
    case (O_Snapshot c p)
    let ?n = "fn_next (read_node junk p s)"
    let ?pc = "if ?n \<noteq> NULL then O_Next c p ?n else O_Done Empty"
    have "fpop_ok (fq_heap s) (fq_tag s) ns ?pc"
      using pc O_Snapshot hd by (auto simp: read_node_def)
    then have "fifo_inv False k (pop_goto t ?pc (note_read p s)) ns"
      using weak O_Snapshot by (intro pop_goto_inv) (simp_all add: note_read_inv)
    with O_Snapshot show ?thesis by (auto simp: try_pop_step_def Let_def)
  next
    case (O_Next c p n)
    let ?pc = "O_Data c p n (fn_data (read_node junk n s))"
    have "n \<in> set ns \<Longrightarrow> fq_heap s n \<noteq> None"
      using linking_members [OF D(1)] by blast
    then have "fpop_ok (fq_heap s) (fq_tag s) ns ?pc"
      using pc O_Next by (auto simp: read_node_def data_of_def)
    then have "fifo_inv False k (pop_goto t ?pc (note_read n s)) ns"
      using weak O_Next by (intro pop_goto_inv) (simp_all add: note_read_inv)
    with O_Next show ?thesis by (auto simp: try_pop_step_def)
  next
    case (O_Data c p n x)
    with cas_inv [OF inv] show ?thesis by blast
  next
    case (O_Single p n)
    with weak show ?thesis by (auto simp: try_pop_step_def)
  next
    case (O_Destroy p)
    with destroy_node_inv [OF weak O_Destroy] show ?thesis by (auto simp: try_pop_step_def)
  qed
qed

lemma try_pop_single_inv:
  assumes inv: "fifo_inv True k s ns"
  shows "\<exists>s' ns'. try_pop_single_step 0 s = Some s' \<and> fifo_inv True k s' ns'"
proof -
  note D = fifo_invD [OF inv]
  obtain m where hd: "hd ns \<noteq> NULL" "fq_heap s (hd ns) = Some m" "fn_next m \<noteq> NULL \<longrightarrow> (\<exists>ms. ns = hd ns # fn_next m # ms)"
    using linking_hd [OF D(1)] by blast
  show ?thesis
  proof (cases "fq_pop s 0")
    case (O_Done r)
    let ?pc = "if fn_next m \<noteq> NULL then O_Single (hd ns) (fn_next m) else O_Done Empty"
    have "fifo_inv True k (pop_goto 0 ?pc s) ns"
      using hd O_Done by (intro pop_goto_inv [OF inv]) auto
    with O_Done hd D(3) show ?thesis by (auto simp: try_pop_single_step_def)
  next
    case (O_Single p n)
    then obtain ms where ns: "ns = p # n # ms" "map_option fn_next (fq_heap s p) = Some n"
      using D(6) [of 0] by auto
    obtain q where q: "fq_heap s n = Some q" "n \<noteq> NULL"
      using linking_members [OF D(1), of n] ns(1) by auto
    have others: "fpop_ok (fq_heap s) (fq_tag s) (n # ms) (fq_pop s u)" if "u \<noteq> 0" for u
      using D(9) that unfolding one_kind_def by (metis fpop_ok.simps(1))
    let ?s = "pop_goto 0 (O_Destroy p) (s\<lparr>fq_tag := fq_tag s, fq_head := n, fq_popped := fq_popped s @ [fn_data q]\<rparr>)"
    have "fifo_inv True k ?s (n # ms)"
      using inv ns q others O_Single D(11) by (intro advance_inv [where k = k]) (auto simp: data_of_def)
    with O_Single q show ?thesis by (auto simp: try_pop_single_step_def)
  next
    case (O_Destroy p)
    with destroy_node_inv [OF inv O_Destroy] show ?thesis by (auto simp: try_pop_single_step_def)
  qed (use inv in \<open>auto simp: try_pop_single_step_def\<close>)
qed

lemma fifo_step_inv:
  assumes inv: "fifo_inv sc (Suc k) s ns"
  shows "\<exists>s' ns'. fifo_step sp sc a s = Some s' \<and> fifo_inv sc k s' ns'"
proof -
  have weak: "fifo_inv sc k s ns" using inv by (simp add: fifo_inv_def)
  show ?thesis
  proof (cases a)
    case (Fifo_Push t b v)
    then show ?thesis
      using weak alloc_node_inv [OF weak, of "if sp then 0 else t" b v] by (auto simp: Let_def split: fpush_pc.split)
  next
    case (Fifo_Pusher t)
    with try_push_inv [OF weak] show ?thesis by simp
  next
    case (Fifo_Popper t junk)
    then show ?thesis
      using try_pop_inv [of k s ns t junk] try_pop_single_inv [of k s ns] inv weak by (cases sc) simp_all
  qed
qed

interpretation fifo_machine: machine "fifo_step sp sc" "\<lambda>_. True" "\<lambda>k s. \<exists>ns. fifo_inv sc k s ns" for sp sc
  by unfold_locales (use fifo_step_inv in blast)

lemma fifo_init_inv: "a \<noteq> NULL \<Longrightarrow> k < 2 ^ 64 \<Longrightarrow> fifo_inv sc k (fifo a) [a]"
  by (auto simp: fifo_inv_def fifo_def owners_def exclusive_def no_leak_def one_kind_def)

text \<open>A single consumer reads allocated nodes only.\<close>

lemma single_reads: "fifo_step sp True a s = Some s' \<Longrightarrow> fq_stale s' = fq_stale s"
  by (cases a)
    (auto simp: Let_def alloc_node_def try_push_step_def try_pop_single_step_def destroy_node_def
      split: fpush_pc.splits fpop_pc.splits if_splits Option.bind_splits)

lemma single_reads_run: "fifo_run sp True acts s = Some s' \<Longrightarrow> fq_stale s' = fq_stale s"
  by (induction acts arbitrary: s) (auto simp: single_reads split: Option.bind_splits)

section \<open>Properties\<close>

text \<open>C21. The C++ queue with one or many producers and one or many consumers, whose nodes are freed and used again at once: under every schedule shorter than \<open>2 ^ 64\<close>, and whatever
  the reads of freed memory return, no node is freed twice or linked after it was freed; the values popped are the values pushed, in order, each once, and the others are in the queue;
  no block leaks; and a single consumer never reads freed memory.
\<close>

theorem cpp_fifo_linearizable:
  assumes "a \<noteq> NULL" "length acts < 2 ^ 64"
  shows "\<exists>s ns. fifo_run sp sc acts (fifo a) = Some s \<and> ns \<noteq> [] \<and> distinct ns \<and> fq_head s = hd ns \<and> fq_tail s = last ns \<and>
     map Some (fq_pushed s) = map Some (fq_popped s) @ map (data_of (fq_heap s)) (tl ns) \<and>
     (\<forall>b. b \<noteq> NULL \<and> fq_heap s b \<noteq> None \<longrightarrow>
        b \<in> set ns \<or> (\<exists>t. fq_push s t = N_New b) \<or> (\<exists>t. fq_pop s t = O_Destroy b)) \<and>
     (sc \<longrightarrow> fq_stale s = [])"
proof -
  obtain s ns where run: "fifo_run sp sc acts (fifo a) = Some s" and inv: "fifo_inv sc 0 s ns"
    using fifo_machine.run_ok [where as = acts and s = "fifo a" and sp = sp and sc = sc] fifo_init_inv [OF assms] by blast
  have "new_node (fq_push s t) = b \<Longrightarrow> b \<noteq> NULL \<Longrightarrow> fq_push s t = N_New b" "destroyed (fq_pop s t) = b \<Longrightarrow> b \<noteq> NULL \<Longrightarrow> fq_pop s t = O_Destroy b" for t b
    by (cases "fq_push s t"; auto) (cases "fq_pop s t"; auto)
  then have "b \<in> set ns \<or> (\<exists>t. fq_push s t = N_New b) \<or> (\<exists>t. fq_pop s t = O_Destroy b)" if "b \<noteq> NULL" "fq_heap s b \<noteq> None" for b
    using fifo_invD(8) [OF inv] that unfolding no_leak_def by metis
  moreover have "fq_stale s = []" if sc
    using single_reads_run [of sp acts "fifo a" s] run that by (simp add: fifo_def)
  ultimately show ?thesis
    using run fifo_invD [OF inv] fifo_inv_nonempty [OF inv] by blast
qed

definition demo_fifo :: "fifo_act list" where
  "demo_fifo = [Fifo_Push 0 2 7, Fifo_Push 1 3 8, Fifo_Pusher 1, Fifo_Pusher 0, Fifo_Pusher 0, Fifo_Pusher 1] @
     replicate 6 (Fifo_Popper 0 \<lparr>fn_next = NULL, fn_data = 0\<rparr>)"

theorem cpp_fifo_linearizable_witness:
  "\<exists>s ns. fifo_run False False demo_fifo (fifo 1) = Some s \<and> fq_popped s = [8] \<and> fq_pushed s = [8, 7] \<and>
     map Some (fq_pushed s) = map Some (fq_popped s) @ map (data_of (fq_heap s)) (tl ns)"
proof -
  have "map_option (\<lambda>s. (fq_popped s, fq_pushed s)) (fifo_run False False demo_fifo (fifo 1)) = Some ([8], [8, 7])"
    by code_simp
  moreover have "length demo_fifo < 2 ^ 64"
    by (simp add: demo_fifo_def)
  ultimately show ?thesis
    using cpp_fifo_linearizable [of 1 demo_fifo False False] by auto
qed



end
