(* ===== verification/Event_Ev.thy ===== *)
theory Event_Ev
  imports Event
begin

text \<open>
  \<open>src/fiber_event_ev.c\<close>, the event system over libev, one call at a time.  libev is outside: whether a loop can be made, and which of the
  active watchers have a pending event when \<open>ev_run\<close> is called, are arguments; what is used of it is that it invokes the callbacks
  of active watchers only.  A watcher lives on the stack of the fiber that waits, so a fiber has at most one.
\<close>

section \<open>State\<close>

text \<open>The time of a timer is kept as its two arguments; libev measures it as a \<open>double\<close>.\<close>

datatype watcher = Io_Watcher int "32 word" addr | Timer_Watcher "32 word" "32 word" addr

fun watcher_data :: "watcher \<Rightarrow> addr" where
  "watcher_data (Io_Watcher fd evs f) = f"
| "watcher_data (Timer_Watcher s us f) = f"

record lev_state =
  lv_loop :: "watcher list option"
  lv_triggered :: int
  lv_active :: int

definition fiber_loop_spinlock :: addr where "fiber_loop_spinlock = 1"

definition EV_READ :: "32 word" where "EV_READ = 1"
definition EV_WRITE :: "32 word" where "EV_WRITE = 2"

section \<open>Operations\<close>

definition fiber_event_init_ev :: "bool \<Rightarrow> bool \<Rightarrow> lev_state \<Rightarrow> 's fiber_world \<Rightarrow> (lev_state \<times> 's fiber_world \<times> int) option" where
  "fiber_event_init_ev version_ok loop_ok e w = do {
     w1 \<leftarrow> lock_at fiber_loop_spinlock w;
     c_assert version_ok;
     c_assert loop_ok;
     w2 \<leftarrow> unlock_at fiber_loop_spinlock w1;
     Some (e\<lparr>lv_active := int (length (fw_managers w)), lv_loop := Some []\<rparr>, w2, FIBER_SUCCESS)
   }"

definition fiber_event_shutdown_ev :: "lev_state \<Rightarrow> 's fiber_world \<Rightarrow> (lev_state \<times> 's fiber_world) option" where
  "fiber_event_shutdown_ev e w = do {
     w1 \<leftarrow> lock_at fiber_loop_spinlock w;
     w2 \<leftarrow> unlock_at fiber_loop_spinlock w1;
     Some (e\<lparr>lv_loop := None\<rparr>, w2)
   }"

text \<open>The callbacks: stop the watcher, and schedule its fiber.\<close>

definition fd_ready :: "'s scheduler_ops \<Rightarrow> nat \<Rightarrow> watcher \<Rightarrow> lev_state \<times> 's fiber_world \<Rightarrow> (lev_state \<times> 's fiber_world) option" where
  "fd_ready ops t watcher ew =
     (case ew of (e, w) \<Rightarrow> do {
        let the_fiber = watcher_data watcher;
        w1 \<leftarrow> upd_fiber the_fiber (\<lambda>x. x\<lparr>fb_state := FIBER_STATE_READY\<rparr>) w;
        w2 \<leftarrow> fiber_manager_schedule ops t the_fiber w1;
        Some (e\<lparr>lv_loop := map_option (remove1 watcher) (lv_loop e), lv_triggered := lv_triggered e + 1\<rparr>, w2)
      })"

definition timer_trigger :: "'s scheduler_ops \<Rightarrow> nat \<Rightarrow> watcher \<Rightarrow> lev_state \<times> 's fiber_world \<Rightarrow> (lev_state \<times> 's fiber_world) option" where
  "timer_trigger ops t watcher ew =
     (case ew of (e, w) \<Rightarrow> do {
        let the_fiber = watcher_data watcher;
        w1 \<leftarrow> upd_fiber the_fiber (\<lambda>x. x\<lparr>fb_state := FIBER_STATE_READY\<rparr>) w;
        w2 \<leftarrow> fiber_manager_schedule ops t the_fiber w1;
        Some (e\<lparr>lv_loop := map_option (remove1 watcher) (lv_loop e), lv_triggered := lv_triggered e + 1\<rparr>, w2)
      })"

text \<open>\<open>ev_run\<close> with the watchers that have a pending event; one that is not active any more is passed over.\<close>

fun ev_run :: "'s scheduler_ops \<Rightarrow> nat \<Rightarrow> watcher list \<Rightarrow> lev_state \<times> 's fiber_world \<Rightarrow> (lev_state \<times> 's fiber_world) option" where
  "ev_run ops t [] ew = Some ew"
| "ev_run ops t (x # pending) ew = do {
     active \<leftarrow> lv_loop (fst ew);
     ew1 \<leftarrow> (if x \<in> set active then case x of Io_Watcher _ _ _ \<Rightarrow> fd_ready ops t x ew | Timer_Watcher _ _ _ \<Rightarrow> timer_trigger ops t x ew
             else Some ew);
     ev_run ops t pending ew1
   }"

definition poll_loop_ev :: "'s scheduler_ops \<Rightarrow> nat \<Rightarrow> watcher list \<Rightarrow> lev_state \<times> 's fiber_world \<Rightarrow> (lev_state \<times> 's fiber_world \<times> int) option" where
  "poll_loop_ev ops t pending ew =
     (case ew of (e, w) \<Rightarrow> do {
        w1 \<leftarrow> upd_manager t (\<lambda>m. m\<lparr>fm_poll_count := fm_poll_count m + 1\<rparr>) w;
        (e2, w2) \<leftarrow> ev_run ops t pending (e\<lparr>lv_triggered := 0\<rparr>, w1);
        w3 \<leftarrow> unlock_at fiber_loop_spinlock w2;
        Some (e2, w3, lv_triggered e2)
      })"



definition ev_events :: "32 word \<Rightarrow> 32 word" where
  "ev_events events = (if events AND FIBER_POLL_IN \<noteq> 0 then EV_READ else 0) OR (if events AND FIBER_POLL_OUT \<noteq> 0 then EV_WRITE else 0)"

definition fiber_wait_for_event_ev ::
  "'s scheduler_ops \<Rightarrow> outside \<Rightarrow> nat \<Rightarrow> int \<Rightarrow> 32 word \<Rightarrow> lev_state \<times> 's fiber_world \<Rightarrow> (lev_state \<times> 's fiber_world \<times> yield_outcome) option" where
  "fiber_wait_for_event_ev ops o1 t fd events ew =
     (case ew of (e, w) \<Rightarrow> do {
        w1 \<leftarrow> lock_at fiber_loop_spinlock w;
        m \<leftarrow> nth_opt (fw_managers w1) t;
        let this_fiber = fm_current_fiber m;
        active \<leftarrow> lv_loop e;
        w2 \<leftarrow> upd_fiber this_fiber (\<lambda>x. x\<lparr>fb_state := FIBER_STATE_WAITING\<rparr>) w1;
        w3 \<leftarrow> upd_manager t (\<lambda>m. m\<lparr>fm_event_wait_count := fm_event_wait_count m + 1, fm_spinlock_to_unlock := fiber_loop_spinlock\<rparr>) w2;
        (w4, oc) \<leftarrow> fiber_manager_yield ops o1 t w3;
        Some (e\<lparr>lv_loop := Some (active @ [Io_Watcher fd (ev_events events) this_fiber])\<rparr>, w4, oc)
      })"

definition fiber_sleep_ev ::
  "'s scheduler_ops \<Rightarrow> outside \<Rightarrow> nat \<Rightarrow> 32 word \<Rightarrow> 32 word \<Rightarrow> lev_state \<times> 's fiber_world \<Rightarrow>
   (lev_state \<times> 's fiber_world \<times> 32 word list \<times> yield_outcome) option" where
  "fiber_sleep_ev ops o1 t seconds useconds ew =
     (case ew of (e, w) \<Rightarrow>
        case lv_loop e of
          None \<Rightarrow> Some (e, w, fiber_do_real_sleep seconds useconds, Returned)
        | Some active \<Rightarrow> do {
            w1 \<leftarrow> lock_at fiber_loop_spinlock w;
            m \<leftarrow> nth_opt (fw_managers w1) t;
            let this_fiber = fm_current_fiber m;
            w2 \<leftarrow> upd_fiber this_fiber (\<lambda>x. x\<lparr>fb_state := FIBER_STATE_WAITING\<rparr>) w1;
            w3 \<leftarrow> upd_manager t (\<lambda>m. m\<lparr>fm_spinlock_to_unlock := fiber_loop_spinlock\<rparr>) w2;
            (w4, oc) \<leftarrow> fiber_manager_yield ops o1 t w3;
            Some (e\<lparr>lv_loop := Some (active @ [Timer_Watcher seconds useconds this_fiber])\<rparr>, w4, [], oc)
          })"

text \<open>Closing a descriptor does nothing here.\<close>

definition fiber_fd_closed_ev :: "int \<Rightarrow> lev_state \<times> 's fiber_world \<Rightarrow> lev_state \<times> 's fiber_world" where
  "fiber_fd_closed_ev fd ew = ew"

section \<open>Polling is waking\<close>

lemma callback_wakes:
  assumes "f \<noteq> NULL"
  shows "watcher_data x = f \<Longrightarrow> (case x of Io_Watcher _ _ _ \<Rightarrow> fd_ready ops t x (e, w) | Timer_Watcher _ _ _ \<Rightarrow> timer_trigger ops t x (e, w)) =
    map_option (Pair (e\<lparr>lv_loop := map_option (remove1 x) (lv_loop e), lv_triggered := lv_triggered e + 1\<rparr>)) (wake_chain ops t [f] w)"
  using assms by (cases x) (auto simp: fd_ready_def timer_trigger_def Let_def Option.bind_map_option comp_def map_conv_bind_option)

lemma wake_chain_Cons: "wake_chain ops t (f # fs) w = Option.bind (wake_chain ops t [f] w) (wake_chain ops t fs)"
  by (simp add: Option.bind_assoc)

lemma ev_run_wakes:
  assumes "lv_loop e = Some active" "distinct active" "distinct pending" "set pending \<subseteq> set active" "NULL \<notin> watcher_data ` set pending"
  shows "ev_run ops t pending (e, w) =
    map_option (Pair (e\<lparr>lv_loop := Some (filter (\<lambda>x. x \<notin> set pending) active), lv_triggered := lv_triggered e + int (length pending)\<rparr>))
      (wake_chain ops t (map watcher_data pending) w)"
  using assms
proof (induction pending arbitrary: e w active)
  case Nil
  then show ?case by (cases e) simp
next
  case (Cons x pending)
  let ?e = "e\<lparr>lv_loop := Some (remove1 x active), lv_triggered := lv_triggered e + 1\<rparr>"
  have r: "remove1 x active = filter (\<lambda>y. x \<noteq> y) active"
    using Cons.prems(2) by (simp add: distinct_remove1_removeAll removeAll_filter_not_eq)
  have f: "filter (\<lambda>y. y \<notin> set pending) (remove1 x active) = filter (\<lambda>y. y \<notin> set (x # pending)) active"
    unfolding r filter_filter by (rule filter_cong) auto
  have "distinct (remove1 x active)" "set pending \<subseteq> set (remove1 x active)"
    unfolding r using Cons.prems by auto
  then have "ev_run ops t pending (?e, w') = map_option (Pair (e\<lparr>lv_loop := Some (filter (\<lambda>y. y \<notin> set (x # pending)) active),
      lv_triggered := lv_triggered e + int (length (x # pending))\<rparr>)) (wake_chain ops t (map watcher_data pending) w')" for w'
    using Cons.IH [of ?e "remove1 x active" w'] Cons.prems(3,5) unfolding f by (simp add: ac_simps)
  moreover have "watcher_data x \<noteq> NULL" "x \<in> set active"
    using Cons.prems by auto
  ultimately show ?case
    using callback_wakes [of "watcher_data x" x ops t e w] Cons.prems(1) wake_chain_Cons [of ops t "watcher_data x" "map watcher_data pending" w]
    by (simp add: map_conv_bind_option Option.bind_assoc del: wake_chain.simps)
qed


context manager_scheduler
begin

lemma poll_loop_ev_ok:
  assumes "lv_loop e = Some active" "distinct (map watcher_data active)" "distinct pending" "set pending \<subseteq> set active"
    and "fw_spinlocks w fiber_loop_spinlock = Some l" "sl_ticket l + 1 = sl_users l" "t < length (fw_managers w)"
    and "ok (length pending + k) fibers (fw_scheduler w)"
    and "\<forall>f \<in> watcher_data ` set pending. f \<noteq> NULL \<and> fw_fibers w f \<noteq> None \<and> f \<in> set fibers \<and> f \<notin># ready (fw_scheduler w)"
  shows "\<exists>w'. poll_loop_ev ops t pending (e, w) =
      Some (e\<lparr>lv_loop := Some (filter (\<lambda>x. x \<notin> set pending) active), lv_triggered := int (length pending)\<rparr>, w', int (length pending)) \<and>
    ready (fw_scheduler w') = ready (fw_scheduler w) + mset (map watcher_data pending) \<and> ok k fibers (fw_scheduler w') \<and>
    fw_fibers w' = map_fibers (watcher_data ` set pending) (\<lambda>x. x\<lparr>fb_state := FIBER_STATE_READY\<rparr>) (fw_fibers w) \<and> spin_free w' fiber_loop_spinlock"
proof -
  let ?m = "(fw_managers w ! t)\<lparr>fm_poll_count := fm_poll_count (fw_managers w ! t) + 1\<rparr>"
  let ?w1 = "w\<lparr>fw_managers := (fw_managers w)[t := ?m]\<rparr>" and ?fs = "map watcher_data pending"
  have d: "distinct active" "distinct ?fs"
    using assms(2-4) by (auto simp: distinct_map intro: inj_on_subset)
  have fs: "\<forall>f \<in> set ?fs. f \<noteq> NULL \<and> fw_fibers ?w1 f \<noteq> None \<and> f \<in> set fibers \<and> f \<notin># ready (fw_scheduler ?w1)"
    using assms(9) by simp
  obtain s where s: "wake_chain ops t ?fs ?w1 =
        Some (?w1\<lparr>fw_fibers := map_fibers (set ?fs) (\<lambda>x. x\<lparr>fb_state := FIBER_STATE_READY\<rparr>) (fw_fibers w), fw_scheduler := s\<rparr>)" (is "_ = Some ?w2")
      "ok k fibers s" "ready s = ready (fw_scheduler w) + mset ?fs"
    using wake_chain_ok [of ?fs k fibers ?w1, OF _ d(2) fs] assms(8) by auto
  have null: "NULL \<notin> watcher_data ` set pending"
    using assms(9) by blast
  have "ev_run ops t pending (e\<lparr>lv_triggered := 0\<rparr>, ?w1) =
      Some (e\<lparr>lv_loop := Some (filter (\<lambda>x. x \<notin> set pending) active), lv_triggered := int (length pending)\<rparr>, ?w2)"
    using ev_run_wakes [of "e\<lparr>lv_triggered := 0\<rparr>" active pending ops t ?w1] assms(1,3,4) d(1) null s(1) by (cases e) simp
  moreover obtain l' where "unlock_at fiber_loop_spinlock ?w2 = Some (?w2\<lparr>fw_spinlocks := (fw_spinlocks ?w2)(fiber_loop_spinlock \<mapsto> l')\<rparr>)"
      "sl_ticket l' = sl_users l'"
    using unlock_at_held [of ?w2 fiber_loop_spinlock l] assms(5,6) by (auto simp: fiber_loop_spinlock_def)
  ultimately show ?thesis
    using s(2,3) assms(7) by (simp add: poll_loop_ev_def upd_Some spin_free_def fiber_loop_spinlock_def)
qed

lemma wait_ev_ok:
  assumes "may_block t o1 c mf (ready (fw_scheduler w)) w" "ok (Suc k) fibers (fw_scheduler w)"
    and "spin_free w fiber_loop_spinlock" "lv_loop e = Some active"
  shows "\<exists>w' oc f. (if sleeps then map_option (\<lambda>(e, w, us, oc). (e, w, oc)) (fiber_sleep_ev ops o1 t s us (e, w))
        else fiber_wait_for_event_ev ops o1 t fd events (e, w)) =
      Some (e\<lparr>lv_loop := Some (active @ [if sleeps then Timer_Watcher s us c else Io_Watcher fd (ev_events events) c])\<rparr>, w', oc) \<and>
    ok k fibers (fw_scheduler w') \<and> runs t f w' \<and> f \<noteq> c \<and> map_option fb_state (fw_fibers w' c) = Some FIBER_STATE_WAITING \<and>
    spin_free w' fiber_loop_spinlock \<and>
    (oc = Switched f \<and> ready (fw_scheduler w) = add_mset f (ready (fw_scheduler w')) \<or>
     oc = Again f \<and> f = mf \<and> ready (fw_scheduler w') = ready (fw_scheduler w))"
proof -
  have r: "runs t c w" using assms(1) by (simp add: may_block_def)
  then obtain x where x: "fw_fibers w c = Some x" "c \<noteq> NULL" "t < length (fw_managers w)" "fm_current_fiber (fw_managers w ! t) = c"
    by (auto simp: runs_def)
  obtain l where l: "lock_at fiber_loop_spinlock w = Some (w\<lparr>fw_spinlocks := (fw_spinlocks w)(fiber_loop_spinlock \<mapsto> l)\<rparr>)"
      "sl_ticket l + 1 = sl_users l" "fiber_loop_spinlock \<noteq> NULL"
    using lock_at_free [OF assms(3)] by blast
  let ?x = "x\<lparr>fb_state := FIBER_STATE_WAITING, fb_scratch := fb_scratch x\<rparr>"
  let ?m = "(fw_managers w ! t)\<lparr>fm_event_wait_count := fm_event_wait_count (fw_managers w ! t) + (if sleeps then 0 else 1)\<rparr>"
  let ?u = "w\<lparr>fw_spinlocks := (fw_spinlocks w)(fiber_loop_spinlock \<mapsto> l), fw_fibers := (fw_fibers w)(c \<mapsto> ?x),
      fw_managers := (fw_managers w)[t := ?m\<lparr>fm_spinlock_to_unlock := fiber_loop_spinlock\<rparr>]\<rparr>"
  obtain w' oc f where y: "fiber_manager_yield ops o1 t ?u = Some (w', oc)" "ok k fibers (fw_scheduler w')" "runs t f w'"
      "f \<noteq> c" "\<exists>y. fw_fibers ?u f = Some y \<and> fw_fibers w' = (fw_fibers ?u)(f \<mapsto> y\<lparr>fb_state := FIBER_STATE_RUNNING\<rparr>)" "spin_free w' fiber_loop_spinlock"
      "oc = Switched f \<and> ready (fw_scheduler w) = add_mset f (ready (fw_scheduler w')) \<or>
       oc = Again f \<and> f = mf \<and> ready (fw_scheduler w') = ready (fw_scheduler w)"
    using block_unlocking [OF assms(1,2) x(1) refl l(3,2) refl refl] by blast
  have "(if sleeps then map_option (\<lambda>(e, w, us, oc). (e, w, oc)) (fiber_sleep_ev ops o1 t s us (e, w))
        else fiber_wait_for_event_ev ops o1 t fd events (e, w)) =
      Some (e\<lparr>lv_loop := Some (active @ [if sleeps then Timer_Watcher s us c else Io_Watcher fd (ev_events events) c])\<rparr>, w', oc)"
    using assms(4) l(1) x y(1) by (cases sleeps) (simp_all add: fiber_sleep_ev_def fiber_wait_for_event_ev_def upd_Some Let_def)
  with y show ?thesis by auto
qed

end

section \<open>Properties\<close>




definition demo_loop :: lev_state where
  "demo_loop = \<lparr>lv_loop = Some [Io_Watcher 5 1 13, Timer_Watcher 2 0 11], lv_triggered = 0, lv_active = 1\<rparr>"


text \<open>Waiting over libev.  A fiber that waits for a descriptor or sleeps has an active watcher of its own and is waiting, and
  another fiber runs, before the lock of the loop is released: no event can be missed or delivered early.
\<close>

theorem ev_wait_registers:
  assumes "may_block t o1 c mf (wsd_all (fw_scheduler w)) w" "wsd_all_ok al t (Suc k) fibers (fw_scheduler w)"
    and "spin_free w fiber_loop_spinlock" "lv_loop e = Some active"
  shows "\<forall>sleeps. \<exists>w' oc f.
    (if sleeps then map_option (\<lambda>(e, w, us, oc). (e, w, oc)) (fiber_sleep_ev (wsd_ops al sps sp) o1 t s us (e, w))
     else fiber_wait_for_event_ev (wsd_ops al sps sp) o1 t fd events (e, w)) =
      Some (e\<lparr>lv_loop := Some (active @ [if sleeps then Timer_Watcher s us c else Io_Watcher fd (ev_events events) c])\<rparr>, w', oc) \<and>
    runs t f w' \<and> f \<noteq> c \<and> map_option fb_state (fw_fibers w' c) = Some FIBER_STATE_WAITING \<and> spin_free w' fiber_loop_spinlock \<and>
    (oc = Switched f \<and> wsd_all (fw_scheduler w) = add_mset f (wsd_all (fw_scheduler w')) \<or>
     oc = Again f \<and> f = mf \<and> wsd_all (fw_scheduler w') = wsd_all (fw_scheduler w))"
  using wsd_manager.wait_ev_ok [OF assms] by blast

theorem ev_wait_registers_witness:
  "\<exists>s w' oc. fiber_wait_for_event_ev (wsd_ops first_free [] (\<lambda>_ _. False)) demo_outside 0 5 FIBER_POLL_IN
      (demo_loop\<lparr>lv_loop := Some []\<rparr>, (demo_world s (-1))\<lparr>fw_spinlocks := [fiber_loop_spinlock \<mapsto> \<lparr>sl_ticket = 0, sl_users = 0\<rparr>]\<rparr>) =
      Some (demo_loop\<lparr>lv_loop := Some [Io_Watcher 5 EV_READ 11]\<rparr>, w', oc) \<and> map_option fb_state (fw_fibers w' 11) = Some FIBER_STATE_WAITING"
proof -
  obtain s where s0: "wsd_all_ok first_free 0 9 [11, 12] s" "wsd_all s = {#12#}"
    using demo_scheduler by blast
  let ?w = "(demo_world s (-1))\<lparr>fw_spinlocks := [fiber_loop_spinlock \<mapsto> \<lparr>sl_ticket = 0, sl_users = 0\<rparr>]\<rparr>"
  have h: "wsd_all_ok first_free 0 (Suc 8) [11, 12] (fw_scheduler ?w)" "spin_free ?w fiber_loop_spinlock" "lv_loop (demo_loop\<lparr>lv_loop := Some []\<rparr>) = Some []"
    using s0 by (simp_all add: demo_world_def spin_free_def fiber_loop_spinlock_def)
  have "ev_events FIBER_POLL_IN = EV_READ"
    by (simp add: ev_events_def FIBER_POLL_IN_def FIBER_POLL_OUT_def)
  with ev_wait_registers [OF demo_block [OF s0(2)] h, of "[]" "\<lambda>_ _. False" 0 0 5 FIBER_POLL_IN, THEN spec, of False]
  show ?thesis by auto
qed

end
