(* ===== verification/Event_Port.thy ===== *)
theory Event_Port
  imports Event "HOL-Library.Signed_Division"
begin

text \<open>
  \<open>src/fiber_event_native.c\<close> on Solaris, one call at a time: the same waiters and sleepers over an event port, and a timer that does not say how often
  it has expired, so that the code computes it from the clock.  The kernel is outside: what \<open>port_getn\<close> and \<open>gethrtime\<close> return are arguments,
  and the calls of \<open>port_associate\<close> and \<open>port_dissociate\<close> are recorded.
\<close>

unbundle bit_operations_syntax

section \<open>State\<close>

datatype port_call = Port_Associate nat "32 word" | Port_Dissociate nat

text \<open>\<open>pt_events\<close> is the part shared with Linux; \<open>ev_timer_fd\<close> is the timer there.\<close>

record port_state =
  pt_events :: event_state
  pt_last_timer_trigger :: int
  pt_calls :: "port_call list"

definition POLLIN :: "32 word" where "POLLIN = 1"
definition POLLOUT :: "32 word" where "POLLOUT = 4"

text \<open>\<open>FIBER_TIME_RESOLUTION_MS\<close> in nanoseconds.\<close>

definition TICK :: int where "TICK = 5 * 1000000"

definition fiber_event_init_port ::
  "nat option \<Rightarrow> int \<Rightarrow> int option \<Rightarrow> bool \<Rightarrow> int \<Rightarrow> port_state \<Rightarrow> 's fiber_world \<Rightarrow> (port_state \<times> 's fiber_world \<times> int) option" where
  "fiber_event_init_port limit the_event_fd timer settime_ok now p w =
     (if ev_event_fd (pt_events p) \<ge> 0 then Some (p, w, FIBER_ERROR)
      else case limit of
        None \<Rightarrow> Some (p, w, FIBER_ERROR)
      | Some mx \<Rightarrow> do {
          c_assert (ev_wait_info (pt_events p) = None);
          c_assert (the_event_fd \<ge> 0);
          timer_id \<leftarrow> timer;
          c_assert settime_ok;
          Some (p\<lparr>pt_events := (pt_events p)\<lparr>ev_event_fd := the_event_fd, ev_timer_fd := timer_id, ev_max_fd := mx,
                    ev_wait_info := Some (replicate mx \<lparr>wi_events = 0, wi_added = False, wi_waiters = NULL\<rparr>)\<rparr>,
                  pt_last_timer_trigger := now\<rparr>,
                w\<lparr>fw_spinlocks := (\<lambda>a. if a \<in> fd_spinlock ` {..<mx} then Some (fst fiber_spinlock_init) else fw_spinlocks w a)\<rparr>,
                FIBER_SUCCESS)
        })"

definition fiber_event_shutdown_port :: "port_state \<Rightarrow> port_state" where
  "fiber_event_shutdown_port p = p\<lparr>pt_events := fiber_event_shutdown (pt_events p)\<rparr>"

section \<open>Polling\<close>

text \<open>
  The number of ticks that have passed is an \<open>int\<close>, and so is its product with the length of a tick; the overflow of a signed
  product is undefined.  Times are counted in nanoseconds.
\<close>

definition port_ticks :: "int \<Rightarrow> int \<Rightarrow> (int \<times> int) option" where
  "port_ticks now last_trigger = do {
     let timer_count = sint (word_of_int ((now - last_trigger) sdiv TICK) :: 32 word);
     c_assert (- (2 ^ 31) \<le> timer_count * TICK \<and> timer_count * TICK < 2 ^ 31);
     Some (timer_count, last_trigger + timer_count * TICK)
   }"

datatype port_event = Port_Timer int | Port_Fd nat "32 word" | Port_Other

definition poll_event_port ::
  "'s scheduler_ops \<Rightarrow> nat \<Rightarrow> port_event \<Rightarrow> port_state \<times> 's fiber_world \<Rightarrow> (port_state \<times> 's fiber_world) option" where
  "poll_event_port ops t ev pw =
     (case pw of (p, w) \<Rightarrow> case ev of
        Port_Timer now \<Rightarrow> do {
          (timer_count, last_trigger) \<leftarrow> port_ticks now (pt_last_timer_trigger p);
          (e, w1) \<leftarrow> fiber_event_wake_sleepers ops t (word_of_int timer_count) (pt_events p) w;
          Some (p\<lparr>pt_events := e, pt_last_timer_trigger := last_trigger\<rparr>, w1) }
      | Port_Fd fd revents \<Rightarrow> do {
          infos \<leftarrow> ev_wait_info (pt_events p);
          info \<leftarrow> nth_opt infos fd;
          w1 \<leftarrow> lock_at (fd_spinlock fd) w;
          let events = (wi_events info AND NOT revents) AND (POLLIN OR POLLOUT);
          let calls = (if events \<noteq> 0 then [Port_Associate fd events] else []);
          w2 \<leftarrow> fiber_event_wake_waiters ops t (wi_waiters info) NULL w1;
          w3 \<leftarrow> unlock_at (fd_spinlock fd) w2;
          Some (p\<lparr>pt_events := (pt_events p)\<lparr>ev_wait_info := Some (infos[fd := info\<lparr>wi_events := events, wi_waiters := NULL\<rparr>])\<rparr>,
                  pt_calls := pt_calls p @ calls\<rparr>, w3) }
      | Port_Other \<Rightarrow> Some (p, w))"

fun poll_loop_port ::
  "'s scheduler_ops \<Rightarrow> nat \<Rightarrow> port_event list \<Rightarrow> port_state \<times> 's fiber_world \<Rightarrow> (port_state \<times> 's fiber_world) option" where
  "poll_loop_port ops t [] pw = Some pw"
| "poll_loop_port ops t (ev # evs) pw = do { pw1 \<leftarrow> poll_event_port ops t ev pw; poll_loop_port ops t evs pw1 }"

text \<open>Any failure of \<open>port_getn\<close> other than the timeout trips an assertion, an interruption included.\<close>

definition fiber_poll_events_internal_port ::
  "'s scheduler_ops \<Rightarrow> nat \<Rightarrow> port_event list \<Rightarrow> bool \<Rightarrow> port_state \<times> 's fiber_world \<Rightarrow> (port_state \<times> 's fiber_world \<times> int) option" where
  "fiber_poll_events_internal_port ops t events failed pw = do {
     w1 \<leftarrow> upd_manager t (\<lambda>m. m\<lparr>fm_poll_count := fm_poll_count m + 1\<rparr>) (snd pw);
     (p2, w2) \<leftarrow> poll_loop_port ops t events (fst pw, w1);
     c_assert (\<not> failed);
     Some (p2, w2, int (length events))
   }"

section \<open>Waiting and closing\<close>

definition wanted_port :: "32 word \<Rightarrow> 32 word \<Rightarrow> 32 word" where
  "wanted_port old events =
     old OR (if events AND FIBER_POLL_IN \<noteq> 0 then POLLIN else 0) OR (if events AND FIBER_POLL_OUT \<noteq> 0 then POLLOUT else 0)"

definition fiber_wait_for_event_port ::
  "'s scheduler_ops \<Rightarrow> outside \<Rightarrow> nat \<Rightarrow> int \<Rightarrow> 32 word \<Rightarrow> port_state \<times> 's fiber_world \<Rightarrow>
   (port_state \<times> 's fiber_world \<times> yield_outcome) option" where
  "fiber_wait_for_event_port ops o1 t the_fd events pw =
     (case pw of (p, w) \<Rightarrow> do {
        c_assert (the_fd \<ge> 0);
        let fd = nat the_fd;
        c_assert (fd < ev_max_fd (pt_events p));
        infos \<leftarrow> ev_wait_info (pt_events p);
        info \<leftarrow> nth_opt infos fd;
        w1 \<leftarrow> lock_at (fd_spinlock fd) w;
        let evs = wanted_port (wi_events info) events;
        m \<leftarrow> nth_opt (fw_managers w1) t;
        let this_fiber = fm_current_fiber m;
        w2 \<leftarrow> upd_fiber this_fiber (\<lambda>x. x\<lparr>fb_state := FIBER_STATE_WAITING, fb_scratch := wi_waiters info\<rparr>) w1;
        w3 \<leftarrow> upd_manager t (\<lambda>m. m\<lparr>fm_event_wait_count := fm_event_wait_count m + 1, fm_spinlock_to_unlock := fd_spinlock fd\<rparr>) w2;
        (w4, oc) \<leftarrow> fiber_manager_yield ops o1 t w3;
        Some (p\<lparr>pt_events := (pt_events p)\<lparr>ev_wait_info := Some (infos[fd := info\<lparr>wi_events := evs, wi_waiters := this_fiber\<rparr>])\<rparr>,
                pt_calls := pt_calls p @ [Port_Associate fd evs]\<rparr>, w4, oc)
      })"

definition fiber_fd_closed_port :: "'s scheduler_ops \<Rightarrow> nat \<Rightarrow> int \<Rightarrow> port_state \<times> 's fiber_world \<Rightarrow> (port_state \<times> 's fiber_world) option" where
  "fiber_fd_closed_port ops t the_fd pw =
     (case pw of (p, w) \<Rightarrow>
        if ev_event_fd (pt_events p) < 0 then Some (p, w)
        else do {
          c_assert (the_fd \<ge> 0);
          let fd = nat the_fd;
          c_assert (fd < ev_max_fd (pt_events p));
          infos \<leftarrow> ev_wait_info (pt_events p);
          info \<leftarrow> nth_opt infos fd;
          w1 \<leftarrow> lock_at (fd_spinlock fd) w;
          let calls = (if wi_events info \<noteq> 0 then [Port_Dissociate fd] else []);
          w2 \<leftarrow> fiber_event_wake_waiters ops t (wi_waiters info) CLOSED w1;
          w3 \<leftarrow> unlock_at (fd_spinlock fd) w2;
          Some (p\<lparr>pt_events := (pt_events p)\<lparr>ev_wait_info := Some (infos[fd := info\<lparr>wi_events := 0, wi_waiters := NULL\<rparr>])\<rparr>,
                  pt_calls := pt_calls p @ calls\<rparr>, w3)
        })"

section \<open>The clock\<close>

lemma port_ticks_count:
  assumes "lt \<le> now" "now - lt < 2 ^ 31 * TICK"
  shows "sint (word_of_int ((now - lt) sdiv TICK) :: 32 word) = (now - lt) div TICK" "0 \<le> (now - lt) div TICK"
proof -
  have q: "(now - lt) sdiv TICK = (now - lt) div TICK"
    using assms(1) by (simp add: signed_divide_int_def TICK_def sgn_if)
  show n: "0 \<le> (now - lt) div TICK"
    using assms by (simp add: TICK_def pos_imp_zdiv_nonneg_iff)
  have "(now - lt) div TICK < 2 ^ 31"
    using assms(2) by (simp add: TICK_def)
  with n show "sint (word_of_int ((now - lt) sdiv TICK) :: 32 word) = (now - lt) div TICK"
    unfolding q by (subst signed_of_int) (simp add: signed_take_bit_int_eq_self)
qed

lemma port_ticks_Some:
  assumes "lt \<le> now" "now - lt < 2 ^ 31"
  shows "port_ticks now lt = Some ((now - lt) div TICK, lt + (now - lt) div TICK * TICK)"
proof -
  have "(now - lt) div TICK * TICK \<le> now - lt" by (simp add: TICK_def)
  then show ?thesis
    using port_ticks_count [of lt now] assms by (simp add: port_ticks_def Let_def TICK_def)
qed

text \<open>The expirations counted over a series of timer events.\<close>

fun port_clock :: "int \<Rightarrow> int list \<Rightarrow> (int \<times> int) option" where
  "port_clock lt [] = Some (0, lt)"
| "port_clock lt (now # nows) = do { (n, lt1) \<leftarrow> port_ticks now lt; (m, lt2) \<leftarrow> port_clock lt1 nows; Some (n + m, lt2) }"

fun gaps_ok :: "int \<Rightarrow> int list \<Rightarrow> bool" where
  "gaps_ok prev [] = True"
| "gaps_ok prev (now # nows) \<longleftrightarrow> prev \<le> now \<and> now - prev < 2 ^ 31 - TICK \<and> gaps_ok now nows"

lemma port_clock_invariant:
  assumes "gaps_ok prev nows" "lt \<le> prev" "prev < lt + TICK"
  shows "\<exists>n. port_clock lt nows = Some (n, lt + n * TICK) \<and> lt + n * TICK \<le> last (prev # nows) \<and> last (prev # nows) < lt + n * TICK + TICK"
  using assms
proof (induction nows arbitrary: prev lt)
  case (Cons now nows)
  let ?n = "(now - lt) div TICK"
  have g: "prev \<le> now" "now - prev < 2 ^ 31 - TICK" "gaps_ok now nows" using Cons.prems(1) by simp_all
  have p: "port_ticks now lt = Some (?n, lt + ?n * TICK)"
    using g Cons.prems(2,3) by (intro port_ticks_Some) auto
  have "lt + ?n * TICK \<le> now" "now < lt + ?n * TICK + TICK"
    by (simp_all add: TICK_def)
  from Cons.IH [OF g(3) this] obtain m where m: "port_clock (lt + ?n * TICK) nows = Some (m, lt + ?n * TICK + m * TICK)"
      "lt + ?n * TICK + m * TICK \<le> last (now # nows)" "last (now # nows) < lt + ?n * TICK + m * TICK + TICK"
    by blast
  have "lt + ?n * TICK + m * TICK = lt + (?n + m) * TICK" by (simp add: algebra_simps)
  with p m show ?case by (intro exI [of _ "?n + m"]) simp
qed simp

text \<open>
  The clock does not drift: whenever the timer events come, as long as each comes less than about 2.14 seconds after the one before, the ticks
  counted are the whole ticks since the start, and none is lost to rounding.
\<close>

theorem port_clock_exact:
  assumes "gaps_ok start nows"
  shows "port_clock start nows = Some ((last (start # nows) - start) div TICK, start + (last (start # nows) - start) div TICK * TICK)"
proof -
  obtain n where n: "port_clock start nows = Some (n, start + n * TICK)" "start + n * TICK \<le> last (start # nows)"
      "last (start # nows) < start + n * TICK + TICK"
    using port_clock_invariant [OF assms, of start] by (auto simp: TICK_def)
  have "n = (last (start # nows) - start) div TICK"
    using n(2,3) by (simp add: TICK_def)
  with n(1) show ?thesis by simp
qed

text \<open>An event that comes 2.15 seconds after the last tick or later, as after a suspension of the process, overflows.\<close>

theorem port_ticks_overflow:
  assumes "430 * TICK \<le> now - lt" "now - lt < 2 ^ 31 * TICK"
  shows "port_ticks now lt = None"
proof -
  have "lt \<le> now" "430 \<le> (now - lt) div TICK" using assms(1) by (simp_all add: TICK_def)
  with port_ticks_count(1) [OF _ assms(2)] show ?thesis by (simp add: port_ticks_def Let_def TICK_def)
qed

section \<open>Descriptors\<close>

text \<open>As on Linux: a report wakes all waiters of the descriptor, each of them once, and closing it does so with an error.\<close>

theorem port_descriptor_wakes_waiters:
  assumes "ev_wait_info (pt_events p) = Some infos" "fd < ev_max_fd (pt_events p)" "fd < length infos" "spin_free w (fd_spinlock fd)"
    and "ev_event_fd (pt_events p) \<ge> 0" "scratch_list (fw_fibers w) (wi_waiters (infos ! fd)) fs" "distinct fs"
    and "wsd_all_ok al t (length fs + k) fibers (fw_scheduler w)" "\<forall>f \<in> set fs. f \<in> set fibers \<and> f \<notin># wsd_all (fw_scheduler w)"
  shows "\<exists>p' w' infos'.
     (if closed then fiber_fd_closed_port (wsd_ops al sps sp) t (int fd) (p, w) else poll_event_port (wsd_ops al sps sp) t (Port_Fd fd revents) (p, w))
       = Some (p', w') \<and>
     ev_wait_info (pt_events p') = Some infos' \<and> wi_waiters (infos' ! fd) = NULL \<and> spin_free w' (fd_spinlock fd) \<and>
     wsd_all (fw_scheduler w') = wsd_all (fw_scheduler w) + mset fs \<and>
     (\<forall>f \<in> set fs. fiber_wait_for_event_result f w' = Some (if closed then FIBER_ERROR else FIBER_SUCCESS))"
proof -
  let ?a = "fd_spinlock fd" and ?r = "if closed then CLOSED else NULL"
  obtain l where l: "lock_at ?a w = Some (w\<lparr>fw_spinlocks := (fw_spinlocks w)(?a \<mapsto> l)\<rparr>)" "sl_ticket l + 1 = sl_users l" "?a \<noteq> NULL"
    using lock_at_free [OF assms(4)] by blast
  let ?w1 = "w\<lparr>fw_spinlocks := (fw_spinlocks w)(?a \<mapsto> l)\<rparr>"
  obtain s where s: "fiber_event_wake_waiters (wsd_ops al sps sp) t (wi_waiters (infos ! fd)) ?r ?w1 =
        Some (?w1\<lparr>fw_fibers := map_fibers (set fs) (\<lambda>x. x\<lparr>fb_state := FIBER_STATE_READY, fb_scratch := ?r\<rparr>) (fw_fibers w), fw_scheduler := s\<rparr>)" (is "_ = Some ?w2")
      "wsd_all s = wsd_all (fw_scheduler w) + mset fs"
    using wsd_manager.wake_waiters_ok [of al t fs k fibers ?w1 "wi_waiters (infos ! fd)" sps sp ?r] assms(6-9) by auto
  obtain l' where l': "unlock_at ?a ?w2 = Some (?w2\<lparr>fw_spinlocks := (fw_spinlocks ?w2)(?a \<mapsto> l')\<rparr>)" (is "_ = Some ?w3") "sl_ticket l' = sl_users l'"
    using unlock_at_held [of ?w2 ?a l] l(2,3) by auto
  have "fiber_wait_for_event_result f ?w3 = Some (if closed then FIBER_ERROR else FIBER_SUCCESS)" if f: "f \<in> set fs" for f
    using scratch_list_members [OF assms(6) f] f by (auto simp: map_fibers_def fiber_wait_for_event_result_def CLOSED_def)
  moreover have "\<exists>p' infos'. (if closed then fiber_fd_closed_port (wsd_ops al sps sp) t (int fd) (p, w)
        else poll_event_port (wsd_ops al sps sp) t (Port_Fd fd revents) (p, w)) = Some (p', ?w3) \<and>
      ev_wait_info (pt_events p') = Some infos' \<and> wi_waiters (infos' ! fd) = NULL"
    using assms(1-3,5) l(1) s(1) l'(1) by (cases closed) (simp_all add: fiber_fd_closed_port_def poll_event_port_def Let_def)
  moreover have "spin_free ?w3 ?a" "wsd_all (fw_scheduler ?w3) = wsd_all (fw_scheduler w) + mset fs"
    using l(3) l'(2) s(2) by (simp_all add: spin_free_def)
  ultimately show ?thesis by blast
qed

text \<open>Waiting differs from Linux in the call to the kernel and its flag only: the fibers, the schedulers and the waiters change in the same way.\<close>

theorem port_wait_as_epoll:
  "map_option (\<lambda>(p', w', oc). (map_option (map wi_waiters) (ev_wait_info (pt_events p')), map_option (map wi_events) (ev_wait_info (pt_events p')), w', oc))
     (fiber_wait_for_event_port ops o1 t fd events (p, w)) =
   map_option (\<lambda>(e', w', oc). (map_option (map wi_waiters) (ev_wait_info e'), map_option (map wi_events) (ev_wait_info e'), w', oc))
     (fiber_wait_for_event ops o1 t fd events (pt_events p, w))"
proof -
  have "wanted_port = wanted"
    by (simp add: wanted_port_def wanted_def POLLIN_def POLLOUT_def EPOLLIN_def EPOLLOUT_def fun_eq_iff)
  then show ?thesis
    by (simp add: fiber_wait_for_event_port_def fiber_wait_for_event_def Let_def map_update split_def)
qed

end
