(* ===== verification/Spec2Isabelle.thy ===== *)
theory Spec2Isabelle
  imports Spsc_Fifo Mpsc_Concurrent Mpmc_Concurrent Spinlock Mpmc_Lifo Mpmc_Stack Wsd_Concurrent Ring_Buffer Hazard_Pointer
    Rwlock Mutex Semaphore Barrier Dist_Concurrent Scheduler_Wsd Scheduler_Dist
    Bounded_Channel Multi_Channel Multi_Signal
    Join Fiber_IO Cond Work_Queue Unbounded_Channel Context_Portable Cpp_Channel Cpp_Fifo Event_Ev Event_Port
begin

text \<open>
  A verification of libfiber, a library of cooperative user-level threads (\<^emph>\<open>fibers\<close>) over kernel threads, with its queues, locks,
  channels, schedulers, event systems and C++ classes.  Paths are relative to \<open>src/\<close>.

  \<^bold>\<open>The program.\<close>  Every kernel thread has a manager (\<open>src/fiber_manager.c\<close>) that runs one fiber at a time.  A fiber gives up its kernel
  thread by a call that reaches \<open>fiber_manager_yield\<close>: the manager takes another fiber from its scheduler (\<open>src/fiber_scheduler_wsd.c\<close>
  or \<open>src/fiber_scheduler_dist.c\<close>), switches contexts (\<open>src/fiber_context.c\<close>), and the fiber that runs next performs the maintenance that
  the previous one left behind: it schedules it again, puts it into a queue, publishes it in a location, releases a lock.  The locks,
  signals and channels park fibers in lock-free queues in this way; the event systems (\<open>src/fiber_event_native.c\<close>, \<open>src/fiber_event_ev.c\<close>) wake
  those that wait for descriptors or time, and \<open>src/fiber_io.c\<close> replaces the blocking system calls by ones that wait there.

  \<^bold>\<open>Conventions\<close> (\<open>Fiber_Prelude\<close>).  A function that can fail has an option as its result, and \<open>None\<close> is a fault: a failed \<open>assert\<close>, an
  access through NULL, to a freed block or outside an array, or a loop that never ends (\<open>partial_function (option)\<close>, so that a theorem which gives
  a result also says that the loop ends).  Pointers are numbers with NULL = 0, and every type of node has its own heap.  What the allocator, the
  kernel, the clock or a compare-and-swap that may fail spuriously answers is an argument.  Counters of the code are words of their width.

  \<^bold>\<open>Two kinds of models.\<close>  Operations that run under a lock, or on data of one thread, are functions from state to state.  Lock-free code is cut at
  its accesses to shared memory: each thread has a position (a \<open>\<dots>_pc\<close> datatype), one function performs the next access of a thread, and a
  schedule is any list of actions.  \<open>Step_Machine\<close> has the interfaces for the latter: the locale \<open>machine\<close> lifts an invariant from one step to
  all schedules, the locale \<open>progress\<close> derives that a thread gets to its goal when every thread steps again and again, and \<open>weight\<close> counts
  threads by position.  Memory is sequentially consistent.

  \<^bold>\<open>Queues.\<close>
  \<^item> \<open>Fifo_Spec\<close>: the contracts \<open>fifo_queue\<close> and \<open>bounded_queue\<close>, with refinement of an abstract list proved once inside them; interpreted by
    \<open>Mpsc_Fifo\<close> (\<open>include/mpsc_fifo.h\<close>, \<open>mpsc_relaxed_fifo.h\<close>), \<open>Spsc_Fifo\<close> (\<open>spsc_fifo.h\<close>), \<open>Dist_Fifo\<close> (\<open>dist_fifo.h\<close>) and
    \<open>Ring_Buffer\<close> (\<open>lockfree_ring_buffer.h\<close>).
  \<^item> \<open>Mpsc_Concurrent\<close>, \<open>Dist_Concurrent\<close>, \<open>Mpmc_Lifo\<close>, \<open>Mpmc_Stack\<close>: the same queues and the stacks \<open>mpmc_lifo.h\<close> and \<open>mpmc_stack.h\<close> under every
    schedule, with nodes that are used again: first in first out (last in first out), nothing lost or duplicated.
  \<^item> \<open>Hazard_Pointer\<close> and \<open>Mpmc_Fifo\<close> (\<open>src/hazard_pointer.c\<close>, \<open>mpmc_fifo.h\<close>) one call at a time: a scan reclaims exactly what no record
    protects.  \<open>Mpmc_Concurrent\<close> interleaves push, pop, retirement and scan of any number of threads while clients free and reuse what they
    get back: no access to a freed node, and first in first out.
  \<^item> \<open>Work_Stealing_Deque\<close> and \<open>Wsd_Concurrent\<close> (\<open>src/work_stealing_deque.c\<close>): growth and destruction of the arrays; the owner and any number of
    thieves behave as on a list with two ends.
  \<^item> \<open>Pending_Chain\<close>: chains whose producers replace the tail first and link afterwards, shared by \<open>Mpmc_Concurrent\<close> and \<open>Cpp_Fifo\<close>.

  \<^bold>\<open>Locks and signals.\<close>
  \<^item> \<open>Spinlock\<close> (\<open>src/fiber_spinlock.c\<close>): exclusion, service in the order of the tickets, and that every thread with a ticket is served.
  \<^item> \<open>Mutex\<close>, \<open>Rwlock\<close>, \<open>Semaphore\<close>, \<open>Cond\<close>, \<open>Barrier\<close> (the files \<open>src/fiber_*.c\<close> of these names): exclusion or the number of permits, and that no
    waiter is left behind with nobody to wake it.  \<open>Cond\<close> is built on two instances of the steps of \<open>Mutex\<close>.
  \<^item> \<open>Signal\<close> and \<open>Multi_Signal\<close> (\<open>include/fiber_signal.h\<close>): a waiter is known to exactly one place, and is never scheduled before its context is saved.
  \<^item> \<open>Schedule_Lock\<close> (\<open>src/schedule_lock.c\<close>).

  \<^bold>\<open>Channels and work.\<close>  \<open>Bounded_Channel\<close> and \<open>Unbounded_Channel\<close> (\<open>include/fiber_channel.h\<close>) run the steps of \<open>Signal\<close> inside their own: messages
  arrive in order and once, and no receiver sleeps while a message is there.  \<open>Multi_Channel\<close> (\<open>include/fiber_multi_channel.h\<close>) steps by critical
  sections of its mutex.  \<open>Work_Queue\<close> (\<open>src/work_queue.c\<close>): one worker at a time, and none gives up while there are items.

  \<^bold>\<open>Fibers and managers.\<close>
  \<^item> \<open>Fiber_Types\<close>, \<open>Join\<close> (\<open>src/fiber.c\<close>): joining, trying to join and detaching a fiber while it completes.
  \<^item> \<open>Context\<close>, \<open>Context_Portable\<close> (\<open>src/fiber_context.c\<close>): stacks, first frames, the instructions of the x86-64 and i386 switches on a small
    processor, and the variant over \<open>ucontext.h\<close>.
  \<^item> \<open>Scheduler\<close> with the contracts \<open>scheduler\<close> and \<open>balanced_scheduler\<close> of \<open>include/fiber_scheduler.h\<close> (no fiber is lost or duplicated), interpreted by
    \<open>Scheduler_Wsd\<close> and \<open>Scheduler_Dist\<close>.
  \<^item> \<open>Manager\<close> (state, switching, maintenance, waiting and waking; creation of fibers), with the contract \<open>manager_scheduler\<close> interpreted on the
    work stealing scheduler, and \<open>Manager_Control\<close> (start, maintenance fiber, shutdown, statistics): a yield exchanges one fiber for another and
    loses none, unless the global scheduling flag is set.

  \<^bold>\<open>Events and system calls.\<close>  \<open>Sleep_Tree\<close> and \<open>Event\<close> (\<open>src/fiber_event_native.c\<close> with epoll): registration before another fiber runs, exactly
  the fibers due are woken, all waiters of a descriptor learn of an event or of its closing.  \<open>Event_Ev\<close> (\<open>src/fiber_event_ev.c\<close>).  \<open>Event_Port\<close>: the
  variant for Solaris, whose clock does not drift but overflows when two timer events are more than two seconds apart.  \<open>Fiber_IO\<close>
  (\<open>src/fiber_io.c\<close>): the calls behave as a reference that skips the turns which the kernel refuses, and the table of flags is safe.

  \<^bold>\<open>C++.\<close>  \<open>Cpp_Channel\<close> (\<open>cpp/channel.hpp\<close>) with the contract \<open>event_queue\<close> for both queues: events arrive in order with their payloads and no block leaks.
  \<open>Cpp_Fifo\<close> (\<open>cpp/lockfree_fifo.hpp\<close>): linearizability for all four kinds of queues.

  \<^bold>\<open>Behaviour that the code does not intend\<close> is stated where it was found: a yield with the scheduling flag set loses a fiber (\<open>Manager_Control\<close>); with
  several kernel threads a fiber can pass the barrier early (\<open>Barrier\<close>); a wake-up of the multi-channel can go to the wrong side
  (\<open>Multi_Channel\<close>); a join that races with a detach waits for ever (\<open>Join\<close>); a descriptor cannot be made non-blocking (\<open>Fiber_IO\<close>); freeing an event
  frees the block of one that is still held (\<open>Cpp_Channel\<close>); a pop of the C++ queue can follow a pointer that it read from freed memory
  (\<open>Cpp_Fifo\<close>); a mapped stack can be smaller than asked for, and the first frame on i386 is misaligned (\<open>Context\<close>).

  \<^bold>\<open>Bounds.\<close>  No model uses fuel.  Schedules are shorter than \<open>2 ^ 64\<close> where a 64-bit counter must not wrap (ring buffer, channels, tagged
  pointers), which no run of the program reaches; the semaphore counts in 31 bits, so its initial value and the schedule together stay below
  \<open>2 ^ 31\<close>.  The number of fibers or threads at one lock is below the width of its counter: \<open>2 ^ 32\<close> for spin lock and mutex, half of that for the
  condition variable, \<open>2 ^ 21\<close> for the reader-writer lock.  Ring buffer and bounded channel have at most \<open>2 ^ 28\<close> places, because
  the size of the block is computed in 32 bits and wraps above.

  \<^bold>\<open>Not modelled.\<close>  Weak memory orders and fences: all accesses are sequentially consistent.  Split stacks, and the hooks for sanitizers and valgrind
  (code of the compiler and of other tools).  \<open>fiber_load_symbol\<close> and the lookup of the original system calls (the dynamic linker).  Starting and
  joining kernel threads at start and shutdown (pthreads).  The pausing, yielding and sleeping wait strategies of the C++ queue
  and its i386 compare-and-swap.  \<open>cpp/signal.hpp\<close>, whose methods forward to the functions of \<open>Signal\<close>.  The
  manager, the schedulers and the events run one call at a time; of them only the queues and locks they are made of are interleaved.  The
  programs in \<open>test/\<close> and \<open>example/\<close> are clients of the library, and those in \<open>go/\<close> do not use it.
\<close>

end
